(* ===== verification/Prelude.thy ===== *)
theory Prelude
  imports Main "HOL-Library.Word"
begin

section \<open>Prelude: machine types, memory copies and shared list facts\<close>

text \<open>
  The machine integers of the program (\<open>byte\<close>, \<open>uint32\<close>, \<open>uint64\<close>) as words, the
  copy of a run of bytes into a buffer (\<open>memcpy\<close> with a destination offset), addition and
  subtraction of 32-bit counters kept as naturals, and the list facts that several components share.
  \<open>bytes_simps\<close> collects the rewrite rules for contents and positions of byte buffers,
  \<open>bounds_intros\<close> the introduction rules for index bounds.
\<close>

unbundle bit_operations_syntax

type_synonym byte = "8 word"
type_synonym u16 = "16 word"
type_synonym u32 = "32 word"
type_synonym u64 = "64 word"

named_theorems bytes_simps \<open>contents, sizes and positions of byte buffers\<close>
named_theorems bounds_intros \<open>index and size bounds\<close>

subsection \<open>Counters of 32 bits kept as naturals\<close>

definition add32 :: "nat \<Rightarrow> nat \<Rightarrow> nat" where
  "add32 a b = (a + b) mod 2 ^ 32"

lemma add32_eq [bytes_simps]: "a + b < 2 ^ 32 \<Longrightarrow> add32 a b = a + b"
  by (simp add: add32_def)

lemma add32_0 [simp]: "a < 2 ^ 32 \<Longrightarrow> add32 a 0 = a"
  by (simp add: add32_def)

definition sub32 :: "nat \<Rightarrow> nat \<Rightarrow> nat" where
  "sub32 a b = (a + 2 ^ 32 - b mod 2 ^ 32) mod 2 ^ 32"

lemma sub32_eq [bytes_simps]:
  assumes "b \<le> a" "a < 2 ^ 32"
  shows "sub32 a b = a - b"
proof -
  have "a + 2 ^ 32 - b = (a - b) + 2 ^ 32" using assms by simp
  then show ?thesis using assms by (simp only: sub32_def mod_less le_less_trans [OF assms] mod_add_self2)
qed

text \<open>\<open>static_cast<int32>\<close> of an unsigned 32-bit value.\<close>

definition to_int32 :: "nat \<Rightarrow> int" where
  "to_int32 n = (if n < 2 ^ 31 then int n else int n - 2 ^ 32)"

lemma to_int32_small [simp]: "n < 2 ^ 31 \<Longrightarrow> to_int32 n = int n"
  by (simp add: to_int32_def)

subsection \<open>Copying a run of bytes into a buffer\<close>

text \<open>
  \<open>put_at i xs ys\<close> is the buffer \<open>ys\<close> after \<open>memcpy(&ys[i], xs, length xs)\<close>. The program
  never copies past the end of the destination; the lemmas about the length need that.
\<close>

definition put_at :: "nat \<Rightarrow> 'a list \<Rightarrow> 'a list \<Rightarrow> 'a list" where
  "put_at i xs ys = take i ys @ xs @ drop (i + length xs) ys"

lemma length_put_at [simp]: "i + length xs \<le> length ys \<Longrightarrow> length (put_at i xs ys) = length ys"
  by (simp add: put_at_def)

lemma put_at_Nil [simp]: "put_at i [] ys = ys"
  by (simp add: put_at_def)

lemma take_put_at: "j \<le> i \<Longrightarrow> i \<le> length ys \<Longrightarrow> take j (put_at i xs ys) = take j ys"
  by (simp add: put_at_def min_absorb1)

lemma take_put_at_end:
  "i \<le> length ys \<Longrightarrow> take (i + length xs) (put_at i xs ys) = take i ys @ xs"
  by (simp add: put_at_def)

lemma drop_put_at:
  "i + length xs \<le> j \<Longrightarrow> i \<le> length ys \<Longrightarrow> drop j (put_at i xs ys) = drop j ys"
  by (simp add: put_at_def)

lemma put_at_put_at:
  "j = i + length xs \<Longrightarrow> i \<le> length b \<Longrightarrow> put_at j ys (put_at i xs b) = put_at i (xs @ ys) b"
  by (simp add: put_at_def add.commute add.left_commute)

lemma put_at_to_end: "i + length xs = length b \<Longrightarrow> put_at i xs b = take i b @ xs"
  by (simp add: put_at_def)

subsection \<open>Lists\<close>

lemma nth_eq_take_drop_Cons: "i < length xs \<Longrightarrow> xs = take i xs @ xs ! i # drop (Suc i) xs"
  by (rule id_take_nth_drop)

lemma concat_map_split:
  "i < length xs \<Longrightarrow>
     concat (map f xs) = concat (map f (take i xs)) @ f (xs ! i) @ concat (map f (drop (Suc i) xs))"
  by (subst id_take_nth_drop [of i xs], assumption) simp

lemma sum_list_split:
  "i < length xs \<Longrightarrow>
     sum_list (map f xs) = sum_list (map f (take i xs)) + f (xs ! i) + sum_list (map f (drop (Suc i) xs))"
  for f :: "'a \<Rightarrow> nat"
  by (subst id_take_nth_drop [of i xs], assumption) simp

lemma sum_list_take_Suc:
  "i < length xs \<Longrightarrow> sum_list (map f (take (Suc i) xs)) = sum_list (map f (take i xs)) + f (xs ! i)"
  for f :: "'a \<Rightarrow> nat"
  by (simp add: take_Suc_conv_app_nth)

lemma drop_append_drop: "drop (length xs + n) (xs @ ys) = drop n ys"
  by simp

end
