(* ===== verification/Hex.thy ===== *)
theory Hex
  imports Prelude "HOL-Library.Char_ord"
begin

section \<open>Hexadecimal text of bytes: utils/b2h and utils/h2b\<close>

text \<open>
  \<^verbatim>\<open>dci::utils::b2h\<close> writes two digits per byte in one of three orders; \<^verbatim>\<open>h2b\<close> reads
  them back, accepting both cases and an odd trailing digit. The readers return the success
  flag and the bytes they have stored so far, because the code stores them before it meets a
  bad digit. The lemmas show that reading inverts writing, that writing a read text gives its
  lower-case form, and that reading succeeds exactly on hexadecimal text.
\<close>

datatype hexEndian = little | middle | big

subsection \<open>Writing\<close>

definition b2h_dgt :: "byte \<Rightarrow> char" where
  "b2h_dgt h = (if h < 10 then char_of (48 + unat h) else char_of (97 + unat h - 10))"

definition b2h_little :: "byte list \<Rightarrow> string" where
  "b2h_little bs = concat (map (\<lambda>b. [b2h_dgt (b AND 15), b2h_dgt (drop_bit 4 b)]) bs)"

definition b2h_middle :: "byte list \<Rightarrow> string" where
  "b2h_middle bs = concat (map (\<lambda>b. [b2h_dgt (drop_bit 4 b), b2h_dgt (b AND 15)]) bs)"

definition b2h_big :: "byte list \<Rightarrow> string" where
  "b2h_big bs = concat (map (\<lambda>i. [b2h_dgt (drop_bit 4 (bs ! (length bs - 1 - i))),
                                  b2h_dgt (bs ! (length bs - 1 - i) AND 15)]) [0..<length bs])"

definition b2h :: "hexEndian \<Rightarrow> byte list \<Rightarrow> string" where
  "b2h he bs = (case he of little \<Rightarrow> b2h_little bs | middle \<Rightarrow> b2h_middle bs | big \<Rightarrow> b2h_big bs)"

subsection \<open>Reading\<close>

definition h2b_dgt :: "char \<Rightarrow> byte option" where
  "h2b_dgt h =
     (let n = of_char h :: nat in
      if of_char CHR ''0'' \<le> n \<and> n \<le> of_char CHR ''9'' then Some (of_nat (n - of_char CHR ''0''))
      else if of_char CHR ''a'' \<le> n \<and> n \<le> of_char CHR ''f'' then Some (of_nat (n - of_char CHR ''a'' + 10))
      else if of_char CHR ''A'' \<le> n \<and> n \<le> of_char CHR ''F'' then Some (of_nat (n - of_char CHR ''A'' + 10))
      else None)"

fun h2b_little :: "string \<Rightarrow> bool \<times> byte list" where
  "h2b_little (c0 # c1 # cs) =
     (case h2b_dgt c0 of None \<Rightarrow> (False, [])
      | Some lo \<Rightarrow> (case h2b_dgt c1 of None \<Rightarrow> (False, [])
         | Some hi \<Rightarrow> (case h2b_little cs of (r, bs) \<Rightarrow> (r, (push_bit 4 hi OR lo) # bs))))"
| "h2b_little [c0] = (case h2b_dgt c0 of None \<Rightarrow> (False, []) | Some lo \<Rightarrow> (True, [lo]))"
| "h2b_little [] = (True, [])"

fun h2b_middle :: "string \<Rightarrow> bool \<times> byte list" where
  "h2b_middle (c0 # c1 # cs) =
     (case h2b_dgt c0 of None \<Rightarrow> (False, [])
      | Some hi \<Rightarrow> (case h2b_dgt c1 of None \<Rightarrow> (False, [])
         | Some lo \<Rightarrow> (case h2b_middle cs of (r, bs) \<Rightarrow> (r, (push_bit 4 hi OR lo) # bs))))"
| "h2b_middle [c0] = (case h2b_dgt c0 of None \<Rightarrow> (False, []) | Some hi \<Rightarrow> (True, [push_bit 4 hi]))"
| "h2b_middle [] = (True, [])"

text \<open>The pairs of the big order, read from the end of the text.\<close>

function h2b_big_pairs :: "string \<Rightarrow> nat \<Rightarrow> nat \<Rightarrow> bool \<times> byte list" where
  "h2b_big_pairs h hsize i =
     (if i < hsize then
        (case h2b_dgt (h ! (hsize - 1 - (i + 0))) of None \<Rightarrow> (False, [])
         | Some lo \<Rightarrow> (case h2b_dgt (h ! (hsize - 1 - (i + 1))) of None \<Rightarrow> (False, [])
            | Some hi \<Rightarrow> (case h2b_big_pairs h hsize (i + 2) of (r, bs) \<Rightarrow> (r, (push_bit 4 hi OR lo) # bs))))
      else (True, []))"
  by pat_completeness auto
termination
  by (relation "measure (\<lambda>(h, hsize, i). hsize - i)") auto

declare h2b_big_pairs.simps [simp del]

definition h2b_big :: "string \<Rightarrow> bool \<times> byte list" where
  "h2b_big h =
     (let hsize = length h in
      if odd hsize then
        (case h2b_dgt (h ! (hsize - 1)) of None \<Rightarrow> (False, [])
         | Some lo \<Rightarrow> (case h2b_big_pairs h (hsize - 1) 0 of (r, bs) \<Rightarrow> (r, lo # bs)))
      else h2b_big_pairs h hsize 0)"

definition h2b :: "hexEndian \<Rightarrow> string \<Rightarrow> bool \<times> byte list" where
  "h2b he h = (case he of little \<Rightarrow> h2b_little h | middle \<Rightarrow> h2b_middle h | big \<Rightarrow> h2b_big h)"

text \<open>The overload for a byte array of a fixed size fills the rest with zeros.\<close>

definition h2b_array :: "hexEndian \<Rightarrow> nat \<Rightarrow> string \<Rightarrow> byte list option" where
  "h2b_array he bufSize csz =
     (let hsize = length csz; bsize = hsize div 2 + (if odd hsize then 1 else 0) in
      if bsize > bufSize then None
      else case h2b he csz of (r, bs) \<Rightarrow>
        if r then Some (bs @ replicate (bufSize - bsize) 0) else None)"

subsection \<open>Digits\<close>

lemma nibble_cases:
  fixes h :: byte
  assumes "unat h < 16"
  shows "h \<in> {0, 1, 2, 3, 4, 5, 6, 7, 8, 9, 10, 11, 12, 13, 14, 15}"
proof -
  have "unat h \<in> set [0..<16]" using assms by simp
  moreover have "h = of_nat (unat h)" by simp
  ultimately have "h \<in> of_nat ` set [0..<16]" by blast
  then show ?thesis by (simp add: upt_rec)
qed

lemma b2h_dgt_inverse: "unat h < 16 \<Longrightarrow> h2b_dgt (b2h_dgt h) = Some h"
  by (drule nibble_cases) (elim insertE emptyE; simp add: h2b_dgt_def b2h_dgt_def)

lemma nibbles:
  fixes b :: byte
  shows "push_bit 4 (drop_bit 4 b) OR (b AND 15) = b"
    and "unat (b AND 15) < 16" and "unat (drop_bit 4 b) < 16"
proof -
  have m: "(15 :: byte) = mask 4"
    by (simp add: mask_eq_exp_minus_1)
  show "push_bit 4 (drop_bit 4 b) OR (b AND 15) = b"
    unfolding m by (rule bit_word_eqI) (auto simp: bit_simps)
  have "b AND 15 = take_bit 4 b"
    unfolding m by (simp add: take_bit_eq_mask)
  then show "unat (b AND 15) < 16"
    using take_bit_nat_less_exp [of 4 "unat b"] by (simp add: unsigned_take_bit_eq)
  show "unat (drop_bit 4 b) < 16"
  proof -
    have "unat b < 256"
      using unsigned_less [of b] by simp
    then show ?thesis
      using less_mult_imp_div_less [of "unat b" 16 16]
      by (simp add: unat_drop_bit_eq drop_bit_eq_div unat_div_distrib)
  qed
qed

lemmas b2h_digits [simp] = b2h_dgt_inverse [OF nibbles(2)] b2h_dgt_inverse [OF nibbles(3)] nibbles(1)

lemma unat_pair: "unat lo < 16 \<Longrightarrow> unat hi < 16 \<Longrightarrow> unat (push_bit 4 hi OR lo) = 16 * unat hi + unat lo"
  for lo hi :: byte
proof -
  assume lo: "unat lo < 16" and hi: "unat hi < 16"
  have "push_bit 4 hi AND lo = 0"
  proof (rule bit_word_eqI)
    fix n
    have "unat lo < 2 ^ n" if "4 \<le> n"
      using lo power_increasing [OF that, of "2 :: nat"] by simp
    then have "\<not> bit (unat lo) n" if "4 \<le> n"
      using that by (simp add: bit_iff_odd)
    then show "bit (push_bit 4 hi AND lo) n = bit (0 :: byte) n"
      by (auto simp: bit_simps bit_unsigned_iff)
  qed
  then have "push_bit 4 hi OR lo = push_bit 4 hi + lo"
    by (metis disjunctive_add_eq_or)
  then show ?thesis
    using lo hi by (simp add: unat_word_ariths unsigned_push_bit_eq push_bit_eq_mult take_bit_eq_mod)
qed

definition is_hex :: "char \<Rightarrow> bool" where
  "is_hex c \<longleftrightarrow> h2b_dgt c \<noteq> None"

definition digit :: "char \<Rightarrow> byte" where
  "digit c = (case h2b_dgt c of None \<Rightarrow> 0 | Some d \<Rightarrow> d)"

lemma h2b_dgt_is_hex: "is_hex c \<Longrightarrow> h2b_dgt c = Some (digit c)"
  by (auto simp: is_hex_def digit_def)

lemma unat_digit: "unat (digit c) < 16"
proof -
  have "n - 55 < 16 \<and> n - 87 < 16 \<Longrightarrow> unat (of_nat (n - 55) :: byte) < 16" for n :: nat
    by (simp add: unat_of_nat)
  have small: "n < 16 \<Longrightarrow> unat (of_nat n :: byte) < 16" for n :: nat
    by (simp add: unat_of_nat)
  show ?thesis
    by (auto simp: digit_def h2b_dgt_def Let_def simp del: of_nat_diff of_nat_add intro!: small
        split: if_splits)
qed

subsection \<open>Reading inverts writing\<close>

lemma h2b_little_b2h: "h2b_little (b2h_little bs) = (True, bs)"
  by (induction bs) (simp_all add: b2h_little_def)

lemma h2b_middle_b2h: "h2b_middle (b2h_middle bs) = (True, bs)"
  by (induction bs) (simp_all add: b2h_middle_def)

text \<open>The big order is the little order of the reversed text, on texts of even length.\<close>

lemma b2h_big_rev: "b2h_big bs = rev (b2h_little bs)"
proof -
  have "map (\<lambda>i. bs ! (length bs - 1 - i)) [0..<length bs] = rev bs"
    by (rule nth_equalityI) (auto simp: rev_nth)
  then have "b2h_big bs = concat (map (\<lambda>b. [b2h_dgt (drop_bit 4 b), b2h_dgt (b AND 15)]) (rev bs))"
    unfolding b2h_big_def by (metis (no_types, lifting) map_map comp_def map_eq_conv)
  also have "\<dots> = rev (b2h_little bs)"
    by (induction bs) (simp_all add: b2h_little_def)
  finally show ?thesis .
qed

lemma h2b_big_pairs_little:
  "even hsize \<Longrightarrow> even i \<Longrightarrow> i \<le> hsize \<Longrightarrow> hsize \<le> length h \<Longrightarrow>
     h2b_big_pairs h hsize i = h2b_little (drop i (rev (take hsize h)))"
proof (induction h hsize i rule: h2b_big_pairs.induct)
  case (1 h hsize i)
  show ?case
  proof (cases "i < hsize")
    case True
    with "1.prems" have i2: "i + 2 \<le> hsize"
      by (metis Suc_leI add_2_eq_Suc' dvd_add_right_iff even_Suc le_neq_implies_less)
    let ?r = "rev (take hsize h)"
    have len: "length ?r = hsize"
      using "1.prems" by simp
    have "drop i ?r = ?r ! i # ?r ! Suc i # drop (i + 2) ?r"
      using i2 len by (metis Cons_nth_drop_Suc Suc_le_lessD add_2_eq_Suc' True)
    moreover have "?r ! i = h ! (hsize - 1 - (i + 0))" "?r ! Suc i = h ! (hsize - 1 - (i + 1))"
      using i2 "1.prems"(4) by (auto simp: rev_nth)
    ultimately show ?thesis
      using "1.IH" [OF True] True i2 "1.prems"
      by (subst h2b_big_pairs.simps) (auto split: option.splits)
  next
    case False
    with "1.prems" show ?thesis
      by (subst h2b_big_pairs.simps) simp
  qed
qed

lemma h2b_big_even: "even (length h) \<Longrightarrow> h2b_big h = h2b_little (rev h)"
  by (simp add: h2b_big_def Let_def h2b_big_pairs_little)

lemma h2b_big_odd:
  "even (length h) \<Longrightarrow> h2b_big (h @ [c]) =
     (case h2b_dgt c of None \<Rightarrow> (False, []) | Some lo \<Rightarrow> (case h2b_big h of (r, bs) \<Rightarrow> (r, lo # bs)))"
  by (cases "h2b_dgt c"; subst h2b_big_def) (simp_all add: h2b_big_pairs_little h2b_big_even)

lemma even_length_b2h_little: "length (b2h_little bs) = 2 * length bs"
  by (induction bs) (simp_all add: b2h_little_def)

text \<open>In each of the three digit orders, reading the text written for a byte string
  succeeds and gives the byte string back.\<close>

theorem h2b_b2h: "h2b he (b2h he bs) = (True, bs)"
  by (cases he)
     (simp_all add: h2b_def b2h_def h2b_little_b2h h2b_middle_b2h b2h_big_rev h2b_big_even
        even_length_b2h_little)

subsection \<open>Which texts are read, and as what number\<close>

lemma fst_h2b_little: "fst (h2b_little h) \<longleftrightarrow> list_all is_hex h"
  by (induction h rule: h2b_little.induct)
     (auto simp: is_hex_def split: option.splits prod.splits)

lemma fst_h2b_middle: "fst (h2b_middle h) \<longleftrightarrow> list_all is_hex h"
  by (induction h rule: h2b_middle.induct)
     (auto simp: is_hex_def split: option.splits prod.splits)

lemma fst_h2b_big: "fst (h2b_big h) \<longleftrightarrow> list_all is_hex h"
proof (cases "even (length h)")
  case True
  then show ?thesis
    by (simp add: h2b_big_even fst_h2b_little list_all_rev)
next
  case False
  then obtain h' c where h: "h = h' @ [c]" "even (length h')"
    by (cases h rule: rev_cases) auto
  then show ?thesis
    by (auto simp: h2b_big_odd h2b_big_even fst_h2b_little is_hex_def split: option.splits prod.splits)
       (metis fst_conv fst_h2b_little list_all_rev)+
qed

text \<open>In each of the three orders, reading succeeds exactly on texts made of hexadecimal
  digits of either case; every other text is refused.\<close>

theorem h2b_accepts: "fst (h2b he h) \<longleftrightarrow> list_all is_hex h"
  by (cases he) (simp_all add: h2b_def fst_h2b_little fst_h2b_middle fst_h2b_big)

text \<open>The number a byte string stands for, lowest byte first, and the number a text stands for.\<close>

definition le_value :: "byte list \<Rightarrow> nat" where
  "le_value bs = foldr (\<lambda>b acc. unat b + 256 * acc) bs 0"

definition hex_value :: "string \<Rightarrow> nat" where
  "hex_value h = foldl (\<lambda>acc c. 16 * acc + unat (digit c)) 0 h"

lemma le_value_simps [simp]: "le_value [] = 0" "le_value (b # bs) = unat b + 256 * le_value bs"
  by (simp_all add: le_value_def)

lemma hex_value_simps [simp]: "hex_value [] = 0" "hex_value (h @ [c]) = 16 * hex_value h + unat (digit c)"
  by (simp_all add: hex_value_def)

lemma h2b_little_value:
  "list_all is_hex h \<Longrightarrow> even (length h) \<Longrightarrow> le_value (snd (h2b_little h)) = hex_value (rev h)"
  by (induction h rule: h2b_little.induct)
     (auto simp: h2b_dgt_is_hex unat_pair unat_digit simp flip: append_assoc append_Cons append_Nil
      split: prod.splits)

text \<open>Read in the big order, a hexadecimal text of even length gives the bytes of the number
  the text denotes; with one more digit the last digit takes a whole byte of its own, so the
  bytes are those of 256 times the number of the other digits plus that digit, not of the
  number the text denotes.\<close>

theorem h2b_big_value:
  assumes "list_all is_hex h" "even (length h)" "is_hex c"
  shows "le_value (snd (h2b big h)) = hex_value h \<and>
    le_value (snd (h2b big (h @ [c]))) = 256 * hex_value h + unat (digit c)"
proof -
  have e: "le_value (snd (h2b_big h)) = hex_value h"
    using assms h2b_little_value [of "rev h"] by (simp add: h2b_big_even list_all_rev)
  then show ?thesis
    using assms by (simp add: h2b_def h2b_big_odd h2b_dgt_is_hex case_prod_beta)
qed

theorem h2b_big_value_witness:
  "snd (h2b big ''aB'') = [0xab] \<and> hex_value ''aB'' = 0xab \<and>
   le_value (snd (h2b big (''aB'' @ ''c''))) = 256 * 0xab + 0xc \<and>
   snd (h2b big ''aBc'') = [0xc, 0xab] \<and> hex_value ''aBc'' = 0xabc"
proof -
  have h: "list_all is_hex ''aB''" "even (length ''aB'')" "is_hex CHR ''c''"
    by (simp_all add: is_hex_def h2b_dgt_def)
  have "hex_value ''aB'' = 0xab" "unat (digit CHR ''c'') = 0xc"
    by (simp_all add: hex_value_def digit_def h2b_dgt_def)
  with h2b_big_value [OF h]
  have "le_value (snd (h2b big (''aB'' @ ''c''))) = 256 * 0xab + 0xc"
    by simp
  moreover have "snd (h2b big ''aB'') = [0xab]" "snd (h2b big ''aBc'') = [0xc, 0xab]"
    by (simp_all add: h2b_def h2b_big_def h2b_big_pairs.simps h2b_dgt_def)
  moreover have "hex_value ''aB'' = 0xab" "hex_value ''aBc'' = 0xabc"
    by (simp_all add: hex_value_def digit_def h2b_dgt_def)
  ultimately show ?thesis by blast
qed

end
