(* ===== verification/Chunks.thy ===== *)
theory Chunks
  imports Prelude
begin

section \<open>Chunks and buffers of core/bytes\<close>

text \<open>
  \<^verbatim>\<open>dci::bytes::Chunk\<close> is a 1024-byte array with a window \<open>[begin, end)\<close> of used bytes, linked
  to a next and a previous chunk; \<^verbatim>\<open>dci::bytes::Buffer\<close> is the doubly linked list of chunks with
  its size and a share counter. Here the linked list is the list of its chunks in order
  (\<open>ChunkLinks\<close> treats the links themselves). The bytes of a new chunk are what the
  allocator leaves in the memory, so they are a parameter \<open>g\<close> of every operation that
  allocates. \<open>contents\<close> is the abstraction: the bytes a reader sees.
\<close>

record chunk =
  ch_buffer :: "byte list"
  ch_begin :: nat
  ch_end :: nat

record buffer =
  bf_chunks :: "chunk list"
  bf_size :: nat
  bf_share :: nat

definition bufferSize :: nat where
  "bufferSize = 1024"

text \<open>The \<open>uint16\<close> difference of the two offsets, and the bytes from the first used one on.\<close>

definition chunk_size :: "chunk \<Rightarrow> nat" where
  "chunk_size c = (ch_end c + 2 ^ 16 - ch_begin c) mod 2 ^ 16"

definition chunk_data :: "chunk \<Rightarrow> byte list" where
  "chunk_data c = drop (ch_begin c) (ch_buffer c)"

definition new_chunk :: "byte list \<Rightarrow> nat \<Rightarrow> nat \<Rightarrow> chunk" where
  "new_chunk g b e = \<lparr>ch_buffer = g, ch_begin = b, ch_end = e\<rparr>"

definition setBegin :: "nat \<Rightarrow> chunk \<Rightarrow> chunk" where
  "setBegin b c = c\<lparr>ch_begin := b\<rparr>"

definition setEnd :: "nat \<Rightarrow> chunk \<Rightarrow> chunk" where
  "setEnd e c = c\<lparr>ch_end := e\<rparr>"

definition chunk_consistent :: "chunk \<Rightarrow> bool" where
  "chunk_consistent c \<longleftrightarrow>
     (if ch_begin c > bufferSize then False
      else if ch_end c > bufferSize then False
      else if ch_begin c \<ge> ch_end c then False
      else True)"

text \<open>Writing bytes through a pointer into the array of a chunk, at an offset from its data.\<close>

definition chunk_store :: "nat \<Rightarrow> byte list \<Rightarrow> chunk \<Rightarrow> chunk" where
  "chunk_store off xs c = c\<lparr>ch_buffer := put_at (ch_begin c + off) xs (ch_buffer c)\<rparr>"

definition addSize :: "nat \<Rightarrow> buffer \<Rightarrow> buffer" where
  "addSize n b = b\<lparr>bf_size := add32 (bf_size b) n\<rparr>"

definition decSize :: "nat \<Rightarrow> buffer \<Rightarrow> buffer" where
  "decSize n b = b\<lparr>bf_size := sub32 (bf_size b) n\<rparr>"

definition buffer_consistent :: "buffer \<Rightarrow> bool" where
  "buffer_consistent b \<longleftrightarrow>
     list_all chunk_consistent (bf_chunks b) \<and>
     sum_list (map chunk_size (bf_chunks b)) mod 2 ^ 32 = bf_size b"

subsection \<open>The bytes a reader sees\<close>

definition chunk_content :: "chunk \<Rightarrow> byte list" where
  "chunk_content c = take (chunk_size c) (chunk_data c)"

definition contents :: "chunk list \<Rightarrow> byte list" where
  "contents cs = concat (map chunk_content cs)"

definition chunk_ok :: "chunk \<Rightarrow> bool" where
  "chunk_ok c \<longleftrightarrow> ch_begin c < ch_end c \<and> ch_end c \<le> bufferSize \<and> length (ch_buffer c) = bufferSize"

definition chunks_ok :: "chunk list \<Rightarrow> bool" where
  "chunks_ok cs \<longleftrightarrow> (\<forall>c\<in>set cs. chunk_ok c)"

text \<open>The offset of the first byte of chunk \<open>i\<close>.\<close>

definition start_of :: "chunk list \<Rightarrow> nat \<Rightarrow> nat" where
  "start_of cs i = sum_list (map chunk_size (take i cs))"

lemma chunk_consistent_iff:
  "chunk_consistent c \<longleftrightarrow> ch_begin c < ch_end c \<and> ch_end c \<le> bufferSize"
  by (auto simp: chunk_consistent_def)

lemma chunk_ok_consistent: "chunk_ok c \<Longrightarrow> chunk_consistent c"
  by (simp add: chunk_ok_def chunk_consistent_iff)

lemma chunk_size_eq:
  assumes "ch_begin c \<le> ch_end c" "ch_end c \<le> bufferSize"
  shows "chunk_size c = ch_end c - ch_begin c"
proof -
  have "ch_end c + 2 ^ 16 - ch_begin c = (ch_end c - ch_begin c) + 2 ^ 16"
    using assms(1) by simp
  moreover have "ch_end c - ch_begin c < 2 ^ 16"
    using assms(2) by (simp add: bufferSize_def)
  ultimately show ?thesis
    unfolding chunk_size_def by (simp only: mod_add_self2 mod_less)
qed

lemma chunk_size_ok: "chunk_ok c \<Longrightarrow> chunk_size c = ch_end c - ch_begin c"
  by (simp add: chunk_ok_def chunk_size_eq)

lemma chunk_size_pos [bounds_intros]: "chunk_ok c \<Longrightarrow> 0 < chunk_size c"
  by (simp add: chunk_size_ok) (simp add: chunk_ok_def)

lemma chunk_size_le [bounds_intros]: "chunk_ok c \<Longrightarrow> ch_begin c + chunk_size c \<le> bufferSize"
  by (simp add: chunk_size_ok) (simp add: chunk_ok_def)

lemma length_chunk_content [bytes_simps]: "chunk_ok c \<Longrightarrow> length (chunk_content c) = chunk_size c"
  using chunk_size_le [of c]
  by (simp add: chunk_content_def chunk_data_def chunk_ok_def)

lemma contents_simps [simp]:
  "contents [] = []"
  "contents (c # cs) = chunk_content c @ contents cs"
  "contents (cs @ ds) = contents cs @ contents ds"
  by (simp_all add: contents_def)

lemma chunks_ok_simps [simp]:
  "chunks_ok []"
  "chunks_ok (c # cs) \<longleftrightarrow> chunk_ok c \<and> chunks_ok cs"
  "chunks_ok (cs @ ds) \<longleftrightarrow> chunks_ok cs \<and> chunks_ok ds"
  by (auto simp: chunks_ok_def)

lemma chunks_ok_nth [bounds_intros]: "chunks_ok cs \<Longrightarrow> i < length cs \<Longrightarrow> chunk_ok (cs ! i)"
  by (simp add: chunks_ok_def)

lemma chunks_ok_take [simp]: "chunks_ok cs \<Longrightarrow> chunks_ok (take i cs)"
  by (auto simp: chunks_ok_def dest: in_set_takeD)

lemma chunks_ok_drop [simp]: "chunks_ok cs \<Longrightarrow> chunks_ok (drop i cs)"
  by (auto simp: chunks_ok_def dest: in_set_dropD)

lemma chunks_ok_update: "chunks_ok cs \<Longrightarrow> chunk_ok c \<Longrightarrow> chunks_ok (cs[i := c])"
  by (auto simp: chunks_ok_def dest!: set_update_subset_insert [THEN subsetD])

lemma length_contents: "chunks_ok cs \<Longrightarrow> length (contents cs) = sum_list (map chunk_size cs)"
  by (induction cs) (simp_all add: length_chunk_content)

lemma length_contents_take [bytes_simps]: "chunks_ok cs \<Longrightarrow> length (contents (take i cs)) = start_of cs i"
  by (simp add: length_contents start_of_def)

lemma contents_split:
  "i < length cs \<Longrightarrow>
     contents cs = contents (take i cs) @ chunk_content (cs ! i) @ contents (drop (Suc i) cs)"
  by (simp add: contents_def concat_map_split)

lemma length_contents_split:
  "chunks_ok cs \<Longrightarrow> i < length cs \<Longrightarrow>
     length (contents cs) = start_of cs i + chunk_size (cs ! i) + length (contents (drop (Suc i) cs))"
  by (subst contents_split, assumption)
     (simp add: bytes_simps chunks_ok_nth)

lemma start_of_0 [simp]: "start_of cs 0 = 0"
  by (simp add: start_of_def)

lemma start_of_Suc: "i < length cs \<Longrightarrow> start_of cs (Suc i) = start_of cs i + chunk_size (cs ! i)"
  by (simp add: start_of_def sum_list_take_Suc)

lemma start_of_length: "chunks_ok cs \<Longrightarrow> start_of cs (length cs) = length (contents cs)"
  by (simp add: start_of_def length_contents)

lemma start_of_last:
  "chunks_ok cs \<Longrightarrow> Suc i = length cs \<Longrightarrow> start_of cs i + chunk_size (cs ! i) = length (contents cs)"
  using start_of_Suc [of i cs] start_of_length [of cs] by simp

lemma start_of_le: "chunks_ok cs \<Longrightarrow> i < length cs \<Longrightarrow> start_of cs i + chunk_size (cs ! i) \<le> length (contents cs)"
  using length_contents_split [of cs i] by simp

text \<open>The bytes after position \<open>cp\<close> of chunk \<open>i\<close>.\<close>

lemma drop_contents:
  assumes "chunks_ok cs" "i < length cs" "cp \<le> chunk_size (cs ! i)"
  shows "drop (start_of cs i + cp) (contents cs) =
           drop cp (chunk_content (cs ! i)) @ contents (drop (Suc i) cs)"
  using assms by (subst contents_split [of i cs]) (simp_all add: bytes_simps chunks_ok_nth)

lemma take_contents:
  assumes "chunks_ok cs" "i < length cs" "cp \<le> chunk_size (cs ! i)"
  shows "take (start_of cs i + cp) (contents cs) =
           contents (take i cs) @ take cp (chunk_content (cs ! i))"
  using assms by (subst contents_split [of i cs]) (simp_all add: bytes_simps chunks_ok_nth)

lemma contents_update:
  "i < length cs \<Longrightarrow>
     contents (cs[i := c]) = contents (take i cs) @ chunk_content c @ contents (drop (Suc i) cs)"
  by (simp add: upd_conv_take_nth_drop)

lemma buffer_consistent_iff:
  "chunks_ok (bf_chunks b) \<Longrightarrow>
     buffer_consistent b \<longleftrightarrow> length (contents (bf_chunks b)) mod 2 ^ 32 = bf_size b"
  by (auto simp: buffer_consistent_def length_contents list_all_iff chunks_ok_def
      intro: chunk_ok_consistent)

subsection \<open>Writing into a chunk\<close>

lemma chunk_store_simps [simp]:
  "ch_begin (chunk_store off xs c) = ch_begin c"
  "ch_end (chunk_store off xs c) = ch_end c"
  "chunk_size (chunk_store off xs c) = chunk_size c"
  by (simp_all add: chunk_store_def chunk_size_def)

lemma chunk_store_ok:
  "chunk_ok c \<Longrightarrow> ch_begin c + off + length xs \<le> bufferSize \<Longrightarrow> chunk_ok (chunk_store off xs c)"
  by (simp add: chunk_ok_def) (simp add: chunk_store_def)

lemma chunk_content_store:
  assumes "chunk_ok c" "off + length xs \<le> chunk_size c"
  shows "chunk_content (chunk_store off xs c) = put_at off xs (chunk_content c)"
proof -
  have len: "ch_begin c + chunk_size c \<le> length (ch_buffer c)"
    using chunk_size_le [OF assms(1)] assms(1) by (simp add: chunk_ok_def)
  have "drop (ch_begin c) (put_at (ch_begin c + off) xs (ch_buffer c)) =
          put_at off xs (drop (ch_begin c) (ch_buffer c))"
    using len by (simp add: put_at_def take_drop ac_simps)
  then show ?thesis
    using assms(2) len
    by (simp add: chunk_content_def chunk_data_def)
       (simp add: chunk_store_def put_at_def take_drop ac_simps min_absorb1 min_absorb2)
qed

text \<open>A store that reaches past the window, followed by moving the end of the window.\<close>

lemma chunk_content_store_grow:
  assumes "chunk_ok c" "off \<le> chunk_size c" "chunk_size c \<le> off + length xs"
    "ch_begin c + off + length xs \<le> bufferSize"
  shows "chunk_content (setEnd (ch_begin c + (off + length xs)) (chunk_store off xs c)) =
           take off (chunk_content c) @ xs"
    and "xs \<noteq> [] \<Longrightarrow> chunk_ok (setEnd (ch_begin c + (off + length xs)) (chunk_store off xs c))"
    and "chunk_size (setEnd (ch_begin c + (off + length xs)) (chunk_store off xs c)) = off + length xs"
proof -
  have len: "length (ch_buffer c) = bufferSize"
    using assms(1) by (simp add: chunk_ok_def)
  show size: "chunk_size (setEnd (ch_begin c + (off + length xs)) (chunk_store off xs c)) = off + length xs"
    using assms(4) by (subst chunk_size_eq) (simp_all add: setEnd_def)
  have "take (off + length xs) (drop (ch_begin c) (put_at (ch_begin c + off) xs (ch_buffer c))) =
          take off (drop (ch_begin c) (ch_buffer c)) @ xs"
    using assms(4) len by (simp add: put_at_def take_drop ac_simps)
  then show "chunk_content (setEnd (ch_begin c + (off + length xs)) (chunk_store off xs c)) =
           take off (chunk_content c) @ xs"
    using assms(2) size
    by (simp add: chunk_content_def chunk_data_def setEnd_def chunk_store_def min_absorb1)
  show "xs \<noteq> [] \<Longrightarrow> chunk_ok (setEnd (ch_begin c + (off + length xs)) (chunk_store off xs c))"
    using assms(4) len by (simp add: chunk_ok_def setEnd_def chunk_store_def)
qed

lemma chunk_content_new:
  assumes "length g = bufferSize" "n \<le> bufferSize"
  shows "chunk_content (new_chunk (put_at 0 xs g) 0 n) = take n (xs @ drop (length xs) g)"
    and "chunk_size (new_chunk h 0 n) = n"
  using assms
  by (simp_all add: chunk_content_def chunk_data_def new_chunk_def chunk_size_def put_at_def
      bufferSize_def)

text \<open>A chunk filled from its beginning, for concrete examples.\<close>

definition chunk_of :: "byte list \<Rightarrow> chunk" where
  "chunk_of xs = new_chunk (put_at 0 xs (replicate bufferSize 0)) 0 (length xs)"

lemma chunk_of_simps [simp]:
  assumes "xs \<noteq> []" "length xs \<le> 1024"
  shows "chunk_ok (chunk_of xs)" "chunk_content (chunk_of xs) = xs" "chunk_size (chunk_of xs) = length xs"
  using chunk_content_new [of "replicate bufferSize 0" "length xs" xs] assms
  by (simp_all add: chunk_of_def bufferSize_def chunk_ok_def new_chunk_def chunk_size_def)

end
