(* ===== verification/Cursors.thy ===== *)
theory Cursors
  imports Chunks
begin

section \<open>Cursors: positions in a chunk list and their movement\<close>

text \<open>
  \<^verbatim>\<open>bytes::User\<close> and \<^verbatim>\<open>bytes::impl::Cursor\<close>: a position is a chunk (its index in the
  list; \<open>None\<close> is the null pointer), an offset in that chunk and the absolute offset. The
  operations take the chunk list of the container's buffer. Offsets are naturals: the
  invariant \<open>cursor_ok\<close> keeps \<open>chunkPos \<le> size\<close> in the current chunk, so the unsigned
  differences the code computes are the differences here. \<open>advance\<close> takes the signed
  argument of the code; \<open>INT32_MIN\<close>, whose negation overflows, is outside its domain.
\<close>

record cursor =
  cu_chunk :: "nat option"
  cu_chunkPos :: nat
  cu_pos :: nat

definition null_cursor :: cursor where
  "null_cursor = \<lparr>cu_chunk = None, cu_chunkPos = 0, cu_pos = 0\<rparr>"

text \<open>The constructor from a container: at the beginning or at the end of its buffer.\<close>

definition cursor_at :: "buffer option \<Rightarrow> bool \<Rightarrow> cursor" where
  "cursor_at bo posAtBegin =
     (case bo of
        None \<Rightarrow> \<lparr>cu_chunk = None, cu_chunkPos = 0, cu_pos = 0\<rparr>
      | Some b \<Rightarrow>
          (let cs = bf_chunks b in
           if posAtBegin
           then \<lparr>cu_chunk = (if cs = [] then None else Some 0), cu_chunkPos = 0, cu_pos = 0\<rparr>
           else if cs = [] then \<lparr>cu_chunk = None, cu_chunkPos = 0, cu_pos = bf_size b\<rparr>
           else \<lparr>cu_chunk = Some (length cs - 1), cu_chunkPos = chunk_size (last cs),
                  cu_pos = bf_size b\<rparr>))"

definition user_consistent :: "buffer option \<Rightarrow> cursor \<Rightarrow> bool" where
  "user_consistent bo cu =
     (case bo of
        None \<Rightarrow> cu_chunk cu = None \<and> cu_chunkPos cu = 0 \<and> cu_pos cu = 0
      | Some b \<Rightarrow>
          buffer_consistent b \<and> cu_pos cu \<le> bf_size b \<and>
          (case cu_chunk cu of
             None \<Rightarrow> cu_pos cu = 0 \<and> cu_chunkPos cu = 0
           | Some i \<Rightarrow>
               (let cs = bf_chunks b in
                i < length cs \<and> chunk_consistent (cs ! i) \<and> cu_chunkPos cu \<le> chunk_size (cs ! i) \<and>
                cu_pos cu + ((chunk_size (cs ! i) - cu_chunkPos cu) +
                  sum_list (map chunk_size (drop (Suc i) cs))) = bf_size b \<and>
                cu_pos cu = cu_chunkPos cu + sum_list (map chunk_size (take i cs)))))"

definition atBegin :: "cursor \<Rightarrow> bool" where
  "atBegin cu \<longleftrightarrow> cu_pos cu = 0"

definition atEnd :: "chunk list \<Rightarrow> cursor \<Rightarrow> bool" where
  "atEnd cs cu = (case cu_chunk cu of None \<Rightarrow> True
     | Some i \<Rightarrow> Suc i = length cs \<and> cu_chunkPos cu \<ge> chunk_size (cs ! i))"

definition cursor_size :: "buffer option \<Rightarrow> cursor \<Rightarrow> nat" where
  "cursor_size bo cu = (case bo of None \<Rightarrow> 0 | Some b \<Rightarrow> bf_size b - cu_pos cu)"

definition sizeBack :: "cursor \<Rightarrow> nat" where
  "sizeBack cu = cu_pos cu"

definition continuousData :: "chunk list \<Rightarrow> cursor \<Rightarrow> byte list option" where
  "continuousData cs cu = (case cu_chunk cu of None \<Rightarrow> None
     | Some i \<Rightarrow> if chunk_size (cs ! i) > cu_chunkPos cu
                then Some (drop (cu_chunkPos cu) (chunk_data (cs ! i))) else None)"

definition continuousDataSize :: "chunk list \<Rightarrow> cursor \<Rightarrow> nat" where
  "continuousDataSize cs cu = (case cu_chunk cu of None \<Rightarrow> 0
     | Some i \<Rightarrow> chunk_size (cs ! i) - cu_chunkPos cu)"

definition continuousDataOffset :: "chunk list \<Rightarrow> cursor \<Rightarrow> nat" where
  "continuousDataOffset cs cu = (case cu_chunk cu of None \<Rightarrow> 0
     | Some i \<Rightarrow> ch_begin (cs ! i) + cu_chunkPos cu)"

subsection \<open>Movement by bytes and by chunks\<close>

text \<open>The forward loop: \<open>i\<close>, \<open>cp\<close>, \<open>pos\<close> are the fields, \<open>adv\<close> is \<open>advanced\<close>.\<close>

function advance_fwd :: "chunk list \<Rightarrow> nat \<Rightarrow> nat \<Rightarrow> nat \<Rightarrow> nat \<Rightarrow> nat \<Rightarrow> nat \<times> nat \<times> nat \<times> nat" where
  "advance_fwd cs i cp pos adv offset =
     (let can = chunk_size (cs ! i) - cp in
      if can > offset then (i, cp + offset, pos + offset, adv + offset)
      else if Suc i < length cs
      then advance_fwd cs (Suc i) 0 (pos + can) (adv + can) (offset - can)
      else (i, cp + can, pos + can, adv + can))"
  by pat_completeness auto
termination
  by (relation "measure (\<lambda>(cs, i, cp, pos, adv, offset). length cs - i)") auto

function advance_bwd :: "chunk list \<Rightarrow> nat \<Rightarrow> nat \<Rightarrow> nat \<Rightarrow> nat \<Rightarrow> nat \<Rightarrow> nat \<times> nat \<times> nat \<times> nat" where
  "advance_bwd cs i cp pos adv offset =
     (let can = cp in
      if can \<ge> offset then (i, cp - offset, pos - offset, adv + offset)
      else if can \<noteq> 0 then advance_bwd cs i 0 (pos - can) (adv + can) (offset - can)
      else if i > 0 then advance_bwd cs (i - 1) (chunk_size (cs ! (i - 1))) pos adv offset
      else (i, cp, pos, adv))"
  by pat_completeness auto
termination
  by (relation "measures [\<lambda>(cs, i, cp, pos, adv, offset). i, \<lambda>(cs, i, cp, pos, adv, offset). cp]") auto

declare advance_fwd.simps [simp del] advance_bwd.simps [simp del]

definition advance :: "chunk list \<Rightarrow> int \<Rightarrow> cursor \<Rightarrow> int \<times> cursor" where
  "advance cs offset cu =
     (case cu_chunk cu of None \<Rightarrow> (0, cu)
      | Some i \<Rightarrow>
          if offset > 0 then
            (let (j, cp, p, adv) = advance_fwd cs i (cu_chunkPos cu) (cu_pos cu) 0 (nat offset)
             in (int adv, \<lparr>cu_chunk = Some j, cu_chunkPos = cp, cu_pos = p\<rparr>))
          else if offset < 0 then
            (let (j, cp, p, adv) = advance_bwd cs i (cu_chunkPos cu) (cu_pos cu) 0 (nat (- offset))
             in (- int adv, \<lparr>cu_chunk = Some j, cu_chunkPos = cp, cu_pos = p\<rparr>))
          else (0, cu))"

fun chunks_fwd :: "chunk list \<Rightarrow> nat \<Rightarrow> nat \<Rightarrow> nat \<Rightarrow> nat \<Rightarrow> nat \<times> nat \<times> nat \<times> nat" where
  "chunks_fwd cs i pos adv 0 = (i, 0, pos, adv)"
| "chunks_fwd cs i pos adv (Suc amount) =
     (if Suc i < length cs
      then chunks_fwd cs (Suc i) (pos + chunk_size (cs ! i)) (Suc adv) amount
      else (i, chunk_size (cs ! i), pos + chunk_size (cs ! i), Suc adv))"

fun chunks_bwd :: "chunk list \<Rightarrow> nat \<Rightarrow> nat \<Rightarrow> nat \<Rightarrow> nat \<Rightarrow> nat \<times> nat \<times> nat" where
  "chunks_bwd cs i pos adv 0 = (i, pos, adv)"
| "chunks_bwd cs i pos adv (Suc amount) =
     (if i > 0 then chunks_bwd cs (i - 1) (pos - chunk_size (cs ! (i - 1))) (Suc adv) amount
      else (i, pos, adv))"

definition advanceChunks :: "chunk list \<Rightarrow> int \<Rightarrow> cursor \<Rightarrow> int \<times> cursor" where
  "advanceChunks cs amount cu =
     (case cu_chunk cu of None \<Rightarrow> (0, cu)
      | Some i \<Rightarrow>
          (let pos = cu_pos cu - cu_chunkPos cu in
           if amount > 0 then
             (let (j, cp, p, adv) = chunks_fwd cs i pos 0 (nat amount)
              in (int adv, \<lparr>cu_chunk = Some j, cu_chunkPos = cp, cu_pos = p\<rparr>))
           else if amount < 0 then
             (let (j, p, adv) = chunks_bwd cs i pos 0 (nat (- amount))
              in (- int adv, \<lparr>cu_chunk = Some j, cu_chunkPos = 0, cu_pos = p\<rparr>))
           else (0, \<lparr>cu_chunk = Some i, cu_chunkPos = 0, cu_pos = pos\<rparr>)))"

subsection \<open>The invariant\<close>

text \<open>
  \<open>cursor_ok\<close> strengthens the code's \<^verbatim>\<open>consistent()\<close>: a cursor without a chunk exists only
  on an empty list. \<open>cursor_normal\<close> says that the cursor rests at the end of a chunk only
  when that chunk is the last one; every operation but a bare commit of a write buffer
  keeps it.
\<close>

definition cursor_ok :: "chunk list \<Rightarrow> cursor \<Rightarrow> bool" where
  "cursor_ok cs cu =
     (case cu_chunk cu of
        None \<Rightarrow> cs = [] \<and> cu_chunkPos cu = 0 \<and> cu_pos cu = 0
      | Some i \<Rightarrow> i < length cs \<and> cu_chunkPos cu \<le> chunk_size (cs ! i) \<and>
                  cu_pos cu = start_of cs i + cu_chunkPos cu)"

definition cursor_normal :: "chunk list \<Rightarrow> cursor \<Rightarrow> bool" where
  "cursor_normal cs cu =
     (case cu_chunk cu of None \<Rightarrow> True
      | Some i \<Rightarrow> cu_chunkPos cu < chunk_size (cs ! i) \<or> Suc i = length cs)"

lemma cursor_ok_pos_le: "chunks_ok cs \<Longrightarrow> cursor_ok cs cu \<Longrightarrow> cu_pos cu \<le> length (contents cs)"
  using start_of_le [of cs] by (fastforce simp: cursor_ok_def split: option.splits)

lemma cursor_ok_consistent:
  assumes "chunks_ok (bf_chunks b)" "bf_size b = length (contents (bf_chunks b))" "bf_size b < 2 ^ 32"
    and ok: "cursor_ok (bf_chunks b) cu"
  shows "user_consistent (Some b) cu"
proof -
  have b: "buffer_consistent b"
    using assms by (simp add: buffer_consistent_iff)
  show ?thesis
  proof (cases "cu_chunk cu")
    case None
    then show ?thesis
      using ok b by (simp add: user_consistent_def cursor_ok_def)
  next
    case (Some i)
    moreover have "length (contents (drop (Suc i) (bf_chunks b))) =
        sum_list (map chunk_size (drop (Suc i) (bf_chunks b)))"
      by (rule length_contents) (simp add: assms)
    ultimately show ?thesis
      using ok b assms(1,2) length_contents_split [OF assms(1), of i] chunks_ok_nth [OF assms(1), of i]
      by (simp add: user_consistent_def cursor_ok_def Let_def chunk_ok_consistent start_of_def [symmetric])
  qed
qed

lemma cursor_at_ok:
  assumes "chunks_ok (bf_chunks b)" "bf_size b = length (contents (bf_chunks b))"
  shows "cursor_ok (bf_chunks b) (cursor_at (Some b) atb)"
    and "cursor_normal (bf_chunks b) (cursor_at (Some b) atb)"
    and "cu_pos (cursor_at (Some b) atb) = (if atb then 0 else length (contents (bf_chunks b)))"
proof -
  have last: "bf_chunks b \<noteq> [] \<Longrightarrow>
      start_of (bf_chunks b) (length (bf_chunks b) - 1) + chunk_size (last (bf_chunks b)) = bf_size b"
    using start_of_last [OF assms(1), of "length (bf_chunks b) - 1"] assms(2)
    by (simp add: last_conv_nth)
  show "cursor_ok (bf_chunks b) (cursor_at (Some b) atb)"
    using last assms(2)
    by (auto simp: cursor_ok_def cursor_at_def Let_def last_conv_nth)
  show "cursor_normal (bf_chunks b) (cursor_at (Some b) atb)"
    using chunk_size_pos [OF chunks_ok_nth [OF assms(1), of 0]]
    by (auto simp: cursor_normal_def cursor_at_def Let_def)
  show "cu_pos (cursor_at (Some b) atb) = (if atb then 0 else length (contents (bf_chunks b)))"
    using assms(2) by (simp add: cursor_at_def Let_def)
qed

text \<open>What lies after the cursor, and the part of it in the current chunk.\<close>

lemma drop_contents_cursor:
  assumes "chunks_ok cs" "cursor_ok cs cu"
  shows "take (continuousDataSize cs cu) (drop (cu_pos cu) (contents cs)) =
           take (continuousDataSize cs cu) (case continuousData cs cu of None \<Rightarrow> [] | Some d \<Rightarrow> d)"
    and "continuousDataSize cs cu \<le> length (drop (cu_pos cu) (contents cs))"
    and "(continuousData cs cu = None) = (continuousDataSize cs cu = 0)"
    and "case continuousData cs cu of None \<Rightarrow> True | Some d \<Rightarrow> continuousDataSize cs cu \<le> length d"
proof -
  have "take (continuousDataSize cs cu) (drop (cu_pos cu) (contents cs)) =
           take (continuousDataSize cs cu) (case continuousData cs cu of None \<Rightarrow> [] | Some d \<Rightarrow> d)
      \<and> continuousDataSize cs cu \<le> length (drop (cu_pos cu) (contents cs))
      \<and> (continuousData cs cu = None) = (continuousDataSize cs cu = 0)
      \<and> (case continuousData cs cu of None \<Rightarrow> True | Some d \<Rightarrow> continuousDataSize cs cu \<le> length d)"
  proof (cases "cu_chunk cu")
    case None
    then show ?thesis
      by (simp add: continuousData_def continuousDataSize_def)
  next
    case (Some i)
    with assms have i: "i < length cs" "cu_chunkPos cu \<le> chunk_size (cs ! i)"
      "cu_pos cu = start_of cs i + cu_chunkPos cu"
      by (simp_all add: cursor_ok_def)
    have ok: "chunk_ok (cs ! i)"
      using assms(1) i(1) by (rule chunks_ok_nth)
    have len: "chunk_size (cs ! i) \<le> length (chunk_data (cs ! i))"
      using chunk_size_le [OF ok] ok by (simp add: chunk_data_def chunk_ok_def)
    show ?thesis
      using drop_contents [OF assms(1) i(1,2)] Some i len
      by (auto simp: continuousData_def continuousDataSize_def chunk_content_def drop_take
          start_of_le [OF assms(1)] min_def)
  qed
  then show "take (continuousDataSize cs cu) (drop (cu_pos cu) (contents cs)) =
           take (continuousDataSize cs cu) (case continuousData cs cu of None \<Rightarrow> [] | Some d \<Rightarrow> d)"
    and "continuousDataSize cs cu \<le> length (drop (cu_pos cu) (contents cs))"
    and "(continuousData cs cu = None) = (continuousDataSize cs cu = 0)"
    and "case continuousData cs cu of None \<Rightarrow> True | Some d \<Rightarrow> continuousDataSize cs cu \<le> length d"
    by blast+
qed

lemma continuous_at_end:
  assumes "chunks_ok cs" "cursor_ok cs cu" "cursor_normal cs cu"
  shows "continuousDataSize cs cu = 0 \<longleftrightarrow> cu_pos cu = length (contents cs)"
proof (cases "cu_chunk cu")
  case None
  then show ?thesis
    using assms by (simp add: continuousDataSize_def cursor_ok_def)
next
  case (Some i)
  with assms have i: "i < length cs" "cu_chunkPos cu \<le> chunk_size (cs ! i)"
    "cu_pos cu = start_of cs i + cu_chunkPos cu" "cu_chunkPos cu < chunk_size (cs ! i) \<or> Suc i = length cs"
    by (simp_all add: cursor_ok_def cursor_normal_def)
  show ?thesis
    using Some i start_of_le [OF assms(1) i(1)] start_of_last [OF assms(1), of i]
    by (auto simp: continuousDataSize_def)
qed

lemma atEnd_iff:
  assumes "chunks_ok cs" "cursor_ok cs cu"
  shows "atEnd cs cu \<longleftrightarrow> cu_pos cu = length (contents cs)"
proof (cases "cu_chunk cu")
  case None
  then show ?thesis
    using assms by (simp add: atEnd_def cursor_ok_def)
next
  case (Some i)
  with assms have i: "i < length cs" "cu_chunkPos cu \<le> chunk_size (cs ! i)"
    "cu_pos cu = start_of cs i + cu_chunkPos cu"
    by (simp_all add: cursor_ok_def)
  have "Suc i < length cs \<Longrightarrow> 0 < chunk_size (cs ! Suc i)"
    by (intro chunk_size_pos chunks_ok_nth assms)
  moreover have "Suc i < length cs \<Longrightarrow> start_of cs (Suc i) + chunk_size (cs ! Suc i) \<le> length (contents cs)"
    by (intro start_of_le assms)
  ultimately show ?thesis
    using Some i start_of_le [OF assms(1) i(1)] start_of_last [OF assms(1), of i] start_of_Suc [OF i(1)]
    by (cases "Suc i < length cs") (auto simp: atEnd_def)
qed

subsection \<open>What movement does\<close>

lemma advance_fwd_spec:
  assumes "chunks_ok cs" "i < length cs" "cp \<le> chunk_size (cs ! i)" "pos = start_of cs i + cp"
    "advance_fwd cs i cp pos adv offset = (j, cp', pos', adv')"
  shows "j < length cs \<and> cp' \<le> chunk_size (cs ! j) \<and> pos' = start_of cs j + cp' \<and>
     pos' = min (pos + offset) (length (contents cs)) \<and> adv' = adv + (pos' - pos) \<and>
     (cp' < chunk_size (cs ! j) \<or> Suc j = length cs)"
  using assms
proof (induction cs i cp pos adv offset rule: advance_fwd.induct)
  case (1 cs i cp pos adv offset)
  let ?can = "chunk_size (cs ! i) - cp"
  have le: "start_of cs i + chunk_size (cs ! i) \<le> length (contents cs)"
    using "1.prems" by (intro start_of_le)
  consider (within) "?can > offset" | (nxt) "?can \<le> offset" "Suc i < length cs"
    | (last) "?can \<le> offset" "Suc i = length cs"
    using "1.prems"(2) by linarith
  then show ?case
  proof cases
    case within
    with "1.prems" le show ?thesis
      by (auto simp: advance_fwd.simps [of cs i] Let_def)
  next
    case nxt
    have eq: "advance_fwd cs (Suc i) 0 (pos + ?can) (adv + ?can) (offset - ?can) = (j, cp', pos', adv')"
      using "1.prems"(5) nxt by (simp add: advance_fwd.simps [of cs i] Let_def)
    have "pos + ?can = start_of cs (Suc i)"
      using "1.prems" by (simp add: start_of_Suc)
    with "1.IH" [OF refl _ nxt(2) "1.prems"(1) nxt(2) _ _ eq] nxt(1)
    have ih: "j < length cs \<and> cp' \<le> chunk_size (cs ! j) \<and> pos' = start_of cs j + cp' \<and>
       pos' = min (pos + ?can + (offset - ?can)) (length (contents cs)) \<and>
       adv' = adv + ?can + (pos' - (pos + ?can)) \<and> (cp' < chunk_size (cs ! j) \<or> Suc j = length cs)"
      by simp
    moreover have "pos + ?can \<le> length (contents cs)"
      using "1.prems"(3,4) le by simp
    ultimately show ?thesis
      using nxt(1) by (auto simp: min_def split: if_splits)
  next
    case last
    with "1.prems" start_of_last [OF "1.prems"(1) last(2)] show ?thesis
      by (auto simp: advance_fwd.simps [of cs i] Let_def)
  qed
qed

lemma advance_bwd_spec:
  assumes "chunks_ok cs" "i < length cs" "cp \<le> chunk_size (cs ! i)" "pos = start_of cs i + cp" "0 < offset"
    "advance_bwd cs i cp pos adv offset = (j, cp', pos', adv')"
  shows "j < length cs \<and> cp' < chunk_size (cs ! j) \<and> pos' = start_of cs j + cp' \<and>
     pos' = pos - offset \<and> adv' = adv + (pos - pos')"
  using assms
proof (induction cs i cp pos adv offset rule: advance_bwd.induct)
  case (1 cs i cp pos adv offset)
  consider (within) "offset \<le> cp" | (inner) "cp < offset" "cp \<noteq> 0"
    | (prev) "cp < offset" "cp = 0" "0 < i" | (first) "cp < offset" "cp = 0" "i = 0"
    by linarith
  then show ?case
  proof cases
    case within
    with "1.prems" show ?thesis
      by (auto simp: advance_bwd.simps [of cs i] Let_def)
  next
    case inner
    have eq: "advance_bwd cs i 0 (pos - cp) (adv + cp) (offset - cp) = (j, cp', pos', adv')"
      using "1.prems"(6) inner by (simp add: advance_bwd.simps [of cs i] Let_def)
    from "1.IH"(1) [OF refl _ _ "1.prems"(1,2) _ _ _ eq] inner "1.prems"(3,4)
    show ?thesis by auto
  next
    case prev
    let ?s = "chunk_size (cs ! (i - 1))"
    have eq: "advance_bwd cs (i - 1) ?s pos adv offset = (j, cp', pos', adv')"
      using "1.prems"(6) prev by (simp add: advance_bwd.simps [of cs i] Let_def)
    have "pos = start_of cs (i - 1) + ?s"
      using start_of_Suc [of "i - 1" cs] "1.prems"(2,4) prev by simp
    moreover have "i - 1 < length cs"
      using "1.prems"(2) by simp
    ultimately show ?thesis
      using "1.IH"(2) [OF refl _ _ _ "1.prems"(1) _ _ _ _ eq] prev "1.prems"(5) by simp
  next
    case first
    with "1.prems" chunk_size_pos [OF chunks_ok_nth [OF "1.prems"(1), of 0]] show ?thesis
      by (auto simp: advance_bwd.simps [of cs 0] Let_def)
  qed
qed

text \<open>\<open>advance\<close> moves to the target position clamped to the buffer and returns the distance.\<close>

lemma advance_spec:
  assumes "chunks_ok cs" "cursor_ok cs cu"
    and adv: "advance cs offset cu = (d, cu')"
  shows "cursor_ok cs cu'"
    and "int (cu_pos cu') = max 0 (min (int (cu_pos cu) + offset) (int (length (contents cs))))"
    and "d = int (cu_pos cu') - int (cu_pos cu)"
    and "offset \<noteq> 0 \<or> cursor_normal cs cu \<Longrightarrow> cursor_normal cs cu'"
proof -
  have "cursor_ok cs cu' \<and>
      int (cu_pos cu') = max 0 (min (int (cu_pos cu) + offset) (int (length (contents cs)))) \<and>
      d = int (cu_pos cu') - int (cu_pos cu) \<and>
      (offset \<noteq> 0 \<or> cursor_normal cs cu \<longrightarrow> cursor_normal cs cu')"
  proof (cases "cu_chunk cu")
    case None
    with assms show ?thesis
      by (auto simp: advance_def cursor_ok_def cursor_normal_def)
  next
    case (Some i)
    with assms(2) have i: "i < length cs" "cu_chunkPos cu \<le> chunk_size (cs ! i)"
      "cu_pos cu = start_of cs i + cu_chunkPos cu"
      by (simp_all add: cursor_ok_def)
    have le: "cu_pos cu \<le> length (contents cs)"
      by (rule cursor_ok_pos_le) fact+
    consider (fwd) "offset > 0" | (bwd) "offset < 0" | (zero) "offset = 0"
      by linarith
    then show ?thesis
    proof cases
      case fwd
      obtain j cp p a where f: "advance_fwd cs i (cu_chunkPos cu) (cu_pos cu) 0 (nat offset) = (j, cp, p, a)"
        by (cases "advance_fwd cs i (cu_chunkPos cu) (cu_pos cu) 0 (nat offset)") auto
      with fwd Some adv have "d = int a" "cu' = \<lparr>cu_chunk = Some j, cu_chunkPos = cp, cu_pos = p\<rparr>"
        by (auto simp: advance_def)
      with advance_fwd_spec [OF assms(1) i f] fwd le show ?thesis
        by (auto simp: cursor_ok_def cursor_normal_def min_def max_def split: if_splits)
    next
      case bwd
      obtain j cp p a where f: "advance_bwd cs i (cu_chunkPos cu) (cu_pos cu) 0 (nat (- offset)) = (j, cp, p, a)"
        by (cases "advance_bwd cs i (cu_chunkPos cu) (cu_pos cu) 0 (nat (- offset))") auto
      with bwd Some adv have "d = - int a" "cu' = \<lparr>cu_chunk = Some j, cu_chunkPos = cp, cu_pos = p\<rparr>"
        by (auto simp: advance_def)
      moreover have "0 < nat (- offset)"
        using bwd by simp
      ultimately show ?thesis
        using advance_bwd_spec [OF assms(1) i _ f] bwd le
        by (auto simp: cursor_ok_def cursor_normal_def min_def max_def)
    next
      case zero
      with Some adv assms(2) le show ?thesis
        by (auto simp: advance_def)
    qed
  qed
  then show "cursor_ok cs cu'"
    and "int (cu_pos cu') = max 0 (min (int (cu_pos cu) + offset) (int (length (contents cs))))"
    and "d = int (cu_pos cu') - int (cu_pos cu)"
    and "offset \<noteq> 0 \<or> cursor_normal cs cu \<Longrightarrow> cursor_normal cs cu'"
    by blast+
qed

lemma chunks_fwd_spec:
  assumes "chunks_ok cs" "i < length cs" "pos = start_of cs i"
    "chunks_fwd cs i pos adv n = (j, cp, p, adv')"
  shows "j < length cs \<and> cp \<le> chunk_size (cs ! j) \<and> p = start_of cs j + cp \<and>
     (cp < chunk_size (cs ! j) \<or> Suc j = length cs) \<and>
     (if i + n < length cs then j = i + n \<and> cp = 0 \<and> adv' = adv + n
      else Suc j = length cs \<and> cp = chunk_size (cs ! j) \<and> adv' = adv + (length cs - i))"
  using assms
proof (induction cs i pos adv n rule: chunks_fwd.induct)
  case (1 cs i pos adv)
  then show ?case
    using chunk_size_pos [OF chunks_ok_nth [of cs i]] by auto
next
  case (2 cs i pos adv n)
  then show ?case
    by (cases "Suc i < length cs") (auto simp: start_of_Suc less_Suc_eq split: if_splits)
qed

lemma chunks_bwd_spec:
  assumes "chunks_ok cs" "i < length cs" "pos = start_of cs i"
    "chunks_bwd cs i pos adv n = (j, p, adv')"
  shows "j = i - n \<and> p = start_of cs j \<and> adv' = adv + (i - j)"
  using assms
proof (induction cs i pos adv n rule: chunks_bwd.induct)
  case (1 cs i pos adv)
  then show ?case by auto
next
  case (2 cs i pos adv n)
  show ?case
  proof (cases "i > 0")
    case True
    with 2 start_of_Suc [of "i - 1" cs] show ?thesis by auto
  next
    case False
    with 2 show ?thesis by auto
  qed
qed

lemma advanceChunks_ok:
  assumes "chunks_ok cs" "cursor_ok cs cu" "advanceChunks cs n cu = (d, cu')"
  shows "cursor_ok cs cu'" "cursor_normal cs cu'"
proof -
  have "cursor_ok cs cu' \<and> cursor_normal cs cu'"
  proof (cases "cu_chunk cu")
    case None
    with assms show ?thesis
      by (auto simp: advanceChunks_def cursor_ok_def cursor_normal_def)
  next
    case (Some i)
    with assms(2) have i: "i < length cs" "cu_pos cu - cu_chunkPos cu = start_of cs i"
      by (simp_all add: cursor_ok_def)
    have pos: "\<And>k. k < length cs \<Longrightarrow> 0 < chunk_size (cs ! k)"
      by (intro chunk_size_pos chunks_ok_nth assms)
    consider (fwd) "n > 0" | (bwd) "n < 0" | (zero) "n = 0"
      by linarith
    then show ?thesis
    proof cases
      case fwd
      obtain j cp p a where f: "chunks_fwd cs i (start_of cs i) 0 (nat n) = (j, cp, p, a)"
        by (cases "chunks_fwd cs i (start_of cs i) 0 (nat n)") auto
      with fwd Some assms(3) i(2) have "cu' = \<lparr>cu_chunk = Some j, cu_chunkPos = cp, cu_pos = p\<rparr>"
        by (auto simp: advanceChunks_def Let_def)
      with chunks_fwd_spec [OF assms(1) i(1) refl f] show ?thesis
        by (auto simp: cursor_ok_def cursor_normal_def)
    next
      case bwd
      obtain j p a where f: "chunks_bwd cs i (start_of cs i) 0 (nat (- n)) = (j, p, a)"
        by (cases "chunks_bwd cs i (start_of cs i) 0 (nat (- n))") auto
      with bwd Some assms(3) i(2) have "cu' = \<lparr>cu_chunk = Some j, cu_chunkPos = 0, cu_pos = p\<rparr>"
        by (auto simp: advanceChunks_def Let_def)
      with chunks_bwd_spec [OF assms(1) i(1) refl f] i(1) pos show ?thesis
        by (auto simp: cursor_ok_def cursor_normal_def)
    next
      case zero
      with Some assms(3) i pos show ?thesis
        by (auto simp: advanceChunks_def Let_def cursor_ok_def cursor_normal_def)
    qed
  qed
  then show "cursor_ok cs cu'" "cursor_normal cs cu'"
    by blast+
qed

end
