(* ===== verification/Promotors.thy ===== *)
theory Promotors
  imports Cursors
begin

section \<open>Promotors: the loops that run over two byte streams\<close>

text \<open>
  \<^verbatim>\<open>performing::execute\<close> drives one or two promotors and a step performer. A promotor tells
  how many bytes are contiguous (\<open>possibleContinuousSize\<close>, which may change its state),
  shows them (\<open>continuousData\<close>, \<open>None\<close> for the null pointer) and moves on
  (\<open>promoteFix\<close>). \<open>None\<close> as the result of a loop stands for a loop that does not end or a
  step through a null pointer; the lemmas show that the loops return.

  Two interfaces are stated as locales: a byte source, whose abstraction is the list of the
  bytes still to be delivered, and a byte sink, whose abstraction is what lies before and
  after its position. The copying loop and the comparing loop are proved once, over the
  interfaces.
\<close>

datatype strong_ordering = Less | Equal | Greater

text \<open>The order of the C++ type: a result is compared with 0 by \<open><\<close>, \<open><=\<close> and so on.\<close>

fun ordering_rank :: "strong_ordering \<Rightarrow> int" where
  "ordering_rank Less = - 1"
| "ordering_rank Equal = 0"
| "ordering_rank Greater = 1"

instantiation strong_ordering :: linorder
begin

definition less_eq_strong_ordering :: "strong_ordering \<Rightarrow> strong_ordering \<Rightarrow> bool" where
  "less_eq_strong_ordering a b \<longleftrightarrow> ordering_rank a \<le> ordering_rank b"

definition less_strong_ordering :: "strong_ordering \<Rightarrow> strong_ordering \<Rightarrow> bool" where
  "less_strong_ordering a b \<longleftrightarrow> ordering_rank a < ordering_rank b"

instance
proof
  fix a b :: strong_ordering
  show "a \<le> b \<Longrightarrow> b \<le> a \<Longrightarrow> a = b"
    by (cases a; cases b) (simp_all add: less_eq_strong_ordering_def)
qed (auto simp: less_eq_strong_ordering_def less_strong_ordering_def)

end

subsection \<open>The loops of execute.hpp\<close>

partial_function (option) execute1 ::
  "('s \<Rightarrow> nat \<times> 's) \<Rightarrow> (nat \<Rightarrow> 's \<Rightarrow> 's option) \<Rightarrow> ('s \<Rightarrow> nat \<Rightarrow> 'a \<Rightarrow> (bool \<times> 's \<times> 'a) option) \<Rightarrow>
    's \<Rightarrow> 'a \<Rightarrow> ('a \<times> 's) option" where
  "execute1 possible fixup step s a =
     (case possible s of (n, s1) \<Rightarrow>
       Option.bind (step s1 n a) (\<lambda>(finish, s2, a').
         Option.bind (fixup n s2) (\<lambda>s3.
           if finish then Some (a', s3) else execute1 possible fixup step s3 a')))"

partial_function (option) execute2 ::
  "('s \<Rightarrow> nat \<times> 's) \<Rightarrow> (nat \<Rightarrow> 's \<Rightarrow> 's option) \<Rightarrow> ('t \<Rightarrow> nat \<times> 't) \<Rightarrow> (nat \<Rightarrow> 't \<Rightarrow> 't option) \<Rightarrow>
    ('s \<Rightarrow> 't \<Rightarrow> nat \<Rightarrow> 'a \<Rightarrow> (bool \<times> 's \<times> 't \<times> 'a) option) \<Rightarrow> 's \<Rightarrow> 't \<Rightarrow> 'a \<Rightarrow> ('a \<times> 's \<times> 't) option" where
  "execute2 possL fixL possR fixR step s t a =
     (case possL s of (n1, s1) \<Rightarrow> case possR t of (n2, t1) \<Rightarrow>
       let n = min n1 n2 in
       Option.bind (step s1 t1 n a) (\<lambda>(finish, s2, t2, a').
         Option.bind (fixL n s2) (\<lambda>s3.
           Option.bind (fixR n t2) (\<lambda>t3.
             if finish then Some (a', s3, t3)
             else execute2 possL fixL possR fixR step s3 t3 a'))))"

subsection \<open>The step performers\<close>

text \<open>\<open>readImpl\<close>: copy from the left promotor to the right one and count.\<close>

definition read_step ::
  "('s \<Rightarrow> byte list option) \<Rightarrow> (byte list \<Rightarrow> 't \<Rightarrow> 't) \<Rightarrow> 's \<Rightarrow> 't \<Rightarrow> nat \<Rightarrow> nat \<Rightarrow> (bool \<times> 's \<times> 't \<times> nat) option" where
  "read_step data store s t n readed =
     (if n = 0 then Some (True, s, t, readed)
      else case data s of None \<Rightarrow> None
           | Some d \<Rightarrow> Some (False, s, store (take n d) t, readed + n))"

text \<open>\<open>writeImpl\<close>: copy from the right promotor to the left one and count.\<close>

definition write_step ::
  "(byte list \<Rightarrow> 's \<Rightarrow> 's) \<Rightarrow> ('t \<Rightarrow> byte list option) \<Rightarrow> 's \<Rightarrow> 't \<Rightarrow> nat \<Rightarrow> nat \<Rightarrow> (bool \<times> 's \<times> 't \<times> nat) option" where
  "write_step store data s t n wrote =
     (if n = 0 then Some (True, s, t, wrote)
      else case data t of None \<Rightarrow> None
           | Some d \<Rightarrow> Some (False, store (take n d) s, t, wrote + n))"

text \<open>\<open>memcmp\<close> of the standard library on two runs of the same length.\<close>

fun memcmp :: "byte list \<Rightarrow> byte list \<Rightarrow> int" where
  "memcmp (x # xs) (y # ys) = (if x < y then - 1 else if y < x then 1 else memcmp xs ys)"
| "memcmp _ _ = 0"

definition compare_step ::
  "('s \<Rightarrow> byte list option) \<Rightarrow> ('t \<Rightarrow> byte list option) \<Rightarrow> 's \<Rightarrow> 't \<Rightarrow> nat \<Rightarrow> strong_ordering \<Rightarrow>
    (bool \<times> 's \<times> 't \<times> strong_ordering) option" where
  "compare_step dataL dataR s t n a =
     (if n = 0 then
        (if dataL s = None \<and> dataR t = None then Some (True, s, t, Equal)
         else if dataL s = None then Some (True, s, t, Less)
         else Some (True, s, t, Greater))
      else case (dataL s, dataR t) of
             (Some d, Some e) \<Rightarrow>
               (let cmp = memcmp (take n d) (take n e) in
                Some (cmp \<noteq> 0, s, t, if cmp = 0 then Equal else if cmp < 0 then Less else Greater))
           | _ \<Rightarrow> None)"

subsection \<open>The interface of a byte source\<close>

locale byte_source =
  fixes possible :: "'s \<Rightarrow> nat \<times> 's"
    and data :: "'s \<Rightarrow> byte list option"
    and fixup :: "nat \<Rightarrow> 's \<Rightarrow> 's option"
    and rest :: "'s \<Rightarrow> byte list"
    and ok :: "'s \<Rightarrow> bool"
  assumes possible_pure: "ok s \<Longrightarrow> snd (possible s) = s"
    and possible_le: "ok s \<Longrightarrow> fst (possible s) \<le> length (rest s)"
    and possible_0: "ok s \<Longrightarrow> fst (possible s) = 0 \<Longrightarrow> rest s = []"
    and data_rest: "ok s \<Longrightarrow> 0 < n \<Longrightarrow> n \<le> fst (possible s) \<Longrightarrow>
          \<exists>d. data s = Some d \<and> take n d = take n (rest s)"
    and fix_rest: "ok s \<Longrightarrow> n \<le> fst (possible s) \<Longrightarrow>
          \<exists>s'. fixup n s = Some s' \<and> ok s' \<and> rest s' = drop n (rest s)"

text \<open>A source that shows the null pointer exactly when it is exhausted.\<close>

locale null_source = byte_source +
  assumes data_null: "ok s \<Longrightarrow> data s = None \<longleftrightarrow> rest s = []"

subsection \<open>The interface of a byte sink\<close>

text \<open>
  \<open>emit xs (a, b)\<close> is the effect of writing \<open>xs\<close> between \<open>a\<close> and \<open>b\<close>: it overwrites the
  beginning of \<open>b\<close>. \<open>ok m k\<close> says that at least \<open>m\<close> more bytes fit.
\<close>

definition emit :: "'a list \<Rightarrow> 'a list \<times> 'a list \<Rightarrow> 'a list \<times> 'a list" where
  "emit xs ab = (fst ab @ xs, drop (length xs) (snd ab))"

lemma emit_Nil [simp]: "emit [] ab = ab"
  by (simp add: emit_def)

lemma emit_emit: "emit ys (emit xs ab) = emit (xs @ ys) ab"
  by (simp add: emit_def add.commute)

locale byte_sink =
  fixes possible :: "'k \<Rightarrow> nat \<times> 'k"
    and store :: "byte list \<Rightarrow> 'k \<Rightarrow> 'k"
    and fixup :: "nat \<Rightarrow> 'k \<Rightarrow> 'k option"
    and out :: "'k \<Rightarrow> byte list \<times> byte list"
    and ok :: "nat \<Rightarrow> 'k \<Rightarrow> bool"
  assumes possible_pos: "ok m k \<Longrightarrow> 0 < m \<Longrightarrow> 0 < fst (possible k)"
    and store_fix: "ok m k \<Longrightarrow> length xs \<le> fst (possible k) \<Longrightarrow> length xs \<le> m \<Longrightarrow> xs \<noteq> [] \<Longrightarrow>
          \<exists>k'. fixup (length xs) (store xs (snd (possible k))) = Some k' \<and> ok (m - length xs) k' \<and>
               out k' = emit xs (out k)"
    and fix_0: "ok m k \<Longrightarrow> \<exists>k'. fixup 0 (snd (possible k)) = Some k' \<and> ok m k' \<and> out k' = out k"

subsection \<open>Copying from a source to a sink\<close>

locale copying =
  src: byte_source spossible sdata sfix srest sok + snk: byte_sink kpossible kstore kfix kout kok
  for spossible :: "'s \<Rightarrow> nat \<times> 's" and sdata sfix srest sok
    and kpossible :: "'k \<Rightarrow> nat \<times> 'k" and kstore kfix kout kok
begin

text \<open>The last round, and a round that copies; both loops are inductions over these.\<close>

lemma copy_done:
  assumes "sok s" "kok m k" "length (srest s) \<le> m"
    and "spossible s = (ns, s)" "kpossible k = (nk, k1)" "ns = 0 \<or> nk = 0"
  shows "srest s = []"
    and "\<exists>s' k'. sfix 0 s = Some s' \<and> kfix 0 k1 = Some k' \<and> sok s' \<and> srest s' = [] \<and>
           kok m k' \<and> kout k' = kout k"
proof -
  show "srest s = []"
  proof (rule ccontr)
    assume "srest s \<noteq> []"
    then have "0 < m"
      using assms(3) by (cases m) auto
    with assms snk.possible_pos [of m k] src.possible_0 [of s] \<open>srest s \<noteq> []\<close> show False
      by auto
  qed
  then show "\<exists>s' k'. sfix 0 s = Some s' \<and> kfix 0 k1 = Some k' \<and> sok s' \<and> srest s' = [] \<and>
           kok m k' \<and> kout k' = kout k"
    using src.fix_rest [OF assms(1), of 0] snk.fix_0 [OF assms(2)] assms(5) by auto
qed

lemma copy_round:
  assumes "sok s" "kok m k" "length (srest s) \<le> m"
    and "spossible s = (ns, s)" "kpossible k = (nk, k1)" "0 < n" "n \<le> ns" "n \<le> nk"
  shows "n \<le> length (srest s)"
    and "\<exists>d s' k'. sdata s = Some d \<and> sfix n s = Some s' \<and> kfix n (kstore (take n d) k1) = Some k' \<and>
           sok s' \<and> srest s' = drop n (srest s) \<and> kok (m - n) k' \<and>
           kout k' = emit (take n (srest s)) (kout k)"
proof -
  show nle: "n \<le> length (srest s)"
    using src.possible_le [OF assms(1)] assms(4,7) by simp
  obtain d where d: "sdata s = Some d" "take n d = take n (srest s)"
    using src.data_rest [OF assms(1), of n] assms by auto
  obtain s' where s': "sfix n s = Some s'" "sok s'" "srest s' = drop n (srest s)"
    using src.fix_rest [OF assms(1), of n] assms by auto
  have xs: "length (take n (srest s)) = n" "take n (srest s) \<noteq> []"
    using nle assms(6) by auto
  obtain k' where "kfix n (kstore (take n (srest s)) k1) = Some k'" "kok (m - n) k'"
      "kout k' = emit (take n (srest s)) (kout k)"
    using snk.store_fix [OF assms(2), of "take n (srest s)"] xs nle assms(3,5,8) by auto
  with d s' show "\<exists>d s' k'. sdata s = Some d \<and> sfix n s = Some s' \<and>
      kfix n (kstore (take n d) k1) = Some k' \<and> sok s' \<and> srest s' = drop n (srest s) \<and>
      kok (m - n) k' \<and> kout k' = emit (take n (srest s)) (kout k)"
    by (intro exI [of _ d] exI [of _ s'] exI [of _ k']) simp
qed

lemma possible_source: "sok s \<Longrightarrow> spossible s = (fst (spossible s), s)"
  using src.possible_pure by (metis prod.collapse)

lemma read_loop:
  assumes "sok s" "kok m k" "length (srest s) \<le> m"
  shows "\<exists>s' k'. execute2 spossible sfix kpossible kfix (read_step sdata kstore) s k c =
           Some (c + length (srest s), s', k') \<and>
         sok s' \<and> srest s' = [] \<and> kok (m - length (srest s)) k' \<and> kout k' = emit (srest s) (kout k)"
  using assms
proof (induction "length (srest s)" arbitrary: s k m c rule: less_induct)
  case less
  obtain ns where ps: "spossible s = (ns, s)"
    using possible_source [OF less.prems(1)] by blast
  obtain nk k1 where pk: "kpossible k = (nk, k1)"
    by (cases "kpossible k") auto
  show ?case
  proof (cases "ns = 0 \<or> nk = 0")
    case True
    with copy_done [OF less.prems ps pk] show ?thesis
      by (subst execute2.simps) (auto simp: ps pk read_step_def)
  next
    case False
    define n where "n = min ns nk"
    have n: "0 < n" "n \<le> ns" "n \<le> nk"
      using False by (auto simp: n_def)
    note nle = copy_round(1) [OF less.prems ps pk n]
    obtain d s' k' where r: "sdata s = Some d" "sfix n s = Some s'" "kfix n (kstore (take n d) k1) = Some k'"
      "sok s'" "srest s' = drop n (srest s)" "kok (m - n) k'"
      "kout k' = emit (take n (srest s)) (kout k)"
      using copy_round(2) [OF less.prems ps pk n] by blast
    have step: "execute2 spossible sfix kpossible kfix (read_step sdata kstore) s k c =
        execute2 spossible sfix kpossible kfix (read_step sdata kstore) s' k' (c + n)"
      using n r by (subst execute2.simps) (simp add: ps pk read_step_def Let_def flip: n_def)
    have "length (srest s') < length (srest s)" "length (srest s') \<le> m - n"
      using r(5) n nle less.prems(3) by simp_all
    from less.hyps [OF this(1) r(4) r(6) this(2), of "c + n"] show ?thesis
      using r(5,7) nle less.prems(3) by (simp add: step emit_emit)
  qed
qed

lemma write_loop:
  assumes "sok s" "kok m k" "length (srest s) \<le> m"
  shows "\<exists>s' k'. execute2 kpossible kfix spossible sfix (write_step kstore sdata) k s c =
           Some (c + length (srest s), k', s') \<and>
         sok s' \<and> srest s' = [] \<and> kok (m - length (srest s)) k' \<and> kout k' = emit (srest s) (kout k)"
  using assms
proof (induction "length (srest s)" arbitrary: s k m c rule: less_induct)
  case less
  obtain ns where ps: "spossible s = (ns, s)"
    using possible_source [OF less.prems(1)] by blast
  obtain nk k1 where pk: "kpossible k = (nk, k1)"
    by (cases "kpossible k") auto
  show ?case
  proof (cases "ns = 0 \<or> nk = 0")
    case True
    with copy_done [OF less.prems ps pk] show ?thesis
      by (subst execute2.simps) (auto simp: ps pk write_step_def)
  next
    case False
    define n where "n = min nk ns"
    have n: "0 < n" "n \<le> ns" "n \<le> nk"
      using False by (auto simp: n_def)
    note nle = copy_round(1) [OF less.prems ps pk n]
    obtain d s' k' where r: "sdata s = Some d" "sfix n s = Some s'" "kfix n (kstore (take n d) k1) = Some k'"
      "sok s'" "srest s' = drop n (srest s)" "kok (m - n) k'"
      "kout k' = emit (take n (srest s)) (kout k)"
      using copy_round(2) [OF less.prems ps pk n] by blast
    have step: "execute2 kpossible kfix spossible sfix (write_step kstore sdata) k s c =
        execute2 kpossible kfix spossible sfix (write_step kstore sdata) k' s' (c + n)"
      using n r by (subst execute2.simps) (simp add: ps pk write_step_def Let_def flip: n_def)
    have "length (srest s') < length (srest s)" "length (srest s') \<le> m - n"
      using r(5) n nle less.prems(3) by simp_all
    from less.hyps [OF this(1) r(4) r(6) this(2), of "c + n"] show ?thesis
      using r(5,7) nle less.prems(3) by (simp add: step emit_emit)
  qed
qed

end

subsection \<open>Comparing two sources\<close>

text \<open>The lexicographic order that the comparison computes.\<close>

fun lex_compare :: "byte list \<Rightarrow> byte list \<Rightarrow> strong_ordering" where
  "lex_compare [] [] = Equal"
| "lex_compare [] (y # ys) = Less"
| "lex_compare (x # xs) [] = Greater"
| "lex_compare (x # xs) (y # ys) = (if x < y then Less else if y < x then Greater else lex_compare xs ys)"

lemma lex_compare_memcmp:
  assumes "n \<le> length xs" "n \<le> length ys"
  shows "lex_compare xs ys =
     (let c = memcmp (take n xs) (take n ys) in
      if c = 0 then lex_compare (drop n xs) (drop n ys) else if c < 0 then Less else Greater)"
  using assms
proof (induction n arbitrary: xs ys)
  case 0
  then show ?case by simp
next
  case (Suc n)
  then obtain x xs' y ys' where "xs = x # xs'" "ys = y # ys'"
    by (cases xs; cases ys) auto
  with Suc show ?case by (simp add: Let_def)
qed

locale comparing =
  l: null_source lpossible ldata lfix lrest lok + r: null_source rpossible rdata rfix rrest rok
  for lpossible :: "'s \<Rightarrow> nat \<times> 's" and ldata lfix lrest lok
    and rpossible :: "'t \<Rightarrow> nat \<times> 't" and rdata rfix rrest rok
begin

lemma compare_loop:
  assumes "lok s" "rok t"
  shows "\<exists>s' t'. execute2 lpossible lfix rpossible rfix (compare_step ldata rdata) s t a =
           Some (lex_compare (lrest s) (rrest t), s', t')"
  using assms
proof (induction "length (lrest s)" arbitrary: s t a rule: less_induct)
  case less
  obtain ns where ps: "lpossible s = (ns, s)"
    using l.possible_pure [OF less.prems(1)] by (metis prod.collapse)
  obtain nt where pt: "rpossible t = (nt, t)"
    using r.possible_pure [OF less.prems(2)] by (metis prod.collapse)
  define n where "n = min ns nt"
  have n: "n \<le> ns" "n \<le> nt" "n = 0 \<longleftrightarrow> ns = 0 \<or> nt = 0"
    by (auto simp: n_def)
  have nle: "n \<le> length (lrest s)" "n \<le> length (rrest t)"
    using n l.possible_le [OF less.prems(1)] r.possible_le [OF less.prems(2)] ps pt by auto
  obtain s' where s': "lfix n s = Some s'" "lok s'" "lrest s' = drop n (lrest s)"
    using l.fix_rest [OF less.prems(1), of n] ps n by auto
  obtain t' where t': "rfix n t = Some t'" "rok t'" "rrest t' = drop n (rrest t)"
    using r.fix_rest [OF less.prems(2), of n] pt n by auto
  show ?case
  proof (cases "n = 0")
    case True
    have e: "lrest s = [] \<or> rrest t = []"
      using True n l.possible_0 [OF less.prems(1)] r.possible_0 [OF less.prems(2)] ps pt
      by auto
    then have "lex_compare (lrest s) (rrest t) =
        (if lrest s = [] \<and> rrest t = [] then Equal else if lrest s = [] then Less else Greater)"
      by (cases "lrest s"; cases "rrest t") auto
    then show ?thesis
      using True s'(1) t'(1) l.data_null [OF less.prems(1)] r.data_null [OF less.prems(2)]
      by (subst execute2.simps) (simp add: ps pt compare_step_def Let_def flip: n_def)
  next
    case False
    obtain d where d: "ldata s = Some d" "take n d = take n (lrest s)"
      using l.data_rest [OF less.prems(1), of n] ps n False by auto
    obtain e where e: "rdata t = Some e" "take n e = take n (rrest t)"
      using r.data_rest [OF less.prems(2), of n] pt n False by auto
    let ?c = "memcmp (take n (lrest s)) (take n (rrest t))"
    have "length (lrest s') < length (lrest s)"
      using s'(3) False nle by simp
    note ih = less.hyps [OF this s'(2) t'(2)]
    have lc: "lex_compare (lrest s) (rrest t) =
        (if ?c = 0 then lex_compare (lrest s') (rrest t') else if ?c < 0 then Less else Greater)"
      using lex_compare_memcmp [OF nle] s'(3) t'(3) by (simp add: Let_def)
    show ?thesis
      using False d e s'(1) t'(1) ih lc
      by (subst execute2.simps) (simp add: ps pt compare_step_def Let_def flip: n_def)
  qed
qed

end

end
