(* ===== verification/Readings.thy ===== *)
theory Readings
  imports Promotors Hex "HOL-Library.List_Lexorder"
begin

section \<open>Readings: read, compare, toString and toHex of a cursor\<close>

text \<open>
  The promotors over plain memory (\<^verbatim>\<open>ArrayPromotor\<close>, as a source and as a destination) and
  over a cursor (\<^verbatim>\<open>CursorPromotor\<close>, \<^verbatim>\<open>PartCursorPromotor\<close>), as interpretations of the
  byte source and byte sink interfaces, and on them the reading operations of
  \<^verbatim>\<open>impl::Cursor\<close> and the comparisons of \<^verbatim>\<open>impl::Bytes\<close>. The abstraction of a source
  is the list of the bytes that it still delivers.
\<close>

subsection \<open>The promotors\<close>

text \<open>A source in plain memory: the bytes from \<^verbatim>\<open>_data\<close> on (\<open>None\<close> for the null pointer) and \<^verbatim>\<open>_size\<close>.\<close>

record array_source =
  as_data :: "byte list option"
  as_size :: nat

definition array_possible :: "array_source \<Rightarrow> nat \<times> array_source" where
  "array_possible a = (as_size a, a)"

definition array_fix :: "nat \<Rightarrow> array_source \<Rightarrow> array_source option" where
  "array_fix n a =
     (let size = as_size a - n in
      Some \<lparr>as_data = (if size = 0 then None else map_option (drop n) (as_data a)), as_size = size\<rparr>)"

text \<open>
  A destination in plain memory: the whole destination, the offset that \<^verbatim>\<open>_data\<close> has in it
  and \<^verbatim>\<open>_size\<close>.
\<close>

record array_sink =
  sk_mem :: "byte list"
  sk_data :: "nat option"
  sk_size :: nat

definition sink_possible :: "array_sink \<Rightarrow> nat \<times> array_sink" where
  "sink_possible k = (sk_size k, k)"

definition sink_store :: "byte list \<Rightarrow> array_sink \<Rightarrow> array_sink" where
  "sink_store xs k = (case sk_data k of None \<Rightarrow> k | Some p \<Rightarrow> k\<lparr>sk_mem := put_at p xs (sk_mem k)\<rparr>)"

definition sink_fix :: "nat \<Rightarrow> array_sink \<Rightarrow> array_sink option" where
  "sink_fix n k =
     (let size = sk_size k - n in
      Some (k\<lparr>sk_size := size, sk_data := (if size = 0 then None else map_option (\<lambda>p. p + n) (sk_data k))\<rparr>))"

text \<open>The cursor promotors hold a reference to the cursor; \<open>cs\<close> is the chunk list it walks.\<close>

definition cursor_possible :: "chunk list \<Rightarrow> cursor \<Rightarrow> nat \<times> cursor" where
  "cursor_possible cs cu = (continuousDataSize cs cu, cu)"

definition cursor_fix :: "chunk list \<Rightarrow> nat \<Rightarrow> cursor \<Rightarrow> cursor option" where
  "cursor_fix cs n cu = Some (snd (advance cs (int n) cu))"

record part_cursor =
  pc_cursor :: cursor
  pc_maxSize :: nat

definition part_possible :: "chunk list \<Rightarrow> part_cursor \<Rightarrow> nat \<times> part_cursor" where
  "part_possible cs p = (min (pc_maxSize p) (continuousDataSize cs (pc_cursor p)), p)"

definition part_data :: "chunk list \<Rightarrow> part_cursor \<Rightarrow> byte list option" where
  "part_data cs p = continuousData cs (pc_cursor p)"

definition part_fix :: "chunk list \<Rightarrow> nat \<Rightarrow> part_cursor \<Rightarrow> part_cursor option" where
  "part_fix cs n p =
     Some \<lparr>pc_cursor = snd (advance cs (int n) (pc_cursor p)), pc_maxSize = pc_maxSize p - n\<rparr>"

subsection \<open>The operations\<close>

text \<open>\<^verbatim>\<open>read(void*)\<close> gives the count, the cursor and the destination memory.\<close>

definition cursor_read :: "chunk list \<Rightarrow> cursor \<Rightarrow> byte list \<Rightarrow> nat \<Rightarrow> (nat \<times> cursor \<times> byte list) option" where
  "cursor_read cs cu dst maxSize =
     map_option (\<lambda>(readed, p, k). (readed, pc_cursor p, sk_mem k))
       (execute2 (part_possible cs) (part_fix cs) sink_possible sink_fix
          (read_step (part_data cs) sink_store)
          \<lparr>pc_cursor = cu, pc_maxSize = maxSize\<rparr>
          \<lparr>sk_mem = dst, sk_data = Some 0, sk_size = maxSize\<rparr> 0)"

definition compare_array ::
  "chunk list \<Rightarrow> cursor \<Rightarrow> byte list option \<Rightarrow> nat \<Rightarrow> (strong_ordering \<times> cursor) option" where
  "compare_array cs cu rival n =
     map_option (\<lambda>(r, cu', a). (r, cu'))
       (execute2 (cursor_possible cs) (cursor_fix cs) array_possible array_fix
          (compare_step (continuousData cs) as_data) cu \<lparr>as_data = rival, as_size = n\<rparr> Equal)"

definition compare_cursor ::
  "chunk list \<Rightarrow> cursor \<Rightarrow> chunk list \<Rightarrow> cursor \<Rightarrow> (strong_ordering \<times> cursor \<times> cursor) option" where
  "compare_cursor cs cu ds cv =
     execute2 (cursor_possible cs) (cursor_fix cs) (cursor_possible ds) (cursor_fix ds)
       (compare_step (continuousData cs) (continuousData ds)) cu cv Equal"

definition buf_chunks :: "buffer option \<Rightarrow> chunk list" where
  "buf_chunks bo = (case bo of None \<Rightarrow> [] | Some b \<Rightarrow> bf_chunks b)"

definition cursor_toString :: "buffer option \<Rightarrow> cursor \<Rightarrow> nat \<Rightarrow> (byte list \<times> cursor) option" where
  "cursor_toString bo cu maxSize =
     (let res = replicate (min (cursor_size bo cu) maxSize) 0 in
      map_option (\<lambda>(readed, cu', m). (m, cu')) (cursor_read (buf_chunks bo) cu res (length res)))"

definition hex_step :: "chunk list \<Rightarrow> cursor \<Rightarrow> nat \<Rightarrow> string \<Rightarrow> (bool \<times> cursor \<times> string) option" where
  "hex_step cs cu n res =
     (if n = 0 then Some (True, cu, res)
      else case continuousData cs cu of None \<Rightarrow> None
           | Some d \<Rightarrow> Some (False, cu, res @ b2h little (take n d)))"

text \<open>\<open>toHex\<close> uses its argument only to reserve space for the text.\<close>

definition toHex :: "buffer option \<Rightarrow> cursor \<Rightarrow> nat \<Rightarrow> (string \<times> cursor) option" where
  "toHex bo cu maxSize =
     execute1 (cursor_possible (buf_chunks bo)) (cursor_fix (buf_chunks bo)) (hex_step (buf_chunks bo)) cu []"

definition bytes_size :: "buffer option \<Rightarrow> nat" where
  "bytes_size bo = (case bo of None \<Rightarrow> 0 | Some b \<Rightarrow> bf_size b)"

definition bytes_empty :: "buffer option \<Rightarrow> bool" where
  "bytes_empty bo \<longleftrightarrow> bo = None \<or> bytes_size bo = 0"

definition bytes_toString :: "buffer option \<Rightarrow> byte list option" where
  "bytes_toString bo = map_option fst (cursor_toString bo (cursor_at bo True) (2 ^ 32 - 1))"

definition bytes_toHex :: "buffer option \<Rightarrow> string option" where
  "bytes_toHex bo = map_option fst (toHex bo (cursor_at bo True) (2 ^ 32 - 1))"

text \<open>\<open>same\<close> is the test that the two objects are one.\<close>

definition bytes_compare :: "bool \<Rightarrow> buffer option \<Rightarrow> buffer option \<Rightarrow> strong_ordering option" where
  "bytes_compare same bo bo' =
     (if same then Some Equal
      else map_option fst
             (compare_cursor (buf_chunks bo) (cursor_at bo True) (buf_chunks bo') (cursor_at bo' True)))"

definition bytes_eq :: "bool \<Rightarrow> buffer option \<Rightarrow> buffer option \<Rightarrow> bool option" where
  "bytes_eq same bo bo' = map_option (\<lambda>r. r = Equal) (bytes_compare same bo bo')"

definition bytes_ne :: "bool \<Rightarrow> buffer option \<Rightarrow> buffer option \<Rightarrow> bool option" where
  "bytes_ne same bo bo' = map_option (\<lambda>r. r \<noteq> Equal) (bytes_compare same bo bo')"

definition bytes_lt :: "bool \<Rightarrow> buffer option \<Rightarrow> buffer option \<Rightarrow> bool option" where
  "bytes_lt same bo bo' = map_option (\<lambda>r. r < Equal) (bytes_compare same bo bo')"

definition bytes_gt :: "bool \<Rightarrow> buffer option \<Rightarrow> buffer option \<Rightarrow> bool option" where
  "bytes_gt same bo bo' = map_option (\<lambda>r. r > Equal) (bytes_compare same bo bo')"

definition bytes_le :: "bool \<Rightarrow> buffer option \<Rightarrow> buffer option \<Rightarrow> bool option" where
  "bytes_le same bo bo' = map_option (\<lambda>r. r \<le> Equal) (bytes_compare same bo bo')"

definition bytes_ge :: "bool \<Rightarrow> buffer option \<Rightarrow> buffer option \<Rightarrow> bool option" where
  "bytes_ge same bo bo' = map_option (\<lambda>r. r \<ge> Equal) (bytes_compare same bo bo')"

subsection \<open>The promotors satisfy the interfaces\<close>

definition array_rest :: "array_source \<Rightarrow> byte list" where
  "array_rest a = (case as_data a of None \<Rightarrow> [] | Some d \<Rightarrow> take (as_size a) d)"

definition array_ok :: "array_source \<Rightarrow> bool" where
  "array_ok a \<longleftrightarrow> (case as_data a of None \<Rightarrow> as_size a = 0 | Some d \<Rightarrow> 0 < as_size a \<and> as_size a \<le> length d)"

definition sink_out :: "array_sink \<Rightarrow> byte list \<times> byte list" where
  "sink_out k = (take (length (sk_mem k) - sk_size k) (sk_mem k), drop (length (sk_mem k) - sk_size k) (sk_mem k))"

definition sink_ok :: "nat \<Rightarrow> array_sink \<Rightarrow> bool" where
  "sink_ok m k \<longleftrightarrow> m \<le> sk_size k \<and> sk_size k \<le> length (sk_mem k) \<and>
     (0 < sk_size k \<longrightarrow> sk_data k = Some (length (sk_mem k) - sk_size k))"

definition cursor_rest :: "chunk list \<Rightarrow> cursor \<Rightarrow> byte list" where
  "cursor_rest cs cu = drop (cu_pos cu) (contents cs)"

definition cursor_good :: "chunk list \<Rightarrow> cursor \<Rightarrow> bool" where
  "cursor_good cs cu \<longleftrightarrow> chunks_ok cs \<and> cursor_ok cs cu \<and> cursor_normal cs cu"

definition part_rest :: "chunk list \<Rightarrow> part_cursor \<Rightarrow> byte list" where
  "part_rest cs p = take (pc_maxSize p) (cursor_rest cs (pc_cursor p))"

text \<open>\<open>t\<close> is the position that the cursor may not pass.\<close>

definition part_ok :: "chunk list \<Rightarrow> nat \<Rightarrow> part_cursor \<Rightarrow> bool" where
  "part_ok cs t p \<longleftrightarrow> cursor_good cs (pc_cursor p) \<and> cu_pos (pc_cursor p) + pc_maxSize p = t"

lemma cursor_good_advance:
  assumes "cursor_good cs cu" "n \<le> length (cursor_rest cs cu)"
  shows "cursor_good cs (snd (advance cs (int n) cu))"
    and "cursor_rest cs (snd (advance cs (int n) cu)) = drop n (cursor_rest cs cu)"
    and "cu_pos (snd (advance cs (int n) cu)) = cu_pos cu + n"
proof -
  obtain d cu' where a: "advance cs (int n) cu = (d, cu')"
    by (cases "advance cs (int n) cu") auto
  have ok: "chunks_ok cs" "cursor_ok cs cu" "cursor_normal cs cu"
    using assms(1) by (simp_all add: cursor_good_def)
  have "cu_pos cu' = cu_pos cu + n"
    using advance_spec(2) [OF ok(1,2) a] assms(2) cursor_ok_pos_le [OF ok(1,2)]
    by (simp add: cursor_rest_def)
  then show "cursor_good cs (snd (advance cs (int n) cu))"
    "cursor_rest cs (snd (advance cs (int n) cu)) = drop n (cursor_rest cs cu)"
    "cu_pos (snd (advance cs (int n) cu)) = cu_pos cu + n"
    using advance_spec(1,4) [OF ok(1,2) a] ok a
    by (simp_all add: cursor_good_def cursor_rest_def add.commute)
qed

lemma cursor_good_data:
  assumes "cursor_good cs cu"
  shows "continuousDataSize cs cu \<le> length (cursor_rest cs cu)"
    and "continuousDataSize cs cu = 0 \<longleftrightarrow> cursor_rest cs cu = []"
    and "continuousData cs cu = None \<longleftrightarrow> cursor_rest cs cu = []"
    and "0 < n \<Longrightarrow> n \<le> continuousDataSize cs cu \<Longrightarrow>
           \<exists>d. continuousData cs cu = Some d \<and> take n d = take n (cursor_rest cs cu)"
proof -
  have ok: "chunks_ok cs" "cursor_ok cs cu" "cursor_normal cs cu"
    using assms by (simp_all add: cursor_good_def)
  note d = drop_contents_cursor [OF ok(1,2)]
  show "continuousDataSize cs cu \<le> length (cursor_rest cs cu)"
    using d(2) by (simp add: cursor_rest_def)
  show e: "continuousDataSize cs cu = 0 \<longleftrightarrow> cursor_rest cs cu = []"
    using continuous_at_end [OF ok] cursor_ok_pos_le [OF ok(1,2)] by (auto simp: cursor_rest_def)
  then show "continuousData cs cu = None \<longleftrightarrow> cursor_rest cs cu = []"
    using d(3) by simp
  show "\<exists>d. continuousData cs cu = Some d \<and> take n d = take n (cursor_rest cs cu)"
    if n: "0 < n" "n \<le> continuousDataSize cs cu"
  proof -
    obtain e where e: "continuousData cs cu = Some e"
      using d(3) n by (cases "continuousData cs cu") auto
    have "take n (take (continuousDataSize cs cu) e) =
        take n (take (continuousDataSize cs cu) (cursor_rest cs cu))"
      using d(1) e by (simp add: cursor_rest_def)
    then show ?thesis
      using e n(2) by (simp add: min_absorb1)
  qed
qed

interpretation cur: null_source "cursor_possible cs" "continuousData cs" "cursor_fix cs" "cursor_rest cs"
    "cursor_good cs" for cs
  by unfold_locales
     (auto simp: cursor_possible_def cursor_fix_def cursor_good_data cursor_good_advance
        dest: order_trans [OF _ cursor_good_data(1)])

interpretation part: byte_source "part_possible cs" "part_data cs" "part_fix cs" "part_rest cs" "part_ok cs t"
    for cs t
proof
  fix p n
  assume "part_ok cs t p" "0 < n" "n \<le> fst (part_possible cs p)"
  then show "\<exists>d. part_data cs p = Some d \<and> take n d = take n (part_rest cs p)"
    using cursor_good_data(4) [of cs "pc_cursor p" n]
    by (auto simp: part_ok_def part_possible_def part_data_def part_rest_def min_absorb1)
next
  fix p n
  assume p: "part_ok cs t p" "n \<le> fst (part_possible cs p)"
  then have "n \<le> length (cursor_rest cs (pc_cursor p))" "n \<le> pc_maxSize p"
    using cursor_good_data(1) [of cs "pc_cursor p"] by (simp_all add: part_ok_def part_possible_def)
  then show "\<exists>p'. part_fix cs n p = Some p' \<and> part_ok cs t p' \<and> part_rest cs p' = drop n (part_rest cs p)"
    using p cursor_good_advance [of cs "pc_cursor p" n]
    by (simp add: part_ok_def part_fix_def part_rest_def drop_take)
next
  fix p
  assume p: "part_ok cs t p"
  then show "fst (part_possible cs p) \<le> length (part_rest cs p)"
    using cursor_good_data(1) [of cs "pc_cursor p"]
    by (simp add: part_possible_def part_rest_def part_ok_def min.coboundedI2)
  show "fst (part_possible cs p) = 0 \<Longrightarrow> part_rest cs p = []"
    using p cursor_good_data(2) [of cs "pc_cursor p"]
    by (auto simp: part_possible_def part_rest_def part_ok_def min_def split: if_splits)
qed (simp add: part_possible_def)

interpretation arr: null_source array_possible as_data array_fix array_rest array_ok
  by unfold_locales
     (auto simp: array_possible_def array_fix_def array_rest_def array_ok_def Let_def take_drop
        split: option.splits)

text \<open>For copying, a source of no bytes may still show a pointer.\<close>

definition array_fits :: "array_source \<Rightarrow> bool" where
  "array_fits a \<longleftrightarrow> (case as_data a of None \<Rightarrow> as_size a = 0 | Some d \<Rightarrow> as_size a \<le> length d)"

interpretation arrc: byte_source array_possible as_data array_fix array_rest array_fits
  by unfold_locales
     (auto simp: array_possible_def array_fix_def array_rest_def array_fits_def Let_def take_drop
        split: option.splits)

interpretation sink: byte_sink sink_possible sink_store sink_fix sink_out sink_ok
proof
  fix m k and xs :: "byte list"
  assume k: "sink_ok m k" "length xs \<le> fst (sink_possible k)" "length xs \<le> m" "xs \<noteq> []"
  define p where "p = length (sk_mem k) - sk_size k"
  have bounds: "length xs \<le> sk_size k" "sk_size k \<le> length (sk_mem k)"
    using k by (simp_all add: sink_ok_def sink_possible_def)
  then have p: "p + length xs \<le> length (sk_mem k)" "length (sk_mem k) - (sk_size k - length xs) = p + length xs"
    by (simp_all add: p_def)
  have "sk_data k = Some p"
    using k by (cases xs) (simp_all add: sink_ok_def sink_possible_def p_def)
  then have f: "sink_fix (length xs) (sink_store xs (snd (sink_possible k))) =
      Some \<lparr>sk_mem = put_at p xs (sk_mem k),
            sk_data = (if sk_size k - length xs = 0 then None else Some (p + length xs)),
            sk_size = sk_size k - length xs\<rparr>" (is "_ = Some ?k'")
    by (simp add: sink_fix_def sink_store_def sink_possible_def Let_def)
  have "sink_ok (m - length xs) ?k'"
    using k bounds p by (auto simp: sink_ok_def)
  moreover have "sink_out ?k' = emit xs (sink_out k)"
    using p take_put_at_end [of p "sk_mem k" xs] drop_put_at [of p xs "p + length xs" "sk_mem k"]
    by (simp add: sink_out_def emit_def add.commute flip: p_def)
  ultimately show "\<exists>k'. sink_fix (length xs) (sink_store xs (snd (sink_possible k))) = Some k' \<and>
      sink_ok (m - length xs) k' \<and> sink_out k' = emit xs (sink_out k)"
    using f by blast
qed (auto simp: sink_possible_def sink_ok_def sink_fix_def sink_out_def)

interpretation read_array: copying "part_possible cs" "part_data cs" "part_fix cs" "part_rest cs" "part_ok cs t"
    sink_possible sink_store sink_fix sink_out sink_ok for cs t
  by unfold_locales

interpretation cmp_array: comparing "cursor_possible cs" "continuousData cs" "cursor_fix cs" "cursor_rest cs"
    "cursor_good cs" array_possible as_data array_fix array_rest array_ok for cs
  by unfold_locales

interpretation cmp_cursor: comparing "cursor_possible cs" "continuousData cs" "cursor_fix cs" "cursor_rest cs"
    "cursor_good cs" "cursor_possible ds" "continuousData ds" "cursor_fix ds" "cursor_rest ds"
    "cursor_good ds" for cs ds
  by unfold_locales

subsection \<open>What reading and comparing do\<close>

lemma read_spec:
  assumes good: "cursor_good cs cu" and dst: "length dst = maxSize"
  obtains n cu' where "cursor_read cs cu dst maxSize = Some (n, cu', take maxSize (cursor_rest cs cu) @ drop n dst)"
    and "n = min maxSize (length (contents cs) - cu_pos cu)" "cursor_good cs cu'" "cu_pos cu' = cu_pos cu + n"
proof -
  define t where "t = cu_pos cu + maxSize"
  let ?p = "\<lparr>pc_cursor = cu, pc_maxSize = maxSize\<rparr>"
  let ?k = "\<lparr>sk_mem = dst, sk_data = Some 0, sk_size = maxSize\<rparr>"
  let ?n = "min maxSize (length (contents cs) - cu_pos cu)"
  have p: "part_ok cs t ?p" "sink_ok maxSize ?k" "length (part_rest cs ?p) \<le> maxSize"
    using good dst by (simp_all add: part_ok_def sink_ok_def part_rest_def t_def)
  obtain p' k' where l: "execute2 (part_possible cs) (part_fix cs) sink_possible sink_fix
        (read_step (part_data cs) sink_store) ?p ?k 0 = Some (0 + length (part_rest cs ?p), p', k')"
    "part_ok cs t p'" "part_rest cs p' = []" "sink_out k' = emit (part_rest cs ?p) (sink_out ?k)"
    using read_array.read_loop [OF p, of 0] by blast
  have n: "length (part_rest cs ?p) = ?n"
    by (simp add: part_rest_def cursor_rest_def min.commute)
  have "sk_mem k' = fst (sink_out k') @ snd (sink_out k')"
    by (simp add: sink_out_def)
  also have "\<dots> = part_rest cs ?p @ drop ?n dst"
    using l(4) n dst by (simp add: emit_def sink_out_def)
  finally have "cursor_read cs cu dst maxSize =
      Some (?n, pc_cursor p', take maxSize (cursor_rest cs cu) @ drop ?n dst)"
    using l(1) n by (simp add: cursor_read_def) (simp add: part_rest_def)
  moreover have "cu_pos (pc_cursor p') = cu_pos cu + ?n" "cursor_good cs (pc_cursor p')"
  proof -
    have good': "cursor_good cs (pc_cursor p')" "cu_pos (pc_cursor p') + pc_maxSize p' = t"
      using l(2) by (simp_all add: part_ok_def)
    have le: "cu_pos cu \<le> length (contents cs)" "cu_pos (pc_cursor p') \<le> length (contents cs)"
      using good good'(1) cursor_ok_pos_le by (auto simp: cursor_good_def)
    have "pc_maxSize p' = 0 \<or> cu_pos (pc_cursor p') = length (contents cs)"
      using l(3) le by (auto simp: part_rest_def cursor_rest_def)
    then show "cu_pos (pc_cursor p') = cu_pos cu + ?n" "cursor_good cs (pc_cursor p')"
      using good' le by (auto simp: t_def)
  qed
  ultimately show ?thesis
    using that by blast
qed

lemma compare_array_spec:
  assumes "cursor_good cs cu" "array_ok \<lparr>as_data = rival, as_size = n\<rparr>"
  shows "\<exists>cu'. compare_array cs cu rival n =
     Some (lex_compare (cursor_rest cs cu) (array_rest \<lparr>as_data = rival, as_size = n\<rparr>), cu')"
  using cmp_array.compare_loop [OF assms, of Equal] by (auto simp: compare_array_def)

lemma compare_cursor_spec:
  assumes "cursor_good cs cu" "cursor_good ds cv"
  shows "\<exists>cu' cv'. compare_cursor cs cu ds cv =
     Some (lex_compare (cursor_rest cs cu) (cursor_rest ds cv), cu', cv')"
  using cmp_cursor.compare_loop [OF assms, of Equal] by (simp add: compare_cursor_def)

text \<open>The value of a container: a buffer whose chunks and size agree, or no buffer.\<close>

definition buffer_ok :: "buffer \<Rightarrow> bool" where
  "buffer_ok b \<longleftrightarrow> chunks_ok (bf_chunks b) \<and> bf_size b = length (contents (bf_chunks b)) \<and> bf_size b < 2 ^ 32"

definition bytes_ok :: "buffer option \<Rightarrow> bool" where
  "bytes_ok bo \<longleftrightarrow> (case bo of None \<Rightarrow> True | Some b \<Rightarrow> buffer_ok b)"

definition value_of :: "buffer option \<Rightarrow> byte list" where
  "value_of bo = contents (buf_chunks bo)"

lemma cursor_at_good:
  assumes "bytes_ok bo"
  shows "cursor_good (buf_chunks bo) (cursor_at bo atb)"
    and "cursor_rest (buf_chunks bo) (cursor_at bo atb) = (if atb then value_of bo else [])"
proof -
  have "cursor_good (buf_chunks bo) (cursor_at bo atb) \<and>
      cursor_rest (buf_chunks bo) (cursor_at bo atb) = (if atb then value_of bo else [])"
  proof (cases bo)
    case None
    then show ?thesis
      by (simp add: cursor_good_def buf_chunks_def value_of_def cursor_rest_def cursor_at_def
          cursor_ok_def cursor_normal_def)
  next
    case (Some b)
    with assms have "chunks_ok (bf_chunks b)" "bf_size b = length (contents (bf_chunks b))"
      by (simp_all add: bytes_ok_def buffer_ok_def)
    from cursor_at_ok [OF this, of atb] Some this(1) show ?thesis
      by (simp add: cursor_good_def buf_chunks_def value_of_def cursor_rest_def)
  qed
  then show "cursor_good (buf_chunks bo) (cursor_at bo atb)"
    and "cursor_rest (buf_chunks bo) (cursor_at bo atb) = (if atb then value_of bo else [])"
    by blast+
qed

lemma bytes_compare_lex:
  assumes "bytes_ok bo" "bytes_ok bo'"
  shows "bytes_compare False bo bo' = Some (lex_compare (value_of bo) (value_of bo'))"
proof -
  obtain cu' cv' where "compare_cursor (buf_chunks bo) (cursor_at bo True) (buf_chunks bo') (cursor_at bo' True) =
      Some (lex_compare (value_of bo) (value_of bo'), cu', cv')"
    using compare_cursor_spec [OF cursor_at_good(1) [OF assms(1), of True] cursor_at_good(1) [OF assms(2), of True]]
    by (auto simp: cursor_at_good(2) assms)
  then show ?thesis
    by (simp add: bytes_compare_def)
qed

lemma lex_compare_order: "lex_compare xs ys = (if xs < ys then Less else if xs = ys then Equal else Greater)"
  by (induction xs ys rule: lex_compare.induct) auto

lemma bytes_size_value: "bytes_ok bo \<Longrightarrow> bytes_size bo = length (value_of bo)"
  by (auto simp: bytes_ok_def buffer_ok_def bytes_size_def value_of_def buf_chunks_def split: option.splits)

lemma cursor_size_rest: "bytes_ok bo \<Longrightarrow> cursor_size bo cu = length (cursor_rest (buf_chunks bo) cu)"
  by (auto simp: cursor_size_def cursor_rest_def bytes_ok_def buffer_ok_def buf_chunks_def split: option.splits)

lemma toHex_loop:
  assumes "cursor_good cs cu"
  shows "\<exists>cu'. execute1 (cursor_possible cs) (cursor_fix cs) (hex_step cs) cu res =
     Some (res @ b2h little (cursor_rest cs cu), cu')"
  using assms
proof (induction "length (cursor_rest cs cu)" arbitrary: cu res rule: less_induct)
  case less
  let ?n = "continuousDataSize cs cu"
  note d = cursor_good_data [OF less.prems]
  show ?case
  proof (cases "?n = 0")
    case True
    then show ?thesis
      using d(2) by (subst execute1.simps) (simp add: cursor_possible_def hex_step_def cursor_fix_def
        b2h_def b2h_little_def)
  next
    case False
    obtain d where dd: "continuousData cs cu = Some d" "take ?n d = take ?n (cursor_rest cs cu)"
      using d(4) [of ?n] False by auto
    let ?cu' = "snd (advance cs (int ?n) cu)"
    note adv = cursor_good_advance [OF less.prems d(1)]
    have "length (cursor_rest cs ?cu') < length (cursor_rest cs cu)"
      using adv(2) d(1) False by simp
    from less.hyps [OF this adv(1), of "res @ b2h little (take ?n d)"] obtain cu' where
      "execute1 (cursor_possible cs) (cursor_fix cs) (hex_step cs) ?cu' (res @ b2h little (take ?n d)) =
         Some (res @ b2h little (take ?n (cursor_rest cs cu)) @ b2h little (drop ?n (cursor_rest cs cu)), cu')"
      using adv(2) dd(2) by auto
    moreover have "b2h little xs @ b2h little ys = b2h little (xs @ ys)" for xs ys
      by (simp add: b2h_def b2h_little_def)
    ultimately show ?thesis
      using False dd(1)
      by (subst execute1.simps) (simp add: cursor_possible_def hex_step_def cursor_fix_def)
  qed
qed

subsection \<open>Properties\<close>

lemma read_at_chunk_end:
  assumes "cursor_ok cs cu" "\<not> cursor_normal cs cu" "length dst = maxSize"
  shows "cursor_read cs cu dst maxSize = Some (0, cu, dst)"
proof -
  have "continuousDataSize cs cu = 0"
    using assms(1,2) by (auto simp: cursor_normal_def continuousDataSize_def split: option.splits)
  moreover have "snd (advance cs 0 cu) = cu"
    by (simp add: advance_def split: option.splits)
  ultimately show ?thesis
    by (simp add: cursor_read_def part_possible_def sink_possible_def part_fix_def sink_fix_def read_step_def
        execute2.simps [of "part_possible cs"])
qed

text \<open>C3. Reading at most \<open>maxSize\<close> bytes at a cursor terminates. At a cursor that does not stand at the end
  of a chunk with others behind it, it returns the number of bytes there are up to that bound, fills
  exactly so many bytes of the destination with the bytes after the cursor, in order and across chunk
  boundaries, and moves the cursor by that number. At a cursor that stands at the end of a chunk that is
  not the last, which \<open>commitWriteBuffer\<close> of the whole rest of a chunk leaves behind, it reads nothing
  and returns 0, though bytes follow.\<close>

theorem cursor_read_correct:
  assumes "chunks_ok cs" "cursor_ok cs cu" "length dst = maxSize"
  shows "\<exists>n cu'. cursor_read cs cu dst maxSize =
             Some (n, cu', take n (drop (cu_pos cu) (contents cs)) @ drop n dst) \<and>
           n = (if cursor_normal cs cu then min maxSize (length (contents cs) - cu_pos cu) else 0) \<and>
           cursor_ok cs cu' \<and> cu_pos cu' = cu_pos cu + n"
proof (cases "cursor_normal cs cu")
  case True
  then have "cursor_good cs cu" using assms(1,2) by (simp add: cursor_good_def)
  from read_spec [OF this assms(3)] obtain n cu' where
    r: "cursor_read cs cu dst maxSize = Some (n, cu', take maxSize (cursor_rest cs cu) @ drop n dst)"
    "n = min maxSize (length (contents cs) - cu_pos cu)" "cursor_good cs cu'" "cu_pos cu' = cu_pos cu + n"
    by blast
  have "take maxSize (cursor_rest cs cu) = take n (cursor_rest cs cu)"
    by (simp add: r(2) cursor_rest_def min_def)
  then show ?thesis
    using r True by (auto simp: cursor_rest_def cursor_good_def)
next
  case False
  then show ?thesis
    using read_at_chunk_end [OF assms(2) False assms(3)] assms(2) by simp
qed

theorem cursor_read_correct_witness:
  "\<exists>cu'. cursor_read [chunk_of [1, 2, 3], chunk_of [4, 5]] \<lparr>cu_chunk = Some 0, cu_chunkPos = 1, cu_pos = 1\<rparr> [0, 0, 0] 3 =
     Some (3, cu', [2, 3, 4]) \<and> cu_pos cu' = 4"
proof -
  let ?cs = "[chunk_of [1, 2, 3], chunk_of [4, 5]]"
  have "chunks_ok ?cs" "cursor_ok ?cs \<lparr>cu_chunk = Some 0, cu_chunkPos = 1, cu_pos = 1\<rparr>"
    by (simp_all add: cursor_ok_def)
  from cursor_read_correct [OF this, of "[0, 0, 0]" 3] show ?thesis
    by (auto simp: cursor_normal_def)
qed

text \<open>C4. Comparing two containers gives the lexicographic order of their bytes, whatever the chunks,
  and the six operators are the operators of that order.\<close>

theorem bytes_compare_order:
  assumes "bytes_ok bo" "bytes_ok bo'"
  shows "bytes_compare False bo bo' =
           Some (if value_of bo < value_of bo' then Less
                 else if value_of bo = value_of bo' then Equal else Greater) \<and>
         bytes_eq False bo bo' = Some (value_of bo = value_of bo') \<and>
         bytes_ne False bo bo' = Some (value_of bo \<noteq> value_of bo') \<and>
         bytes_lt False bo bo' = Some (value_of bo < value_of bo') \<and>
         bytes_gt False bo bo' = Some (value_of bo > value_of bo') \<and>
         bytes_le False bo bo' = Some (value_of bo \<le> value_of bo') \<and>
         bytes_ge False bo bo' = Some (value_of bo \<ge> value_of bo')"
  using bytes_compare_lex [OF assms]
  by (auto simp: lex_compare_order bytes_eq_def bytes_ne_def bytes_lt_def bytes_gt_def bytes_le_def
      bytes_ge_def less_strong_ordering_def less_eq_strong_ordering_def)

text \<open>Two containers with the bytes 1, 2, 3, cut in different ways, and one with more bytes.\<close>

theorem bytes_compare_order_witness:
  defines "a \<equiv> Some \<lparr>bf_chunks = [chunk_of [1, 2], chunk_of [3]], bf_size = 3, bf_share = 1\<rparr>"
    and "b \<equiv> Some \<lparr>bf_chunks = [chunk_of [1], chunk_of [2, 3]], bf_size = 3, bf_share = 1\<rparr>"
    and "c \<equiv> Some \<lparr>bf_chunks = [chunk_of [1, 2, 3, 0]], bf_size = 4, bf_share = 1\<rparr>"
  shows "bytes_compare False a b = Some Equal \<and> bytes_lt False a c = Some True"
proof -
  have v: "value_of a = [1, 2, 3]" "value_of b = [1, 2, 3]" "value_of c = [1, 2, 3, 0]"
    by (simp_all add: a_def b_def c_def value_of_def buf_chunks_def)
  have ok: "bytes_ok a" "bytes_ok b" "bytes_ok c"
    by (simp_all add: a_def b_def c_def bytes_ok_def buffer_ok_def)
  show ?thesis
    using bytes_compare_order [OF ok(1,2)] bytes_compare_order [OF ok(1,3)] by (simp add: v)
qed

lemma bytes_toString_value:
  assumes "bytes_ok bo"
  shows "bytes_toString bo = Some (value_of bo)"
proof -
  note g = cursor_at_good [OF assms, of True]
  have len: "length (value_of bo) \<le> 2 ^ 32 - 1"
    using assms by (auto simp: bytes_ok_def buffer_ok_def value_of_def buf_chunks_def split: option.splits)
  have sz: "min (cursor_size bo (cursor_at bo True)) (2 ^ 32 - 1) = length (value_of bo)"
    using len by (simp add: cursor_size_rest [OF assms] g(2))
  let ?n = "length (value_of bo)"
  have pos: "cu_pos (cursor_at bo True) = 0"
    by (simp add: cursor_at_def Let_def split: option.splits)
  have "length (replicate ?n (0 :: byte)) = ?n"
    by simp
  then obtain n cu' where r: "cursor_read (buf_chunks bo) (cursor_at bo True) (replicate ?n 0) ?n =
        Some (n, cu', take ?n (value_of bo) @ drop n (replicate ?n 0))"
    and n: "n = min ?n (length (contents (buf_chunks bo)) - cu_pos (cursor_at bo True))"
    by (elim read_spec [OF g(1)]) (simp add: g(2))
  have "n = ?n"
    using n pos by (simp add: value_of_def)
  with r sz show ?thesis
    by (simp add: bytes_toString_def cursor_toString_def Let_def)
qed

lemma toHex_rest:
  assumes "cursor_good (buf_chunks bo) cu"
  shows "map_option fst (toHex bo cu maxSize) = Some (b2h little (cursor_rest (buf_chunks bo) cu))"
  using toHex_loop [OF assms, of "[]"] by (auto simp: toHex_def)

text \<open>\<open>toString\<close> yields the bytes of the container and \<open>toHex\<close> their hexadecimal text.\<close>

theorem bytes_to_text:
  assumes "bytes_ok bo"
  shows "bytes_toString bo = Some (value_of bo) \<and> bytes_toHex bo = Some (b2h little (value_of bo))"
  using bytes_toString_value [OF assms] toHex_rest [OF cursor_at_good(1) [OF assms, of True]]
  by (simp add: bytes_toHex_def cursor_at_good(2) [OF assms])

theorem bytes_to_text_witness:
  "bytes_toString (Some \<lparr>bf_chunks = [chunk_of [1], chunk_of [0xab]], bf_size = 2, bf_share = 1\<rparr>) = Some [1, 0xab] \<and>
   bytes_toHex (Some \<lparr>bf_chunks = [chunk_of [1], chunk_of [0xab]], bf_size = 2, bf_share = 1\<rparr>) = Some ''10ba''"
proof -
  let ?b = "Some \<lparr>bf_chunks = [chunk_of [1], chunk_of [0xab]], bf_size = 2, bf_share = 1\<rparr>"
  have "bytes_ok ?b" "value_of ?b = [1, 0xab]"
    by (simp_all add: bytes_ok_def buffer_ok_def value_of_def buf_chunks_def)
  moreover have "b2h little [1, 0xab] = ''10ba''"
    by code_simp
  ultimately show ?thesis
    using bytes_to_text [of ?b] by simp
qed

text \<open>The \<open>maxSize\<close> argument of \<open>Cursor::toHex\<close> does not bound the text: the digits of all
  the bytes after the cursor are written.\<close>

theorem toHex_unbounded:
  assumes "cursor_good (buf_chunks bo) cu"
  shows "map_option (\<lambda>(h, cu'). length h) (toHex bo cu maxSize) =
           Some (2 * (length (value_of bo) - cu_pos cu))"
  using toHex_loop [OF assms, of "[]"]
  by (auto simp: toHex_def cursor_rest_def value_of_def b2h_def even_length_b2h_little)

theorem toHex_unbounded_witness:
  "map_option (\<lambda>(h, cu'). length h)
     (toHex (Some \<lparr>bf_chunks = [chunk_of [1, 2, 3]], bf_size = 3, bf_share = 1\<rparr>)
        \<lparr>cu_chunk = Some 0, cu_chunkPos = 1, cu_pos = 1\<rparr> 1) = Some 4"
proof -
  let ?b = "Some \<lparr>bf_chunks = [chunk_of [1, 2, 3]], bf_size = 3, bf_share = 1\<rparr>"
  have "cursor_good (buf_chunks ?b) \<lparr>cu_chunk = Some 0, cu_chunkPos = 1, cu_pos = 1\<rparr>"
    by (simp add: cursor_good_def cursor_ok_def cursor_normal_def buf_chunks_def)
  moreover have "2 * (length (value_of ?b) - 1) = 4"
    by (simp add: buf_chunks_def value_of_def)
  ultimately show ?thesis
    using toHex_unbounded [of ?b "\<lparr>cu_chunk = Some 0, cu_chunkPos = 1, cu_pos = 1\<rparr>" 1]
    by (simp only: cursor.select_convs)
qed

end
