(* ===== verification/Alters.thy ===== *)
theory Alters
  imports Readings
begin

section \<open>Alters: the write buffer, writing and growing\<close>

text \<open>
  \<^verbatim>\<open>impl::Alter\<close> is a cursor that writes. The state is what an alter sees: whether it has a
  container, the container's buffer, its cursor and the prepared chunk (only its array: its
  window is empty). \<open>mem n\<close> is the memory of the \<open>n\<close>-th chunk allocated, as the allocator
  leaves it; \<open>al_new\<close> counts the allocations. \<open>None\<close> as a result is a step through a null
  pointer or a loop that does not end.

  Copy on write is here as the alter sees it: a shared buffer is replaced by a fresh copy and
  the cursor is moved to the same position in it. What happens to the other containers is
  in \<open>ByteStore\<close>.
\<close>

record alter =
  al_container :: bool
  al_buffer :: "buffer option"
  al_cursor :: cursor
  al_prep :: "byte list option"
  al_new :: nat

definition al_chunks :: "alter \<Rightarrow> chunk list" where
  "al_chunks st = buf_chunks (al_buffer st)"

definition set_chunks :: "chunk list \<Rightarrow> alter \<Rightarrow> alter" where
  "set_chunks cs st = st\<lparr>al_buffer := map_option (\<lambda>b. b\<lparr>bf_chunks := cs\<rparr>) (al_buffer st)\<rparr>"

definition add_size :: "nat \<Rightarrow> alter \<Rightarrow> alter" where
  "add_size n st = st\<lparr>al_buffer := map_option (addSize n) (al_buffer st)\<rparr>"

text \<open>A new buffer has one owner.\<close>

definition new_buffer :: "chunk list \<Rightarrow> nat \<Rightarrow> buffer" where
  "new_buffer cs n = \<lparr>bf_chunks = cs, bf_size = n, bf_share = 1\<rparr>"

subsection \<open>The write buffer\<close>

datatype write_pointer = Null | Prepared | InChunk nat nat

text \<open>The walk over exhausted chunks: the chunk and the offset where writing goes on.\<close>

function write_seek :: "chunk list \<Rightarrow> nat \<Rightarrow> nat \<Rightarrow> nat \<times> nat" where
  "write_seek cs i cp =
     (if Suc i \<ge> length cs then (i, cp)
      else if chunk_size (cs ! i) > cp then (i, cp)
      else write_seek cs (Suc i) 0)"
  by pat_completeness auto
termination
  by (relation "measure (\<lambda>(cs, i, cp). length cs - i)") auto

declare write_seek.simps [simp del]

text \<open>\<open>size\<close> is what the caller has in the output parameter; a chunk already prepared leaves it there.\<close>

definition prepareWriteBuffer ::
  "(nat \<Rightarrow> byte list) \<Rightarrow> nat \<Rightarrow> alter \<Rightarrow> write_pointer \<times> nat \<times> alter" where
  "prepareWriteBuffer mem size0 st =
     (if al_prep st \<noteq> None then (Prepared, size0, st)
      else if \<not> al_container st then (Null, 0, st)
      else case cu_chunk (al_cursor st) of
        None \<Rightarrow> (Prepared, bufferSize, st\<lparr>al_prep := Some (mem (al_new st)), al_new := Suc (al_new st)\<rparr>)
      | Some i \<Rightarrow>
          (let cs = al_chunks st;
               (j, cp) = write_seek cs i (cu_chunkPos (al_cursor st));
               st1 = st\<lparr>al_cursor := (al_cursor st)\<lparr>cu_chunk := Some j, cu_chunkPos := cp\<rparr>\<rparr>
           in if Suc j \<ge> length cs then
                (let absChunkPos = ch_begin (cs ! j) + cp in
                 if absChunkPos < bufferSize then (InChunk j cp, bufferSize - absChunkPos, st1)
                 else (Prepared, bufferSize,
                       st1\<lparr>al_prep := Some (mem (al_new st)), al_new := Suc (al_new st)\<rparr>))
              else (InChunk j cp, chunk_size (cs ! j) - cp, st1)))"

definition commitWriteBuffer :: "nat \<Rightarrow> alter \<Rightarrow> alter option" where
  "commitWriteBuffer n st =
     (if n = 0 then Some (st\<lparr>al_prep := None\<rparr>)
      else case al_prep st of
        Some a \<Rightarrow>
          (let c = setEnd n (new_chunk a 0 0);
               st1 = st\<lparr>al_prep := None\<rparr>;
               cu = al_cursor st in
           case cu_chunk cu of
             Some i \<Rightarrow>
               Some (add_size n (set_chunks (take (Suc i) (al_chunks st) @ [c])
                 (st1\<lparr>al_cursor := \<lparr>cu_chunk = Some (Suc i), cu_chunkPos = n,
                                    cu_pos = add32 (cu_pos cu) n\<rparr>\<rparr>)))
           | None \<Rightarrow>
               (let st2 = st1\<lparr>al_cursor := \<lparr>cu_chunk = Some 0, cu_chunkPos = n,
                                           cu_pos = add32 (cu_pos cu) n\<rparr>\<rparr> in
                Some (if al_buffer st \<noteq> None then add_size n (set_chunks [c] st2)
                      else st2\<lparr>al_buffer := Some (new_buffer [c] n)\<rparr>)))
      | None \<Rightarrow>
          (let cu = al_cursor st in
           case cu_chunk cu of
             None \<Rightarrow> None
           | Some i \<Rightarrow>
               (let cs = al_chunks st; c = cs ! i;
                    tailSizeAlready = chunk_size c - cu_chunkPos cu;
                    cu' = cu\<lparr>cu_chunkPos := cu_chunkPos cu + n, cu_pos := add32 (cu_pos cu) n\<rparr> in
                if tailSizeAlready \<ge> n then Some (st\<lparr>al_cursor := cu'\<rparr>)
                else Some (set_chunks (cs[i := setEnd (ch_begin c + cu_chunkPos cu') c])
                       (add_size (n - tailSizeAlready) (st\<lparr>al_cursor := cu'\<rparr>))))))"

text \<open>\<^verbatim>\<open>continuousData4Write\<close> without the copy: where a caller may write, and how much.\<close>

definition store_at :: "write_pointer \<Rightarrow> byte list \<Rightarrow> alter \<Rightarrow> alter" where
  "store_at ptr xs st =
     (case ptr of
        Null \<Rightarrow> st
      | Prepared \<Rightarrow> st\<lparr>al_prep := map_option (put_at 0 xs) (al_prep st)\<rparr>
      | InChunk i cp \<Rightarrow> set_chunks ((al_chunks st)[i := chunk_store cp xs (al_chunks st ! i)]) st)"

subsection \<open>The alter promotor\<close>

record alter_promotor =
  ap_alter :: alter
  ap_writeBuffer :: write_pointer
  ap_writeBufferSize :: nat

definition alter_promotor_of :: "alter \<Rightarrow> alter_promotor" where
  "alter_promotor_of st = \<lparr>ap_alter = st, ap_writeBuffer = Null, ap_writeBufferSize = 0\<rparr>"

definition alter_possible :: "(nat \<Rightarrow> byte list) \<Rightarrow> alter_promotor \<Rightarrow> nat \<times> alter_promotor" where
  "alter_possible mem ap =
     (case prepareWriteBuffer mem (ap_writeBufferSize ap) (ap_alter ap) of
        (ptr, n, st) \<Rightarrow> (n, \<lparr>ap_alter = st, ap_writeBuffer = ptr, ap_writeBufferSize = n\<rparr>))"

definition alter_store :: "byte list \<Rightarrow> alter_promotor \<Rightarrow> alter_promotor" where
  "alter_store xs ap = ap\<lparr>ap_alter := store_at (ap_writeBuffer ap) xs (ap_alter ap)\<rparr>"

definition alter_fix :: "nat \<Rightarrow> alter_promotor \<Rightarrow> alter_promotor option" where
  "alter_fix n ap = map_option alter_promotor_of (commitWriteBuffer n (ap_alter ap))"

subsection \<open>The invariant\<close>

definition mem_ok :: "(nat \<Rightarrow> byte list) \<Rightarrow> bool" where
  "mem_ok mem \<longleftrightarrow> (\<forall>n. length (mem n) = bufferSize)"

definition alter_value :: "alter \<Rightarrow> byte list" where
  "alter_value st = value_of (al_buffer st)"

definition alter_pos :: "alter \<Rightarrow> nat" where
  "alter_pos st = cu_pos (al_cursor st)"

definition alter_ok :: "alter \<Rightarrow> bool" where
  "alter_ok st \<longleftrightarrow> al_container st \<and> bytes_ok (al_buffer st) \<and> cursor_ok (al_chunks st) (al_cursor st)"

text \<open>The number of owners of the buffer; a buffer still to be made has one.\<close>

definition alter_share :: "alter \<Rightarrow> nat" where
  "alter_share st = (case al_buffer st of None \<Rightarrow> 1 | Some b \<Rightarrow> bf_share b)"

text \<open>Before and after the position; \<open>m\<close> more bytes leave the size below \<open>2 ^ 32\<close>.\<close>

definition promotor_out :: "alter_promotor \<Rightarrow> byte list \<times> byte list" where
  "promotor_out ap = (take (alter_pos (ap_alter ap)) (alter_value (ap_alter ap)),
                      drop (alter_pos (ap_alter ap)) (alter_value (ap_alter ap)))"

definition promotor_ok :: "(nat \<Rightarrow> byte list) \<Rightarrow> nat \<Rightarrow> nat \<Rightarrow> alter_promotor \<Rightarrow> bool" where
  "promotor_ok mem s m ap \<longleftrightarrow> mem_ok mem \<and> alter_share (ap_alter ap) = s \<and> ap = alter_promotor_of (ap_alter ap) \<and> alter_ok (ap_alter ap) \<and>
     al_prep (ap_alter ap) = None \<and> length (alter_value (ap_alter ap)) + m < 2 ^ 32"

lemma write_seek_spec:
  assumes "chunks_ok cs" "i < length cs" "cp \<le> chunk_size (cs ! i)" "write_seek cs i cp = (j, cp')"
  shows "j < length cs \<and> cp' \<le> chunk_size (cs ! j) \<and> start_of cs j + cp' = start_of cs i + cp \<and>
     (cp' < chunk_size (cs ! j) \<or> Suc j = length cs)"
  using assms
proof (induction cs i cp rule: write_seek.induct)
  case (1 cs i cp)
  then show ?case
    by (subst (asm) (2) write_seek.simps) (auto simp: start_of_Suc split: if_splits)
qed

lemma alter_simps [simp]:
  "al_chunks (add_size n st) = al_chunks st"
  "al_cursor (set_chunks cs st) = al_cursor st" "al_cursor (add_size n st) = al_cursor st"
  "al_prep (set_chunks cs st) = al_prep st" "al_prep (add_size n st) = al_prep st"
  "al_container (set_chunks cs st) = al_container st" "al_container (add_size n st) = al_container st"
  "al_chunks (st\<lparr>al_cursor := cu\<rparr>) = al_chunks st" "al_chunks (st\<lparr>al_prep := p\<rparr>) = al_chunks st"
  "al_chunks (st\<lparr>al_new := k\<rparr>) = al_chunks st"
  by (auto simp: al_chunks_def set_chunks_def add_size_def buf_chunks_def addSize_def split: option.splits)

lemma al_chunks_set [simp]: "al_chunks st \<noteq> [] \<or> al_buffer st \<noteq> None \<Longrightarrow> al_chunks (set_chunks cs st) = cs"
  by (auto simp: al_chunks_def set_chunks_def buf_chunks_def split: option.splits)

lemma alter_value_chunks: "alter_value st = contents (al_chunks st)"
  by (simp add: alter_value_def value_of_def al_chunks_def)

text \<open>The invariant of an alter whose chunks and size were changed together.\<close>

lemma bytes_ok_update:
  assumes "bytes_ok (al_buffer st)" "al_buffer st \<noteq> None" "chunks_ok cs"
    and "length (contents cs) = length (alter_value st) + n" "length (contents cs) < 2 ^ 32"
  shows "bytes_ok (al_buffer (set_chunks cs (add_size n st)))"
    and "bytes_ok (al_buffer (add_size n (set_chunks cs st)))"
  using assms
  by (auto simp: bytes_ok_def buffer_ok_def set_chunks_def add_size_def addSize_def alter_value_def value_of_def
      buf_chunks_def add32_eq split: option.splits)

lemma alter_chunks_ok: "alter_ok st \<Longrightarrow> chunks_ok (al_chunks st)"
  by (auto simp: alter_ok_def bytes_ok_def buffer_ok_def al_chunks_def buf_chunks_def split: option.splits)

lemma alter_pos_le: "alter_ok st \<Longrightarrow> alter_pos st \<le> length (alter_value st)"
  using cursor_ok_pos_le [of "al_chunks st" "al_cursor st"] alter_chunks_ok [of st]
  by (simp add: alter_pos_def alter_value_chunks alter_ok_def)

lemma alter_value_bound: "alter_ok st \<Longrightarrow> length (alter_value st) < 2 ^ 32"
  by (auto simp: alter_ok_def bytes_ok_def buffer_ok_def alter_value_def value_of_def buf_chunks_def
      split: option.splits)

lemma al_buffer_of_chunk: "al_chunks st \<noteq> [] \<Longrightarrow> al_buffer st \<noteq> None"
  by (cases "al_buffer st") (simp_all add: al_chunks_def buf_chunks_def)

lemma alter_share_simps [simp]:
  "alter_share (st\<lparr>al_prep := p\<rparr>) = alter_share st" "alter_share (st\<lparr>al_new := k\<rparr>) = alter_share st"
  "alter_share (st\<lparr>al_cursor := cu\<rparr>) = alter_share st"
  "alter_share (set_chunks cs st) = alter_share st" "alter_share (add_size n st) = alter_share st"
  by (auto simp: alter_share_def set_chunks_def add_size_def addSize_def split: option.splits)

lemma alter_prep_simps [simp]:
  "alter_ok (st\<lparr>al_prep := p\<rparr>) = alter_ok st" "alter_ok (st\<lparr>al_new := k\<rparr>) = alter_ok st"
  "alter_value (st\<lparr>al_prep := p\<rparr>) = alter_value st" "alter_value (st\<lparr>al_new := k\<rparr>) = alter_value st"
  "alter_pos (st\<lparr>al_prep := p\<rparr>) = alter_pos st" "alter_pos (st\<lparr>al_new := k\<rparr>) = alter_pos st"
  by (simp_all add: alter_ok_def alter_value_def alter_pos_def)

text \<open>What \<open>prepareWriteBuffer\<close> offers: room for one more chunk at the end, or room in the chunk at the cursor.\<close>

lemma prepare_cases:
  assumes ok: "alter_ok st" and none: "al_prep st = None"
  obtains (fresh) st' where
      "prepareWriteBuffer mem size0 st = (Prepared, bufferSize, st'\<lparr>al_prep := Some (mem (al_new st)), al_new := Suc (al_new st)\<rparr>)"
      "alter_ok st'" "al_prep st' = None" "al_buffer st' = al_buffer st" "alter_pos st' = alter_pos st"
      "alter_pos st' = length (alter_value st')" "\<And>i. cu_chunk (al_cursor st') = Some i \<Longrightarrow> Suc i = length (al_chunks st')"
    | (inside) st' j cp n where
      "prepareWriteBuffer mem size0 st = (InChunk j cp, n, st')"
      "alter_ok st'" "al_prep st' = None" "al_buffer st' = al_buffer st" "alter_pos st' = alter_pos st"
      "cu_chunk (al_cursor st') = Some j" "cu_chunkPos (al_cursor st') = cp" "0 < n"
      "n = (if Suc j = length (al_chunks st) then bufferSize - (ch_begin (al_chunks st ! j) + cp)
            else chunk_size (al_chunks st ! j) - cp)"
proof (cases "cu_chunk (al_cursor st)")
  case None
  then have "al_chunks st = []" "alter_pos st = 0"
    using ok by (simp_all add: alter_ok_def cursor_ok_def alter_pos_def)
  then show ?thesis
    using None ok none fresh [of st] by (simp add: prepareWriteBuffer_def alter_ok_def alter_value_chunks)
next
  case (Some i)
  let ?cs = "al_chunks st"
  have cs: "chunks_ok ?cs"
    using ok by (rule alter_chunks_ok)
  have i: "i < length ?cs" "cu_chunkPos (al_cursor st) \<le> chunk_size (?cs ! i)"
    "alter_pos st = start_of ?cs i + cu_chunkPos (al_cursor st)"
    using ok Some by (simp_all add: alter_ok_def cursor_ok_def alter_pos_def)
  obtain j cp where seek: "write_seek ?cs i (cu_chunkPos (al_cursor st)) = (j, cp)"
    by (cases "write_seek ?cs i (cu_chunkPos (al_cursor st))") auto
  note j = write_seek_spec [OF cs i(1,2) seek]
  let ?st = "st\<lparr>al_cursor := (al_cursor st)\<lparr>cu_chunk := Some j, cu_chunkPos := cp\<rparr>\<rparr>"
  have st: "alter_ok ?st" "al_prep ?st = None" "al_buffer ?st = al_buffer st" "alter_pos ?st = alter_pos st"
    using ok none j i(3) by (auto simp: alter_ok_def cursor_ok_def alter_pos_def)
  have prep: "prepareWriteBuffer mem size0 st =
     (if Suc j \<ge> length ?cs then
        (if ch_begin (?cs ! j) + cp < bufferSize then (InChunk j cp, bufferSize - (ch_begin (?cs ! j) + cp), ?st)
         else (Prepared, bufferSize, ?st\<lparr>al_prep := Some (mem (al_new st)), al_new := Suc (al_new st)\<rparr>))
      else (InChunk j cp, chunk_size (?cs ! j) - cp, ?st))"
    using ok none Some seek by (simp add: prepareWriteBuffer_def alter_ok_def Let_def)
  have room: "ch_begin (?cs ! j) + chunk_size (?cs ! j) \<le> bufferSize"
    using j by (intro chunk_size_le chunks_ok_nth cs) simp
  consider (full) "Suc j = length ?cs" "bufferSize \<le> ch_begin (?cs ! j) + cp"
    | (last) "Suc j = length ?cs" "ch_begin (?cs ! j) + cp < bufferSize" | (mid) "Suc j < length ?cs"
    using j by linarith
  then show ?thesis
  proof cases
    case full
    then have "cp = chunk_size (?cs ! j)"
      using j room by simp
    then have "alter_pos ?st = length (alter_value ?st)"
      using start_of_last [OF cs full(1)] j i(3) by (simp add: alter_pos_def alter_value_chunks)
    then show ?thesis
      using fresh [of ?st] st prep full by simp
  next
    case last
    then show ?thesis
      using inside [of j cp "bufferSize - (ch_begin (?cs ! j) + cp)" ?st] st prep by simp
  next
    case mid
    then show ?thesis
      using inside [of j cp "chunk_size (?cs ! j) - cp" ?st] st prep j by simp
  qed
qed

text \<open>Writing through the offered pointer and committing overwrites at the position.\<close>

lemma put_at_end: "i = length ys \<Longrightarrow> put_at i xs ys = ys @ xs"
  by (simp add: put_at_def)

lemma commit_prepared:
  assumes ok: "alter_ok st" and mem: "length g = bufferSize"
    and at_end: "alter_pos st = length (alter_value st)"
    and last: "\<And>i. cu_chunk (al_cursor st) = Some i \<Longrightarrow> Suc i = length (al_chunks st)"
    and xs: "xs \<noteq> []" "length xs \<le> bufferSize" "length (alter_value st) + length xs < 2 ^ 32"
  obtains st' where
    "commitWriteBuffer (length xs) (store_at Prepared xs (st\<lparr>al_prep := Some g, al_new := k\<rparr>)) = Some st'"
    "alter_ok st'" "al_prep st' = None" "alter_value st' = alter_value st @ xs"
    "alter_pos st' = alter_pos st + length xs" "alter_share st' = alter_share st"
proof -
  let ?c = "setEnd (length xs) (new_chunk (put_at 0 xs g) 0 0)"
  have c: "?c = new_chunk (put_at 0 xs g) 0 (length xs)"
    by (simp add: setEnd_def new_chunk_def)
  have cok: "chunk_ok ?c" "chunk_size ?c = length xs" "chunk_content ?c = xs"
    using chunk_content_new(1) [OF mem xs(2), of xs] chunk_content_new(2) [OF mem xs(2), of "put_at 0 xs g"]
      xs mem unfolding c
    by (simp_all add: chunk_ok_def) (simp add: new_chunk_def)
  have cs: "chunks_ok (al_chunks st)" "bytes_ok (al_buffer st)" "al_container st"
    using ok alter_chunks_ok by (simp_all add: alter_ok_def)
  have pos: "add32 (alter_pos st) (length xs) = alter_pos st + length xs"
    using at_end xs(3) by (simp add: add32_eq)
  let ?s = "store_at Prepared xs (st\<lparr>al_prep := Some g, al_new := k\<rparr>)"
  show ?thesis
  proof (cases "cu_chunk (al_cursor st)")
    case (Some i)
    have i: "Suc i = length (al_chunks st)" "al_chunks st \<noteq> []"
      using last [OF Some] by auto
    let ?cu = "\<lparr>cu_chunk = Some (Suc i), cu_chunkPos = length xs, cu_pos = alter_pos st + length xs\<rparr>"
    let ?t = "st\<lparr>al_new := k, al_prep := None, al_cursor := ?cu\<rparr>"
    let ?st' = "add_size (length xs) (set_chunks (al_chunks st @ [?c]) ?t)"
    have "commitWriteBuffer (length xs) ?s = Some ?st'"
      using Some xs(1) i pos
      by (simp add: commitWriteBuffer_def store_at_def alter_pos_def Let_def)
    moreover have "bytes_ok (al_buffer ?st')"
      using cs cok xs al_buffer_of_chunk [OF i(2)]
      by (intro bytes_ok_update(2)) (simp_all add: alter_value_chunks)
    moreover have "cursor_ok (al_chunks st @ [?c]) ?cu"
      using i(1) cok start_of_length [OF cs(1)] at_end
      by (simp add: cursor_ok_def nth_append start_of_def alter_value_chunks)
    ultimately show ?thesis
      using that [of ?st'] cs i cok
      by (simp add: alter_ok_def alter_value_chunks alter_pos_def)
  next
    case None
    then have nil: "al_chunks st = []" "alter_pos st = 0"
      using ok by (simp_all add: alter_ok_def cursor_ok_def alter_pos_def)
    let ?cu = "\<lparr>cu_chunk = Some 0, cu_chunkPos = length xs, cu_pos = alter_pos st + length xs\<rparr>"
    let ?t = "st\<lparr>al_new := k, al_prep := None, al_cursor := ?cu\<rparr>"
    let ?st' = "if al_buffer st \<noteq> None then add_size (length xs) (set_chunks [?c] ?t)
                else ?t\<lparr>al_buffer := Some (new_buffer [?c] (length xs))\<rparr>"
    have "commitWriteBuffer (length xs) ?s = Some ?st'"
      using None xs(1) pos by (simp add: commitWriteBuffer_def store_at_def alter_pos_def Let_def)
    moreover have chunks: "al_chunks ?st' = [?c]" "al_cursor ?st' = ?cu"
      by (auto simp: al_chunks_def buf_chunks_def new_buffer_def set_chunks_def add_size_def addSize_def)
    moreover have "bytes_ok (al_buffer ?st')"
      using bytes_ok_update(2) [of ?t "[?c]" "length xs"] cs cok xs nil
      by (auto simp: bytes_ok_def buffer_ok_def new_buffer_def alter_value_chunks)
    moreover have "cursor_ok [?c] ?cu"
      using cok nil by (simp add: cursor_ok_def)
    moreover have "alter_share ?st' = alter_share st"
      by (cases "al_buffer st")
         (simp_all add: alter_share_def new_buffer_def set_chunks_def add_size_def addSize_def)
    ultimately show ?thesis
      using that [of ?st'] cs nil cok by (simp add: alter_ok_def alter_value_chunks alter_pos_def)
  qed
qed

lemma put_at_middle:
  "i + length xs \<le> length ys \<Longrightarrow> put_at (length as + i) xs (as @ ys @ bs) = as @ put_at i xs ys @ bs"
  by (simp add: put_at_def)

lemma put_at_tail:
  "i \<le> length ys \<Longrightarrow> length ys \<le> i + length xs \<Longrightarrow> put_at (length as + i) xs (as @ ys) = as @ take i ys @ xs"
  by (simp add: put_at_def)

lemma start_of_update_le: "i \<le> j \<Longrightarrow> start_of (cs[j := c]) i = start_of cs i"
  by (simp add: start_of_def)

lemma commit_inside:
  assumes ok: "alter_ok st" and none: "al_prep st = None"
    and at: "cu_chunk (al_cursor st) = Some j" "cu_chunkPos (al_cursor st) = cp"
    and xs: "xs \<noteq> []" "length (alter_value st) + length xs < 2 ^ 32"
      "length xs \<le> (if Suc j = length (al_chunks st) then bufferSize - (ch_begin (al_chunks st ! j) + cp)
            else chunk_size (al_chunks st ! j) - cp)"
  obtains st' where
    "commitWriteBuffer (length xs) (store_at (InChunk j cp) xs st) = Some st'"
    "alter_ok st'" "al_prep st' = None" "alter_value st' = put_at (alter_pos st) xs (alter_value st)"
    "alter_pos st' = alter_pos st + length xs" "alter_share st' = alter_share st"
proof -
  let ?cs = "al_chunks st"
  let ?c = "?cs ! j"
  let ?c1 = "chunk_store cp xs ?c"
  have cs: "chunks_ok ?cs" "bytes_ok (al_buffer st)" "al_container st"
    using ok alter_chunks_ok by (simp_all add: alter_ok_def)
  have j: "j < length ?cs" "cp \<le> chunk_size ?c" "alter_pos st = start_of ?cs j + cp"
    using ok at by (simp_all add: alter_ok_def cursor_ok_def alter_pos_def)
  have c: "chunk_ok ?c" "?cs \<noteq> []"
    using cs j by (auto intro: chunks_ok_nth)
  have room: "ch_begin ?c + chunk_size ?c \<le> bufferSize"
    using c(1) by (rule chunk_size_le)
  then have fit: "ch_begin ?c + cp + length xs \<le> bufferSize"
    using xs(3) j(2) by (cases xs) (auto split: if_splits)
  have pos: "add32 (cu_pos (al_cursor st)) (length xs) = alter_pos st + length xs"
    using alter_pos_le [OF ok] xs(2) by (simp add: add32_eq alter_pos_def)
  have v: "alter_value st = contents (take j ?cs) @ chunk_content ?c @ contents (drop (Suc j) ?cs)"
    "length (contents (take j ?cs)) = start_of ?cs j" "length (chunk_content ?c) = chunk_size ?c"
    using contents_split [OF j(1)] cs c by (simp_all add: alter_value_chunks length_contents_take length_chunk_content)
  let ?cu = "(al_cursor st)\<lparr>cu_chunkPos := cp + length xs, cu_pos := alter_pos st + length xs\<rparr>"
  let ?st1 = "set_chunks (?cs[j := ?c1]) st"
  have st1: "store_at (InChunk j cp) xs st = ?st1" "al_chunks ?st1 = ?cs[j := ?c1]"
    using c(2) by (simp_all add: store_at_def)
  show ?thesis
  proof (cases "length xs \<le> chunk_size ?c - cp")
    case True
    let ?st' = "?st1\<lparr>al_cursor := ?cu\<rparr>"
    have "commitWriteBuffer (length xs) ?st1 = Some ?st'"
      using True none at xs(1) j(1) pos st1(2) by (simp add: commitWriteBuffer_def Let_def)
    moreover have cont: "contents (?cs[j := ?c1]) = put_at (alter_pos st) xs (alter_value st)"
      using True j c v put_at_middle [of cp xs "chunk_content ?c" "contents (take j ?cs)"]
      by (simp add: contents_update chunk_content_store)
    moreover have "length (alter_value st) = length (contents (?cs[j := ?c1]))"
      using True j c v by (simp add: contents_update chunk_content_store)
    moreover have "chunks_ok (?cs[j := ?c1])"
      using cs c fit by (intro chunks_ok_update chunk_store_ok) auto
    moreover from this calculation have "bytes_ok (al_buffer ?st1)"
      using bytes_ok_update(1) [of st "?cs[j := ?c1]" 0] cs alter_value_bound [OF ok] al_buffer_of_chunk [OF c(2)]
      by (auto simp: set_chunks_def add_size_def bytes_ok_def buffer_ok_def addSize_def split: option.splits)
    moreover have "cursor_ok (?cs[j := ?c1]) ?cu"
      using True j at xs(1) by (simp add: cursor_ok_def start_of_update_le)
    ultimately show ?thesis
      using that [of ?st'] st1 none cs by (simp add: alter_ok_def alter_value_chunks alter_pos_def)
  next
    case False
    then have last: "Suc j = length ?cs"
      using xs(3) by (simp split: if_splits)
    let ?c2 = "setEnd (ch_begin ?c + (cp + length xs)) ?c1"
    let ?d = "length xs - (chunk_size ?c - cp)"
    let ?st' = "set_chunks (?cs[j := ?c2]) (add_size ?d (?st1\<lparr>al_cursor := ?cu\<rparr>))"
    have "commitWriteBuffer (length xs) ?st1 = Some ?st'"
      using False none at xs(1) j(1) pos st1(2) by (simp add: commitWriteBuffer_def Let_def)
    moreover have grow: "chunk_content ?c2 = take cp (chunk_content ?c) @ xs" "chunk_ok ?c2"
        "chunk_size ?c2 = cp + length xs"
      using chunk_content_store_grow [OF c(1) j(2), of xs] False fit xs(1) by (simp_all add: add.assoc)
    have nil: "drop (Suc j) ?cs = []"
      using last by simp
    have cont: "contents (?cs[j := ?c2]) = put_at (alter_pos st) xs (alter_value st)"
      using False j v nil put_at_tail [of cp "chunk_content ?c" xs "contents (take j ?cs)"] grow
      by (simp add: contents_update)
    moreover have len: "length (contents (?cs[j := ?c2])) = length (alter_value st) + ?d"
      using False j v nil grow by (simp add: contents_update)
    moreover have ok2: "chunks_ok (?cs[j := ?c2])"
      using cs grow by (intro chunks_ok_update) auto
    moreover have "bytes_ok (al_buffer ?st')"
    proof -
      have "bytes_ok (al_buffer (set_chunks (?cs[j := ?c2]) (add_size ?d st)))"
        using len ok2 xs(2) cs al_buffer_of_chunk [OF c(2)]
        by (intro bytes_ok_update(1)) simp_all
      moreover have "al_buffer ?st' = al_buffer (set_chunks (?cs[j := ?c2]) (add_size ?d st))"
        by (cases "al_buffer st") (simp_all add: set_chunks_def add_size_def addSize_def)
      ultimately show ?thesis by simp
    qed
    moreover have "al_chunks ?st' = ?cs[j := ?c2]"
      using c(2) by (cases "al_buffer st") (simp_all add: set_chunks_def add_size_def al_chunks_def buf_chunks_def)
    moreover have "cursor_ok (?cs[j := ?c2]) ?cu"
      using j at grow by (simp add: cursor_ok_def start_of_update_le)
    ultimately show ?thesis
      using that [of ?st'] st1 none cs by (simp add: alter_ok_def alter_value_chunks alter_pos_def)
  qed
qed

lemma promotor_out_put:
  assumes "alter_ok st" "alter_value st' = put_at (alter_pos st) xs (alter_value st)"
    "alter_pos st' = alter_pos st + length xs"
  shows "promotor_out (alter_promotor_of st') = emit xs (promotor_out (alter_promotor_of st))"
  using assms alter_pos_le [OF assms(1)]
  by (simp add: promotor_out_def alter_promotor_of_def emit_def take_put_at_end drop_put_at add.commute)

lemma length_put_at_le: "i \<le> length ys \<Longrightarrow> length (put_at i xs ys) \<le> length ys + length xs"
  by (simp add: put_at_def)

lemma alter_sink:
  assumes ok: "promotor_ok mem s m ap"
  shows "0 < m \<Longrightarrow> 0 < fst (alter_possible mem ap)"
    and "length xs \<le> fst (alter_possible mem ap) \<Longrightarrow> length xs \<le> m \<Longrightarrow> xs \<noteq> [] \<Longrightarrow>
          \<exists>ap'. alter_fix (length xs) (alter_store xs (snd (alter_possible mem ap))) = Some ap' \<and>
             promotor_ok mem s (m - length xs) ap' \<and> promotor_out ap' = emit xs (promotor_out ap)"
    and "\<exists>ap'. alter_fix 0 (snd (alter_possible mem ap)) = Some ap' \<and> promotor_ok mem s m ap' \<and>
             promotor_out ap' = promotor_out ap"
proof -
  let ?st = "ap_alter ap"
  have ap: "ap = alter_promotor_of ?st" and st: "alter_ok ?st" "al_prep ?st = None" "mem_ok mem"
    "length (alter_value ?st) + m < 2 ^ 32" "alter_share ?st = s"
    using ok unfolding promotor_ok_def by blast+
  have le: "alter_pos ?st \<le> length (alter_value ?st)"
    using st(1) by (rule alter_pos_le)
  have size0: "ap_writeBufferSize ap = 0"
    by (subst ap) (simp add: alter_promotor_of_def)
  have bpos: "0 < bufferSize"
    by (simp add: bufferSize_def)
  show "0 < m \<Longrightarrow> 0 < fst (alter_possible mem ap)"
    using st(1,2) bpos
    by (cases rule: prepare_cases [of ?st mem 0]) (auto simp: alter_possible_def size0)
  have same: "alter_value u = alter_value ?st" "alter_share u = alter_share ?st"
    if "al_buffer u = al_buffer ?st" for u
    using that by (simp_all add: alter_value_def alter_share_def)
  show "\<exists>ap'. alter_fix 0 (snd (alter_possible mem ap)) = Some ap' \<and> promotor_ok mem s m ap' \<and>
             promotor_out ap' = promotor_out ap"
    using st(1,2)
  proof (cases rule: prepare_cases [of ?st mem 0])
    case (fresh st')
    with same [of st'] st show ?thesis
      by (simp add: alter_possible_def size0 alter_fix_def commitWriteBuffer_def promotor_ok_def
          alter_promotor_of_def promotor_out_def)
  next
    case (inside st' j cp n)
    with same [of st'] st show ?thesis
      by (simp add: alter_possible_def size0 alter_fix_def commitWriteBuffer_def promotor_ok_def
          alter_promotor_of_def promotor_out_def)
  qed
  show "\<exists>ap'. alter_fix (length xs) (alter_store xs (snd (alter_possible mem ap))) = Some ap' \<and>
             promotor_ok mem s (m - length xs) ap' \<and> promotor_out ap' = emit xs (promotor_out ap)"
    if xs: "length xs \<le> fst (alter_possible mem ap)" "length xs \<le> m" "xs \<noteq> []"
  proof -
    have finish: ?thesis
      if "commitWriteBuffer (length xs) (store_at ptr xs u) = Some st'" "alter_share st' = s" "alter_ok st'" "al_prep st' = None"
        "alter_value st' = put_at (alter_pos ?st) xs (alter_value ?st)"
        "alter_pos st' = alter_pos ?st + length xs"
        "alter_possible mem ap = (n, \<lparr>ap_alter = u, ap_writeBuffer = ptr, ap_writeBufferSize = n\<rparr>)"
      for ptr u st' n
    proof -
      have "length (alter_value st') + (m - length xs) < 2 ^ 32"
        using length_put_at_le [OF le, of xs] that(5) st(4) xs(2) by simp
      then have "promotor_ok mem s (m - length xs) (alter_promotor_of st')"
        using that st by (simp add: promotor_ok_def) (simp add: alter_promotor_of_def)
      moreover have "promotor_out (alter_promotor_of st') = emit xs (promotor_out ap)"
        by (subst ap) (rule promotor_out_put [OF st(1) that(5,6)])
      ultimately show ?thesis
        using that by (simp add: alter_store_def alter_fix_def)
    qed
    show ?thesis
      using st(1,2)
    proof (cases rule: prepare_cases [of ?st mem 0])
      case (fresh st')
      note v = same [OF fresh(4)]
      have "length (mem (al_new ?st)) = bufferSize" "length xs \<le> bufferSize"
        "length (alter_value st') + length xs < 2 ^ 32"
        using st fresh xs v by (simp_all add: mem_ok_def alter_possible_def size0)
      from commit_prepared [OF fresh(2) this(1) fresh(6,7) xs(3) this(2,3)]
      obtain s' where "commitWriteBuffer (length xs) (store_at Prepared xs
            (st'\<lparr>al_prep := Some (mem (al_new ?st)), al_new := Suc (al_new ?st)\<rparr>)) = Some s'"
        "alter_ok s'" "al_prep s' = None" "alter_value s' = alter_value st' @ xs"
        "alter_pos s' = alter_pos st' + length xs" "alter_share s' = alter_share st'"
        by blast
      then show ?thesis
        using fresh v st(5) by (intro finish) (simp_all add: put_at_end alter_possible_def size0)
    next
      case (inside st' j cp n)
      note v = same [OF inside(4)]
      have bound: "length (alter_value st') + length xs < 2 ^ 32"
        using st xs v by simp
      have cs: "al_chunks st' = al_chunks ?st"
        using inside(4) by (simp add: al_chunks_def)
      have "length xs \<le> (if Suc j = length (al_chunks st') then bufferSize - (ch_begin (al_chunks st' ! j) + cp)
            else chunk_size (al_chunks st' ! j) - cp)"
        using xs(1) inside(1,9) cs by (simp add: alter_possible_def size0 split: if_splits)
      from commit_inside [OF inside(2,3,6,7) xs(3) bound this]
      obtain s' where "commitWriteBuffer (length xs) (store_at (InChunk j cp) xs st') = Some s'"
        "alter_ok s'" "al_prep s' = None" "alter_value s' = put_at (alter_pos st') xs (alter_value st')"
        "alter_pos s' = alter_pos st' + length xs" "alter_share s' = alter_share st'"
        by blast
      then show ?thesis
        using inside v st(5) by (intro finish) (simp_all add: alter_possible_def size0)
    qed
  qed
qed

interpretation alt: byte_sink "alter_possible mem" alter_store alter_fix promotor_out "promotor_ok mem s"
  for mem s
  using alter_sink by unfold_locales blast+

subsection \<open>Copy on write and writing\<close>

text \<open>The copying loop of \<open>writeImpl\<close>, over any source.\<close>

definition write_from ::
  "(nat \<Rightarrow> byte list) \<Rightarrow> ('t \<Rightarrow> nat \<times> 't) \<Rightarrow> ('t \<Rightarrow> byte list option) \<Rightarrow> (nat \<Rightarrow> 't \<Rightarrow> 't option) \<Rightarrow>
    alter \<Rightarrow> 't \<Rightarrow> (nat \<times> alter \<times> 't) option" where
  "write_from mem spossible sdata sfix st src =
     map_option (\<lambda>(wrote, ap, src'). (wrote, ap_alter ap, src'))
       (execute2 (alter_possible mem) alter_fix spossible sfix (write_step alter_store sdata)
          (alter_promotor_of st) src 0)"

definition write_bytes :: "(nat \<Rightarrow> byte list) \<Rightarrow> alter \<Rightarrow> byte list \<Rightarrow> (nat \<times> alter) option" where
  "write_bytes mem st xs =
     map_option (\<lambda>(wrote, st', a). (wrote, st'))
       (write_from mem array_possible as_data array_fix (st\<lparr>al_prep := None\<rparr>)
          \<lparr>as_data = Some xs, as_size = length xs\<rparr>)"

fun copy_chunks :: "(nat \<Rightarrow> byte list) \<Rightarrow> chunk list \<Rightarrow> alter \<Rightarrow> alter option" where
  "copy_chunks mem [] st = Some st"
| "copy_chunks mem (c # cs) st =
     Option.bind (write_bytes mem st (chunk_content c)) (\<lambda>(wrote, st'). copy_chunks mem cs st')"

text \<open>The copy belongs to a new container of its own, which is gone at the end.\<close>

definition copyBufferBecauseOfWrite :: "(nat \<Rightarrow> byte list) \<Rightarrow> alter \<Rightarrow> alter option" where
  "copyBufferBecauseOfWrite mem st =
     (if \<not> al_container st then Some st
      else case al_buffer st of
        None \<Rightarrow> Some st
      | Some b \<Rightarrow>
          if bf_share b > 1 then
            Option.bind (copy_chunks mem (bf_chunks b)
                \<lparr>al_container = True, al_buffer = None, al_cursor = null_cursor, al_prep = None,
                 al_new = al_new st\<rparr>)
              (\<lambda>other. case al_buffer other of
                 None \<Rightarrow> None
               | Some b' \<Rightarrow>
                   (let cs = bf_chunks b'; oldPos = cu_pos (al_cursor st);
                        cu = \<lparr>cu_chunk = (if cs = [] then None else Some 0), cu_chunkPos = 0, cu_pos = 0\<rparr>
                    in Some (st\<lparr>al_buffer := Some b', al_new := al_new other,
                                al_cursor := (if oldPos \<noteq> 0 then snd (advance cs (to_int32 oldPos) cu)
                                              else cu)\<rparr>)))
          else Some st)"

definition writeImpl ::
  "(nat \<Rightarrow> byte list) \<Rightarrow> ('t \<Rightarrow> nat \<times> 't) \<Rightarrow> ('t \<Rightarrow> byte list option) \<Rightarrow> (nat \<Rightarrow> 't \<Rightarrow> 't option) \<Rightarrow>
    alter \<Rightarrow> 't \<Rightarrow> (nat \<times> alter \<times> 't) option" where
  "writeImpl mem spossible sdata sfix st src =
     Option.bind (copyBufferBecauseOfWrite mem (st\<lparr>al_prep := None\<rparr>))
       (\<lambda>st1. write_from mem spossible sdata sfix st1 src)"

definition write_array :: "(nat \<Rightarrow> byte list) \<Rightarrow> alter \<Rightarrow> byte list option \<Rightarrow> nat \<Rightarrow> (nat \<times> alter) option" where
  "write_array mem st src n =
     map_option (\<lambda>(wrote, st', a). (wrote, st'))
       (writeImpl mem array_possible as_data array_fix st \<lparr>as_data = src, as_size = n\<rparr>)"

text \<open>
  A cursor of another container is read to \<open>maxSize\<close> bytes. A cursor of the written container
  (\<open>same\<close>) is reset before the copying starts, so there is nothing to read.
\<close>

definition write_part_cursor ::
  "(nat \<Rightarrow> byte list) \<Rightarrow> alter \<Rightarrow> chunk list \<Rightarrow> cursor \<Rightarrow> nat \<Rightarrow> (nat \<times> alter \<times> cursor) option" where
  "write_part_cursor mem st cs cu maxSize =
     map_option (\<lambda>(wrote, st', p). (wrote, st', pc_cursor p))
       (writeImpl mem (part_possible cs) (part_data cs) (part_fix cs) st
          \<lparr>pc_cursor = cu, pc_maxSize = maxSize\<rparr>)"

definition write_cursor ::
  "(nat \<Rightarrow> byte list) \<Rightarrow> alter \<Rightarrow> bool \<Rightarrow> chunk list \<Rightarrow> cursor \<Rightarrow> nat \<Rightarrow> (nat \<times> alter \<times> cursor) option" where
  "write_cursor mem st same cs cu maxSize =
     (if same then write_part_cursor mem st [] null_cursor maxSize
      else write_part_cursor mem st cs cu maxSize)"

definition write_Bytes ::
  "(nat \<Rightarrow> byte list) \<Rightarrow> alter \<Rightarrow> bool \<Rightarrow> buffer option \<Rightarrow> nat \<Rightarrow> (nat \<times> alter) option" where
  "write_Bytes mem st same src maxSize =
     map_option (\<lambda>(wrote, st', cu). (wrote, st'))
       (write_cursor mem st same (buf_chunks src) (cursor_at src True) maxSize)"

subsection \<open>What writing does\<close>

interpretation write_array: copying array_possible as_data array_fix array_rest array_fits
    "alter_possible mem" alter_store alter_fix promotor_out "promotor_ok mem s" for mem s
  by unfold_locales

interpretation write_part: copying "part_possible cs" "part_data cs" "part_fix cs" "part_rest cs" "part_ok cs t"
    "alter_possible mem" alter_store alter_fix promotor_out "promotor_ok mem s" for cs t mem s
  by unfold_locales

text \<open>Two pairs (before, after) that agree describe the same value and position.\<close>

lemma promotor_out_value:
  assumes "promotor_out (alter_promotor_of st') = emit xs (promotor_out (alter_promotor_of st))"
    and "alter_ok st" "alter_ok st'"
  shows "alter_value st' = put_at (alter_pos st) xs (alter_value st)"
    and "alter_pos st' = alter_pos st + length xs"
proof -
  have t: "take (alter_pos st') (alter_value st') = take (alter_pos st) (alter_value st) @ xs"
    "drop (alter_pos st') (alter_value st') = drop (length xs) (drop (alter_pos st) (alter_value st))"
    using assms(1) by (simp_all add: promotor_out_def emit_def alter_promotor_of_def)
  have "alter_value st' = take (alter_pos st') (alter_value st') @ drop (alter_pos st') (alter_value st')"
    by simp
  then show "alter_value st' = put_at (alter_pos st) xs (alter_value st)"
    by (simp only: t put_at_def) (simp add: add.commute)
  show "alter_pos st' = alter_pos st + length xs"
    using arg_cong [OF t(1), of length] alter_pos_le [OF assms(2)] alter_pos_le [OF assms(3)] by simp
qed

text \<open>An alter after writing \<open>xs\<close> at its position: nothing prepared, the bytes overwritten.\<close>

definition written :: "alter \<Rightarrow> byte list \<Rightarrow> alter \<Rightarrow> bool" where
  "written st xs st' \<longleftrightarrow> alter_ok st' \<and> al_prep st' = None \<and>
     alter_value st' = put_at (alter_pos st) xs (alter_value st) \<and>
     alter_pos st' = alter_pos st + length xs \<and> alter_share st' = alter_share st"

lemma promotor_ok_written:
  assumes "promotor_ok mem (alter_share st) m ap" "promotor_out ap = emit xs (promotor_out (alter_promotor_of st))" "alter_ok st"
  shows "written st xs (ap_alter ap)"
proof -
  have ap: "ap = alter_promotor_of (ap_alter ap)" "alter_ok (ap_alter ap)" "al_prep (ap_alter ap) = None"
    "alter_share (ap_alter ap) = alter_share st"
    using assms(1) unfolding promotor_ok_def by blast+
  have "promotor_out (alter_promotor_of (ap_alter ap)) = emit xs (promotor_out (alter_promotor_of st))"
    using assms(2) ap(1) by simp
  from promotor_out_value [OF this assms(3) ap(2)] ap show ?thesis
    by (simp add: written_def)
qed

lemma promotor_ok_start:
  assumes "alter_ok st" "al_prep st = None" "mem_ok mem" "length (alter_value st) + m < 2 ^ 32"
  shows "promotor_ok mem (alter_share st) m (alter_promotor_of st)"
  using assms by (simp add: promotor_ok_def) (simp add: alter_promotor_of_def)

lemma write_from_array:
  assumes "alter_ok st" "al_prep st = None" "mem_ok mem"
    "length (alter_value st) + n < 2 ^ 32" "array_fits \<lparr>as_data = src, as_size = n\<rparr>"
  obtains st' a where
    "write_from mem array_possible as_data array_fix st \<lparr>as_data = src, as_size = n\<rparr> = Some (n, st', a)"
    "written st (array_rest \<lparr>as_data = src, as_size = n\<rparr>) st'"
proof -
  let ?src = "\<lparr>as_data = src, as_size = n\<rparr>"
  have len: "length (array_rest ?src) = n"
    using assms(5) by (auto simp: array_fits_def array_rest_def split: option.splits)
  obtain a ap where "execute2 (alter_possible mem) alter_fix array_possible array_fix (write_step alter_store as_data)
      (alter_promotor_of st) ?src 0 = Some (0 + length (array_rest ?src), ap, a)"
    "promotor_ok mem (alter_share st) (n - length (array_rest ?src)) ap"
    "promotor_out ap = emit (array_rest ?src) (promotor_out (alter_promotor_of st))"
    using write_array.write_loop [OF assms(5) promotor_ok_start [OF assms(1-4)], of 0] len by auto
  then show ?thesis
    using that [of "ap_alter ap" a] promotor_ok_written [of mem st _ ap] assms(1) len
    by (simp add: write_from_def)
qed

lemma write_bytes_spec:
  assumes "alter_ok st" "mem_ok mem" "length (alter_value st) + length xs < 2 ^ 32"
  obtains st' where "write_bytes mem st xs = Some (length xs, st')" "written st xs st'"
proof -
  have "array_fits \<lparr>as_data = Some xs, as_size = length xs\<rparr>"
    by (simp add: array_fits_def)
  from write_from_array [OF _ _ assms(2) _ this, of "st\<lparr>al_prep := None\<rparr>"] assms that show ?thesis
    by (force simp: write_bytes_def array_rest_def written_def)
qed

lemma copy_chunks_spec:
  assumes "alter_ok st" "mem_ok mem" "length (alter_value st) + length (contents cs) < 2 ^ 32"
    "alter_pos st = length (alter_value st)"
  obtains st' where "copy_chunks mem cs st = Some st'" "alter_ok st'"
    "alter_value st' = alter_value st @ contents cs" "alter_share st' = alter_share st"
  using assms
proof (induction cs arbitrary: st thesis)
  case Nil
  then show ?case by simp
next
  case (Cons c cs)
  obtain st1 where st1: "write_bytes mem st (chunk_content c) = Some (length (chunk_content c), st1)"
    "written st (chunk_content c) st1"
    using write_bytes_spec [of st mem "chunk_content c"] Cons.prems by auto
  have v: "alter_value st1 = alter_value st @ chunk_content c" "alter_ok st1"
    "alter_pos st1 = length (alter_value st1)"
    "alter_share st1 = alter_share st"
    using st1(2) Cons.prems(5) by (simp_all add: written_def put_at_end)
  obtain st' where "copy_chunks mem cs st1 = Some st'" "alter_ok st'"
    "alter_value st' = alter_value st1 @ contents cs"
    "alter_share st' = alter_share st1"
    using Cons.IH [OF _ v(2) Cons.prems(3) _ v(3)] Cons.prems(4) v(1) by auto
  then show ?case
    using Cons.prems(1) [of st'] st1(1) v(1,4) by simp
qed

text \<open>When a shared buffer can be copied: it has a byte, and its size is an \<open>int32\<close>.\<close>

definition cow_ok :: "alter \<Rightarrow> bool" where
  "cow_ok st \<longleftrightarrow> (alter_share st > 1 \<longrightarrow> alter_value st \<noteq> [] \<and> length (alter_value st) < 2 ^ 31)"

lemma copyBuffer_spec:
  assumes "alter_ok st" "mem_ok mem" "cow_ok st"
  obtains st' where "copyBufferBecauseOfWrite mem st = Some st'" "alter_ok st'" "al_prep st' = al_prep st"
    "alter_value st' = alter_value st" "alter_pos st' = alter_pos st" "alter_share st' = min 1 (alter_share st)"
    "cursor_normal (al_chunks st) (al_cursor st) \<longrightarrow> cursor_normal (al_chunks st') (al_cursor st')"
proof (cases "alter_share st > 1")
  case False
  then have "copyBufferBecauseOfWrite mem st = Some st" "min 1 (alter_share st) = alter_share st"
    by (auto simp: copyBufferBecauseOfWrite_def alter_share_def split: option.splits)
  with assms that show ?thesis by simp
next
  case True
  then obtain b where b: "al_buffer st = Some b" "bf_share b > 1"
    by (cases "al_buffer st") (simp_all add: alter_share_def)
  let ?o = "\<lparr>al_container = True, al_buffer = None, al_cursor = null_cursor, al_prep = None, al_new = al_new st\<rparr>"
  have o: "alter_ok ?o" "alter_value ?o = []" "alter_pos ?o = 0" "alter_share ?o = 1"
    by (simp_all add: alter_ok_def bytes_ok_def al_chunks_def buf_chunks_def cursor_ok_def null_cursor_def
        alter_value_def value_of_def alter_pos_def alter_share_def)
  have v: "contents (bf_chunks b) = alter_value st"
    using b by (simp add: alter_value_def value_of_def buf_chunks_def)
  obtain other where other: "copy_chunks mem (bf_chunks b) ?o = Some other" "alter_ok other"
    "alter_value other = alter_value st" "alter_share other = 1"
    using copy_chunks_spec [OF o(1) assms(2), of "bf_chunks b"] o v alter_value_bound [OF assms(1)] by auto
  then obtain b' where b': "al_buffer other = Some b'" "bytes_ok (Some b')" "bf_share b' = 1"
    "contents (bf_chunks b') = alter_value st"
    using True assms(3)
    by (cases "al_buffer other")
       (simp_all add: cow_ok_def alter_value_def value_of_def buf_chunks_def alter_ok_def alter_share_def)
  let ?cs = "bf_chunks b'"
  let ?cu = "\<lparr>cu_chunk = (if ?cs = [] then None else Some 0), cu_chunkPos = 0, cu_pos = 0\<rparr>"
  let ?oldPos = "alter_pos st"
  let ?cu' = "if ?oldPos \<noteq> 0 then snd (advance ?cs (to_int32 ?oldPos) ?cu) else ?cu"
  have good: "cursor_good ?cs ?cu" "cursor_rest ?cs ?cu = alter_value st"
    using cursor_at_good [OF b'(2), of True] b'(4)
    by (simp_all add: buf_chunks_def cursor_at_def value_of_def Let_def)
  have small: "?oldPos < 2 ^ 31" "?oldPos \<le> length (cursor_rest ?cs ?cu)"
    using alter_pos_le [OF assms(1)] assms(3) True good(2) by (auto simp: cow_ok_def)
  then have cu': "cursor_good ?cs ?cu'" "cu_pos ?cu' = ?oldPos"
    using cursor_good_advance [OF good(1) small(2)] good(1) by auto
  let ?st' = "st\<lparr>al_buffer := Some b', al_new := al_new other, al_cursor := ?cu'\<rparr>"
  have "copyBufferBecauseOfWrite mem st = Some ?st'"
    using assms(1) b other b' by (simp add: copyBufferBecauseOfWrite_def alter_ok_def Let_def alter_pos_def)
  moreover have "alter_ok ?st'"
    using assms(1) b' cu' by (simp add: alter_ok_def al_chunks_def buf_chunks_def cursor_good_def)
  moreover have "alter_value ?st' = alter_value st" "alter_pos ?st' = ?oldPos" "alter_share ?st' = 1"
    "cursor_normal (al_chunks ?st') (al_cursor ?st')"
    using b' cu' by (simp_all add: alter_value_def value_of_def buf_chunks_def alter_pos_def alter_share_def
        al_chunks_def cursor_good_def)
  ultimately show ?thesis
    using that [of ?st'] True by simp
qed

lemma write_array_spec:
  assumes "alter_ok st" "mem_ok mem" "cow_ok st" "length (alter_value st) + length xs < 2 ^ 32"
  obtains st' where "write_array mem st (Some xs) (length xs) = Some (length xs, st')" "alter_ok st'"
    "al_prep st' = None" "alter_value st' = put_at (alter_pos st) xs (alter_value st)"
    "alter_pos st' = alter_pos st + length xs" "alter_share st' = min 1 (alter_share st)"
proof -
  have "alter_ok (st\<lparr>al_prep := None\<rparr>)" "cow_ok (st\<lparr>al_prep := None\<rparr>)"
    using assms by (simp_all add: cow_ok_def)
  from copyBuffer_spec [OF this(1) assms(2) this(2)] obtain s1 where
    s1: "copyBufferBecauseOfWrite mem (st\<lparr>al_prep := None\<rparr>) = Some s1" "alter_ok s1" "al_prep s1 = None"
    "alter_value s1 = alter_value st" "alter_pos s1 = alter_pos st" "alter_share s1 = min 1 (alter_share st)"
    by auto
  have "array_fits \<lparr>as_data = Some xs, as_size = length xs\<rparr>"
    by (simp add: array_fits_def)
  with write_from_array [OF s1(2,3) assms(2), of "length xs" "Some xs"] assms(4) s1(4)
  obtain st' a where "write_from mem array_possible as_data array_fix s1 \<lparr>as_data = Some xs, as_size = length xs\<rparr> =
      Some (length xs, st', a)" "written s1 xs st'"
    by (auto simp: array_rest_def)
  with s1 that [of st'] show ?thesis
    by (simp add: write_array_def writeImpl_def written_def)
qed

text \<open>C5. Writing \<open>n\<close> bytes from memory terminates, overwrites the bytes at the cursor and extends
  the container when they reach past its end, moves the cursor behind them, keeps every invariant
  of the chunk list and leaves the alter the only owner of the buffer it wrote to. This is for a
  container whose buffer, if it is shared with another container, is not empty and holds less than 2^31
  bytes (copying a shared buffer without chunks leaves a null pointer that is then used, and the position
  is restored through an \<open>int32\<close>), and for a result of less than 2^32 bytes.\<close>

theorem write_array_overwrites:
  assumes "alter_ok st" "mem_ok mem" "cow_ok st" "length (alter_value st) + length xs < 2 ^ 32"
  shows "\<exists>st'. write_array mem st (Some xs) (length xs) = Some (length xs, st') \<and> alter_ok st' \<and>
     alter_value st' = take (alter_pos st) (alter_value st) @ xs @ drop (alter_pos st + length xs) (alter_value st) \<and>
     alter_pos st' = alter_pos st + length xs \<and> alter_share st' = min 1 (alter_share st)"
  using write_array_spec [OF assms] unfolding put_at_def by metis

definition sample_alter :: "nat \<Rightarrow> alter" where
  "sample_alter share =
     \<lparr>al_container = True,
      al_buffer = Some \<lparr>bf_chunks = [chunk_of [1, 2], chunk_of [3, 4, 5]], bf_size = 5, bf_share = share\<rparr>,
      al_cursor = \<lparr>cu_chunk = Some 0, cu_chunkPos = 1, cu_pos = 1\<rparr>, al_prep = None, al_new = 0\<rparr>"

lemma sample_alter_facts:
  "alter_ok (sample_alter n)" "alter_value (sample_alter n) = [1, 2, 3, 4, 5]" "alter_pos (sample_alter n) = 1"
  "alter_share (sample_alter n) = n" "al_chunks (sample_alter n) = [chunk_of [1, 2], chunk_of [3, 4, 5]]"
  by (simp_all add: sample_alter_def alter_ok_def bytes_ok_def buffer_ok_def al_chunks_def buf_chunks_def
      cursor_ok_def alter_value_def value_of_def alter_pos_def alter_share_def)

lemma sample_mem_ok: "mem_ok (\<lambda>_. replicate bufferSize 0)"
  by (simp add: mem_ok_def)

theorem write_array_overwrites_witness:
  "\<exists>st'. write_array (\<lambda>_. replicate bufferSize 0) (sample_alter 2) (Some [7, 8, 9]) 3 = Some (3, st') \<and>
     alter_value st' = [1, 7, 8, 9, 5] \<and> alter_pos st' = 4 \<and> alter_share st' = 1"
proof -
  have "cow_ok (sample_alter 2)"
    by (simp add: cow_ok_def sample_alter_facts)
  with write_array_overwrites [OF sample_alter_facts(1) sample_mem_ok, of 2 "[7, 8, 9]"]
  obtain st' where "write_array (\<lambda>_. replicate bufferSize 0) (sample_alter 2) (Some [7, 8, 9]) (length [7 :: byte, 8, 9]) =
      Some (length [7 :: byte, 8, 9], st')" "alter_value st' = [1, 7, 8, 9, 5]" "alter_pos st' = 1 + length [7 :: byte, 8, 9]"
      "alter_share st' = 1"
    by (auto simp: sample_alter_facts)
  then show ?thesis
    by (intro exI [of _ st']) (simp add: numeral_3_eq_3)
qed

lemma write_part_cursor_spec:
  assumes "alter_ok st" "mem_ok mem" "cow_ok st" "cursor_good cs cu"
    "xs = take maxSize (cursor_rest cs cu)"
    "length (alter_value st) + length xs < 2 ^ 32"
  shows "\<exists>st' cu'. write_part_cursor mem st cs cu maxSize = Some (length xs, st', cu') \<and> alter_ok st' \<and>
    alter_value st' = put_at (alter_pos st) xs (alter_value st) \<and> alter_pos st' = alter_pos st + length xs \<and>
    cu_pos cu' = cu_pos cu + length xs \<and> alter_share st' = min 1 (alter_share st)"
proof -
  let ?p = "\<lparr>pc_cursor = cu, pc_maxSize = maxSize\<rparr>"
  let ?t = "cu_pos cu + maxSize"
  have "alter_ok (st\<lparr>al_prep := None\<rparr>)" "cow_ok (st\<lparr>al_prep := None\<rparr>)"
    using assms by (simp_all add: cow_ok_def)
  from copyBuffer_spec [OF this(1) assms(2) this(2)] obtain s1 where
    s1: "copyBufferBecauseOfWrite mem (st\<lparr>al_prep := None\<rparr>) = Some s1" "alter_ok s1" "al_prep s1 = None"
    "alter_value s1 = alter_value st" "alter_pos s1 = alter_pos st" "alter_share s1 = min 1 (alter_share st)"
    by auto
  have p: "part_ok cs ?t ?p" "part_rest cs ?p = xs"
    using assms(4,5) by (simp_all add: part_ok_def part_rest_def)
  have "length (alter_value s1) + length xs < 2 ^ 32"
    using assms(6) s1(4) by simp
  from write_part.write_loop [OF p(1) promotor_ok_start [OF s1(2,3) assms(2) this], of 0] p(2)
  obtain p' ap where l: "execute2 (alter_possible mem) alter_fix (part_possible cs) (part_fix cs)
        (write_step alter_store (part_data cs)) (alter_promotor_of s1) ?p 0 = Some (length xs, ap, p')"
    "part_ok cs ?t p'" "part_rest cs p' = []" "promotor_ok mem (alter_share s1) 0 ap"
    "promotor_out ap = emit xs (promotor_out (alter_promotor_of s1))"
    by auto
  have w: "written s1 xs (ap_alter ap)"
    using promotor_ok_written [OF l(4,5) s1(2)] .
  have good': "cursor_good cs (pc_cursor p')" "cu_pos (pc_cursor p') + pc_maxSize p' = ?t"
    using l(2) by (simp_all add: part_ok_def)
  have le: "cu_pos cu \<le> length (contents cs)" "cu_pos (pc_cursor p') \<le> length (contents cs)"
    using assms(4) good'(1) cursor_ok_pos_le by (auto simp only: cursor_good_def)
  have "pc_maxSize p' = 0 \<or> cu_pos (pc_cursor p') = length (contents cs)"
    using l(3) le by (auto simp: part_rest_def cursor_rest_def)
  moreover have "length xs = min (length (contents cs) - cu_pos cu) maxSize"
    by (simp only: assms(5) cursor_rest_def length_take length_drop min.commute)
  ultimately have "cu_pos (pc_cursor p') = cu_pos cu + length xs"
    using good'(2) le by linarith
  moreover have "write_part_cursor mem st cs cu maxSize = Some (length xs, ap_alter ap, pc_cursor p')"
    using s1(1) l(1) by (simp add: write_part_cursor_def writeImpl_def write_from_def)
  ultimately show ?thesis
    using w s1 by (intro exI [of _ "ap_alter ap"] exI [of _ "pc_cursor p'"]) (simp only: written_def simp_thms)
qed

text \<open>Writing from a cursor of another container copies the bytes after that cursor, up to
  \<open>maxSize\<close>, and advances both cursors by their number; a cursor of the written container itself
  is reset first, so a container written to itself receives nothing.\<close>

theorem write_cursor_copies:
  assumes "alter_ok st" "mem_ok mem" "cow_ok st" "cursor_good cs cu"
    "length (alter_value st) + length xs < 2 ^ 32" "xs = take maxSize (drop (cu_pos cu) (contents cs))"
  shows "(\<exists>st' cu'. write_cursor mem st False cs cu maxSize = Some (length xs, st', cu') \<and> alter_ok st' \<and>
       alter_value st' = put_at (alter_pos st) xs (alter_value st) \<and>
       alter_pos st' = alter_pos st + length xs \<and> cu_pos cu' = cu_pos cu + length xs) \<and>
     (\<exists>st' cu'. write_cursor mem st True cs cu maxSize = Some (0, st', cu') \<and> alter_ok st' \<and>
       alter_value st' = alter_value st \<and> alter_pos st' = alter_pos st)"
proof (rule conjI)
  show "\<exists>st' cu'. write_cursor mem st False cs cu maxSize = Some (length xs, st', cu') \<and> alter_ok st' \<and>
       alter_value st' = put_at (alter_pos st) xs (alter_value st) \<and>
       alter_pos st' = alter_pos st + length xs \<and> cu_pos cu' = cu_pos cu + length xs"
    using write_part_cursor_spec [OF assms(1-4) _ assms(5), of maxSize] assms(6)
    by (auto simp only: cursor_rest_def write_cursor_def if_False)
  have "cursor_good [] null_cursor" "take maxSize (cursor_rest [] null_cursor) = []"
    by (simp_all add: cursor_good_def cursor_ok_def cursor_normal_def null_cursor_def cursor_rest_def)
  then show "\<exists>st' cu'. write_cursor mem st True cs cu maxSize = Some (0, st', cu') \<and> alter_ok st' \<and>
       alter_value st' = alter_value st \<and> alter_pos st' = alter_pos st"
    using write_part_cursor_spec [OF assms(1-3), of "[]" null_cursor "[]" maxSize] alter_value_bound [OF assms(1)]
    by (auto simp: write_cursor_def)
qed

theorem write_cursor_copies_witness:
  "(\<exists>st' cu'. write_cursor (\<lambda>_. replicate bufferSize 0) (sample_alter 1) False [chunk_of [7, 8, 9]]
       \<lparr>cu_chunk = Some 0, cu_chunkPos = 1, cu_pos = 1\<rparr> 10 = Some (2, st', cu') \<and>
       alter_value st' = [1, 8, 9, 4, 5] \<and> cu_pos cu' = 3) \<and>
   (\<exists>st' cu'. write_cursor (\<lambda>_. replicate bufferSize 0) (sample_alter 1) True (al_chunks (sample_alter 1))
       \<lparr>cu_chunk = Some 0, cu_chunkPos = 0, cu_pos = 0\<rparr> 10 = Some (0, st', cu') \<and>
       alter_value st' = [1, 2, 3, 4, 5])"
proof -
  have "cow_ok (sample_alter 1)"
    by (simp add: cow_ok_def sample_alter_facts)
  note w = write_cursor_copies [OF sample_alter_facts(1) sample_mem_ok this]
  let ?cu = "\<lparr>cu_chunk = Some 0, cu_chunkPos = 1, cu_pos = 1\<rparr>"
  have "cursor_good [chunk_of [7, 8, 9]] ?cu"
    by (simp add: cursor_good_def cursor_ok_def cursor_normal_def)
  from w [OF this, of "[8, 9]" 10] obtain st' cu' where
    "write_cursor (\<lambda>_. replicate bufferSize 0) (sample_alter 1) False [chunk_of [7, 8, 9]] ?cu 10 =
       Some (length [8 :: byte, 9], st', cu')"
    "alter_value st' = put_at 1 [8, 9] [1, 2, 3, 4, 5]" "cu_pos cu' = cu_pos ?cu + length [8 :: byte, 9]"
    by (auto simp: sample_alter_facts)
  then have "\<exists>st' cu'. write_cursor (\<lambda>_. replicate bufferSize 0) (sample_alter 1) False [chunk_of [7, 8, 9]]
       ?cu 10 = Some (2, st', cu') \<and> alter_value st' = [1, 8, 9, 4, 5] \<and> cu_pos cu' = 3"
    by (intro exI [of _ st'] exI [of _ cu']) (simp add: put_at_def)
  moreover have good: "cursor_good (al_chunks (sample_alter 1)) \<lparr>cu_chunk = Some 0, cu_chunkPos = 0, cu_pos = 0\<rparr>"
    by (simp add: sample_alter_facts cursor_good_def cursor_ok_def cursor_normal_def)
  have bound: "length (alter_value (sample_alter 1)) + length [1, 2, 3, 4, 5 :: byte] < 2 ^ 32"
    and rest: "[1, 2, 3, 4, 5] = take 10 (drop (cu_pos \<lparr>cu_chunk = Some 0, cu_chunkPos = 0, cu_pos = 0\<rparr>)
        (contents (al_chunks (sample_alter 1))))"
    by (simp_all add: sample_alter_facts)
  from conjunct2 [OF w [OF good bound rest]]
  have "\<exists>st' cu'. write_cursor (\<lambda>_. replicate bufferSize 0) (sample_alter 1) True (al_chunks (sample_alter 1))
       \<lparr>cu_chunk = Some 0, cu_chunkPos = 0, cu_pos = 0\<rparr> 10 = Some (0, st', cu') \<and>
       alter_value st' = [1, 2, 3, 4, 5]"
    unfolding sample_alter_facts(2) by blast
  ultimately show ?thesis ..
qed

text \<open>A container whose buffer is shared but holds no byte cannot be written: the copy of the
  buffer is no buffer, and its first chunk is asked for through the null pointer.\<close>

theorem write_shared_empty:
  assumes "al_container st" "al_buffer st = Some b" "bf_chunks b = []" "bf_share b > 1"
  shows "write_array mem st src n = None"
  using assms by (simp add: write_array_def writeImpl_def copyBufferBecauseOfWrite_def)

theorem write_shared_empty_witness:
  "write_array (\<lambda>_. replicate bufferSize 0)
     \<lparr>al_container = True, al_buffer = Some \<lparr>bf_chunks = [], bf_size = 0, bf_share = 2\<rparr>,
      al_cursor = null_cursor, al_prep = None, al_new = 0\<rparr> (Some [1]) 1 = None"
  by (rule write_shared_empty [of _ "\<lparr>bf_chunks = [], bf_size = 0, bf_share = 2\<rparr>"]) simp_all

end
