(* ===== verification/Growth.thy ===== *)
theory Growth
  imports Alters
begin

section \<open>Moving an alter past the ends: growing the container\<close>

text \<open>
  \<^verbatim>\<open>Alter::advance\<close> moves like a cursor while it can and then grows the container at the end
  it ran into, first within the chunk there, then by whole chunks. New bytes are what the
  memory holds. \<^verbatim>\<open>continuousData4Write\<close> offers the bytes of the current chunk after the copy
  of a shared buffer.
\<close>

subsection \<open>The operations\<close>

text \<open>The loops over whole chunks: the new chunks in list order, the next allocation, the rest.\<close>

function fill_back :: "(nat \<Rightarrow> byte list) \<Rightarrow> nat \<Rightarrow> nat \<Rightarrow> chunk list \<times> nat \<times> nat" where
  "fill_back mem k offset =
     (if offset > bufferSize
      then (case fill_back mem (Suc k) (offset - bufferSize) of
              (ds, k', r) \<Rightarrow> (new_chunk (mem k) 0 bufferSize # ds, k', r))
      else ([], k, offset))"
  by pat_completeness auto
termination
  by (relation "measure (\<lambda>(mem, k, offset). offset)") (auto simp: bufferSize_def)

function fill_front :: "(nat \<Rightarrow> byte list) \<Rightarrow> nat \<Rightarrow> nat \<Rightarrow> chunk list \<Rightarrow> chunk list \<times> nat \<times> nat" where
  "fill_front mem k offset cs =
     (if offset > bufferSize
      then fill_front mem (Suc k) (offset - bufferSize) (new_chunk (mem k) 0 bufferSize # cs)
      else (cs, k, offset))"
  by pat_completeness auto
termination
  by (relation "measure (\<lambda>(mem, k, offset, cs). offset)") (auto simp: bufferSize_def)

declare fill_back.simps [simp del] fill_front.simps [simp del]

definition make_first :: "chunk \<Rightarrow> nat \<Rightarrow> nat \<Rightarrow> alter \<Rightarrow> alter" where
  "make_first c chunkPos n st =
     st\<lparr>al_buffer := Some (new_buffer [c] n), al_new := Suc (al_new st),
        al_cursor := (al_cursor st)\<lparr>cu_chunk := Some 0, cu_chunkPos := chunkPos\<rparr>\<rparr>"

text \<open>After the size is counted: extend the chunk at the cursor, then add chunks behind it.\<close>

definition extend_back :: "(nat \<Rightarrow> byte list) \<Rightarrow> nat \<Rightarrow> alter \<Rightarrow> alter option" where
  "extend_back mem offset st =
     (case cu_chunk (al_cursor st) of None \<Rightarrow> None
      | Some i \<Rightarrow>
          (let cs = al_chunks st; c = cs ! i; cp = cu_chunkPos (al_cursor st);
               space = bufferSize - cp - ch_begin c
           in if space > 0 \<and> space \<ge> offset then
                (let lack = offset - (chunk_size c - cp) in
                 Some (set_chunks (cs[i := setEnd (ch_end c + lack) c])
                   (st\<lparr>al_cursor := (al_cursor st)\<lparr>cu_chunkPos := cp + lack\<rparr>\<rparr>)))
              else
                (let cs1 = (if space > 0 then cs[i := setEnd bufferSize c] else cs);
                     (ds, k, r) = fill_back mem (al_new st) (offset - space);
                     cs2 = take (Suc i) cs1 @ ds
                 in if r \<noteq> 0 then
                      Some (set_chunks (cs2 @ [new_chunk (mem k) 0 r])
                        (st\<lparr>al_new := Suc k, al_cursor := (al_cursor st)\<lparr>cu_chunk := Some (length cs2), cu_chunkPos := r\<rparr>\<rparr>))
                    else
                      Some (set_chunks cs2
                        (st\<lparr>al_new := k, al_cursor := (al_cursor st)\<lparr>cu_chunk := Some (length cs2 - 1),
                              cu_chunkPos := chunk_size (last cs2)\<rparr>\<rparr>)))))"

text \<open>\<open>setBuffer\<close> asserts that the container has no buffer: an empty buffer in its place is an error (\<open>None\<close>).\<close>

definition grow_back :: "(nat \<Rightarrow> byte list) \<Rightarrow> nat \<Rightarrow> alter \<Rightarrow> alter option" where
  "grow_back mem n st =
     (let st1 = st\<lparr>al_cursor := (al_cursor st)\<lparr>cu_pos := add32 (cu_pos (al_cursor st)) n\<rparr>\<rparr> in
      if cu_chunk (al_cursor st) = None then
        if al_buffer st \<noteq> None then None else
        (let cp = min n bufferSize;
             st2 = make_first (new_chunk (mem (al_new st)) 0 cp) cp cp st1
         in extend_back mem (n - cp) (add_size (n - cp) st2))
      else extend_back mem n (add_size n st1))"

definition extend_front :: "(nat \<Rightarrow> byte list) \<Rightarrow> nat \<Rightarrow> alter \<Rightarrow> alter option" where
  "extend_front mem offset st =
     (case cu_chunk (al_cursor st) of None \<Rightarrow> None
      | Some i \<Rightarrow>
          (let cs = al_chunks st; c = cs ! i in
           if ch_begin c > 0 \<and> ch_begin c \<ge> offset then
             Some (set_chunks (cs[i := setBegin (ch_begin c - offset) c]) st)
           else
             (let c1 = (if ch_begin c > 0 then setBegin 0 c else c);
                  (ds, k, r) = fill_front mem (al_new st) (offset - ch_begin c) (c1 # drop (Suc i) cs);
                  cu = (al_cursor st)\<lparr>cu_chunk := Some 0\<rparr>
              in if r \<noteq> 0 then
                   Some (set_chunks (new_chunk (mem k) (bufferSize - r) bufferSize # ds)
                     (st\<lparr>al_new := Suc k, al_cursor := cu\<rparr>))
                 else Some (set_chunks ds (st\<lparr>al_new := k, al_cursor := cu\<rparr>)))))"

definition grow_front :: "(nat \<Rightarrow> byte list) \<Rightarrow> nat \<Rightarrow> alter \<Rightarrow> alter option" where
  "grow_front mem n st =
     (if cu_chunk (al_cursor st) = None then
        (if al_buffer st \<noteq> None then None
         else if n \<le> bufferSize then
           Some (make_first (new_chunk (mem (al_new st)) (bufferSize - n) bufferSize)
             (cu_chunkPos (al_cursor st)) n st)
         else extend_front mem (n - bufferSize) (add_size (n - bufferSize)
             (make_first (new_chunk (mem (al_new st)) 0 bufferSize) (cu_chunkPos (al_cursor st)) bufferSize st)))
      else extend_front mem n (add_size n st))"

text \<open>The offset is an \<open>int32\<close>; the least one cannot be negated, which the code does.\<close>

definition alter_advance :: "(nat \<Rightarrow> byte list) \<Rightarrow> int \<Rightarrow> alter \<Rightarrow> alter option" where
  "alter_advance mem ioffset st =
     (if \<not> al_container st \<and> ioffset \<noteq> 0 \<or> ioffset \<le> - (2 ^ 31) \<or> 2 ^ 31 \<le> ioffset then None
      else case advance (al_chunks st) ioffset (al_cursor st) of (advanced, cu) \<Rightarrow>
        let st1 = st\<lparr>al_cursor := cu\<rparr>; ioffset' = ioffset - advanced in
        if ioffset' > 0 then Option.bind (copyBufferBecauseOfWrite mem st1) (grow_back mem (nat ioffset'))
        else if ioffset' < 0 then Option.bind (copyBufferBecauseOfWrite mem st1) (grow_front mem (nat (- ioffset')))
        else Some st1)"

text \<open>The run of bytes a caller may overwrite in place, and the alter whose buffer they are in.\<close>

definition continuousData4Write :: "(nat \<Rightarrow> byte list) \<Rightarrow> alter \<Rightarrow> (write_pointer \<times> alter) option" where
  "continuousData4Write mem st =
     (case cu_chunk (al_cursor st) of
        None \<Rightarrow> Some (Null, st)
      | Some i \<Rightarrow>
          if chunk_size (al_chunks st ! i) > cu_chunkPos (al_cursor st) then
            Option.bind (copyBufferBecauseOfWrite mem st) (\<lambda>st'.
              case cu_chunk (al_cursor st') of
                None \<Rightarrow> None
              | Some j \<Rightarrow> Some (InChunk j (cu_chunkPos (al_cursor st')), st'))
          else Some (Null, st))"

subsection \<open>What the loops add\<close>

lemma make_first_simps [simp]:
  "al_chunks (make_first c cp n st) = [c]" "al_container (make_first c cp n st) = al_container st"
  "al_buffer (make_first c cp n st) = Some (new_buffer [c] n)"
  "al_cursor (make_first c cp n st) = (al_cursor st)\<lparr>cu_chunk := Some 0, cu_chunkPos := cp\<rparr>"
  by (simp_all add: make_first_def al_chunks_def buf_chunks_def new_buffer_def)

lemma new_full_chunk:
  assumes "length g = bufferSize"
  shows "chunk_ok (new_chunk g 0 bufferSize)" "chunk_size (new_chunk g 0 bufferSize) = bufferSize"
  using assms by (simp_all add: chunk_ok_def new_chunk_def chunk_size_def bufferSize_def)

lemma new_part_chunk:
  assumes "length g = bufferSize" "0 < r" "r \<le> bufferSize"
  shows "chunk_ok (new_chunk g 0 r)" "chunk_size (new_chunk g 0 r) = r"
    and "chunk_ok (new_chunk g (bufferSize - r) bufferSize)" "chunk_size (new_chunk g (bufferSize - r) bufferSize) = r"
proof -
  show "chunk_ok (new_chunk g 0 r)" "chunk_ok (new_chunk g (bufferSize - r) bufferSize)"
    using assms by (auto simp: chunk_ok_def new_chunk_def)
  show "chunk_size (new_chunk g 0 r) = r" "chunk_size (new_chunk g (bufferSize - r) bufferSize) = r"
    using assms by (subst chunk_size_eq; simp add: new_chunk_def)+
qed

lemma fill_back_spec:
  assumes "mem_ok mem" "fill_back mem k offset = (ds, k', r)"
  shows "chunks_ok ds \<and> length (contents ds) + r = offset \<and> r \<le> bufferSize \<and> (0 < offset \<longrightarrow> 0 < r)"
  using assms
proof (induction mem k offset arbitrary: ds rule: fill_back.induct)
  case (1 mem k offset)
  show ?case
  proof (cases "offset > bufferSize")
    case True
    then obtain es where es: "fill_back mem (Suc k) (offset - bufferSize) = (es, k', r)"
      "ds = new_chunk (mem k) 0 bufferSize # es"
      using "1.prems"(2) by (subst (asm) fill_back.simps) (auto split: prod.splits)
    have "length (mem k) = bufferSize"
      using "1.prems"(1) by (simp add: mem_ok_def)
    with "1.IH" [OF True "1.prems"(1) es(1)] es(2) True show ?thesis
      using new_full_chunk [of "mem k"] by (auto simp: length_chunk_content)
  next
    case False
    with "1.prems"(2) show ?thesis
      by (subst (asm) fill_back.simps) auto
  qed
qed

lemma fill_front_spec:
  assumes "mem_ok mem" "chunks_ok cs" "fill_front mem k offset cs = (ds, k', r)"
  shows "\<exists>es. ds = es @ cs \<and> chunks_ok es \<and> length (contents es) + r = offset \<and> r \<le> bufferSize \<and>
     (0 < offset \<longrightarrow> 0 < r)"
  using assms
proof (induction mem k offset cs rule: fill_front.induct)
  case (1 mem k offset cs)
  show ?case
  proof (cases "offset > bufferSize")
    case True
    let ?c = "new_chunk (mem k) 0 bufferSize"
    have c: "chunk_ok ?c" "chunk_size ?c = bufferSize"
      using "1.prems"(1) new_full_chunk [of "mem k"] by (simp_all add: mem_ok_def)
    have "fill_front mem (Suc k) (offset - bufferSize) (?c # cs) = (ds, k', r)"
      using "1.prems"(3) True by (subst (asm) fill_front.simps) simp
    from "1.IH" [OF True "1.prems"(1) _ this] c "1.prems"(2) obtain es where
      "ds = (es @ [?c]) @ cs" "chunks_ok es" "length (contents es) + r = offset - bufferSize" "r \<le> bufferSize"
      "0 < offset - bufferSize \<longrightarrow> 0 < r"
      by auto
    then show ?thesis
      using c True by (intro exI [of _ "es @ [?c]"]) (simp add: length_chunk_content)
  next
    case False
    with "1.prems"(3) show ?thesis
      by (subst (asm) fill_front.simps) auto
  qed
qed

lemma setEnd_same: "setEnd (ch_end c) c = c"
  by (cases c) (simp add: setEnd_def)

lemma grow_end:
  assumes "chunk_ok c" "ch_end c + n \<le> bufferSize"
  shows "chunk_ok (setEnd (ch_end c + n) c)"
    and "\<exists>xs. chunk_content (setEnd (ch_end c + n) c) = chunk_content c @ xs \<and> length xs = n"
    and "chunk_size (setEnd (ch_end c + n) c) = chunk_size c + n"
proof -
  show ok: "chunk_ok (setEnd (ch_end c + n) c)"
    using assms by (simp add: chunk_ok_def setEnd_def)
  show size: "chunk_size (setEnd (ch_end c + n) c) = chunk_size c + n"
    using assms(1) by (subst (1 2) chunk_size_ok) (auto simp: ok, simp_all add: chunk_ok_def setEnd_def)
  have "chunk_content c = take (chunk_size c) (chunk_content (setEnd (ch_end c + n) c))"
    by (simp add: chunk_content_def size) (simp add: chunk_data_def setEnd_def)
  then show "\<exists>xs. chunk_content (setEnd (ch_end c + n) c) = chunk_content c @ xs \<and> length xs = n"
    using length_chunk_content [OF ok] size
    by (intro exI [of _ "drop (chunk_size c) (chunk_content (setEnd (ch_end c + n) c))"])
       (metis append_take_drop_id diff_add_inverse length_drop)
qed

lemma grow_begin:
  assumes "chunk_ok c" "n \<le> ch_begin c"
  shows "chunk_ok (setBegin (ch_begin c - n) c)"
    and "\<exists>xs. chunk_content (setBegin (ch_begin c - n) c) = xs @ chunk_content c \<and> length xs = n"
    and "chunk_size (setBegin (ch_begin c - n) c) = n + chunk_size c"
proof -
  show ok: "chunk_ok (setBegin (ch_begin c - n) c)"
    using assms by (auto simp: chunk_ok_def setBegin_def)
  show size: "chunk_size (setBegin (ch_begin c - n) c) = n + chunk_size c"
    using assms by (subst (1 2) chunk_size_ok) (auto simp: ok, simp_all add: chunk_ok_def setBegin_def)
  have "drop n (chunk_content (setBegin (ch_begin c - n) c)) = chunk_content c"
    using assms(2) by (simp add: chunk_content_def size drop_take) (simp add: chunk_data_def setBegin_def)
  then show "\<exists>xs. chunk_content (setBegin (ch_begin c - n) c) = xs @ chunk_content c \<and> length xs = n"
    using length_chunk_content [OF ok] size
    by (intro exI [of _ "take n (chunk_content (setBegin (ch_begin c - n) c))"])
       (metis append_take_drop_id length_take le_add1 min_absorb2)
qed

text \<open>A changed chunk list that the cursor's end of the container has been moved along with.\<close>

definition at_last :: "chunk list \<Rightarrow> cursor \<Rightarrow> bool" where
  "at_last cs cu \<longleftrightarrow> cs \<noteq> [] \<and> cu_chunk cu = Some (length cs - 1) \<and> cu_chunkPos cu = chunk_size (last cs)"

lemma extend_back_spec:
  assumes mem: "mem_ok mem" and cs: "chunks_ok (al_chunks st)" and last: "at_last (al_chunks st) (al_cursor st)"
  shows "\<exists>st' cs' xs. extend_back mem offset st = Some st' \<and> al_chunks st' = cs' \<and> chunks_ok cs' \<and>
     contents cs' = contents (al_chunks st) @ xs \<and> length xs = offset \<and> at_last cs' (al_cursor st') \<and>
     cu_pos (al_cursor st') = cu_pos (al_cursor st) \<and> al_buffer st' = al_buffer (set_chunks cs' st) \<and>
     al_container st' = al_container st \<and> al_prep st' = al_prep st"
proof -
  let ?cs = "al_chunks st"
  define c where "c = last ?cs"
  define i where "i = length ?cs - 1"
  define space where "space = bufferSize - ch_end c"
  have ne: "?cs \<noteq> []" and cu: "cu_chunk (al_cursor st) = Some i" "cu_chunkPos (al_cursor st) = chunk_size c"
    using last by (simp_all add: at_last_def c_def i_def)
  have c: "chunk_ok c" "?cs ! i = c"
    using cs ne by (simp_all add: chunks_ok_def last_conv_nth c_def i_def)
  have front: "chunks_ok (butlast ?cs)" "contents ?cs = contents (butlast ?cs) @ chunk_content c"
    using cs ne append_butlast_last_id [OF ne] unfolding c_def
    by (metis chunks_ok_simps(3), metis contents_simps append_Nil2)
  have upd: "?cs[i := d] = butlast ?cs @ [d]" for d
    using ne unfolding i_def by (metis append_butlast_last_id length_butlast list_update_length)
  have sp: "bufferSize - chunk_size c - ch_begin c = space"
    using c(1) by (simp add: space_def chunk_size_ok) (simp add: chunk_ok_def)
  have eb: "extend_back mem offset st =
     (if space > 0 \<and> space \<ge> offset then
        Some (set_chunks (?cs[i := setEnd (ch_end c + (offset - (chunk_size c - chunk_size c))) c])
          (st\<lparr>al_cursor := (al_cursor st)\<lparr>cu_chunkPos := chunk_size c + (offset - (chunk_size c - chunk_size c))\<rparr>\<rparr>))
      else case fill_back mem (al_new st) (offset - space) of (ds, k, r) \<Rightarrow>
        let cs2 = take (Suc i) (if space > 0 then ?cs[i := setEnd bufferSize c] else ?cs) @ ds in
        if r \<noteq> 0 then
          Some (set_chunks (cs2 @ [new_chunk (mem k) 0 r])
            (st\<lparr>al_new := Suc k, al_cursor := (al_cursor st)\<lparr>cu_chunk := Some (length cs2), cu_chunkPos := r\<rparr>\<rparr>))
        else
          Some (set_chunks cs2
            (st\<lparr>al_new := k, al_cursor := (al_cursor st)\<lparr>cu_chunk := Some (length cs2 - 1),
                cu_chunkPos := chunk_size (last cs2)\<rparr>\<rparr>)))"
    by (simp only: extend_back_def cu option.case Let_def c(2) sp)
  have chunks: "al_chunks (set_chunks ds (st\<lparr>al_new := k, al_cursor := cv\<rparr>)) = ds"
    "al_chunks (set_chunks ds (st\<lparr>al_cursor := cv\<rparr>)) = ds"
    "al_buffer (set_chunks ds (st\<lparr>al_new := k, al_cursor := cv\<rparr>)) = al_buffer (set_chunks ds st)"
    "al_buffer (set_chunks ds (st\<lparr>al_cursor := cv\<rparr>)) = al_buffer (set_chunks ds st)" for ds k cv
    using ne by (simp_all) (simp_all add: set_chunks_def)
  show ?thesis
  proof (cases "space > 0 \<and> space \<ge> offset")
    case True
    let ?c' = "setEnd (ch_end c + offset) c"
    let ?cu = "(al_cursor st)\<lparr>cu_chunkPos := chunk_size c + offset\<rparr>"
    have "ch_end c + offset \<le> bufferSize"
      using True by (auto simp: space_def)
    note g = grow_end [OF c(1) this]
    have "extend_back mem offset st = Some (set_chunks (butlast ?cs @ [?c']) (st\<lparr>al_cursor := ?cu\<rparr>))"
      using True by (simp add: eb upd)
    with g front cu show ?thesis
      by (auto simp: at_last_def chunks i_def)
  next
    case False
    obtain ds k r where fill: "fill_back mem (al_new st) (offset - space) = (ds, k, r)"
      by (cases "fill_back mem (al_new st) (offset - space)") auto
    note f = fill_back_spec [OF mem fill]
    let ?c' = "setEnd (ch_end c + space) c"
    have "ch_end c + space = bufferSize"
      using c(1) by (simp add: space_def chunk_ok_def)
    then have cs1: "(if space > 0 then ?cs[i := setEnd bufferSize c] else ?cs) = butlast ?cs @ [?c']"
      using upd [of c] c(2) list_update_id [of ?cs i] setEnd_same [of c] by (auto simp: upd)
    note g = grow_end [OF c(1) eq_imp_le [OF \<open>ch_end c + space = bufferSize\<close>]]
    let ?cs2 = "butlast ?cs @ [?c'] @ ds"
    have "length (butlast ?cs @ [?c']) \<le> Suc i"
      by (simp add: i_def)
    then have tk: "take (Suc i) (butlast ?cs @ [?c']) @ ds = ?cs2"
      by (simp only: take_all) simp
    have le: "space \<le> offset"
      using False by auto
    obtain xs where xs: "chunk_content ?c' = chunk_content c @ xs" "length xs = space"
      using g(2) by blast
    show ?thesis
    proof (cases "r = 0")
      case True
      then have "ds = []"
        using f by (metis False fill add.right_neutral fill_back.simps le_zero_eq length_0_conv
          length_greater_0_conv not_gr_zero prod.inject not_less0)
      let ?cu = "(al_cursor st)\<lparr>cu_chunk := Some (length ?cs2 - 1), cu_chunkPos := chunk_size (last ?cs2)\<rparr>"
      have "extend_back mem offset st = Some (set_chunks ?cs2 (st\<lparr>al_new := k, al_cursor := ?cu\<rparr>))"
        unfolding eb if_not_P [OF False] fill cs1 prod.case tk using True by (simp add: Let_def)
      moreover have "contents ?cs2 = contents ?cs @ xs" "chunks_ok ?cs2" "at_last ?cs2 ?cu"
        using g(1) xs(1) front \<open>ds = []\<close> by (simp_all add: at_last_def)
      moreover have "offset - space = 0"
        using conjunct1 [OF conjunct2 [OF f]] True \<open>ds = []\<close> by simp
      then have "length xs = offset"
        using xs(2) le by linarith
      ultimately show ?thesis
        by (intro exI [of _ "set_chunks ?cs2 (st\<lparr>al_new := k, al_cursor := ?cu\<rparr>)"] exI [of _ ?cs2] exI [of _ xs])
           (simp add: chunks del: append_assoc)
    next
      case False2: False
      let ?p = "new_chunk (mem k) 0 r"
      have p: "chunk_ok ?p" "chunk_size ?p = r"
        using mem f False2 by (simp_all add: mem_ok_def new_part_chunk)
      let ?cu = "(al_cursor st)\<lparr>cu_chunk := Some (length ?cs2), cu_chunkPos := r\<rparr>"
      have "extend_back mem offset st = Some (set_chunks (?cs2 @ [?p]) (st\<lparr>al_new := Suc k, al_cursor := ?cu\<rparr>))"
        unfolding eb if_not_P [OF False] fill cs1 prod.case tk using False2 by (simp add: Let_def)
      moreover let ?xs = "xs @ contents ds @ chunk_content ?p" and ?cs3 = "?cs2 @ [?p]"
      have "contents ?cs3 = contents ?cs @ ?xs" "chunks_ok ?cs3" "length ?xs = offset" "at_last ?cs3 ?cu"
        using p f g(1) xs front le by (simp_all add: at_last_def length_chunk_content)
      ultimately show ?thesis
        by (intro exI [of _ "set_chunks ?cs3 (st\<lparr>al_new := Suc k, al_cursor := ?cu\<rparr>)"] exI [of _ ?cs3] exI [of _ ?xs])
           (simp add: chunks del: append_assoc)
    qed
  qed
qed

lemma extend_front_spec:
  assumes mem: "mem_ok mem" and cs: "chunks_ok (al_chunks st)" "al_chunks st \<noteq> []"
    and cu: "cu_chunk (al_cursor st) = Some 0"
  shows "\<exists>st' cs' xs. extend_front mem offset st = Some st' \<and> al_chunks st' = cs' \<and> chunks_ok cs' \<and> cs' \<noteq> [] \<and>
     contents cs' = xs @ contents (al_chunks st) \<and> length xs = offset \<and>
     al_cursor st' = al_cursor st \<and> al_buffer st' = al_buffer (set_chunks cs' st) \<and>
     al_container st' = al_container st \<and> al_prep st' = al_prep st"
proof -
  obtain c ds where c: "al_chunks st = c # ds" "chunk_ok c" "chunks_ok ds"
    using cs by (cases "al_chunks st") auto
  have same: "(al_cursor st)\<lparr>cu_chunk := Some 0\<rparr> = al_cursor st"
    using cu by (simp add: cursor.surjective)
  have eb: "extend_front mem offset st =
     (if ch_begin c > 0 \<and> ch_begin c \<ge> offset then Some (set_chunks (setBegin (ch_begin c - offset) c # ds) st)
      else case fill_front mem (al_new st) (offset - ch_begin c)
          ((if ch_begin c > 0 then setBegin 0 c else c) # ds) of (es, k, r) \<Rightarrow>
        if r \<noteq> 0 then
          Some (set_chunks (new_chunk (mem k) (bufferSize - r) bufferSize # es)
            (st\<lparr>al_new := Suc k, al_cursor := al_cursor st\<rparr>))
        else Some (set_chunks es (st\<lparr>al_new := k, al_cursor := al_cursor st\<rparr>)))"
    by (simp only: extend_front_def cu option.case Let_def c(1) same) simp
  have chunks: "al_chunks (set_chunks es (st\<lparr>al_new := k\<rparr>)) = es" "al_chunks (set_chunks es st) = es"
    "al_buffer (set_chunks es (st\<lparr>al_new := k\<rparr>)) = al_buffer (set_chunks es st)" for es k
    using cs(2) by (simp_all) (simp add: set_chunks_def)
  have same2: "st\<lparr>al_new := k, al_cursor := al_cursor st\<rparr> = st\<lparr>al_new := k\<rparr>" for k
    by (simp add: alter.surjective)
  show ?thesis
  proof (cases "ch_begin c > 0 \<and> ch_begin c \<ge> offset")
    case True
    with grow_begin [OF c(2), of offset] c show ?thesis
      by (auto simp: eb chunks)
  next
    case False
    let ?c' = "setBegin (ch_begin c - ch_begin c) c"
    note g = grow_begin [OF c(2) order.refl]
    have c': "(if ch_begin c > 0 then setBegin 0 c else c) = ?c'"
      by (auto simp: setBegin_def)
    obtain es k r where fill: "fill_front mem (al_new st) (offset - ch_begin c) (?c' # ds) = (es, k, r)"
      by (cases "fill_front mem (al_new st) (offset - ch_begin c) (?c' # ds)") auto
    have "chunks_ok (?c' # ds)"
      using g(1) c(3) by simp
    from fill_front_spec [OF mem this fill] obtain hs where hs: "es = hs @ ?c' # ds" "chunks_ok hs"
      "length (contents hs) + r = offset - ch_begin c" "r \<le> bufferSize" by auto
    obtain xs where xs: "chunk_content ?c' = xs @ chunk_content c" "length xs = ch_begin c"
      using g(2) by blast
    have le: "ch_begin c \<le> offset"
      using False by auto
    show ?thesis
    proof (cases "r = 0")
      case True
      have "extend_front mem offset st = Some (set_chunks es (st\<lparr>al_new := k\<rparr>))"
        using False True unfolding eb c' fill by (auto simp: same2)
      with hs xs le True g(1) c show ?thesis
        by (auto simp: chunks)
    next
      case False2: False
      let ?p = "new_chunk (mem k) (bufferSize - r) bufferSize"
      have p: "chunk_ok ?p" "chunk_size ?p = r"
        using mem hs(4) False2 by (simp_all add: mem_ok_def new_part_chunk)
      have "extend_front mem offset st = Some (set_chunks (?p # es) (st\<lparr>al_new := Suc k\<rparr>))"
        using False False2 unfolding eb c' fill by (auto simp: same2)
      with hs xs le p g(1) c show ?thesis
        by (auto simp: chunks length_chunk_content)
    qed
  qed
qed

subsection \<open>What growing does\<close>

lemma at_last_ok:
  assumes "chunks_ok cs" "at_last cs cu" "cu_pos cu = length (contents cs)"
  shows "cursor_ok cs cu"
  using assms start_of_last [OF assms(1), of "length cs - 1"]
  by (simp add: at_last_def cursor_ok_def last_conv_nth)

lemma at_last_intro:
  assumes "cursor_good cs cu" "cu_pos cu = length (contents cs)" "cu_chunk cu \<noteq> None"
  shows "at_last cs cu"
proof -
  obtain i where i: "cu_chunk cu = Some i" "i < length cs" "cu_chunkPos cu \<le> chunk_size (cs ! i)"
    "cu_pos cu = start_of cs i + cu_chunkPos cu" "cu_chunkPos cu < chunk_size (cs ! i) \<or> Suc i = length cs"
    using assms(1,3) by (auto simp: cursor_good_def cursor_ok_def cursor_normal_def)
  have ok: "chunks_ok cs"
    using assms(1) by (simp add: cursor_good_def)
  have last: "Suc i = length cs"
    using start_of_le [OF ok i(2)] i assms(2) by auto
  then have "cu_chunkPos cu = chunk_size (cs ! i)"
    using start_of_last [OF ok last] i(4) assms(2) by simp
  moreover have "i = length cs - 1" "cs \<noteq> []"
    using last by auto
  ultimately show ?thesis
    using i(1) by (simp add: at_last_def last_conv_nth)
qed

text \<open>The end state of both directions: the chunks grew by as much as the size was counted up.\<close>

lemma grown_ok:
  assumes "al_container st'" "chunks_ok (al_chunks st')" "al_buffer st' = al_buffer (set_chunks (al_chunks st') st3)"
    and "al_buffer st3 = Some b" "bf_size b = length (contents (al_chunks st'))" "bf_size b < 2 ^ 32"
    and "cursor_ok (al_chunks st') (al_cursor st')"
  shows "alter_ok st'"
  using assms by (simp add: alter_ok_def bytes_ok_def buffer_ok_def set_chunks_def)

lemma grow_back_spec:
  assumes ok: "alter_ok st" "cursor_normal (al_chunks st) (al_cursor st)" and mem: "mem_ok mem"
    and at_end: "alter_pos st = length (alter_value st)" and n: "alter_pos st + n < 2 ^ 32" "0 < n"
    and fresh: "al_chunks st = [] \<longrightarrow> al_buffer st = None"
  shows "\<exists>st' xs. grow_back mem n st = Some st' \<and> alter_ok st' \<and> alter_value st' = alter_value st @ xs \<and>
     length xs = n \<and> alter_pos st' = alter_pos st + n"
proof -
  let ?p = "alter_pos st + n"
  let ?st1 = "st\<lparr>al_cursor := (al_cursor st)\<lparr>cu_pos := ?p\<rparr>\<rparr>"
  have pos: "add32 (cu_pos (al_cursor st)) n = ?p"
    using n(1) by (simp add: alter_pos_def add32_eq)
  have grown: ?thesis
    if h: "grow_back mem n st = extend_back mem m st3" "chunks_ok (al_chunks st3)" "at_last (al_chunks st3) (al_cursor st3)"
      "al_container st3" "al_buffer st3 = Some b" "bf_size b = ?p" "cu_pos (al_cursor st3) = ?p"
      "contents (al_chunks st3) = alter_value st @ ys" "length ys + m = n" for st3 m b ys
  proof -
    obtain st' cs' xs where e: "extend_back mem m st3 = Some st'" "al_chunks st' = cs'" "chunks_ok cs'"
      "contents cs' = contents (al_chunks st3) @ xs" "length xs = m" "at_last cs' (al_cursor st')"
      "cu_pos (al_cursor st') = cu_pos (al_cursor st3)" "al_buffer st' = al_buffer (set_chunks cs' st3)"
      "al_container st' = al_container st3"
      using extend_back_spec [OF mem h(2,3), of m] by blast
    have len: "length (contents cs') = ?p"
      using e(4,5) h(8,9) at_end by simp
    have "alter_ok st'"
      using e h n(1) len by (intro grown_ok [of st' st3 b]) (simp_all add: at_last_ok)
    moreover have "alter_value st' = alter_value st @ ys @ xs"
      using e h(8) by (simp add: alter_value_chunks)
    ultimately show ?thesis
      using h e by (intro exI [of _ st'] exI [of _ "ys @ xs"]) (simp add: alter_pos_def)
  qed
  show ?thesis
  proof (cases "cu_chunk (al_cursor st)")
    case None
    then have nil: "al_chunks st = []" "alter_pos st = 0"
      using ok(1) by (simp_all add: alter_ok_def cursor_ok_def alter_pos_def)
    define cp where "cp = min n bufferSize"
    let ?c = "new_chunk (mem (al_new st)) 0 cp"
    have c: "chunk_ok ?c" "chunk_size ?c = cp"
      using mem n(2) by (auto intro!: new_part_chunk simp: mem_ok_def cp_def bufferSize_def)
    let ?st2 = "make_first ?c cp cp ?st1"
    let ?st3 = "add_size (n - cp) ?st2"
    have cpn: "cp \<le> n"
      by (simp add: cp_def)
    have "grow_back mem n st = extend_back mem (n - cp) ?st3"
      using None pos fresh nil(1) by (simp add: grow_back_def Let_def cp_def)
    moreover have "al_buffer ?st3 = Some (addSize (n - cp) (new_buffer [?c] cp))"
      by (simp add: add_size_def make_first_def)
    moreover have "al_chunks ?st3 = [?c]"
      by simp
    moreover have "bf_size (addSize (n - cp) (new_buffer [?c] cp)) = ?p"
      using nil n(1) cpn by (simp add: addSize_def new_buffer_def add32_eq)
    ultimately show ?thesis
      using c nil cpn ok(1)
      by (intro grown [of "n - cp" ?st3 _ "chunk_content ?c"])
         (simp_all add: at_last_def make_first_def alter_value_chunks length_chunk_content alter_ok_def)
  next
    case (Some i)
    let ?st3 = "add_size n ?st1"
    have "cursor_good (al_chunks st) (al_cursor st)"
      using ok alter_chunks_ok by (simp add: cursor_good_def alter_ok_def)
    then have "at_last (al_chunks st) (al_cursor st)"
      using at_end Some by (intro at_last_intro) (simp_all add: alter_pos_def alter_value_chunks)
    then have last: "at_last (al_chunks st) (al_cursor ?st3)" "al_chunks st \<noteq> []"
      by (simp_all add: at_last_def)
    then obtain b where b: "al_buffer st = Some b"
      using al_buffer_of_chunk by auto
    have size: "bf_size b = length (alter_value st)"
      using ok(1) b by (simp add: alter_ok_def bytes_ok_def buffer_ok_def alter_value_def value_of_def buf_chunks_def)
    have "grow_back mem n st = extend_back mem n ?st3"
      using Some pos by (simp add: grow_back_def Let_def)
    moreover have "al_buffer ?st3 = Some (addSize n b)"
      using b by (simp add: add_size_def)
    moreover have "bf_size (addSize n b) = ?p"
      using size at_end n(1) by (simp add: addSize_def add32_eq)
    ultimately show ?thesis
      using last ok(1) alter_chunks_ok [OF ok(1)]
      by (intro grown [of n ?st3 _ "[]"]) (simp_all add: alter_value_chunks alter_ok_def)
  qed
qed

lemma grow_front_spec:
  assumes ok: "alter_ok st" and mem: "mem_ok mem"
    and at: "alter_pos st = 0" "cu_chunk (al_cursor st) = None \<or> cu_chunk (al_cursor st) = Some 0"
    and n: "length (alter_value st) + n < 2 ^ 32" "0 < n"
    and fresh: "al_chunks st = [] \<longrightarrow> al_buffer st = None"
  shows "\<exists>st' xs. grow_front mem n st = Some st' \<and> alter_ok st' \<and> alter_value st' = xs @ alter_value st \<and>
     length xs = n \<and> alter_pos st' = 0"
proof -
  have zero: "cu_chunkPos (al_cursor st) = 0" "cu_pos (al_cursor st) = 0"
    using ok at by (auto simp: alter_ok_def cursor_ok_def alter_pos_def split: option.splits)
  have grown: ?thesis
    if h: "grow_front mem n st = extend_front mem m st3" "chunks_ok (al_chunks st3)" "al_chunks st3 \<noteq> []"
      "al_cursor st3 = \<lparr>cu_chunk = Some 0, cu_chunkPos = 0, cu_pos = 0\<rparr>"
      "al_container st3" "al_buffer st3 = Some b" "bf_size b = length (alter_value st) + n"
      "contents (al_chunks st3) = ys @ alter_value st" "m + length ys = n" for st3 m b ys
  proof -
    have "cu_chunk (al_cursor st3) = Some 0"
      using h(4) by simp
    from extend_front_spec [OF mem h(2,3) this, of m] obtain st' cs' xs where
      e: "extend_front mem m st3 = Some st'" "al_chunks st' = cs'" "chunks_ok cs'" "cs' \<noteq> []"
      "contents cs' = xs @ contents (al_chunks st3)" "length xs = m" "al_cursor st' = al_cursor st3"
      "al_buffer st' = al_buffer (set_chunks cs' st3)" "al_container st' = al_container st3"
      by blast
    have "cursor_ok cs' (al_cursor st')"
      using e(4,7) h(4) by (simp add: cursor_ok_def)
    moreover have "length (contents cs') = length (alter_value st) + n"
      using e(5,6) h(8,9) by simp
    ultimately have "alter_ok st'"
      using e h n(1) by (intro grown_ok [of st' st3 b]) simp_all
    moreover have "alter_value st' = (xs @ ys) @ alter_value st"
      using e h(8) by (simp add: alter_value_chunks)
    ultimately show ?thesis
      using h e by (intro exI [of _ st'] exI [of _ "xs @ ys"]) (simp add: alter_pos_def)
  qed
  show ?thesis
  proof (cases "cu_chunk (al_cursor st)")
    case None
    then have nil: "al_chunks st = []" "alter_value st = []"
      using ok by (simp_all add: alter_ok_def cursor_ok_def alter_value_chunks)
    show ?thesis
    proof (cases "n \<le> bufferSize")
      case True
      let ?c = "new_chunk (mem (al_new st)) (bufferSize - n) bufferSize"
      let ?st' = "make_first ?c 0 n st"
      have c: "chunk_ok ?c" "chunk_size ?c = n"
        using mem n(2) True by (auto intro!: new_part_chunk simp: mem_ok_def)
      have "grow_front mem n st = Some ?st'"
        using None True zero fresh nil(1) by (simp add: grow_front_def)
      moreover have "alter_ok ?st'"
        using c ok n(1) zero
        by (simp add: alter_ok_def bytes_ok_def buffer_ok_def new_buffer_def length_chunk_content cursor_ok_def)
      ultimately show ?thesis
        using c zero nil
        by (intro exI [of _ ?st'] exI [of _ "chunk_content ?c"])
           (simp add: alter_value_chunks length_chunk_content alter_pos_def)
    next
      case False
      let ?c = "new_chunk (mem (al_new st)) 0 bufferSize"
      let ?st3 = "add_size (n - bufferSize) (make_first ?c 0 bufferSize st)"
      have c: "chunk_ok ?c" "chunk_size ?c = bufferSize"
        using mem by (auto intro!: new_full_chunk simp: mem_ok_def)
      have "grow_front mem n st = extend_front mem (n - bufferSize) ?st3"
        using None False zero fresh nil(1) by (simp add: grow_front_def)
      moreover have "al_buffer ?st3 = Some (addSize (n - bufferSize) (new_buffer [?c] bufferSize))"
        by (simp add: add_size_def)
      moreover have "bf_size (addSize (n - bufferSize) (new_buffer [?c] bufferSize)) = n"
        using n(1) False by (simp add: addSize_def new_buffer_def add32_eq)
      ultimately show ?thesis
        using c nil False ok zero
        by (intro grown [of "n - bufferSize" ?st3 _ "chunk_content ?c"])
           (simp_all add: length_chunk_content alter_ok_def)
    qed
  next
    case (Some i)
    let ?st3 = "add_size n st"
    have i: "i = 0" "al_chunks st \<noteq> []"
      using at(2) Some ok by (auto simp: alter_ok_def cursor_ok_def)
    then obtain b where b: "al_buffer st = Some b"
      using al_buffer_of_chunk by auto
    have size: "bf_size b = length (alter_value st)"
      using ok b by (simp add: alter_ok_def bytes_ok_def buffer_ok_def alter_value_def value_of_def buf_chunks_def)
    have "grow_front mem n st = extend_front mem n ?st3"
      using Some by (simp add: grow_front_def)
    moreover have "al_buffer ?st3 = Some (addSize n b)"
      using b by (simp add: add_size_def)
    moreover have "bf_size (addSize n b) = length (alter_value st) + n"
      using size n(1) by (simp add: addSize_def add32_eq)
    moreover have "al_cursor ?st3 = \<lparr>cu_chunk = Some 0, cu_chunkPos = 0, cu_pos = 0\<rparr>"
      using Some i zero by (simp add: cursor.equality)
    ultimately show ?thesis
      using i ok alter_chunks_ok [OF ok]
      by (intro grown [of n ?st3 _ "[]"]) (simp_all add: alter_value_chunks alter_ok_def)
  qed
qed

lemma cursor_ok_at_0:
  assumes "chunks_ok cs" "cursor_ok cs cu" "cu_pos cu = 0"
  shows "cu_chunk cu = None \<or> cu_chunk cu = Some 0"
proof (cases "cu_chunk cu")
  case (Some i)
  with assms have i: "i < length cs" "start_of cs i = 0"
    by (simp_all add: cursor_ok_def)
  have "i = 0"
  proof (rule ccontr)
    assume "i \<noteq> 0"
    then obtain k where k: "i = Suc k" by (cases i) auto
    with i start_of_Suc [of k cs] chunk_size_pos [OF chunks_ok_nth [OF assms(1), of k]] show False
      by simp
  qed
  with Some show ?thesis by simp
qed simp

lemma copyBuffer_unshared: "alter_share st \<le> 1 \<Longrightarrow> copyBufferBecauseOfWrite mem st = Some st"
  by (auto simp: copyBufferBecauseOfWrite_def alter_share_def split: option.splits)

lemma copyBuffer_fresh:
  assumes "alter_ok st" "cow_ok st" "al_chunks st = [] \<longrightarrow> al_buffer st = None"
    "copyBufferBecauseOfWrite mem st = Some s1" "alter_value s1 = alter_value st"
  shows "al_chunks s1 = [] \<longrightarrow> al_buffer s1 = None"
proof (cases "alter_share st > 1")
  case True
  then have "alter_value s1 \<noteq> []" using assms(2,5) by (simp add: cow_ok_def)
  then show ?thesis by (auto simp: alter_value_chunks)
next
  case False
  then have "s1 = st" using assms(4) copyBuffer_unshared [of st mem] by simp
  then show ?thesis using assms(3) by simp
qed

lemma nat_sum_less: "0 \<le> k \<Longrightarrow> int m + k < 2 ^ 32 \<Longrightarrow> m + nat k < 2 ^ 32"
  by (simp add: nat_less_iff flip: of_nat_less_iff [where 'a = int])

text \<open>Growing at either end, on a copy of the buffer where it is shared.\<close>

lemma grow_back_copied:
  assumes "alter_ok st" "mem_ok mem" "cow_ok st" "al_chunks st = [] \<longrightarrow> al_buffer st = None" "0 < n"
    and "alter_pos st = length (alter_value st)" "cursor_normal (al_chunks st) (al_cursor st)"
    and "length (alter_value st) + n < 2 ^ 32"
  shows "\<exists>st' xs. Option.bind (copyBufferBecauseOfWrite mem st) (grow_back mem n) = Some st' \<and> alter_ok st' \<and>
     alter_value st' = alter_value st @ xs \<and> length xs = n \<and> alter_pos st' = alter_pos st + n"
proof -
  obtain s1 where s1: "copyBufferBecauseOfWrite mem st = Some s1" "alter_ok s1"
    "alter_value s1 = alter_value st" "alter_pos s1 = alter_pos st" "cursor_normal (al_chunks s1) (al_cursor s1)"
    using copyBuffer_spec [OF assms(1-3)] assms(7) by auto
  have "\<exists>st' xs. grow_back mem n s1 = Some st' \<and> alter_ok st' \<and> alter_value st' = alter_value s1 @ xs \<and>
      length xs = n \<and> alter_pos st' = alter_pos s1 + n"
    using s1 assms copyBuffer_fresh [OF assms(1,3,4) s1(1)] by (intro grow_back_spec) auto
  then show ?thesis using s1 by simp
qed

lemma grow_front_copied:
  assumes "alter_ok st" "mem_ok mem" "cow_ok st" "al_chunks st = [] \<longrightarrow> al_buffer st = None" "0 < n"
    and "alter_pos st = 0" "length (alter_value st) + n < 2 ^ 32"
  shows "\<exists>st' xs. Option.bind (copyBufferBecauseOfWrite mem st) (grow_front mem n) = Some st' \<and> alter_ok st' \<and>
     alter_value st' = xs @ alter_value st \<and> length xs = n \<and> alter_pos st' = 0"
proof -
  obtain s1 where s1: "copyBufferBecauseOfWrite mem st = Some s1" "alter_ok s1"
    "alter_value s1 = alter_value st" "alter_pos s1 = 0"
    using copyBuffer_spec [OF assms(1-3)] assms(6) by auto
  have "cu_chunk (al_cursor s1) = None \<or> cu_chunk (al_cursor s1) = Some 0"
    using s1(2,4) alter_chunks_ok by (intro cursor_ok_at_0) (auto simp: alter_ok_def alter_pos_def)
  then have "\<exists>st' xs. grow_front mem n s1 = Some st' \<and> alter_ok st' \<and> alter_value st' = xs @ alter_value s1 \<and>
      length xs = n \<and> alter_pos st' = 0"
    using s1 assms copyBuffer_fresh [OF assms(1,3,4) s1(1)] by (intro grow_front_spec) auto
  then show ?thesis using s1 by simp
qed

text \<open>C6. Moving an alter by a signed offset ends exactly at the target: where the target lies before the
  beginning or behind the end, the container grows there by exactly the missing bytes, its former bytes
  stay in order, and the chunk list keeps its invariants. This is for offsets of magnitude below 2^31 and
  less than 2^32 bytes in the end, for a container that has no buffer or one with chunks (growing from an
  empty buffer violates what \<open>Container::setBuffer\<close> asserts), and whose buffer, if it is shared, is not
  empty and holds less than 2^31 bytes.\<close>

theorem alter_advance_grows:
  assumes ok: "alter_ok st" and mem: "mem_ok mem" and cow: "cow_ok st"
    and fresh: "al_chunks st = [] \<longrightarrow> al_buffer st = None"
    and int32: "\<bar>offset\<bar> < 2 ^ 31" and bound: "int (length (alter_value st)) + \<bar>offset\<bar> < 2 ^ 32"
  shows "\<exists>st' pre post. alter_advance mem offset st = Some st' \<and> alter_ok st' \<and>
     alter_value st' = pre @ alter_value st @ post \<and>
     int (length pre) = max 0 (- (int (alter_pos st) + offset)) \<and>
     int (length post) = max 0 (int (alter_pos st) + offset - int (length (alter_value st))) \<and>
     int (alter_pos st') = max 0 (int (alter_pos st) + offset)"
proof -
  let ?cs = "al_chunks st" let ?len = "length (alter_value st)"
  obtain d cu where a: "advance ?cs offset (al_cursor st) = (d, cu)"
    by (cases "advance ?cs offset (al_cursor st)") auto
  have cs: "chunks_ok ?cs" "cursor_ok ?cs (al_cursor st)" "al_container st" "bytes_ok (al_buffer st)"
    using ok alter_chunks_ok by (simp_all add: alter_ok_def)
  note adv = advance_spec [OF cs(1,2) a]
  let ?st1 = "st\<lparr>al_cursor := cu\<rparr>"
  have st1: "alter_ok ?st1" "alter_value ?st1 = alter_value st" "cow_ok ?st1" "alter_pos ?st1 = cu_pos cu"
    using adv(1) cs cow by (simp_all add: alter_ok_def alter_value_def cow_ok_def alter_pos_def)
  have fr: "al_chunks ?st1 = [] \<longrightarrow> al_buffer ?st1 = None"
    using fresh by simp
  have p: "int (cu_pos cu) = max 0 (min (int (alter_pos st) + offset) (int ?len))"
    "d = int (cu_pos cu) - int (alter_pos st)"
    using adv(2,3) by (simp_all add: alter_value_chunks alter_pos_def)
  have le: "alter_pos st \<le> ?len"
    using ok by (rule alter_pos_le)
  have small: "\<not> offset \<le> - (2 ^ 31)" "\<not> 2 ^ 31 \<le> offset"
    using int32 by linarith+
  have unf: "alter_advance mem offset st =
     (if offset - d > 0 then Option.bind (copyBufferBecauseOfWrite mem ?st1) (grow_back mem (nat (offset - d)))
      else if offset - d < 0 then Option.bind (copyBufferBecauseOfWrite mem ?st1) (grow_front mem (nat (- (offset - d))))
      else Some ?st1)"
    using a cs(3) small by (simp add: alter_advance_def Let_def)
  consider (fwd) "offset - d > 0" | (bwd) "offset - d < 0" | (inside) "offset = d"
    by linarith
  then show ?thesis
  proof cases
    case inside
    then show ?thesis
      using unf st1 p le by (intro exI [of _ ?st1] exI [of _ "[]"]) auto
  next
    case fwd
    have e: "cu_pos cu = ?len" "offset - d = int (alter_pos st) + offset - int ?len" "offset \<noteq> 0"
      using fwd p le by auto
    have "cursor_normal ?cs cu" using adv(4) e(1,3) by auto
    moreover have "?len + nat (offset - d) < 2 ^ 32"
      using fwd e(2) le bound by (intro nat_sum_less) linarith+
    ultimately have "\<exists>st' xs. Option.bind (copyBufferBecauseOfWrite mem ?st1) (grow_back mem (nat (offset - d))) = Some st' \<and>
        alter_ok st' \<and> alter_value st' = alter_value st @ xs \<and> length xs = nat (offset - d) \<and>
        alter_pos st' = ?len + nat (offset - d)"
      using grow_back_copied [OF st1(1) mem st1(3) fr, of "nat (offset - d)"] fwd e(1) st1(2,4) by simp
    then obtain st' xs where "Option.bind (copyBufferBecauseOfWrite mem ?st1) (grow_back mem (nat (offset - d))) = Some st'"
        "alter_ok st'" "alter_value st' = alter_value st @ xs" "length xs = nat (offset - d)"
        "alter_pos st' = ?len + nat (offset - d)"
      by blast
    then show ?thesis
      using unf fwd e le by (intro exI [of _ st'] exI [of _ "[]"] exI [of _ xs]) auto
  next
    case bwd
    have e: "cu_pos cu = 0" "- (offset - d) = - (int (alter_pos st) + offset)"
      using bwd p le by auto
    have "?len + nat (- (offset - d)) < 2 ^ 32"
      using bwd e(2) bound by (intro nat_sum_less) linarith+
    then have "\<exists>st' xs. Option.bind (copyBufferBecauseOfWrite mem ?st1) (grow_front mem (nat (- (offset - d)))) = Some st' \<and>
        alter_ok st' \<and> alter_value st' = xs @ alter_value st \<and> length xs = nat (- (offset - d)) \<and> alter_pos st' = 0"
      using grow_front_copied [OF st1(1) mem st1(3) fr, of "nat (- (offset - d))"] bwd e(1) st1(2,4) by simp
    then obtain st' xs where "Option.bind (copyBufferBecauseOfWrite mem ?st1) (grow_front mem (nat (- (offset - d)))) = Some st'"
        "alter_ok st'" "alter_value st' = xs @ alter_value st" "length xs = nat (- (offset - d))" "alter_pos st' = 0"
      by blast
    then show ?thesis
      using unf bwd e le by (intro exI [of _ st'] exI [of _ xs] exI [of _ "[]"]) auto
  qed
qed

theorem alter_advance_grows_witness:
  "\<exists>st' pre. alter_advance (\<lambda>_. replicate bufferSize 0) (- 2000) (sample_alter 1) = Some st' \<and>
     alter_value st' = pre @ [1, 2, 3, 4, 5] \<and> length pre = 1999 \<and> alter_pos st' = 0"
proof -
  have c: "cow_ok (sample_alter 1)"
    by (simp add: cow_ok_def sample_alter_facts)
  have b: "al_chunks (sample_alter 1) = [] \<longrightarrow> al_buffer (sample_alter 1) = None" "\<bar>- 2000 :: int\<bar> < 2 ^ 31"
    "int (length (alter_value (sample_alter 1))) + \<bar>- 2000\<bar> < 2 ^ 32"
    by (simp_all add: sample_alter_facts)
  from alter_advance_grows [OF sample_alter_facts(1) sample_mem_ok c b]
  show ?thesis
    by (auto simp: sample_alter_facts)
qed

end
