(* ===== verification/Removal.thy ===== *)
theory Removal
  imports Growth
begin

section \<open>Removing bytes at an alter\<close>

text \<open>
  \<^verbatim>\<open>Alter::removeImpl\<close> with its two callbacks, and the removals that are made of it:
  \<^verbatim>\<open>remove\<close>, \<^verbatim>\<open>removeTo\<close> a memory area and \<^verbatim>\<open>removeTo\<close> another alter. The callbacks
  act on a state of their own, the type variable \<open>'d\<close>.
\<close>

subsection \<open>The operations\<close>

text \<open>
  The walk over the chunks from \<open>keepTailFirst\<close> on: \<open>removed\<close> are the chunks passed so far. The
  result is the list that starts with the first chunk kept and the callback's state.
\<close>

fun remove_loop ::
  "(byte list \<Rightarrow> 'd \<Rightarrow> 'd option) \<Rightarrow> (chunk list \<Rightarrow> nat \<Rightarrow> 'd \<Rightarrow> 'd option) \<Rightarrow>
    chunk list \<Rightarrow> nat \<Rightarrow> nat \<Rightarrow> chunk list \<Rightarrow> 'd \<Rightarrow> (chunk list \<times> 'd) option" where
  "remove_loop utilizeRaw utilizeChunks removed removeSize n [] d =
     (if n = 0 then
        map_option (Pair []) (if removed \<noteq> [] then utilizeChunks removed removeSize d else Some d)
      else None)"
| "remove_loop utilizeRaw utilizeChunks removed removeSize n (k # ks) d =
     (if n = 0 then
        map_option (Pair (k # ks)) (if removed \<noteq> [] then utilizeChunks removed removeSize d else Some d)
      else if n < chunk_size k then
        Option.bind (if removed \<noteq> [] then utilizeChunks removed removeSize d else Some d) (\<lambda>d1.
          map_option (Pair (setBegin (ch_begin k + n) k # ks)) (utilizeRaw (take n (chunk_data k)) d1))
      else remove_loop utilizeRaw utilizeChunks (removed @ [k]) (removeSize + chunk_size k)
             (n - chunk_size k) ks d)"

text \<open>The middle part, from chunk \<open>i\<close> on with \<open>n\<close> bytes to go; \<open>cs\<close> are the chunks.\<close>

definition remove_middle ::
  "(byte list \<Rightarrow> 'd \<Rightarrow> 'd option) \<Rightarrow> (chunk list \<Rightarrow> nat \<Rightarrow> 'd \<Rightarrow> 'd option) \<Rightarrow>
    nat \<Rightarrow> nat \<Rightarrow> alter \<Rightarrow> 'd \<Rightarrow> (alter \<times> 'd) option" where
  "remove_middle utilizeRaw utilizeChunks i n st d =
     (let cs = al_chunks st in
      Option.bind (remove_loop utilizeRaw utilizeChunks [] 0 n (drop i cs) d) (\<lambda>(kept, d').
        let st1 = set_chunks (take i cs @ kept) st; cu = al_cursor st in
        Some (if length kept = length (drop i cs) then st1
              else if kept \<noteq> [] then st1\<lparr>al_cursor := cu\<lparr>cu_chunk := Some i, cu_chunkPos := 0\<rparr>\<rparr>
              else if i \<noteq> 0 then
                st1\<lparr>al_cursor := cu\<lparr>cu_chunk := Some (i - 1), cu_chunkPos := chunk_size (cs ! (i - 1))\<rparr>\<rparr>
              else st1\<lparr>al_cursor := cu\<lparr>cu_chunk := None, cu_chunkPos := 0\<rparr>\<rparr>, d')))"

definition dec_size :: "nat \<Rightarrow> alter \<Rightarrow> alter" where
  "dec_size n st = st\<lparr>al_buffer := map_option (decSize n) (al_buffer st)\<rparr>"

definition removeImpl ::
  "(nat \<Rightarrow> byte list) \<Rightarrow> (byte list \<Rightarrow> 'd \<Rightarrow> 'd option) \<Rightarrow> (chunk list \<Rightarrow> nat \<Rightarrow> 'd \<Rightarrow> 'd option) \<Rightarrow>
    nat \<Rightarrow> alter \<Rightarrow> 'd \<Rightarrow> (nat \<times> alter \<times> 'd) option" where
  "removeImpl mem utilizeRaw utilizeChunks maxSize0 st0 d =
     (if \<not> al_container st0 then None
      else Option.bind (copyBufferBecauseOfWrite mem (st0\<lparr>al_prep := None\<rparr>)) (\<lambda>st.
        case al_buffer st of
          None \<Rightarrow> Some (0, st, d)
        | Some b \<Rightarrow>
            (case cu_chunk (al_cursor st) of
               None \<Rightarrow> Some (0, st, d)
             | Some i \<Rightarrow>
                 (let cu = al_cursor st;
                      cp = cu_chunkPos cu;
                      maxSize = min maxSize0 (bf_size b - cu_pos cu);
                      st1 = dec_size maxSize st;
                      cs = al_chunks st;
                      c = cs ! i
                  in if cp > 0 \<and> cp < chunk_size c then
                       (let tail = chunk_size c - cp in
                        if tail \<le> maxSize then
                          Option.bind (utilizeRaw (take tail (drop cp (chunk_data c))) d) (\<lambda>d1.
                            let st2 = set_chunks (cs[i := setEnd (ch_begin c + cp) c]) st1;
                                st3 = (if Suc i < length cs
                                       then st2\<lparr>al_cursor := cu\<lparr>cu_chunk := Some (Suc i), cu_chunkPos := 0\<rparr>\<rparr>
                                       else st2);
                                i' = (if Suc i < length cs then Suc i else i)
                            in map_option (Pair maxSize)
                                 (remove_middle utilizeRaw utilizeChunks i' (maxSize - tail) st3 d1))
                        else
                          map_option (\<lambda>d1.
                              (maxSize,
                               set_chunks (cs[i := chunk_store cp
                                 (take (tail - maxSize) (drop (cp + maxSize) (chunk_data c))) c]) st1, d1))
                            (utilizeRaw (take maxSize (drop cp (chunk_data c))) d))
                     else map_option (Pair maxSize) (remove_middle utilizeRaw utilizeChunks i maxSize st1 d)))))"

text \<open>\<open>remove\<close> drops the bytes; \<open>removeTo\<close> a memory area collects them in order.\<close>

definition remove :: "(nat \<Rightarrow> byte list) \<Rightarrow> nat \<Rightarrow> alter \<Rightarrow> (nat \<times> alter) option" where
  "remove mem maxSize st =
     map_option (\<lambda>(n, st', u). (n, st'))
       (removeImpl mem (\<lambda>raw d. Some d) (\<lambda>chunks n d. Some d) maxSize st ())"

definition removeTo_memory :: "(nat \<Rightarrow> byte list) \<Rightarrow> nat \<Rightarrow> alter \<Rightarrow> (nat \<times> alter \<times> byte list) option" where
  "removeTo_memory mem maxSize st =
     removeImpl mem (\<lambda>raw dst. Some (dst @ raw))
       (\<lambda>chunks n dst. Some (dst @ concat (map (\<lambda>c. take (chunk_size c) (chunk_data c)) chunks))) maxSize st []"

text \<open>A removal that ends inside the chunk in whose middle it began.\<close>

definition cuts_inside :: "nat \<Rightarrow> alter \<Rightarrow> bool" where
  "cuts_inside n st \<longleftrightarrow> (case cu_chunk (al_cursor st) of None \<Rightarrow> False
     | Some i \<Rightarrow> 0 < cu_chunkPos (al_cursor st) \<and> cu_chunkPos (al_cursor st) + n < chunk_size (al_chunks st ! i))"

lemma dec_size_simps [simp]:
  "al_chunks (dec_size n st) = al_chunks st" "al_cursor (dec_size n st) = al_cursor st"
  "al_container (dec_size n st) = al_container st" "al_prep (dec_size n st) = al_prep st"
  "alter_share (dec_size n st) = alter_share st" "alter_value (dec_size n st) = alter_value st"
  by (cases "al_buffer st"; simp add: dec_size_def al_chunks_def buf_chunks_def decSize_def alter_share_def
      alter_value_def value_of_def)+

lemma cut_end:
  assumes "chunk_ok c" "0 < cp" "cp \<le> chunk_size c"
  shows "chunk_ok (setEnd (ch_begin c + cp) c)" "chunk_content (setEnd (ch_begin c + cp) c) = take cp (chunk_content c)"
    and "chunk_size (setEnd (ch_begin c + cp) c) = cp"
proof -
  have le: "ch_begin c + chunk_size c \<le> bufferSize"
    using assms(1) by (rule chunk_size_le)
  then show size: "chunk_size (setEnd (ch_begin c + cp) c) = cp"
    using assms by (subst chunk_size_eq) (simp_all add: setEnd_def)
  show "chunk_ok (setEnd (ch_begin c + cp) c)"
    using assms le by (simp add: chunk_ok_def setEnd_def)
  show "chunk_content (setEnd (ch_begin c + cp) c) = take cp (chunk_content c)"
    using assms(3) by (simp add: chunk_content_def size min_absorb1) (simp add: chunk_data_def setEnd_def)
qed

subsection \<open>The interface of the callbacks\<close>

text \<open>
  \<open>acc d xs d'\<close> says that \<open>d'\<close> is \<open>d\<close> after it was given the bytes \<open>xs\<close>; \<open>ok m d\<close> says that
  \<open>m\<close> more bytes can be given.
\<close>

locale byte_collector =
  fixes raw :: "byte list \<Rightarrow> 'd \<Rightarrow> 'd option"
    and chunks :: "chunk list \<Rightarrow> nat \<Rightarrow> 'd \<Rightarrow> 'd option"
    and acc :: "'d \<Rightarrow> byte list \<Rightarrow> 'd \<Rightarrow> bool"
    and ok :: "nat \<Rightarrow> 'd \<Rightarrow> bool"
  assumes acc_refl: "acc d [] d"
    and acc_trans: "acc d xs d' \<Longrightarrow> acc d' ys d'' \<Longrightarrow> acc d (xs @ ys) d''"
    and give_raw: "ok (length xs + m) d \<Longrightarrow> xs \<noteq> [] \<Longrightarrow> \<exists>d'. raw xs d = Some d' \<and> acc d xs d' \<and> ok m d'"
    and give_chunks: "ok (length (contents cs) + m) d \<Longrightarrow> chunks_ok cs \<Longrightarrow> cs \<noteq> [] \<Longrightarrow>
      \<exists>d'. chunks cs (length (contents cs)) d = Some d' \<and> acc d (contents cs) d' \<and> ok m d'"
begin

lemma give_removed:
  assumes "ok (length (contents cs) + m) d" "chunks_ok cs"
  shows "\<exists>d'. (if cs \<noteq> [] then chunks cs (length (contents cs)) d else Some d) = Some d' \<and>
           acc d (contents cs) d' \<and> ok m d'"
  using give_chunks [OF assms] acc_refl assms by (cases "cs = []") auto

lemma loop_spec:
  assumes "chunks_ok removed" "chunks_ok ks" "n \<le> length (contents ks)"
    "ok (length (contents removed) + n + m) d"
  shows "\<exists>kept d'. remove_loop raw chunks removed (length (contents removed)) n ks d = Some (kept, d') \<and>
     chunks_ok kept \<and> contents kept = drop n (contents ks) \<and>
     acc d (contents removed @ take n (contents ks)) d' \<and> ok m d' \<and> (n = 0 \<longrightarrow> kept = ks) \<and>
     length kept \<le> length ks"
  using assms
proof (induction ks arbitrary: removed n)
  case Nil
  then show ?case
    using give_removed [of removed m d] by auto
next
  case (Cons k ks)
  have k: "chunk_ok k" "chunks_ok ks" "length (chunk_content k) = chunk_size k"
    using Cons.prems(2) by (simp_all add: length_chunk_content)
  consider (zero) "n = 0" | (part) "0 < n" "n < chunk_size k" | (whole) "0 < n" "chunk_size k \<le> n"
    by linarith
  then show ?case
  proof cases
    case zero
    then show ?thesis
      using give_removed [of removed m d] Cons.prems by auto
  next
    case part
    let ?k = "setBegin (ch_begin k + n) k"
    obtain d1 where d1: "(if removed \<noteq> [] then chunks removed (length (contents removed)) d else Some d) = Some d1"
      "acc d (contents removed) d1" "ok (n + m) d1"
      using give_removed [of removed "n + m" d] Cons.prems by (auto simp: add.assoc)
    have xs: "take n (chunk_data k) = take n (chunk_content k)" "length (take n (chunk_content k)) = n"
        "take n (chunk_content k) \<noteq> []"
      using part k by (simp_all add: chunk_content_def) (use part in auto)
    then obtain d' where d': "raw (take n (chunk_data k)) d1 = Some d'" "acc d1 (take n (chunk_content k)) d'" "ok m d'"
      using give_raw [of "take n (chunk_content k)" m d1] d1(3) part by auto
    have "chunk_content ?k = drop n (chunk_content k)" "chunk_ok ?k"
      using part k(1) chunk_size_ok [OF k(1)]
      by (simp_all add: chunk_content_def chunk_size_ok setBegin_def chunk_data_def drop_take chunk_ok_def add.commute
          chunk_size_eq)
    with part d1 d' k xs acc_trans [OF d1(2) d'(2)] show ?thesis
      by auto
  next
    case whole
    have "length (contents (removed @ [k])) = length (contents removed) + chunk_size k"
      by (simp add: k(3))
    moreover have "\<exists>kept d'. remove_loop raw chunks (removed @ [k]) (length (contents (removed @ [k])))
        (n - chunk_size k) ks d = Some (kept, d') \<and> chunks_ok kept \<and>
        contents kept = drop (n - chunk_size k) (contents ks) \<and>
        acc d (contents (removed @ [k]) @ take (n - chunk_size k) (contents ks)) d' \<and> ok m d' \<and>
        (n - chunk_size k = 0 \<longrightarrow> kept = ks) \<and> length kept \<le> length ks"
      using Cons.prems k whole by (intro Cons.IH) (auto simp: ac_simps)
    ultimately show ?thesis
      using whole k by (auto simp: le_SucI)
  qed
qed

lemma middle_spec:
  assumes cs: "chunks_ok (al_chunks st)" and b: "al_buffer st = Some b"
    and size: "bf_size b = length (contents (al_chunks st)) - n" "bf_size b < 2 ^ 32"
    and st: "al_container st" and i: "i < length (al_chunks st)"
    and cu: "al_cursor st = \<lparr>cu_chunk = Some i, cu_chunkPos = cp, cu_pos = start_of (al_chunks st) i + cp\<rparr>"
    and cp: "cp \<le> chunk_size (al_chunks st ! i)" "cp = 0 \<or> n = 0"
    and n: "start_of (al_chunks st) i + n \<le> length (contents (al_chunks st))" and d: "ok (n + m) d"
  shows "\<exists>st' d'. remove_middle raw chunks i n st d = Some (st', d') \<and> alter_ok st' \<and>
     alter_value st' = take (start_of (al_chunks st) i) (alter_value st) @
       drop (start_of (al_chunks st) i + n) (alter_value st) \<and>
     alter_pos st' = start_of (al_chunks st) i + cp \<and>
     acc d (take n (drop (start_of (al_chunks st) i) (alter_value st))) d' \<and> ok m d' \<and>
     al_prep st' = al_prep st \<and> alter_share st' = alter_share st"
proof -
  let ?cs = "al_chunks st" let ?s = "start_of ?cs i"
  have v: "alter_value st = contents ?cs"
    by (simp add: alter_value_chunks)
  have parts: "contents ?cs = contents (take i ?cs) @ contents (drop i ?cs)" "length (contents (take i ?cs)) = ?s"
    using cs by (metis append_take_drop_id contents_simps(3)) (simp add: length_contents_take cs)
  have "n \<le> length (contents (drop i ?cs))"
    using n parts by simp
  from loop_spec [of "[]" "drop i ?cs" n m d] this d cs obtain kept d' where
    k: "remove_loop raw chunks [] 0 n (drop i ?cs) d = Some (kept, d')" "chunks_ok kept"
    "contents kept = drop n (contents (drop i ?cs))" "acc d (take n (contents (drop i ?cs))) d'" "ok m d'"
    "n = 0 \<longrightarrow> kept = drop i ?cs" "length kept \<le> length (drop i ?cs)"
    by auto
  let ?cs' = "take i ?cs @ kept"
  have cs': "chunks_ok ?cs'" "contents ?cs' = take ?s (contents ?cs) @ drop (?s + n) (contents ?cs)"
    using cs k parts by (simp_all add: drop_append_drop)
  have len: "length (contents ?cs') = length (contents ?cs) - n"
    using cs'(2) n by simp
  have dr: "drop ?s (contents ?cs) = contents (drop i ?cs)"
    using parts by (metis append_eq_conv_conj)
  have ne: "?cs \<noteq> []"
    using i by auto
  have finish: ?thesis
    if h: "remove_middle raw chunks i n st d = Some (st', d')" "al_chunks st' = ?cs'" "al_container st'"
      "al_buffer st' = al_buffer (set_chunks ?cs' st)" "cursor_ok ?cs' (al_cursor st')"
      "cu_pos (al_cursor st') = ?s + cp" "al_prep st' = al_prep st" for st'
  proof -
    have "alter_ok st'"
      using h b size len cs' n by (intro grown_ok [of st' st b]) simp_all
    moreover have "alter_share st' = alter_share st"
      using h(4) alter_share_simps(4) [of ?cs' st] by (simp add: alter_share_def)
    ultimately show ?thesis
      using h k(4,5) dr cs'(2) by (intro exI [of _ st'] exI [of _ d']) (simp add: alter_value_chunks alter_pos_def)
  qed
  have run: "remove_middle raw chunks i n st d = Some (
      if length kept = length (drop i ?cs) then set_chunks ?cs' st
      else if kept \<noteq> [] then (set_chunks ?cs' st)\<lparr>al_cursor := (al_cursor st)\<lparr>cu_chunk := Some i, cu_chunkPos := 0\<rparr>\<rparr>
      else if i \<noteq> 0 then (set_chunks ?cs' st)\<lparr>al_cursor := (al_cursor st)
             \<lparr>cu_chunk := Some (i - 1), cu_chunkPos := chunk_size (?cs ! (i - 1))\<rparr>\<rparr>
      else (set_chunks ?cs' st)\<lparr>al_cursor := (al_cursor st)\<lparr>cu_chunk := None, cu_chunkPos := 0\<rparr>\<rparr>, d')"
    by (simp only: remove_middle_def Let_def k(1) bind.simps prod.case)
  have start: "start_of ?cs' i = ?s"
    using i by (simp add: start_of_def min_absorb1)
  show ?thesis
  proof (cases "n = 0")
    case True
    then have "?cs' = ?cs"
      using k(6) by simp
    then show ?thesis
      using run True k(6) ne st i cp cu by (intro finish [of "set_chunks ?cs' st"]) (simp_all add: cursor_ok_def)
  next
    case False
    then have cp0: "cp = 0"
      using cp(2) by simp
    show ?thesis
    proof (cases "kept = []")
      case kept: False
      let ?st' = "if length kept = length (drop i ?cs) then set_chunks ?cs' st
        else (set_chunks ?cs' st)\<lparr>al_cursor := (al_cursor st)\<lparr>cu_chunk := Some i, cu_chunkPos := 0\<rparr>\<rparr>"
      have "remove_middle raw chunks i n st d = Some (?st', d')"
        using run kept by simp
      moreover have "al_cursor ?st' = \<lparr>cu_chunk = Some i, cu_chunkPos = 0, cu_pos = ?s\<rparr>"
        using cu cp0 by simp
      ultimately show ?thesis
        using kept st i ne start cp0 by (intro finish [of ?st']) (auto simp: cursor_ok_def)
    next
      case True
      let ?cu = "if i \<noteq> 0 then \<lparr>cu_chunk = Some (i - 1), cu_chunkPos = chunk_size (?cs ! (i - 1)), cu_pos = ?s\<rparr>
        else \<lparr>cu_chunk = None, cu_chunkPos = 0, cu_pos = ?s\<rparr>"
      let ?st' = "(set_chunks ?cs' st)\<lparr>al_cursor := ?cu\<rparr>"
      have "remove_middle raw chunks i n st d = Some (?st', d')"
        using run True i cu cp0 by simp
      moreover have "cursor_ok ?cs' ?cu"
      proof (cases i)
        case (Suc j)
        then show ?thesis
          using i True start_of_Suc [of j ?cs] by (simp add: cursor_ok_def start_of_def min_absorb1)
      qed (simp add: cursor_ok_def True)
      ultimately show ?thesis
        using st ne cp0 by (intro finish [of ?st']) simp_all
    qed
  qed
qed

lemma cut_spec:
  assumes s1: "alter_ok s1" "al_buffer s1 = Some b" and i: "cu_chunk (al_cursor s1) = Some i"
    and cp: "cu_chunkPos (al_cursor s1) = cp" "0 < cp" "cp < chunk_size (al_chunks s1 ! i)"
    and n: "chunk_size (al_chunks s1 ! i) - cp \<le> n" "n \<le> length (alter_value s1) - alter_pos s1"
    and d: "ok (n - (chunk_size (al_chunks s1 ! i) - cp) + m) d1"
    and st2: "st2 = set_chunks ((al_chunks s1)[i := setEnd (ch_begin (al_chunks s1 ! i) + cp) (al_chunks s1 ! i)])
        (dec_size n s1)"
    and i': "i' = (if Suc i < length (al_chunks s1) then Suc i else i)"
    and st3: "st3 = (if Suc i < length (al_chunks s1)
        then st2\<lparr>al_cursor := (al_cursor s1)\<lparr>cu_chunk := Some (Suc i), cu_chunkPos := 0\<rparr>\<rparr> else st2)"
  shows "\<exists>st' d'. remove_middle raw chunks i' (n - (chunk_size (al_chunks s1 ! i) - cp)) st3 d1 = Some (st', d') \<and>
     alter_ok st' \<and> alter_value st' = take (alter_pos s1) (alter_value s1) @ drop (alter_pos s1 + n) (alter_value s1) \<and>
     alter_pos st' = alter_pos s1 \<and>
     acc d1 (drop (chunk_size (al_chunks s1 ! i) - cp) (take n (drop (alter_pos s1) (alter_value s1)))) d' \<and>
     ok m d' \<and> al_prep st' = al_prep s1 \<and> alter_share st' = alter_share s1"
proof -
  let ?cs = "al_chunks s1" let ?c = "?cs ! i" let ?p = "alter_pos s1" let ?v = "alter_value s1"
  define tail where "tail = chunk_size ?c - cp"
  define c' where "c' = setEnd (ch_begin ?c + cp) ?c"
  define cs2 where "cs2 = ?cs[i := c']"
  have cs: "chunks_ok ?cs" "al_container s1" "i < length ?cs" "?p = start_of ?cs i + cp"
    using s1 i cp alter_chunks_ok by (simp_all add: alter_ok_def cursor_ok_def alter_pos_def)
  have c: "chunk_ok ?c" "?cs \<noteq> []"
    using cs by (auto intro: chunks_ok_nth)
  have c': "chunk_ok c'" "chunk_content c' = take cp (chunk_content ?c)" "chunk_size c' = cp"
    using cut_end [OF c(1) cp(2)] cp(3) by (simp_all add: c'_def)
  have v: "?v = contents (take i ?cs) @ chunk_content ?c @ contents (drop (Suc i) ?cs)"
    "length (contents (take i ?cs)) = start_of ?cs i" "length (chunk_content ?c) = chunk_size ?c"
    using contents_split [OF cs(3)] cs c by (simp_all add: alter_value_chunks length_contents_take length_chunk_content)
  have v2: "contents cs2 = take ?p ?v @ drop (?p + tail) ?v"
    using cs v c' cp by (simp add: cs2_def contents_update tail_def)
  have bounds: "?p + n \<le> length ?v" "tail \<le> n"
    using n alter_pos_le [OF s1(1)] by (simp_all add: tail_def)
  have len2: "length (contents cs2) = length ?v - tail"
    using v2 bounds by simp
  have cs2: "chunks_ok cs2" "length cs2 = length ?cs" "cs2 ! i = c'"
    using cs c' by (simp_all add: cs2_def chunks_ok_update)
  have b: "bf_size b = length ?v" "bf_size b < 2 ^ 32"
    using s1 by (simp_all add: alter_ok_def bytes_ok_def buffer_ok_def alter_value_def value_of_def buf_chunks_def)
  have st2': "al_chunks st2 = cs2" "al_buffer st2 = Some (decSize n (b\<lparr>bf_chunks := cs2\<rparr>))" "al_container st2"
    "al_cursor st2 = al_cursor s1" "al_prep st2 = al_prep s1" "alter_share st2 = alter_share s1"
    using c cs s1 unfolding st2 cs2_def c'_def by (simp_all) (simp add: set_chunks_def dec_size_def decSize_def)
  have cu: "al_cursor st3 = \<lparr>cu_chunk = Some i', cu_chunkPos = (if Suc i < length ?cs then 0 else cp),
      cu_pos = start_of cs2 i' + (if Suc i < length ?cs then 0 else cp)\<rparr>"
    using cs i cp cs2 c' st2'(4) by (auto simp: st3 i' start_of_Suc start_of_update_le cs2_def alter_pos_def cursor.equality)
  have pos: "start_of cs2 i' + (if Suc i < length ?cs then 0 else cp) = ?p"
    using cs c' cs2 by (simp add: i' start_of_Suc) (simp add: cs2_def start_of_update_le)
  have zero: "\<not> Suc i < length ?cs \<Longrightarrow> n - tail = 0"
    using start_of_last [OF cs(1), of i] cs bounds n(2) by (simp add: tail_def alter_value_chunks)
  have st3': "al_chunks st3 = cs2" "al_buffer st3 = Some (decSize n (b\<lparr>bf_chunks := cs2\<rparr>))" "al_container st3"
    "al_prep st3 = al_prep s1" "alter_share st3 = alter_share s1" "alter_value st3 = contents cs2"
    using st2' by (simp_all add: st3 alter_value_chunks)
  have "\<exists>st' d'. remove_middle raw chunks i' (n - tail) st3 d1 = Some (st', d') \<and> alter_ok st' \<and>
     alter_value st' = take (start_of (al_chunks st3) i') (alter_value st3) @
       drop (start_of (al_chunks st3) i' + (n - tail)) (alter_value st3) \<and>
     alter_pos st' = start_of (al_chunks st3) i' + (if Suc i < length ?cs then 0 else cp) \<and>
     acc d1 (take (n - tail) (drop (start_of (al_chunks st3) i') (alter_value st3))) d' \<and> ok m d' \<and>
     al_prep st' = al_prep st3 \<and> alter_share st' = alter_share st3"
  proof (rule middle_spec)
    show "al_buffer st3 = Some (decSize n (b\<lparr>bf_chunks := cs2\<rparr>))" "al_container st3" "chunks_ok (al_chunks st3)"
      using st3' cs2 by simp_all
    show "bf_size (decSize n (b\<lparr>bf_chunks := cs2\<rparr>)) = length (contents (al_chunks st3)) - (n - tail)"
      "bf_size (decSize n (b\<lparr>bf_chunks := cs2\<rparr>)) < 2 ^ 32"
      using b len2 bounds st3' by (simp_all add: decSize_def sub32_eq)
    show "i' < length (al_chunks st3)"
      using cs(3) cs2 st3' by (simp add: i')
    show "al_cursor st3 = \<lparr>cu_chunk = Some i', cu_chunkPos = (if Suc i < length ?cs then 0 else cp),
        cu_pos = start_of (al_chunks st3) i' + (if Suc i < length ?cs then 0 else cp)\<rparr>"
      using cu st3' by simp
    show "(if Suc i < length ?cs then 0 else cp) \<le> chunk_size (al_chunks st3 ! i')"
      using c' cs2 st3' by (simp add: i')
    show "(if Suc i < length ?cs then 0 else cp) = 0 \<or> n - tail = 0"
      using zero by auto
    show "start_of (al_chunks st3) i' + (n - tail) \<le> length (contents (al_chunks st3))"
      using pos zero bounds len2 st3' by (auto split: if_splits)
    show "ok (n - tail + m) d1"
      using d by (simp add: tail_def)
  qed
  moreover have "take (start_of cs2 i') (contents cs2) @ drop (start_of cs2 i' + (n - tail)) (contents cs2) =
      take ?p ?v @ drop (?p + n) ?v"
  proof (cases "Suc i < length ?cs")
    case True
    then show ?thesis
      using pos bounds len2 v2 by (simp add: add.commute)
  next
    case False
    with zero have "n - tail = 0" by simp
    moreover from this have "n = tail"
      using bounds by simp
    ultimately show ?thesis
      using append_take_drop_id [of "start_of cs2 i'" "contents cs2"] v2 by simp
  qed
  moreover have "take (n - tail) (drop (start_of cs2 i') (contents cs2)) = drop tail (take n (drop ?p ?v))"
    using pos zero bounds len2 v2 by (cases "Suc i < length ?cs") (simp_all add: drop_take add.commute)
  ultimately show ?thesis
    using pos st3' by (simp add: tail_def)
qed

lemma remove_spec:
  assumes st: "alter_ok st0" "mem_ok mem" "cow_ok st0" "cursor_normal (al_chunks st0) (al_cursor st0)"
    and cow: "copyBufferBecauseOfWrite mem (st0\<lparr>al_prep := None\<rparr>) = Some s1"
    and n: "n = min maxSize (length (alter_value st0) - alter_pos st0)" and inside: "\<not> cuts_inside n s1"
    and d: "ok (n + m) d"
  shows "\<exists>st' d'. removeImpl mem raw chunks maxSize st0 d = Some (n, st', d') \<and> alter_ok st' \<and>
     alter_value st' = take (alter_pos st0) (alter_value st0) @ drop (alter_pos st0 + n) (alter_value st0) \<and>
     alter_pos st' = alter_pos st0 \<and> acc d (take n (drop (alter_pos st0) (alter_value st0))) d' \<and> ok m d' \<and>
     al_prep st' = None \<and> alter_share st' = min 1 (alter_share st0)"
proof -
  have "alter_ok (st0\<lparr>al_prep := None\<rparr>)" "cow_ok (st0\<lparr>al_prep := None\<rparr>)"
    using st by (simp_all add: cow_ok_def)
  from copyBuffer_spec [OF this(1) st(2) this(2)] cow st(4)
  have s1: "alter_ok s1" "al_prep s1 = None" "alter_value s1 = alter_value st0" "alter_pos s1 = alter_pos st0"
    "alter_share s1 = min 1 (alter_share st0)" "cursor_normal (al_chunks s1) (al_cursor s1)" "al_container s1"
    by (auto simp: alter_ok_def)
  show ?thesis
  proof (cases "cu_chunk (al_cursor s1)")
    case None
    then have "al_chunks s1 = []"
      using s1(1) by (simp add: alter_ok_def cursor_ok_def)
    then have v: "alter_value st0 = []"
      using s1(3) by (simp add: alter_value_chunks)
    have "removeImpl mem raw chunks maxSize st0 d = Some (0, s1, d)"
      using st(1) cow None by (simp add: removeImpl_def alter_ok_def split: option.splits)
    then show ?thesis
      using s1 v n d acc_refl by (intro exI [of _ s1] exI [of _ d]) simp
  next
    case (Some i)
    let ?cs = "al_chunks s1" let ?cp = "cu_chunkPos (al_cursor s1)" let ?c = "?cs ! i"
    have i: "i < length ?cs" "?cp \<le> chunk_size ?c" "alter_pos s1 = start_of ?cs i + ?cp"
      using s1(1) Some by (simp_all add: alter_ok_def cursor_ok_def alter_pos_def)
    have cs: "chunks_ok ?cs"
      using s1(1) by (rule alter_chunks_ok)
    have "?cs \<noteq> []"
      using i by auto
    then obtain b where b: "al_buffer s1 = Some b"
      using al_buffer_of_chunk by auto
    have size: "bf_size b = length (alter_value st0)" "bf_size b < 2 ^ 32"
      using s1(1,3) b by (simp_all add: alter_ok_def bytes_ok_def buffer_ok_def alter_value_def value_of_def buf_chunks_def)
    have m: "min maxSize (bf_size b - cu_pos (al_cursor s1)) = n"
      using n size s1(4) by (simp add: alter_pos_def)
    have bound: "alter_pos s1 + n \<le> length (alter_value s1)"
      using n alter_pos_le [OF s1(1)] s1(3,4) by simp
    consider (cut) "0 < ?cp" "?cp < chunk_size ?c" | (edge) "\<not> (0 < ?cp \<and> ?cp < chunk_size ?c)"
      by (cases "0 < ?cp \<and> ?cp < chunk_size ?c") auto
    then show ?thesis
    proof cases
      case cut
      define tail where "tail = chunk_size ?c - ?cp"
      have tail: "tail \<le> n" "0 < tail"
        using inside cut Some by (auto simp: cuts_inside_def tail_def)
      have rest: "take n (drop (alter_pos s1) (alter_value s1)) = drop ?cp (chunk_content ?c) @
          drop tail (take n (drop (alter_pos s1) (alter_value s1)))" (is "?r = _")
      proof -
        have "drop (alter_pos s1) (alter_value s1) = drop ?cp (chunk_content ?c) @ contents (drop (Suc i) ?cs)"
          using drop_contents [OF cs i(1,2)] i(3) by (simp add: alter_value_chunks)
        moreover have "length (drop ?cp (chunk_content ?c)) = tail"
          using length_chunk_content [OF chunks_ok_nth [OF cs i(1)]] by (simp add: tail_def)
        ultimately show ?thesis
          using tail by simp
      qed
      have tk: "take tail (drop ?cp (chunk_data ?c)) = drop ?cp (chunk_content ?c)"
        by (simp add: tail_def chunk_content_def drop_take)
      have "length (drop ?cp (chunk_content ?c)) + (n - tail + m) = n + m"
        using length_chunk_content [OF chunks_ok_nth [OF cs i(1)]] tail(1) by (simp add: tail_def)
      then obtain d1 where d1: "raw (take tail (drop ?cp (chunk_data ?c))) d = Some d1"
        "acc d (drop ?cp (chunk_content ?c)) d1" "ok (n - tail + m) d1"
        using give_raw [of "drop ?cp (chunk_content ?c)" "n - tail + m" d] d cut(2) tk
          length_chunk_content [OF chunks_ok_nth [OF cs i(1)]] by auto
      let ?st2 = "set_chunks (?cs[i := setEnd (ch_begin ?c + ?cp) ?c]) (dec_size n s1)"
      let ?st3 = "if Suc i < length ?cs then ?st2\<lparr>al_cursor := (al_cursor s1)\<lparr>cu_chunk := Some (Suc i), cu_chunkPos := 0\<rparr>\<rparr>
          else ?st2"
      let ?i' = "if Suc i < length ?cs then Suc i else i"
      have "removeImpl mem raw chunks maxSize st0 d =
          map_option (Pair n) (remove_middle raw chunks ?i' (n - tail) ?st3 d1)"
        using st(1) cow Some b cut m tail d1(1)
        by (simp add: removeImpl_def alter_ok_def Let_def tail_def)
      moreover have nle: "n \<le> length (alter_value s1) - alter_pos s1"
        using bound by simp
      obtain st' d' where "remove_middle raw chunks ?i' (n - tail) ?st3 d1 = Some (st', d')" "alter_ok st'"
          "alter_value st' = take (alter_pos s1) (alter_value s1) @ drop (alter_pos s1 + n) (alter_value s1)"
          "alter_pos st' = alter_pos s1" "acc d1 (drop tail ?r) d'" "ok m d'" "al_prep st' = al_prep s1"
          "alter_share st' = alter_share s1"
        using cut_spec [OF s1(1) b Some refl cut tail(1) [unfolded tail_def] nle d1(3) [unfolded tail_def]
            refl refl refl, folded tail_def] by blast
      moreover from this have "acc d ?r d'"
        using acc_trans [OF d1(2), of "drop tail ?r" d'] rest by simp
      ultimately show ?thesis
        using s1 by auto
    next
      case edge
      have zero: "?cp = 0 \<or> n = 0"
      proof (cases "?cp = 0")
        case False
        then have "?cp = chunk_size ?c" "Suc i = length ?cs"
          using edge i s1(6) Some by (auto simp: cursor_normal_def)
        then show ?thesis
          using start_of_last [OF cs] i(3) bound by (simp add: alter_value_chunks)
      qed simp
      have "removeImpl mem raw chunks maxSize st0 d =
          map_option (Pair n) (remove_middle raw chunks i n (dec_size n s1) d)"
        using st(1) cow Some b m by (simp add: removeImpl_def alter_ok_def Let_def if_not_P [OF edge])
      moreover have "\<exists>st' d'. remove_middle raw chunks i n (dec_size n s1) d = Some (st', d') \<and> alter_ok st' \<and>
         alter_value st' = take (start_of (al_chunks (dec_size n s1)) i) (alter_value (dec_size n s1)) @
           drop (start_of (al_chunks (dec_size n s1)) i + n) (alter_value (dec_size n s1)) \<and>
         alter_pos st' = start_of (al_chunks (dec_size n s1)) i + ?cp \<and>
         acc d (take n (drop (start_of (al_chunks (dec_size n s1)) i) (alter_value (dec_size n s1)))) d' \<and> ok m d' \<and>
         al_prep st' = al_prep (dec_size n s1) \<and> alter_share st' = alter_share (dec_size n s1)"
      proof (rule middle_spec)
        show "al_buffer (dec_size n s1) = Some (decSize n b)"
          using b by (simp add: dec_size_def)
        show "bf_size (decSize n b) = length (contents (al_chunks (dec_size n s1))) - n" "bf_size (decSize n b) < 2 ^ 32"
          using size s1(3) bound by (simp_all add: decSize_def sub32_eq alter_value_chunks)
        show "al_cursor (dec_size n s1) = \<lparr>cu_chunk = Some i, cu_chunkPos = ?cp,
            cu_pos = start_of (al_chunks (dec_size n s1)) i + ?cp\<rparr>"
          using i(3) Some by (simp add: alter_pos_def cursor.equality)
        show "start_of (al_chunks (dec_size n s1)) i + n \<le> length (contents (al_chunks (dec_size n s1)))"
          using bound i(3) by (simp add: alter_value_chunks)
      qed (use cs s1 i zero d in simp_all)
      ultimately show ?thesis
        using zero i(3) s1 by auto
    qed
  qed
qed

end

subsection \<open>Removing without a destination and into memory\<close>

interpretation dropped: byte_collector "\<lambda>raw d. Some d" "\<lambda>chunks n d. Some d" "\<lambda>d xs d'. True" "\<lambda>m d. True"
  by unfold_locales simp_all

interpretation collected: byte_collector "\<lambda>raw dst. Some (dst @ raw)"
    "\<lambda>chunks n dst. Some (dst @ concat (map (\<lambda>c. take (chunk_size c) (chunk_data c)) chunks))"
    "\<lambda>d xs d'. d' = d @ xs" "\<lambda>m d. True"
  by unfold_locales (simp_all add: contents_def chunk_content_def [abs_def])

text \<open>C7. Removing at an alter, unless the removal begins and ends in the interior of one chunk,
  takes the bytes after the cursor, up to \<open>maxSize\<close>, out of the container: the bytes before and
  behind them stay in order, the cursor stays, the size is counted down with the bytes and the
  chunk list keeps its invariants; \<open>removeTo\<close> a memory area yields exactly those bytes. This is for a
  cursor that does not stand at the end of a chunk with others behind it (there the code takes out the
  chunk before the cursor), and for a buffer that, if it is shared, is not empty and holds less than 2^31
  bytes.\<close>

theorem remove_takes_out:
  assumes "alter_ok st" "mem_ok mem" "cow_ok st" "cursor_normal (al_chunks st) (al_cursor st)"
    and "copyBufferBecauseOfWrite mem (st\<lparr>al_prep := None\<rparr>) = Some s1"
    and "n = min maxSize (length (alter_value st) - alter_pos st)" "\<not> cuts_inside n s1"
  shows "(\<exists>st'. remove mem maxSize st = Some (n, st') \<and> alter_ok st' \<and>
       alter_value st' = take (alter_pos st) (alter_value st) @ drop (alter_pos st + n) (alter_value st) \<and>
       alter_pos st' = alter_pos st) \<and>
     (\<exists>st'. removeTo_memory mem maxSize st = Some (n, st', take n (drop (alter_pos st) (alter_value st))) \<and>
       alter_ok st' \<and>
       alter_value st' = take (alter_pos st) (alter_value st) @ drop (alter_pos st + n) (alter_value st) \<and>
       alter_pos st' = alter_pos st)"
proof (rule conjI)
  show "\<exists>st'. remove mem maxSize st = Some (n, st') \<and> alter_ok st' \<and>
       alter_value st' = take (alter_pos st) (alter_value st) @ drop (alter_pos st + n) (alter_value st) \<and>
       alter_pos st' = alter_pos st"
    using dropped.remove_spec [OF assms TrueI, of "()"] by (auto simp: remove_def)
  show "\<exists>st'. removeTo_memory mem maxSize st = Some (n, st', take n (drop (alter_pos st) (alter_value st))) \<and>
       alter_ok st' \<and>
       alter_value st' = take (alter_pos st) (alter_value st) @ drop (alter_pos st + n) (alter_value st) \<and>
       alter_pos st' = alter_pos st"
    using collected.remove_spec [OF assms TrueI, of "[]"] by (auto simp: removeTo_memory_def)
qed

theorem remove_takes_out_witness:
  "\<exists>st'. removeTo_memory (\<lambda>_. replicate bufferSize 0) 2 (sample_alter 1) = Some (2, st', [2, 3]) \<and>
     alter_value st' = [1, 4, 5]"
proof -
  let ?s = "(sample_alter 1)\<lparr>al_prep := None\<rparr>"
  have c: "cow_ok (sample_alter 1)" "cursor_normal (al_chunks (sample_alter 1)) (al_cursor (sample_alter 1))"
    by (simp add: cow_ok_def sample_alter_facts) (simp add: cursor_normal_def sample_alter_def al_chunks_def buf_chunks_def)
  have cow: "copyBufferBecauseOfWrite (\<lambda>_. replicate bufferSize 0) ?s = Some ?s"
    by (simp add: copyBuffer_unshared sample_alter_facts)
  have inside: "\<not> cuts_inside 2 ?s"
    by (simp add: cuts_inside_def sample_alter_def al_chunks_def buf_chunks_def)
  have n: "2 = min 2 (length (alter_value (sample_alter 1)) - alter_pos (sample_alter 1))"
    by (simp add: sample_alter_facts)
  show ?thesis
    using conjunct2 [OF remove_takes_out [OF sample_alter_facts(1) sample_mem_ok c cow n inside]]
    by (auto simp: sample_alter_facts numeral_2_eq_2 numeral_3_eq_3)
qed

lemma cut_inside_contents:
  assumes "chunks_ok cs" "i < length cs" "0 < cp" "cp + n < chunk_size (cs ! i)"
  shows "contents (cs[i := chunk_store cp (take (chunk_size (cs ! i) - cp - n) (drop (cp + n) (chunk_data (cs ! i)))) (cs ! i)]) =
    take (start_of cs i + cp) (contents cs) @
      take (chunk_size (cs ! i) - cp - n) (drop (start_of cs i + cp + n) (contents cs)) @
      drop (start_of cs i + cp + (chunk_size (cs ! i) - cp - n)) (contents cs)"
proof -
  let ?c = "cs ! i"
  have c: "chunk_ok ?c" using assms(1,2) by (rule chunks_ok_nth)
  define C where "C = chunk_content ?c"
  define r where "r = chunk_size ?c - cp - n"
  have v: "contents cs = contents (take i cs) @ C @ contents (drop (Suc i) cs)"
    "length (contents (take i cs)) = start_of cs i" "length C = cp + n + r"
    using contents_split [OF assms(2)] assms c by (simp_all add: C_def r_def length_contents_take length_chunk_content)
  have x: "take r (drop (cp + n) (chunk_data ?c)) = drop (cp + n) C"
    using assms(4) by (simp add: C_def r_def chunk_content_def drop_take)
  have fit: "cp + length (drop (cp + n) C) \<le> chunk_size ?c"
    using v(3) assms(4) by (simp add: r_def)
  have "chunk_content (chunk_store cp (drop (cp + n) C) ?c) = put_at cp (drop (cp + n) C) C"
    using chunk_content_store [OF c fit] by (simp add: C_def)
  then show ?thesis
    unfolding r_def [symmetric] x contents_update [OF assms(2)] using v by (simp add: put_at_def add.assoc)
qed

text \<open>C39. A removal that begins and ends in the interior of one chunk of an unshared buffer moves the \<open>r\<close>
  bytes of that chunk that follow the removed ones down over them and counts the size of the buffer down,
  but leaves the end of the chunk where it was: the chunks keep as many bytes as before, more than the
  buffer counts, and the bytes behind the \<open>r\<close> moved ones, which are the end of the chunk once more, are
  what they were.\<close>

theorem remove_inside_inconsistent:
  assumes "alter_ok st" "alter_share st \<le> 1" "cuts_inside n st" "0 < n"
    and n: "n = min maxSize (length (alter_value st) - alter_pos st)"
    and r: "r = chunk_size (al_chunks st ! the (cu_chunk (al_cursor st))) - cu_chunkPos (al_cursor st) - n"
  shows "\<exists>st' b. remove mem maxSize st = Some (n, st') \<and> al_buffer st' = Some b \<and> \<not> buffer_consistent b \<and>
     bf_size b = length (alter_value st) - n \<and> length (alter_value st') = length (alter_value st) \<and>
     alter_value st' = take (alter_pos st) (alter_value st) @ take r (drop (alter_pos st + n) (alter_value st)) @
       drop (alter_pos st + r) (alter_value st)"
proof -
  let ?s = "st\<lparr>al_prep := None\<rparr>" let ?cs = "al_chunks st"
  obtain i where i: "cu_chunk (al_cursor st) = Some i" "0 < cu_chunkPos (al_cursor st)"
    "cu_chunkPos (al_cursor st) + n < chunk_size (?cs ! i)" "i < length ?cs"
    using assms(1,3) by (auto simp: cuts_inside_def alter_ok_def cursor_ok_def split: option.splits)
  let ?cp = "cu_chunkPos (al_cursor st)" let ?c = "?cs ! i"
  have c: "chunk_ok ?c" "chunks_ok ?cs" "?cs \<noteq> []"
    using alter_chunks_ok [OF assms(1)] i(4) by (auto intro: chunks_ok_nth)
  obtain b where b: "al_buffer st = Some b"
    using al_buffer_of_chunk [OF c(3)] by auto
  have size: "bf_size b = length (alter_value st)" "bf_size b < 2 ^ 32"
    using assms(1) b by (simp_all add: alter_ok_def bytes_ok_def buffer_ok_def alter_value_def value_of_def buf_chunks_def)
  have m: "min maxSize (bf_size b - cu_pos (al_cursor st)) = n"
    using n size by (simp add: alter_pos_def)
  let ?xs = "take (chunk_size ?c - ?cp - n) (drop (?cp + n) (chunk_data ?c))"
  let ?cs' = "?cs[i := chunk_store ?cp ?xs ?c]"
  let ?b = "(decSize n b)\<lparr>bf_chunks := ?cs'\<rparr>"
  have "copyBufferBecauseOfWrite mem ?s = Some ?s"
    using assms(2) by (simp add: copyBuffer_unshared)
  moreover have "(0 < ?cp \<and> ?cp < chunk_size ?c) = True" "(chunk_size ?c - ?cp \<le> n) = False"
    using i by auto
  ultimately have run: "remove mem maxSize st = Some (n, set_chunks ?cs' (dec_size n ?s))"
    using assms(1) b i(1) m by (simp add: remove_def removeImpl_def alter_ok_def Let_def)
  have buf: "al_buffer (set_chunks ?cs' (dec_size n ?s)) = Some ?b"
    using b by (simp add: set_chunks_def dec_size_def)
  have "chunks_ok ?cs'"
    using c i(3) chunk_size_le [OF c(1)] by (intro chunks_ok_update chunk_store_ok) auto
  moreover have len: "length (contents ?cs') = length (alter_value st)"
    using calculation c i(4) by (simp add: length_contents alter_value_chunks map_update)
      (metis list_update_id map_update)
  moreover have "n \<le> length (alter_value st)"
    using n by simp
  moreover from this have dec: "sub32 (bf_size b) n = length (alter_value st) - n"
    using size by (simp add: sub32_eq)
  ultimately have "\<not> buffer_consistent ?b"
    using size assms(4) by (simp add: buffer_consistent_iff decSize_def)
  moreover have "alter_value (set_chunks ?cs' (dec_size n ?s)) = contents ?cs'"
    by (simp only: alter_value_def value_of_def buf_chunks_def buf option.case) simp
  moreover have "contents ?cs' = take (alter_pos st) (alter_value st) @ take r (drop (alter_pos st + n) (alter_value st)) @
       drop (alter_pos st + r) (alter_value st)"
    using cut_inside_contents [OF c(2) i(4), of ?cp n] i assms(1) r
    by (simp add: alter_value_chunks alter_ok_def cursor_ok_def alter_pos_def)
  ultimately show ?thesis
    using run buf len dec by (intro exI [of _ "set_chunks ?cs' (dec_size n ?s)"] exI [of _ ?b]) (simp add: decSize_def)
qed

theorem remove_inside_inconsistent_witness:
  "\<exists>st' b. remove (\<lambda>_. replicate bufferSize 0) 1
      ((sample_alter 1)\<lparr>al_cursor := \<lparr>cu_chunk = Some 1, cu_chunkPos = 1, cu_pos = 3\<rparr>\<rparr>) = Some (1, st') \<and>
    al_buffer st' = Some b \<and> \<not> buffer_consistent b \<and> bf_size b = 4 \<and> alter_value st' = [1, 2, 3, 5, 5]"
proof -
  let ?s = "(sample_alter 1)\<lparr>al_cursor := \<lparr>cu_chunk = Some 1, cu_chunkPos = 1, cu_pos = 3\<rparr>\<rparr>"
  have s: "alter_ok ?s" "alter_share ?s \<le> 1" "cuts_inside 1 ?s" "(0 :: nat) < 1"
    by (simp_all add: sample_alter_def alter_ok_def bytes_ok_def buffer_ok_def al_chunks_def buf_chunks_def
        cursor_ok_def start_of_def alter_share_def cuts_inside_def)
  have v: "alter_value ?s = [1, 2, 3, 4, 5]" "alter_pos ?s = 3"
    by (simp_all add: sample_alter_def alter_value_def value_of_def buf_chunks_def alter_pos_def)
  have n: "1 = min 1 (length (alter_value ?s) - alter_pos ?s)"
    "1 = chunk_size (al_chunks ?s ! the (cu_chunk (al_cursor ?s))) - cu_chunkPos (al_cursor ?s) - 1"
    unfolding v by (simp_all add: sample_alter_def al_chunks_def buf_chunks_def)
  show ?thesis
    using remove_inside_inconsistent [OF s n, of "\<lambda>_. replicate bufferSize 0"] unfolding v
    by (fastforce simp: eval_nat_numeral)
qed

end
