(* ===== verification/Moves.thy ===== *)
theory Moves
  imports Removal
begin

section \<open>Inserting chunks, moving containers and removing into another alter\<close>

text \<open>
  \<^verbatim>\<open>Alter::write(Chunk*, Chunk*, uint32)\<close> links a run of chunks into the list without copying;
  \<^verbatim>\<open>Alter::write(Bytes&&)\<close> takes the chunks of an unshared source; \<^verbatim>\<open>removeTo(Alter&)\<close> moves
  whole chunks this way. \<open>link_fault\<close> names the ways in which the code leaves something that
  is no longer a chunk list.
\<close>

datatype link_fault = Abort | NullPointer | Cycle | Dangling

definition insert_chunks ::
  "(nat \<Rightarrow> byte list) \<Rightarrow> chunk list \<Rightarrow> bool \<Rightarrow> nat \<Rightarrow> alter \<Rightarrow> link_fault + alter" where
  "insert_chunks mem src dangling n st0 =
     (if \<not> al_container st0 then Inl Abort
      else case copyBufferBecauseOfWrite mem (st0\<lparr>al_prep := None\<rparr>) of
        None \<Rightarrow> Inl NullPointer
      | Some st \<Rightarrow>
          (let cs = al_chunks st; cu = al_cursor st;
               at_last_src = \<lparr>cu_chunk = Some (length src - 1), cu_chunkPos = chunk_size (last src), cu_pos = n\<rparr> in
           case al_buffer st of
             None \<Rightarrow> if dangling then Inl Dangling
                     else Inr (st\<lparr>al_buffer := Some (new_buffer src n), al_cursor := at_last_src\<rparr>)
           | Some b \<Rightarrow>
               (case cu_chunk cu of
                  None \<Rightarrow> if dangling then Inl Dangling
                          else Inr (add_size n (set_chunks src (st\<lparr>al_cursor := at_last_src\<rparr>)))
                | Some i \<Rightarrow>
                    (let c = cs ! i; cp = cu_chunkPos cu; p = add32 (cu_pos cu) n in
                     if cp > 0 \<and> cp < chunk_size c then Inl Cycle
                     else if cp \<ge> chunk_size c then
                       (if Suc i < length cs then
                          Inr (add_size n (set_chunks (take (Suc i) cs @ src @ drop (Suc i) cs)
                            (st\<lparr>al_cursor := \<lparr>cu_chunk = Some (Suc i + length src), cu_chunkPos = 0, cu_pos = p\<rparr>\<rparr>)))
                        else
                          Inr (add_size n (set_chunks (cs @ src)
                            (st\<lparr>al_cursor := \<lparr>cu_chunk = Some (length cs + length src - 1),
                               cu_chunkPos = chunk_size (last src), cu_pos = p\<rparr>\<rparr>))))
                     else
                       Inr (add_size n (set_chunks (take i cs @ src @ drop i cs)
                         (st\<lparr>al_cursor := \<lparr>cu_chunk = Some (i + length src), cu_chunkPos = cp, cu_pos = p\<rparr>\<rparr>)))))))"

text \<open>
  The trimming loop of \<^verbatim>\<open>write(Bytes&&)\<close> on the reversed chunk list: the chunks that are left,
  the size as the code counts it, and whether a chunk was deleted (its predecessor keeps the
  pointer to it). \<open>None\<close> is the early return when no chunk is left.
\<close>

fun trim_rev :: "chunk list \<Rightarrow> nat \<Rightarrow> nat \<Rightarrow> bool \<Rightarrow> (chunk list \<times> nat \<times> bool) option" where
  "trim_rev [] n maxSize dropped = None"
| "trim_rev (k # ks) n maxSize dropped =
     (if n > maxSize then
        (let oversize = n - maxSize in
         if oversize > chunk_size k then
           (if ks = [] then None else trim_rev ks (n - chunk_size k) maxSize True)
         else Some (setEnd (ch_end k - oversize) k # ks, n, dropped))
      else Some (k # ks, n, dropped))"

text \<open>The count, the alter and the buffer that the source is left with.\<close>

definition move_Bytes ::
  "(nat \<Rightarrow> byte list) \<Rightarrow> alter \<Rightarrow> buffer option \<Rightarrow> nat \<Rightarrow> link_fault + (nat \<times> alter \<times> buffer option)" where
  "move_Bytes mem st src maxSize =
     (if (case src of None \<Rightarrow> False | Some b \<Rightarrow> bf_share b > 1) then
        (case write_Bytes mem st False src maxSize of
           None \<Rightarrow> Inl NullPointer
         | Some (wrote, st') \<Rightarrow> Inr (wrote, st', src))
      else if bytes_empty src \<or> maxSize = 0 then Inr (0, st, src)
      else case copyBufferBecauseOfWrite mem (st\<lparr>al_prep := None\<rparr>) of
        None \<Rightarrow> Inl NullPointer
      | Some st1 \<Rightarrow>
          (let src' = map_option (\<lambda>b. b\<lparr>bf_chunks := [], bf_size := 0\<rparr>) src in
           case trim_rev (rev (buf_chunks src)) (bytes_size src) maxSize False of
             None \<Rightarrow> Inr (0, st1, src')
           | Some (ks, n, dropped) \<Rightarrow>
               (case insert_chunks mem (rev ks) dropped n st1 of
                  Inl f \<Rightarrow> Inl f
                | Inr st' \<Rightarrow> Inr (n, st', src'))))"

definition removeTo_alter ::
  "(nat \<Rightarrow> byte list) \<Rightarrow> (nat \<Rightarrow> byte list) \<Rightarrow> nat \<Rightarrow> alter \<Rightarrow> alter \<Rightarrow> (nat \<times> alter \<times> alter) option" where
  "removeTo_alter mem mem' maxSize st dst =
     removeImpl mem (\<lambda>raw d. map_option snd (write_array mem' d (Some raw) (length raw)))
       (\<lambda>chunks n d. case insert_chunks mem' chunks False n d of Inl f \<Rightarrow> None | Inr d' \<Rightarrow> Some d')
       maxSize st dst"

text \<open>\<^verbatim>\<open>removeTo(Bytes&)\<close> appends to the destination through an alter at its end.\<close>

definition alter_at :: "buffer option \<Rightarrow> bool \<Rightarrow> nat \<Rightarrow> alter" where
  "alter_at bo posAtBegin k =
     \<lparr>al_container = True, al_buffer = bo, al_cursor = cursor_at bo posAtBegin, al_prep = None, al_new = k\<rparr>"

definition removeTo_Bytes ::
  "(nat \<Rightarrow> byte list) \<Rightarrow> (nat \<Rightarrow> byte list) \<Rightarrow> nat \<Rightarrow> alter \<Rightarrow> buffer option \<Rightarrow> (nat \<times> alter \<times> buffer option) option" where
  "removeTo_Bytes mem mem' maxSize st dst =
     map_option (\<lambda>(n, st', d). (n, st', al_buffer d))
       (removeTo_alter mem mem' maxSize st (alter_at dst False 0))"

subsection \<open>Inserting\<close>

text \<open>The cursor rests between two chunks, or at an end of the list.\<close>

definition between_chunks :: "alter \<Rightarrow> bool" where
  "between_chunks st \<longleftrightarrow> (case cu_chunk (al_cursor st) of None \<Rightarrow> True
     | Some i \<Rightarrow> \<not> (0 < cu_chunkPos (al_cursor st) \<and> cu_chunkPos (al_cursor st) < chunk_size (al_chunks st ! i)))"

lemma inserted_ok:
  assumes s1: "alter_ok s1" "al_chunks s1 \<noteq> [] \<or> al_buffer s1 \<noteq> None" and cs': "chunks_ok cs'"
    "length (contents cs') = length (alter_value s1) + n" "length (contents cs') < 2 ^ 32" "cursor_ok cs' cu'"
  shows "alter_ok (add_size n (set_chunks cs' (s1\<lparr>al_cursor := cu'\<rparr>)))"
    and "alter_value (add_size n (set_chunks cs' (s1\<lparr>al_cursor := cu'\<rparr>))) = contents cs'"
    and "alter_pos (add_size n (set_chunks cs' (s1\<lparr>al_cursor := cu'\<rparr>))) = cu_pos cu'"
    and "alter_share (add_size n (set_chunks cs' (s1\<lparr>al_cursor := cu'\<rparr>))) = alter_share s1"
proof -
  let ?st' = "add_size n (set_chunks cs' (s1\<lparr>al_cursor := cu'\<rparr>))"
  have b: "al_buffer s1 \<noteq> None"
    using s1(2) al_buffer_of_chunk by auto
  then have c: "al_chunks ?st' = cs'"
    by simp
  have "bytes_ok (al_buffer ?st')"
    using s1(1) b cs' by (intro bytes_ok_update(2)) (simp_all add: alter_ok_def alter_value_def)
  then show "alter_ok ?st'"
    using s1(1) cs'(4) c by (simp add: alter_ok_def)
  show "alter_value ?st' = contents cs'"
    using c by (simp add: alter_value_chunks)
qed (simp_all add: alter_pos_def)

text \<open>Chunks put between two others: the bytes and the place of the chunk that was at the cut.\<close>

lemma insert_contents:
  assumes "chunks_ok cs" "j \<le> length cs"
  shows "contents (take j cs @ src @ drop j cs) =
      take (start_of cs j) (contents cs) @ contents src @ drop (start_of cs j) (contents cs)"
    and "chunks_ok src \<Longrightarrow> start_of (take j cs @ src @ drop j cs) (j + length src) = start_of cs j + length (contents src)"
proof -
  have l: "length (contents (take j cs)) = start_of cs j"
    using assms(1) by (rule length_contents_take)
  have "contents cs = contents (take j cs) @ contents (drop j cs)"
    by (metis append_take_drop_id contents_simps(3))
  then show "contents (take j cs @ src @ drop j cs) =
      take (start_of cs j) (contents cs) @ contents src @ drop (start_of cs j) (contents cs)"
    using l by simp
  show "chunks_ok src \<Longrightarrow> start_of (take j cs @ src @ drop j cs) (j + length src) = start_of cs j + length (contents src)"
    using assms(2) by (simp add: start_of_def length_contents min_absorb1)
qed

lemma cursor_at_end_ok:
  assumes "chunks_ok cs" "cs \<noteq> []"
  shows "cursor_ok cs \<lparr>cu_chunk = Some (length cs - 1), cu_chunkPos = chunk_size (last cs), cu_pos = length (contents cs)\<rparr>"
  using assms by (intro at_last_ok) (simp_all add: at_last_def)

lemma insert_spec:
  assumes st: "alter_ok st0" "mem_ok mem" "cow_ok st0"
    and cow: "copyBufferBecauseOfWrite mem (st0\<lparr>al_prep := None\<rparr>) = Some s1" and between: "between_chunks s1"
    and src: "chunks_ok src" "src \<noteq> []" "n = length (contents src)" and bound: "length (alter_value st0) + n < 2 ^ 32"
  shows "\<exists>st'. insert_chunks mem src False n st0 = Inr st' \<and> alter_ok st' \<and>
     alter_value st' = take (alter_pos st0) (alter_value st0) @ contents src @ drop (alter_pos st0) (alter_value st0) \<and>
     alter_pos st' = alter_pos st0 + n \<and> alter_share st' = min 1 (alter_share st0)"
proof -
  have "alter_ok (st0\<lparr>al_prep := None\<rparr>)" "cow_ok (st0\<lparr>al_prep := None\<rparr>)"
    using st by (simp_all add: cow_ok_def)
  from copyBuffer_spec [OF this(1) st(2) this(2)] cow
  have s1: "alter_ok s1" "alter_value s1 = alter_value st0" "alter_pos s1 = alter_pos st0"
    "alter_share s1 = min 1 (alter_share st0)" "al_container s1"
    by (auto simp: alter_ok_def)
  let ?cs = "al_chunks s1" let ?cu = "al_cursor s1" let ?p = "alter_pos s1" let ?v = "alter_value s1"
  let ?srcEnd = "\<lparr>cu_chunk = Some (length src - 1), cu_chunkPos = chunk_size (last src), cu_pos = n\<rparr>"
  have cs: "chunks_ok ?cs" "?p \<le> length ?v"
    using s1(1) by (rule alter_chunks_ok, rule alter_pos_le)
  have src_end: "cursor_ok src ?srcEnd"
    using cursor_at_end_ok [OF src(1,2)] src(3) by simp
  have pos: "add32 (cu_pos ?cu) n = ?p + n"
    using cs(2) bound s1(2) by (simp add: alter_pos_def add32_eq)
  have run: "insert_chunks mem src False n st0 = Inr st' \<Longrightarrow> alter_ok st' \<Longrightarrow>
      alter_value st' = take ?p ?v @ contents src @ drop ?p ?v \<Longrightarrow> alter_pos st' = ?p + n \<Longrightarrow>
      alter_share st' = alter_share s1 \<Longrightarrow> ?thesis" for st'
    using s1 by auto
  note def = insert_chunks_def cow Let_def if_False if_True option.case
  show ?thesis
  proof (cases "cu_chunk ?cu")
    case None
    then have nil: "?cs = []" "?p = 0" "?v = []"
      using s1(1) by (simp_all add: alter_ok_def cursor_ok_def alter_pos_def alter_value_chunks)
    show ?thesis
    proof (cases "al_buffer s1")
      case b: None
      let ?st' = "s1\<lparr>al_buffer := Some (new_buffer src n), al_cursor := ?srcEnd\<rparr>"
      have "al_chunks ?st' = src"
        by (simp add: al_chunks_def buf_chunks_def new_buffer_def)
      then show ?thesis
        using st(1) b s1 src src_end nil bound
        by (intro run [of ?st'])
           (simp_all add: def alter_ok_def bytes_ok_def buffer_ok_def new_buffer_def alter_value_chunks alter_pos_def alter_share_def)
    next
      case (Some b)
      have "alter_ok (add_size n (set_chunks src (s1\<lparr>al_cursor := ?srcEnd\<rparr>)))"
        "alter_value (add_size n (set_chunks src (s1\<lparr>al_cursor := ?srcEnd\<rparr>))) = contents src"
        "alter_pos (add_size n (set_chunks src (s1\<lparr>al_cursor := ?srcEnd\<rparr>))) = n"
        "alter_share (add_size n (set_chunks src (s1\<lparr>al_cursor := ?srcEnd\<rparr>))) = alter_share s1"
        using inserted_ok [OF s1(1), of src n ?srcEnd] Some src src_end nil bound by simp_all
      then show ?thesis
        using st(1) Some None nil
        by (intro run [of "add_size n (set_chunks src (s1\<lparr>al_cursor := ?srcEnd\<rparr>))"]) (simp_all add: def alter_ok_def)
    qed
  next
    case (Some i)
    let ?cp = "cu_chunkPos ?cu" let ?c = "?cs ! i"
    have i: "i < length ?cs" "?cp \<le> chunk_size ?c" "?p = start_of ?cs i + ?cp" "?cs \<noteq> []"
      using s1(1) Some by (auto simp: alter_ok_def cursor_ok_def alter_pos_def)
    obtain b where b: "al_buffer s1 = Some b"
      using al_buffer_of_chunk [OF i(4)] by auto
    have nb: "\<not> (?cp > 0 \<and> ?cp < chunk_size ?c)"
      using between Some by (simp add: between_chunks_def)
    have ins: ?thesis
      if h: "j \<le> length ?cs" "start_of ?cs j = ?p" "cursor_ok (take j ?cs @ src @ drop j ?cs) cu'" "cu_pos cu' = ?p + n"
        "insert_chunks mem src False n st0 = Inr (add_size n (set_chunks (take j ?cs @ src @ drop j ?cs) (s1\<lparr>al_cursor := cu'\<rparr>)))"
      for j cu'
    proof -
      let ?cs' = "take j ?cs @ src @ drop j ?cs"
      have c: "contents ?cs' = take ?p ?v @ contents src @ drop ?p ?v"
        using insert_contents(1) [OF cs(1) h(1)] h(2) by (simp add: alter_value_chunks)
      have len: "length (contents ?cs') = length ?v + n"
        unfolding c using cs(2) src(3) by simp
      then have ok: "chunks_ok ?cs'" "length (contents ?cs') = length ?v + n" "length (contents ?cs') < 2 ^ 32"
        using cs src(1) bound s1(2) by (simp, blast, metis)
      have ne: "?cs \<noteq> [] \<or> al_buffer s1 \<noteq> None"
        using i(4) by simp
      from inserted_ok [OF s1(1) ne ok h(3)] h(4,5) c show ?thesis
        by (intro run [of "add_size n (set_chunks ?cs' (s1\<lparr>al_cursor := cu'\<rparr>))"]) simp_all
    qed
    consider (after) "?cp = chunk_size ?c" "Suc i < length ?cs" | (last) "?cp = chunk_size ?c" "Suc i = length ?cs"
      | (before) "?cp = 0" "0 < chunk_size ?c"
      using nb i chunk_size_pos [OF chunks_ok_nth [OF cs(1) i(1)]] by linarith
    then show ?thesis
    proof cases
      case after
      then show ?thesis
        using st(1) b Some nb i pos insert_contents(2) [OF cs(1), of "Suc i" src] src
        by (intro ins [of "Suc i" "\<lparr>cu_chunk = Some (Suc i + length src), cu_chunkPos = 0, cu_pos = ?p + n\<rparr>"])
           (simp_all add: def alter_ok_def start_of_Suc cursor_ok_def)
    next
      case last
      have "contents (?cs @ src) = contents ?cs @ contents src"
        by simp
      moreover have "length (contents ?cs) = ?p"
        using start_of_last [OF cs(1) last(2)] i last by simp
      ultimately show ?thesis
        using st(1) b Some nb i pos src last cs cursor_at_end_ok [of "?cs @ src"]
        by (intro ins [of "length ?cs" "\<lparr>cu_chunk = Some (length ?cs + length src - 1),
              cu_chunkPos = chunk_size (last src), cu_pos = ?p + n\<rparr>"])
           (simp_all add: def alter_ok_def start_of_length)
    next
      case before
      then show ?thesis
        using st(1) b Some nb i pos insert_contents(2) [OF cs(1), of i src] src
        by (intro ins [of i "\<lparr>cu_chunk = Some (i + length src), cu_chunkPos = ?cp, cu_pos = ?p + n\<rparr>"])
           (simp_all add: def alter_ok_def cursor_ok_def nth_append)
    qed
  qed
qed

lemma at_end_between:
  assumes "alter_ok s" "alter_pos s = length (alter_value s)"
  shows "between_chunks s"
proof (cases "cu_chunk (al_cursor s)")
  case (Some i)
  with assms start_of_le [OF alter_chunks_ok [OF assms(1)], of i] show ?thesis
    by (auto simp: between_chunks_def alter_ok_def cursor_ok_def alter_pos_def alter_value_chunks)
qed (simp add: between_chunks_def)

subsection \<open>An alter at its end as a destination\<close>

definition appendable :: "(nat \<Rightarrow> byte list) \<Rightarrow> nat \<Rightarrow> alter \<Rightarrow> bool" where
  "appendable mem m d \<longleftrightarrow> alter_ok d \<and> alter_pos d = length (alter_value d) \<and> mem_ok mem \<and> cow_ok d \<and>
     length (alter_value d) + m < 2 ^ 32"

interpretation appended: byte_collector "\<lambda>raw d. map_option snd (write_array mem d (Some raw) (length raw))"
    "\<lambda>chunks n d. case insert_chunks mem chunks False n d of Inl f \<Rightarrow> None | Inr d' \<Rightarrow> Some d'"
    "\<lambda>d xs d'. alter_value d' = alter_value d @ xs" "appendable mem" for mem
proof
  fix xs :: "byte list" and m d and mem
  assume d: "appendable mem (length xs + m) d" "xs \<noteq> []"
  have p: "alter_ok d" "mem_ok mem" "cow_ok d" "length (alter_value d) + length xs < 2 ^ 32"
    using d(1) by (simp_all add: appendable_def)
  obtain d' where "write_array mem d (Some xs) (length xs) = Some (length xs, d')" "alter_ok d'"
    "alter_value d' = put_at (alter_pos d) xs (alter_value d)" "alter_pos d' = alter_pos d + length xs"
    "alter_share d' = min 1 (alter_share d)"
    by (rule write_array_spec [OF p])
  then show "\<exists>d'. map_option snd (write_array mem d (Some xs) (length xs)) = Some d' \<and>
      alter_value d' = alter_value d @ xs \<and> appendable mem m d'"
    using d(1) by (intro exI [of _ d']) (simp add: appendable_def put_at_end cow_ok_def)
next
  fix cs m d and mem
  assume d: "appendable mem (length (contents cs) + m) d" and cs: "chunks_ok cs" "cs \<noteq> []"
  have st: "alter_ok d" "mem_ok mem" "cow_ok d" "alter_pos d = length (alter_value d)"
    using d by (simp_all add: appendable_def)
  obtain s1 where s1: "copyBufferBecauseOfWrite mem (d\<lparr>al_prep := None\<rparr>) = Some s1" "alter_ok s1"
    "alter_value s1 = alter_value d" "alter_pos s1 = alter_pos d"
    using copyBuffer_spec [of "d\<lparr>al_prep := None\<rparr>" mem] st by (auto simp: cow_ok_def)
  then have "between_chunks s1"
    using st(4) by (intro at_end_between) simp_all
  from insert_spec [OF st(1-3) s1(1) this cs refl] d obtain d' where
    "insert_chunks mem cs False (length (contents cs)) d = Inr d'" "alter_ok d'"
    "alter_value d' = alter_value d @ contents cs" "alter_pos d' = alter_pos d + length (contents cs)"
    "alter_share d' = min 1 (alter_share d)"
    by (auto simp: appendable_def)
  then show "\<exists>d'. (case insert_chunks mem cs False (length (contents cs)) d of Inl f \<Rightarrow> None | Inr d' \<Rightarrow> Some d') = Some d' \<and>
      alter_value d' = alter_value d @ contents cs \<and> appendable mem m d'"
    using d by (intro exI [of _ d']) (simp add: appendable_def cow_ok_def)
qed simp_all

subsection \<open>Properties\<close>

text \<open>Linking chunks in where the cursor stands between two chunks inserts their bytes at the cursor,
  moves the cursor behind them and keeps the invariants of the list.\<close>

theorem insert_chunks_inserts:
  assumes "alter_ok st" "mem_ok mem" "cow_ok st" "copyBufferBecauseOfWrite mem (st\<lparr>al_prep := None\<rparr>) = Some s1"
    "between_chunks s1" "chunks_ok src" "src \<noteq> []" "n = length (contents src)" "length (alter_value st) + n < 2 ^ 32"
  shows "\<exists>st'. insert_chunks mem src False n st = Inr st' \<and> alter_ok st' \<and>
     alter_value st' = take (alter_pos st) (alter_value st) @ contents src @ drop (alter_pos st) (alter_value st) \<and>
     alter_pos st' = alter_pos st + n"
  using insert_spec [OF assms] by blast

theorem insert_chunks_inserts_witness:
  "\<exists>st'. insert_chunks (\<lambda>_. replicate bufferSize 0) [chunk_of [7, 8]] False 2
      ((sample_alter 1)\<lparr>al_cursor := \<lparr>cu_chunk = Some 1, cu_chunkPos = 0, cu_pos = 2\<rparr>\<rparr>) = Inr st' \<and>
    alter_value st' = [1, 2, 7, 8, 3, 4, 5]"
proof -
  let ?s = "(sample_alter 1)\<lparr>al_cursor := \<lparr>cu_chunk = Some 1, cu_chunkPos = 0, cu_pos = 2\<rparr>\<rparr>"
  have s: "alter_ok ?s" "cow_ok ?s" "between_chunks (?s\<lparr>al_prep := None\<rparr>)" "alter_share (?s\<lparr>al_prep := None\<rparr>) \<le> 1"
    by (simp_all add: sample_alter_def alter_ok_def bytes_ok_def buffer_ok_def al_chunks_def buf_chunks_def
        cursor_ok_def start_of_def alter_share_def cow_ok_def between_chunks_def)
  have v: "alter_value ?s = [1, 2, 3, 4, 5]" "alter_pos ?s = 2"
    by (simp_all add: sample_alter_def alter_value_def value_of_def buf_chunks_def alter_pos_def)
  have src: "chunks_ok [chunk_of [7, 8]]" "[chunk_of [7, 8]] \<noteq> []" "2 = length (contents [chunk_of [7, 8]])"
    by simp_all
  have "length (alter_value ?s) + 2 < 2 ^ 32"
    unfolding v by simp
  from insert_chunks_inserts [OF s(1) sample_mem_ok s(2) copyBuffer_unshared [OF s(4)] s(3) src this]
  show ?thesis
    unfolding v by auto
qed

text \<open>Removing from one container to another takes the bytes after the cursor out of the first
  and appends them, in order, to the second, by copying parts of chunks and moving whole chunks.\<close>

theorem removeTo_Bytes_moves:
  assumes "alter_ok st" "mem_ok mem" "cow_ok st" "cursor_normal (al_chunks st) (al_cursor st)"
    and "copyBufferBecauseOfWrite mem (st\<lparr>al_prep := None\<rparr>) = Some s1"
    and "n = min maxSize (length (alter_value st) - alter_pos st)" "\<not> cuts_inside n s1"
    and dst: "bytes_ok dst" "mem_ok mem'" "cow_ok (alter_at dst False 0)" "length (value_of dst) + n < 2 ^ 32"
  shows "\<exists>st' dst'. removeTo_Bytes mem mem' maxSize st dst = Some (n, st', dst') \<and> alter_ok st' \<and>
     alter_value st' = take (alter_pos st) (alter_value st) @ drop (alter_pos st + n) (alter_value st) \<and>
     alter_pos st' = alter_pos st \<and> bytes_ok dst' \<and>
     value_of dst' = value_of dst @ take n (drop (alter_pos st) (alter_value st))"
proof -
  let ?d = "alter_at dst False 0"
  have g: "cursor_good (buf_chunks dst) (cursor_at dst False)"
    using cursor_at_good [OF dst(1)] by blast
  have "cu_pos (cursor_at dst False) = bytes_size dst"
    by (simp add: cursor_at_def bytes_size_def Let_def split: option.splits)
  then have "appendable mem' (n + 0) ?d"
    using dst g bytes_size_value [OF dst(1)]
    by (simp add: appendable_def alter_at_def alter_ok_def al_chunks_def cursor_good_def alter_pos_def alter_value_def)
  from appended.remove_spec [OF assms(1-7) this] obtain st' d' where
    "removeTo_alter mem mem' maxSize st ?d = Some (n, st', d')" "alter_ok st'"
    "alter_value st' = take (alter_pos st) (alter_value st) @ drop (alter_pos st + n) (alter_value st)"
    "alter_pos st' = alter_pos st" "appendable mem' 0 d'"
    "alter_value d' = alter_value ?d @ take n (drop (alter_pos st) (alter_value st))"
    by (auto simp: removeTo_alter_def)
  then show ?thesis
    by (auto simp: removeTo_Bytes_def appendable_def alter_ok_def alter_value_def alter_at_def)
qed

theorem removeTo_Bytes_moves_witness:
  "\<exists>st' dst'. removeTo_Bytes (\<lambda>_. replicate bufferSize 0) (\<lambda>_. replicate bufferSize 0) 3 (sample_alter 1)
      (Some \<lparr>bf_chunks = [chunk_of [9]], bf_size = 1, bf_share = 1\<rparr>) = Some (3, st', dst') \<and>
    alter_value st' = [1, 5] \<and> value_of dst' = [9, 2, 3, 4]"
proof -
  let ?s = "(sample_alter 1)\<lparr>al_prep := None\<rparr>"
  let ?d = "Some \<lparr>bf_chunks = [chunk_of [9]], bf_size = 1, bf_share = 1\<rparr>"
  have c: "cow_ok (sample_alter 1)" "cursor_normal (al_chunks (sample_alter 1)) (al_cursor (sample_alter 1))"
    by (simp add: cow_ok_def sample_alter_facts) (simp add: cursor_normal_def sample_alter_def al_chunks_def buf_chunks_def)
  have cow: "copyBufferBecauseOfWrite (\<lambda>_. replicate bufferSize 0) ?s = Some ?s"
    by (simp add: copyBuffer_unshared sample_alter_facts)
  have inside: "\<not> cuts_inside 3 ?s"
    by (simp add: cuts_inside_def sample_alter_def al_chunks_def buf_chunks_def)
  have n: "3 = min 3 (length (alter_value (sample_alter 1)) - alter_pos (sample_alter 1))"
    by (simp add: sample_alter_facts)
  have v: "value_of ?d = [9]"
    by (simp add: value_of_def buf_chunks_def)
  have d: "bytes_ok ?d" "cow_ok (alter_at ?d False 0)"
    by (simp_all add: bytes_ok_def buffer_ok_def alter_at_def cow_ok_def alter_share_def)
  have "length (value_of ?d) + 3 < 2 ^ 32"
    unfolding v by simp
  from removeTo_Bytes_moves [OF sample_alter_facts(1) sample_mem_ok c cow n inside d(1) sample_mem_ok d(2) this]
  show ?thesis
    unfolding sample_alter_facts v by auto
qed

lemma bytes_empty_value: "bytes_ok bo \<Longrightarrow> bytes_empty bo \<longleftrightarrow> value_of bo = []"
  by (auto simp: bytes_empty_def bytes_size_value value_of_def buf_chunks_def)

lemma trim_rev_fits: "ks \<noteq> [] \<Longrightarrow> n \<le> maxSize \<Longrightarrow> trim_rev ks n maxSize d = Some (ks, n, d)"
  by (cases ks) simp_all

text \<open>Moving an unshared container of at most \<open>maxSize\<close> bytes into another one inserts all of its
  bytes at the cursor, where that stands between two chunks, and leaves the source empty.\<close>

theorem move_Bytes_inserts:
  assumes st: "alter_ok st" "mem_ok mem" "alter_share st \<le> 1" "between_chunks st"
    and src: "bytes_ok (Some b)" "bf_share b \<le> 1" "value_of (Some b) \<noteq> []" "length (value_of (Some b)) \<le> maxSize"
    and bound: "length (alter_value st) + length (value_of (Some b)) < 2 ^ 32"
  shows "\<exists>st' src'. move_Bytes mem st (Some b) maxSize = Inr (length (value_of (Some b)), st', src') \<and> alter_ok st' \<and>
     alter_value st' = take (alter_pos st) (alter_value st) @ value_of (Some b) @ drop (alter_pos st) (alter_value st) \<and>
     alter_pos st' = alter_pos st + length (value_of (Some b)) \<and> bytes_ok src' \<and> value_of src' = []"
proof -
  let ?s = "st\<lparr>al_prep := None\<rparr>" let ?n = "length (value_of (Some b))"
  have s: "alter_ok ?s" "cow_ok ?s" "between_chunks ?s"
    using st by (simp_all add: cow_ok_def between_chunks_def split: option.splits)
  have cow: "copyBufferBecauseOfWrite mem ?s = Some ?s"
    using st(3) by (simp add: copyBuffer_unshared)
  then have cow2: "copyBufferBecauseOfWrite mem (?s\<lparr>al_prep := None\<rparr>) = Some ?s"
    by simp
  have b: "chunks_ok (bf_chunks b)" "bf_chunks b \<noteq> []" "?n = length (contents (bf_chunks b))" "bf_size b = ?n"
    using src by (auto simp: bytes_ok_def buffer_ok_def value_of_def buf_chunks_def)
  have "length (alter_value ?s) + ?n < 2 ^ 32"
    using bound by simp
  from insert_spec [OF s(1) st(2) s(2) cow2 s(3) b(1-3) this] obtain st' where
    ins: "insert_chunks mem (bf_chunks b) False ?n ?s = Inr st'" "alter_ok st'"
    "alter_value st' = take (alter_pos st) (alter_value st) @ contents (bf_chunks b) @ drop (alter_pos st) (alter_value st)"
    "alter_pos st' = alter_pos st + ?n"
    by auto
  have "trim_rev (rev (bf_chunks b)) ?n maxSize False = Some (rev (bf_chunks b), ?n, False)"
    using b(2) src(4) by (simp add: trim_rev_fits)
  moreover have "\<not> bytes_empty (Some b)" "0 < maxSize"
    using bytes_empty_value [OF src(1)] src(3,4) by (auto simp: length_greater_0_conv [symmetric] simp del: length_greater_0_conv)
  ultimately have "move_Bytes mem st (Some b) maxSize =
      Inr (?n, st', Some (b\<lparr>bf_chunks := [], bf_size := 0\<rparr>))"
    using src(2) cow ins(1) b(4) by (simp add: move_Bytes_def buf_chunks_def bytes_size_def)
  then show ?thesis
    using ins by (simp add: bytes_ok_def buffer_ok_def) (simp add: value_of_def buf_chunks_def)
qed

theorem move_Bytes_inserts_witness:
  "\<exists>st' src'. move_Bytes (\<lambda>_. replicate bufferSize 0)
      ((sample_alter 1)\<lparr>al_cursor := \<lparr>cu_chunk = Some 1, cu_chunkPos = 3, cu_pos = 5\<rparr>\<rparr>)
      (Some \<lparr>bf_chunks = [chunk_of [7], chunk_of [8]], bf_size = 2, bf_share = 1\<rparr>) 2 = Inr (2, st', src') \<and>
    alter_value st' = [1, 2, 3, 4, 5, 7, 8] \<and> value_of src' = []"
proof -
  let ?s = "(sample_alter 1)\<lparr>al_cursor := \<lparr>cu_chunk = Some 1, cu_chunkPos = 3, cu_pos = 5\<rparr>\<rparr>"
  let ?b = "\<lparr>bf_chunks = [chunk_of [7], chunk_of [8]], bf_size = 2, bf_share = 1\<rparr>"
  have s: "alter_ok ?s" "alter_share ?s \<le> 1" "between_chunks ?s"
    by (simp_all add: sample_alter_def alter_ok_def bytes_ok_def buffer_ok_def al_chunks_def buf_chunks_def
        cursor_ok_def start_of_def alter_share_def between_chunks_def)
  have v: "alter_value ?s = [1, 2, 3, 4, 5]" "alter_pos ?s = 5" "value_of (Some ?b) = [7, 8]"
    by (simp_all add: sample_alter_def alter_value_def value_of_def buf_chunks_def alter_pos_def)
  have b: "bytes_ok (Some ?b)" "bf_share ?b \<le> 1" "value_of (Some ?b) \<noteq> []" "length (value_of (Some ?b)) \<le> 2"
    by (simp add: bytes_ok_def buffer_ok_def, simp, simp_all only: v) simp_all
  have "length (alter_value ?s) + length (value_of (Some ?b)) < 2 ^ 32"
    unfolding v by simp
  from move_Bytes_inserts [OF s(1) sample_mem_ok s(2,3) b this] show ?thesis
    unfolding v by (auto simp: numeral_2_eq_2)
qed

lemma setEnd_smaller:
  "chunk_ok k \<Longrightarrow> m \<le> chunk_size k \<Longrightarrow> chunk_size (setEnd (ch_end k - m) k) = chunk_size k - m"
  by (subst chunk_size_eq) (auto simp: setEnd_def chunk_size_ok chunk_ok_def)

text \<open>Trimming counts more bytes than it leaves.\<close>

lemma trim_rev_oversize:
  assumes "chunks_ok ks" "n = sum_list (map chunk_size ks)" "0 < maxSize" "maxSize < n"
  shows "\<exists>ks' n' d'. trim_rev ks n maxSize d = Some (ks', n', d') \<and> maxSize < n' \<and> n' \<le> n \<and>
     sum_list (map chunk_size ks') = maxSize \<and> ks' \<noteq> []"
  using assms
proof (induction ks arbitrary: n d)
  case Nil
  then show ?case by simp
next
  case (Cons k ks)
  show ?case
  proof (cases "n - maxSize > chunk_size k")
    case True
    then have "ks \<noteq> []"
      using Cons.prems by auto
    moreover have "\<exists>ks' n' d'. trim_rev ks (n - chunk_size k) maxSize True = Some (ks', n', d') \<and> maxSize < n' \<and>
        n' \<le> n - chunk_size k \<and> sum_list (map chunk_size ks') = maxSize \<and> ks' \<noteq> []"
      using Cons.prems True by (intro Cons.IH) auto
    ultimately show ?thesis
      using True Cons.prems by auto
  next
    case False
    then show ?thesis
      using Cons.prems setEnd_smaller [of k "n - maxSize"] by simp
  qed
qed

text \<open>Moving an unshared container of more than \<open>maxSize\<close> bytes into a container without a buffer
  goes wrong: either the last chunk taken still points to a deleted one, or the call reports more
  than \<open>maxSize\<close> bytes and the buffer counts bytes that its chunks do not hold.\<close>

theorem move_Bytes_oversize:
  assumes st: "alter_ok st" "al_buffer st = None"
    and src: "bytes_ok (Some b)" "bf_share b \<le> 1" "0 < maxSize" "maxSize < length (value_of (Some b))"
  shows "move_Bytes mem st (Some b) maxSize = Inl Dangling \<or>
     (\<exists>n st' b' src'. move_Bytes mem st (Some b) maxSize = Inr (n, st', src') \<and> maxSize < n \<and>
        al_buffer st' = Some b' \<and> \<not> buffer_consistent b')"
proof -
  let ?s = "st\<lparr>al_prep := None\<rparr>"
  have cow: "copyBufferBecauseOfWrite mem ?s = Some ?s"
    using st(2) by (simp add: copyBufferBecauseOfWrite_def)
  have b: "chunks_ok (bf_chunks b)" "bf_size b = length (contents (bf_chunks b))" "bf_size b < 2 ^ 32"
    using src by (simp_all add: bytes_ok_def buffer_ok_def)
  have size: "bf_size b = sum_list (map chunk_size (rev (bf_chunks b)))" "chunks_ok (rev (bf_chunks b))"
    using b by (simp_all add: length_contents rev_map [symmetric] chunks_ok_def)
  have big: "maxSize < bf_size b"
    using src(4) b(2) by (simp add: value_of_def buf_chunks_def)
  from trim_rev_oversize [OF size(2,1) src(3) this, of False] obtain ks n d where
    t: "trim_rev (rev (bf_chunks b)) (bf_size b) maxSize False = Some (ks, n, d)" "maxSize < n" "n \<le> bf_size b"
    "sum_list (map chunk_size ks) = maxSize" "ks \<noteq> []"
    by auto
  have run: "move_Bytes mem st (Some b) maxSize =
      (case insert_chunks mem (rev ks) d n ?s of Inl f \<Rightarrow> Inl f
       | Inr st' \<Rightarrow> Inr (n, st', Some (b\<lparr>bf_chunks := [], bf_size := 0\<rparr>)))"
    using src(2,3) big cow t(1) by (simp add: move_Bytes_def bytes_empty_def bytes_size_def buf_chunks_def)
  have nil: "cu_chunk (al_cursor st) = None"
    using st by (auto simp: alter_ok_def al_chunks_def buf_chunks_def cursor_ok_def split: option.splits)
  have ins: "insert_chunks mem (rev ks) d n ?s = (if d then Inl Dangling
      else Inr (?s\<lparr>al_buffer := Some (new_buffer (rev ks) n), al_cursor :=
        \<lparr>cu_chunk = Some (length (rev ks) - 1), cu_chunkPos = chunk_size (last (rev ks)), cu_pos = n\<rparr>\<rparr>))"
    using st cow nil by (simp add: insert_chunks_def alter_ok_def)
  have "sum_list (map chunk_size (rev ks)) = maxSize"
    using t(4) by (simp add: rev_map [symmetric])
  then have "\<not> buffer_consistent (new_buffer (rev ks) n)"
    using t(2,3) b(3) by (simp add: buffer_consistent_def new_buffer_def)
  then show ?thesis
    using run ins t(2) by (cases d) simp_all
qed

theorem move_Bytes_oversize_witness:
  "move_Bytes (\<lambda>_. replicate bufferSize 0) (alter_at None True 0)
     (Some \<lparr>bf_chunks = [chunk_of [1, 2, 3]], bf_size = 3, bf_share = 1\<rparr>) 2 = Inl Dangling \<or>
   (\<exists>n st' b' src'. move_Bytes (\<lambda>_. replicate bufferSize 0) (alter_at None True 0)
     (Some \<lparr>bf_chunks = [chunk_of [1, 2, 3]], bf_size = 3, bf_share = 1\<rparr>) 2 = Inr (n, st', src') \<and> 2 < n \<and>
     al_buffer st' = Some b' \<and> \<not> buffer_consistent b')"
proof (rule move_Bytes_oversize)
  show "alter_ok (alter_at None True 0)"
    by (simp add: alter_ok_def alter_at_def bytes_ok_def al_chunks_def buf_chunks_def cursor_at_def cursor_ok_def)
qed (simp_all add: alter_at_def bytes_ok_def buffer_ok_def value_of_def buf_chunks_def)

end
