(* ===== verification/ChunkLinks.thy ===== *)
theory ChunkLinks
  imports Prelude
begin

section \<open>The links of a chunk list\<close>

text \<open>
  The pointer level of \<^verbatim>\<open>Alter::write(Chunk*, Chunk*, uint32)\<close>: a store of nodes with their
  \<^verbatim>\<open>_next\<close> and \<^verbatim>\<open>_prev\<close> pointers, and the assignments of the splicing branches in the order of
  the code. \<open>chain h p xs q\<close> says that the nodes \<open>xs\<close> are linked in order, with \<open>p\<close> before the first and
  \<open>q\<close> behind the last. The list view of \<open>Moves\<close> rests on this: the branches between two chunks
  splice the run in, while the branch that splits a chunk ties its two halves into a cycle.
\<close>

record node =
  nd_next :: "nat option"
  nd_prev :: "nat option"

type_synonym links = "nat \<Rightarrow> node"

definition setNext :: "nat \<Rightarrow> nat option \<Rightarrow> links \<Rightarrow> links" where
  "setNext x v h = h(x := (h x)\<lparr>nd_next := v\<rparr>)"

definition setPrev :: "nat \<Rightarrow> nat option \<Rightarrow> links \<Rightarrow> links" where
  "setPrev x v h = h(x := (h x)\<lparr>nd_prev := v\<rparr>)"

text \<open>The constructor \<^verbatim>\<open>Chunk(next, prev, begin, end)\<close> on the fresh node \<open>x\<close>.\<close>

definition newChunk :: "nat \<Rightarrow> nat option \<Rightarrow> nat option \<Rightarrow> links \<Rightarrow> links" where
  "newChunk x nxt prv h = h(x := \<lparr>nd_next = nxt, nd_prev = prv\<rparr>)"

text \<open>Behind the current chunk, in front of it, and the split of it; \<open>cur\<close> is \<^verbatim>\<open>_chunk\<close>.\<close>

definition link_after :: "nat \<Rightarrow> nat \<Rightarrow> nat \<Rightarrow> links \<Rightarrow> links" where
  "link_after cur srcFirst srcLast h =
     (case nd_next (h cur) of
        Some nx \<Rightarrow>
          (let h1 = setPrev nx (Some srcLast) h;
               h2 = setNext srcLast (nd_next (h1 cur)) h1;
               h3 = setNext cur (Some srcFirst) h2
           in setPrev srcFirst (Some cur) h3)
      | None \<Rightarrow>
          (let h1 = setNext srcLast None h; h2 = setNext cur (Some srcFirst) h1
           in setPrev srcFirst (Some cur) h2))"

definition link_before :: "nat \<Rightarrow> nat \<Rightarrow> nat \<Rightarrow> links \<Rightarrow> links" where
  "link_before cur srcFirst srcLast h =
     (case nd_prev (h cur) of
        Some pv \<Rightarrow>
          (let h1 = setNext pv (Some srcFirst) h;
               h2 = setPrev srcFirst (nd_prev (h1 cur)) h1;
               h3 = setNext srcLast (Some cur) h2
           in setPrev cur (Some srcLast) h3)
      | None \<Rightarrow>
          (let h1 = setPrev cur (Some srcLast) h in setNext srcLast (Some cur) h1))"

definition link_split :: "nat \<Rightarrow> nat \<Rightarrow> links \<Rightarrow> links" where
  "link_split cur next h =
     (let h1 = newChunk next (Some cur) (nd_next (h cur)) h;
          h2 = (case nd_next (h1 next) of None \<Rightarrow> h1 | Some nn \<Rightarrow> setPrev nn (Some next) h1)
      in setNext cur (Some next) h2)"

subsection \<open>Chains\<close>

fun chain :: "links \<Rightarrow> nat option \<Rightarrow> nat list \<Rightarrow> nat option \<Rightarrow> bool" where
  "chain h p [] q \<longleftrightarrow> True"
| "chain h p [x] q \<longleftrightarrow> nd_prev (h x) = p \<and> nd_next (h x) = q"
| "chain h p (x # y # ys) q \<longleftrightarrow> nd_prev (h x) = p \<and> nd_next (h x) = Some y \<and> chain h (Some x) (y # ys) q"

definition chunk_chain :: "links \<Rightarrow> nat list \<Rightarrow> bool" where
  "chunk_chain h xs \<longleftrightarrow> distinct xs \<and> chain h None xs None"

lemma chain_frame:
  "y \<notin> set xs \<Longrightarrow> chain (setNext y v h) p xs q = chain h p xs q"
  "y \<notin> set xs \<Longrightarrow> chain (setPrev y v h) p xs q = chain h p xs q"
  by (induction h p xs q rule: chain.induct) (auto simp: setNext_def setPrev_def)

lemma chain_frame_new: "y \<notin> set xs \<Longrightarrow> chain (newChunk y a b h) p xs q = chain h p xs q"
  by (induction h p xs q rule: chain.induct) (auto simp: newChunk_def)

lemma chain_setNext: "chain h p (xs @ [x]) q \<Longrightarrow> x \<notin> set xs \<Longrightarrow> chain (setNext x v h) p (xs @ [x]) v"
proof (induction xs arbitrary: p)
  case (Cons a xs)
  then show ?case by (cases xs) (auto simp: setNext_def)
qed (simp add: setNext_def)

lemma chain_setPrev: "chain h p (x # xs) q \<Longrightarrow> x \<notin> set xs \<Longrightarrow> chain (setPrev x v h) v (x # xs) q"
  by (cases xs) (auto simp: setPrev_def chain_frame(2) [unfolded setPrev_def])

lemma chain_append:
  "xs \<noteq> [] \<Longrightarrow> ys \<noteq> [] \<Longrightarrow>
     chain h p (xs @ ys) q \<longleftrightarrow> chain h p xs (Some (hd ys)) \<and> chain h (Some (last xs)) ys q"
proof (induction xs arbitrary: p)
  case (Cons a xs)
  then show ?case by (cases xs; cases ys) auto
qed simp

text \<open>Two chains become one when the end of the first and the beginning of the second are tied.\<close>

lemma chain_tie:
  assumes "chain h p (xs @ [x]) q" "chain h p' (y # ys) q'" "distinct (xs @ [x] @ y # ys)"
  shows "chain (setPrev y (Some x) (setNext x (Some y) h)) p (xs @ [x] @ y # ys) q'"
    and "chain (setNext x (Some y) (setPrev y (Some x) h)) p (xs @ [x] @ y # ys) q'"
proof -
  have a: "chain (setNext x (Some y) h) p (xs @ [x]) (Some y)" "chain (setPrev y (Some x) h) (Some x) (y # ys) q'"
    using assms by (auto intro: chain_setNext chain_setPrev)
  have "chain (setPrev y (Some x) (setNext x (Some y) h)) p (xs @ [x]) (Some y)"
    "chain (setNext x (Some y) (setPrev y (Some x) h)) (Some x) (y # ys) q'"
    using a assms(3) by (auto simp: chain_frame simp del: chain.simps)
  moreover have "setPrev y (Some x) (setNext x (Some y) h) = setNext x (Some y) (setPrev y (Some x) h)"
    using assms(3) by (auto simp: setPrev_def setNext_def fun_eq_iff)
  ultimately show "chain (setPrev y (Some x) (setNext x (Some y) h)) p (xs @ [x] @ y # ys) q'"
    and "chain (setNext x (Some y) (setPrev y (Some x) h)) p (xs @ [x] @ y # ys) q'"
    using chain_append [of "xs @ [x]" "y # ys"] by (auto simp del: chain.simps)
qed

lemma chain_prev_hd: "chain h p xs q \<Longrightarrow> xs \<noteq> [] \<Longrightarrow> nd_prev (h (hd xs)) = p"
  by (cases xs rule: remdups_adj.cases) auto

lemma chain_next_last: "chain h p (xs @ [x]) q \<Longrightarrow> nd_next (h x) = q"
proof (induction xs arbitrary: p)
  case (Cons a xs)
  then show ?case by (cases xs) auto
qed simp

subsection \<open>Splicing\<close>

lemma link_after_chain:
  assumes "chunk_chain h (xs @ cur # ys)" "chain h p' (first # mid @ [lst]) q'"
    "distinct (xs @ cur # first # mid @ lst # ys)"
  shows "chunk_chain (link_after cur first lst h) (xs @ cur # first # mid @ lst # ys)"
proof -
  let ?src = "first # mid @ [lst]"
  have c: "chain h None (xs @ cur # ys) None"
    using assms(1) by (simp add: chunk_chain_def)
  show ?thesis
  proof (cases ys)
    case Nil
    then have cur: "nd_next (h cur) = None"
      using c chain_next_last [of h None xs cur None] by simp
    have "chain (setNext lst None h) p' ?src None"
      using assms chain_setNext [of h p' "first # mid" lst q' None] by simp
    moreover have "chain (setNext lst None h) None (xs @ [cur]) None"
      using c Nil assms(3) by (simp add: chain_frame)
    ultimately have "chain (setPrev first (Some cur) (setNext cur (Some first) (setNext lst None h)))
        None (xs @ [cur] @ ?src) None"
      using assms(3) Nil by (intro chain_tie(1)) auto
    then show ?thesis
      using assms(3) cur Nil by (simp add: link_after_def chunk_chain_def Let_def)
  next
    case (Cons n zs)
    have c1: "chain h None (xs @ [cur]) (Some n)" "chain h (Some cur) (n # zs) None"
      using c Cons chain_append [of "xs @ [cur]" "n # zs" h None None] by (auto simp del: chain.simps)
    then have cur: "nd_next (h cur) = Some n"
      using chain_next_last by blast
    let ?h2 = "setNext lst (Some n) (setPrev n (Some lst) h)"
    have "chain ?h2 p' (?src @ n # zs) None"
      using chain_tie(2) [of h p' "first # mid" lst q' "Some cur" n zs None] assms(2,3) c1(2) Cons by auto
    moreover have "chain ?h2 None (xs @ [cur]) (Some n)"
      using c1(1) assms(3) Cons by (simp add: chain_frame del: chain.simps)
    ultimately have "chain (setPrev first (Some cur) (setNext cur (Some first) ?h2))
        None (xs @ [cur] @ ?src @ n # zs) None"
      using assms(3) Cons chain_tie(1) [of ?h2 None xs cur "Some n" p' first "mid @ [lst] @ n # zs" None] by auto
    moreover have "nd_next (setPrev n (Some lst) h cur) = Some n"
      using cur by (auto simp: setPrev_def)
    ultimately show ?thesis
      using assms(3) cur Cons by (simp add: link_after_def chunk_chain_def Let_def)
  qed
qed

lemma link_before_chain:
  assumes "chunk_chain h (xs @ cur # ys)" "chain h None (first # mid @ [lst]) q'"
    "distinct (xs @ first # mid @ lst # cur # ys)"
  shows "chunk_chain (link_before cur first lst h) (xs @ first # mid @ lst # cur # ys)"
proof -
  let ?src = "first # mid @ [lst]"
  have c: "chain h None (xs @ cur # ys) None"
    using assms(1) by (simp add: chunk_chain_def)
  show ?thesis
  proof (cases xs rule: rev_cases)
    case Nil
    then have cur: "nd_prev (h cur) = None"
      using c chain_prev_hd by fastforce
    have "chain (setNext lst (Some cur) (setPrev cur (Some lst) h)) None (?src @ cur # ys) None"
      using chain_tie(2) [of h None "first # mid" lst q' None cur ys None] assms(2,3) c Nil by auto
    then show ?thesis
      using assms(3) cur Nil by (simp add: link_before_def chunk_chain_def Let_def)
  next
    case (snoc zs pv)
    have c1: "chain h None (zs @ [pv]) (Some cur)" "chain h (Some pv) (cur # ys) None"
      using c snoc chain_append [of "zs @ [pv]" "cur # ys" h None None] by (auto simp del: chain.simps)
    then have cur: "nd_prev (h cur) = Some pv"
      using chain_prev_hd by fastforce
    let ?h2 = "setPrev first (Some pv) (setNext pv (Some first) h)"
    have "chain ?h2 None (zs @ [pv] @ ?src) q'"
      using chain_tie(1) [of h None zs pv "Some cur" None first "mid @ [lst]" q'] c1(1) assms(2,3) snoc by auto
    moreover have "chain ?h2 (Some pv) (cur # ys) None"
      using c1(2) assms(3) snoc by (auto simp: chain_frame simp del: chain.simps)
    ultimately have "chain (setPrev cur (Some lst) (setNext lst (Some cur) ?h2))
        None ((zs @ [pv] @ first # mid) @ [lst] @ cur # ys) None"
      using assms(3) snoc chain_tie(1) [of ?h2 None "zs @ [pv] @ first # mid" lst q' "Some pv" cur ys None] by auto
    moreover have "nd_prev (setNext pv (Some first) h cur) = Some pv"
      using cur by (auto simp: setNext_def)
    ultimately show ?thesis
      using assms(3) cur snoc by (simp add: link_before_def chunk_chain_def Let_def)
  qed
qed

text \<open>Following \<^verbatim>\<open>next()\<close> \<open>n\<close> times.\<close>

fun walk :: "links \<Rightarrow> nat \<Rightarrow> nat \<Rightarrow> nat option" where
  "walk h 0 x = Some x"
| "walk h (Suc n) x = (case nd_next (h x) of None \<Rightarrow> None | Some y \<Rightarrow> walk h n y)"

lemma walk_closed:
  assumes "x \<in> S" "\<And>y. y \<in> S \<Longrightarrow> \<exists>z\<in>S. nd_next (h y) = Some z"
  shows "\<exists>y\<in>S. walk h n x = Some y"
  using assms(1)
proof (induction n arbitrary: x)
  case (Suc n)
  then show ?case
    using assms(2) [of x] by auto
qed simp

lemma chain_next_mem:
  "chain h p (xs @ [x]) (Some q) \<Longrightarrow> y \<in> set (xs @ [x]) \<Longrightarrow> \<exists>z\<in>insert q (set (xs @ [x])). nd_next (h y) = Some z"
proof (induction xs arbitrary: p)
  case (Cons a xs)
  then show ?case by (cases xs) auto
qed simp

text \<open>The links of a run of chunks put behind or in front of the current chunk: the chain stays a
  doubly linked list from a null pointer to a null pointer, with the run in its place.\<close>

theorem splice_keeps_chain:
  assumes "chunk_chain h (xs @ cur # ys)" "chain h None (first # mid @ [lst]) None"
    "distinct (first # mid @ lst # xs @ cur # ys)"
  shows "chunk_chain (link_after cur first lst h) (xs @ cur # first # mid @ lst # ys) \<and>
    chunk_chain (link_before cur first lst h) (xs @ first # mid @ lst # cur # ys)"
  using assms link_after_chain [OF assms(1,2)] link_before_chain [OF assms(1,2)] by auto

definition sample_links :: links where
  "sample_links = (\<lambda>x. \<lparr>nd_next = None, nd_prev = None\<rparr>)
     (0 := \<lparr>nd_next = Some 1, nd_prev = None\<rparr>, 1 := \<lparr>nd_next = None, nd_prev = Some 0\<rparr>,
      5 := \<lparr>nd_next = Some 6, nd_prev = None\<rparr>, 6 := \<lparr>nd_next = None, nd_prev = Some 5\<rparr>)"

theorem splice_keeps_chain_witness:
  "chunk_chain (link_after 0 5 6 sample_links) [0, 5, 6, 1] \<and> chunk_chain (link_before 0 5 6 sample_links) [5, 6, 0, 1]"
proof -
  have "chunk_chain sample_links ([] @ 0 # [1])" "chain sample_links None (5 # [] @ [6]) None"
    "distinct (5 # [] @ 6 # [] @ 0 # [1 :: nat])"
    by (simp_all add: chunk_chain_def sample_links_def)
  from splice_keeps_chain [OF this] show ?thesis by simp
qed

text \<open>C40. The branch that splits the current chunk passes the constructor's pointers in the wrong order:
  after it, following the list from the current chunk never comes to the null pointer, and the
  chunks that were behind the current one are not reached.\<close>

theorem split_makes_cycle:
  assumes "chunk_chain h (xs @ cur # ys)" "chain h None (first # mid @ [lst]) None"
    "distinct (new # first # mid @ lst # xs @ cur # ys)"
  shows "\<exists>y. walk (link_after cur first lst (link_split cur new h)) n cur = Some y \<and> y \<notin> set ys"
proof -
  let ?src = "first # mid @ [lst]"
  let ?h1 = "newChunk new (Some cur) (nd_next (h cur)) h"
  let ?hs = "setNext cur (Some new) (setPrev cur (Some new) ?h1)"
  let ?h2 = "setNext lst (Some new) (setPrev new (Some lst) ?hs)"
  let ?h' = "setPrev first (Some cur) (setNext cur (Some first) ?h2)"
  have "nd_next (setPrev new (Some lst) ?hs cur) = Some new"
    by (simp add: setNext_def setPrev_def)
  then have run: "link_after cur first lst (link_split cur new h) = ?h'"
    by (simp add: link_split_def link_after_def Let_def newChunk_def setNext_def setPrev_def)
  have "chain (setPrev new (Some lst) ?hs) None ?src None"
    using assms(2,3) by (simp add: chain_frame chain_frame_new del: chain.simps)
  then have "chain ?h2 None ?src (Some new)"
    using assms(3) chain_setNext [of _ None "first # mid" lst None "Some new"] by simp
  then have "chain ?h' (Some cur) ?src (Some new)"
    using assms(3) by (intro chain_setPrev) (simp_all add: chain_frame del: chain.simps)
  then have src: "\<exists>z\<in>insert new (set ?src). nd_next (?h' y) = Some z" if "y \<in> set ?src" for y
    using chain_next_mem [of ?h' "Some cur" "first # mid" lst new y] that by simp
  have c: "nd_next (?h' cur) = Some first" "nd_next (?h' new) = Some cur"
    using assms(3) by (simp_all add: setNext_def setPrev_def newChunk_def)
  have "\<exists>y\<in>{cur, new} \<union> set ?src. walk ?h' n cur = Some y"
  proof (rule walk_closed)
    show "\<exists>z\<in>{cur, new} \<union> set ?src. nd_next (?h' y) = Some z" if "y \<in> {cur, new} \<union> set ?src" for y
      using that c src [of y] by auto
  qed simp
  moreover have "({cur, new} \<union> set ?src) \<inter> set ys = {}"
    using assms(3) by auto
  ultimately show ?thesis
    unfolding run by blast
qed

theorem split_makes_cycle_witness:
  "\<exists>y. walk (link_after 0 5 6 (link_split 0 9 sample_links)) 1000 0 = Some y \<and> y \<notin> set [1]"
proof (rule split_makes_cycle)
  show "chunk_chain sample_links ([] @ 0 # [1])" "chain sample_links None (5 # [] @ [6]) None"
    "distinct (9 # 5 # [] @ 6 # [] @ 0 # [1 :: nat])"
    by (simp_all add: chunk_chain_def sample_links_def)
qed

end
