(* ===== verification/Endian.thy ===== *)
theory Endian
  imports Prelude
begin

section \<open>Byte order of machine words\<close>

text \<open>
  Models \<open>source/core/utils/include/dci/utils/endian.ipp\<close>: \<open>convert\<close>, which
  reverses the bytes of a scalar through a union, and the loads and stores of words through
  casted pointers that the hashes and ciphers rely on. The host is taken to be
  little-endian (x86-64, the platform the repository builds for), so \<open>n2b\<close> and \<open>b2n\<close> are
  \<open>convert\<close> and \<open>n2l\<close>, \<open>l2n\<close> are the identity. Words are polymorphic in their width; the
  number of bytes is \<open>LENGTH('w) div 8\<close>.
\<close>

subsection \<open>Loads and stores\<close>

text \<open>The word whose bytes, least significant first, are the given ones.\<close>

fun le_word :: "byte list \<Rightarrow> 'w::len word" where
  "le_word [] = 0"
| "le_word (b # bs) = ucast b OR push_bit 8 (le_word bs)"

text \<open>The word whose bytes, most significant first, are the given ones.\<close>

definition be_word :: "byte list \<Rightarrow> 'w::len word" where
  "be_word bs = le_word (rev bs)"

definition le_bytes :: "nat \<Rightarrow> 'w::len word \<Rightarrow> byte list" where
  "le_bytes n w = map (\<lambda>i. ucast (drop_bit (8 * i) w)) [0 ..< n]"

definition be_bytes :: "nat \<Rightarrow> 'w::len word \<Rightarrow> byte list" where
  "be_bytes n w = rev (le_bytes n w)"

text \<open>\<open>convert\<close>: the bytes of the union swapped pairwise, first with last.\<close>

definition bytes_of_type :: "'w::len itself \<Rightarrow> nat" where
  "bytes_of_type t = LENGTH('w) div 8"

definition convert :: "'w::len word \<Rightarrow> 'w word" where
  "convert v = le_word (rev (le_bytes (LENGTH('w) div 8) v))"

definition n2b :: "'w::len word \<Rightarrow> 'w word" where
  "n2b v = convert v"

subsection \<open>Facts\<close>

lemma length_le_bytes [simp]: "length (le_bytes n w) = n"
  by (simp add: le_bytes_def)

lemma length_be_bytes [simp]: "length (be_bytes n w) = n"
  by (simp add: be_bytes_def)

lemma nth_le_bytes: "i < n \<Longrightarrow> le_bytes n w ! i = ucast (drop_bit (8 * i) w)"
  by (simp add: le_bytes_def)

lemma le_bytes_0 [simp]: "le_bytes 0 w = []"
  by (simp add: le_bytes_def)

lemma le_bytes_Suc: "le_bytes (Suc n) w = ucast w # le_bytes n (drop_bit 8 w)"
  unfolding le_bytes_def
  by (subst upt_conv_Cons)
     (auto simp: map_Suc_upt[symmetric] add.commute simp del: upt_Suc intro!: map_cong)

lemma bit_le_word:
  "bit (le_word bs :: 'w::len word) k
     \<longleftrightarrow> k < LENGTH('w) \<and> k div 8 < length bs \<and> bit (bs ! (k div 8)) (k mod 8)"
proof (induction bs arbitrary: k)
  case Nil
  then show ?case by simp
next
  case (Cons b bs)
  show ?case
  proof (cases "k < 8")
    case True
    then show ?thesis by (simp add: bit_simps)
  next
    case False
    then have a: "k div 8 = Suc ((k - 8) div 8)" "k mod 8 = (k - 8) mod 8"
      by (auto simp: le_div_geq le_mod_geq)
    from False have b: "\<not> bit (ucast b :: 'w word) k"
      by (auto simp: bit_simps dest: bit_imp_le_length)
    show ?thesis
      using False Cons.IH [of "k - 8"] b unfolding a
      by (auto simp: bit_or_iff bit_push_bit_iff)
  qed
qed

lemma le_word_le_bytes:
  assumes "LENGTH('w) \<le> 8 * n"
  shows "le_word (le_bytes n (w :: 'w::len word)) = w"
proof (rule bit_word_eqI)
  fix k assume k: "k < LENGTH('w)"
  then have "k div 8 < n"
    using assms by (simp add: less_mult_imp_div_less mult.commute)
  then show "bit (le_word (le_bytes n w) :: 'w word) k \<longleftrightarrow> bit w k"
    using k by (simp add: bit_le_word nth_le_bytes bit_simps)
qed

lemma le_bytes_le_word:
  assumes "8 * length bs \<le> LENGTH('w)"
  shows "le_bytes (length bs) (le_word bs :: 'w::len word) = bs"
proof (rule nth_equalityI)
  show "length (le_bytes (length bs) (le_word bs :: 'w word)) = length bs" by simp
next
  fix i assume "i < length (le_bytes (length bs) (le_word bs :: 'w word))"
  then have i: "i < length bs" by simp
  show "le_bytes (length bs) (le_word bs :: 'w word) ! i = bs ! i"
  proof (rule bit_word_eqI)
    fix k assume k: "k < LENGTH(8)"
    then have "8 * i + k < LENGTH('w)" using i assms by simp
    then show "bit (le_bytes (length bs) (le_word bs :: 'w word) ! i) k \<longleftrightarrow> bit (bs ! i) k"
      using i k by (simp add: nth_le_bytes bit_simps bit_le_word)
  qed
qed

lemma be_word_be_bytes:
  "LENGTH('w) \<le> 8 * n \<Longrightarrow> be_word (be_bytes n (w :: 'w::len word)) = w"
  by (simp add: be_word_def be_bytes_def le_word_le_bytes)

lemma convert_le_word:
  "8 * length bs = LENGTH('w) \<Longrightarrow> convert (le_word bs :: 'w::len word) = be_word bs"
  using le_bytes_le_word [of bs, where 'w = 'w]
  by (auto simp: convert_def be_word_def dest: sym)

lemma le_bytes_convert:
  assumes "LENGTH('w) = 8 * n"
  shows "le_bytes n (convert (v :: 'w::len word)) = be_bytes n v"
  using le_bytes_le_word [of "rev (le_bytes n v)", where 'w = 'w] assms
  by (simp add: convert_def be_bytes_def)

subsection \<open>Bytes as a number\<close>

text \<open>The number whose bytes, least significant first, are the given ones.\<close>

fun le_num :: "byte list \<Rightarrow> nat" where
  "le_num [] = 0"
| "le_num (b # bs) = unat b + 256 * le_num bs"

lemma le_num_bound: "le_num bs < 256 ^ length bs"
proof (induction bs)
  case (Cons b bs)
  have "unat b < 256" using unsigned_less [of b, where 'a = nat] by simp
  then show ?case using Cons by simp
qed simp

lemma le_num_append: "le_num (xs @ ys) = le_num xs + 256 ^ length xs * le_num ys"
  by (induction xs) (simp_all add: algebra_simps)

lemma le_num_zeros [simp]: "le_num (replicate n 0) = 0"
  by (induction n) simp_all

lemma unat_le_word:
  "8 * length bs \<le> LENGTH('w) \<Longrightarrow> unat (le_word bs :: 'w::len word) = le_num bs"
proof (induction bs)
  case (Cons b bs)
  let ?w = "le_word bs :: 'w word"
  have w: "unat ?w = le_num bs" using Cons by simp
  have l: "8 + 8 * length bs \<le> LENGTH('w)" using Cons.prems by simp
  have b: "unat (ucast b :: 'w word) = unat b"
    using l unsigned_less [of b, where 'a = nat] power_increasing [of 8 "LENGTH('w)" "2 :: nat"]
    by (simp add: unsigned_ucast_eq take_bit_nat_eq_self)
  have "(256 :: nat) * 256 ^ length bs = 2 ^ (8 + 8 * length bs)"
    by (simp add: power_add power_mult)
  also have "\<dots> \<le> 2 ^ LENGTH('w)" using l by (rule power_increasing) simp
  finally have n: "256 * 256 ^ length bs \<le> (2 :: nat) ^ LENGTH('w)" .
  have "unat b < 256" using unsigned_less [of b, where 'a = nat] by simp
  then have s: "unat b + 256 * le_num bs < 2 ^ LENGTH('w)"
    using le_num_bound [of bs] n by linarith
  have p: "unat (push_bit 8 ?w) = 256 * le_num bs"
    by (subst unsigned_push_bit_eq) (use s w in \<open>simp add: push_bit_eq_mult take_bit_nat_eq_self mult.commute\<close>)
  have "(ucast b :: 'w word) AND push_bit 8 ?w = 0"
    by (rule bit_word_eqI) (auto simp: bit_simps dest: bit_imp_le_length)
  then have "(ucast b :: 'w word) OR push_bit 8 ?w = ucast b + push_bit 8 ?w"
    by (simp add: disjunctive_add_eq_or)
  then show ?case
    using unat_add_lem [of "ucast b :: 'w word" "push_bit 8 ?w"] s b p by simp
qed simp

text \<open>The \<open>n\<close> bytes of a number, least significant first.\<close>

definition num_bytes :: "nat \<Rightarrow> nat \<Rightarrow> byte list" where
  "num_bytes n k = map (\<lambda>i. of_nat (k div 256 ^ i)) [0 ..< n]"

lemma num_bytes_0 [simp]: "num_bytes 0 k = []"
  by (simp add: num_bytes_def)

lemma num_bytes_Suc: "num_bytes (Suc n) k = of_nat k # num_bytes n (k div 256)"
  unfolding num_bytes_def
  by (subst upt_conv_Cons) (auto simp: map_Suc_upt [symmetric] div_mult2_eq simp del: upt_Suc)

lemma num_bytes_le_num: "num_bytes (length bs) (le_num bs) = bs"
proof (induction bs)
  case (Cons b bs)
  have z: "(256 :: byte) = 0" by simp
  have "(of_nat (unat b + 256 * le_num bs) :: byte) = b"
    by (simp only: of_nat_add of_nat_mult of_nat_numeral z) simp
  moreover have "(unat b + 256 * le_num bs) div 256 = le_num bs"
    using unsigned_less [of b, where 'a = nat] by simp
  ultimately show ?case using Cons by (simp only: le_num.simps length_Cons num_bytes_Suc)
qed simp

lemma le_num_num_bytes: "le_num (num_bytes n k) = k mod 256 ^ n"
proof (induction n arbitrary: k)
  case (Suc n)
  have "unat (of_nat k :: byte) = k mod 256" by (simp add: unat_of_nat)
  then show ?case using Suc mod_mult2_eq [of k 256 "256 ^ n"] by (simp add: num_bytes_Suc)
qed simp

lemma num_bytes_mod: "num_bytes n (k mod 256 ^ n) = num_bytes n k"
  using num_bytes_le_num [of "num_bytes n k"] by (simp only: le_num_num_bytes) (simp add: num_bytes_def)

lemma le_num_le_bytes: "le_num (le_bytes 8 (w :: u64)) = unat w"
  using unat_le_word [of "le_bytes 8 w", where 'w = 64] by (simp add: le_word_le_bytes)

subsection \<open>A run of words in memory\<close>

text \<open>Words loaded from consecutive bytes, \<open>n\<close> bytes each, and the bytes a run of words occupies.\<close>

definition load_le :: "nat \<Rightarrow> nat \<Rightarrow> byte list \<Rightarrow> 'w::len word list" where
  "load_le n k bs = map (\<lambda>j. le_word (take n (drop (n * j) bs))) [0 ..< k]"

definition store_le :: "nat \<Rightarrow> 'w::len word list \<Rightarrow> byte list" where
  "store_le n ws = concat (map (le_bytes n) ws)"

definition store_be :: "nat \<Rightarrow> 'w::len word list \<Rightarrow> byte list" where
  "store_be n ws = concat (map (be_bytes n) ws)"

lemma length_load_le [simp]: "length (load_le n k bs) = k"
  by (simp add: load_le_def)

lemma nth_load_le: "j < k \<Longrightarrow> load_le n k bs ! j = le_word (take n (drop (n * j) bs))"
  by (simp add: load_le_def)

lemma length_store_le [simp]: "length (store_le n ws) = n * length ws"
  by (induction ws) (simp_all add: store_le_def)

lemma length_store_be [simp]: "length (store_be n ws) = n * length ws"
  by (induction ws) (simp_all add: store_be_def)

lemma store_le_convert:
  "LENGTH('w) = 8 * n \<Longrightarrow> store_le n (map convert (ws :: 'w::len word list)) = store_be n ws"
  by (simp add: store_le_def store_be_def le_bytes_convert comp_def)

end
