(* ===== verification/BlockHash.thy ===== *)
theory BlockHash
  imports Endian
begin

section \<open>Buffering of a Merkle-Damgard hash\<close>

text \<open>
  The buffering that \<open>source/core/crypto/src/impl/sha2_256.cpp\<close> and
  \<open>sha2_512.cpp\<close> share line by line: the object (\<open>_digestSize\<close>, \<open>_state\<close>,
  \<open>_bitcount\<close>, \<open>_buffer\<close>), \<open>add\<close>, \<open>finish\<close>, \<open>barrier\<close> and \<open>clear\<close>, over
  the block length, the length \<open>SHORT_BLOCK_LENGTH\<close> up to which padding fits in a block and the
  block transformation. The locale \<open>block_transform\<close> states what the buffering needs of the
  transformation and proves that the object holds the hash of the bytes added so far, whatever
  the pieces they came in.
\<close>

subsection \<open>The object and its operations\<close>

record (overloaded) 'w hash_state =
  hs_digestSize :: nat
  hs_state :: "'w word list"
  hs_bitcount :: u64
  hs_buffer :: "byte list"

text \<open>What the block transformation reads: its own buffer, or the caller's memory.\<close>

datatype block_src = Own | Mem "byte list"

type_synonym 'w transform = "block_src \<Rightarrow> 'w hash_state \<Rightarrow> 'w hash_state"

text \<open>\<open>(_bitcount >> 3) % BLOCK_LENGTH\<close>.\<close>

definition hs_used :: "nat \<Rightarrow> 'w::len hash_state \<Rightarrow> nat" where
  "hs_used B s = unat (drop_bit 3 (hs_bitcount s)) mod B"

text \<open>\<open>_bitcount += n << 3\<close>.\<close>

definition count_bytes :: "nat \<Rightarrow> 'w::len hash_state \<Rightarrow> 'w hash_state" where
  "count_bytes n s = s\<lparr>hs_bitcount := hs_bitcount s + push_bit 3 (of_nat n)\<rparr>"

text \<open>\<open>memcpy(&_buffer[i], data, length data)\<close>.\<close>

definition hs_put :: "nat \<Rightarrow> byte list \<Rightarrow> 'w::len hash_state \<Rightarrow> 'w hash_state" where
  "hs_put i d s = s\<lparr>hs_buffer := put_at i d (hs_buffer s)\<rparr>"

text \<open>The loop of \<open>add\<close> over whole blocks.\<close>

function add_blocks ::
  "nat \<Rightarrow> 'w::len transform \<Rightarrow> 'w hash_state \<Rightarrow> byte list \<Rightarrow> 'w hash_state \<times> byte list" where
  "add_blocks B tr s d =
     (if 0 < B \<and> B \<le> length d then add_blocks B tr (count_bytes B (tr (Mem d) s)) (drop B d)
      else (s, d))"
  by pat_completeness auto
termination
  by (relation "measure (\<lambda>(B, tr, s, d). length d)") auto

declare add_blocks.simps [simp del]

definition add_rest :: "nat \<Rightarrow> 'w::len transform \<Rightarrow> 'w hash_state \<Rightarrow> byte list \<Rightarrow> 'w hash_state" where
  "add_rest B tr s d =
     (case add_blocks B tr s d of (s', d') \<Rightarrow>
        if d' \<noteq> [] then count_bytes (length d') (hs_put 0 d' s') else s')"

definition block_add :: "nat \<Rightarrow> 'w::len transform \<Rightarrow> 'w hash_state \<Rightarrow> byte list \<Rightarrow> 'w hash_state" where
  "block_add B tr s d =
     (if d = [] then s
      else let used = hs_used B s in
        if 0 < used then
          let free = B - used in
            if free \<le> length d
            then add_rest B tr (tr Own (count_bytes free (hs_put used (take free d) s))) (drop free d)
            else count_bytes (length d) (hs_put used d s)
        else add_rest B tr s d)"

definition block_clear :: "nat \<Rightarrow> 'w::len word list \<Rightarrow> 'w hash_state \<Rightarrow> 'w hash_state" where
  "block_clear B iv s = s\<lparr>hs_state := iv, hs_bitcount := 0, hs_buffer := replicate B 0\<rparr>"

text \<open>The padding of \<open>finish\<close>, up to the store of the bit count; \<open>used\<close> was read before the count was byte-swapped.\<close>

definition block_pad ::
  "nat \<Rightarrow> nat \<Rightarrow> 'w::len transform \<Rightarrow> nat \<Rightarrow> 'w hash_state \<Rightarrow> 'w hash_state" where
  "block_pad B short tr used s =
     (if 0 < used then
        let s1 = hs_put used [0x80] s; used' = used + 1 in
          if used' \<le> short then hs_put used' (replicate (short - used') 0) s1
          else
            let s2 = (if used' < B then hs_put used' (replicate (B - used') 0) s1 else s1) in
              hs_put 0 (replicate short 0) (tr Own s2)
      else hs_put 0 [0x80] (hs_put 0 (replicate short 0) s))"

definition block_finish ::
  "nat \<Rightarrow> nat \<Rightarrow> 'w::len word list \<Rightarrow> 'w transform \<Rightarrow> 'w hash_state \<Rightarrow> nat \<Rightarrow> byte list \<times> 'w hash_state" where
  "block_finish B short iv tr s custom =
     (let used = hs_used B s;
          s0 = s\<lparr>hs_bitcount := n2b (hs_bitcount s)\<rparr>;
          s1 = block_pad B short tr used s0;
          s2 = tr Own (hs_put short (le_bytes 8 (hs_bitcount s1)) s1);
          s3 = s2\<lparr>hs_state := map n2b (hs_state s2)\<rparr>
      in (take (min custom (hs_digestSize s3)) (store_le (LENGTH('w) div 8) (hs_state s3)),
          block_clear B iv s3))"

text \<open>\<open>barrier\<close>: the digest of a clone with the full digest size is added to the object itself.\<close>

definition block_barrier ::
  "nat \<Rightarrow> nat \<Rightarrow> 'w::len word list \<Rightarrow> 'w transform \<Rightarrow> nat \<Rightarrow> 'w hash_state \<Rightarrow> 'w hash_state" where
  "block_barrier B short iv tr full s =
     block_add B tr s (fst (block_finish B short iv tr (s\<lparr>hs_digestSize := full\<rparr>) full))"

subsection \<open>Reference: the iterated compression\<close>

function absorb :: "nat \<Rightarrow> ('h \<Rightarrow> byte list \<Rightarrow> 'h) \<Rightarrow> 'h \<Rightarrow> byte list \<Rightarrow> 'h" where
  "absorb B compress h m =
     (if 0 < B \<and> B \<le> length m then absorb B compress (compress h (take B m)) (drop B m) else h)"
  by pat_completeness auto
termination
  by (relation "measure (\<lambda>(B, c, h, m). length m)") auto

declare absorb.simps [simp del]

text \<open>The bytes after the last whole block.\<close>

definition tail_of :: "nat \<Rightarrow> byte list \<Rightarrow> byte list" where
  "tail_of B m = drop (B * (length m div B)) m"

text \<open>Padding: 0x80, zeros up to \<open>short\<close> in a block, and the number of bits modulo 2^64, big-endian.\<close>

definition md_pad :: "nat \<Rightarrow> nat \<Rightarrow> byte list \<Rightarrow> byte list" where
  "md_pad B short m =
     m @ [0x80] @ replicate ((short + B - 1 - length m mod B) mod B) 0
       @ be_bytes 8 (of_nat (8 * length m) :: u64)"

lemma length_tail_of [simp]: "0 < B \<Longrightarrow> length (tail_of B m) = length m mod B"
  by (simp add: tail_of_def minus_mult_div_eq_mod)

lemma absorb_short [simp]: "length m < B \<Longrightarrow> absorb B c h m = h"
  by (subst absorb.simps) simp

lemma absorb_step:
  "0 < B \<Longrightarrow> B \<le> length m \<Longrightarrow> absorb B c h m = absorb B c (c h (take B m)) (drop B m)"
  by (subst absorb.simps) simp

lemma absorb_append:
  assumes "B dvd length a" "0 < B"
  shows "absorb B c h (a @ b) = absorb B c (absorb B c h a) b"
  using assms
proof (induction B c h a rule: absorb.induct)
  case (1 B c h a)
  show ?case
  proof (cases "a = []")
    case True
    then show ?thesis using 1(3) by simp
  next
    case False
    then have "B \<le> length a" using 1(2) by (simp add: dvd_imp_le)
    then show ?thesis
      using 1 by (simp add: absorb_step [of B "a @ b"] absorb_step [of B a] dvd_diff_nat)
  qed
qed

lemma body_tail: "m = take (B * (length m div B)) m @ tail_of B m"
  by (simp add: tail_of_def)

lemma absorb_body:
  assumes "0 < B"
  shows "absorb B c h m = absorb B c h (take (B * (length m div B)) m)"
proof -
  have "absorb B c h m = absorb B c (absorb B c h (take (B * (length m div B)) m)) (tail_of B m)"
    using assms by (subst body_tail [of m B], subst absorb_append) (auto simp: min_absorb2)
  then show ?thesis using assms by simp
qed

lemma absorb_block:
  assumes "0 < B" "length (tail_of B m @ x) = B"
  shows "absorb B c h (m @ x) = c (absorb B c h m) (tail_of B m @ x)"
proof -
  let ?b = "take (B * (length m div B)) m"
  have "absorb B c h (m @ x) = absorb B c h (?b @ (tail_of B m @ x))"
    using body_tail [of m B] by (metis append.assoc)
  also have "\<dots> = absorb B c (absorb B c h ?b) (tail_of B m @ x)"
    using assms(1) by (subst absorb_append) (auto simp: min_absorb2)
  also have "\<dots> = c (absorb B c h ?b) (tail_of B m @ x)"
    using assms(1) by (simp only: absorb_step [of B "tail_of B m @ x"] assms(2) order_refl
      absorb_short take_all drop_all length_0_conv list.size)
  finally show ?thesis using absorb_body [OF assms(1), of c h m] by simp
qed

lemma tail_of_append_short:
  assumes "length m mod B + length d < B"
  shows "tail_of B (m @ d) = tail_of B m @ d"
proof -
  have "(length m + length d) div B = length m div B"
    using assms by (metis add.right_neutral bot_nat_0.not_eq_extremum div_eq_0_iff div_mult_mod_eq
        div_mult_self3 not_less_zero add.assoc)
  then show ?thesis by (simp add: tail_of_def)
qed

lemma tail_of_append_full:
  assumes "B dvd length m" "0 < B"
  shows "tail_of B (m @ d) = tail_of B d"
  using assms by (auto simp: tail_of_def dvd_def algebra_simps)

lemma absorb_one: "0 < B \<Longrightarrow> length b = B \<Longrightarrow> absorb B c h b = c h b"
  by (subst absorb_step) auto

lemma absorb_append_short:
  assumes "0 < B" "length m mod B + length d < B"
  shows "absorb B c h (m @ d) = absorb B c h m"
  using absorb_body [OF assms(1), of c h "m @ d"] absorb_body [OF assms(1), of c h m]
    tail_of_append_short [OF assms(2)] body_tail [of "m @ d" B] body_tail [of m B]
  by (metis append.assoc append_same_eq)

subsection \<open>The object holds the bytes added so far\<close>

text \<open>The object \<open>s\<close> has absorbed the message \<open>m\<close>, starting from the initial value \<open>iv\<close>.\<close>

definition hs_holds ::
  "nat \<Rightarrow> ('w::len word list \<Rightarrow> byte list \<Rightarrow> 'w word list) \<Rightarrow> 'w word list \<Rightarrow> byte list \<Rightarrow> 'w hash_state \<Rightarrow> bool" where
  "hs_holds B c iv m s \<longleftrightarrow>
     length (hs_buffer s) = B \<and> hs_bitcount s = of_nat (8 * length m) \<and>
     hs_state s = absorb B c iv m \<and> take (length m mod B) (hs_buffer s) = tail_of B m"

lemma unat_shifted_count: "unat (drop_bit 3 (of_nat n :: u64)) = (n mod 2 ^ 64) div 8"
  by (simp add: unat_drop_bit_eq unat_of_nat drop_bit_eq_div [where 'a = nat])

lemma hs_used_holds:
  assumes "hs_holds B c iv m s" "B dvd 2 ^ 61"
  shows "hs_used B s = length m mod B"
proof -
  have "unat (drop_bit 3 (of_nat (8 * length m) :: u64)) = (8 * length m mod 2 ^ 64) div 8"
    by (rule unat_shifted_count)
  also have "8 * length m mod 2 ^ 64 = 8 * (length m mod 2 ^ 61)"
    by (subst mult_mod_right) simp
  finally have "unat (drop_bit 3 (of_nat (8 * length m) :: u64)) = length m mod 2 ^ 61"
    by simp
  then show ?thesis
    using assms by (simp add: hs_used_def hs_holds_def mod_mod_cancel)
qed

locale block_transform =
  fixes B short :: nat and iv :: "'w::len word list" and tr :: "'w transform"
    and c :: "'w word list \<Rightarrow> byte list \<Rightarrow> 'w word list"
  assumes size_B: "0 < B" "B dvd 2 ^ 61" "short + 8 = B" "0 < short"
    and tr_mem: "length (hs_buffer s) = B \<Longrightarrow> B \<le> length d \<Longrightarrow>
      hs_state (tr (Mem d) s) = c (hs_state s) (take B d)"
    and tr_own: "length (hs_buffer s) = B \<Longrightarrow> hs_state (tr Own s) = c (hs_state s) (hs_buffer s)"
    and tr_keeps: "length (hs_buffer s) = B \<Longrightarrow>
      length (hs_buffer (tr src s)) = B \<and> hs_bitcount (tr src s) = hs_bitcount s"
    and tr_digestSize [simp]: "hs_digestSize (tr src s) = hs_digestSize s"
begin

abbreviation "holds \<equiv> hs_holds B c iv"

lemma holds_put:
  assumes "holds m s" "length m mod B + length d < B"
  shows "holds (m @ d) (count_bytes (length d) (hs_put (length m mod B) d s))"
proof -
  have a: "length (m @ d) mod B = length m mod B + length d"
    using assms(2) by (metis length_append mod_add_left_eq mod_less)
  have "absorb B c iv (m @ d) = absorb B c iv m"
    by (rule absorb_append_short [OF size_B(1) assms(2)])
  then show ?thesis
    using assms a take_put_at_end [of "length m mod B" "hs_buffer s" d]
    unfolding hs_holds_def
    by (simp add: hs_put_def count_bytes_def tail_of_append_short push_bit_eq_mult add.commute
        mult.commute)
qed

lemma holds_own:
  assumes "holds m s" "length m mod B + length x = B"
  shows "holds (m @ x) (tr Own (count_bytes (length x) (hs_put (length m mod B) x s)))"
proof -
  let ?s = "count_bytes (length x) (hs_put (length m mod B) x s)"
  have b: "hs_buffer ?s = tail_of B m @ x"
    using assms by (simp add: hs_put_def count_bytes_def hs_holds_def put_at_def)
  then have l: "length (hs_buffer ?s) = B"
    using assms size_B(1) by simp
  have "length (m @ x) mod B = 0"
    using assms(2) by (metis length_append mod_add_left_eq mod_self)
  then show ?thesis
    using l b assms tr_own [OF l] tr_keeps [OF l, of Own]
      absorb_block [OF size_B(1), of m x c iv]
    unfolding hs_holds_def
    by (simp add: count_bytes_def hs_put_def push_bit_eq_mult algebra_simps tail_of_def size_B
        minus_mod_eq_mult_div [symmetric])
qed

lemma holds_mem:
  assumes "holds m s" "B dvd length m" "B \<le> length d"
  shows "holds (m @ take B d) (count_bytes B (tr (Mem d) s))"
proof -
  have l: "length (hs_buffer s) = B" using assms(1) by (simp add: hs_holds_def)
  have t: "tail_of B m = []" using assms(2) size_B(1) by (simp add: tail_of_def)
  have "B dvd length (m @ take B d)" using assms by simp
  then show ?thesis
    using assms t tr_mem [OF l assms(3)] tr_keeps [OF l, of "Mem d"]
      absorb_block [OF size_B(1), of m "take B d" c iv]
    unfolding hs_holds_def
    by (simp add: count_bytes_def push_bit_eq_mult algebra_simps tail_of_def min_absorb2)
qed

lemma holds_blocks:
  "holds m s \<Longrightarrow> B dvd length m \<Longrightarrow>
   \<exists>e. d = e @ snd (add_blocks B tr s d) \<and> length (snd (add_blocks B tr s d)) < B \<and>
       B dvd length (m @ e) \<and> holds (m @ e) (fst (add_blocks B tr s d))"
proof (induction "length d" arbitrary: m s d rule: less_induct)
  case less
  show ?case
  proof (cases "B \<le> length d")
    case False
    then show ?thesis using less.prems
      by (intro exI [of _ "[]"]) (subst (1 2 3) add_blocks.simps, simp)
  next
    case True
    have h: "holds (m @ take B d) (count_bytes B (tr (Mem d) s))" "B dvd length (m @ take B d)"
      using holds_mem [OF less.prems True] less.prems True by simp_all
    have e: "add_blocks B tr s d = add_blocks B tr (count_bytes B (tr (Mem d) s)) (drop B d)"
      using True size_B(1) by (subst add_blocks.simps) simp
    have "length (drop B d) < length d" using True size_B(1) by simp
    from less.hyps [OF this h] obtain e where
      "drop B d = e @ snd (add_blocks B tr s d)" "length (snd (add_blocks B tr s d)) < B"
      "B dvd length ((m @ take B d) @ e)" "holds ((m @ take B d) @ e) (fst (add_blocks B tr s d))"
      unfolding e by blast
    then show ?thesis
      by (intro exI [of _ "take B d @ e"]) (metis append.assoc append_take_drop_id)
  qed
qed

lemma holds_rest:
  assumes "holds m s" "B dvd length m"
  shows "holds (m @ d) (add_rest B tr s d)"
proof -
  obtain s' d' where r: "add_blocks B tr s d = (s', d')" by fastforce
  from holds_blocks [OF assms, of d] r obtain e where
    e: "d = e @ d'" "length d' < B" "B dvd length (m @ e)" "holds (m @ e) s'" by auto
  show ?thesis
  proof (cases "d' = []")
    case True
    then show ?thesis using e(1,4) r by (simp add: add_rest_def)
  next
    case False
    have z: "length (m @ e) mod B = 0" using e(3) by simp
    have "holds ((m @ e) @ d') (count_bytes (length d') (hs_put (length (m @ e) mod B) d' s'))"
      by (rule holds_put) (use e z in simp_all)
    then show ?thesis using e(1) r False z by (auto simp: add_rest_def)
  qed
qed

theorem holds_add:
  assumes "holds m s"
  shows "holds (m @ d) (block_add B tr s d)"
proof -
  note u = hs_used_holds [OF assms size_B(2)]
  consider "d = []" | "d \<noteq> []" "length m mod B = 0" | "d \<noteq> []" "0 < length m mod B" "B - length m mod B \<le> length d"
    | "d \<noteq> []" "0 < length m mod B" "length d < B - length m mod B" by fastforce
  then show ?thesis
  proof cases
    case 1 then show ?thesis using assms by (simp add: block_add_def)
  next
    case 2 then show ?thesis using holds_rest [OF assms] by (auto simp: block_add_def u)
  next
    case 3
    let ?f = "B - length m mod B"
    have f: "length m mod B + length (take ?f d) = B"
      using 3 mod_less_divisor [OF size_B(1), of "length m"] by (simp add: min_absorb2)
    have "B dvd length (m @ take ?f d)"
      using f by (metis length_append mod_add_left_eq mod_self mod_0_imp_dvd)
    with holds_own [OF assms f] have
      "holds ((m @ take ?f d) @ drop ?f d)
         (add_rest B tr (tr Own (count_bytes (length (take ?f d)) (hs_put (length m mod B) (take ?f d) s))) (drop ?f d))"
      by (rule holds_rest)
    then show ?thesis using 3 by (simp add: block_add_def u Let_def min_absorb2)
  next
    case 4
    then show ?thesis using holds_put [OF assms, of d] by (simp add: block_add_def u Let_def)
  qed
qed

lemma holds_clear: "holds [] (block_clear B iv s)"
  by (simp add: hs_holds_def block_clear_def tail_of_def size_B(1))

text \<open>A whole buffer that ends the message: the state after it is the state of the longer message.\<close>

lemma own_state:
  assumes "length (hs_buffer s) = B" "hs_state s = absorb B c iv m" "hs_buffer s = tail_of B m @ x"
  shows "hs_state (tr Own s) = absorb B c iv (m @ x)" "B dvd length (m @ x)"
proof -
  have l: "length (tail_of B m @ x) = B" using assms by simp
  show "hs_state (tr Own s) = absorb B c iv (m @ x)"
    using tr_own [OF assms(1)] absorb_block [OF size_B(1) l, of c iv] assms by simp
  have "(length m mod B + length x) mod B = 0" using l size_B(1) by simp
  then show "B dvd length (m @ x)" by (metis length_append mod_add_left_eq mod_0_imp_dvd)
qed

lemma holds_buffer_split:
  assumes "holds m s"
  shows "hs_buffer s = tail_of B m @ drop (length m mod B) (hs_buffer s)" "length (hs_buffer s) = B"
  using assms by (auto simp: hs_holds_def) (metis append_take_drop_id)

lemma pad_state:
  assumes "holds m s" "length n = 8"
  shows "hs_state (tr Own (hs_put short n (block_pad B short tr (length m mod B) (s\<lparr>hs_bitcount := b\<rparr>)))) =
           absorb B c iv (m @ [0x80] @ replicate ((short + B - 1 - length m mod B) mod B) 0 @ n) \<and>
         hs_digestSize (tr Own (hs_put short n (block_pad B short tr (length m mod B) (s\<lparr>hs_bitcount := b\<rparr>)))) =
           hs_digestSize s"
proof -
  let ?u = "length m mod B"
  note sp = holds_buffer_split [OF assms(1)]
  have u: "?u < B" using size_B(1) by simp
  have st: "hs_state s = absorb B c iv m" using assms(1) by (simp add: hs_holds_def)
  have tl: "length (tail_of B m) = ?u" using size_B(1) by simp
  have tk: "take ?u (hs_buffer s) = tail_of B m" using assms(1) by (simp add: hs_holds_def)
  consider "?u = 0" | "0 < ?u" "?u < short" | "0 < ?u" "short \<le> ?u" by linarith
  then show ?thesis
  proof cases
    case 1
    let ?s = "hs_put short n (block_pad B short tr ?u (s\<lparr>hs_bitcount := b\<rparr>))"
    have z: "(short + B - 1 - ?u) mod B = short - 1"
      using 1 size_B mod_add_self2 [of "short - 1" B] by (simp add: algebra_simps)
    have b: "hs_buffer ?s = tail_of B m @ ([0x80] @ replicate (short - 1) 0 @ n)"
      using 1 sp(2) assms(2) size_B(3,4) iffD1 [OF length_0_conv tl [unfolded 1]]
      by (cases short) (simp_all add: block_pad_def hs_put_def put_at_def min_absorb1)
    show ?thesis
      using own_state(1) [of ?s m "[0x80] @ replicate (short - 1) 0 @ n"] b st size_B(3,4) assms(2)
        tr_keeps [of ?s Own] tl 1
      by (simp add: z [unfolded 1, simplified] block_pad_def hs_put_def)
  next
    case 2
    let ?s = "hs_put short n (block_pad B short tr ?u (s\<lparr>hs_bitcount := b\<rparr>))"
    have z: "(short + B - 1 - ?u) mod B = short - 1 - ?u"
      using 2 size_B mod_add_self2 [of "short - 1 - ?u" B] by (simp add: algebra_simps)
    have "hs_buffer ?s = put_at ?u ([0x80] @ replicate (short - 1 - ?u) 0 @ n) (hs_buffer s)"
      using 2 sp(2) size_B(3,4)
      by (simp add: block_pad_def Let_def hs_put_def put_at_put_at)
    also have "\<dots> = tail_of B m @ ([0x80] @ replicate (short - 1 - ?u) 0 @ n)"
      using 2 assms size_B(3,4) by (subst put_at_to_end) (auto simp: hs_holds_def)
    finally have b: "hs_buffer ?s = tail_of B m @ ([0x80] @ replicate (short - 1 - ?u) 0 @ n)" .
    show ?thesis
      using own_state(1) [of ?s m "[0x80] @ replicate (short - 1 - ?u) 0 @ n"] b st 2 size_B(3,4) assms(2)
        tr_keeps [of ?s Own] tl
      by (simp add: z [simplified] block_pad_def hs_put_def Let_def)
  next
    case 3
    let ?z1 = "B - 1 - ?u"
    let ?s1 = "(if ?u + 1 < B then hs_put (?u + 1) (replicate (B - (?u + 1)) 0) (hs_put ?u [0x80] (s\<lparr>hs_bitcount := b\<rparr>))
                else hs_put ?u [0x80] (s\<lparr>hs_bitcount := b\<rparr>))"
    let ?t = "tr Own ?s1" and ?m1 = "m @ [0x80] @ replicate ?z1 0"
    let ?s = "hs_put short n (hs_put 0 (replicate short 0) ?t)"
    have e: "block_pad B short tr ?u (s\<lparr>hs_bitcount := b\<rparr>) = hs_put 0 (replicate short 0) ?t"
      using 3 by (simp add: block_pad_def Let_def)
    have z: "(short + B - 1 - ?u) mod B = ?z1 + short"
    proof -
      have "short + B - 1 - ?u = ?z1 + short" "?z1 + short < B" using 3 u size_B(4) by linarith+
      then show ?thesis by simp
    qed
    have bb: "hs_buffer ?s1 = tail_of B m @ ([0x80] @ replicate ?z1 0)"
      using 3 sp(2) u tl tk by (auto simp: hs_put_def put_at_def min_absorb1)
    have l: "length (hs_buffer ?s1) = B" and st1: "hs_state ?s1 = absorb B c iv m"
      and d1: "hs_digestSize ?s1 = hs_digestSize s"
      using sp(2) u st by (auto simp: hs_put_def)
    have t: "hs_state ?t = absorb B c iv ?m1" "B dvd length ?m1"
      by (rule own_state [OF l st1 bb])+
    have tt: "tail_of B ?m1 = []" using t(2) size_B(1) by (simp add: tail_of_def)
    have lt: "length (hs_buffer ?t) = B" "hs_digestSize ?t = hs_digestSize s"
      using tr_keeps [OF l] d1 by auto
    have b2: "hs_buffer ?s = tail_of B ?m1 @ (replicate short 0 @ n)"
      using lt assms(2) size_B(3) tt by (simp add: hs_put_def put_at_def)
    have l2: "length (hs_buffer ?s) = B" "hs_digestSize ?s = hs_digestSize s"
      "hs_state ?s = absorb B c iv ?m1"
      using lt t(1) assms(2) size_B(3) by (simp_all add: hs_put_def)
    have "hs_state (tr Own ?s) = absorb B c iv (?m1 @ (replicate short 0 @ n))"
      by (rule own_state(1) [OF l2(1,3) b2])
    then show ?thesis
      using tr_keeps [OF l2(1), of Own] l2(2) unfolding e z by (simp add: replicate_add)
  qed
qed

theorem finish_digest:
  assumes "holds m s"
  shows "block_finish B short iv tr s custom =
           (take (min custom (hs_digestSize s))
              (store_le (LENGTH('w) div 8) (map n2b (absorb B c iv (md_pad B short m)))),
            block_clear B iv (snd (block_finish B short iv tr s custom)))
         \<and> holds [] (snd (block_finish B short iv tr s custom))
         \<and> hs_digestSize (snd (block_finish B short iv tr s custom)) = hs_digestSize s"
proof -
  let ?n = "le_bytes 8 (n2b (hs_bitcount s))"
  let ?p = "block_pad B short tr (length m mod B) (s\<lparr>hs_bitcount := n2b (hs_bitcount s)\<rparr>)"
  have "?n = be_bytes 8 (of_nat (8 * length m) :: u64)"
    using assms by (simp only: n2b_def hs_holds_def) (simp add: le_bytes_convert)
  then have p: "m @ [0x80] @ replicate ((short + B - 1 - length m mod B) mod B) 0 @ ?n = md_pad B short m"
    by (simp add: md_pad_def)
  note d = pad_state [OF assms, of ?n, unfolded p]
  have bc: "hs_bitcount ?p = n2b (hs_bitcount s)"
    using holds_buffer_split [OF assms] tr_keeps size_B(1) mod_less_divisor [OF size_B(1), of "length m"]
    by (simp add: block_pad_def Let_def hs_put_def)
  show ?thesis
    unfolding block_finish_def Let_def hs_used_holds [OF assms size_B(2)] bc
    using d holds_clear by (simp add: block_clear_def)
qed

lemma holds_barrier:
  assumes "holds m s"
  shows "holds (m @ take full (store_le (LENGTH('w) div 8) (map n2b (absorb B c iv (md_pad B short m)))))
           (block_barrier B short iv tr full s)"
proof -
  have "holds m (s\<lparr>hs_digestSize := full\<rparr>)" using assms by (simp add: hs_holds_def)
  from finish_digest [OF this, of full] show ?thesis
    unfolding block_barrier_def by (metis assms fst_conv holds_add min.idem hash_state.select_convs(1)
        hash_state.surjective hash_state.update_convs(1))
qed

lemma add_blocks_digestSize: "hs_digestSize (fst (add_blocks B tr s d)) = hs_digestSize s"
proof (induction "length d" arbitrary: s d rule: less_induct)
  case less
  show ?case
  proof (cases "B \<le> length d")
    case True
    then have "length (drop B d) < length d" using size_B(1) by simp
    from less.hyps [OF this, of "count_bytes B (tr (Mem d) s)"] show ?thesis
      using True size_B(1) by (subst add_blocks.simps) (simp add: count_bytes_def)
  next
    case False
    then show ?thesis by (subst add_blocks.simps) simp
  qed
qed

lemma add_digestSize: "hs_digestSize (block_add B tr s d) = hs_digestSize s"
proof -
  have "hs_digestSize (add_rest B tr s d) = hs_digestSize s" for s d
    using add_blocks_digestSize [of s d]
    by (auto simp: add_rest_def count_bytes_def hs_put_def split: prod.splits)
  then show ?thesis by (auto simp: block_add_def Let_def count_bytes_def hs_put_def)
qed

text \<open>A message added in pieces.\<close>

lemma holds_pieces:
  "holds m s \<Longrightarrow> holds (m @ concat ps) (fold (\<lambda>d s. block_add B tr s d) ps s) \<and>
     hs_digestSize (fold (\<lambda>d s. block_add B tr s d) ps s) = hs_digestSize s"
proof (induction ps arbitrary: m s)
  case (Cons d ps)
  from Cons.IH [OF holds_add [OF Cons.prems, of d]] show ?case
    by (simp add: add_digestSize)
qed simp

end

end
