(* ===== verification/Sha2.thy ===== *)
theory Sha2
  imports BlockHash
begin

section \<open>SHA-256 and SHA-512\<close>

text \<open>
  Models \<open>source/core/crypto/src/impl/sha2_256.cpp\<close> and \<open>sha2_512.cpp\<close>. The
  two files differ in the word width, the constants, the functions of the rounds and the number of
  rounds; they are one definition over a record of these (\<open>sha2_alg\<close>) and two instances.
  \<open>transform\<close> keeps its 16-word message schedule in the object's own buffer and may read
  the block from that same buffer; it is proved to compute the compression function of FIPS 180-4
  with its full schedule, and the hashes to compute FIPS digests, for SHA-512 outside the residues
  of the message length where the padding of the code leaves too little room.
\<close>

subsection \<open>Functions of the rounds\<close>

definition R :: "nat \<Rightarrow> 'w::len word \<Rightarrow> 'w word" where
  "R b x = drop_bit b x"

definition S :: "nat \<Rightarrow> 'w::len word \<Rightarrow> 'w word" where
  "S b x = drop_bit b x OR push_bit (LENGTH('w) - b) x"

definition Ch :: "'w::len word \<Rightarrow> 'w word \<Rightarrow> 'w word \<Rightarrow> 'w word" where
  "Ch x y z = (x AND y) XOR (NOT x AND z)"

definition Maj :: "'w::len word \<Rightarrow> 'w word \<Rightarrow> 'w word \<Rightarrow> 'w word" where
  "Maj x y z = (x AND y) XOR (x AND z) XOR (y AND z)"

definition Sigma0_256 :: "u32 \<Rightarrow> u32" where
  "Sigma0_256 x = S 2 x XOR S 13 x XOR S 22 x"

definition Sigma1_256 :: "u32 \<Rightarrow> u32" where
  "Sigma1_256 x = S 6 x XOR S 11 x XOR S 25 x"

definition sigma0_256 :: "u32 \<Rightarrow> u32" where
  "sigma0_256 x = S 7 x XOR S 18 x XOR R 3 x"

definition sigma1_256 :: "u32 \<Rightarrow> u32" where
  "sigma1_256 x = S 17 x XOR S 19 x XOR R 10 x"

definition Sigma0_512 :: "u64 \<Rightarrow> u64" where
  "Sigma0_512 x = S 28 x XOR S 34 x XOR S 39 x"

definition Sigma1_512 :: "u64 \<Rightarrow> u64" where
  "Sigma1_512 x = S 14 x XOR S 18 x XOR S 41 x"

definition sigma0_512 :: "u64 \<Rightarrow> u64" where
  "sigma0_512 x = S 1 x XOR S 8 x XOR R 7 x"

definition sigma1_512 :: "u64 \<Rightarrow> u64" where
  "sigma1_512 x = S 19 x XOR S 61 x XOR R 6 x"

subsection \<open>Constants\<close>

definition IV_256 :: "u32 list" where
  "IV_256 =
    [0x6a09e667, 0xbb67ae85, 0x3c6ef372, 0xa54ff53a,
     0x510e527f, 0x9b05688c, 0x1f83d9ab, 0x5be0cd19]"

definition K_256 :: "u32 list" where
  "K_256 = concat
    [[0x428a2f98, 0x71374491, 0xb5c0fbcf, 0xe9b5dba5],
     [0x3956c25b, 0x59f111f1, 0x923f82a4, 0xab1c5ed5],
     [0xd807aa98, 0x12835b01, 0x243185be, 0x550c7dc3],
     [0x72be5d74, 0x80deb1fe, 0x9bdc06a7, 0xc19bf174],
     [0xe49b69c1, 0xefbe4786, 0x0fc19dc6, 0x240ca1cc],
     [0x2de92c6f, 0x4a7484aa, 0x5cb0a9dc, 0x76f988da],
     [0x983e5152, 0xa831c66d, 0xb00327c8, 0xbf597fc7],
     [0xc6e00bf3, 0xd5a79147, 0x06ca6351, 0x14292967],
     [0x27b70a85, 0x2e1b2138, 0x4d2c6dfc, 0x53380d13],
     [0x650a7354, 0x766a0abb, 0x81c2c92e, 0x92722c85],
     [0xa2bfe8a1, 0xa81a664b, 0xc24b8b70, 0xc76c51a3],
     [0xd192e819, 0xd6990624, 0xf40e3585, 0x106aa070],
     [0x19a4c116, 0x1e376c08, 0x2748774c, 0x34b0bcb5],
     [0x391c0cb3, 0x4ed8aa4a, 0x5b9cca4f, 0x682e6ff3],
     [0x748f82ee, 0x78a5636f, 0x84c87814, 0x8cc70208],
     [0x90befffa, 0xa4506ceb, 0xbef9a3f7, 0xc67178f2]]"

definition IV_512 :: "u64 list" where
  "IV_512 =
    [0x6a09e667f3bcc908, 0xbb67ae8584caa73b, 0x3c6ef372fe94f82b, 0xa54ff53a5f1d36f1,
     0x510e527fade682d1, 0x9b05688c2b3e6c1f, 0x1f83d9abfb41bd6b, 0x5be0cd19137e2179]"

definition K_512 :: "u64 list" where
  "K_512 = concat
    [[0x428a2f98d728ae22, 0x7137449123ef65cd, 0xb5c0fbcfec4d3b2f, 0xe9b5dba58189dbbc, 0x3956c25bf348b538],
     [0x59f111f1b605d019, 0x923f82a4af194f9b, 0xab1c5ed5da6d8118, 0xd807aa98a3030242, 0x12835b0145706fbe],
     [0x243185be4ee4b28c, 0x550c7dc3d5ffb4e2, 0x72be5d74f27b896f, 0x80deb1fe3b1696b1, 0x9bdc06a725c71235],
     [0xc19bf174cf692694, 0xe49b69c19ef14ad2, 0xefbe4786384f25e3, 0x0fc19dc68b8cd5b5, 0x240ca1cc77ac9c65],
     [0x2de92c6f592b0275, 0x4a7484aa6ea6e483, 0x5cb0a9dcbd41fbd4, 0x76f988da831153b5, 0x983e5152ee66dfab],
     [0xa831c66d2db43210, 0xb00327c898fb213f, 0xbf597fc7beef0ee4, 0xc6e00bf33da88fc2, 0xd5a79147930aa725],
     [0x06ca6351e003826f, 0x142929670a0e6e70, 0x27b70a8546d22ffc, 0x2e1b21385c26c926, 0x4d2c6dfc5ac42aed],
     [0x53380d139d95b3df, 0x650a73548baf63de, 0x766a0abb3c77b2a8, 0x81c2c92e47edaee6, 0x92722c851482353b],
     [0xa2bfe8a14cf10364, 0xa81a664bbc423001, 0xc24b8b70d0f89791, 0xc76c51a30654be30, 0xd192e819d6ef5218],
     [0xd69906245565a910, 0xf40e35855771202a, 0x106aa07032bbd1b8, 0x19a4c116b8d2d0c8, 0x1e376c085141ab53],
     [0x2748774cdf8eeb99, 0x34b0bcb5e19b48a8, 0x391c0cb3c5c95a63, 0x4ed8aa4ae3418acb, 0x5b9cca4f7763e373],
     [0x682e6ff3d6b2b8a3, 0x748f82ee5defb2fc, 0x78a5636f43172f60, 0x84c87814a1f0ab72, 0x8cc702081a6439ec],
     [0x90befffa23631e28, 0xa4506cebde82bde9, 0xbef9a3f7b2c67915, 0xc67178f2e372532b, 0xca273eceea26619c],
     [0xd186b8c721c0c207, 0xeada7dd6cde0eb1e, 0xf57d4f7fee6ed178, 0x06f067aa72176fba, 0x0a637dc5a2c898a6],
     [0x113f9804bef90dae, 0x1b710b35131c471b, 0x28db77f523047d84, 0x32caab7b40c72493, 0x3c9ebe0a15c9bebc],
     [0x431d67c49c100d4c, 0x4cc5d4becb3e42b6, 0x597f299cfc657e2a, 0x5fcb6fab3ad6faec, 0x6c44198c4a475817]]"

subsection \<open>The transformation of a block\<close>

text \<open>What distinguishes the two algorithms.\<close>

record (overloaded) 'w sha2_alg =
  K_of :: "'w word list"
  Sigma0_of :: "'w word \<Rightarrow> 'w word"
  Sigma1_of :: "'w word \<Rightarrow> 'w word"
  sigma0_of :: "'w word \<Rightarrow> 'w word"
  sigma1_of :: "'w word \<Rightarrow> 'w word"

definition sha256_alg :: "32 sha2_alg" where
  "sha256_alg = \<lparr>K_of = K_256, Sigma0_of = Sigma0_256, Sigma1_of = Sigma1_256,
     sigma0_of = sigma0_256, sigma1_of = sigma1_256\<rparr>"

definition sha512_alg :: "64 sha2_alg" where
  "sha512_alg = \<lparr>K_of = K_512, Sigma0_of = Sigma0_512, Sigma1_of = Sigma1_512,
     sigma0_of = sigma0_512, sigma1_of = sigma1_512\<rparr>"

text \<open>The working variables a to h and one round with the schedule word \<open>w\<close>.\<close>

type_synonym 'w regs =
  "'w word \<times> 'w word \<times> 'w word \<times> 'w word \<times> 'w word \<times> 'w word \<times> 'w word \<times> 'w word"

fun sha2_round :: "'w::len sha2_alg \<Rightarrow> nat \<Rightarrow> 'w word \<Rightarrow> 'w regs \<Rightarrow> 'w regs" where
  "sha2_round alg j w (a, b, c, d, e, f, g, h) =
     (let T1 = h + Sigma1_of alg e + Ch e f g + K_of alg ! j + w;
          T2 = Sigma0_of alg a + Maj a b c
      in (T1 + T2, a, b, c, d + T1, e, f, g))"

definition load_regs :: "'w::len word list \<Rightarrow> 'w regs" where
  "load_regs s = (s ! 0, s ! 1, s ! 2, s ! 3, s ! 4, s ! 5, s ! 6, s ! 7)"

fun add_regs :: "'w::len word list \<Rightarrow> 'w regs \<Rightarrow> 'w word list" where
  "add_regs s (a, b, c, d, e, f, g, h) =
     [s ! 0 + a, s ! 1 + b, s ! 2 + c, s ! 3 + d, s ! 4 + e, s ! 5 + f, s ! 6 + g, s ! 7 + h]"

text \<open>The word \<open>*data\<close> of round \<open>j\<close>: from memory, or from the schedule itself when the block is the object's buffer.\<close>

definition sha2_data :: "block_src \<Rightarrow> 'w::len word list \<Rightarrow> nat \<Rightarrow> 'w word" where
  "sha2_data src W j =
     (case src of Own \<Rightarrow> W ! j
      | Mem d \<Rightarrow> le_word (take (LENGTH('w) div 8) (drop (LENGTH('w) div 8 * j) d)))"

fun sha2_first :: "'w::len sha2_alg \<Rightarrow> block_src \<Rightarrow> nat \<Rightarrow> 'w word list \<times> 'w regs \<Rightarrow> 'w word list \<times> 'w regs" where
  "sha2_first alg src j (W, r) =
     (let W' = W[j := n2b (sha2_data src W j)] in (W', sha2_round alg j (W' ! j) r))"

fun sha2_second :: "'w::len sha2_alg \<Rightarrow> nat \<Rightarrow> 'w word list \<times> 'w regs \<Rightarrow> 'w word list \<times> 'w regs" where
  "sha2_second alg j (W, r) =
     (let s0 = sigma0_of alg (W ! ((j + 1) AND 0xf));
          s1 = sigma1_of alg (W ! ((j + 14) AND 0xf));
          w = W ! (j AND 0xf) + (s1 + W ! ((j + 9) AND 0xf) + s0)
      in (W[j AND 0xf := w], sha2_round alg j w r))"

definition sha2_transform :: "'w::len sha2_alg \<Rightarrow> 'w transform" where
  "sha2_transform alg src s =
     (case fold (sha2_second alg) [16 ..< length (K_of alg)]
             (fold (sha2_first alg src) [0 ..< 16]
               (load_le (LENGTH('w) div 8) 16 (hs_buffer s), load_regs (hs_state s)))
      of (W, r) \<Rightarrow>
        s\<lparr>hs_state := add_regs (hs_state s) r, hs_buffer := store_le (LENGTH('w) div 8) W\<rparr>)"

subsection \<open>Reference: the compression of FIPS 180-4\<close>

fun fips_W :: "'w::len sha2_alg \<Rightarrow> 'w word list \<Rightarrow> nat \<Rightarrow> 'w word" where
  "fips_W alg M t =
     (if t < 16 then M ! t
      else sigma1_of alg (fips_W alg M (t - 2)) + fips_W alg M (t - 7)
         + sigma0_of alg (fips_W alg M (t - 15)) + fips_W alg M (t - 16))"

declare fips_W.simps [simp del]

definition load_be :: "byte list \<Rightarrow> 'w::len word list" where
  "load_be d = map (\<lambda>j. be_word (take (LENGTH('w) div 8) (drop (LENGTH('w) div 8 * j) d))) [0 ..< 16]"

definition fips_compress :: "'w::len sha2_alg \<Rightarrow> 'w word list \<Rightarrow> byte list \<Rightarrow> 'w word list" where
  "fips_compress alg H block =
     add_regs H (fold (\<lambda>t. sha2_round alg t (fips_W alg (load_be block) t)) [0 ..< length (K_of alg)]
       (load_regs H))"

subsection \<open>The circular schedule computes the schedule of the standard\<close>

lemma and_15 [simp]: "(j :: nat) AND 15 = j mod 16"
  using take_bit_eq_mask [of 4 j] by (simp add: take_bit_eq_mod mask_eq_exp_minus_1)

abbreviation block_of :: "block_src \<Rightarrow> 'w::len hash_state \<Rightarrow> byte list" where
  "block_of src s \<equiv> (case src of Own \<Rightarrow> hs_buffer s | Mem d \<Rightarrow> d)"

lemma first_phase:
  fixes blk :: "byte list"
  assumes "8 * (LENGTH('w::len) div 8) = LENGTH('w)" "16 * (LENGTH('w) div 8) \<le> length blk"
    and "length W0 = 16"
    and src: "(src = Own \<and> W0 = load_le (LENGTH('w) div 8) 16 blk) \<or> src = Mem blk"
  shows "k \<le> 16 \<Longrightarrow> fold (sha2_first alg src) [0 ..< k] (W0 :: 'w word list, r0) =
    (take k (load_be blk) @ drop k W0, fold (\<lambda>t. sha2_round alg t (load_be blk ! t)) [0 ..< k] r0)"
proof (induction k)
  case 0
  then show ?case by simp
next
  case (Suc k)
  let ?n = "LENGTH('w) div 8"
  let ?W = "take k (load_be blk) @ drop k W0"
  have l: "length (load_be blk :: 'w word list) = 16" by (simp add: load_be_def)
  have "Suc k * ?n \<le> length blk"
    using order_trans [OF mult_le_mono1 [OF Suc.prems] assms(2)] .
  then have "?n * k + ?n \<le> length blk" by (simp add: algebra_simps)
  then have w: "8 * length (take ?n (drop (?n * k) blk)) = LENGTH('w)"
    using assms(1) by (simp add: min_absorb2)
  have "sha2_data src ?W k = (le_word (take ?n (drop (?n * k) blk)) :: 'w word)"
    using src Suc.prems l assms(3) by (auto simp: sha2_data_def nth_append nth_load_le)
  then have d: "n2b (sha2_data src ?W k) = (load_be blk ! k :: 'w word)"
    using convert_le_word [OF w] Suc.prems by (simp add: n2b_def load_be_def)
  have "?W[k := load_be blk ! k] = take (Suc k) (load_be blk) @ drop (Suc k) W0"
    using Suc.prems l assms(3)
    by (intro nth_equalityI) (auto simp: nth_list_update nth_append less_Suc_eq)
  moreover have "(take (Suc k) (load_be blk) @ drop (Suc k) W0) ! k = (load_be blk ! k :: 'w word)"
    using Suc.prems l by (simp add: nth_append)
  ultimately show ?case using Suc by (simp add: d Let_def)
qed

lemma second_phase:
  assumes "length M = 16"
  shows "fold (sha2_second alg) [16 ..< 16 + k] (M, r0) = (W, r) \<Longrightarrow>
     length W = 16 \<and> (\<forall>i. k \<le> i \<and> i < 16 + k \<longrightarrow> W ! (i mod 16) = fips_W alg M i) \<and>
     r = fold (\<lambda>t. sha2_round alg t (fips_W alg M t)) [16 ..< 16 + k] r0"
proof (induction k arbitrary: W r)
  case 0
  then show ?case using assms by (auto simp: fips_W.simps)
next
  case (Suc k)
  obtain W1 r1 where f: "fold (sha2_second alg) [16 ..< 16 + k] (M, r0) = (W1, r1)"
    by (meson surj_pair)
  note ih = Suc.IH [OF f]
  let ?t = "16 + k"
  have at: "W1 ! (i mod 16) = fips_W alg M j" if "i mod 16 = j mod 16" "k \<le> j" "j < 16 + k" for i j
    using ih that by metis
  have m: "(?t + 14) mod 16 = (k + 14) mod 16" "(?t + 9) mod 16 = (k + 9) mod 16"
    "(?t + 1) mod 16 = (k + 1) mod 16" "?t mod 16 = k mod 16"
    by (simp_all only: add.assoc mod_add_self1)
  have "W1 ! ((?t + 14) mod 16) = fips_W alg M (k + 14)" "W1 ! ((?t + 9) mod 16) = fips_W alg M (k + 9)"
    "W1 ! ((?t + 1) mod 16) = fips_W alg M (k + 1)" "W1 ! (?t mod 16) = fips_W alg M k"
    by (rule at [OF m(1)], simp, simp, rule at [OF m(2)], simp, simp,
        rule at [OF m(3)], simp, simp, rule at [OF m(4)], simp, simp)
  moreover have "fips_W alg M ?t = sigma1_of alg (fips_W alg M (k + 14)) + fips_W alg M (k + 9)
      + sigma0_of alg (fips_W alg M (k + 1)) + fips_W alg M k"
    by (subst fips_W.simps) (simp add: numeral_eq_Suc)
  ultimately have w: "W1 ! (?t mod 16) + (sigma1_of alg (W1 ! ((?t + 14) mod 16)) + W1 ! ((?t + 9) mod 16)
      + sigma0_of alg (W1 ! ((?t + 1) mod 16))) = fips_W alg M ?t"
    by (simp only: ac_simps)
  have up: "[16 ..< 16 + Suc k] = [16 ..< 16 + k] @ [?t]"
    using upt_Suc_append [of 16 ?t] by (simp only: add_Suc_right le_add1)
  have "fold (sha2_second alg) [16 ..< 16 + Suc k] (M, r0) = sha2_second alg ?t (W1, r1)"
    by (simp only: up fold_append comp_apply f id_apply fold_simps)
  also have "\<dots> = (W1[?t mod 16 := fips_W alg M ?t], sha2_round alg ?t (fips_W alg M ?t) r1)"
    unfolding sha2_second.simps Let_def and_15 w ..
  finally have W: "W = W1[?t mod 16 := fips_W alg M ?t]"
    and r: "r = sha2_round alg ?t (fips_W alg M ?t) r1"
    using Suc.prems by (simp_all only: prod.inject)
  have "W ! (i mod 16) = fips_W alg M i" if i: "Suc k \<le> i" "i < 16 + Suc k" for i
  proof (cases "i = ?t")
    case True
    then show ?thesis using ih by (simp add: W)
  next
    case False
    have "i mod 16 \<noteq> ?t mod 16"
    proof
      assume "i mod 16 = ?t mod 16"
      then have "16 dvd ?t - i" using i mod_eq_dvd_iff_nat [of i ?t 16] by simp
      then show False using i False by (auto dest: dvd_imp_le)
    qed
    then show ?thesis using ih i False by (simp add: W)
  qed
  moreover have "r = fold (\<lambda>t. sha2_round alg t (fips_W alg M t)) [16 ..< 16 + Suc k] r0"
    using ih unfolding r up by simp
  ultimately show ?case using ih by (simp add: W)
qed

lemma transform_spec:
  fixes s :: "'w::len hash_state"
  assumes "8 * (LENGTH('w) div 8) = LENGTH('w)" "length (hs_buffer s) = 16 * (LENGTH('w) div 8)"
    "16 * (LENGTH('w) div 8) \<le> length (block_of src s)" "16 \<le> length (K_of alg)"
  shows "hs_state (sha2_transform alg src s) = fips_compress alg (hs_state s) (block_of src s)"
    and "length (hs_buffer (sha2_transform alg src s)) = length (hs_buffer s)"
    and "hs_bitcount (sha2_transform alg src s) = hs_bitcount s"
    and "hs_digestSize (sha2_transform alg src s) = hs_digestSize s"
proof -
  let ?M = "load_be (block_of src s) :: 'w word list"
  let ?W0 = "load_le (LENGTH('w) div 8) 16 (hs_buffer s) :: 'w word list"
  let ?r1 = "fold (\<lambda>t. sha2_round alg t (?M ! t)) [0 ..< 16] (load_regs (hs_state s))"
  have l: "length ?M = 16" by (simp add: load_be_def)
  have "fold (sha2_first alg src) [0 ..< 16] (?W0, load_regs (hs_state s)) = (take 16 ?M @ drop 16 ?W0, ?r1)"
    using assms by (intro first_phase) (auto split: block_src.splits)
  then have p1: "fold (sha2_first alg src) [0 ..< 16] (?W0, load_regs (hs_state s)) = (?M, ?r1)"
    using l by simp
  obtain W r where p2: "fold (sha2_second alg) [16 ..< length (K_of alg)] (?M, ?r1) = (W, r)"
    by (meson surj_pair)
  have sp: "length W = 16" "r = fold (\<lambda>t. sha2_round alg t (fips_W alg ?M t)) [16 ..< length (K_of alg)] ?r1"
    using second_phase [OF l, of alg "length (K_of alg) - 16" ?r1 W r] p2 assms(4) by auto
  have "?r1 = fold (\<lambda>t. sha2_round alg t (fips_W alg ?M t)) [0 ..< 16] (load_regs (hs_state s))"
    by (intro fold_cong) (auto simp: fips_W.simps)
  then have "r = fold (\<lambda>t. sha2_round alg t (fips_W alg ?M t)) [0 ..< length (K_of alg)] (load_regs (hs_state s))"
    using sp(2) upt_add_eq_append [of 0 16 "length (K_of alg) - 16"] assms(4) by simp
  then show "hs_state (sha2_transform alg src s) = fips_compress alg (hs_state s) (block_of src s)"
    by (simp add: sha2_transform_def p1 p2 fips_compress_def)
  show "length (hs_buffer (sha2_transform alg src s)) = length (hs_buffer s)"
    "hs_bitcount (sha2_transform alg src s) = hs_bitcount s"
    "hs_digestSize (sha2_transform alg src s) = hs_digestSize s"
    using sp(1) assms(2) by (simp_all add: sha2_transform_def p1 p2)
qed

lemma load_be_take:
  "16 * (LENGTH('w) div 8) = b \<Longrightarrow> (load_be (take b d) :: 'w::len word list) = load_be d"
proof -
  assume b: "16 * (LENGTH('w) div 8) = b"
  let ?n = "LENGTH('w) div 8"
  have "take ?n (drop (?n * j) (take b d)) = take ?n (drop (?n * j) d)" if "j < 16" for j
  proof -
    have "?n * Suc j \<le> b" using mult_le_mono2 [of "Suc j" 16 ?n] that b by (simp add: mult.commute)
    then show ?thesis by (simp add: drop_take min_absorb1)
  qed
  then show ?thesis by (simp add: load_be_def)
qed

lemma transform_keeps:
  "length (hs_buffer (sha2_transform alg src (s :: 'w::len hash_state))) = 16 * (LENGTH('w) div 8)"
  "hs_bitcount (sha2_transform alg src s) = hs_bitcount s"
  "hs_digestSize (sha2_transform alg src s) = hs_digestSize s"
proof -
  have "length (fst (fold (sha2_first alg src) js p)) = length (fst p)" for js and p :: "'w word list \<times> 'w regs"
    by (induction js arbitrary: p) (auto simp: Let_def)
  moreover have "length (fst (fold (sha2_second alg) js p)) = length (fst p)" for js and p :: "'w word list \<times> 'w regs"
    by (induction js arbitrary: p) (auto simp: Let_def)
  ultimately show "length (hs_buffer (sha2_transform alg src s)) = 16 * (LENGTH('w) div 8)"
    by (simp add: sha2_transform_def case_prod_beta)
qed (simp_all add: sha2_transform_def split: prod.splits)

lemma sha2_block_transform:
  assumes "8 * (LENGTH('w) div 8) = LENGTH('w::len)" "16 * (LENGTH('w) div 8) = b" "16 \<le> length (K_of alg)"
    and "b dvd 2 ^ 61" "8 < b"
  shows "block_transform b (b - 8) (sha2_transform (alg :: 'w sha2_alg)) (fips_compress alg)"
proof
  fix s :: "'w hash_state" and d
  assume b: "length (hs_buffer s) = b"
  show "hs_state (sha2_transform alg (Mem d) s) = fips_compress alg (hs_state s) (take b d)" if "b \<le> length d"
    using transform_spec(1) [OF assms(1), of s "Mem d" alg] b that assms(2,3)
    by (simp add: fips_compress_def load_be_take)
  show "hs_state (sha2_transform alg Own s) = fips_compress alg (hs_state s) (hs_buffer s)"
    using transform_spec(1) [OF assms(1), of s Own alg] b assms(2,3) by simp
qed (use assms in \<open>simp_all add: transform_keeps\<close>)

subsection \<open>SHA-256\<close>

definition sha256_new :: "nat \<Rightarrow> 32 hash_state" where
  "sha256_new digestSize =
     \<lparr>hs_digestSize = (if digestSize < 1 then 1 else if 32 < digestSize then 32 else digestSize),
      hs_state = IV_256, hs_bitcount = 0, hs_buffer = replicate 64 0\<rparr>"

definition sha256_transform :: "32 transform" where
  "sha256_transform = sha2_transform sha256_alg"

definition sha256_add :: "32 hash_state \<Rightarrow> byte list \<Rightarrow> 32 hash_state" where
  "sha256_add = block_add 64 sha256_transform"

definition sha256_finish :: "32 hash_state \<Rightarrow> nat \<Rightarrow> byte list \<times> 32 hash_state" where
  "sha256_finish = block_finish 64 (64 - 8) IV_256 sha256_transform"

definition sha256_barrier :: "32 hash_state \<Rightarrow> 32 hash_state" where
  "sha256_barrier = block_barrier 64 (64 - 8) IV_256 sha256_transform 32"

definition sha256_clear :: "32 hash_state \<Rightarrow> 32 hash_state" where
  "sha256_clear = block_clear 64 IV_256"

lemma length_K_256 [simp]: "length K_256 = 64"
  by (simp add: K_256_def)

interpretation sha256: block_transform 64 "64 - 8" IV_256 sha256_transform "fips_compress sha256_alg"
  unfolding sha256_transform_def by (rule sha2_block_transform) (simp_all add: sha256_alg_def)

subsection \<open>SHA-512\<close>

definition sha512_new :: "nat \<Rightarrow> 64 hash_state" where
  "sha512_new digestSize =
     \<lparr>hs_digestSize = (if digestSize < 1 then 1 else if 64 < digestSize then 64 else digestSize),
      hs_state = IV_512, hs_bitcount = 0, hs_buffer = replicate 128 0\<rparr>"

definition sha512_transform :: "64 transform" where
  "sha512_transform = sha2_transform sha512_alg"

definition sha512_add :: "64 hash_state \<Rightarrow> byte list \<Rightarrow> 64 hash_state" where
  "sha512_add = block_add 128 sha512_transform"

definition sha512_finish :: "64 hash_state \<Rightarrow> nat \<Rightarrow> byte list \<times> 64 hash_state" where
  "sha512_finish = block_finish 128 (128 - 8) IV_512 sha512_transform"

definition sha512_barrier :: "64 hash_state \<Rightarrow> 64 hash_state" where
  "sha512_barrier = block_barrier 128 (128 - 8) IV_512 sha512_transform 64"

definition sha512_clear :: "64 hash_state \<Rightarrow> 64 hash_state" where
  "sha512_clear = block_clear 128 IV_512"

lemma length_K_512 [simp]: "length K_512 = 80"
  by (simp add: K_512_def)

interpretation sha512: block_transform 128 "128 - 8" IV_512 sha512_transform "fips_compress sha512_alg"
  unfolding sha512_transform_def by (rule sha2_block_transform) (simp_all add: sha512_alg_def)

subsection \<open>Reference: the hashes of FIPS 180-4\<close>

definition fips_pad_256 :: "byte list \<Rightarrow> byte list" where
  "fips_pad_256 m =
     m @ [0x80] @ replicate (nat ((55 - int (length m)) mod 64)) 0 @ be_bytes 8 (of_nat (8 * length m) :: 64 word)"

definition fips_pad_512 :: "byte list \<Rightarrow> byte list" where
  "fips_pad_512 m =
     m @ [0x80] @ replicate (nat ((111 - int (length m)) mod 128)) 0 @ be_bytes 16 (of_nat (8 * length m) :: 128 word)"

definition fips_sha256 :: "byte list \<Rightarrow> byte list" where
  "fips_sha256 m = store_be 4 (absorb 64 (fips_compress sha256_alg) IV_256 (fips_pad_256 m))"

definition fips_sha512 :: "byte list \<Rightarrow> byte list" where
  "fips_sha512 m = store_be 8 (absorb 128 (fips_compress sha512_alg) IV_512 (fips_pad_512 m))"

lemma pad_zeros:
  assumes "0 < B" "0 < short"
  shows "nat ((int short - 1 - int l) mod int B) = (short + B - 1 - l mod B) mod B"
proof -
  have le: "l mod B \<le> short + B - 1" using assms mod_less_divisor [of B l] by linarith
  have "int ((short + B - 1 - l mod B) mod B) = (int short + int B - 1 - int l mod int B) mod int B"
    using le assms by (simp add: of_nat_mod of_nat_diff algebra_simps)
  also have "\<dots> = (int short - 1 - int l + int B) mod int B"
    by (subst mod_diff_right_eq) (simp add: algebra_simps)
  also have "\<dots> = (int short - 1 - int l) mod int B"
    by simp
  finally show ?thesis by linarith
qed

lemma md_pad_256: "md_pad 64 (64 - 8) m = fips_pad_256 m"
  using pad_zeros [of 64 56 "length m"] by (simp add: md_pad_def fips_pad_256_def)

text \<open>A number below 2^64 has the same bytes in a word of 128 bits, after eight zeros.\<close>

lemma be_bytes_16:
  assumes "n < 2 ^ 64"
  shows "be_bytes 16 (of_nat n :: 128 word) = replicate 8 0 @ be_bytes 8 (of_nat n :: u64)"
proof -
  have "le_bytes 16 (of_nat n :: 128 word) = le_bytes 8 (of_nat n :: u64) @ replicate 8 0"
  proof (rule nth_equalityI)
    fix i assume "i < length (le_bytes 16 (of_nat n :: 128 word))"
    then have i: "i < 16" by simp
    have h: "\<not> bit n k" if "64 \<le> k" for k
      using assms that by (metis bit_take_bit_iff linorder_not_less take_bit_nat_eq_self)
    show "le_bytes 16 (of_nat n :: 128 word) ! i = (le_bytes 8 (of_nat n :: u64) @ replicate 8 0) ! i"
    proof (rule bit_word_eqI)
      fix k assume k: "k < LENGTH(8)"
      show "bit (le_bytes 16 (of_nat n :: 128 word) ! i) k
              \<longleftrightarrow> bit ((le_bytes 8 (of_nat n :: u64) @ replicate 8 0) ! i) k"
        using i k h [of "8 * i + k"]
        by (auto simp: nth_le_bytes nth_append bit_simps)
    qed
  qed simp
  then show ?thesis by (simp add: be_bytes_def)
qed

lemma md_pad_512:
  assumes "length m mod 128 < 112 \<or> 120 \<le> length m mod 128" "8 * length m < 2 ^ 64"
  shows "md_pad 128 (128 - 8) m = fips_pad_512 m"
proof -
  define u where "u = length m mod 128"
  have "u < 128" by (simp add: u_def)
  moreover have "u < 112 \<or> 120 \<le> u" using assms(1) by (simp add: u_def)
  ultimately have "(120 + 128 - 1 - u) mod 128 = (112 + 128 - 1 - u) mod 128 + 8"
    by (auto simp: mod_if)
  then have "(120 + 128 - 1 - length m mod 128) mod 128 = nat ((111 - int (length m)) mod 128) + 8"
    using pad_zeros [of 128 112 "length m"] by (simp add: u_def)
  then show ?thesis
    by (simp add: md_pad_def fips_pad_512_def be_bytes_16 [OF assms(2), simplified] replicate_add)
qed

subsection \<open>Properties\<close>

lemma length_absorb:
  "length h = 8 \<Longrightarrow> length (absorb B (fips_compress alg) h m) = 8"
proof (induction B "fips_compress alg" h m rule: absorb.induct)
  case (1 B h m)
  have "length (add_regs x r) = 8" for x and r :: "'a regs"
    by (cases "(x, r)" rule: add_regs.cases) simp
  then show ?case using 1 by (subst absorb.simps) (simp add: fips_compress_def)
qed

lemma length_IV [simp]: "length IV_256 = 8" "length IV_512 = 8"
  by (simp_all add: IV_256_def IV_512_def)

lemma length_fips_sha256 [simp]: "length (fips_sha256 m) = 32"
  by (simp add: fips_sha256_def length_absorb IV_256_def)

lemma sha256_new_holds: "hs_holds 64 (fips_compress sha256_alg) IV_256 [] (sha256_new n)"
  by (simp add: hs_holds_def sha256_new_def tail_of_def)

lemma sha512_new_holds: "hs_holds 128 (fips_compress sha512_alg) IV_512 [] (sha512_new n)"
  by (simp add: hs_holds_def sha512_new_def tail_of_def)

lemma n2b_is_convert: "(n2b :: 'w::len word \<Rightarrow> 'w word) = convert"
  by (simp add: fun_eq_iff n2b_def)

lemma digest_256:
  "store_le (LENGTH(32) div 8) (map n2b (absorb 64 (fips_compress sha256_alg) IV_256 (md_pad 64 (64 - 8) m)))
     = fips_sha256 m"
  unfolding md_pad_256 n2b_is_convert fips_sha256_def by (subst store_le_convert) simp_all

lemma digest_512:
  "store_le (LENGTH(64) div 8) (map n2b (absorb 128 (fips_compress sha512_alg) IV_512 p))
     = store_be 8 (absorb 128 (fips_compress sha512_alg) IV_512 p)"
  unfolding n2b_is_convert by (subst store_le_convert) simp_all

lemma block_cleared:
  assumes "s = block_clear B iv s"
  shows "s = \<lparr>hs_digestSize = hs_digestSize s, hs_state = iv, hs_bitcount = 0, hs_buffer = replicate B 0\<rparr>"
proof -
  have "hs_state s = iv" "hs_bitcount s = 0" "hs_buffer s = replicate B 0"
    by (subst assms, simp add: block_clear_def)+
  then show ?thesis by simp
qed

lemma sha256_cleared: "s = block_clear 64 IV_256 s \<Longrightarrow> hs_digestSize s = hs_digestSize (sha256_new n) \<Longrightarrow> s = sha256_new n"
  using block_cleared [of s 64 IV_256] by (simp add: sha256_new_def)

lemma sha512_cleared: "s = block_clear 128 IV_512 s \<Longrightarrow> hs_digestSize s = hs_digestSize (sha512_new n) \<Longrightarrow> s = sha512_new n"
  using block_cleared [of s 128 IV_512] by (simp add: sha512_new_def)

lemma sha256_finish_eq:
  assumes "hs_holds 64 (fips_compress sha256_alg) IV_256 m s" "hs_digestSize s = hs_digestSize (sha256_new n)"
  shows "sha256_finish s k = (take (min k (hs_digestSize s)) (fips_sha256 m), sha256_new n)"
proof -
  note f = sha256.finish_digest [OF assms(1), of k, folded sha256_finish_def, unfolded digest_256]
  have "snd (sha256_finish s k) = sha256_new n"
    using f assms(2) by (intro sha256_cleared) (metis snd_conv)+
  then show ?thesis using f by (metis prod.collapse fst_conv)
qed

lemma sha512_finish_eq:
  assumes "hs_holds 128 (fips_compress sha512_alg) IV_512 m s" "hs_digestSize s = hs_digestSize (sha512_new n)"
  shows "sha512_finish s k = (take (min k (hs_digestSize s))
     (store_be 8 (absorb 128 (fips_compress sha512_alg) IV_512 (md_pad 128 (128 - 8) m))), sha512_new n)"
proof -
  note f = sha512.finish_digest [OF assms(1), of k, folded sha512_finish_def, unfolded digest_512]
  have "snd (sha512_finish s k) = sha512_new n"
    using f assms(2) by (intro sha512_cleared) (metis snd_conv)+
  then show ?thesis using f by (metis prod.collapse fst_conv)
qed

text \<open>C8. \<^verbatim>\<open>Sha2_256\<close> computes SHA-256: whatever pieces a message is added in, \<open>finish\<close> yields the leading
bytes of the FIPS 180-4 digest of their concatenation, as many as the smaller of the requested and
the constructed digest size (clamped to 1..32), and leaves the object as newly constructed. The block
transformation works in place, in a 16-word circular schedule that shares the object's buffer.\<close>

theorem sha256_correct:
  "sha256_finish (fold (\<lambda>d s. sha256_add s d) pieces (sha256_new n)) k =
     (take (min k (max 1 (min n 32))) (fips_sha256 (concat pieces)), sha256_new n)"
proof -
  let ?s = "fold (\<lambda>d s. sha256_add s d) pieces (sha256_new n)"
  have h: "hs_holds 64 (fips_compress sha256_alg) IV_256 (concat pieces) ?s"
    and d: "hs_digestSize ?s = hs_digestSize (sha256_new n)"
    using sha256.holds_pieces [OF sha256_new_holds [of n], of pieces] by (simp_all add: sha256_add_def)
  have ds: "hs_digestSize (sha256_new n) = max 1 (min n 32)"
    by (simp add: sha256_new_def)
  show ?thesis using sha256_finish_eq [OF h d] d ds by simp
qed

text \<open>\<^verbatim>\<open>Sha2_512\<close>, for messages whose length modulo 128 is below 112 or from 120 on (and below 2^61
bytes): \<open>finish\<close> yields the leading bytes of the FIPS 180-4 digest of the concatenated pieces and
resets the object.\<close>

theorem sha512_correct:
  assumes "length (concat pieces) mod 128 < 112 \<or> 120 \<le> length (concat pieces) mod 128"
    and "8 * length (concat pieces) < 2 ^ 64"
  shows "sha512_finish (fold (\<lambda>d s. sha512_add s d) pieces (sha512_new n)) k =
     (take (min k (max 1 (min n 64))) (fips_sha512 (concat pieces)), sha512_new n)"
proof -
  let ?s = "fold (\<lambda>d s. sha512_add s d) pieces (sha512_new n)"
  have h: "hs_holds 128 (fips_compress sha512_alg) IV_512 (concat pieces) ?s"
    and d: "hs_digestSize ?s = hs_digestSize (sha512_new n)"
    using sha512.holds_pieces [OF sha512_new_holds [of n], of pieces] by (simp_all add: sha512_add_def)
  have ds: "hs_digestSize (sha512_new n) = max 1 (min n 64)"
    by (simp add: sha512_new_def)
  show ?thesis
    using sha512_finish_eq [OF h d] d ds by (simp add: md_pad_512 [OF assms, simplified] fips_sha512_def)
qed

theorem sha512_correct_witness:
  "sha512_finish (fold (\<lambda>d s. sha512_add s d) [[0x61], [0x62, 0x63]] (sha512_new 64)) 64 =
     (take 64 (fips_sha512 [0x61, 0x62, 0x63]), sha512_new 64)"
  using sha512_correct [of "[[0x61], [0x62, 0x63]]" 64 64] by simp

text \<open>When the length of the message modulo 128 lies in 112..119 the padding of \<^verbatim>\<open>Sha2_512\<close> is not the
one of FIPS 180-4: the code lets the message run up to byte 120 of a block, where the standard stops at
112 because its bit count has 16 bytes. The digest is the iterated compression of a padded message that
ends one whole block before the standard's.\<close>

theorem sha512_padding_short:
  assumes "112 \<le> length (concat pieces) mod 128" "length (concat pieces) mod 128 < 120"
  shows "(\<exists>p. fst (sha512_finish (fold (\<lambda>d s. sha512_add s d) pieces (sha512_new 64)) 64) =
           take 64 (store_be 8 (absorb 128 (fips_compress sha512_alg) IV_512 p)) \<and>
         128 dvd length p \<and> length p + 128 = length (fips_pad_512 (concat pieces)))"
proof (rule exI [of _ "md_pad 128 (128 - 8) (concat pieces)"], intro conjI)
  let ?m = "concat pieces" and ?s = "fold (\<lambda>d s. sha512_add s d) pieces (sha512_new 64)"
  have h: "hs_holds 128 (fips_compress sha512_alg) IV_512 ?m ?s"
    and d: "hs_digestSize ?s = 64"
    using sha512.holds_pieces [OF sha512_new_holds [of 64], of pieces]
    by (simp_all add: sha512_add_def sha512_new_def)
  show "fst (sha512_finish ?s 64) =
      take 64 (store_be 8 (absorb 128 (fips_compress sha512_alg) IV_512 (md_pad 128 (128 - 8) ?m)))"
    using sha512_finish_eq [OF h, of 64 64] d by (simp add: sha512_new_def)
  define u where "u = length ?m mod 128"
  define q where "q = length ?m div 128"
  have l: "length ?m = 128 * q + u" by (simp add: u_def q_def)
  have u: "112 \<le> u" "u < 120" using assms by (simp_all add: u_def)
  have c: "length (md_pad 128 (128 - 8) ?m) = 128 * q + 128"
  proof -
    have "247 - u = 128 + (119 - u)" using u by simp
    then have "(247 - u) mod 128 = 119 - u" by (simp only: mod_add_self1) simp
    then show ?thesis using u unfolding md_pad_def by (simp add: u_def [symmetric]) (simp add: l)
  qed
  then show "128 dvd length (md_pad 128 (128 - 8) ?m)" by simp
  have "nat ((111 - int (length ?m)) mod 128) = 239 - u"
    using pad_zeros [of 128 112 "length ?m"] u by (simp add: u_def [symmetric])
  then have "length (fips_pad_512 ?m) = 128 * q + 256"
    using u unfolding fips_pad_512_def by (simp add: l)
  then show "length (md_pad 128 (128 - 8) ?m) + 128 = length (fips_pad_512 ?m)"
    using c by simp
qed

theorem sha512_padding_short_witness:
  "\<exists>p. fst (sha512_finish (fold (\<lambda>d s. sha512_add s d) [replicate 112 0] (sha512_new 64)) 64) =
         take 64 (store_be 8 (absorb 128 (fips_compress sha512_alg) IV_512 p)) \<and>
       128 dvd length p \<and> length p + 128 = length (fips_pad_512 (replicate 112 0))"
  using sha512_padding_short [of "[replicate 112 0]"] by simp

text \<open>\<open>barrier\<close> adds the full digest of what was added so far to the message itself: after it, the object
holds the message followed by its own 32-byte digest, so a later \<open>finish\<close> hashes that.\<close>

theorem sha256_barrier_chains:
  "sha256_finish (fold (\<lambda>d s. sha256_add s d) post
       (sha256_barrier (fold (\<lambda>d s. sha256_add s d) pre (sha256_new n)))) k =
     sha256_finish (fold (\<lambda>d s. sha256_add s d) (pre @ [fips_sha256 (concat pre)] @ post) (sha256_new n)) k"
proof -
  let ?s = "fold (\<lambda>d s. sha256_add s d) pre (sha256_new n)"
  have h: "hs_holds 64 (fips_compress sha256_alg) IV_256 (concat pre) (?s\<lparr>hs_digestSize := 32\<rparr>)"
    using sha256.holds_pieces [OF sha256_new_holds [of n], of pre] by (simp add: sha256_add_def hs_holds_def)
  have "fst (block_finish 64 (64 - 8) IV_256 sha256_transform (?s\<lparr>hs_digestSize := 32\<rparr>) 32)
          = fips_sha256 (concat pre)"
    using sha256.finish_digest [OF h, of 32, unfolded digest_256]
    by (simp add: prod_eq_iff)
  then show ?thesis
    by (simp add: sha256_barrier_def block_barrier_def sha256_add_def)
qed

end
