(* ===== verification/Hmac.thy ===== *)
theory Hmac
  imports Sha2
begin

section \<open>HMAC over a hash object\<close>

text \<open>
  Models \<open>source/core/crypto/src/impl/hmac.cpp\<close>. The hash is used through its virtual
  interface (\<open>hash.hpp\<close>), a record of operations over an arbitrary state; the locale
  \<open>hash_object\<close> states the contract of that interface (an object holds the message added
  since it was fresh, \<open>finish\<close> yields its digest and makes it fresh again), proves the MAC of
  RFC 2104 from it, and is interpreted by SHA-256 and SHA-512.
\<close>

subsection \<open>The virtual interface of a hash\<close>

record 's hash_vt =
  vt_blockSize :: "'s \<Rightarrow> nat"
  vt_digestSize :: "'s \<Rightarrow> nat"
  vt_add :: "'s \<Rightarrow> byte list \<Rightarrow> 's"
  vt_finish :: "'s \<Rightarrow> nat \<Rightarrow> byte list \<times> 's"
  vt_barrier :: "'s \<Rightarrow> 's"
  vt_clear :: "'s \<Rightarrow> 's"

definition sha256_vt :: "32 hash_state hash_vt" where
  "sha256_vt = \<lparr>vt_blockSize = (\<lambda>_. 64), vt_digestSize = hs_digestSize, vt_add = sha256_add,
     vt_finish = sha256_finish, vt_barrier = sha256_barrier, vt_clear = sha256_clear\<rparr>"

definition sha512_vt :: "64 hash_state hash_vt" where
  "sha512_vt = \<lparr>vt_blockSize = (\<lambda>_. 128), vt_digestSize = hs_digestSize, vt_add = sha512_add,
     vt_finish = sha512_finish, vt_barrier = sha512_barrier, vt_clear = sha512_clear\<rparr>"

subsection \<open>The object and its operations\<close>

record 's hmac =
  hm_digestSize :: nat
  hm_hash :: 's
  hm_ikey :: "byte list"
  hm_okey :: "byte list"

definition hmac_new :: "'s hash_vt \<Rightarrow> 's \<Rightarrow> 's hmac" where
  "hmac_new vt h = \<lparr>hm_digestSize = vt_digestSize vt h, hm_hash = h, hm_ikey = [], hm_okey = []\<rparr>"

text \<open>\<open>xs[i] ^= ys[i]\<close> for \<open>i < n\<close>.\<close>

definition xor_first :: "nat \<Rightarrow> byte list \<Rightarrow> byte list \<Rightarrow> byte list" where
  "xor_first n xs ys = map (\<lambda>i. if i < n then xs ! i XOR ys ! i else xs ! i) [0 ..< length xs]"

definition hmac_setKey :: "'s hash_vt \<Rightarrow> byte list \<Rightarrow> 's hmac \<Rightarrow> 's hmac" where
  "hmac_setKey vt key hm =
     (let h = vt_clear vt (hm_hash hm);
          blockSize = vt_blockSize vt h;
          ikey = replicate blockSize 0x36;
          okey = replicate blockSize 0x5C
      in if blockSize < length key then
           (case vt_finish vt (vt_add vt h key) (vt_digestSize vt h) of (d, h2) \<Rightarrow>
              let ikey1 = put_at 0 d ikey;
                  okey1 = xor_first (hm_digestSize hm) okey ikey1;
                  ikey2 = xor_first (hm_digestSize hm) ikey1 (replicate blockSize 0x36)
              in hm\<lparr>hm_hash := vt_add vt h2 ikey2, hm_ikey := ikey2, hm_okey := okey1\<rparr>)
         else
           let ikey1 = xor_first (length key) ikey key; okey1 = xor_first (length key) okey key
           in hm\<lparr>hm_hash := vt_add vt h ikey1, hm_ikey := ikey1, hm_okey := okey1\<rparr>)"

definition hmac_add :: "'s hash_vt \<Rightarrow> 's hmac \<Rightarrow> byte list \<Rightarrow> 's hmac" where
  "hmac_add vt hm d = hm\<lparr>hm_hash := vt_add vt (hm_hash hm) d\<rparr>"

definition hmac_barrier :: "'s hash_vt \<Rightarrow> 's hmac \<Rightarrow> 's hmac" where
  "hmac_barrier vt hm = hm\<lparr>hm_hash := vt_barrier vt (hm_hash hm)\<rparr>"

text \<open>\<open>finish\<close> works in the caller's memory \<open>mem\<close>: the inner digest is written there, read back and overwritten.\<close>

definition hmac_finish_custom :: "'s hash_vt \<Rightarrow> byte list \<Rightarrow> 's hmac \<Rightarrow> nat \<Rightarrow> byte list \<times> 's hmac" where
  "hmac_finish_custom vt mem hm custom =
     (case vt_finish vt (hm_hash hm) custom of (d1, h1) \<Rightarrow>
        let mem1 = put_at 0 d1 mem;
            h2 = vt_add vt h1 (hm_okey hm);
            h3 = vt_add vt h2 (take (vt_digestSize vt h2) mem1)
        in case vt_finish vt h3 (vt_digestSize vt h3) of (d2, h4) \<Rightarrow>
             (put_at 0 d2 mem1, hm\<lparr>hm_hash := vt_add vt h4 (hm_ikey hm)\<rparr>))"

definition hmac_finish :: "'s hash_vt \<Rightarrow> byte list \<Rightarrow> 's hmac \<Rightarrow> byte list \<times> 's hmac" where
  "hmac_finish vt mem hm = hmac_finish_custom vt mem hm (vt_digestSize vt (hm_hash hm))"

definition hmac_clear :: "'s hash_vt \<Rightarrow> 's hmac \<Rightarrow> 's hmac" where
  "hmac_clear vt hm = hm\<lparr>hm_hash := vt_clear vt (hm_hash hm)\<rparr>"

subsection \<open>Reference: RFC 2104\<close>

text \<open>A key longer than a block is hashed, a shorter one filled with zeros.\<close>

definition rfc_key :: "(byte list \<Rightarrow> byte list) \<Rightarrow> nat \<Rightarrow> byte list \<Rightarrow> byte list" where
  "rfc_key H B key =
     (let k = (if B < length key then H key else key) in k @ replicate (B - length k) 0)"

definition rfc_hmac :: "(byte list \<Rightarrow> byte list) \<Rightarrow> nat \<Rightarrow> byte list \<Rightarrow> byte list \<Rightarrow> byte list" where
  "rfc_hmac H B key m =
     (let k = rfc_key H B key in
      H (map (\<lambda>b. b XOR 0x5C) k @ H (map (\<lambda>b. b XOR 0x36) k @ m)))"

subsection \<open>The contract of a hash object\<close>

locale hash_object =
  fixes vt :: "'s hash_vt" and holds :: "byte list \<Rightarrow> 's \<Rightarrow> bool" and fresh :: 's
    and H :: "byte list \<Rightarrow> byte list" and B ds :: nat
  assumes sizes: "ds \<le> B" "\<And>m s. holds m s \<Longrightarrow> vt_blockSize vt s = B"
      "\<And>m s. holds m s \<Longrightarrow> vt_digestSize vt s = ds" "\<And>m. length (H m) = ds"
    and fresh_holds: "holds [] fresh"
    and add_holds: "\<And>m s d. holds m s \<Longrightarrow> holds (m @ d) (vt_add vt s d)"
    and finish_eq: "\<And>m s k. holds m s \<Longrightarrow> vt_finish vt s k = (take (min k ds) (H m), fresh)"
    and clear_eq: "\<And>m s. holds m s \<Longrightarrow> vt_clear vt s = fresh"
begin

text \<open>The two keys that \<open>setKey\<close> leaves are those of the RFC.\<close>

lemma setKey_eq:
  assumes "holds m (hm_hash hm)" "hm_digestSize hm = ds"
  shows "hmac_setKey vt key hm =
    hm\<lparr>hm_hash := vt_add vt fresh (map (\<lambda>b. b XOR 0x36) (rfc_key H B key)),
       hm_ikey := map (\<lambda>b. b XOR 0x36) (rfc_key H B key),
       hm_okey := map (\<lambda>b. b XOR 0x5C) (rfc_key H B key)\<rparr>"
proof (cases "B < length key")
  case True
  have d: "vt_finish vt (vt_add vt fresh key) ds = (H key, fresh)"
    using finish_eq [OF add_holds [OF fresh_holds, of key], of ds] sizes(4) by simp
  have "put_at 0 (H key) (replicate B 0x36) = H key @ replicate (B - ds) 0x36"
    using sizes by (simp add: put_at_def)
  moreover have "xor_first ds (H key @ replicate (B - ds) 0x36) (replicate B 0x36)
      = map (\<lambda>b. b XOR 0x36) (rfc_key H B key)"
    using sizes True
    by (intro nth_equalityI) (auto simp: xor_first_def rfc_key_def nth_append)
  moreover have "xor_first ds (replicate B 0x5C) (H key @ replicate (B - ds) 0x36)
      = map (\<lambda>b. b XOR 0x5C) (rfc_key H B key)"
    using sizes True
    by (intro nth_equalityI) (auto simp: xor_first_def rfc_key_def nth_append xor.commute)
  ultimately show ?thesis
    using True assms clear_eq [OF assms(1)] sizes(2,3) [OF fresh_holds] d
    by (simp add: hmac_setKey_def Let_def)
next
  case False
  have "xor_first (length key) (replicate B 0x36) key = map (\<lambda>b. b XOR 0x36) (rfc_key H B key)"
    "xor_first (length key) (replicate B 0x5C) key = map (\<lambda>b. b XOR 0x5C) (rfc_key H B key)"
    using False by (auto intro!: nth_equalityI simp: xor_first_def rfc_key_def nth_append xor.commute)
  then show ?thesis
    using False assms clear_eq [OF assms(1)] sizes(2) [OF fresh_holds]
    by (simp add: hmac_setKey_def Let_def)
qed

lemma finish_custom_eq:
  assumes "holds m (hm_hash hm)" "ds \<le> length mem"
  shows "hmac_finish_custom vt mem hm k =
    (put_at 0 (H (hm_okey hm @ take (min k ds) (H m) @ drop (min k ds) (take ds mem))) mem,
     hm\<lparr>hm_hash := vt_add vt fresh (hm_ikey hm)\<rparr>)"
proof -
  let ?mem1 = "put_at 0 (take (min k ds) (H m)) mem"
  have t: "take ds ?mem1 = take (min k ds) (H m) @ drop (min k ds) (take ds mem)"
    using sizes(4) [of m] by (simp add: put_at_def min_def drop_take)
  have h2: "holds (hm_okey hm) (vt_add vt fresh (hm_okey hm))"
    using add_holds [OF fresh_holds] by simp
  have h3: "holds (hm_okey hm @ take ds ?mem1) (vt_add vt (vt_add vt fresh (hm_okey hm)) (take ds ?mem1))"
    by (rule add_holds [OF h2])
  have p: "put_at 0 x ?mem1 = put_at 0 x mem" if "length x = ds" for x
    using that sizes(4) [of m] by (simp add: put_at_def min_def)
  show ?thesis
    using finish_eq [OF assms(1), of k] finish_eq [OF h3, of ds] sizes(3) [OF h2] sizes(3) [OF h3]
      sizes(4) p t
    by (simp add: hmac_finish_custom_def Let_def)
qed

lemma add_pieces:
  assumes "holds m (hm_hash hm)"
  shows "holds (m @ concat ps) (hm_hash (fold (\<lambda>d hm. hmac_add vt hm d) ps hm)) \<and>
    hm_ikey (fold (\<lambda>d hm. hmac_add vt hm d) ps hm) = hm_ikey hm \<and>
    hm_okey (fold (\<lambda>d hm. hmac_add vt hm d) ps hm) = hm_okey hm \<and>
    fold (\<lambda>d hm. hmac_add vt hm d) ps hm\<lparr>hm_hash := x\<rparr> = hm\<lparr>hm_hash := x\<rparr>"
  using assms
proof (induction ps arbitrary: m hm)
  case (Cons d ps)
  have "holds (m @ d) (hm_hash (hmac_add vt hm d))"
    using add_holds [OF Cons.prems] by (simp add: hmac_add_def)
  from Cons.IH [OF this] show ?case by (simp add: hmac_add_def)
qed simp

text \<open>The whole life of a MAC: key, pieces, \<open>finish\<close>; afterwards the object is keyed again.\<close>

lemma mac_eq:
  assumes "holds m0 h" "ds \<le> length mem" "ds \<le> k"
  shows "hmac_finish_custom vt mem
       (fold (\<lambda>d hm. hmac_add vt hm d) pieces (hmac_setKey vt key (hmac_new vt h))) k =
     (put_at 0 (rfc_hmac H B key (concat pieces)) mem, hmac_setKey vt key (hmac_new vt h))"
proof -
  let ?k = "hmac_setKey vt key (hmac_new vt h)" and ?rk = "rfc_key H B key"
  let ?s = "fold (\<lambda>d hm. hmac_add vt hm d) pieces ?k"
  have e: "?k = (hmac_new vt h)\<lparr>hm_hash := vt_add vt fresh (map (\<lambda>b. b XOR 0x36) ?rk),
      hm_ikey := map (\<lambda>b. b XOR 0x36) ?rk, hm_okey := map (\<lambda>b. b XOR 0x5C) ?rk\<rparr>"
    by (rule setKey_eq) (use assms(1) sizes in \<open>auto simp: hmac_new_def\<close>)
  have "holds (map (\<lambda>b. b XOR 0x36) ?rk) (hm_hash ?k)"
    using add_holds [OF fresh_holds] by (simp add: e)
  note a = add_pieces [OF this, of pieces]
  show ?thesis
    using finish_custom_eq [OF conjunct1 [OF a] assms(2), of k] a sizes(4) assms(3)
    by (simp add: e rfc_hmac_def Let_def min_absorb2)
qed

end

subsection \<open>HMAC over SHA-256 and SHA-512\<close>

definition sha256_holds :: "nat \<Rightarrow> byte list \<Rightarrow> 32 hash_state \<Rightarrow> bool" where
  "sha256_holds n m s \<longleftrightarrow>
     hs_holds 64 (fips_compress sha256_alg) IV_256 m s \<and> hs_digestSize s = hs_digestSize (sha256_new n)"

definition sha512_holds :: "nat \<Rightarrow> byte list \<Rightarrow> 64 hash_state \<Rightarrow> bool" where
  "sha512_holds n m s \<longleftrightarrow>
     hs_holds 128 (fips_compress sha512_alg) IV_512 m s \<and> hs_digestSize s = hs_digestSize (sha512_new n)"

text \<open>The hashes as the objects compute them: the leading bytes, SHA-512 with the padding of the code.\<close>

definition sha256_digest :: "nat \<Rightarrow> byte list \<Rightarrow> byte list" where
  "sha256_digest n m = take (hs_digestSize (sha256_new n)) (fips_sha256 m)"

definition sha512_digest :: "nat \<Rightarrow> byte list \<Rightarrow> byte list" where
  "sha512_digest n m = take (hs_digestSize (sha512_new n))
     (store_be 8 (absorb 128 (fips_compress sha512_alg) IV_512 (md_pad 128 (128 - 8) m)))"

lemma new_digestSize:
  "hs_digestSize (sha256_new n) = max 1 (min n 32)" "hs_digestSize (sha512_new n) = max 1 (min n 64)"
  by (simp_all add: sha256_new_def sha512_new_def)

interpretation hmac256: hash_object sha256_vt "sha256_holds n" "sha256_new n" "sha256_digest n" 64
    "max 1 (min n 32)" for n
proof
  fix m s k d assume h: "sha256_holds n m s"
  then show "vt_blockSize sha256_vt s = 64" "vt_digestSize sha256_vt s = max 1 (min n 32)"
    by (simp_all add: sha256_vt_def sha256_holds_def new_digestSize)
  show "sha256_holds n (m @ d) (vt_add sha256_vt s d)"
    using h sha256.holds_add sha256.add_digestSize
    by (auto simp: sha256_vt_def sha256_holds_def sha256_add_def)
  show "vt_finish sha256_vt s k = (take (min k (max 1 (min n 32))) (sha256_digest n m), sha256_new n)"
    using h sha256_finish_eq [of m s n k]
    by (simp add: sha256_vt_def sha256_holds_def sha256_digest_def new_digestSize)
  show "vt_clear sha256_vt s = sha256_new n"
    using h by (simp add: sha256_vt_def sha256_holds_def sha256_clear_def block_clear_def sha256_new_def)
qed (simp_all add: sha256_holds_def sha256_new_holds sha256_digest_def new_digestSize)

interpretation hmac512: hash_object sha512_vt "sha512_holds n" "sha512_new n" "sha512_digest n" 128
    "max 1 (min n 64)" for n
proof
  fix m s k d assume h: "sha512_holds n m s"
  then show "vt_blockSize sha512_vt s = 128" "vt_digestSize sha512_vt s = max 1 (min n 64)"
    by (simp_all add: sha512_vt_def sha512_holds_def new_digestSize)
  show "sha512_holds n (m @ d) (vt_add sha512_vt s d)"
    using h sha512.holds_add sha512.add_digestSize
    by (auto simp: sha512_vt_def sha512_holds_def sha512_add_def)
  show "vt_finish sha512_vt s k = (take (min k (max 1 (min n 64))) (sha512_digest n m), sha512_new n)"
    using h sha512_finish_eq [of m s n k]
    by (simp add: sha512_vt_def sha512_holds_def sha512_digest_def new_digestSize)
  show "vt_clear sha512_vt s = sha512_new n"
    using h by (simp add: sha512_vt_def sha512_holds_def sha512_clear_def block_clear_def sha512_new_def)
qed (simp_all add: sha512_holds_def sha512_new_holds sha512_digest_def new_digestSize length_absorb)

subsection \<open>Properties\<close>

text \<open>C14. HMAC over SHA-256 is the MAC of RFC 2104: for any key (longer than a block or not), any message in
any pieces and a destination with room for the digest, \<open>finish\<close> with a size of at least the digest size
writes HMAC of the concatenated message, and the object is left keyed for the next message.\<close>

theorem hmac_sha256_correct:
  assumes "max 1 (min n 32) \<le> length mem" "max 1 (min n 32) \<le> k"
  shows "hmac_finish_custom sha256_vt mem
       (fold (\<lambda>d hm. hmac_add sha256_vt hm d) pieces
          (hmac_setKey sha256_vt key (hmac_new sha256_vt (sha256_new n)))) k =
     (put_at 0 (rfc_hmac (sha256_digest n) 64 key (concat pieces)) mem,
      hmac_setKey sha256_vt key (hmac_new sha256_vt (sha256_new n)))"
  by (rule hmac256.mac_eq [OF hmac256.fresh_holds assms])

theorem hmac_sha256_correct_witness:
  "hmac_finish_custom sha256_vt (replicate 32 0)
       (fold (\<lambda>d hm. hmac_add sha256_vt hm d) [[0x48], [0x69]]
          (hmac_setKey sha256_vt (replicate 20 0x0b) (hmac_new sha256_vt (sha256_new 32)))) 32 =
     (put_at 0 (rfc_hmac (sha256_digest 32) 64 (replicate 20 0x0b) [0x48, 0x69]) (replicate 32 0),
      hmac_setKey sha256_vt (replicate 20 0x0b) (hmac_new sha256_vt (sha256_new 32)))"
  using hmac_sha256_correct [of 32 "replicate 32 0" 32 "[[0x48], [0x69]]" "replicate 20 0x0b"] by simp

text \<open>HMAC with a requested size \<open>k\<close> below the digest size of its hash is not a truncated MAC: the inner
digest is cut to \<open>k\<close> bytes, completed with the bytes that happened to be in the caller's memory, and the
outer digest is written in full, past the \<open>k\<close> bytes asked for.\<close>

theorem hmac_short_size:
  assumes "sha256_holds 32 m (hm_hash hm)" "32 \<le> length mem" "k \<le> 32"
  shows "fst (hmac_finish_custom sha256_vt mem hm k) =
     sha256_digest 32 (hm_okey hm @ take k (sha256_digest 32 m) @ take (32 - k) (drop k mem)) @ drop 32 mem"
proof -
  have "length (sha256_digest 32 x) = 32" for x
    by (simp add: sha256_digest_def new_digestSize)
  moreover have "drop k (take 32 mem) = take (32 - k) (drop k mem)"
    by (simp add: drop_take)
  ultimately show ?thesis
    using hmac256.finish_custom_eq [OF assms(1), of mem k] assms(2,3)
    by (simp add: put_at_def min_absorb1)
qed

theorem hmac_short_size_witness:
  "fst (hmac_finish_custom sha256_vt (replicate 40 7) (hmac_new sha256_vt (sha256_new 32)) 16) =
     sha256_digest 32 ([] @ take 16 (sha256_digest 32 []) @ take (32 - 16) (drop 16 (replicate 40 7)))
       @ drop 32 (replicate 40 7)"
  using hmac_short_size [of "[]" "hmac_new sha256_vt (sha256_new 32)" "replicate 40 7" 16]
  by (simp add: hmac_new_def sha256_holds_def sha256_new_holds)

text \<open>\<open>clear\<close> does not put the inner key back: the MAC of the next message, over SHA-256 with any key, is the
outer hash over the digest of the bare message, not HMAC.\<close>

theorem hmac_clear_drops_key:
  assumes "32 \<le> length mem"
  shows "fst (hmac_finish_custom sha256_vt mem
       (hmac_add sha256_vt (hmac_clear sha256_vt
          (hmac_setKey sha256_vt key (hmac_new sha256_vt (sha256_new 32)))) m) 32) =
     sha256_digest 32 (map (\<lambda>b. b XOR 0x5C) (rfc_key (sha256_digest 32) 64 key) @ sha256_digest 32 m)
       @ drop 32 mem"
proof -
  let ?k = "hmac_setKey sha256_vt key (hmac_new sha256_vt (sha256_new 32))"
  let ?s = "hmac_add sha256_vt (hmac_clear sha256_vt ?k) m"
  have e: "?k = (hmac_new sha256_vt (sha256_new 32))\<lparr>
      hm_hash := vt_add sha256_vt (sha256_new 32) (map (\<lambda>b. b XOR 0x36) (rfc_key (sha256_digest 32) 64 key)),
      hm_ikey := map (\<lambda>b. b XOR 0x36) (rfc_key (sha256_digest 32) 64 key),
      hm_okey := map (\<lambda>b. b XOR 0x5C) (rfc_key (sha256_digest 32) 64 key)\<rparr>"
    by (rule hmac256.setKey_eq [where m = "[]" and n = 32])
       (simp_all add: hmac_new_def hmac256.fresh_holds sha256_vt_def new_digestSize)
  have l: "length (sha256_digest 32 x) = 32" for x
    by (simp add: sha256_digest_def new_digestSize)
  have "sha256_holds 32 m (hm_hash ?s)"
    using hmac256.clear_eq [OF hmac256.add_holds [OF hmac256.fresh_holds [of 32]]]
      hmac256.add_holds [OF hmac256.fresh_holds [of 32], of m]
    by (simp add: e hmac_add_def hmac_clear_def)
  from hmac256.finish_custom_eq [OF this, of mem 32] show ?thesis
    using assms l by (simp add: put_at_def e hmac_add_def hmac_clear_def)
qed

theorem hmac_clear_drops_key_witness:
  "fst (hmac_finish_custom sha256_vt (replicate 32 0)
       (hmac_add sha256_vt (hmac_clear sha256_vt
          (hmac_setKey sha256_vt [1, 2] (hmac_new sha256_vt (sha256_new 32)))) [3]) 32) =
     sha256_digest 32 (map (\<lambda>b. b XOR 0x5C) (rfc_key (sha256_digest 32) 64 [1, 2]) @ sha256_digest 32 [3])
       @ drop 32 (replicate 32 0)"
  using hmac_clear_drops_key [of "replicate 32 0" "[1, 2]" "[3]"] by simp

end
