(* ===== verification/Blake2.thy ===== *)
theory Blake2
  imports BlockHash
begin

section \<open>BLAKE2\<close>

text \<open>
  Models \<open>source/core/crypto/src/impl/blake2b.cpp\<close> and \<open>blake2s.cpp\<close>, which differ in the
  word width, the rotations, the number of rounds and the sizes: one definition over a record of
  these (\<open>blake2_alg\<close>) and two instances. Unlike SHA-2, a full buffer is compressed only when
  more data comes, since the last block is compressed differently. The objects are proved to
  compute the hash of RFC 7693 for messages added in any pieces.
\<close>

subsection \<open>Constants and rounds\<close>

record (overloaded) 'w blake2_alg =
  ba_IV :: "'w word list"
  ba_rots :: "nat \<times> nat \<times> nat \<times> nat"
  ba_rows :: "nat list list"
  ba_block :: nat
  ba_full :: nat

definition b2_rows10 :: "nat list list" where
  "b2_rows10 =
     [[0, 1, 2, 3, 4, 5, 6, 7, 8, 9, 10, 11, 12, 13, 14, 15],
      [14, 10, 4, 8, 9, 15, 13, 6, 1, 12, 0, 2, 11, 7, 5, 3],
      [11, 8, 12, 0, 5, 2, 15, 13, 10, 14, 3, 6, 7, 1, 9, 4],
      [7, 9, 3, 1, 13, 12, 11, 14, 2, 6, 5, 10, 4, 0, 15, 8],
      [9, 0, 5, 7, 2, 4, 10, 15, 14, 1, 11, 12, 6, 8, 3, 13],
      [2, 12, 6, 10, 0, 11, 8, 3, 4, 13, 7, 5, 15, 14, 1, 9],
      [12, 5, 1, 15, 14, 13, 4, 10, 0, 7, 6, 3, 9, 2, 8, 11],
      [13, 11, 7, 14, 12, 1, 3, 9, 5, 0, 15, 4, 8, 6, 2, 10],
      [6, 15, 14, 9, 11, 3, 0, 8, 12, 2, 13, 7, 1, 4, 10, 5],
      [10, 2, 8, 4, 7, 6, 1, 5, 15, 11, 9, 14, 3, 12, 13, 0]]"

definition b2_rows12 :: "nat list list" where
  "b2_rows12 = b2_rows10 @
     [[0, 1, 2, 3, 4, 5, 6, 7, 8, 9, 10, 11, 12, 13, 14, 15],
      [14, 10, 4, 8, 9, 15, 13, 6, 1, 12, 0, 2, 11, 7, 5, 3]]"

definition blake2b_IV :: "u64 list" where
  "blake2b_IV = concat
     [[0x6a09e667f3bcc908, 0xbb67ae8584caa73b], [0x3c6ef372fe94f82b, 0xa54ff53a5f1d36f1],
      [0x510e527fade682d1, 0x9b05688c2b3e6c1f], [0x1f83d9abfb41bd6b, 0x5be0cd19137e2179]]"

definition blake2s_IV :: "u32 list" where
  "blake2s_IV = concat
     [[0x6a09e667, 0xbb67ae85], [0x3c6ef372, 0xa54ff53a],
      [0x510e527f, 0x9b05688c], [0x1f83d9ab, 0x5be0cd19]]"

definition blake2b_alg :: "64 blake2_alg" where
  "blake2b_alg = \<lparr>ba_IV = blake2b_IV, ba_rots = (32, 24, 16, 63), ba_rows = b2_rows12,
     ba_block = 128, ba_full = 64\<rparr>"

definition blake2s_alg :: "32 blake2_alg" where
  "blake2s_alg = \<lparr>ba_IV = blake2s_IV, ba_rots = (16, 12, 8, 7), ba_rows = b2_rows10,
     ba_block = 64, ba_full = 32\<rparr>"

definition rotr :: "nat \<Rightarrow> 'w::len word \<Rightarrow> 'w word" where
  "rotr n x = drop_bit n x OR push_bit (LENGTH('w) - n) x"

definition b2_G ::
  "'w::len blake2_alg \<Rightarrow> nat \<Rightarrow> nat \<Rightarrow> nat \<Rightarrow> nat \<Rightarrow> 'w word \<Rightarrow> 'w word \<Rightarrow> 'w word list \<Rightarrow> 'w word list" where
  "b2_G alg i j k l M0 M1 v =
     (case ba_rots alg of (r1, r2, r3, r4) \<Rightarrow>
        let a = v ! i; b = v ! j; c = v ! k; d = v ! l;
            a = a + b + M0; d = rotr r1 (d XOR a);
            c = c + d; b = rotr r2 (b XOR c);
            a = a + b + M1; d = rotr r3 (d XOR a);
            c = c + d; b = rotr r4 (b XOR c)
        in v[i := a, j := b, k := c, l := d])"

definition b2_ROUND :: "'w::len blake2_alg \<Rightarrow> nat list \<Rightarrow> 'w word list \<Rightarrow> 'w word list \<Rightarrow> 'w word list" where
  "b2_ROUND alg s M v =
     (let v = b2_G alg 0 4 8 12 (M ! (s ! 0)) (M ! (s ! 1)) v;
          v = b2_G alg 1 5 9 13 (M ! (s ! 2)) (M ! (s ! 3)) v;
          v = b2_G alg 2 6 10 14 (M ! (s ! 4)) (M ! (s ! 5)) v;
          v = b2_G alg 3 7 11 15 (M ! (s ! 6)) (M ! (s ! 7)) v;
          v = b2_G alg 0 5 10 15 (M ! (s ! 8)) (M ! (s ! 9)) v;
          v = b2_G alg 1 6 11 12 (M ! (s ! 10)) (M ! (s ! 11)) v;
          v = b2_G alg 2 7 8 13 (M ! (s ! 12)) (M ! (s ! 13)) v;
          v = b2_G alg 3 4 9 14 (M ! (s ! 14)) (M ! (s ! 15)) v
      in v)"

subsection \<open>The object and its operations\<close>

record (overloaded) 'w blake2 =
  b2_digestSize :: nat
  b2_buffer :: "byte list"
  b2_bufpos :: nat
  b2_H :: "'w word list"
  b2_T :: "'w word list"
  b2_F :: "'w word list"

definition b2_start :: "'w::len blake2_alg \<Rightarrow> nat \<Rightarrow> 'w word list" where
  "b2_start alg ds = (ba_IV alg)[0 := ba_IV alg ! 0 XOR (0x01010000 XOR ucast (of_nat ds :: byte))]"

definition b2_new :: "'w::len blake2_alg \<Rightarrow> nat \<Rightarrow> 'w blake2" where
  "b2_new alg digestSize =
     (let ds = (if digestSize < 1 then 1 else if digestSize > ba_full alg then ba_full alg else digestSize)
      in \<lparr>b2_digestSize = ds, b2_buffer = replicate (ba_block alg) 0, b2_bufpos = 0,
          b2_H = b2_start alg ds, b2_T = [0, 0], b2_F = [0, 0]\<rparr>)"

definition b2_count :: "nat \<Rightarrow> 'w::len word list \<Rightarrow> 'w word list" where
  "b2_count increment T =
     (let t0 = T ! 0 + of_nat increment
      in [t0, if unat t0 < increment then T ! 1 + 1 else T ! 1])"

definition b2_block ::
  "'w::len blake2_alg \<Rightarrow> byte list \<Rightarrow> 'w word list \<Rightarrow> 'w word list \<Rightarrow> 'w word list \<Rightarrow> 'w word list" where
  "b2_block alg input T F H =
     (let M = load_le (LENGTH('w) div 8) 16 input;
          v = take 8 H @ take 8 (ba_IV alg);
          v = v[12 := v ! 12 XOR T ! 0];
          v = v[13 := v ! 13 XOR T ! 1];
          v = v[14 := v ! 14 XOR F ! 0];
          v = v[15 := v ! 15 XOR F ! 1];
          v = fold (\<lambda>s v. b2_ROUND alg s M v) (ba_rows alg) v
      in map (\<lambda>i. H ! i XOR (v ! i XOR v ! (i + 8))) [0 ..< 8])"

fun b2_compress :: "'w::len blake2_alg \<Rightarrow> byte list \<Rightarrow> nat \<Rightarrow> nat \<Rightarrow> 'w blake2 \<Rightarrow> 'w blake2" where
  "b2_compress alg input 0 increment s = s"
| "b2_compress alg input (Suc n) increment s =
     (let T = b2_count increment (b2_T s)
      in b2_compress alg (drop (ba_block alg) input) n increment
           (s\<lparr>b2_T := T, b2_H := b2_block alg input T (b2_F s) (b2_H s)\<rparr>))"

definition b2_fill :: "'w::len blake2_alg \<Rightarrow> byte list \<Rightarrow> 'w blake2 \<Rightarrow> byte list \<times> 'w blake2" where
  "b2_fill alg d s =
     (if 0 < b2_bufpos s then
        let n = (if b2_bufpos s < ba_block alg then min (ba_block alg - b2_bufpos s) (length d) else 0);
            s1 = s\<lparr>b2_buffer := put_at (b2_bufpos s) (take n d) (b2_buffer s), b2_bufpos := b2_bufpos s + n\<rparr>
        in if b2_bufpos s1 = ba_block alg \<and> 0 < length d - n
           then (drop n d, b2_compress alg (b2_buffer s1) 1 (ba_block alg) s1\<lparr>b2_bufpos := 0\<rparr>)
           else (drop n d, s1)
      else (d, s))"

definition b2_bulk :: "'w::len blake2_alg \<Rightarrow> byte list \<Rightarrow> 'w blake2 \<Rightarrow> byte list \<times> 'w blake2" where
  "b2_bulk alg d s =
     (if ba_block alg < length d then
        let full_blocks = (length d - 1) div ba_block alg
        in (drop (full_blocks * ba_block alg) d, b2_compress alg d full_blocks (ba_block alg) s)
      else (d, s))"

definition b2_add :: "'w::len blake2_alg \<Rightarrow> 'w blake2 \<Rightarrow> byte list \<Rightarrow> 'w blake2" where
  "b2_add alg s d =
     (if d = [] then s
      else case b2_fill alg d s of (d1, s1) \<Rightarrow>
        case b2_bulk alg d1 s1 of (d2, s2) \<Rightarrow>
          if 0 < length d2
          then s2\<lparr>b2_buffer := put_at (b2_bufpos s2) d2 (b2_buffer s2), b2_bufpos := b2_bufpos s2 + length d2\<rparr>
          else s2)"

definition b2_clear :: "'w::len blake2_alg \<Rightarrow> 'w blake2 \<Rightarrow> 'w blake2" where
  "b2_clear alg s = s\<lparr>b2_buffer := replicate (ba_block alg) 0, b2_bufpos := 0,
     b2_H := b2_start alg (b2_digestSize s), b2_T := [0, 0], b2_F := [0, 0]\<rparr>"

definition b2_finish :: "'w::len blake2_alg \<Rightarrow> 'w blake2 \<Rightarrow> nat \<Rightarrow> byte list \<times> 'w blake2" where
  "b2_finish alg s custom =
     (let s1 = (if b2_bufpos s \<noteq> ba_block alg
                then s\<lparr>b2_buffer := put_at (b2_bufpos s) (replicate (ba_block alg - b2_bufpos s) 0) (b2_buffer s)\<rparr>
                else s);
          s2 = s1\<lparr>b2_F := (b2_F s1)[0 := - 1]\<rparr>;
          s3 = b2_compress alg (b2_buffer s2) 1 (b2_bufpos s2) s2
      in (take (min custom (b2_digestSize s3)) (store_le (LENGTH('w) div 8) (b2_H s3)), b2_clear alg s3))"

definition b2_barrier :: "'w::len blake2_alg \<Rightarrow> 'w blake2 \<Rightarrow> 'w blake2" where
  "b2_barrier alg s = b2_add alg s (fst (b2_finish alg (s\<lparr>b2_digestSize := ba_full alg\<rparr>) (ba_full alg)))"

subsection \<open>Reference: RFC 7693\<close>

text \<open>The compression function \<open>F\<close> on a block of bytes, with the offset counter \<open>t\<close> as a number.\<close>

definition rfc_F :: "'w::len blake2_alg \<Rightarrow> nat \<Rightarrow> 'w word list \<Rightarrow> byte list \<Rightarrow> nat \<Rightarrow> bool \<Rightarrow> 'w word list" where
  "rfc_F alg rounds h b t final =
     (let m = load_le (LENGTH('w) div 8) 16 b;
          v = h @ ba_IV alg;
          v = v[12 := v ! 12 XOR of_nat t, 13 := v ! 13 XOR of_nat (t div 2 ^ LENGTH('w))];
          v = (if final then v[14 := v ! 14 XOR - 1] else v);
          v = fold (\<lambda>i v. b2_ROUND alg (b2_rows10 ! (i mod 10)) m v) [0 ..< rounds] v
      in map (\<lambda>i. h ! i XOR (v ! i XOR v ! (i + 8))) [0 ..< 8])"

function rfc_blake :: "'w::len blake2_alg \<Rightarrow> nat \<Rightarrow> 'w word list \<Rightarrow> nat \<Rightarrow> byte list \<Rightarrow> 'w word list" where
  "rfc_blake alg rounds h t m =
     (if 0 < ba_block alg \<and> ba_block alg < length m
      then rfc_blake alg rounds (rfc_F alg rounds h (take (ba_block alg) m) (t + ba_block alg) False)
             (t + ba_block alg) (drop (ba_block alg) m)
      else rfc_F alg rounds h (m @ replicate (ba_block alg - length m) 0) (t + length m) True)"
  by pat_completeness auto
termination
  by (relation "measure (\<lambda>(alg, rounds, h, t, m). length m)") auto

declare rfc_blake.simps [simp del]

text \<open>The digest of \<open>nn\<close> bytes without a key.\<close>

definition rfc_blake2 :: "'w::len blake2_alg \<Rightarrow> nat \<Rightarrow> nat \<Rightarrow> byte list \<Rightarrow> byte list" where
  "rfc_blake2 alg rounds nn m =
     take nn (store_le (LENGTH('w) div 8)
       (rfc_blake alg rounds ((ba_IV alg)[0 := ba_IV alg ! 0 XOR 0x01010000 XOR of_nat nn]) 0 m))"

subsection \<open>The counter\<close>

definition t_words :: "nat \<Rightarrow> 'w::len word list" where
  "t_words t = [of_nat t, of_nat (t div 2 ^ LENGTH('w))]"

lemma carry_iff:
  fixes t n N :: nat
  assumes "n < N"
  shows "(t + n) mod N < n \<longleftrightarrow> N \<le> t mod N + n"
    and "(t + n) div N = t div N + (if (t + n) mod N < n then 1 else 0)"
proof -
  let ?r = "t mod N"
  have r: "?r < N" using assms by simp
  have m: "(t + n) mod N = (?r + n) mod N" by (simp add: mod_add_left_eq)
  have e: "t + n = (?r + n) + (t div N) * N" by simp
  have d: "(t + n) div N = t div N + (?r + n) div N"
    by (subst e, subst div_mult_self1) (use assms in simp_all)
  have k: "?r + n - N < N" "?r + n \<ge> N \<Longrightarrow> ?r + n - N < n" using r assms by linarith+
  then show c: "(t + n) mod N < n \<longleftrightarrow> N \<le> ?r + n"
    unfolding m using r assms by (cases "?r + n < N") (simp_all add: le_mod_geq)
  show "(t + n) div N = t div N + (if (t + n) mod N < n then 1 else 0)"
    unfolding c d using k(1) assms by (cases "?r + n < N") (simp_all add: le_div_geq)
qed

lemma b2_count_words:
  assumes "n < 2 ^ LENGTH('w)"
  shows "b2_count n (t_words t :: 'w::len word list) = t_words (t + n)"
proof -
  have u: "unat (of_nat t + of_nat n :: 'w word) = (t + n) mod 2 ^ LENGTH('w)"
    unfolding of_nat_add [symmetric] by (rule unat_of_nat)
  show ?thesis
    using carry_iff(2) [OF assms, of t] unfolding b2_count_def t_words_def Let_def nth_Cons_0 u by simp
qed

subsection \<open>Buffering\<close>

text \<open>A step over a block that is not the last, on the chaining value and the counter.\<close>

definition b2_step ::
  "'w::len blake2_alg \<Rightarrow> nat \<Rightarrow> 'w word list \<times> nat \<Rightarrow> byte list \<Rightarrow> 'w word list \<times> nat" where
  "b2_step alg rounds = (\<lambda>(h, t) b. (rfc_F alg rounds h b (t + ba_block alg) False, t + ba_block alg))"

text \<open>The object has compressed \<open>p\<close>, of whole blocks, and keeps \<open>e\<close> in its buffer.\<close>

definition b2_rep ::
  "'w::len blake2_alg \<Rightarrow> nat \<Rightarrow> nat \<Rightarrow> byte list \<Rightarrow> byte list \<Rightarrow> 'w blake2 \<Rightarrow> bool" where
  "b2_rep alg rounds ds p e s \<longleftrightarrow>
     ba_block alg dvd length p \<and> length e \<le> ba_block alg \<and> length (b2_buffer s) = ba_block alg \<and>
     b2_bufpos s = length e \<and> take (length e) (b2_buffer s) = e \<and>
     b2_digestSize s = ds \<and> b2_F s = [0, 0] \<and> length (b2_H s) = 8 \<and> b2_T s = t_words (length p) \<and>
     absorb (ba_block alg) (b2_step alg rounds) (b2_start alg ds, 0) p = (b2_H s, length p)"

text \<open>The object has taken in the message \<open>m\<close>.\<close>

definition b2_holds :: "'w::len blake2_alg \<Rightarrow> nat \<Rightarrow> nat \<Rightarrow> byte list \<Rightarrow> 'w blake2 \<Rightarrow> bool" where
  "b2_holds alg rounds ds m s \<longleftrightarrow> (\<exists>p e. b2_rep alg rounds ds p e s \<and> m = p @ e \<and> (e = [] \<longrightarrow> p = []))"

locale blake2_params =
  fixes alg :: "'w::len blake2_alg" and rounds :: nat
  assumes block: "0 < ba_block alg" "ba_block alg < 2 ^ LENGTH('w)" "ba_block alg = LENGTH('w) div 8 * 16"
    and IV: "length (ba_IV alg) = 8"
    and rows: "ba_rows alg = map (\<lambda>i. b2_rows10 ! (i mod 10)) [0 ..< rounds]"
    and full: "0 < ba_full alg" "ba_full alg < 256"
begin

abbreviation "B \<equiv> ba_block alg"
abbreviation "h0 \<equiv> b2_start alg"
abbreviation "step \<equiv> b2_step alg rounds"
abbreviation "rep \<equiv> b2_rep alg rounds"
abbreviation "holds \<equiv> b2_holds alg rounds"

lemma block_F:
  assumes "length H = 8" "length F = 2" "F ! 1 = 0" "F ! 0 = (if final then - 1 else 0)"
  shows "b2_block alg d (t_words t) F H = rfc_F alg rounds H (take B d) t final"
proof -
  have M: "(load_le (LENGTH('w) div 8) 16 (take B d) :: 'w word list) = load_le (LENGTH('w) div 8) 16 d"
  proof (rule nth_equalityI)
    fix i assume "i < length (load_le (LENGTH('w) div 8) 16 (take B d) :: 'w word list)"
    then have "LENGTH('w) div 8 * i + LENGTH('w) div 8 \<le> B"
      unfolding block(3) by (simp flip: mult_Suc_right)
    then show "(load_le (LENGTH('w) div 8) 16 (take B d) :: 'w word list) ! i = load_le (LENGTH('w) div 8) 16 d ! i"
      using \<open>i < _\<close> by (simp add: nth_load_le drop_take min_absorb1)
  qed simp
  have f: "fold (\<lambda>s. b2_ROUND alg s X) (ba_rows alg) v
      = fold (\<lambda>i. b2_ROUND alg (b2_rows10 ! (i mod 10)) X) [0 ..< rounds] v" for X v
    unfolding rows by (simp add: fold_map comp_def)
  show ?thesis
    unfolding b2_block_def rfc_F_def M f
    using assms IV by (cases final) (simp_all add: t_words_def Let_def)
qed

lemma length_rfc_F [simp]: "length (rfc_F alg rounds h b t f) = 8"
  by (simp add: rfc_F_def Let_def)

lemma compress_blocks:
  assumes "b2_F s = [0, 0]" "length (b2_H s) = 8" "b2_T s = t_words t" "n * B \<le> length d"
  shows "\<exists>H. length H = 8 \<and> absorb B step (b2_H s, t) (take (n * B) d) = (H, t + n * B) \<and>
    b2_compress alg d n B s = s\<lparr>b2_T := t_words (t + n * B), b2_H := H\<rparr>"
  using assms
proof (induction n arbitrary: d s t)
  case 0
  then show ?case using block(1) by (intro exI [of _ "b2_H s"]) simp
next
  case (Suc n)
  let ?H = "rfc_F alg rounds (b2_H s) (take B d) (t + B) False"
  let ?s = "s\<lparr>b2_T := t_words (t + B), b2_H := ?H\<rparr>"
  have c: "b2_count B (b2_T s) = t_words (t + B)"
    unfolding Suc.prems(3) by (rule b2_count_words [OF block(2)])
  have b: "b2_block alg d (t_words (t + B)) (b2_F s) (b2_H s) = ?H"
    using Suc.prems(1,2) by (intro block_F) simp_all
  have l: "n * B \<le> length (drop B d)" using Suc.prems(4) by simp
  from Suc.IH [OF _ _ _ this, of ?s "t + B"] Suc.prems(1)
  obtain H where H: "length H = 8" "absorb B step (?H, t + B) (take (n * B) (drop B d)) = (H, t + B + n * B)"
    "b2_compress alg (drop B d) n B ?s = ?s\<lparr>b2_T := t_words (t + B + n * B), b2_H := H\<rparr>"
    by auto
  have t: "take (Suc n * B) d = take B d @ take (n * B) (drop B d)"
    using take_add [of B "n * B" d] by simp
  have "absorb B step (b2_H s, t) (take (Suc n * B) d) = (H, t + B + n * B)"
    using Suc.prems(4) block(1) H(2) unfolding t
    by (subst absorb_step) (simp_all add: b2_step_def)
  then show ?case
    using H by (intro exI [of _ H]) (simp add: c b add.assoc Let_def)
qed

lemma compress_one:
  assumes "b2_F s = [0, 0]" "length (b2_H s) = 8" "b2_T s = t_words t" "length b = B"
  shows "\<exists>H. length H = 8 \<and> absorb B step (b2_H s, t) b = (H, t + B) \<and>
    b2_compress alg b 1 B s = s\<lparr>b2_T := t_words (t + B), b2_H := H\<rparr>"
  using compress_blocks [OF assms(1-3), of 1 b] assms(4) by (simp del: b2_compress.simps)

lemma rep_compress:
  assumes "rep ds p [] s" "n * B \<le> length d"
  shows "rep ds (p @ take (n * B) d) [] (b2_compress alg d n B s)"
proof -
  have r: "b2_F s = [0, 0]" "length (b2_H s) = 8" "b2_T s = t_words (length p)" "B dvd length p"
    "absorb B step (h0 ds, 0) p = (b2_H s, length p)"
    using assms(1) by (simp_all add: b2_rep_def)
  from compress_blocks [OF r(1-3) assms(2)] obtain H where
    H: "length H = 8" "absorb B step (b2_H s, length p) (take (n * B) d) = (H, length p + n * B)"
    "b2_compress alg d n B s = s\<lparr>b2_T := t_words (length p + n * B), b2_H := H\<rparr>"
    by blast
  show ?thesis
    using assms r H absorb_append [OF r(4) block(1), of step "(h0 ds, 0)" "take (n * B) d"]
    by (simp add: b2_rep_def min_absorb2)
qed

lemma fill_rep:
  assumes "rep ds p e s" "d \<noteq> []" "e = [] \<Longrightarrow> p = []" "b2_fill alg d s = (d1, s1)"
  shows "\<exists>p1 e1. rep ds p1 e1 s1 \<and> p1 @ e1 @ d1 = p @ e @ d \<and> (d1 = [] \<longleftrightarrow> e1 \<noteq> [])"
proof (cases "e = []")
  case True
  then have "b2_bufpos s = 0" using assms(1) by (simp add: b2_rep_def)
  then have "d1 = d" "s1 = s" using assms(4) by (simp_all add: b2_fill_def)
  then show ?thesis using assms True by (intro exI [of _ p] exI [of _ e]) simp
next
  case False
  have r: "B dvd length p" "length e \<le> B" "length (b2_buffer s) = B" "b2_bufpos s = length e"
    "take (length e) (b2_buffer s) = e" "b2_F s = [0, 0]" "length (b2_H s) = 8" "b2_T s = t_words (length p)"
    "absorb B step (h0 ds, 0) p = (b2_H s, length p)" "b2_digestSize s = ds"
    using assms(1) by (simp_all add: b2_rep_def)
  define n where "n = (if length e < B then min (B - length e) (length d) else 0)"
  have n: "n \<le> length d" "length e + n \<le> B" "length (take n d) = n" using r(2) by (auto simp: n_def)
  define s' where "s' = s\<lparr>b2_buffer := put_at (length e) (take n d) (b2_buffer s), b2_bufpos := length e + n\<rparr>"
  have f: "b2_fill alg d s = (if length e + n = B \<and> 0 < length d - n
      then (drop n d, b2_compress alg (b2_buffer s') 1 B s'\<lparr>b2_bufpos := 0\<rparr>) else (drop n d, s'))"
    unfolding b2_fill_def r(4) n_def [symmetric] Let_def s'_def [symmetric]
    using False by (simp add: s'_def)
  have s': "rep ds p (e @ take n d) s'"
    using r n take_put_at_end [of "length e" "b2_buffer s" "take n d"] by (simp add: b2_rep_def s'_def)
  show ?thesis
  proof (cases "length e + n = B \<and> 0 < length d - n")
    case True
    then have b: "b2_buffer s' = e @ take n d" "length (e @ take n d) = B"
      using r(3,5) n by (simp_all add: s'_def put_at_to_end)
    have s3: "b2_F s' = [0, 0]" "length (b2_H s') = 8" "b2_T s' = t_words (length p)"
      using r(6-8) by (simp_all add: s'_def)
    from compress_one [OF s3 b(2)]
    obtain H where H: "length H = 8" "absorb B step (b2_H s', length p) (e @ take n d) = (H, length p + B)"
      "b2_compress alg (e @ take n d) 1 B s' = s'\<lparr>b2_T := t_words (length p + B), b2_H := H\<rparr>"
      by blast
    have "absorb B step (h0 ds, 0) (p @ e @ take n d) = (H, length p + B)"
      using absorb_append [OF r(1) block(1), of step "(h0 ds, 0)" "e @ take n d"] H(2) r(9) by (simp add: s'_def)
    moreover have "s1 = s'\<lparr>b2_T := t_words (length p + B), b2_H := H\<rparr>\<lparr>b2_bufpos := 0\<rparr>" "d1 = drop n d"
      using assms(4) True H(3) b(1) unfolding f by auto
    moreover have "length (b2_buffer s') = B" "b2_F s' = [0, 0]" "b2_digestSize s' = ds"
      using s' by (simp_all add: b2_rep_def)
    ultimately have "rep ds (p @ e @ take n d) [] s1"
      using b(2) H(1) r(1) by (simp add: b2_rep_def)
    then show ?thesis
      using True \<open>d1 = _\<close> by (intro exI [of _ "p @ e @ take n d"] exI [of _ "[]"]) simp
  next
    case no: False
    then have "s1 = s'" "d1 = drop n d" using assms(4) unfolding f by auto
    moreover have "drop n d = []"
      using no n(2) r(2) assms(2) by (auto simp: n_def min_def split: if_splits)
    ultimately show ?thesis
      using s' False by (intro exI [of _ p] exI [of _ "e @ take n d"]) (simp add: take_all_iff [symmetric] del: take_all_iff)
  qed
qed

lemma bulk_rep:
  assumes "rep ds p [] s" "d \<noteq> []" "b2_bulk alg d s = (d1, s1)"
  shows "\<exists>p1. rep ds p1 [] s1 \<and> p1 @ d1 = p @ d \<and> d1 \<noteq> [] \<and> length d1 \<le> B"
proof (cases "B < length d")
  case False
  then show ?thesis using assms by (intro exI [of _ p]) (simp add: b2_bulk_def)
next
  case True
  let ?n = "(length d - 1) div B"
  have e: "length d - 1 = ?n * B + (length d - 1) mod B" "(length d - 1) mod B < B"
    using block(1) by simp_all
  then have n: "?n * B < length d" "length d \<le> ?n * B + B" using True by linarith+
  have "d1 = drop (?n * B) d" "s1 = b2_compress alg d ?n B s"
    using assms(3) True by (simp_all add: b2_bulk_def Let_def)
  then show ?thesis
    using rep_compress [OF assms(1), of ?n d] n by (intro exI [of _ "p @ take (?n * B) d"]) simp
qed

lemma b2_add_holds:
  assumes "holds ds m s"
  shows "holds ds (m @ d) (b2_add alg s d)"
proof (cases "d = []")
  case True
  then show ?thesis using assms by (simp add: b2_add_def)
next
  case False
  from assms obtain p e where pe: "rep ds p e s" "m = p @ e" "e = [] \<Longrightarrow> p = []"
    unfolding b2_holds_def by blast
  obtain d1 s1 where f: "b2_fill alg d s = (d1, s1)" by fastforce
  obtain d2 s2 where b: "b2_bulk alg d1 s1 = (d2, s2)" by fastforce
  from fill_rep [OF pe(1) False pe(3) f] obtain p1 e1 where
    1: "rep ds p1 e1 s1" "p1 @ e1 @ d1 = p @ e @ d" "d1 = [] \<longleftrightarrow> e1 \<noteq> []" by blast
  show ?thesis
  proof (cases "d1 = []")
    case True
    then have "b2_add alg s d = s1" using False f by (simp add: b2_add_def b2_bulk_def)
    then show ?thesis using 1 True pe(2) unfolding b2_holds_def by (intro exI [of _ p1] exI [of _ e1]) simp
  next
    case ne: False
    then have "rep ds p1 [] s1" using 1 by simp
    from bulk_rep [OF this ne b] obtain p2 where
      2: "rep ds p2 [] s2" "p2 @ d2 = p1 @ d1" "d2 \<noteq> []" "length d2 \<le> B" by blast
    let ?s = "s2\<lparr>b2_buffer := put_at 0 d2 (b2_buffer s2), b2_bufpos := length d2\<rparr>"
    have "b2_bufpos s2 = 0" using 2(1) by (simp add: b2_rep_def)
    then have "b2_add alg s d = ?s" using False f b 2(3) by (simp add: b2_add_def)
    moreover have "rep ds p2 d2 ?s"
      using 2(1,4) take_put_at_end [of 0 "b2_buffer s2" d2] by (simp add: b2_rep_def)
    ultimately show ?thesis
      using 2 1(2,3) ne pe(2) unfolding b2_holds_def by (intro exI [of _ p2] exI [of _ d2]) simp
  qed
qed

lemma b2_pieces: "holds ds m s \<Longrightarrow> holds ds (m @ concat ps) (fold (\<lambda>d s. b2_add alg s d) ps s)"
proof (induction ps arbitrary: m s)
  case (Cons d ps)
  from Cons.IH [OF b2_add_holds [OF Cons.prems, of d]] show ?case by simp
qed simp

lemma length_start: "length (h0 ds) = 8"
  by (simp add: b2_start_def IV)

lemma b2_new_holds: "1 \<le> ds \<Longrightarrow> ds \<le> ba_full alg \<Longrightarrow> holds ds [] (b2_new alg ds)"
  using length_start block(1) unfolding b2_holds_def
  by (intro exI [of _ "[]"]) (simp add: b2_rep_def b2_new_def t_words_def Let_def)

lemma b2_clear_holds: "holds (b2_digestSize s) [] (b2_clear alg s)"
  using length_start block(1) unfolding b2_holds_def
  by (intro exI [of _ "[]"]) (simp add: b2_rep_def b2_clear_def t_words_def)

subsection \<open>The digest\<close>

lemma rfc_blake_absorb:
  "B dvd length p \<Longrightarrow> length e \<le> B \<Longrightarrow> (e = [] \<Longrightarrow> p = []) \<Longrightarrow> absorb B step (h, t) p = (h', t') \<Longrightarrow>
     rfc_blake alg rounds h t (p @ e) = rfc_F alg rounds h' (e @ replicate (B - length e) 0) (t' + length e) True"
proof (induction "length p" arbitrary: p h t rule: less_induct)
  case less
  show ?case
  proof (cases "p = []")
    case True
    then show ?thesis using less.prems block(1) by (subst rfc_blake.simps) simp
  next
    case False
    then have l: "B \<le> length p" "e \<noteq> []" using less.prems(1,3) by (auto dest: dvd_imp_le)
    then have "absorb B step (rfc_F alg rounds h (take B p) (t + B) False, t + B) (drop B p) = (h', t')"
      using less.prems(4) block(1) by (simp add: absorb_step b2_step_def)
    moreover have "B dvd length (drop B p)" "length (drop B p) < length p"
      using less.prems(1) l block(1) by (simp_all add: dvd_diff_nat)
    ultimately have "rfc_blake alg rounds (rfc_F alg rounds h (take B p) (t + B) False) (t + B) (drop B p @ e)
        = rfc_F alg rounds h' (e @ replicate (B - length e) 0) (t' + length e) True"
      using less.hyps less.prems(2) l(2) by blast
    then show ?thesis using l block(1) by (subst rfc_blake.simps) (auto simp: neq_Nil_conv)
  qed
qed

lemma start_rfc:
  assumes "ds < 256"
  shows "h0 ds = (ba_IV alg)[0 := ba_IV alg ! 0 XOR 0x01010000 XOR of_nat ds]"
proof -
  have "(ucast (of_nat ds :: byte) :: 'w word) = of_nat (unat (of_nat ds :: byte))" by simp
  also have "unat (of_nat ds :: byte) = ds" using assms by (simp add: unat_of_nat)
  finally show ?thesis by (simp add: b2_start_def xor.assoc)
qed

lemma b2_finish_digest:
  assumes "holds ds m s" "ds \<le> ba_full alg"
  shows "fst (b2_finish alg s custom) = take custom (rfc_blake2 alg rounds ds m)"
    and "holds ds [] (snd (b2_finish alg s custom))"
proof -
  from assms obtain p e where r: "rep ds p e s" "m = p @ e" "e = [] \<Longrightarrow> p = []"
    unfolding b2_holds_def by blast
  define b where "b = e @ replicate (B - length e) 0"
  define s1 where "s1 = (if b2_bufpos s \<noteq> B
    then s\<lparr>b2_buffer := put_at (b2_bufpos s) (replicate (B - b2_bufpos s) 0) (b2_buffer s)\<rparr> else s)"
  have h: "length e \<le> B" "length (b2_buffer s) = B" "b2_bufpos s = length e" "take (length e) (b2_buffer s) = e"
    "b2_digestSize s = ds" "b2_F s = [0, 0]" "length (b2_H s) = 8" "b2_T s = t_words (length p)" "B dvd length p"
    "absorb B step (h0 ds, 0) p = (b2_H s, length p)"
    using r(1) by (simp_all add: b2_rep_def)
  have s1: "b2_buffer s1 = b" "b2_bufpos s1 = length e" "b2_F s1 = [0, 0]" "b2_H s1 = b2_H s"
    "b2_T s1 = t_words (length p)" "b2_digestSize s1 = ds"
    using h by (auto simp: s1_def b_def put_at_to_end)
  define H where "H = rfc_F alg rounds (b2_H s) b (length p + length e) True"
  have "length b = B" using h(1) by (simp add: b_def)
  then have f: "b2_block alg b (t_words (length p + length e)) [- 1, 0] (b2_H s) = H"
    using block_F [OF h(7), of "[- 1, 0]" True b] by (simp add: H_def)
  have "b2_count (length e) (t_words (length p) :: 'w word list) = t_words (length p + length e)"
    using h(1) block(2) by (intro b2_count_words) simp
  then have c: "b2_compress alg b 1 (length e) (s1\<lparr>b2_F := [- 1, 0]\<rparr>) =
      s1\<lparr>b2_F := [- 1, 0], b2_T := t_words (length p + length e), b2_H := H\<rparr>"
    using f by (simp add: s1)
  have e: "b2_finish alg s custom = (take (min custom ds) (store_le (LENGTH('w) div 8) H),
      b2_clear alg (s1\<lparr>b2_F := [- 1, 0], b2_T := t_words (length p + length e), b2_H := H\<rparr>))"
    unfolding b2_finish_def s1_def [symmetric] Let_def using c by (simp add: s1)
  have "rfc_blake alg rounds (h0 ds) 0 m = H"
    using rfc_blake_absorb [OF h(9,1) r(3) h(10)] by (simp add: r(2) H_def b_def)
  then show "fst (b2_finish alg s custom) = take custom (rfc_blake2 alg rounds ds m)"
    using start_rfc [of ds] assms(2) full(2) by (simp add: e rfc_blake2_def)
  show "holds ds [] (snd (b2_finish alg s custom))"
    using b2_clear_holds [of "s1\<lparr>b2_F := [- 1, 0], b2_T := t_words (length p + length e), b2_H := H\<rparr>"]
    by (simp add: e s1)
qed

lemma b2_barrier_holds:
  assumes "holds ds m s" "ds \<le> ba_full alg"
  shows "\<exists>digest. holds ds (m @ digest) (b2_barrier alg s)"
  using b2_add_holds [OF assms(1)] unfolding b2_barrier_def by blast

end

subsection \<open>The two hashes\<close>

definition blake2b_new :: "nat \<Rightarrow> 64 blake2" where
  "blake2b_new digestSize = b2_new blake2b_alg digestSize"

definition blake2b_add :: "64 blake2 \<Rightarrow> byte list \<Rightarrow> 64 blake2" where
  "blake2b_add s d = b2_add blake2b_alg s d"

definition blake2b_finish :: "64 blake2 \<Rightarrow> nat \<Rightarrow> byte list \<times> 64 blake2" where
  "blake2b_finish s custom = b2_finish blake2b_alg s custom"

definition blake2b_barrier :: "64 blake2 \<Rightarrow> 64 blake2" where
  "blake2b_barrier s = b2_barrier blake2b_alg s"

definition blake2b_clear :: "64 blake2 \<Rightarrow> 64 blake2" where
  "blake2b_clear s = b2_clear blake2b_alg s"

definition blake2s_compress :: "byte list \<Rightarrow> nat \<Rightarrow> nat \<Rightarrow> 32 blake2 \<Rightarrow> 32 blake2" where
  "blake2s_compress input blocks increment s = b2_compress blake2s_alg input blocks increment s"

definition blake2s_new :: "nat \<Rightarrow> 32 blake2" where
  "blake2s_new digestSize = b2_new blake2s_alg digestSize"

definition blake2s_add :: "32 blake2 \<Rightarrow> byte list \<Rightarrow> 32 blake2" where
  "blake2s_add s d = b2_add blake2s_alg s d"

definition blake2s_finish :: "32 blake2 \<Rightarrow> nat \<Rightarrow> byte list \<times> 32 blake2" where
  "blake2s_finish s custom = b2_finish blake2s_alg s custom"

definition blake2s_barrier :: "32 blake2 \<Rightarrow> 32 blake2" where
  "blake2s_barrier s = b2_barrier blake2s_alg s"

definition blake2s_clear :: "32 blake2 \<Rightarrow> 32 blake2" where
  "blake2s_clear s = b2_clear blake2s_alg s"

interpretation b2b: blake2_params blake2b_alg 12
  by unfold_locales (simp_all add: blake2b_alg_def blake2b_IV_def b2_rows12_def b2_rows10_def upt_rec)

interpretation b2s: blake2_params blake2s_alg 10
  by unfold_locales (simp_all add: blake2s_alg_def blake2s_IV_def b2_rows10_def upt_rec)

lemma full_sizes [simp]: "ba_full blake2b_alg = 64" "ba_full blake2s_alg = 32"
  by (simp_all add: blake2b_alg_def blake2s_alg_def)

lemma blake2b_holds:
  assumes "1 \<le> nn" "nn \<le> 64"
  shows "b2_holds blake2b_alg 12 nn (concat pieces) (fold (\<lambda>d s. blake2b_add s d) pieces (blake2b_new nn))"
  using b2b.b2_pieces [OF b2b.b2_new_holds [of nn], of pieces] assms
  by (simp add: blake2b_add_def blake2b_new_def)

lemma blake2s_holds:
  assumes "1 \<le> nn" "nn \<le> 32"
  shows "b2_holds blake2s_alg 10 nn (concat pieces) (fold (\<lambda>d s. blake2s_add s d) pieces (blake2s_new nn))"
  using b2s.b2_pieces [OF b2s.b2_new_holds [of nn], of pieces] assms
  by (simp add: blake2s_add_def blake2s_new_def)

text \<open>C15. BLAKE2b is that of RFC 7693: an object made for digests of \<open>nn\<close> bytes, given a message in any pieces, has
the unkeyed \<open>nn\<close>-byte digest of the whole message, of which \<open>finish\<close> writes the requested part.\<close>

theorem blake2b_correct:
  assumes "1 \<le> nn" "nn \<le> 64"
  shows "fst (blake2b_finish (fold (\<lambda>d s. blake2b_add s d) pieces (blake2b_new nn)) custom) =
     take custom (rfc_blake2 blake2b_alg 12 nn (concat pieces))"
  using b2b.b2_finish_digest(1) [OF blake2b_holds [OF assms]] assms(2) by (simp add: blake2b_finish_def)

theorem blake2b_correct_witness:
  "fst (blake2b_finish (fold (\<lambda>d s. blake2b_add s d) [[1], [], [2, 3]] (blake2b_new 20)) 64) =
     take 64 (rfc_blake2 blake2b_alg 12 20 [1, 2, 3])"
  using blake2b_correct [of 20 "[[1], [], [2, 3]]" 64] by simp

text \<open>BLAKE2s is that of RFC 7693, in the same way, for digests of up to 32 bytes and ten rounds.\<close>

theorem blake2s_correct:
  assumes "1 \<le> nn" "nn \<le> 32"
  shows "fst (blake2s_finish (fold (\<lambda>d s. blake2s_add s d) pieces (blake2s_new nn)) custom) =
     take custom (rfc_blake2 blake2s_alg 10 nn (concat pieces))"
  using b2s.b2_finish_digest(1) [OF blake2s_holds [OF assms]] assms(2) by (simp add: blake2s_finish_def)

theorem blake2s_correct_witness:
  "fst (blake2s_finish (fold (\<lambda>d s. blake2s_add s d) [[1], [], [2, 3]] (blake2s_new 20)) 64) =
     take 64 (rfc_blake2 blake2s_alg 10 20 [1, 2, 3])"
  using blake2s_correct [of 20 "[[1], [], [2, 3]]" 64] by simp

end
