(* ===== verification/WideWord.thy ===== *)
theory WideWord
  imports Prelude
begin

section \<open>Products of 64-bit words\<close>

text \<open>
  The 128-bit arithmetic that \<open>poly1305.cpp\<close> and \<open>curve25519.cpp\<close> do with the compiler's
  128-bit integers: the product of two 64-bit words, and the values of sums, products, shifts and
  conversions that stay within their widths.
\<close>

text \<open>A product of two 64-bit words in 128 bits.\<close>

definition mul128 :: "u64 \<Rightarrow> u64 \<Rightarrow> 128 word" where
  "mul128 a b = ucast a * ucast b"

lemma unat_drop: "unat (drop_bit n w) = unat w div 2 ^ n"
  by (simp add: unat_drop_bit_eq drop_bit_eq_div [where 'a = nat])

lemma add64: "unat a + unat b < 2 ^ 64 \<Longrightarrow> unat (a + b :: u64) = unat a + unat b"
  using unat_add_lem [of a b] by simp

lemma mul64: "unat a * unat b < 2 ^ 64 \<Longrightarrow> unat (a * b :: u64) = unat a * unat b"
  using unat_mult_lem [of a b] by simp

lemma add128: "unat a + unat b < 2 ^ 128 \<Longrightarrow> unat (a + b :: 128 word) = unat a + unat b"
  using unat_add_lem [of a b] by simp

lemma up128: "unat (ucast (w :: u64) :: 128 word) = unat w"
proof -
  have "unat w < 2 ^ 128"
    using unsigned_less [of w, where 'a = nat] by simp
  then show ?thesis by (simp only: unsigned_ucast_eq) (simp add: take_bit_nat_eq_self)
qed

lemma down64: "unat (ucast (w :: 128 word) :: u64) = unat w mod 2 ^ 64"
  by (simp only: unsigned_ucast_eq) (simp add: take_bit_eq_mod)

lemma mul128_unat: "unat (mul128 a b) = unat a * unat b"
proof -
  have "unat a < 2 ^ 64" "unat b < 2 ^ 64"
    using unsigned_less [of a, where 'a = nat] unsigned_less [of b, where 'a = nat] by simp_all
  then have "unat a * unat b < 2 ^ 64 * 2 ^ 64" by (rule mult_strict_mono') simp_all
  then have "unat (ucast a :: 128 word) * unat (ucast b :: 128 word) < 2 ^ LENGTH(128)"
    by (simp add: up128)
  then show ?thesis unfolding mul128_def by (simp only: unat_mult_lem [THEN iffD1] up128)
qed

end
