(* ===== verification/Poly1305.thy ===== *)
theory Poly1305
  imports BlockHash WideWord
begin

section \<open>The Poly1305 authenticator\<close>

text \<open>
  Models \<open>source/core/crypto/src/impl/poly1305.cpp\<close>: arithmetic modulo 2^130 - 5 on
  three limbs of 44, 44 and 42 bits in 64-bit words with 128-bit products. The limb arithmetic is
  proved free of overflow and equal to the polynomial evaluation of RFC 8439; the final reduction
  and the addition of the pad to yield its tag.
\<close>

subsection \<open>The object\<close>

text \<open>\<open>_poly\<close> holds r in 0..2, the accumulator h in 3..5 and the pad in 6..7.\<close>

record poly1305 =
  pl_poly :: "u64 list"
  pl_buf :: "byte list"
  pl_bufPos :: nat

definition poly_new :: poly1305 where
  "poly_new = \<lparr>pl_poly = replicate 8 0, pl_buf = replicate 16 0, pl_bufPos = 0\<rparr>"

definition M44 :: u64 where
  "M44 = 0xFFFFFFFFFFF"

definition M42 :: u64 where
  "M42 = 0x3FFFFFFFFFF"

definition poly_setKey :: "byte list \<Rightarrow> poly1305 \<Rightarrow> poly1305" where
  "poly_setKey key pl =
     (let key8 = load_le 8 4 (take 32 key @ replicate (32 - length key) 0);
          t0 = key8 ! 0; t1 = key8 ! 1
      in pl\<lparr>pl_bufPos := 0,
            pl_poly := [t0 AND 0xffc0fffffff,
                        (drop_bit 44 t0 OR push_bit 20 t1) AND 0xfffffc0ffff,
                        drop_bit 24 t1 AND 0x00ffffffc0f,
                        0, 0, 0, key8 ! 2, key8 ! 3]\<rparr>)"

subsection \<open>Blocks\<close>

text \<open>The three limbs of two 64-bit words.\<close>

definition limb0 :: "u64 \<Rightarrow> u64" where
  "limb0 t0 = t0 AND M44"

definition limb1 :: "u64 \<Rightarrow> u64 \<Rightarrow> u64" where
  "limb1 t0 t1 = (drop_bit 44 t0 OR push_bit 20 t1) AND M44"

definition limb2 :: "u64 \<Rightarrow> u64" where
  "limb2 t1 = drop_bit 24 t1 AND M42"

definition poly_mul :: "u64 \<times> u64 \<times> u64 \<Rightarrow> u64 \<times> u64 \<times> u64 \<Rightarrow> u64 \<times> u64 \<times> u64" where
  "poly_mul = (\<lambda>(r0, r1, r2) (h0, h1, h2).
     (let s1 = r1 * 20;
          s2 = r2 * 20;
          d0 = mul128 h0 r0 + mul128 h1 s2 + mul128 h2 s1;
          c0 = ucast (drop_bit 44 d0) :: u64;
          d1 = mul128 h0 r1 + mul128 h1 r0 + mul128 h2 s2 + ucast c0;
          c1 = ucast (drop_bit 44 d1) :: u64;
          d2 = mul128 h0 r2 + mul128 h1 r1 + mul128 h2 r0 + ucast c1;
          c2 = ucast (drop_bit 42 d2) :: u64;
          h0 = ucast d0 AND M44;
          h1 = ucast d1 AND M44;
          h2 = ucast d2 AND M42;
          h0 = h0 + c2 * 5;
          h1 = h1 + ucast (drop_bit 44 (ucast h0 :: 128 word));
          h0 = h0 AND M44
      in (h0, h1, h2)))"

definition poly_block :: "u64 \<times> u64 \<times> u64 \<Rightarrow> u64 \<Rightarrow> byte list \<Rightarrow> u64 \<times> u64 \<times> u64 \<Rightarrow> u64 \<times> u64 \<times> u64" where
  "poly_block r hibit m = (\<lambda>(h0, h1, h2).
     (let t0 = le_word (take 8 m); t1 = le_word (take 8 (drop 8 m))
      in poly_mul r (h0 + limb0 t0, h1 + limb1 t0 t1, h2 + (limb2 t1 OR hibit))))"

text \<open>The loop of \<open>blocks\<close>.\<close>

fun poly_loop :: "u64 \<times> u64 \<times> u64 \<Rightarrow> u64 \<Rightarrow> nat \<Rightarrow> byte list \<Rightarrow> u64 \<times> u64 \<times> u64 \<Rightarrow> u64 \<times> u64 \<times> u64" where
  "poly_loop r hibit 0 m h = h"
| "poly_loop r hibit (Suc n) m h = poly_loop r hibit n (drop 16 m) (poly_block r hibit m h)"

definition poly_blocks :: "byte list \<Rightarrow> nat \<Rightarrow> bool \<Rightarrow> poly1305 \<Rightarrow> poly1305" where
  "poly_blocks m blocks is_final pl =
     (let hibit = (if is_final then 0 else push_bit 40 1); p = pl_poly pl in
      case poly_loop (p ! 0, p ! 1, p ! 2) hibit blocks m (p ! 3, p ! 4, p ! 5) of (h0, h1, h2) \<Rightarrow>
        pl\<lparr>pl_poly := p[3 := h0, 4 := h1, 5 := h2]\<rparr>)"

subsection \<open>Adding and finishing\<close>

definition poly_rest :: "byte list \<Rightarrow> poly1305 \<Rightarrow> poly1305" where
  "poly_rest input pl =
     (let fullBlocks = length input div 16;
          remaining = length input mod 16;
          pl1 = (if fullBlocks \<noteq> 0 then poly_blocks input fullBlocks False pl else pl)
      in pl1\<lparr>pl_buf := put_at (pl_bufPos pl1) (take remaining (drop (fullBlocks * 16) input)) (pl_buf pl1),
             pl_bufPos := pl_bufPos pl1 + remaining\<rparr>)"

definition poly_add :: "poly1305 \<Rightarrow> byte list \<Rightarrow> poly1305" where
  "poly_add pl input =
     (if pl_bufPos pl \<noteq> 0 then
        let toCopy = min (16 - pl_bufPos pl) (length input);
            pl1 = pl\<lparr>pl_buf := put_at (pl_bufPos pl) (take toCopy input) (pl_buf pl),
                     pl_bufPos := pl_bufPos pl + toCopy\<rparr>;
            pl2 = (if 16 \<le> pl_bufPos pl1 then poly_blocks (pl_buf pl1) 1 False pl1\<lparr>pl_bufPos := 0\<rparr> else pl1)
        in poly_rest (drop toCopy input) pl2
      else poly_rest input pl)"

text \<open>The full carry of h, the choice between h and h - p, and the addition of the pad.\<close>

definition poly_carry :: "u64 \<times> u64 \<times> u64 \<Rightarrow> u64 \<times> u64 \<times> u64" where
  "poly_carry = (\<lambda>(h0, h1, h2).
     (let c = drop_bit 44 h1; h1 = h1 AND M44;
          h2 = h2 + c; c = drop_bit 42 h2; h2 = h2 AND M42;
          h0 = h0 + c * 5; c = drop_bit 44 h0; h0 = h0 AND M44;
          h1 = h1 + c; c = drop_bit 44 h1; h1 = h1 AND M44;
          h2 = h2 + c; c = drop_bit 42 h2; h2 = h2 AND M42;
          h0 = h0 + c * 5; c = drop_bit 44 h0; h0 = h0 AND M44;
          h1 = h1 + c
      in (h0, h1, h2)))"

definition poly_select :: "u64 \<times> u64 \<times> u64 \<Rightarrow> u64 \<times> u64 \<times> u64" where
  "poly_select = (\<lambda>(h0, h1, h2).
     (let g0 = h0 + 5; c = drop_bit 44 g0; g0 = g0 AND M44;
          g1 = h1 + c; c = drop_bit 44 g1; g1 = g1 AND M44;
          g2 = h2 + c - push_bit 42 1;
          c = drop_bit 63 g2 - 1;
          g0 = g0 AND c; g1 = g1 AND c; g2 = g2 AND c;
          c = NOT c
      in ((h0 AND c) OR g0, (h1 AND c) OR g1, (h2 AND c) OR g2)))"

definition poly_pad :: "u64 \<Rightarrow> u64 \<Rightarrow> u64 \<times> u64 \<times> u64 \<Rightarrow> u64 \<times> u64" where
  "poly_pad t0 t1 = (\<lambda>(h0, h1, h2).
     (let h0 = h0 + limb0 t0; c = drop_bit 44 h0; h0 = h0 AND M44;
          h1 = h1 + limb1 t0 t1 + c; c = drop_bit 44 h1; h1 = h1 AND M44;
          h2 = h2 + limb2 t1 + c; h2 = h2 AND M42
      in (h0 OR push_bit 44 h1, drop_bit 20 h1 OR push_bit 24 h2)))"

definition poly_clear :: "poly1305 \<Rightarrow> poly1305" where
  "poly_clear pl = pl\<lparr>pl_poly := replicate 8 0, pl_buf := replicate 16 0, pl_bufPos := 0\<rparr>"

definition poly_finish :: "poly1305 \<Rightarrow> nat \<Rightarrow> byte list \<times> poly1305" where
  "poly_finish pl custom =
     (let pl1 = (if pl_bufPos pl \<noteq> 0 then
            poly_blocks (put_at (pl_bufPos pl) (1 # replicate (16 - pl_bufPos pl - 1) 0) (pl_buf pl)) 1 True
              (pl\<lparr>pl_buf := put_at (pl_bufPos pl) (1 # replicate (16 - pl_bufPos pl - 1) 0) (pl_buf pl)\<rparr>)
          else pl);
          p = pl_poly pl1
      in case poly_pad (p ! 6) (p ! 7) (poly_select (poly_carry (p ! 3, p ! 4, p ! 5))) of (w0, w1) \<Rightarrow>
           (take (min custom 16) (store_le 8 [w0, w1]), poly_clear pl1))"

definition poly_barrier :: "poly1305 \<Rightarrow> poly1305" where
  "poly_barrier pl = poly_add pl (fst (poly_finish pl 16))"

subsection \<open>Word arithmetic without overflow\<close>

lemma M44_mod: "unat (w AND M44) = unat w mod 2 ^ 44"
proof -
  have "w AND M44 = take_bit 44 w"
    by (simp add: M44_def take_bit_eq_mask mask_eq_exp_minus_1)
  then show ?thesis
    by (simp only: unsigned_take_bit_eq) (simp add: take_bit_eq_mod)
qed

lemma M42_mod: "unat (w AND M42) = unat w mod 2 ^ 42"
proof -
  have "w AND M42 = take_bit 42 w"
    by (simp add: M42_def take_bit_eq_mask mask_eq_exp_minus_1)
  then show ?thesis
    by (simp only: unsigned_take_bit_eq) (simp add: take_bit_eq_mod)
qed

lemma low44: "unat ((ucast (d :: 128 word) :: u64) AND M44) = unat d mod 2 ^ 44"
  by (simp add: M44_mod down64 mod_mod_cancel)

lemma low42: "unat ((ucast (d :: 128 word) :: u64) AND M42) = unat d mod 2 ^ 42"
  by (simp add: M42_mod down64 mod_mod_cancel)

subsection \<open>The value of three limbs\<close>

definition prime1305 :: nat where
  "prime1305 = 2 ^ 130 - 5"

fun lval :: "u64 \<times> u64 \<times> u64 \<Rightarrow> nat" where
  "lval (h0, h1, h2) = unat h0 + 2 ^ 44 * unat h1 + 2 ^ 88 * unat h2"

text \<open>The products of the limbs, with 2^132 replaced by 20, keep the value modulo 2^130 - 5.\<close>

lemma limb_product:
  fixes H0 H1 H2 R0 R1 R2 :: nat
  defines "D0 \<equiv> H0 * R0 + H1 * (R2 * 20) + H2 * (R1 * 20)"
  defines "D1 \<equiv> H0 * R1 + H1 * R0 + H2 * (R2 * 20) + D0 div 2 ^ 44"
  defines "D2 \<equiv> H0 * R2 + H1 * R1 + H2 * R0 + D1 div 2 ^ 44"
  shows "(D0 mod 2 ^ 44 + (D2 div 2 ^ 42) * 5 + 2 ^ 44 * (D1 mod 2 ^ 44) + 2 ^ 88 * (D2 mod 2 ^ 42)) mod prime1305
    = ((H0 + 2 ^ 44 * H1 + 2 ^ 88 * H2) * (R0 + 2 ^ 44 * R1 + 2 ^ 88 * R2)) mod prime1305"
    (is "?X mod _ = ?HR mod _")
proof -
  define c0 where "c0 = D0 div 2 ^ 44"
  define c1 where "c1 = D1 div 2 ^ 44"
  define c2 where "c2 = D2 div 2 ^ 42"
  let ?Y = "H0 * R0 + 20 * (H1 * R2) + 20 * (H2 * R1)
    + 2 ^ 44 * (H0 * R1 + H1 * R0 + 20 * (H2 * R2)) + 2 ^ 88 * (H0 * R2 + H1 * R1 + H2 * R0)"
  have e0: "D0 = 2 ^ 44 * c0 + D0 mod 2 ^ 44" and e1: "D1 = 2 ^ 44 * c1 + D1 mod 2 ^ 44"
    and e2: "D2 = 2 ^ 42 * c2 + D2 mod 2 ^ 42"
    by (simp_all add: c0_def c1_def c2_def)
  have d1: "D1 = H0 * R1 + H1 * R0 + H2 * (R2 * 20) + c0"
    by (simp only: D1_def c0_def)
  have d2: "D2 = H0 * R2 + H1 * R1 + H2 * R0 + c1"
    by (simp only: D2_def c1_def)
  have y: "?Y + 2 ^ 44 * c0 + 2 ^ 88 * c1 = D0 + 2 ^ 44 * D1 + 2 ^ 88 * D2"
    unfolding d2 d1 D0_def by (simp add: algebra_simps)
  have "?X + prime1305 * c2 = ?Y"
    using y e0 e1 e2 unfolding prime1305_def c2_def [symmetric] by simp
  moreover have "?HR = ?Y + prime1305 * (4 * (H1 * R2 + H2 * R1) + 2 ^ 46 * (H2 * R2))"
    unfolding prime1305_def by (simp add: algebra_simps)
  ultimately show ?thesis by (metis mod_mult_self2)
qed

lemma prod_le: "a < x \<Longrightarrow> b < y \<Longrightarrow> a * b \<le> x * (y :: nat)"
  by (intro mult_le_mono) simp_all

lemma poly_mul_spec:
  assumes "unat r0 < 2 ^ 44" "unat r1 < 2 ^ 44" "unat r2 < 2 ^ 36"
    and "unat h0 < 2 ^ 45" "unat h1 < 2 ^ 46" "unat h2 < 2 ^ 43"
    and "poly_mul (r0, r1, r2) (h0, h1, h2) = (k0, k1, k2)"
  shows "unat k0 < 2 ^ 44 \<and> unat k1 < 2 ^ 44 + 2 ^ 9 \<and> unat k2 < 2 ^ 42 \<and>
    lval (k0, k1, k2) mod prime1305 = (lval (h0, h1, h2) * lval (r0, r1, r2)) mod prime1305"
proof -
  define s1 s2 where "s1 = r1 * 20" and "s2 = r2 * 20"
  define d0 where "d0 = mul128 h0 r0 + mul128 h1 s2 + mul128 h2 s1"
  define c0 where "c0 = (ucast (drop_bit 44 d0) :: u64)"
  define d1 where "d1 = mul128 h0 r1 + mul128 h1 r0 + mul128 h2 s2 + ucast c0"
  define c1 where "c1 = (ucast (drop_bit 44 d1) :: u64)"
  define d2 where "d2 = mul128 h0 r2 + mul128 h1 r1 + mul128 h2 r0 + ucast c1"
  define c2 where "c2 = (ucast (drop_bit 42 d2) :: u64)"
  let ?D0 = "unat h0 * unat r0 + unat h1 * (unat r2 * 20) + unat h2 * (unat r1 * 20)"
  let ?D1 = "unat h0 * unat r1 + unat h1 * unat r0 + unat h2 * (unat r2 * 20) + ?D0 div 2 ^ 44"
  let ?D2 = "unat h0 * unat r2 + unat h1 * unat r1 + unat h2 * unat r0 + ?D1 div 2 ^ 44"
  have s: "unat s1 = unat r1 * 20" "unat s2 = unat r2 * 20"
    unfolding s1_def s2_def using assms(2,3) by (simp_all add: mul64)
  note b = prod_le [OF assms(4,1)] prod_le [OF assms(5,3)] prod_le [OF assms(6,2)]
    prod_le [OF assms(4,2)] prod_le [OF assms(5,1)] prod_le [OF assms(6,3)]
    prod_le [OF assms(4,3)] prod_le [OF assms(5,2)] prod_le [OF assms(6,1)]
  have l0: "?D0 < 2 ^ 93" using b(1,2,3) by simp
  have l0': "?D0 div 2 ^ 44 < 2 ^ 49" using l0 by (simp add: less_mult_imp_div_less)
  have l1: "?D1 < 2 ^ 91" using b(4,5,6) l0' by simp
  have l1': "?D1 div 2 ^ 44 < 2 ^ 47" using l1 by (simp add: less_mult_imp_div_less)
  have l2: "?D2 < 2 ^ 91" using b(7,8,9) l1' by simp
  have l2': "?D2 div 2 ^ 42 < 2 ^ 49" using l2 by (simp add: less_mult_imp_div_less)
  have u0: "unat d0 = ?D0"
    unfolding d0_def using l0 s by (simp add: add128 mul128_unat)
  have v0: "unat c0 = ?D0 div 2 ^ 44"
    unfolding c0_def using l0' by (simp add: down64 unat_drop u0)
  have u1: "unat d1 = ?D1"
    unfolding d1_def using l1 s v0 by (simp add: add128 mul128_unat up128)
  have v1: "unat c1 = ?D1 div 2 ^ 44"
    unfolding c1_def using l1' by (simp add: down64 unat_drop u1)
  have u2: "unat d2 = ?D2"
    unfolding d2_def using l2 s v1 by (simp add: add128 mul128_unat up128)
  have v2: "unat c2 = ?D2 div 2 ^ 42"
    unfolding c2_def using l2' by (simp add: down64 unat_drop u2)
  define g0 where "g0 = (ucast d0 AND M44) + c2 * 5"
  have "unat (c2 * 5) = unat c2 * 5" using v2 l2' by (simp add: mul64)
  then have y: "unat (c2 * 5) = (?D2 div 2 ^ 42) * 5" by (simp only: v2)
  have x: "unat ((ucast d0 :: u64) AND M44) = ?D0 mod 2 ^ 44" by (simp only: low44 u0)
  have m0: "?D0 mod 2 ^ 44 < 2 ^ 44" and m1: "?D1 mod 2 ^ 44 < 2 ^ 44" by simp_all
  have "unat ((ucast d0 :: u64) AND M44) + unat (c2 * 5) < 2 ^ 64"
    unfolding x y using m0 l2' by simp
  then have g0: "unat g0 = ?D0 mod 2 ^ 44 + (?D2 div 2 ^ 42) * 5"
    unfolding g0_def by (simp only: add64 x y)
  have lg: "unat g0 div 2 ^ 44 < 2 ^ 9"
    unfolding g0 using m0 l2' by (intro less_mult_imp_div_less) simp
  have k: "k0 = g0 AND M44" "k1 = (ucast d1 AND M44) + ucast (drop_bit 44 (ucast g0 :: 128 word))"
    "k2 = ucast d2 AND M42"
    using assms(7) unfolding poly_mul_def case_prod_conv Let_def
    by (simp_all only: s1_def [symmetric] s2_def [symmetric] d0_def [symmetric] c0_def [symmetric]
        d1_def [symmetric] c1_def [symmetric] d2_def [symmetric] c2_def [symmetric] g0_def [symmetric]
        prod.inject)
  have w: "unat (ucast (drop_bit 44 (ucast g0 :: 128 word)) :: u64) = unat g0 div 2 ^ 44"
    using lg by (simp add: down64 unat_drop up128)
  have k0: "unat k0 = unat g0 mod 2 ^ 44" and k2: "unat k2 = ?D2 mod 2 ^ 42"
    by (simp_all add: k M44_mod low42 u2)
  have k1: "unat k1 = ?D1 mod 2 ^ 44 + unat g0 div 2 ^ 44"
  proof -
    have z: "unat ((ucast d1 :: u64) AND M44) = ?D1 mod 2 ^ 44" by (simp only: low44 u1)
    have "unat ((ucast d1 :: u64) AND M44) + unat (ucast (drop_bit 44 (ucast g0 :: 128 word)) :: u64) < 2 ^ 64"
      unfolding z w using m1 lg by simp
    then show ?thesis unfolding k(2) by (simp only: add64 z w)
  qed
  have "lval (k0, k1, k2) = unat g0 + 2 ^ 44 * (?D1 mod 2 ^ 44) + 2 ^ 88 * (?D2 mod 2 ^ 42)"
    using mult_div_mod_eq [of "2 ^ 44" "unat g0"] by (simp add: k0 k1 k2 algebra_simps)
  also have "\<dots> mod prime1305 = (lval (h0, h1, h2) * lval (r0, r1, r2)) mod prime1305"
    unfolding g0 lval.simps by (rule limb_product)
  finally have v: "lval (k0, k1, k2) mod prime1305 = (lval (h0, h1, h2) * lval (r0, r1, r2)) mod prime1305" .
  have "unat k1 < 2 ^ 44 + 2 ^ 9" unfolding k1 by (rule add_strict_mono [OF m1 lg])
  then show ?thesis
    using v by (simp add: k0 k2 del: lval.simps)
qed

subsection \<open>Limbs of a block\<close>

lemma limb0_unat: "unat (limb0 t0) = unat t0 mod 2 ^ 44"
  by (simp only: limb0_def M44_mod)

lemma limb1_unat: "unat (limb1 t0 t1) = unat t0 div 2 ^ 44 + 2 ^ 20 * (unat t1 mod 2 ^ 24)"
proof -
  have e: "limb1 t0 t1 = drop_bit 44 t0 OR push_bit 20 (take_bit 24 t1)"
  proof (rule bit_word_eqI)
    fix k assume k: "k < LENGTH(64)"
    have m: "M44 = mask 44" by (simp add: M44_def mask_eq_exp_minus_1)
    show "bit (limb1 t0 t1) k \<longleftrightarrow> bit (drop_bit 44 t0 OR push_bit 20 (take_bit 24 t1)) k"
      using k bit_imp_le_length [of t0 "44 + k"] unfolding limb1_def m
      by (auto simp: bit_simps)
  qed
  have "drop_bit 44 t0 AND push_bit 20 (take_bit 24 t1) = 0"
    by (intro bit_word_eqI) (auto simp: bit_simps dest: bit_imp_le_length)
  then have p: "limb1 t0 t1 = drop_bit 44 t0 + push_bit 20 (take_bit 24 t1)"
    by (simp add: e disjunctive_add_eq_or)
  have a: "unat (drop_bit 44 t0) = unat t0 div 2 ^ 44" by (rule unat_drop)
  have "unat t1 mod 2 ^ 24 < 2 ^ 24" by simp
  then have b: "unat (push_bit 20 (take_bit 24 t1)) = 2 ^ 20 * (unat t1 mod 2 ^ 24)"
    by (simp only: unsigned_push_bit_eq unsigned_take_bit_eq)
       (simp add: take_bit_eq_mod [where 'a = nat] push_bit_eq_mult [where 'a = nat] mult.commute)
  have "unat t0 div 2 ^ 44 < 2 ^ 20"
    using unsigned_less [of t0, where 'a = nat] by (intro less_mult_imp_div_less) simp
  then show ?thesis
    unfolding p using add64 [of "drop_bit 44 t0" "push_bit 20 (take_bit 24 t1)"] a b by simp
qed

lemma limb2_unat: "unat (limb2 t1) = unat t1 div 2 ^ 24" "unat (limb2 t1) < 2 ^ 40"
proof -
  have "unat t1 div 2 ^ 24 < 2 ^ 40"
    using unsigned_less [of t1, where 'a = nat] by (intro less_mult_imp_div_less) simp
  then show "unat (limb2 t1) = unat t1 div 2 ^ 24" "unat (limb2 t1) < 2 ^ 40"
    by (simp_all add: limb2_def M42_mod unat_drop)
qed

text \<open>Two words of a block and the limbs they are split into.\<close>

definition word_pair :: "u64 \<Rightarrow> u64 \<Rightarrow> nat" where
  "word_pair t0 t1 = unat t0 + 2 ^ 64 * unat t1"

lemma limbs_value: "unat (limb0 t0) + 2 ^ 44 * unat (limb1 t0 t1) + 2 ^ 88 * unat (limb2 t1) = word_pair t0 t1"
proof -
  define a b c d where "a = unat t0 div 2 ^ 44" and "b = unat t0 mod 2 ^ 44"
    and "c = unat t1 div 2 ^ 24" and "d = unat t1 mod 2 ^ 24"
  have "unat t0 = 2 ^ 44 * a + b" "unat t1 = 2 ^ 24 * c + d"
    by (simp_all add: a_def b_def c_def d_def)
  then show ?thesis
    unfolding limb0_unat limb1_unat limb2_unat(1) word_pair_def
      a_def [symmetric] b_def [symmetric] c_def [symmetric] d_def [symmetric]
    by (simp add: algebra_simps)
qed

lemma word_pair_block:
  "word_pair (le_word (take 8 m)) (le_word (take 8 (drop 8 m))) = le_num (take 16 m)"
proof -
  have "take 16 m = take 8 m @ take 8 (drop 8 m)" using take_add [of 8 8 m] by simp
  moreover have "le_num (take 8 (drop 8 m)) = 0" if "length (take 8 m) \<noteq> 8"
    using that by simp
  ultimately show ?thesis
    by (cases "length (take 8 m) = 8") (auto simp: word_pair_def unat_le_word le_num_append)
qed

lemma and_single_bit: "\<not> bit x n \<Longrightarrow> x AND push_bit n 1 = (0 :: 'w::len word)"
  by (rule bit_word_eqI) (auto simp: bit_simps)

lemma hibit_unat:
  "unat (limb2 t1 OR (if fin then 0 else push_bit 40 1)) = unat (limb2 t1) + (if fin then 0 else 2 ^ 40)"
proof (cases fin)
  case False
  have "\<not> bit (limb2 t1) 40"
    by (auto simp: limb2_def bit_simps dest: bit_imp_le_length)
  then have "limb2 t1 AND push_bit 40 1 = 0"
    by (rule and_single_bit)
  then have "limb2 t1 OR push_bit 40 1 = limb2 t1 + push_bit 40 1"
    by (simp add: disjunctive_add_eq_or)
  then show ?thesis
    using False limb2_unat(2) [of t1] add64 [of "limb2 t1" "push_bit 40 1"] by simp
qed simp

text \<open>The limbs between blocks.\<close>

fun limbs_ok :: "u64 \<times> u64 \<times> u64 \<Rightarrow> bool" where
  "limbs_ok (h0, h1, h2) \<longleftrightarrow> unat h0 < 2 ^ 44 \<and> unat h1 < 2 ^ 44 + 2 ^ 9 \<and> unat h2 < 2 ^ 42"

fun key_ok :: "u64 \<times> u64 \<times> u64 \<Rightarrow> bool" where
  "key_ok (r0, r1, r2) \<longleftrightarrow> unat r0 < 2 ^ 44 \<and> unat r1 < 2 ^ 44 \<and> unat r2 < 2 ^ 36"

lemma poly_block_spec:
  assumes "limbs_ok h" "key_ok r"
  shows "limbs_ok (poly_block r (if fin then 0 else push_bit 40 1) m h) \<and>
    lval (poly_block r (if fin then 0 else push_bit 40 1) m h) mod prime1305 =
      ((lval h + le_num (take 16 m) + (if fin then 0 else 2 ^ 128)) * lval r) mod prime1305"
proof -
  obtain h0 h1 h2 where h: "h = (h0, h1, h2)" by (cases h)
  obtain r0 r1 r2 where r: "r = (r0, r1, r2)" by (cases r)
  let ?t0 = "le_word (take 8 m) :: u64" and ?t1 = "le_word (take 8 (drop 8 m)) :: u64"
  let ?hb = "if fin then 0 else push_bit 40 1 :: u64"
  let ?a0 = "h0 + limb0 ?t0" and ?a1 = "h1 + limb1 ?t0 ?t1" and ?a2 = "h2 + (limb2 ?t1 OR ?hb)"
  have l0: "unat (limb0 ?t0) < 2 ^ 44" by (simp add: limb0_unat)
  have l1: "unat (limb1 ?t0 ?t1) < 2 ^ 44"
    by (simp add: limb1_def M44_mod)
  have l2: "unat (limb2 ?t1 OR ?hb) < 2 ^ 41" using limb2_unat(2) [of ?t1] by (simp add: hibit_unat)
  have b: "unat h0 < 2 ^ 44" "unat h1 < 2 ^ 44 + 2 ^ 9" "unat h2 < 2 ^ 42"
    "unat r0 < 2 ^ 44" "unat r1 < 2 ^ 44" "unat r2 < 2 ^ 36"
    using assms by (simp_all add: h r)
  have s: "unat ?a0 = unat h0 + unat (limb0 ?t0)" "unat ?a1 = unat h1 + unat (limb1 ?t0 ?t1)"
    "unat ?a2 = unat h2 + unat (limb2 ?t1 OR ?hb)"
    using l0 l1 l2 b by (auto intro!: add64)
  obtain k0 k1 k2 where k: "poly_mul (r0, r1, r2) (?a0, ?a1, ?a2) = (k0, k1, k2)"
    using prod_cases3 by blast
  have "unat ?a0 < 2 ^ 45" "unat ?a1 < 2 ^ 46" "unat ?a2 < 2 ^ 43"
    unfolding s using l0 l1 l2 b by simp_all
  note ps = poly_mul_spec [OF b(4-6) this k]
  have "lval (?a0, ?a1, ?a2) = lval h + le_num (take 16 m) + (if fin then 0 else 2 ^ 128)"
    using limbs_value [of ?t0 ?t1] unfolding word_pair_block lval.simps s h hibit_unat
    by (simp add: algebra_simps)
  then show ?thesis
    using ps k by (simp add: poly_block_def h r del: lval.simps)
qed

subsection \<open>The final reduction\<close>

lemma carry_arith:
  fixes H0 H1 H2 :: nat
  assumes "H0 < 2 ^ 44" "H1 < 2 ^ 44 + 2 ^ 9" "H2 < 2 ^ 42"
    and "H1 = 2 ^ 44 * c1 + a1" "a1 < 2 ^ 44"
    and "H2 + c1 = 2 ^ 42 * c2 + b2" "b2 < 2 ^ 42"
    and "H0 + c2 * 5 = 2 ^ 44 * c3 + b0" "b0 < 2 ^ 44"
    and "a1 + c3 = 2 ^ 44 * c4 + d1" "d1 < 2 ^ 44"
    and "b2 + c4 = 2 ^ 42 * c5 + e2" "e2 < 2 ^ 42"
    and "b0 + c5 * 5 = 2 ^ 44 * c6 + e0" "e0 < 2 ^ 44"
  shows "d1 + c6 < 2 ^ 44"
    and "e0 + 2 ^ 44 * (d1 + c6) + 2 ^ 88 * e2 + prime1305 * (c2 + c5) = H0 + 2 ^ 44 * H1 + 2 ^ 88 * H2"
    and "c1 \<le> 1" "c2 \<le> 1" "c3 \<le> 1" "c4 \<le> 1" "c5 \<le> 1" "c6 \<le> 1"
proof -
  show c1: "c1 \<le> 1" and c2: "c2 \<le> 1" using assms(2-6) by simp_all
  show c3: "c3 \<le> 1" and c4: "c4 \<le> 1" using assms(1,5,8,10) c2 by simp_all
  show c5: "c5 \<le> 1" and c6: "c6 \<le> 1" using assms(7,9,12,14) c4 by simp_all
  show "d1 + c6 < 2 ^ 44"
  proof (cases "c6 = 0")
    case True
    then show ?thesis using assms(11) by simp
  next
    case False
    then have "c5 \<noteq> 0" using assms(9,14) by auto
    then have "c4 \<noteq> 0" using assms(7,12) by auto
    then have "d1 = 0" using assms(5,10) c3 by simp
    then show ?thesis using c6 by simp
  qed
  have "e0 + 2 ^ 44 * (d1 + c6) + 2 ^ 88 * e2 + (2 ^ 130 * (c2 + c5))
      = H0 + 2 ^ 44 * H1 + 2 ^ 88 * H2 + 5 * (c2 + c5)"
    using assms(4,6,8,10,12,14) by simp
  then show "e0 + 2 ^ 44 * (d1 + c6) + 2 ^ 88 * e2 + prime1305 * (c2 + c5) = H0 + 2 ^ 44 * H1 + 2 ^ 88 * H2"
    unfolding prime1305_def by simp
qed

text \<open>Limbs within their widths.\<close>

fun reduced :: "u64 \<times> u64 \<times> u64 \<Rightarrow> bool" where
  "reduced (h0, h1, h2) \<longleftrightarrow> unat h0 < 2 ^ 44 \<and> unat h1 < 2 ^ 44 \<and> unat h2 < 2 ^ 42"

lemma unat_five: "unat c \<le> 1 \<Longrightarrow> unat (c * 5 :: u64) = unat c * 5"
  by (subst mul64) simp_all

lemma add_five: "unat a < 2 ^ 60 \<Longrightarrow> unat c \<le> 1 \<Longrightarrow> unat (a + c * 5 :: u64) = unat a + unat c * 5"
  by (subst add64) (simp_all add: unat_five)

lemma poly_carry_spec:
  assumes "limbs_ok h"
  shows "reduced (poly_carry h) \<and> lval (poly_carry h) mod prime1305 = lval h mod prime1305"
proof -
  obtain h0 h1 h2 where h: "h = (h0, h1, h2)" by (cases h)
  have b: "unat h0 < 2 ^ 44" "unat h1 < 2 ^ 44 + 2 ^ 9" "unat h2 < 2 ^ 42"
    using assms by (simp_all add: h)
  let ?c1 = "unat h1 div 2 ^ 44" and ?a1 = "unat h1 mod 2 ^ 44"
  let ?c2 = "(unat h2 + ?c1) div 2 ^ 42" and ?b2 = "(unat h2 + ?c1) mod 2 ^ 42"
  let ?c3 = "(unat h0 + ?c2 * 5) div 2 ^ 44" and ?b0 = "(unat h0 + ?c2 * 5) mod 2 ^ 44"
  let ?c4 = "(?a1 + ?c3) div 2 ^ 44" and ?d1 = "(?a1 + ?c3) mod 2 ^ 44"
  let ?c5 = "(?b2 + ?c4) div 2 ^ 42" and ?e2 = "(?b2 + ?c4) mod 2 ^ 42"
  let ?c6 = "(?b0 + ?c5 * 5) div 2 ^ 44" and ?e0 = "(?b0 + ?c5 * 5) mod 2 ^ 44"
  have m: "?a1 < 2 ^ 44" "?b2 < 2 ^ 42" "?b0 < 2 ^ 44" "?d1 < 2 ^ 44" "?e2 < 2 ^ 42" "?e0 < 2 ^ 44"
    by simp_all
  note ar = carry_arith [OF b mult_div_mod_eq [symmetric] m(1) mult_div_mod_eq [symmetric] m(2)
      mult_div_mod_eq [symmetric] m(3) mult_div_mod_eq [symmetric] m(4)
      mult_div_mod_eq [symmetric] m(5) mult_div_mod_eq [symmetric] m(6)]
  define w1 where "w1 = drop_bit 44 h1"
  define x1 where "x1 = h1 AND M44"
  define x2 where "x2 = h2 + w1"
  define w2 where "w2 = drop_bit 42 x2"
  define y2 where "y2 = x2 AND M42"
  define x0 where "x0 = h0 + w2 * 5"
  define w3 where "w3 = drop_bit 44 x0"
  define y0 where "y0 = x0 AND M44"
  define y1 where "y1 = x1 + w3"
  define w4 where "w4 = drop_bit 44 y1"
  define z1 where "z1 = y1 AND M44"
  define z2 where "z2 = y2 + w4"
  define w5 where "w5 = drop_bit 42 z2"
  define k2 where "k2 = z2 AND M42"
  define z0 where "z0 = y0 + w5 * 5"
  define w6 where "w6 = drop_bit 44 z0"
  define k0 where "k0 = z0 AND M44"
  define k1 where "k1 = z1 + w6"
  have k: "poly_carry h = (k0, k1, k2)"
    unfolding h poly_carry_def case_prod_conv Let_def k0_def k1_def k2_def z0_def z1_def z2_def
      w6_def w5_def w4_def w3_def w2_def w1_def y0_def y1_def y2_def x0_def x1_def x2_def ..
  have u1: "unat w1 = ?c1" "unat x1 = ?a1" by (simp_all only: w1_def x1_def unat_drop M44_mod)
  have u2: "unat x2 = unat h2 + ?c1"
    unfolding x2_def u1(1) [symmetric] using ar(3) [folded u1(1)] b(3) by (intro add64) simp
  have u3: "unat w2 = ?c2" "unat y2 = ?b2" by (simp_all only: w2_def y2_def unat_drop M42_mod u2)
  have u4: "unat x0 = unat h0 + ?c2 * 5"
    unfolding x0_def u3(1) [symmetric] using ar(4) [folded u3(1)] b(1) by (intro add_five) simp_all
  have u5: "unat w3 = ?c3" "unat y0 = ?b0" by (simp_all only: w3_def y0_def unat_drop M44_mod u4)
  have u6: "unat y1 = ?a1 + ?c3"
    unfolding y1_def u5(1) [symmetric] u1(2) [symmetric] using ar(5) [folded u5(1)] m(1) [folded u1(2)] by (intro add64) simp
  have u7: "unat w4 = ?c4" "unat z1 = ?d1" by (simp_all only: w4_def z1_def unat_drop M44_mod u6)
  have u8: "unat z2 = ?b2 + ?c4"
    unfolding z2_def u7(1) [symmetric] u3(2) [symmetric] using ar(6) [folded u7(1)] m(2) [folded u3(2)] by (intro add64) simp
  have u9: "unat w5 = ?c5" "unat k2 = ?e2" by (simp_all only: w5_def k2_def unat_drop M42_mod u8)
  have u10: "unat z0 = ?b0 + ?c5 * 5"
    unfolding z0_def u9(1) [symmetric] u5(2) [symmetric] using ar(7) [folded u9(1)] m(3) [folded u5(2)] by (intro add_five) simp_all
  have u11: "unat w6 = ?c6" "unat k0 = ?e0" by (simp_all only: w6_def k0_def unat_drop M44_mod u10)
  have u12: "unat k1 = ?d1 + ?c6"
    unfolding k1_def u11(1) [symmetric] u7(2) [symmetric] using ar(8) [folded u11(1)] m(4) [folded u7(2)] by (intro add64) simp
  have "lval (k0, k1, k2) + prime1305 * (?c2 + ?c5) = lval h"
    by (simp only: lval.simps h u11(2) u12 u9(2) ar(2))
  then have "lval (k0, k1, k2) mod prime1305 = lval h mod prime1305"
    by (metis mod_mult_self2)
  moreover have "reduced (k0, k1, k2)"
    by (simp only: reduced.simps u11(2) u12 u9(2) ar(1) m(5,6) simp_thms)
  ultimately show ?thesis unfolding k by (intro conjI)
qed

lemma top_bit_borrow:
  assumes "unat (x :: u64) < 2 ^ 42"
  shows "drop_bit 63 (x - push_bit 42 1) = 1"
proof -
  have "unat (push_bit 42 1 :: u64) = 2 ^ 42" by simp
  then have "unat (x - push_bit 42 1) = unat x + 2 ^ 64 - 2 ^ 42"
    using assms unat_sub_if' [of x "push_bit 42 1"] by simp
  then have "unat (drop_bit 63 (x - push_bit 42 1)) = (unat x + 2 ^ 64 - 2 ^ 42) div 2 ^ 63"
    by (simp only: unat_drop)
  also have "\<dots> = 1"
    using assms by (intro div_nat_eqI) simp_all
  finally show ?thesis by (metis unat_1 word_unat_eq_iff)
qed

lemma poly_select_spec:
  assumes "reduced h"
  shows "reduced (poly_select h) \<and> lval (poly_select h) = lval h mod prime1305"
proof -
  obtain h0 h1 h2 where h: "h = (h0, h1, h2)" by (cases h)
  have b: "unat h0 < 2 ^ 44" "unat h1 < 2 ^ 44" "unat h2 < 2 ^ 42"
    using assms by (simp_all add: h)
  define a0 where "a0 = h0 + 5"
  define c0 where "c0 = drop_bit 44 a0"
  define g0 where "g0 = a0 AND M44"
  define a1 where "a1 = h1 + c0"
  define c1 where "c1 = drop_bit 44 a1"
  define g1 where "g1 = a1 AND M44"
  define a2 where "a2 = h2 + c1"
  define g2 where "g2 = a2 - push_bit 42 1"
  define c where "c = drop_bit 63 g2 - 1"
  have s: "poly_select h = ((h0 AND NOT c) OR (g0 AND c), (h1 AND NOT c) OR (g1 AND c), (h2 AND NOT c) OR (g2 AND c))"
    unfolding h poly_select_def case_prod_conv Let_def c_def g2_def a2_def g1_def c1_def a1_def g0_def c0_def a0_def ..
  have u0: "unat a0 = unat h0 + 5" unfolding a0_def using b(1) add64 [of h0 5] by simp
  have v0: "unat c0 = unat a0 div 2 ^ 44" "unat g0 = unat a0 mod 2 ^ 44"
    by (simp_all only: c0_def g0_def unat_drop M44_mod)
  have d0: "unat c0 \<le> 1" unfolding v0 u0 using b(1) by simp
  have u1: "unat a1 = unat h1 + unat c0" unfolding a1_def using b(2) d0 by (intro add64) simp
  have v1: "unat c1 = unat a1 div 2 ^ 44" "unat g1 = unat a1 mod 2 ^ 44"
    by (simp_all only: c1_def g1_def unat_drop M44_mod)
  have d1: "unat c1 \<le> 1" unfolding v1 u1 using b(2) d0 by simp
  have u2: "unat a2 = unat h2 + unat c1" unfolding a2_def using b(3) d1 by (intro add64) simp
  have e0: "unat h0 + 5 = 2 ^ 44 * unat c0 + unat g0"
    by (simp only: v0 u0 [symmetric] mult_div_mod_eq)
  have e1: "unat h1 + unat c0 = 2 ^ 44 * unat c1 + unat g1"
    by (simp only: v1 u1 [symmetric] mult_div_mod_eq)
  have g: "unat g0 < 2 ^ 44" "unat g1 < 2 ^ 44" unfolding v0 v1 by simp_all
  have sum: "lval h + 5 = unat g0 + 2 ^ 44 * unat g1 + 2 ^ 88 * unat a2"
    using e0 e1 unfolding h lval.simps u2 by simp
  show ?thesis
  proof (cases "unat a2 < 2 ^ 42")
    case True
    have "c = 0" unfolding c_def g2_def top_bit_borrow [OF True] by simp
    then have r: "poly_select h = h" unfolding s by (simp add: h)
    have "lval h < prime1305"
      using sum g True unfolding prime1305_def by simp
    then show ?thesis using r assms by simp
  next
    case False
    then have "unat a2 = 2 ^ 42" using u2 b(3) d1 by simp
    moreover have "unat (push_bit 42 1 :: u64) = 2 ^ 42" by simp
    ultimately have "a2 = push_bit 42 1" by (metis word_unat_eq_iff)
    then have g2: "g2 = 0" by (simp add: g2_def)
    then have "c = - 1" by (simp add: c_def)
    then have r: "poly_select h = (g0, g1, g2)" unfolding s by simp
    have l: "lval h = lval (g0, g1, g2) + prime1305"
      using sum \<open>unat a2 = 2 ^ 42\<close> by (simp add: g2 prime1305_def)
    have "lval (g0, g1, g2) < prime1305"
      using g by (simp add: g2 prime1305_def)
    then show ?thesis using r g l by (simp add: g2 del: lval.simps)
  qed
qed

lemma or_push:
  assumes "unat a < 2 ^ n" "n \<le> 64"
  shows "unat (a OR push_bit n b :: u64) = unat a + 2 ^ n * (unat b mod 2 ^ (64 - n))"
proof -
  have "\<not> bit a k" if "n \<le> k" for k
  proof -
    have "bit (unat a) k \<longleftrightarrow> bit (take_bit n (unat a)) k"
      using assms(1) by (simp only: take_bit_nat_eq_self)
    then show ?thesis using that bit_unsigned_iff [where 'a = nat, of a k] by (simp add: bit_take_bit_iff)
  qed
  then have "a AND push_bit n b = 0"
    by (intro bit_word_eqI) (auto simp: bit_simps)
  then have e: "a OR push_bit n b = a + push_bit n b"
    by (simp add: disjunctive_add_eq_or)
  have "unat (push_bit n b) = (2 ^ n * unat b) mod 2 ^ 64"
    by (simp only: unsigned_push_bit_eq) (simp add: push_bit_eq_mult take_bit_eq_mod mult.commute)
  also have "\<dots> = 2 ^ n * (unat b mod 2 ^ (64 - n))"
    using assms(2) by (metis mult_mod_right power_add le_add_diff_inverse)
  finally have p: "unat (push_bit n b) = 2 ^ n * (unat b mod 2 ^ (64 - n))" .
  have "unat b mod 2 ^ (64 - n) < 2 ^ (64 - n)" by simp
  then have "unat b mod 2 ^ (64 - n) \<le> 2 ^ (64 - n) - 1" by linarith
  then have "2 ^ n * (unat b mod 2 ^ (64 - n)) \<le> 2 ^ n * (2 ^ (64 - n) - 1)" by simp
  also have "\<dots> = 2 ^ 64 - 2 ^ n"
    using assms(2) by (simp add: diff_mult_distrib2 flip: power_add)
  finally have "2 ^ n * (unat b mod 2 ^ (64 - n)) \<le> 2 ^ 64 - 2 ^ n" .
  moreover have "(2 :: nat) ^ n \<le> 2 ^ 64" using assms(2) by (intro power_increasing) simp_all
  ultimately have "unat a + unat (push_bit n b) < 2 ^ 64"
    using assms(1) unfolding p by linarith
  then show ?thesis unfolding e by (simp only: add64 p)
qed

lemma pad_arith:
  fixes M0 M1 M2 L0 L1 L2 :: nat
  assumes "M0 + L0 = 2 ^ 44 * c0 + b0" "b0 < 2 ^ 44" "M1 + L1 + c0 = 2 ^ 44 * c1 + b1" "b1 < 2 ^ 44"
    and "b1 = 2 ^ 20 * q1 + p1" "p1 < 2 ^ 20" "M2 + L2 + c1 = 2 ^ 40 * q2 + p2" "p2 < 2 ^ 40"
  shows "b0 + 2 ^ 44 * p1 + 2 ^ 64 * (q1 + 2 ^ 24 * p2)
    = (M0 + 2 ^ 44 * M1 + 2 ^ 88 * M2 + (L0 + 2 ^ 44 * L1 + 2 ^ 88 * L2)) mod 2 ^ 128" (is "?x = ?y mod _")
proof -
  have "?y = ?x + 2 ^ 128 * q2" using assms(1,3,5,7) by simp
  moreover have "?x < 2 ^ 128" using assms(2,4-6,8) by simp
  ultimately show ?thesis by simp
qed

lemma poly_pad_spec:
  assumes "reduced h" "poly_pad t0 t1 h = (w0, w1)"
  shows "word_pair w0 w1 = (lval h + word_pair t0 t1) mod 2 ^ 128"
proof -
  obtain h0 h1 h2 where h: "h = (h0, h1, h2)" by (cases h)
  have b: "unat h0 < 2 ^ 44" "unat h1 < 2 ^ 44" "unat h2 < 2 ^ 42"
    using assms by (simp_all add: h)
  have l0: "unat (limb0 t0) < 2 ^ 44" by (simp only: limb0_unat) simp
  have l1: "unat (limb1 t0 t1) < 2 ^ 44" by (simp only: limb1_def M44_mod) simp
  note l2 = limb2_unat(2) [of t1]
  define a0 where "a0 = h0 + limb0 t0"
  define c0 where "c0 = drop_bit 44 a0"
  define b0 where "b0 = a0 AND M44"
  define a1 where "a1 = h1 + limb1 t0 t1 + c0"
  define c1 where "c1 = drop_bit 44 a1"
  define b1 where "b1 = a1 AND M44"
  define a2 where "a2 = h2 + limb2 t1 + c1"
  define b2 where "b2 = a2 AND M42"
  have w: "w0 = b0 OR push_bit 44 b1" "w1 = drop_bit 20 b1 OR push_bit 24 b2"
    using assms(2) unfolding h poly_pad_def case_prod_conv Let_def a0_def [symmetric] c0_def [symmetric]
      b0_def [symmetric] a1_def [symmetric] c1_def [symmetric] b1_def [symmetric] a2_def [symmetric]
      b2_def [symmetric] by simp_all
  have u0: "unat a0 = unat h0 + unat (limb0 t0)" unfolding a0_def using b(1) l0 by (intro add64) simp
  have v0: "unat c0 = unat a0 div 2 ^ 44" "unat b0 = unat a0 mod 2 ^ 44"
    by (simp_all only: c0_def b0_def unat_drop M44_mod)
  have d0: "unat c0 \<le> 1" unfolding v0 u0 using b(1) l0 by simp
  have "unat (h1 + limb1 t0 t1) = unat h1 + unat (limb1 t0 t1)" using b(2) l1 by (intro add64) simp
  then have u1: "unat a1 = unat h1 + unat (limb1 t0 t1) + unat c0"
    unfolding a1_def using add64 [of "h1 + limb1 t0 t1" c0] b(2) l1 d0 by simp
  have v1: "unat c1 = unat a1 div 2 ^ 44" "unat b1 = unat a1 mod 2 ^ 44"
    by (simp_all only: c1_def b1_def unat_drop M44_mod)
  have d1: "unat c1 \<le> 1" unfolding v1 u1 using b(2) l1 d0 by simp
  have "unat (h2 + limb2 t1) = unat h2 + unat (limb2 t1)" using b(3) l2 by (intro add64) simp
  then have u2: "unat a2 = unat h2 + unat (limb2 t1) + unat c1"
    unfolding a2_def using add64 [of "h2 + limb2 t1" c1] b(3) l2 d1 by simp
  have lb: "unat b0 < 2 ^ 44" "unat b1 < 2 ^ 44" by (simp_all only: v0 v1) simp_all
  have "unat (drop_bit 20 b1) < 2 ^ 24"
    unfolding unat_drop using lb(2) by (intro less_mult_imp_div_less) simp
  then have uw1: "unat w1 = unat b1 div 2 ^ 20 + 2 ^ 24 * (unat b2 mod 2 ^ 40)"
    unfolding w(2) using or_push [of "drop_bit 20 b1" 24 b2] by (simp add: unat_drop)
  have uw0: "unat w0 = unat b0 + 2 ^ 44 * (unat b1 mod 2 ^ 20)"
    unfolding w(1) using or_push [OF lb(1), of b1] by simp
  have b2: "unat b2 mod 2 ^ 40 = unat a2 mod 2 ^ 40"
    unfolding b2_def M42_mod by (simp add: mod_mod_cancel)
  have e0: "unat h0 + unat (limb0 t0) = 2 ^ 44 * unat c0 + unat b0"
    by (simp only: v0 u0 [symmetric] mult_div_mod_eq)
  have e1: "unat h1 + unat (limb1 t0 t1) + unat c0 = 2 ^ 44 * unat c1 + unat b1"
    by (simp only: v1 u1 [symmetric] mult_div_mod_eq)
  have e2: "unat h2 + unat (limb2 t1) + unat c1 = 2 ^ 40 * (unat a2 div 2 ^ 40) + unat a2 mod 2 ^ 40"
    by (simp only: u2 [symmetric] mult_div_mod_eq)
  have m: "unat b1 mod 2 ^ 20 < 2 ^ 20" "unat a2 mod 2 ^ 40 < 2 ^ 40" by simp_all
  show ?thesis
    using pad_arith [OF e0 lb(1) e1 lb(2) mult_div_mod_eq [symmetric] m(1) e2 m(2)]
    by (simp only: word_pair_def [of w0] uw0 uw1 b2 h lval.simps limbs_value)
qed

text \<open>The tag from the accumulator.\<close>

lemma poly_tag:
  assumes "limbs_ok h" "poly_pad t0 t1 (poly_select (poly_carry h)) = (w0, w1)"
  shows "word_pair w0 w1 = (lval h mod prime1305 + word_pair t0 t1) mod 2 ^ 128"
  using poly_carry_spec [OF assms(1)] poly_select_spec [of "poly_carry h"] poly_pad_spec [OF _ assms(2)]
  by simp

end
