(* ===== verification/PolyTag.thy ===== *)
theory PolyTag
  imports Poly1305
begin

section \<open>The Poly1305 tag of a message\<close>

text \<open>
  The tag of RFC 8439 as a reference over numbers, and the proof that the object of the theory
  Poly1305 computes it for a message added in any pieces: the clamped key limbs, the state kept
  between calls (\<open>poly_holds\<close>), the last short block.
\<close>

subsection \<open>Reference: RFC 8439, section 2.5\<close>

function rfc_eval :: "nat \<Rightarrow> nat \<Rightarrow> byte list \<Rightarrow> nat" where
  "rfc_eval r a m =
     (if m = [] then a
      else rfc_eval r (((a + le_num (take 16 m @ [1])) * r) mod prime1305) (drop 16 m))"
  by pat_completeness auto
termination
  by (relation "measure (\<lambda>(r, a, m). length m)") auto

declare rfc_eval.simps [simp del]

definition rfc_clamp :: "byte list \<Rightarrow> nat" where
  "rfc_clamp key = le_num (take 16 key) AND 0x0ffffffc0ffffffc0ffffffc0fffffff"

definition rfc_poly1305 :: "byte list \<Rightarrow> byte list \<Rightarrow> byte list" where
  "rfc_poly1305 key m =
     num_bytes 16 (rfc_eval (rfc_clamp key) 0 m + le_num (take 16 (drop 16 key)))"

subsection \<open>The clamped key\<close>

lemma and_split:
  "x AND y = ((x mod 2 ^ n) AND (y mod 2 ^ n)) + 2 ^ n * ((x div 2 ^ n) AND (y div 2 ^ n))" for x y :: nat
proof -
  have "take_bit n (x AND y) = (x mod 2 ^ n) AND (y mod 2 ^ n)"
    by (simp flip: take_bit_eq_mod)
  moreover have "drop_bit n (x AND y) = (x div 2 ^ n) AND (y div 2 ^ n)"
    by (simp flip: drop_bit_eq_div)
  moreover have "x AND y = take_bit n (x AND y) + 2 ^ n * drop_bit n (x AND y)"
    by (simp only: take_bit_eq_mod drop_bit_eq_div) simp
  ultimately show ?thesis by simp
qed

lemma and_limbs:
  fixes a b c x y z :: nat
  assumes "a < 2 ^ 44" "b < 2 ^ 44" "x < 2 ^ 44" "y < 2 ^ 44"
  shows "(a + 2 ^ 44 * b + 2 ^ 88 * c) AND (x + 2 ^ 44 * y + 2 ^ 88 * z)
    = (a AND x) + 2 ^ 44 * (b AND y) + 2 ^ 88 * (c AND z)"
proof -
  have s: "(u + 2 ^ 44 * v) AND (u' + 2 ^ 44 * v') = (u AND u') + 2 ^ 44 * (v AND v')"
    if "u < 2 ^ 44" "u' < 2 ^ 44" for u u' v v' :: nat
    using that by (subst and_split [of _ _ 44]) simp
  have r: "a + 2 ^ 44 * b + 2 ^ 88 * c = a + 2 ^ 44 * (b + 2 ^ 44 * c)" for a b c :: nat
    by simp
  show ?thesis unfolding r by (simp only: s assms)
qed

lemma and_mask: "(w AND M) AND C = w AND C" if "M AND C = C" for w :: u64
  using that by (simp add: and.assoc)

text \<open>The three limbs \<open>setKey\<close> stores, and the two words of the pad.\<close>

lemma setKey_limbs:
  assumes "length key = 32"
  defines "t0 \<equiv> le_word (take 8 key) :: u64" and "t1 \<equiv> le_word (take 8 (drop 8 key)) :: u64"
  shows "pl_poly (poly_setKey key pl) = [limb0 t0 AND 0xffc0fffffff, limb1 t0 t1 AND 0xfffffc0ffff,
      limb2 t1 AND 0x00ffffffc0f, 0, 0, 0, le_word (take 8 (drop 16 key)), le_word (take 8 (drop 24 key))]"
proof -
  have k: "load_le 8 4 (take 32 key @ replicate (32 - length key) 0) =
      [t0, t1, le_word (take 8 (drop 16 key)), le_word (take 8 (drop 24 key))]"
    using assms(1) by (simp add: load_le_def upt_rec t0_def t1_def)
  have m: "M44 AND 0xffc0fffffff = 0xffc0fffffff" "M44 AND 0xfffffc0ffff = 0xfffffc0ffff"
    "M42 AND 0x00ffffffc0f = 0x00ffffffc0f" by (simp_all add: M44_def M42_def)
  show ?thesis
    unfolding poly_setKey_def k limb0_def limb1_def limb2_def by (simp add: and_mask [OF m(1)] and_mask [OF m(2)] and_mask [OF m(3)])
qed

lemma setKey_value:
  assumes "length key = 32"
  defines "t0 \<equiv> le_word (take 8 key) :: u64" and "t1 \<equiv> le_word (take 8 (drop 8 key)) :: u64"
  defines "r \<equiv> (limb0 t0 AND 0xffc0fffffff, limb1 t0 t1 AND 0xfffffc0ffff, limb2 t1 AND 0x00ffffffc0f)"
  shows "lval r = rfc_clamp key" and "key_ok r"
proof -
  have l0: "unat (limb0 t0) < 2 ^ 44" and l1: "unat (limb1 t0 t1) < 2 ^ 44"
    by (simp_all only: limb0_def limb1_def M44_mod) simp_all
  have "word_pair t0 t1 = le_num (take 16 key)"
    unfolding t0_def t1_def by (rule word_pair_block)
  then have v: "unat (limb0 t0) + 2 ^ 44 * unat (limb1 t0 t1) + 2 ^ 88 * unat (limb2 t1) = le_num (take 16 key)"
    by (simp only: limbs_value)
  have c: "0x0ffffffc0ffffffc0ffffffc0fffffff = (0xffc0fffffff + 2 ^ 44 * 0xfffffc0ffff + 2 ^ 88 * 0x00ffffffc0f :: nat)"
    by simp
  have u: "unat (limb0 t0 AND 0xffc0fffffff) = unat (limb0 t0) AND 0xffc0fffffff"
    "unat (limb1 t0 t1 AND 0xfffffc0ffff) = unat (limb1 t0 t1) AND 0xfffffc0ffff"
    "unat (limb2 t1 AND 0x00ffffffc0f) = unat (limb2 t1) AND 0x00ffffffc0f"
    by (simp_all add: unsigned_and_eq)
  show "lval r = rfc_clamp key"
    unfolding r_def lval.simps u rfc_clamp_def v [symmetric] c
    by (rule and_limbs [symmetric]) (use l0 l1 in simp_all)
  have a: "x AND y \<le> y" for x y :: nat by (simp add: and_nat_def nat_le_iff)
  show "key_ok r"
    using a [of "unat (limb0 t0)" "0xffc0fffffff"] a [of "unat (limb1 t0 t1)" "0xfffffc0ffff"]
      a [of "unat (limb2 t1)" "0x00ffffffc0f"]
    unfolding r_def key_ok.simps u by simp
qed

subsection \<open>Blocks\<close>

text \<open>One step of the evaluation on a whole block.\<close>

definition rfc_step :: "nat \<Rightarrow> nat \<Rightarrow> byte list \<Rightarrow> nat" where
  "rfc_step r a b = ((a + le_num b + 2 ^ 128) * r) mod prime1305"

lemma rfc_eval_absorb:
  "rfc_eval r a m = (if tail_of 16 m = [] then absorb 16 (rfc_step r) a m
     else ((absorb 16 (rfc_step r) a m + le_num (tail_of 16 m @ [1])) * r) mod prime1305)"
proof (induction r a m rule: rfc_eval.induct)
  case (1 r a m)
  show ?case
  proof (cases "16 \<le> length m")
    case False
    then show ?thesis
      by (cases "m = []") (simp_all add: rfc_eval.simps [of r a m] rfc_eval.simps [of r _ "[]"] tail_of_def)
  next
    case True
    have s: "((a + le_num (take 16 m @ [1])) * r) mod prime1305 = rfc_step r a (take 16 m)"
      using True by (simp add: rfc_step_def le_num_append add.assoc)
    have "tail_of 16 (take 16 m @ drop 16 m) = tail_of 16 (drop 16 m)"
      using True by (intro tail_of_append_full) simp_all
    then have t: "tail_of 16 m = tail_of 16 (drop 16 m)" by simp
    have "m \<noteq> []" using True by auto
    then show ?thesis
      using 1 True by (simp add: rfc_eval.simps [of r a m] absorb_step [of 16 m] s t)
  qed
qed

lemma mod_step: "((a mod p + b + c) * r) mod p = ((a + b + c) * r) mod p" for a b c p r :: nat
  by (intro mod_mult_cong mod_add_cong) simp_all

lemma poly_loop_spec:
  assumes "key_ok r" "hib = push_bit 40 1"
  shows "limbs_ok h \<Longrightarrow> 16 * n \<le> length m \<Longrightarrow>
    limbs_ok (poly_loop r hib n m h) \<and>
    lval (poly_loop r hib n m h) mod prime1305 =
      absorb 16 (rfc_step (lval r)) (lval h mod prime1305) (take (16 * n) m)"
proof (induction n arbitrary: m h)
  case (Suc n)
  let ?h = "poly_block r hib m h"
  have b: "limbs_ok ?h"
    "lval ?h mod prime1305 = rfc_step (lval r) (lval h mod prime1305) (take 16 m)"
    using poly_block_spec [OF Suc.prems(1) assms(1), of False m, folded assms(2)]
    unfolding rfc_step_def mod_step by (simp_all only: if_False assms(2))
  have t: "take (16 * Suc n) m = take 16 m @ take (16 * n) (drop 16 m)"
    using take_add [of 16 "16 * n" m] by simp
  have l: "16 \<le> length m" "16 * n \<le> length (drop 16 m)" using Suc.prems(2) by simp_all
  then have "absorb 16 (rfc_step (lval r)) (lval h mod prime1305) (take (16 * Suc n) m)
      = absorb 16 (rfc_step (lval r)) (lval ?h mod prime1305) (take (16 * n) (drop 16 m))"
    unfolding t b(2) by (subst absorb_step) simp_all
  then show ?case using Suc.IH [OF b(1) l(2)] by (simp only: poly_loop.simps)
qed simp

subsection \<open>The object holds the bytes added so far\<close>

text \<open>The words of the object: the clamped key, the value \<open>a\<close> in the accumulator, the pad.\<close>

definition poly_acc :: "byte list \<Rightarrow> nat \<Rightarrow> poly1305 \<Rightarrow> bool" where
  "poly_acc key a pl \<longleftrightarrow>
     (\<exists>r0 r1 r2 h0 h1 h2.
       pl_poly pl = [r0, r1, r2, h0, h1, h2, le_word (take 8 (drop 16 key)), le_word (take 8 (drop 24 key))] \<and>
       key_ok (r0, r1, r2) \<and> lval (r0, r1, r2) = rfc_clamp key \<and>
       limbs_ok (h0, h1, h2) \<and> lval (h0, h1, h2) mod prime1305 = a)"

definition poly_holds :: "byte list \<Rightarrow> byte list \<Rightarrow> poly1305 \<Rightarrow> bool" where
  "poly_holds key m pl \<longleftrightarrow> length (pl_buf pl) = 16 \<and> pl_bufPos pl = length m mod 16 \<and>
     take (length m mod 16) (pl_buf pl) = tail_of 16 m \<and>
     poly_acc key (absorb 16 (rfc_step (rfc_clamp key)) 0 m) pl"

lemma poly_acc_buf [simp]:
  "poly_acc key a (pl\<lparr>pl_buf := b\<rparr>) = poly_acc key a pl"
  "poly_acc key a (pl\<lparr>pl_bufPos := i\<rparr>) = poly_acc key a pl"
  by (simp_all add: poly_acc_def)

lemma setKey_holds:
  assumes "length key = 32" "length (pl_buf pl) = 16"
  shows "poly_holds key [] (poly_setKey key pl)"
proof -
  have "pl_buf (poly_setKey key pl) = pl_buf pl" "pl_bufPos (poly_setKey key pl) = 0"
    by (simp_all add: poly_setKey_def Let_def)
  then show ?thesis
    using assms setKey_value [OF assms(1)] unfolding poly_holds_def poly_acc_def setKey_limbs [OF assms(1)]
    by (simp add: tail_of_def)
qed

lemma blocks_keep [simp]:
  "pl_buf (poly_blocks d n f pl) = pl_buf pl" "pl_bufPos (poly_blocks d n f pl) = pl_bufPos pl"
  by (simp_all add: poly_blocks_def Let_def split: prod.split)

lemma blocks_acc:
  assumes "poly_acc key a pl" "16 * n \<le> length d"
  shows "poly_acc key (absorb 16 (rfc_step (rfc_clamp key)) a (take (16 * n) d)) (poly_blocks d n False pl)"
proof -
  obtain r0 r1 r2 h0 h1 h2 where
    p: "pl_poly pl = [r0, r1, r2, h0, h1, h2, le_word (take 8 (drop 16 key)), le_word (take 8 (drop 24 key))]"
    and k: "key_ok (r0, r1, r2)" "lval (r0, r1, r2) = rfc_clamp key"
    and h: "limbs_ok (h0, h1, h2)" "lval (h0, h1, h2) mod prime1305 = a"
    using assms(1) unfolding poly_acc_def by blast
  define hib :: u64 where "hib = push_bit 40 1"
  obtain k0 k1 k2 where l: "poly_loop (r0, r1, r2) hib n d (h0, h1, h2) = (k0, k1, k2)"
    using prod_cases3 by blast
  have "pl_poly (poly_blocks d n False pl) =
      [r0, r1, r2, k0, k1, k2, le_word (take 8 (drop 16 key)), le_word (take 8 (drop 24 key))]"
    using l unfolding poly_blocks_def Let_def p if_False hib_def [symmetric] by simp
  moreover note poly_loop_spec [OF k(1) hib_def h(1) assms(2), unfolded l k(2) h(2)]
  ultimately show ?thesis using k unfolding poly_acc_def by blast
qed

lemma final_block_acc:
  assumes "poly_acc key a pl"
  shows "poly_acc key (((a + le_num (take 16 d)) * rfc_clamp key) mod prime1305) (poly_blocks d 1 True pl)"
proof -
  obtain r0 r1 r2 h0 h1 h2 where
    p: "pl_poly pl = [r0, r1, r2, h0, h1, h2, le_word (take 8 (drop 16 key)), le_word (take 8 (drop 24 key))]"
    and k: "key_ok (r0, r1, r2)" "lval (r0, r1, r2) = rfc_clamp key"
    and h: "limbs_ok (h0, h1, h2)" "lval (h0, h1, h2) mod prime1305 = a"
    using assms(1) unfolding poly_acc_def by blast
  obtain k0 k1 k2 where l: "poly_block (r0, r1, r2) 0 d (h0, h1, h2) = (k0, k1, k2)"
    using prod_cases3 by blast
  have "pl_poly (poly_blocks d 1 True pl) =
      [r0, r1, r2, k0, k1, k2, le_word (take 8 (drop 16 key)), le_word (take 8 (drop 24 key))]"
    using l unfolding poly_blocks_def Let_def p if_True by simp
  moreover have "limbs_ok (k0, k1, k2)"
    "lval (k0, k1, k2) mod prime1305 = ((a + le_num (take 16 d)) * rfc_clamp key) mod prime1305"
    using poly_block_spec [OF h(1) k(1), of True d] mod_step [of "lval (h0, h1, h2)" prime1305 "le_num (take 16 d)" 0]
    unfolding if_True l k(2) h(2) by simp_all
  ultimately show ?thesis using k unfolding poly_acc_def by blast
qed

lemma tag_acc:
  assumes "poly_acc key a pl"
    and "poly_pad (pl_poly pl ! 6) (pl_poly pl ! 7)
      (poly_select (poly_carry (pl_poly pl ! 3, pl_poly pl ! 4, pl_poly pl ! 5))) = (w0, w1)"
  shows "word_pair w0 w1 = (a + le_num (take 16 (drop 16 key))) mod 2 ^ 128"
proof -
  obtain r0 r1 r2 h0 h1 h2 where
    p: "pl_poly pl = [r0, r1, r2, h0, h1, h2, le_word (take 8 (drop 16 key)), le_word (take 8 (drop 24 key))]"
    and h: "limbs_ok (h0, h1, h2)" "lval (h0, h1, h2) mod prime1305 = a"
    using assms(1) unfolding poly_acc_def by blast
  have s: "poly_pad (le_word (take 8 (drop 16 key))) (le_word (take 8 (drop 24 key)))
      (poly_select (poly_carry (h0, h1, h2))) = (w0, w1)"
    using assms(2) unfolding p by simp
  show ?thesis
    using poly_tag [OF h(1) s] word_pair_block [of "drop 16 key"] unfolding h(2) by simp
qed

lemma poly_rest_nil: "poly_rest [] pl = pl"
  by (simp add: poly_rest_def)

lemma rest_holds:
  assumes "poly_holds key m pl" "16 dvd length m"
  shows "poly_holds key (m @ d) (poly_rest d pl)"
proof -
  let ?n = "length d div 16" and ?x = "take (length d mod 16) (drop (length d div 16 * 16) d)"
  define pl1 where "pl1 = (if ?n \<noteq> 0 then poly_blocks d ?n False pl else pl)"
  have h: "length (pl_buf pl) = 16" "pl_bufPos pl = 0" "poly_acc key (absorb 16 (rfc_step (rfc_clamp key)) 0 m) pl"
    using assms by (simp_all add: poly_holds_def)
  have l: "16 * ?n \<le> length d" by simp
  have "poly_acc key (absorb 16 (rfc_step (rfc_clamp key)) (absorb 16 (rfc_step (rfc_clamp key)) 0 m) (take (16 * ?n) d)) pl1"
    using blocks_acc [OF h(3) l] h(3) by (auto simp: pl1_def)
  then have a: "poly_acc key (absorb 16 (rfc_step (rfc_clamp key)) 0 (m @ d)) pl1"
    using assms(2) by (simp add: absorb_append absorb_body [of 16 _ _ d])
  have x: "?x = tail_of 16 d" by (simp add: tail_of_def mult.commute minus_mult_div_eq_mod [symmetric])
  have b: "pl_buf pl1 = pl_buf pl" "pl_bufPos pl1 = 0" by (simp_all add: pl1_def h)
  have r: "poly_rest d pl = pl1\<lparr>pl_buf := put_at 0 (tail_of 16 d) (pl_buf pl), pl_bufPos := length d mod 16\<rparr>"
    unfolding poly_rest_def Let_def pl1_def [symmetric] x by (simp add: b)
  have m: "length (m @ d) mod 16 = length d mod 16" using assms(2) by (auto simp: mod_add_left_eq [symmetric])
  have "poly_acc key (absorb 16 (rfc_step (rfc_clamp key)) 0 (m @ d)) (poly_rest d pl)"
    using a by (simp add: r)
  then show ?thesis
    using h(1) tail_of_append_full [OF assms(2), of d] unfolding poly_holds_def m
    by (simp add: r put_at_def)
qed

lemma add_holds:
  assumes "poly_holds key m pl"
  shows "poly_holds key (m @ d) (poly_add pl d)"
proof (cases "pl_bufPos pl = 0")
  case True
  then have "16 dvd length m" using assms by (auto simp: poly_holds_def)
  from rest_holds [OF assms this] show ?thesis using True by (simp add: poly_add_def)
next
  case False
  let ?u = "length m mod 16"
  define n where "n = min (16 - ?u) (length d)"
  define pl1 where "pl1 = pl\<lparr>pl_buf := put_at ?u (take n d) (pl_buf pl), pl_bufPos := ?u + n\<rparr>"
  have h: "length (pl_buf pl) = 16" "pl_bufPos pl = ?u" "take ?u (pl_buf pl) = tail_of 16 m"
    and a: "poly_acc key (absorb 16 (rfc_step (rfc_clamp key)) 0 m) pl"
    using assms by (simp_all add: poly_holds_def)
  have n: "?u + n \<le> 16" "length (take n d) = n" by (simp_all add: n_def)
  have a1: "poly_acc key (absorb 16 (rfc_step (rfc_clamp key)) 0 m) pl1"
    using a by (simp add: pl1_def)
  show ?thesis
  proof (cases "?u + n = 16")
    case True
    let ?b = "tail_of 16 m @ take n d"
    have b: "pl_buf pl1 = ?b"
      using h(1,3) True n(2) by (simp add: pl1_def put_at_to_end)
    have lb: "length ?b = 16" using True n(2) by simp
    have "absorb 16 (rfc_step (rfc_clamp key)) (absorb 16 (rfc_step (rfc_clamp key)) 0 m) (take (16 * 1) ?b)
        = absorb 16 (rfc_step (rfc_clamp key)) 0 (m @ take n d)"
      using absorb_block [OF _ lb, of "rfc_step (rfc_clamp key)" 0] lb
      by (simp only: mult_1_right take_all order_refl absorb_one zero_less_numeral)
    moreover have d16: "16 dvd length (m @ take n d)"
      using True n(2) by (auto simp: dvd_eq_mod_eq_0 mod_add_left_eq [symmetric])
    moreover define pl2 where "pl2 = poly_blocks ?b 1 False pl1\<lparr>pl_bufPos := 0\<rparr>"
    ultimately have "poly_holds key (m @ take n d) pl2"
      using blocks_acc [OF a1, of 1 ?b] lb b by (simp add: poly_holds_def tail_of_def)
    from rest_holds [OF this d16, of "drop n d"] have "poly_holds key (m @ d) (poly_rest (drop n d) pl2)" by simp
    moreover have "pl_bufPos pl1 = 16" using True by (simp add: pl1_def)
    then have "poly_add pl d = poly_rest (drop n d) pl2"
      using False h(2) unfolding poly_add_def h(2) n_def [symmetric] Let_def pl1_def [symmetric] pl2_def
      by (simp add: b)
    ultimately show ?thesis by simp
  next
    case False
    then have f: "n = length d" "?u + length d < 16" using n(1) by (auto simp: n_def)
    have "poly_add pl d = pl1"
      using \<open>pl_bufPos pl \<noteq> 0\<close> False n(1) f(1) h(1,2)
      by (simp add: poly_add_def n_def [symmetric] pl1_def poly_rest_nil)
    moreover have "absorb 16 (rfc_step (rfc_clamp key)) 0 (m @ d) = absorb 16 (rfc_step (rfc_clamp key)) 0 m"
      using f(2) by (simp add: absorb_append_short)
    moreover have "length (m @ d) mod 16 = ?u + length d" using f(2) by (metis length_append mod_add_left_eq mod_less)
    ultimately show ?thesis
      using a1 h f tail_of_append_short [OF f(2)] take_put_at_end [of ?u "pl_buf pl" d]
      by (simp add: poly_holds_def pl1_def)
  qed
qed

subsection \<open>The tag\<close>

lemma store_word_pair: "store_le 8 [w0, w1 :: u64] = num_bytes 16 (word_pair w0 w1)"
  using num_bytes_le_num [of "store_le 8 [w0, w1]"]
  by (simp add: store_le_def le_num_append le_num_le_bytes word_pair_def)

lemma finish_tag:
  assumes "poly_holds key m pl"
  shows "fst (poly_finish pl custom) = take (min custom 16) (rfc_poly1305 key m)"
    and "snd (poly_finish pl custom) = poly_clear (snd (poly_finish pl custom))"
proof -
  let ?u = "length m mod 16" and ?k = "rfc_clamp key"
  let ?h = "absorb 16 (rfc_step ?k) 0 m" and ?b = "tail_of 16 m @ 1 # replicate (16 - length m mod 16 - 1) 0"
  have h: "length (pl_buf pl) = 16" "pl_bufPos pl = ?u" "take ?u (pl_buf pl) = tail_of 16 m" "poly_acc key ?h pl"
    using assms by (simp_all add: poly_holds_def)
  define pl1 where "pl1 = (if ?u \<noteq> 0 then poly_blocks ?b 1 True (pl\<lparr>pl_buf := ?b\<rparr>) else pl)"
  have "length (1 # replicate (16 - ?u - 1) (0 :: byte)) = 16 - ?u" "?u < 16"
    using mod_less_divisor [of 16 "length m"] by (simp_all del: mod_less_divisor)
  then have b: "put_at ?u (1 # replicate (16 - ?u - 1) 0) (pl_buf pl) = ?b"
    using put_at_to_end [of ?u "1 # replicate (16 - ?u - 1) 0" "pl_buf pl"] h(1,3) by simp
  have "le_num (take 16 ?b) = le_num (tail_of 16 m @ [1])"
    using \<open>?u < 16\<close> by (simp add: le_num_append)
  then have a: "poly_acc key (rfc_eval ?k 0 m) pl1"
    using h(2,4) final_block_acc [of key ?h "pl\<lparr>pl_buf := ?b\<rparr>" ?b]
    unfolding rfc_eval_absorb pl1_def by (auto simp: length_0_conv [symmetric] simp del: length_0_conv)
  obtain w0 w1 where w: "poly_pad (pl_poly pl1 ! 6) (pl_poly pl1 ! 7)
      (poly_select (poly_carry (pl_poly pl1 ! 3, pl_poly pl1 ! 4, pl_poly pl1 ! 5))) = (w0, w1)"
    by fastforce
  have "word_pair w0 w1 = (rfc_eval ?k 0 m + le_num (take 16 (drop 16 key))) mod 256 ^ 16"
    using tag_acc [OF a w] by simp
  then have t: "store_le 8 [w0, w1] = rfc_poly1305 key m"
    by (simp only: store_word_pair rfc_poly1305_def num_bytes_mod)
  have f: "poly_finish pl custom = (take (min custom 16) (store_le 8 [w0, w1]), poly_clear pl1)"
    unfolding poly_finish_def h(2) b pl1_def [symmetric] unfolding Let_def w by simp
  show "fst (poly_finish pl custom) = take (min custom 16) (rfc_poly1305 key m)"
    unfolding f t by simp
  show "snd (poly_finish pl custom) = poly_clear (snd (poly_finish pl custom))"
    unfolding f by (simp add: poly_clear_def)
qed

lemma poly_pieces: "poly_holds key m pl \<Longrightarrow> poly_holds key (m @ concat ps) (fold (\<lambda>d pl. poly_add pl d) ps pl)"
proof (induction ps arbitrary: m pl)
  case (Cons d ps)
  from Cons.IH [OF add_holds [OF Cons.prems, of d]] show ?case by simp
qed simp

subsection \<open>Properties\<close>

text \<open>C10. The tag is that of RFC 8439: whatever state the object was in, after \<open>setKey\<close> with 32 bytes and a message
added in any pieces, \<open>finish\<close> gives the first bytes of the 16-byte Poly1305 tag of the whole message.\<close>

theorem poly1305_correct:
  assumes "length key = 32" "length (pl_buf pl) = 16"
  shows "fst (poly_finish (fold (\<lambda>d pl. poly_add pl d) pieces (poly_setKey key pl)) custom) =
     take (min custom 16) (rfc_poly1305 key (concat pieces))"
  using finish_tag(1) [OF poly_pieces [OF setKey_holds [OF assms]]] by simp

theorem poly1305_correct_witness:
  "fst (poly_finish (fold (\<lambda>d pl. poly_add pl d) [[1, 2], [], [3]] (poly_setKey (replicate 32 7) poly_new)) 16) =
     take 16 (rfc_poly1305 (replicate 32 7) [1, 2, 3])"
  using poly1305_correct [of "replicate 32 7" poly_new "[[1, 2], [], [3]]" 16]
  by (simp add: poly_new_def)

lemma rfc_eval_zero: "rfc_eval 0 0 m = 0"
  by (induction "length m" arbitrary: m rule: less_induct) (subst rfc_eval.simps, auto)

lemma clear_holds: "poly_holds (replicate 32 0) [] (poly_clear pl)"
proof -
  have "pl_poly (poly_clear pl) = [0, 0, 0, 0, 0, 0, 0, 0]" by (simp add: poly_clear_def numeral_eq_Suc)
  moreover have "rfc_clamp (replicate 32 0) = 0" by (simp add: rfc_clamp_def)
  moreover have "(le_word (replicate 8 0) :: u64) = 0" by (simp add: numeral_eq_Suc)
  ultimately show ?thesis
    unfolding poly_holds_def poly_acc_def by (simp add: tail_of_def) (simp add: poly_clear_def)
qed

text \<open>A key serves one message: once \<open>finish\<close> has given a tag, further messages without a new \<open>setKey\<close> get the
tag of sixteen zero bytes, whatever they contain.\<close>

theorem poly1305_key_once:
  "fst (poly_finish (fold (\<lambda>d pl. poly_add pl d) pieces (snd (poly_finish pl custom))) 16) = replicate 16 0"
proof -
  have c: "snd (poly_finish pl custom) = poly_clear (snd (poly_finish pl custom))"
    by (simp add: poly_finish_def poly_clear_def Let_def split: prod.split)
  have z: "num_bytes 16 0 = replicate 16 0" by (simp add: num_bytes_def map_replicate_const)
  show ?thesis
    using finish_tag(1) [OF poly_pieces [OF clear_holds], of pieces "snd (poly_finish pl custom)" 16]
    unfolding c [symmetric] by (simp add: rfc_poly1305_def rfc_clamp_def rfc_eval_zero z)
qed

end
