(* ===== verification/ChaCha.thy ===== *)
theory ChaCha
  imports Endian
begin

section \<open>The ChaCha stream cipher\<close>

text \<open>
  Models \<open>source/core/crypto/src/impl/chaCha.cpp\<close>: the quarter round, \<open>hchacha\<close>,
  \<open>chacha_x8\<close> (eight blocks of key stream at a time, with a 64-bit block counter in words
  12 and 13 of the state), and the object with \<open>setKey\<close>, \<open>setIv\<close>, \<open>cipher\<close>, \<open>seek\<close> and
  \<open>clear\<close>. The object is proved to xor its input with the key stream of RFC 8439, read as one
  stream across calls, and \<open>seek\<close> to move in that stream.
\<close>

subsection \<open>Rounds\<close>

text \<open>\<open>rotl<ROT>\<close> on 32 bits.\<close>

definition rotl :: "nat \<Rightarrow> u32 \<Rightarrow> u32" where
  "rotl n x = push_bit n x OR drop_bit (32 - n) x"

definition quarter :: "nat \<Rightarrow> nat \<Rightarrow> nat \<Rightarrow> nat \<Rightarrow> u32 list \<Rightarrow> u32 list" where
  "quarter i j k l x0 =
     (let a = x0 ! i; b = x0 ! j; c = x0 ! k; d = x0 ! l;
          a = a + b; d = d XOR a; d = rotl 16 d;
          c = c + d; b = b XOR c; b = rotl 12 b;
          a = a + b; d = d XOR a; d = rotl 8 d;
          c = c + d; b = b XOR c; b = rotl 7 b
      in x0[i := a, j := b, k := c, l := d])"

definition double_round :: "u32 list \<Rightarrow> u32 list" where
  "double_round x =
     quarter 3 4 9 14 (quarter 2 7 8 13 (quarter 1 6 11 12 (quarter 0 5 10 15
       (quarter 3 7 11 15 (quarter 2 6 10 14 (quarter 1 5 9 13 (quarter 0 4 8 12 x)))))))"

definition chacha_rounds :: "nat \<Rightarrow> u32 list \<Rightarrow> u32 list" where
  "chacha_rounds rounds x = (double_round ^^ (rounds div 2)) x"

definition hchacha :: "u32 list \<Rightarrow> nat \<Rightarrow> u32 list" where
  "hchacha input rounds =
     (let x = chacha_rounds rounds input
      in [x ! 0, x ! 1, x ! 2, x ! 3, x ! 12, x ! 13, x ! 14, x ! 15])"

text \<open>One block of key stream, and the advance of the counter after it.\<close>

definition chacha_block :: "nat \<Rightarrow> u32 list \<Rightarrow> byte list" where
  "chacha_block rounds input =
     (let x = chacha_rounds rounds input
      in store_le 4 (map (\<lambda>i. x ! i + input ! i) [0 ..< 16]))"

definition count_up :: "u32 list \<Rightarrow> u32 list" where
  "count_up input =
     (let input1 = input[12 := input ! 12 + 1]
      in input1[13 := input1 ! 13 + (if input1 ! 12 = 0 then 1 else 0)])"

fun chacha_blocks :: "nat \<Rightarrow> nat \<Rightarrow> u32 list \<Rightarrow> byte list \<times> u32 list" where
  "chacha_blocks rounds 0 input = ([], input)"
| "chacha_blocks rounds (Suc n) input =
     (case chacha_blocks rounds n (count_up input) of
        (out, input') \<Rightarrow> (chacha_block rounds input @ out, input'))"

definition chacha_x8 :: "nat \<Rightarrow> u32 list \<Rightarrow> byte list \<times> u32 list" where
  "chacha_x8 rounds input = chacha_blocks rounds 8 input"

subsection \<open>The object and its operations\<close>

record chacha =
  cc_rounds :: nat
  cc_key :: "u32 list"
  cc_keySize :: nat
  cc_state :: "u32 list"
  cc_buffer :: "byte list"
  cc_position :: nat

definition chacha_new :: "nat \<Rightarrow> chacha" where
  "chacha_new rounds =
     \<lparr>cc_rounds = rounds, cc_key = replicate 8 0, cc_keySize = 0, cc_state = replicate 16 0,
      cc_buffer = replicate (8 * 64) 0, cc_position = 0\<rparr>"

definition refill :: "chacha \<Rightarrow> chacha" where
  "refill cc =
     (case chacha_x8 (cc_rounds cc) (cc_state cc) of
        (buf, st) \<Rightarrow> cc\<lparr>cc_buffer := buf, cc_state := st\<rparr>)"

definition chacha_TAU :: "u32 list" where
  "chacha_TAU = [0x61707865, 0x3120646e, 0x79622d36, 0x6b206574]"

definition chacha_SIGMA :: "u32 list" where
  "chacha_SIGMA = [0x61707865, 0x3320646e, 0x79622d32, 0x6b206574]"

text \<open>The first part of \<open>setIv\<close>: constants and key, counter and nonce cleared.\<close>

definition key_state :: "chacha \<Rightarrow> u32 list" where
  "key_state cc =
     (if cc_keySize cc = 4
      then chacha_TAU @ take 4 (cc_key cc) @ take 4 (cc_key cc) @ [0, 0, 0, 0]
      else chacha_SIGMA @ take 4 (cc_key cc) @ take 4 (drop 4 (cc_key cc)) @ [0, 0, 0, 0])"

definition iv_state :: "nat \<Rightarrow> u32 list \<Rightarrow> byte list \<Rightarrow> u32 list" where
  "iv_state rounds st iv =
     (let iv4 = load_le 4 6 iv in
      if length iv = 0 then st[14 := 0, 15 := 0]
      else if length iv = 8 then st[14 := iv4 ! 0, 15 := iv4 ! 1]
      else if length iv = 12 then st[13 := iv4 ! 0, 14 := iv4 ! 1, 15 := iv4 ! 2]
      else if length iv = 24 then
        (let st1 = st[12 := iv4 ! 0, 13 := iv4 ! 1, 14 := iv4 ! 2, 15 := iv4 ! 3];
             hc = hchacha st1 rounds
         in st1[4 := hc ! 0, 5 := hc ! 1, 6 := hc ! 2, 7 := hc ! 3, 8 := hc ! 4, 9 := hc ! 5,
                10 := hc ! 6, 11 := hc ! 7, 12 := 0, 13 := 0, 14 := iv4 ! 4, 15 := iv4 ! 5])
      else st)"

definition chacha_setIv :: "byte list \<Rightarrow> chacha \<Rightarrow> chacha" where
  "chacha_setIv iv cc =
     refill (cc\<lparr>cc_state := iv_state (cc_rounds cc) (key_state cc) iv\<rparr>)\<lparr>cc_position := 0\<rparr>"

definition chacha_setKey :: "byte list \<Rightarrow> chacha \<Rightarrow> chacha" where
  "chacha_setKey key cc =
     chacha_setIv []
       (cc\<lparr>cc_keySize := length key div 4,
           cc_key := load_le 4 8 (take 32 key @ replicate (32 - length key) 0)\<rparr>)"

text \<open>
  \<open>cipher\<close>: the input is the caller's bytes, or nothing for the bare key stream. The loop takes
  what is left in the buffer and refills it, the rest of the input leaves a position in the buffer.
\<close>

definition cipher_out :: "byte list option \<Rightarrow> byte list \<Rightarrow> byte list" where
  "cipher_out inp ks = (case inp of Some xs \<Rightarrow> map2 (XOR) xs ks | None \<Rightarrow> ks)"

function cipher_loop :: "byte list option \<Rightarrow> nat \<Rightarrow> chacha \<Rightarrow> byte list \<times> chacha" where
  "cipher_loop inp len cc =
     (let available = 8 * 64 - cc_position cc in
      if available \<le> len then
        (case cipher_loop (map_option (drop available) inp) (len - available) (refill cc\<lparr>cc_position := 0\<rparr>) of
           (out, cc') \<Rightarrow>
             (cipher_out (map_option (take available) inp)
                (take available (drop (cc_position cc) (cc_buffer cc))) @ out, cc'))
      else (cipher_out (map_option (take len) inp) (take len (drop (cc_position cc) (cc_buffer cc))),
            cc\<lparr>cc_position := cc_position cc + len\<rparr>))"
  by pat_completeness auto
termination
  by (relation "measure (\<lambda>(inp, len, cc). len + (if cc_position cc = 0 then 0 else 1))") auto

declare cipher_loop.simps [simp del]

definition chacha_cipher :: "byte list \<Rightarrow> chacha \<Rightarrow> byte list \<times> chacha" where
  "chacha_cipher inp cc = cipher_loop (Some inp) (length inp) cc"

definition chacha_keystream :: "nat \<Rightarrow> chacha \<Rightarrow> byte list \<times> chacha" where
  "chacha_keystream len cc = cipher_loop None len cc"

text \<open>\<open>seek\<close>: the low half of the block number replaces word 12, the high half is added to word 13.\<close>

definition chacha_seek :: "u64 \<Rightarrow> chacha \<Rightarrow> chacha" where
  "chacha_seek offset cc =
     (let counter = offset div 64;
          st = cc_state cc;
          st1 = st[12 := ucast counter];
          st2 = st1[13 := st1 ! 13 + ucast (drop_bit 32 counter)]
      in refill (cc\<lparr>cc_state := st2\<rparr>)\<lparr>cc_position := unat offset mod 64\<rparr>)"

definition chacha_clear :: "chacha \<Rightarrow> chacha" where
  "chacha_clear cc =
     cc\<lparr>cc_key := replicate 8 0, cc_keySize := 0, cc_state := replicate 16 0,
        cc_buffer := replicate (8 * 64) 0, cc_position := 0\<rparr>"

subsection \<open>Reference: the key stream\<close>

text \<open>Block \<open>j\<close> of the stream that starts in state \<open>st\<close>, and byte \<open>p\<close> of it.\<close>

definition stream_block :: "nat \<Rightarrow> u32 list \<Rightarrow> nat \<Rightarrow> byte list" where
  "stream_block rounds st j = chacha_block rounds ((count_up ^^ j) st)"

definition stream_byte :: "nat \<Rightarrow> u32 list \<Rightarrow> nat \<Rightarrow> byte" where
  "stream_byte rounds st p = stream_block rounds st (p div 64) ! (p mod 64)"

definition stream_bytes :: "nat \<Rightarrow> u32 list \<Rightarrow> nat \<Rightarrow> nat \<Rightarrow> byte list" where
  "stream_bytes rounds st p n = map (stream_byte rounds st) [p ..< p + n]"

text \<open>The object stands at byte \<open>p\<close> of the stream from \<open>st\<close>.\<close>

definition stands_at :: "u32 list \<Rightarrow> nat \<Rightarrow> chacha \<Rightarrow> bool" where
  "stands_at st p cc \<longleftrightarrow>
     (\<exists>b. cc_buffer cc = stream_bytes (cc_rounds cc) st (64 * b) 512 \<and>
          cc_state cc = (count_up ^^ (b + 8)) st \<and>
          p = 64 * b + cc_position cc \<and> cc_position cc < 512)"

lemma length_stream_block [simp]: "length (stream_block r st j) = 64"
  by (simp add: stream_block_def chacha_block_def Let_def)

lemma length_stream_bytes [simp]: "length (stream_bytes r st p n) = n"
  by (simp add: stream_bytes_def)

lemma stream_bytes_append: "stream_bytes r st p m @ stream_bytes r st (p + m) n = stream_bytes r st p (m + n)"
  using upt_add_eq_append [of p "p + m" n]
  by (simp add: stream_bytes_def add.assoc flip: map_append)

lemma stream_bytes_block: "stream_bytes r st (64 * j) 64 = stream_block r st j"
proof (rule nth_equalityI)
  fix i assume "i < length (stream_bytes r st (64 * j) 64)"
  then have "i < 64" by simp
  then show "stream_bytes r st (64 * j) 64 ! i = stream_block r st j ! i"
    by (simp add: stream_bytes_def stream_byte_def)
qed simp

lemma stream_bytes_part:
  "i + m \<le> n \<Longrightarrow> take m (drop i (stream_bytes r st p n)) = stream_bytes r st (p + i) m"
  by (simp add: stream_bytes_def drop_map take_map drop_upt take_upt add.assoc)

lemma blocks_stream:
  "chacha_blocks r n ((count_up ^^ b) st) = (stream_bytes r st (64 * b) (64 * n), (count_up ^^ (b + n)) st)"
proof (induction n arbitrary: b)
  case 0
  then show ?case by (simp add: stream_bytes_def)
next
  case (Suc n)
  have "chacha_block r ((count_up ^^ b) st) = stream_bytes r st (64 * b) 64"
    by (simp add: stream_bytes_block stream_block_def)
  moreover have "count_up ((count_up ^^ b) st) = (count_up ^^ Suc b) st" by simp
  ultimately show ?case
    using Suc.IH [of "Suc b"] stream_bytes_append [of r st "64 * b" 64 "64 * n"]
    by (simp only: chacha_blocks.simps) (simp add: algebra_simps)
qed

lemma refill_stream:
  assumes "cc_state cc = (count_up ^^ b) st"
  shows "stands_at st (64 * b) (refill cc\<lparr>cc_position := 0\<rparr>)"
    and "refill cc = cc\<lparr>cc_buffer := stream_bytes (cc_rounds cc) st (64 * b) 512, cc_state := (count_up ^^ (b + 8)) st\<rparr>"
  using assms blocks_stream [of "cc_rounds cc" 8 b st]
  by (auto simp: stands_at_def refill_def chacha_x8_def)

text \<open>The loop of \<open>cipher\<close> reads the stream from where the object stands.\<close>

lemma cipher_loop_stream:
  assumes "stands_at st p cc" "\<And>xs. inp = Some xs \<Longrightarrow> length xs = len"
  shows "fst (cipher_loop inp len cc) = cipher_out inp (stream_bytes (cc_rounds cc) st p len) \<and>
    stands_at st (p + len) (snd (cipher_loop inp len cc)) \<and>
    cc_rounds (snd (cipher_loop inp len cc)) = cc_rounds cc"
  using assms
proof (induction inp len cc arbitrary: p rule: cipher_loop.induct)
  case (1 inp len cc)
  obtain b where b: "cc_buffer cc = stream_bytes (cc_rounds cc) st (64 * b) 512"
    "cc_state cc = (count_up ^^ (b + 8)) st" "p = 64 * b + cc_position cc" "cc_position cc < 512"
    using "1.prems"(1) by (auto simp: stands_at_def)
  let ?a = "512 - cc_position cc"
  show ?case
  proof (cases "?a \<le> len")
    case False
    then have "take len (drop (cc_position cc) (cc_buffer cc)) = stream_bytes (cc_rounds cc) st p len"
      by (simp add: b stream_bytes_part)
    moreover have "map_option (take len) inp = inp"
      using "1.prems"(2) by (cases inp) auto
    ultimately show ?thesis
      using False b by (subst (1 2 3) cipher_loop.simps) (auto simp: stands_at_def)
  next
    case True
    let ?cc = "refill cc\<lparr>cc_position := 0\<rparr>"
    have p: "p + ?a = 64 * (b + 8)" using b by simp
    have s: "stands_at st (p + ?a) ?cc" unfolding p by (rule refill_stream(1) [OF b(2)])
    have r: "cc_rounds ?cc = cc_rounds cc" by (simp add: refill_stream(2) [OF b(2)])
    have o: "length xs = len - ?a" if "map_option (drop ?a) inp = Some xs" for xs
      using that "1.prems"(2) by auto
    obtain out cc' where e: "cipher_loop (map_option (drop ?a) inp) (len - ?a) ?cc = (out, cc')" by fastforce
    have ih: "out = cipher_out (map_option (drop ?a) inp) (stream_bytes (cc_rounds cc) st (p + ?a) (len - ?a))"
      "stands_at st (p + len) cc'" "cc_rounds cc' = cc_rounds cc"
      using "1.IH" [of ?a "p + ?a", OF _ True s o] True e r by simp_all
    have u: "cipher_loop inp len cc =
        (cipher_out (map_option (take ?a) inp) (take ?a (drop (cc_position cc) (cc_buffer cc))) @ out, cc')"
      using True e by (subst cipher_loop.simps) (simp add: Let_def)
    have t: "take ?a (drop (cc_position cc) (cc_buffer cc)) = stream_bytes (cc_rounds cc) st p ?a"
      using b stream_bytes_part [of "cc_position cc" ?a 512 "cc_rounds cc" st "64 * b"] by simp
    have "cipher_out (map_option (take ?a) inp) (stream_bytes (cc_rounds cc) st p ?a) @ out
        = cipher_out inp (stream_bytes (cc_rounds cc) st p len)"
    proof (cases inp)
      case None
      then show ?thesis
        using ih(1) stream_bytes_append [of "cc_rounds cc" st p ?a "len - ?a"] True
        by (simp add: cipher_out_def)
    next
      case (Some xs)
      then have l: "length (take ?a xs) = ?a" using "1.prems"(2) True by simp
      have "map2 (XOR) (take ?a xs @ drop ?a xs)
          (stream_bytes (cc_rounds cc) st p ?a @ stream_bytes (cc_rounds cc) st (p + ?a) (len - ?a))
        = map2 (XOR) (take ?a xs) (stream_bytes (cc_rounds cc) st p ?a) @
          map2 (XOR) (drop ?a xs) (stream_bytes (cc_rounds cc) st (p + ?a) (len - ?a))"
        using l by (subst zip_append) simp_all
      then show ?thesis
        using ih(1) Some stream_bytes_append [of "cc_rounds cc" st p ?a "len - ?a"] True
        by (simp add: cipher_out_def)
    qed
    then show ?thesis using ih u t by simp
  qed
qed

subsection \<open>The counter\<close>

lemma unat_numeral_64: "unat (64 :: u64) = 64"
  by simp

lemma update_twice: "i \<noteq> j \<Longrightarrow> xs[i := a, j := b, i := c, j := d] = xs[i := c, j := d]"
  by (metis list_update_swap list_update_overwrite)

lemma two_32_zero: "of_nat n * 4294967296 = (0 :: u32)"
proof -
  have "(4294967296 :: u32) = 0" by simp
  then show ?thesis by (simp only: mult_zero_right)
qed

lemma div_Suc_if: "Suc j div n = j div n + (if Suc j mod n = 0 then 1 else 0)"
  by (simp add: div_Suc)

lemma of_nat_wraps: "(of_nat j + 1 :: u32) = 0 \<longleftrightarrow> Suc j mod 2 ^ 32 = 0"
proof -
  have "(of_nat (Suc j) :: u32) = 0 \<longleftrightarrow> 2 ^ LENGTH(32) dvd Suc j"
    by (rule word_of_nat_eq_0_iff)
  then show ?thesis
    by (simp only: dvd_eq_mod_eq_0 len_num0 of_nat_Suc add.commute [of 1]) simp
qed

lemma count_up_pow:
  assumes "length st = 16" "st ! 12 = 0"
  shows "(count_up ^^ j) st = st[12 := of_nat j, 13 := st ! 13 + of_nat (j div 2 ^ 32)]"
proof (induction j)
  case 0
  then show ?case using list_update_id [of st 12] list_update_id [of st 13] assms by simp
next
  case (Suc j)
  have z: "(of_nat j + 1 :: u32) = 0 \<longleftrightarrow> Suc j mod 2 ^ 32 = 0"
    by (rule of_nat_wraps)
  have d: "Suc j div 2 ^ 32 = j div 2 ^ 32 + (if Suc j mod 2 ^ 32 = 0 then 1 else 0)"
    by (rule div_Suc_if)
  have "(count_up ^^ Suc j) st = count_up (st[12 := of_nat j, 13 := st ! 13 + of_nat (j div 2 ^ 32)])"
    by (simp only: funpow.simps comp_apply Suc.IH)
  also have "\<dots> = st[12 := of_nat j + 1,
      13 := st ! 13 + of_nat (j div 2 ^ 32) + (if (of_nat j + 1 :: u32) = 0 then 1 else 0)]"
    using assms(1) by (simp add: count_up_def Let_def list_update_swap)
  also have "\<dots> = st[12 := of_nat (Suc j), 13 := st ! 13 + of_nat (Suc j div 2 ^ 32)]"
    unfolding z d by (simp add: ac_simps)
  finally show ?case .
qed

text \<open>The object just after \<open>setIv\<close> stands at the beginning of the stream of its state.\<close>

definition start_state :: "chacha \<Rightarrow> byte list \<Rightarrow> u32 list" where
  "start_state cc iv = iv_state (cc_rounds cc) (key_state cc) iv"

lemma setIv_stands: "stands_at (start_state cc iv) 0 (chacha_setIv iv cc)"
  using refill_stream(1) [of "cc\<lparr>cc_state := start_state cc iv\<rparr>" 0 "start_state cc iv"]
  by (simp add: chacha_setIv_def start_state_def)

lemma setIv_keeps [simp]:
  "cc_rounds (chacha_setIv iv cc) = cc_rounds cc" "cc_key (chacha_setIv iv cc) = cc_key cc"
  "cc_keySize (chacha_setIv iv cc) = cc_keySize cc"
  by (simp_all add: chacha_setIv_def refill_def split: prod.splits)

lemma setKey_keeps [simp]:
  "cc_rounds (chacha_setKey key cc) = cc_rounds cc"
  "cc_key (chacha_setKey key cc) = load_le 4 8 (take 32 key @ replicate (32 - length key) 0)"
  "cc_keySize (chacha_setKey key cc) = length key div 4"
  by (simp_all add: chacha_setKey_def)

text \<open>The state of RFC 8439: constants, key, a 32-bit block counter, nonce.\<close>

definition rfc_state :: "byte list \<Rightarrow> nat \<Rightarrow> byte list \<Rightarrow> u32 list" where
  "rfc_state key n nonce = chacha_SIGMA @ load_le 4 8 key @ [of_nat n] @ load_le 4 3 nonce"

definition rfc_keystream :: "nat \<Rightarrow> byte list \<Rightarrow> byte list \<Rightarrow> nat \<Rightarrow> byte list" where
  "rfc_keystream rounds key nonce n =
     take n (concat (map (\<lambda>j. chacha_block rounds (rfc_state key j nonce)) [0 ..< (n + 63) div 64]))"

lemma load_le_split:
  "load_le n (k + l) bs = load_le n k bs @ load_le n l (drop (n * k) bs)"
  by (intro nth_equalityI) (auto simp: nth_append nth_load_le algebra_simps)

lemma start_state_rfc:
  assumes "length key = 32" "length nonce = 12"
  shows "start_state (chacha_setKey key cc) nonce = rfc_state key 0 nonce"
  using assms
  by (simp add: start_state_def iv_state_def key_state_def rfc_state_def Let_def chacha_SIGMA_def
      load_le_def upt_rec)

lemma concat_stream_blocks:
  "concat (map (stream_block r st) [0 ..< k]) = stream_bytes r st 0 (64 * k)"
proof (induction k)
  case 0
  then show ?case by (simp add: stream_bytes_def)
next
  case (Suc k)
  then show ?case
    using stream_bytes_append [of r st 0 "64 * k" 64] stream_bytes_block [of r st k]
    by (simp add: add.commute)
qed

lemma rfc_block_stream:
  assumes "j < 2 ^ 32" "length key = 32"
  shows "chacha_block r (rfc_state key j nonce) = stream_block r (rfc_state key 0 nonce) j"
proof -
  let ?st = "rfc_state key 0 nonce"
  have l: "length ?st = 16" "?st ! 12 = 0" "rfc_state key j nonce = ?st[12 := of_nat j]"
    by (simp_all add: rfc_state_def chacha_SIGMA_def load_le_def upt_rec)
  have "j div 2 ^ 32 = 0" using assms(1) by simp
  then have "(count_up ^^ j) ?st = ?st[12 := of_nat j, 13 := ?st ! 13]"
    using count_up_pow [OF l(1,2), of j] by simp
  also have "\<dots> = ?st[12 := of_nat j]"
    using list_update_id [of ?st 13] list_update_swap [of 12 13 ?st] by simp
  finally show ?thesis by (simp add: stream_block_def l(3))
qed

lemma rfc_keystream_stream:
  assumes "n \<le> 2 ^ 38" "length key = 32"
  shows "rfc_keystream r key nonce n = stream_bytes r (rfc_state key 0 nonce) 0 n"
proof -
  let ?k = "(n + 63) div 64"
  have "n + 63 = 64 * ?k + (n + 63) mod 64" "(n + 63) mod 64 < 64" by simp_all
  then have "n \<le> 64 * ?k" by linarith
  moreover have "?k \<le> 2 ^ 32" using assms(1) div_le_mono [of "n + 63" "2 ^ 38 + 63" 64] by simp
  ultimately have k: "?k \<le> 2 ^ 32" "n \<le> 64 * ?k" by simp_all
  have "rfc_keystream r key nonce n = take n (concat (map (stream_block r (rfc_state key 0 nonce)) [0 ..< ?k]))"
    unfolding rfc_keystream_def
    by (intro arg_cong [where f = "\<lambda>x. take n (concat x)"] map_cong refl rfc_block_stream)
       (use k assms(2) in auto)
  also have "\<dots> = stream_bytes r (rfc_state key 0 nonce) 0 n"
    using k(2) stream_bytes_part [of 0 n "64 * ?k" r "rfc_state key 0 nonce" 0]
    by (simp add: concat_stream_blocks)
  finally show ?thesis .
qed

subsection \<open>Properties\<close>

text \<open>A message enciphered in pieces.\<close>

fun cipher_all :: "byte list list \<Rightarrow> chacha \<Rightarrow> byte list \<times> chacha" where
  "cipher_all [] cc = ([], cc)"
| "cipher_all (p # ps) cc =
     (case chacha_cipher p cc of (out, cc1) \<Rightarrow>
        case cipher_all ps cc1 of (outs, cc2) \<Rightarrow> (out @ outs, cc2))"

lemma cipher_stream:
  assumes "stands_at st p cc"
  shows "fst (chacha_cipher xs cc) = map2 (XOR) xs (stream_bytes (cc_rounds cc) st p (length xs))"
    and "stands_at st (p + length xs) (snd (chacha_cipher xs cc))"
    and "cc_rounds (snd (chacha_cipher xs cc)) = cc_rounds cc"
  using cipher_loop_stream [OF assms, of "Some xs" "length xs"]
  by (simp_all add: chacha_cipher_def cipher_out_def)

lemma cipher_all_stream:
  "stands_at st p cc \<Longrightarrow>
     fst (cipher_all ps cc) = map2 (XOR) (concat ps) (stream_bytes (cc_rounds cc) st p (length (concat ps))) \<and>
     stands_at st (p + length (concat ps)) (snd (cipher_all ps cc)) \<and>
     cc_rounds (snd (cipher_all ps cc)) = cc_rounds cc"
proof (induction ps arbitrary: p cc)
  case Nil
  then show ?case by simp
next
  case (Cons x ps)
  obtain out cc1 where c: "chacha_cipher x cc = (out, cc1)" by fastforce
  note s = cipher_stream [OF Cons.prems, of x]
  note ih = Cons.IH [OF s(2)]
  have "map2 (XOR) (x @ concat ps) (stream_bytes (cc_rounds cc) st p (length x) @
          stream_bytes (cc_rounds cc) st (p + length x) (length (concat ps)))
      = map2 (XOR) x (stream_bytes (cc_rounds cc) st p (length x)) @
        map2 (XOR) (concat ps) (stream_bytes (cc_rounds cc) st (p + length x) (length (concat ps)))"
    by (subst zip_append) simp_all
  moreover obtain outs cc2 where "cipher_all ps cc1 = (outs, cc2)" by fastforce
  ultimately show ?case
    using s ih c by (simp add: stream_bytes_append add.assoc)
qed

text \<open>C9. With a 32-byte key and a 12-byte nonce the cipher is that of RFC 8439, from block counter 0 on: a
message of up to 2^38 bytes, in whatever pieces, comes out xored with the key stream of the standard,
though the object generates eight blocks at a time and carries a 64-bit counter.\<close>

theorem chacha_is_rfc8439:
  assumes "length key = 32" "length nonce = 12" "length (concat pieces) \<le> 2 ^ 38"
  shows "fst (cipher_all pieces (chacha_setIv nonce (chacha_setKey key (chacha_new rounds)))) =
     map2 (XOR) (concat pieces) (rfc_keystream rounds key nonce (length (concat pieces)))"
proof -
  let ?cc = "chacha_setKey key (chacha_new rounds)"
  have r: "cc_rounds (chacha_setIv nonce ?cc) = rounds"
    by (simp add: chacha_new_def)
  show ?thesis
    using cipher_all_stream [OF setIv_stands, of pieces nonce ?cc]
    unfolding start_state_rfc [OF assms(1,2)] rfc_keystream_stream [OF assms(3,1)] r by blast
qed

theorem chacha_is_rfc8439_witness:
  "fst (cipher_all [[1, 2], [3]] (chacha_setIv (replicate 12 0) (chacha_setKey (replicate 32 0) (chacha_new 20)))) =
     map2 (XOR) [1, 2, 3] (rfc_keystream 20 (replicate 32 0) (replicate 12 0) 3)"
  using chacha_is_rfc8439 [of "replicate 32 0" "replicate 12 0" "[[1, 2], [3]]" 20]
  by (simp add: numeral_3_eq_3 del: cipher_all.simps)

text \<open>Deciphering is enciphering again: two objects set up the same way undo each other, whatever pieces the
plain text and the cipher text are cut into.\<close>

theorem chacha_round_trip:
  assumes "concat qs = fst (cipher_all ps (chacha_setIv nonce cc))"
  shows "fst (cipher_all qs (chacha_setIv nonce cc)) = concat ps"
proof -
  let ?ks = "stream_bytes (cc_rounds cc) (start_state cc nonce) 0 (length (concat ps))"
  have c: "concat qs = map2 (XOR) (concat ps) ?ks"
    using assms cipher_all_stream [OF setIv_stands, of ps nonce cc] by simp
  then have l: "length (concat qs) = length (concat ps)" by simp
  have "fst (cipher_all qs (chacha_setIv nonce cc)) = map2 (XOR) (concat qs) ?ks"
    using cipher_all_stream [OF setIv_stands, of qs nonce cc] l by simp
  also have "\<dots> = concat ps"
    unfolding c by (intro nth_equalityI) (simp_all add: xor.assoc)
  finally show ?thesis .
qed

theorem chacha_round_trip_witness:
  "fst (cipher_all [fst (cipher_all [[1, 2], [3]] (chacha_setIv [] (chacha_new 20)))] (chacha_setIv [] (chacha_new 20)))
     = [1, 2, 3]"
  using chacha_round_trip [of "[fst (cipher_all [[1, 2], [3]] (chacha_setIv [] (chacha_new 20)))]" "[[1, 2], [3]]" "[]" "chacha_new 20"]
  by simp

lemma seek_stands:
  assumes "stands_at st p cc" "length st = 16" "st ! 12 = 0"
    and "cc_state cc ! 13 = st ! 13 + of_nat c"
  shows "stands_at st (unat offset + 2 ^ 38 * c) (chacha_seek offset cc)"
proof -
  obtain k where k: "cc_state cc = (count_up ^^ k) st" using assms(1) by (auto simp: stands_at_def)
  let ?n = "unat offset div 64" and ?b = "unat offset div 64 + 2 ^ 32 * c"
  have lo: "(ucast (offset div 64) :: u32) = of_nat ?n"
    by (metis of_nat_unat unat_div unat_numeral_64)
  have hi: "(ucast (drop_bit 32 (offset div 64)) :: u32) = of_nat (?n div 2 ^ 32)"
    by (subst of_nat_unat [symmetric]) (simp only: unat_drop_bit_eq unat_div unat_numeral_64 drop_bit_eq_div [where 'a = nat])
  have d: "?b div 2 ^ 32 = ?n div 2 ^ 32 + c" by simp
  have "cc_state cc = st[12 := of_nat k, 13 := st ! 13 + of_nat c]"
    using assms(2,4) unfolding k count_up_pow [OF assms(2,3)] by simp
  then have "(cc_state cc)[12 := of_nat ?n, 13 := (cc_state cc)[12 := of_nat ?n] ! 13 + of_nat (?n div 2 ^ 32)]
      = st[12 := of_nat ?b, 13 := st ! 13 + of_nat (?b div 2 ^ 32)]"
    using assms(2) unfolding d by (simp add: update_twice ac_simps two_32_zero)
  also have "\<dots> = (count_up ^^ ?b) st" by (rule count_up_pow [OF assms(2,3), symmetric])
  finally have st: "(cc_state cc)[12 := of_nat ?n, 13 := (cc_state cc)[12 := of_nat ?n] ! 13 + of_nat (?n div 2 ^ 32)]
      = (count_up ^^ ?b) st" .
  let ?cc = "cc\<lparr>cc_state := (count_up ^^ ?b) st\<rparr>"
  have e: "chacha_seek offset cc = refill ?cc\<lparr>cc_position := unat offset mod 64\<rparr>"
    unfolding chacha_seek_def Let_def lo hi st ..
  have "unat offset + 2 ^ 38 * c = 64 * ?b + unat offset mod 64" by simp
  then show ?thesis
    using refill_stream(2) [of ?cc ?b st] unfolding e stands_at_def
    by (intro exI [of _ ?b]) simp
qed

text \<open>\<open>seek\<close> moves in the key stream: after a 32-byte key, a 12-byte nonce and any pieces of a message of
less than 2^38 - 512 bytes in all, \<open>seek\<close> to any offset makes the object continue with the stream byte
at exactly that offset, whatever it had enciphered before.\<close>

theorem seek_moves:
  assumes "length key = 32" "length nonce = 12" "length (concat ps) + 512 < 2 ^ 38"
  shows "fst (chacha_cipher xs (chacha_seek offset
       (snd (cipher_all ps (chacha_setIv nonce (chacha_setKey key (chacha_new rounds))))))) =
     map2 (XOR) xs (stream_bytes rounds (rfc_state key 0 nonce) (unat offset) (length xs))"
proof -
  let ?c0 = "chacha_setKey key (chacha_new rounds)"
  let ?st = "rfc_state key 0 nonce" and ?cc = "snd (cipher_all ps (chacha_setIv nonce ?c0))"
  have l: "length ?st = 16" "?st ! 12 = 0"
    by (simp_all add: rfc_state_def chacha_SIGMA_def load_le_def upt_rec)
  have s: "stands_at ?st (length (concat ps)) ?cc" and r: "cc_rounds ?cc = rounds"
    using cipher_all_stream [OF setIv_stands, of ps nonce ?c0]
    unfolding start_state_rfc [OF assms(1,2)] by (simp_all add: chacha_new_def)
  from s obtain b where b: "cc_state ?cc = (count_up ^^ (b + 8)) ?st" "64 * b \<le> length (concat ps)"
    by (auto simp: stands_at_def)
  have "b + 8 < 2 ^ 32" using b(2) assms(3) by simp
  then have "cc_state ?cc ! 13 = ?st ! 13 + of_nat 0"
    using l(1) unfolding b(1) count_up_pow [OF l] by (simp add: div_less)
  from seek_stands [OF s l this, of offset]
  have "stands_at ?st (unat offset) (chacha_seek offset ?cc)" by simp
  moreover have "cc_rounds (chacha_seek offset ?cc) = rounds"
    using r by (simp add: chacha_seek_def refill_def Let_def split: prod.splits)
  ultimately show ?thesis using cipher_stream(1) [of ?st "unat offset" "chacha_seek offset ?cc" xs] by simp
qed

theorem seek_moves_witness:
  "fst (chacha_cipher [1, 2, 3] (chacha_seek 1000
       (snd (cipher_all [[9], [8]] (chacha_setIv (replicate 12 0) (chacha_setKey (replicate 32 0) (chacha_new 20))))))) =
     map2 (XOR) [1, 2, 3] (stream_bytes 20 (rfc_state (replicate 32 0) 0 (replicate 12 0)) (unat (1000 :: u64)) (length [1, 2, 3 :: byte]))"
  by (rule seek_moves) simp_all

text \<open>The high half of the block counter is added by \<open>seek\<close>, not set: with an 8-byte nonce (whose counter has
64 bits), seeking twice to the same offset of at least 2^38 leaves the object at another place of the stream
than seeking once.\<close>

theorem seek_high_accumulates:
  assumes "stands_at st p cc" "length st = 16" "st ! 12 = 0" "cc_state cc ! 13 = st ! 13"
    and "unat offset div 2 ^ 38 = h" "unat offset mod 2 ^ 38 + 512 < 2 ^ 38"
  shows "stands_at st (unat offset) (chacha_seek offset cc) \<and>
         stands_at st (unat offset + 2 ^ 38 * h) (chacha_seek offset (chacha_seek offset cc))"
proof
  have z: "cc_state cc ! 13 = st ! 13 + of_nat 0" using assms(4) by simp
  show s: "stands_at st (unat offset) (chacha_seek offset cc)"
    using seek_stands [OF assms(1-3) z, of offset] by simp
  then obtain b where b: "cc_state (chacha_seek offset cc) = (count_up ^^ (b + 8)) st"
    "64 * b \<le> unat offset" "unat offset < 64 * b + 512"
    by (auto simp: stands_at_def)
  have "(b + 8) div 2 ^ 32 = h"
  proof (rule div_nat_eqI)
    have o: "unat offset = 2 ^ 38 * h + unat offset mod 2 ^ 38" using assms(5) by (metis mult_div_mod_eq)
    show "2 ^ 32 * h \<le> b + 8" using o b(3) by simp
    show "b + 8 < 2 ^ 32 * Suc h" using o b(2) assms(6) by simp
  qed
  then have "cc_state (chacha_seek offset cc) ! 13 = st ! 13 + of_nat h"
    using assms(2) unfolding b(1) count_up_pow [OF assms(2,3)] by simp
  from seek_stands [OF s assms(2,3) this, of offset]
  show "stands_at st (unat offset + 2 ^ 38 * h) (chacha_seek offset (chacha_seek offset cc))" .
qed

theorem seek_high_accumulates_witness:
  "stands_at (start_state (chacha_new 20) (replicate 8 0)) (2 ^ 38)
      (chacha_seek (2 ^ 38) (chacha_setIv (replicate 8 0) (chacha_new 20))) \<and>
   stands_at (start_state (chacha_new 20) (replicate 8 0)) (2 ^ 38 + 2 ^ 38 * 1)
      (chacha_seek (2 ^ 38) (chacha_seek (2 ^ 38) (chacha_setIv (replicate 8 0) (chacha_new 20))))"
proof -
  let ?st = "start_state (chacha_new 20) (replicate 8 0)"
  have l: "length ?st = 16" "?st ! 12 = 0"
    by (simp_all add: start_state_def iv_state_def key_state_def chacha_new_def chacha_SIGMA_def Let_def
        numeral_eq_Suc)
  have "cc_state (chacha_setIv (replicate 8 0) (chacha_new 20)) = (count_up ^^ 8) ?st"
    using refill_stream(2) [of "(chacha_new 20)\<lparr>cc_state := ?st\<rparr>" 0 ?st]
    by (simp add: chacha_setIv_def start_state_def)
  then have s: "cc_state (chacha_setIv (replicate 8 0) (chacha_new 20)) ! 13 = ?st ! 13"
    using l(1) by (simp add: count_up_pow [OF l])
  show ?thesis
    using seek_high_accumulates [OF setIv_stands l s, of "2 ^ 38" 1] by simp
qed

end
