(* ===== verification/Aead.thy ===== *)
theory Aead
  imports PolyTag ChaCha
begin

section \<open>ChaCha20-Poly1305\<close>

text \<open>
  Models \<open>source/core/crypto/src/impl/chaCha20Poly1305.cpp\<close>, authenticated encryption over
  the objects of the theories ChaCha and Poly1305. Enciphering and deciphering are proved to be
  the AEAD construction of RFC 8439, with the order of the calls, the padding and the lengths,
  and to undo each other.
\<close>

subsection \<open>The object and its operations\<close>

record aead =
  ae_chacha :: chacha
  ae_poly :: poly1305
  ae_ad :: "byte list"
  ae_nonceLen :: nat
  ae_ctextLen :: u64

definition aead_new :: aead where
  "aead_new = \<lparr>ae_chacha = chacha_new 20, ae_poly = poly_new, ae_ad = [], ae_nonceLen = 0, ae_ctextLen = 0\<rparr>"

definition aead_setKey :: "byte list \<Rightarrow> aead \<Rightarrow> aead" where
  "aead_setKey key ae = ae\<lparr>ae_chacha := chacha_setKey key (ae_chacha ae)\<rparr>"

definition aead_setAd :: "byte list \<Rightarrow> aead \<Rightarrow> aead" where
  "aead_setAd ad ae = ae\<lparr>ae_ad := ad\<rparr>"

definition cfrgVersion :: "aead \<Rightarrow> bool" where
  "cfrgVersion ae \<longleftrightarrow> ae_nonceLen ae = 12 \<or> ae_nonceLen ae = 24"

text \<open>\<open>_poly1305.add\<close>, on the bytes of a length (\<open>updateLen\<close>) or of the caller.\<close>

definition mac_add :: "byte list \<Rightarrow> aead \<Rightarrow> aead" where
  "mac_add d ae = ae\<lparr>ae_poly := poly_add (ae_poly ae) d\<rparr>"

definition updateLen :: "u64 \<Rightarrow> aead \<Rightarrow> aead" where
  "updateLen len ae = mac_add (le_bytes 8 len) ae"

definition aead_start :: "byte list \<Rightarrow> aead \<Rightarrow> aead" where
  "aead_start nonce ae =
     (let ae1 = ae\<lparr>ae_ctextLen := 0, ae_nonceLen := length nonce\<rparr>;
          (firstBlock, cc) = chacha_cipher (replicate 64 0) (chacha_setIv nonce (ae_chacha ae1));
          ae2 = ae1\<lparr>ae_chacha := cc, ae_poly := poly_setKey (take 32 firstBlock) (ae_poly ae1)\<rparr>;
          ae3 = mac_add (ae_ad ae2) ae2
      in if cfrgVersion ae3 then
           if length (ae_ad ae3) mod 16 \<noteq> 0
           then mac_add (replicate (16 - length (ae_ad ae3) mod 16) 0) ae3 else ae3
         else updateLen (of_nat (length (ae_ad ae3))) ae3)"

definition aead_encipher :: "byte list \<Rightarrow> aead \<Rightarrow> byte list \<times> aead" where
  "aead_encipher inp ae =
     (let (out, cc) = chacha_cipher inp (ae_chacha ae);
          ae1 = mac_add out (ae\<lparr>ae_chacha := cc\<rparr>)
      in (out, ae1\<lparr>ae_ctextLen := ae_ctextLen ae1 + of_nat (length inp)\<rparr>))"

text \<open>The common part of the two finishing operations: the padding of the cipher text and the lengths.\<close>

definition mac_lengths :: "aead \<Rightarrow> aead" where
  "mac_lengths ae =
     updateLen (ae_ctextLen ae)
       (if cfrgVersion ae then
          updateLen (of_nat (length (ae_ad ae)))
            (if unat (ae_ctextLen ae mod 16) \<noteq> 0
             then mac_add (replicate (16 - unat (ae_ctextLen ae mod 16)) 0) ae else ae)
        else ae)"

definition aead_encipherFinish :: "aead \<Rightarrow> byte list \<times> aead" where
  "aead_encipherFinish ae =
     (case poly_finish (ae_poly (mac_lengths ae)) 16 of
        (mac, pl) \<Rightarrow> (mac, (mac_lengths ae)\<lparr>ae_poly := pl, ae_ctextLen := 0, ae_nonceLen := 0\<rparr>))"

definition aead_decipher :: "byte list \<Rightarrow> aead \<Rightarrow> byte list \<times> aead" where
  "aead_decipher inp ae =
     (let ae1 = mac_add inp ae;
          (out, cc) = chacha_cipher inp (ae_chacha ae1)
      in (out, ae1\<lparr>ae_chacha := cc, ae_ctextLen := ae_ctextLen ae1 + of_nat (length inp)\<rparr>))"

definition mac_diff :: "byte list \<Rightarrow> byte list \<Rightarrow> byte" where
  "mac_diff macIn mac = fold (\<lambda>i diff. diff OR (macIn ! i XOR mac ! i)) [0 ..< 16] 0"

definition aead_decipherFinish :: "byte list \<Rightarrow> aead \<Rightarrow> bool \<times> aead" where
  "aead_decipherFinish macIn ae =
     (case poly_finish (ae_poly (mac_lengths ae)) 16 of
        (mac, pl) \<Rightarrow> (mac_diff macIn mac = 0,
          (mac_lengths ae)\<lparr>ae_poly := pl, ae_ctextLen := 0, ae_nonceLen := 0\<rparr>))"

definition aead_clear :: "aead \<Rightarrow> aead" where
  "aead_clear ae =
     ae\<lparr>ae_chacha := chacha_clear (ae_chacha ae), ae_poly := poly_clear (ae_poly ae), ae_ad := [],
        ae_nonceLen := 0, ae_ctextLen := 0\<rparr>"

subsection \<open>Reference: RFC 8439, section 2.8\<close>

definition pad16 :: "byte list \<Rightarrow> byte list" where
  "pad16 x = replicate ((16 - length x mod 16) mod 16) 0"

definition rfc_mac_data :: "byte list \<Rightarrow> byte list \<Rightarrow> byte list" where
  "rfc_mac_data ad ct =
     ad @ pad16 ad @ ct @ pad16 ct @ num_bytes 8 (length ad) @ num_bytes 8 (length ct)"

definition rfc_aead :: "byte list \<Rightarrow> byte list \<Rightarrow> byte list \<Rightarrow> byte list \<Rightarrow> byte list \<times> byte list" where
  "rfc_aead key nonce ad plain =
     (let otk = take 32 (chacha_block 20 (rfc_state key 0 nonce));
          ks = concat (map (\<lambda>j. chacha_block 20 (rfc_state key (1 + j) nonce)) [0 ..< (length plain + 63) div 64]);
          ct = map2 (XOR) plain (take (length plain) ks)
      in (ct, rfc_poly1305 otk (rfc_mac_data ad ct)))"

text \<open>The construction the code uses with nonces of other lengths.\<close>

definition mac_data :: "nat \<Rightarrow> byte list \<Rightarrow> byte list \<Rightarrow> byte list" where
  "mac_data nonceLen ad ct =
     (if nonceLen = 12 \<or> nonceLen = 24 then rfc_mac_data ad ct
      else ad @ num_bytes 8 (length ad) @ ct @ num_bytes 8 (length ct))"

subsection \<open>Between start and finish\<close>

text \<open>
  The object has been started with a nonce of length \<open>l\<close> on the key stream from \<open>st\<close> and has
  authenticated the cipher text \<open>ct\<close>.
\<close>

definition mac_prefix :: "nat \<Rightarrow> byte list \<Rightarrow> byte list" where
  "mac_prefix l ad = ad @ (if l = 12 \<or> l = 24 then pad16 ad else num_bytes 8 (length ad))"

definition aead_holds :: "u32 list \<Rightarrow> nat \<Rightarrow> byte list \<Rightarrow> byte list \<Rightarrow> aead \<Rightarrow> bool" where
  "aead_holds st l ad ct ae \<longleftrightarrow>
     cc_rounds (ae_chacha ae) = 20 \<and> stands_at st (64 + length ct) (ae_chacha ae) \<and>
     poly_holds (stream_bytes 20 st 0 32) (mac_prefix l ad @ ct) (ae_poly ae) \<and>
     ae_ad ae = ad \<and> ae_nonceLen ae = l \<and> ae_ctextLen ae = of_nat (length ct)"

lemma le_bytes_num: "le_bytes 8 (of_nat n :: u64) = num_bytes 8 n"
proof -
  have "le_bytes 8 (of_nat n :: u64) = num_bytes 8 (le_num (le_bytes 8 (of_nat n :: u64)))"
    using num_bytes_le_num [of "le_bytes 8 (of_nat n :: u64)"] by simp
  also have "\<dots> = num_bytes 8 (n mod 256 ^ 8)"
    unfolding le_num_le_bytes by (simp add: unat_of_nat)
  finally show ?thesis by (simp only: num_bytes_mod)
qed

lemma pad16_cases: "(if length x mod 16 \<noteq> 0 then replicate (16 - length x mod 16) 0 else []) = pad16 x"
  by (auto simp: pad16_def)

lemma mac_add_simps [simp]:
  "ae_chacha (mac_add d ae) = ae_chacha ae" "ae_poly (mac_add d ae) = poly_add (ae_poly ae) d"
  "ae_ad (mac_add d ae) = ae_ad ae" "ae_nonceLen (mac_add d ae) = ae_nonceLen ae"
  "ae_ctextLen (mac_add d ae) = ae_ctextLen ae" "cfrgVersion (mac_add d ae) = cfrgVersion ae"
  by (simp_all add: mac_add_def cfrgVersion_def)

lemma start_holds:
  assumes "length (pl_buf (ae_poly ae)) = 16" "cc_rounds (ae_chacha ae) = 20"
  shows "aead_holds (start_state (ae_chacha ae) nonce) (length nonce) (ae_ad ae) [] (aead_start nonce ae)"
proof -
  let ?st = "start_state (ae_chacha ae) nonce" and ?cc = "chacha_setIv nonce (ae_chacha ae)"
  obtain b cc where c: "chacha_cipher (replicate 64 0) ?cc = (b, cc)" by fastforce
  note s = cipher_stream [OF setIv_stands [of "ae_chacha ae" nonce], of "replicate 64 0"]
  have b: "b = stream_bytes 20 ?st 0 64"
    using s(1) assms(2) by (simp add: c) (intro nth_equalityI; simp)
  then have k: "take 32 b = stream_bytes 20 ?st 0 32"
    using stream_bytes_part [of 0 32 64 20 ?st 0] by simp
  have cc: "stands_at ?st 64 cc" "cc_rounds cc = 20"
    using s(2,3) assms(2) by (simp_all add: c)
  let ?p = "poly_setKey (stream_bytes 20 ?st 0 32) (ae_poly ae)"
  have p: "poly_holds (stream_bytes 20 ?st 0 32) [] ?p"
    using assms(1) by (intro setKey_holds) simp_all
  note a = add_holds [OF p, of "ae_ad ae"]
  note a2 = add_holds [OF a]
  show ?thesis
    using cc a a2 [of "pad16 (ae_ad ae)"] a2 [of "num_bytes 8 (length (ae_ad ae))"]
    by (auto simp: aead_holds_def aead_start_def Let_def c k mac_prefix_def cfrgVersion_def updateLen_def
        le_bytes_num pad16_def)
qed

lemma encipher_holds:
  fixes inp :: "byte list"
  assumes "aead_holds st l ad ct ae"
  defines "out \<equiv> map2 (XOR) inp (stream_bytes 20 st (64 + length ct) (length inp))"
  shows "fst (aead_encipher inp ae) = out" and "aead_holds st l ad (ct @ out) (snd (aead_encipher inp ae))"
proof -
  obtain o' cc where c: "chacha_cipher inp (ae_chacha ae) = (o', cc)" by fastforce
  have h: "cc_rounds (ae_chacha ae) = 20" "stands_at st (64 + length ct) (ae_chacha ae)"
    "poly_holds (stream_bytes 20 st 0 32) (mac_prefix l ad @ ct) (ae_poly ae)"
    using assms(1) by (simp_all add: aead_holds_def)
  note s = cipher_stream [OF h(2), of inp]
  have o: "o' = out" "length out = length inp" using s(1) h(1) by (simp_all add: c out_def)
  show "fst (aead_encipher inp ae) = out" by (simp add: aead_encipher_def c o Let_def)
  show "aead_holds st l ad (ct @ out) (snd (aead_encipher inp ae))"
    using assms(1) s(2,3) add_holds [OF h(3), of out] o
    by (simp add: aead_holds_def aead_encipher_def c Let_def add.assoc)
qed

lemma decipher_holds:
  assumes "aead_holds st l ad ct ae"
  shows "fst (aead_decipher inp ae) = map2 (XOR) inp (stream_bytes 20 st (64 + length ct) (length inp))"
    and "aead_holds st l ad (ct @ inp) (snd (aead_decipher inp ae))"
proof -
  obtain out cc where c: "chacha_cipher inp (ae_chacha ae) = (out, cc)" by fastforce
  have h: "cc_rounds (ae_chacha ae) = 20" "stands_at st (64 + length ct) (ae_chacha ae)"
    "poly_holds (stream_bytes 20 st 0 32) (mac_prefix l ad @ ct) (ae_poly ae)"
    using assms(1) by (simp_all add: aead_holds_def)
  note s = cipher_stream [OF h(2), of inp]
  show "fst (aead_decipher inp ae) = map2 (XOR) inp (stream_bytes 20 st (64 + length ct) (length inp))"
    using s(1) h(1) by (simp add: aead_decipher_def c Let_def)
  show "aead_holds st l ad (ct @ inp) (snd (aead_decipher inp ae))"
    using assms(1) s(2,3) add_holds [OF h(3), of inp]
    by (simp add: aead_holds_def aead_decipher_def c Let_def add.assoc)
qed

lemma lengths_hold:
  assumes "aead_holds st l ad ct ae"
  shows "poly_holds (stream_bytes 20 st 0 32) (mac_data l ad ct) (ae_poly (mac_lengths ae))"
proof -
  let ?k = "stream_bytes 20 st 0 32"
  have h: "poly_holds ?k (mac_prefix l ad @ ct) (ae_poly ae)" "ae_ad ae = ad" "ae_nonceLen ae = l"
    "ae_ctextLen ae = of_nat (length ct)"
    using assms by (simp_all add: aead_holds_def)
  have m: "unat ((of_nat (length ct) :: u64) mod 16) = length ct mod 16"
    by (simp add: unat_mod unat_of_nat mod_mod_cancel)
  note a = add_holds [OF h(1)] and a2 = add_holds [OF add_holds [OF h(1)]]
    and a3 = add_holds [OF add_holds [OF add_holds [OF h(1)]]]
  show ?thesis
    using a [of "num_bytes 8 (length ct)"] a2 [of "num_bytes 8 (length ad)" "num_bytes 8 (length ct)"]
      a3 [of "pad16 ct" "num_bytes 8 (length ad)" "num_bytes 8 (length ct)"]
    unfolding mac_lengths_def cfrgVersion_def h(2-4) m updateLen_def le_bytes_num
    by (auto simp: mac_data_def rfc_mac_data_def mac_prefix_def pad16_def)
qed

lemma finish_mac:
  assumes "aead_holds st l ad ct ae"
  shows "fst (aead_encipherFinish ae) = rfc_poly1305 (stream_bytes 20 st 0 32) (mac_data l ad ct)"
    and "fst (aead_decipherFinish mac ae) \<longleftrightarrow>
      mac_diff mac (rfc_poly1305 (stream_bytes 20 st 0 32) (mac_data l ad ct)) = 0"
proof -
  have "length (rfc_poly1305 (stream_bytes 20 st 0 32) (mac_data l ad ct)) = 16"
    by (simp add: rfc_poly1305_def num_bytes_def)
  then show "fst (aead_encipherFinish ae) = rfc_poly1305 (stream_bytes 20 st 0 32) (mac_data l ad ct)"
    and "fst (aead_decipherFinish mac ae) \<longleftrightarrow>
      mac_diff mac (rfc_poly1305 (stream_bytes 20 st 0 32) (mac_data l ad ct)) = 0"
    using finish_tag(1) [OF lengths_hold [OF assms], of 16]
    by (simp_all add: aead_encipherFinish_def aead_decipherFinish_def case_prod_beta)
qed

lemma xor_zero_iff: "x XOR y = 0 \<longleftrightarrow> x = y" for x y :: "'w::len word"
proof
  assume "x XOR y = 0"
  then have "(x XOR y) XOR y = 0 XOR y" by simp
  then show "x = y" by (simp add: xor.assoc)
qed simp

lemma mac_diff_zero:
  assumes "length a = 16" "length b = 16"
  shows "mac_diff a b = 0 \<longleftrightarrow> a = b"
proof -
  have f: "fold (\<lambda>i d. d OR (a ! i XOR b ! i)) is d = 0 \<longleftrightarrow> d = 0 \<and> (\<forall>i \<in> set is. a ! i = b ! i)"
    for "is" and d :: byte
    by (induction "is" arbitrary: d) (auto simp: or_eq_0_iff xor_zero_iff)
  show ?thesis
    using assms unfolding mac_diff_def f by (auto intro: nth_equalityI)
qed

subsection \<open>Messages in pieces\<close>

fun encipher_all :: "byte list list \<Rightarrow> aead \<Rightarrow> byte list \<times> aead" where
  "encipher_all [] ae = ([], ae)"
| "encipher_all (p # ps) ae =
     (case aead_encipher p ae of (out, ae1) \<Rightarrow>
        case encipher_all ps ae1 of (outs, ae2) \<Rightarrow> (out @ outs, ae2))"

fun decipher_all :: "byte list list \<Rightarrow> aead \<Rightarrow> byte list \<times> aead" where
  "decipher_all [] ae = ([], ae)"
| "decipher_all (p # ps) ae =
     (case aead_decipher p ae of (out, ae1) \<Rightarrow>
        case decipher_all ps ae1 of (outs, ae2) \<Rightarrow> (out @ outs, ae2))"

text \<open>A whole message: its cipher text and tag, its plain text and whether the tag was right.\<close>

definition seal :: "byte list \<Rightarrow> byte list list \<Rightarrow> aead \<Rightarrow> byte list \<times> byte list" where
  "seal nonce pieces ae =
     (case encipher_all pieces (aead_start nonce ae) of
        (ct, ae1) \<Rightarrow> (ct, fst (aead_encipherFinish ae1)))"

definition unseal :: "byte list \<Rightarrow> byte list list \<Rightarrow> byte list \<Rightarrow> aead \<Rightarrow> byte list \<times> bool" where
  "unseal nonce pieces mac ae =
     (case decipher_all pieces (aead_start nonce ae) of
        (plain, ae1) \<Rightarrow> (plain, fst (aead_decipherFinish mac ae1)))"

lemma map2_xor_append:
  "map2 (XOR) xs (stream_bytes r st p (length xs)) @ map2 (XOR) ys (stream_bytes r st (p + length xs) (length ys))
   = map2 (XOR) (xs @ ys) (stream_bytes r st p (length (xs @ ys)))"
  by (simp add: stream_bytes_append [symmetric])

lemma encipher_all_holds:
  "aead_holds st l ad ct ae \<Longrightarrow>
     fst (encipher_all ps ae) = map2 (XOR) (concat ps) (stream_bytes 20 st (64 + length ct) (length (concat ps))) \<and>
     aead_holds st l ad (ct @ fst (encipher_all ps ae)) (snd (encipher_all ps ae))"
proof (induction ps arbitrary: ct ae)
  case Nil
  then show ?case by simp
next
  case (Cons p ps)
  obtain out ae1 where c: "aead_encipher p ae = (out, ae1)" by fastforce
  have o: "out = map2 (XOR) p (stream_bytes 20 st (64 + length ct) (length p))" "aead_holds st l ad (ct @ out) ae1"
    using encipher_holds [OF Cons.prems, of p] by (simp_all add: c)
  then have "length out = length p" by simp
  then have l: "length ct + length p = length (ct @ out)" by simp
  obtain outs ae2 where e: "encipher_all ps ae1 = (outs, ae2)" by fastforce
  have i: "outs = map2 (XOR) (concat ps) (stream_bytes 20 st (64 + length (ct @ out)) (length (concat ps)))"
    and h: "aead_holds st l ad (ct @ (out @ outs)) ae2"
    using Cons.IH [OF o(2)] unfolding e fst_conv snd_conv append_assoc by blast+
  have r: "out @ outs = map2 (XOR) (p @ concat ps) (stream_bytes 20 st (64 + length ct) (length (p @ concat ps)))"
    using map2_xor_append [of p 20 st "64 + length ct" "concat ps"]
    unfolding i l [symmetric] by (simp only: o(1) add.assoc)
  show ?case using h by (simp only: encipher_all.simps c e prod.case fst_conv snd_conv concat.simps r simp_thms)
qed

lemma decipher_all_holds:
  "aead_holds st l ad ct ae \<Longrightarrow>
     fst (decipher_all ps ae) = map2 (XOR) (concat ps) (stream_bytes 20 st (64 + length ct) (length (concat ps))) \<and>
     aead_holds st l ad (ct @ concat ps) (snd (decipher_all ps ae))"
proof (induction ps arbitrary: ct ae)
  case Nil
  then show ?case by simp
next
  case (Cons p ps)
  obtain out ae1 where c: "aead_decipher p ae = (out, ae1)" by fastforce
  have o: "out = map2 (XOR) p (stream_bytes 20 st (64 + length ct) (length p))" "aead_holds st l ad (ct @ p) ae1"
    using decipher_holds [OF Cons.prems, of p] by (simp_all add: c)
  moreover obtain outs ae2 where "decipher_all ps ae1 = (outs, ae2)" by fastforce
  ultimately show ?case
    using Cons.IH [OF o(2)] map2_xor_append [of p 20 st "64 + length ct" "concat ps"]
    by (simp add: c add.assoc)
qed

lemma seal_stream:
  fixes nonce :: "byte list" and ps :: "byte list list"
  assumes "length (pl_buf (ae_poly ae)) = 16" "cc_rounds (ae_chacha ae) = 20"
  defines "st \<equiv> start_state (ae_chacha ae) nonce"
  defines "ct \<equiv> map2 (XOR) (concat ps) (stream_bytes 20 st 64 (length (concat ps)))"
  shows "seal nonce ps ae = (ct, rfc_poly1305 (stream_bytes 20 st 0 32) (mac_data (length nonce) (ae_ad ae) ct))"
proof -
  note e = encipher_all_holds [OF start_holds [OF assms(1,2), of nonce], of ps]
  then have c: "fst (encipher_all ps (aead_start nonce ae)) = ct" by (simp add: ct_def st_def)
  from conjunct2 [OF e] have "aead_holds st (length nonce) (ae_ad ae) ct (snd (encipher_all ps (aead_start nonce ae)))"
    unfolding c st_def append_Nil .
  from finish_mac(1) [OF this] c show ?thesis by (simp add: seal_def case_prod_beta)
qed

lemma unseal_stream:
  fixes nonce :: "byte list" and ps :: "byte list list"
  assumes "length (pl_buf (ae_poly ae)) = 16" "cc_rounds (ae_chacha ae) = 20" "length mac = 16"
  defines "st \<equiv> start_state (ae_chacha ae) nonce"
  shows "unseal nonce ps mac ae =
    (map2 (XOR) (concat ps) (stream_bytes 20 st 64 (length (concat ps))),
     mac = rfc_poly1305 (stream_bytes 20 st 0 32) (mac_data (length nonce) (ae_ad ae) (concat ps)))"
proof -
  note e = decipher_all_holds [OF start_holds [OF assms(1,2), of nonce], of ps]
  then have c: "fst (decipher_all ps (aead_start nonce ae)) = map2 (XOR) (concat ps) (stream_bytes 20 st 64 (length (concat ps)))"
    by (simp add: st_def)
  from e have h: "aead_holds st (length nonce) (ae_ad ae) (concat ps) (snd (decipher_all ps (aead_start nonce ae)))"
    by (simp add: st_def)
  have "length (rfc_poly1305 (stream_bytes 20 st 0 32) (mac_data (length nonce) (ae_ad ae) (concat ps))) = 16"
    by (simp add: rfc_poly1305_def num_bytes_def)
  from finish_mac(2) [OF h, of mac] mac_diff_zero [OF assms(3) this] c show ?thesis
    by (simp add: unseal_def case_prod_beta)
qed

subsection \<open>The key stream of the standard\<close>

lemma rfc_stream:
  assumes "length key = 32" "n + 64 \<le> 2 ^ 38"
  shows "take n (concat (map (\<lambda>j. chacha_block r (rfc_state key (1 + j) nonce)) [0 ..< (n + 63) div 64]))
      = stream_bytes r (rfc_state key 0 nonce) 64 n"
    and "take 32 (chacha_block r (rfc_state key 0 nonce)) = stream_bytes r (rfc_state key 0 nonce) 0 32"
proof -
  let ?st = "rfc_state key 0 nonce" and ?k = "(n + 63) div 64"
  have b: "chacha_block r ?st = stream_bytes r ?st 0 64"
    using rfc_block_stream [of 0 key r nonce] assms(1) stream_bytes_block [of r ?st 0] by simp
  then show "take 32 (chacha_block r ?st) = stream_bytes r ?st 0 32"
    using stream_bytes_part [of 0 32 64 r ?st 0] by simp
  have "(64 + n + 63) div 64 = Suc ?k" by simp
  then have "[0 ..< (64 + n + 63) div 64] = 0 # map Suc [0 ..< ?k]"
    by (simp add: upt_conv_Cons map_Suc_upt del: upt_Suc)
  then have "rfc_keystream r key nonce (64 + n) =
      chacha_block r ?st @ take n (concat (map (\<lambda>j. chacha_block r (rfc_state key (1 + j) nonce)) [0 ..< ?k]))"
    unfolding rfc_keystream_def by (simp add: comp_def b del: upt_Suc)
  moreover have "rfc_keystream r key nonce (64 + n) = stream_bytes r ?st 0 64 @ stream_bytes r ?st 64 n"
    using rfc_keystream_stream [of "64 + n" key r nonce] assms stream_bytes_append [of r ?st 0 64 n]
    by (simp add: add.commute)
  ultimately show "take n (concat (map (\<lambda>j. chacha_block r (rfc_state key (1 + j) nonce)) [0 ..< ?k]))
      = stream_bytes r ?st 64 n"
    unfolding b by simp
qed

subsection \<open>Properties\<close>

definition aead_ready :: "byte list \<Rightarrow> byte list \<Rightarrow> aead" where
  "aead_ready key ad = aead_setAd ad (aead_setKey key aead_new)"

lemma ready [simp]:
  "length (pl_buf (ae_poly (aead_ready key ad))) = 16" "cc_rounds (ae_chacha (aead_ready key ad)) = 20"
  "ae_ad (aead_ready key ad) = ad" "ae_chacha (aead_ready key ad) = chacha_setKey key (chacha_new 20)"
  by (simp_all add: aead_ready_def aead_setAd_def aead_setKey_def aead_new_def poly_new_def chacha_new_def)

lemma mac_data_12: "mac_data 12 ad ct = rfc_mac_data ad ct"
  by (simp add: mac_data_def)

text \<open>C11. Enciphering is the AEAD construction of RFC 8439: with a 32-byte key, a 12-byte nonce, any associated data
and a message in any pieces, the cipher text and the tag are those of the standard.\<close>

theorem aead_is_rfc8439:
  assumes "length key = 32" "length nonce = 12" "length (concat ps) + 64 \<le> 2 ^ 38"
  shows "seal nonce ps (aead_ready key ad) = rfc_aead key nonce ad (concat ps)"
  using seal_stream [OF ready(1,2), of nonce ps key ad]
  unfolding rfc_aead_def Let_def rfc_stream [OF assms(1,3)]
  by (simp add: start_state_rfc [OF assms(1,2)] assms(2) mac_data_12)

theorem aead_is_rfc8439_witness:
  "seal (replicate 12 1) [[1, 2], [3]] (aead_ready (replicate 32 7) [9]) =
     rfc_aead (replicate 32 7) (replicate 12 1) [9] [1, 2, 3]"
  using aead_is_rfc8439 [of "replicate 32 7" "replicate 12 1" "[[1, 2], [3]]" "[9]"] by simp

text \<open>C12. What was enciphered deciphers to the message and its tag is accepted, with a nonce of any length and the
message and the cipher text cut in any pieces, by an object with the same key and associated data.\<close>

theorem aead_round_trip:
  assumes "seal nonce ps (aead_ready key ad) = (concat qs, mac)"
  shows "unseal nonce qs mac (aead_ready key ad) = (concat ps, True)"
proof -
  let ?st = "start_state (chacha_setKey key (chacha_new 20)) nonce"
  let ?ks = "stream_bytes 20 ?st 64 (length (concat ps))"
  note e = trans [OF assms [symmetric] seal_stream [OF ready(1,2), of nonce ps key ad]]
  then have c: "concat qs = map2 (XOR) (concat ps) ?ks" by simp
  from e have m: "mac = rfc_poly1305 (stream_bytes 20 ?st 0 32) (mac_data (length nonce) ad (concat qs))"
    unfolding c by simp
  have l: "length mac = 16" "length (concat qs) = length (concat ps)"
    unfolding m c by (simp_all add: rfc_poly1305_def num_bytes_def)
  have "map2 (XOR) (concat qs) ?ks = concat ps"
    unfolding c by (intro nth_equalityI) (simp_all add: xor.assoc)
  then show ?thesis
    using unseal_stream [OF ready(1,2) l(1), of nonce qs key ad] l(2) m by simp
qed

theorem aead_round_trip_witness:
  "unseal [] [fst (seal [] [[1, 2], [3]] (aead_ready [] [9]))] (snd (seal [] [[1, 2], [3]] (aead_ready [] [9]))) (aead_ready [] [9])
     = ([1, 2, 3], True)"
  using aead_round_trip [of "[]" "[[1, 2], [3]]" "[]" "[9]" "[fst (seal [] [[1, 2], [3]] (aead_ready [] [9]))]"
      "snd (seal [] [[1, 2], [3]] (aead_ready [] [9]))"]
  by simp

text \<open>C13. Deciphering accepts exactly one tag: with a 32-byte key and a 12-byte nonce, the lengths of RFC 8439,
\<open>decipherFinish\<close> returns true if and only if the sixteen bytes are the Poly1305 tag of the RFC, under the one-time
key of the nonce, of the associated data and the cipher text it was given in any pieces. (Keys and nonces of other
lengths, which the object takes too, are not what this states.)\<close>

theorem decipherFinish_accepts:
  assumes "length key = 32" "length nonce = 12" "length mac = 16"
  shows "snd (unseal nonce ps mac (aead_ready key ad)) \<longleftrightarrow>
     mac = rfc_poly1305 (take 32 (chacha_block 20 (rfc_state key 0 nonce))) (rfc_mac_data ad (concat ps))"
proof -
  note r = rfc_stream(2) [OF assms(1), of 0 20 nonce, simplified]
  show ?thesis
    using unseal_stream [OF ready(1,2) assms(3), of nonce ps key ad]
    unfolding r by (simp add: start_state_rfc [OF assms(1,2)] assms(2) mac_data_12)
qed

theorem decipherFinish_accepts_witness:
  "snd (unseal (replicate 12 1) [[1, 2], [3]] (replicate 16 5) (aead_ready (replicate 32 7) [9])) \<longleftrightarrow>
     replicate 16 5 = rfc_poly1305 (take 32 (chacha_block 20 (rfc_state (replicate 32 7) 0 (replicate 12 1)))) (rfc_mac_data [9] [1, 2, 3])"
  using decipherFinish_accepts [of "replicate 32 7" "replicate 12 1" "replicate 16 5" "[[1, 2], [3]]" "[9]"]
  by (simp del: replicate.simps)

end
