(* ===== verification/Futures.thy ===== *)
theory Futures
  imports Prelude
begin

section \<open>The shared state of promises and futures\<close>

text \<open>
  Models \<open>source/core/cmt/include/dci/cmt/details/future/state.hpp\<close> and \<open>statePtr.hpp\<close> with
  the handles of \<open>promise.hpp\<close> and \<open>future.hpp\<close> and the boxes of \<open>source/core/sbs\<close>. The state is
  shared by promise handles, future handles and continuations; it counts them, resolves once, runs
  its continuations and deletes itself. Continuations are user code that may use any handle, so
  every operation is reentrant: the pending calls of the C++ stack are explicit frames, and one
  step of the machine finishes the innermost one.

  A handle is a variable, \<open>StatePtr<T, forFuture>\<close>, that is null or points to the state. User code is a
  list of operations; the code of continuations and of the destructors of what they captured is
  named by numbers, which \<open>code\<close>, a parameter of the machine, maps to lists, so that code may subscribe
  itself again. The model has one task and one state: a wait on an unresolved state stops the run, as
  \<open>abort\<close> does, and \<open>chain\<close> and \<open>continueAs\<close>, which tie two states, are not in it. The exceptions that the
  accessors throw are caught by their caller.
\<close>

subsection \<open>Data\<close>

datatype ('v, 'e) mode = Unresolved | Cancel | Exception 'e | Value 'v

text \<open>The names of handles in user code: variables, and the future that a continuation is called with; and the handles
they are, where that future has the number of its call.\<close>

datatype var = Var nat | Arg

datatype hname = Named nat | Source nat

text \<open>
  What user code does with handles. The \<open>bool\<close> is \<open>forFuture\<close>; \<open>Copy\<close> and \<open>Move\<close> have the source and the
  destination, \<open>GetFuture p f\<close> is \<open>f = p.future()\<close>. \<open>WriteValue\<close> stands for \<open>value()&\<close>, \<open>value()&&\<close> and \<open>detachValue\<close> with
  what the caller leaves in the value through the reference it is given, \<open>TakeValue\<close> for the part that
  \<open>resolveAs(State&&)\<close> of another promise has on the state it moves from; likewise for exceptions. \<open>Flush\<close> is
  the owner's removal of a continuation.
\<close>

datatype ('v, 'e) fop =
    Copy bool var var | Move bool var var | Uncharge bool var | GetFuture var var
  | ResolveValue var 'v | ResolveException var 'e | ResolveCancel bool var
  | Then var nat nat | Canceled var nat nat | Flush nat
  | WriteValue var 'v | WriteException var 'e | TakeValue var 'v | TakeException var 'e

datatype continuation = Continuation (co_id: nat) (co_body: nat) (co_dtor: nat)

record ('v, 'e) fstate =
  fs_continuations :: "continuation list"
  fs_cancels :: "continuation list"
  fs_mode :: "('v, 'e) mode"
  fs_raised :: bool
  fs_futureCounter :: nat
  fs_promiseCounter :: nat

text \<open>
  The pending calls: user code, with the number of its \<open>Arg\<close>; the loop of \<open>Box::activate\<close> over the subscriptions
  that its enumerator still holds, for either box; \<open>removeAndDeleteAll\<close> on either box, of a living state and in
  its destructor; the call of \<open>activate\<close> on the continuations; the branch on the future counter after the
  cancel continuations; \<open>decFutureCounter\<close> and \<open>decPromiseCounter\<close>; the end of \<open>StatePtr::release\<close>, which makes
  the handle null; that end and the rest of an assignment behind it; the destructor of a handle; and the
  return to user code from a call that the handle it was made on must outlive.
\<close>

datatype ('v, 'e) frame =
    Run nat "('v, 'e) fop list"
  | Activate "nat list" | ActivateCancels "nat list"
  | DeleteAll | DeleteCancels
  | DestroyAll | DestroyCancels
  | StartActivate | AfterCancels
  | DecFuture | DecPromise
  | Clear bool hname | Assign bool bool hname hname | Destroy bool hname
  | Return

subsection \<open>Operations of the state\<close>

definition resolved :: "('v, 'e) fstate \<Rightarrow> bool" where
  "resolved fs \<longleftrightarrow> fs_mode fs \<noteq> Unresolved"

text \<open>Each operation gives the state and the calls that remain to be made.\<close>

definition executeContinuations :: "('v, 'e) fstate \<Rightarrow> ('v, 'e) fstate \<times> ('v, 'e) frame list" where
  "executeContinuations fs =
     (case fs_mode fs of
        Unresolved \<Rightarrow> (fs, [])
      | Cancel \<Rightarrow>
          if 0 < fs_promiseCounter fs then
            (fs\<lparr>fs_promiseCounter := fs_promiseCounter fs + 1\<rparr>,
             [ActivateCancels (map co_id (fs_cancels fs)), AfterCancels, DecPromise])
          else if 0 < fs_futureCounter fs then
            (fs\<lparr>fs_futureCounter := fs_futureCounter fs + 1\<rparr>, [DeleteCancels, StartActivate, DecFuture])
          else (fs, [])
      | Exception e \<Rightarrow> (fs, [DeleteCancels, StartActivate])
      | Value v \<Rightarrow> (fs, [DeleteCancels, StartActivate]))"

definition resolve_as :: "('v, 'e) mode \<Rightarrow> ('v, 'e) fstate \<Rightarrow> ('v, 'e) fstate \<times> ('v, 'e) frame list" where
  "resolve_as md fs = executeContinuations (fs\<lparr>fs_mode := md, fs_raised := True\<rparr>)"

definition resolveCancel :: "('v, 'e) fstate \<Rightarrow> ('v, 'e) fstate \<times> ('v, 'e) frame list" where
  "resolveCancel fs = (if resolved fs then (fs, []) else resolve_as Cancel fs)"

text \<open>\<open>delete this\<close>: the boxes are destroyed, the cancel continuations first.\<close>

definition destroy_state :: "('v, 'e) frame list" where
  "destroy_state = [DestroyCancels, DestroyAll]"

definition checkCounters :: "('v, 'e) fstate \<Rightarrow> ('v, 'e) fstate option \<times> ('v, 'e) frame list" where
  "checkCounters fs =
     (if fs_promiseCounter fs = 0 then
        if fs_futureCounter fs = 0 then (None, destroy_state)
        else if \<not> resolved fs then map_prod Some (\<lambda>x. x) (resolveCancel fs) else (Some fs, [])
      else if fs_futureCounter fs = 0 then
        if \<not> resolved fs then map_prod Some (\<lambda>x. x) (resolveCancel fs) else (Some fs, [])
      else (Some fs, []))"

text \<open>\<open>--\<close> on a \<open>size_t\<close>.\<close>

definition count_down :: "nat \<Rightarrow> nat" where
  "count_down n = (if n = 0 then 2 ^ 64 - 1 else n - 1)"

definition decFutureCounter :: "('v, 'e) fstate \<Rightarrow> ('v, 'e) fstate option \<times> ('v, 'e) frame list" where
  "decFutureCounter fs = checkCounters (fs\<lparr>fs_futureCounter := count_down (fs_futureCounter fs)\<rparr>)"

definition decPromiseCounter :: "('v, 'e) fstate \<Rightarrow> ('v, 'e) fstate option \<times> ('v, 'e) frame list" where
  "decPromiseCounter fs = checkCounters (fs\<lparr>fs_promiseCounter := count_down (fs_promiseCounter fs)\<rparr>)"

definition pushContinuation :: "continuation \<Rightarrow> ('v, 'e) fstate \<Rightarrow> ('v, 'e) fstate \<times> ('v, 'e) frame list" where
  "pushContinuation c fs =
     (let fs1 = fs\<lparr>fs_continuations := fs_continuations fs @ [c], fs_futureCounter := fs_futureCounter fs + 1\<rparr>
      in if resolved fs1 then executeContinuations fs1 else (fs1, []))"

definition pushCancelContinuation :: "continuation \<Rightarrow> ('v, 'e) fstate \<Rightarrow> ('v, 'e) fstate \<times> ('v, 'e) frame list" where
  "pushCancelContinuation c fs =
     (let fs1 = fs\<lparr>fs_cancels := fs_cancels fs @ [c]\<rparr>
      in if resolved fs1 then executeContinuations fs1 else (fs1, []))"

text \<open>\<open>value\<close> and \<open>exception\<close>: what the two accessors throw or return.\<close>

datatype 'e state_error = IsUnresolved | IsCanceled | IsValue | Rethrown 'e

definition state_value :: "('v, 'e) fstate \<Rightarrow> 'e state_error + 'v" where
  "state_value fs =
     (case fs_mode fs of
        Unresolved \<Rightarrow> Inl IsUnresolved | Cancel \<Rightarrow> Inl IsCanceled
      | Exception e \<Rightarrow> Inl (Rethrown e) | Value v \<Rightarrow> Inr v)"

definition state_exception :: "('v, 'e) fstate \<Rightarrow> 'e state_error + 'e" where
  "state_exception fs =
     (case fs_mode fs of
        Unresolved \<Rightarrow> Inl IsUnresolved | Cancel \<Rightarrow> Inl IsCanceled
      | Exception e \<Rightarrow> Inr e | Value v \<Rightarrow> Inl IsValue)"

text \<open>What is left in a resolved state when its value or its exception is written through the reference.\<close>

definition put_value :: "'v \<Rightarrow> ('v, 'e) fstate \<Rightarrow> ('v, 'e) fstate" where
  "put_value v fs = (case state_value fs of Inr _ \<Rightarrow> fs\<lparr>fs_mode := Value v\<rparr> | Inl _ \<Rightarrow> fs)"

definition put_exception :: "'e \<Rightarrow> ('v, 'e) fstate \<Rightarrow> ('v, 'e) fstate" where
  "put_exception e fs = (case state_exception fs of Inr _ \<Rightarrow> fs\<lparr>fs_mode := Exception e\<rparr> | Inl _ \<Rightarrow> fs)"

subsection \<open>The machine\<close>

text \<open>
  The state while it is alive, the handles that are not null, a number for the next continuation or \<open>Arg\<close>,
  the pending calls, the continuations activated so far; whether the run has stopped (\<open>abort\<close>, or a wait) or
  touched a deleted state. \<open>ma_misused\<close> only records what the program does: it has used a handle that is being
  released, it has let go of the last handle while a call on one is in progress, or it has moved from a null
  future.
\<close>

record ('v, 'e) machine =
  ma_state :: "('v, 'e) fstate"
  ma_alive :: bool
  ma_handles :: "(bool \<times> hname) set"
  ma_fresh :: nat
  ma_stack :: "('v, 'e) frame list"
  ma_activated :: "nat list"
  ma_stopped :: bool
  ma_misused :: bool
  ma_bad :: bool

definition calls :: "('v, 'e) fstate \<times> ('v, 'e) frame list \<Rightarrow> ('v, 'e) machine \<Rightarrow> ('v, 'e) machine" where
  "calls r m = m\<lparr>ma_state := fst r, ma_stack := snd r @ ma_stack m\<rparr>"

definition calls_check ::
  "('v, 'e) fstate option \<times> ('v, 'e) frame list \<Rightarrow> ('v, 'e) machine \<Rightarrow> ('v, 'e) machine" where
  "calls_check r m =
     (case fst r of
        Some fs \<Rightarrow> calls (fs, snd r) m
      | None \<Rightarrow> m\<lparr>ma_alive := False, ma_stack := snd r @ ma_stack m\<rparr>)"

definition stop :: "('v, 'e) machine \<Rightarrow> ('v, 'e) machine" where
  "stop m = m\<lparr>ma_stopped := True, ma_stack := []\<rparr>"

text \<open>A call on the state, which must be alive.\<close>

definition on_alive :: "(('v, 'e) machine \<Rightarrow> ('v, 'e) machine) \<Rightarrow> ('v, 'e) machine \<Rightarrow> ('v, 'e) machine" where
  "on_alive f m = (if ma_alive m then f m else m\<lparr>ma_bad := True, ma_stack := []\<rparr>)"

subsection \<open>Handles\<close>

definition charged :: "bool \<Rightarrow> hname \<Rightarrow> ('v, 'e) machine \<Rightarrow> bool" where
  "charged forFuture h m \<longleftrightarrow> (forFuture, h) \<in> ma_handles m"

text \<open>The handles that are being released: their counter may be down already, they are not null yet.\<close>

fun clear_of :: "('v, 'e) frame \<Rightarrow> (bool \<times> hname) list" where
  "clear_of (Clear forFuture h) = [(forFuture, h)]" | "clear_of (Assign move forFuture src dst) = [(forFuture, dst)]"
| "clear_of _ = []"

definition clears :: "('v, 'e) frame list \<Rightarrow> (bool \<times> hname) list" where
  "clears s = concat (map clear_of s)"

definition lives :: "('v, 'e) machine \<Rightarrow> (bool \<times> hname) set" where
  "lives m = ma_handles m - set (clears (ma_stack m))"

text \<open>A handle is used: recorded when it is being released.\<close>

definition use_handle :: "bool \<Rightarrow> hname \<Rightarrow> ('v, 'e) machine \<Rightarrow> ('v, 'e) machine" where
  "use_handle forFuture h m =
     (if (forFuture, h) \<in> set (clears (ma_stack m)) then m\<lparr>ma_misused := True\<rparr> else m)"

text \<open>\<open>StatePtr::addRef\<close>, for a handle that has just been pointed to the state.\<close>

definition addRef :: "bool \<Rightarrow> hname \<Rightarrow> ('v, 'e) machine \<Rightarrow> ('v, 'e) machine" where
  "addRef forFuture h =
     on_alive (\<lambda>m. m\<lparr>ma_handles := insert (forFuture, h) (ma_handles m),
       ma_state := (if forFuture then (ma_state m)\<lparr>fs_futureCounter := fs_futureCounter (ma_state m) + 1\<rparr>
                    else (ma_state m)\<lparr>fs_promiseCounter := fs_promiseCounter (ma_state m) + 1\<rparr>)\<rparr>)"

text \<open>\<open>StatePtr::release\<close>: the counter first, the pointer behind it (\<open>Clear\<close>, or \<open>Assign\<close> in an assignment).\<close>

definition let_go :: "('v, 'e) frame \<Rightarrow> bool \<Rightarrow> hname \<Rightarrow> ('v, 'e) machine \<Rightarrow> ('v, 'e) machine" where
  "let_go behind forFuture h m =
     m\<lparr>ma_stack := (if forFuture then DecFuture else DecPromise) # behind # ma_stack m,
       ma_misused := (ma_misused m \<or> Return \<in> set (ma_stack m) \<and> lives m \<subseteq> {(forFuture, h)})\<rparr>"

definition release :: "bool \<Rightarrow> hname \<Rightarrow> ('v, 'e) machine \<Rightarrow> ('v, 'e) machine" where
  "release forFuture h m = (if charged forFuture h m then let_go (Clear forFuture h) forFuture h m else m)"

text \<open>The assignments: what they do to a destination that is null, and the whole.\<close>

definition assign_raw :: "bool \<Rightarrow> bool \<Rightarrow> hname \<Rightarrow> hname \<Rightarrow> ('v, 'e) machine \<Rightarrow> ('v, 'e) machine" where
  "assign_raw move forFuture src dst m =
     (if \<not> charged forFuture src m then m
      else if move then m\<lparr>ma_handles := insert (forFuture, dst) (ma_handles m - {(forFuture, src)})\<rparr>
      else addRef forFuture dst m)"

definition assign :: "bool \<Rightarrow> bool \<Rightarrow> hname \<Rightarrow> hname \<Rightarrow> ('v, 'e) machine \<Rightarrow> ('v, 'e) machine" where
  "assign move forFuture src dst m0 =
     (let m = use_handle forFuture src (use_handle forFuture dst m0) in
      if charged forFuture src m = charged forFuture dst m then m
      else if charged forFuture dst m then
        let_go (Assign move forFuture src dst) forFuture dst m
      else assign_raw move forFuture src dst m)"

text \<open>\<open>f = p.future()\<close>: the new future is moved into \<open>f\<close>, or goes at once when \<open>f\<close> has the state already.\<close>

definition get_future :: "hname \<Rightarrow> hname \<Rightarrow> ('v, 'e) machine \<Rightarrow> ('v, 'e) machine" where
  "get_future p f m0 =
     (let m = use_handle False p (use_handle True f m0) in
      if \<not> charged False p m then release True f m
      else if charged True f m then
        addRef True f (m\<lparr>ma_stack := DecFuture # ma_stack m\<rparr>)
      else addRef True f m)"

subsection \<open>Calls on handles\<close>

text \<open>A method that needs its handle not to be null, and one during which user code runs without a reference.\<close>

definition on_handle :: "bool \<Rightarrow> hname \<Rightarrow> (('v, 'e) machine \<Rightarrow> ('v, 'e) machine) \<Rightarrow> ('v, 'e) machine \<Rightarrow> ('v, 'e) machine" where
  "on_handle forFuture h f m =
     (if charged forFuture h m then on_alive f (use_handle forFuture h m) else stop m)"

definition resolve_once :: "('v, 'e) mode \<Rightarrow> ('v, 'e) machine \<Rightarrow> ('v, 'e) machine" where
  "resolve_once md m =
     (if resolved (ma_state m) then stop m
      else calls (resolve_as md (ma_state m)) (m\<lparr>ma_stack := Return # ma_stack m\<rparr>))"

definition then_call :: "nat \<Rightarrow> nat \<Rightarrow> ('v, 'e) machine \<Rightarrow> ('v, 'e) machine" where
  "then_call b d m =
     calls (pushContinuation (Continuation (ma_fresh m) b d) (ma_state m))
       (m\<lparr>ma_stack := Return # ma_stack m, ma_fresh := ma_fresh m + 1\<rparr>)"

definition canceled_call :: "nat \<Rightarrow> nat \<Rightarrow> ('v, 'e) machine \<Rightarrow> ('v, 'e) machine" where
  "canceled_call b d m =
     calls (pushCancelContinuation (Continuation (ma_fresh m) b d) (ma_state m))
       (m\<lparr>ma_stack := Return # ma_stack m, ma_fresh := ma_fresh m + 1\<rparr>)"

text \<open>The accessors wait for a resolution first; moving from the state of a future does not, and does not look whether
there is one.\<close>

definition access :: "(('v, 'e) fstate \<Rightarrow> ('v, 'e) fstate) \<Rightarrow> ('v, 'e) machine \<Rightarrow> ('v, 'e) machine" where
  "access f m = (if resolved (ma_state m) then m\<lparr>ma_state := f (ma_state m)\<rparr> else stop m)"

definition take_from :: "hname \<Rightarrow> (('v, 'e) fstate \<Rightarrow> ('v, 'e) fstate) \<Rightarrow> ('v, 'e) machine \<Rightarrow> ('v, 'e) machine" where
  "take_from h f m =
     (if charged True h m then on_alive (\<lambda>m. m\<lparr>ma_state := f (ma_state m)\<rparr>) (use_handle True h m)
      else m\<lparr>ma_misused := True, ma_bad := True, ma_stack := []\<rparr>)"

text \<open>\<open>Box::removeAndDelete\<close> of a subscription that is still in its box; a continuation counts itself off first.\<close>

definition removeAndDelete :: "(nat \<Rightarrow> ('v, 'e) fop list) \<Rightarrow> nat \<Rightarrow> ('v, 'e) machine \<Rightarrow> ('v, 'e) machine" where
  "removeAndDelete code i m =
     (let fs = ma_state m in
      case find (\<lambda>c. co_id c = i) (fs_continuations fs) of
        Some c \<Rightarrow> calls (fs\<lparr>fs_continuations := filter (\<lambda>c. co_id c \<noteq> i) (fs_continuations fs)\<rparr>,
                         [DecFuture, Run 0 (code (co_dtor c))]) m
      | None \<Rightarrow>
        (case find (\<lambda>c. co_id c = i) (fs_cancels fs) of
           Some c \<Rightarrow> calls (fs\<lparr>fs_cancels := filter (\<lambda>c. co_id c \<noteq> i) (fs_cancels fs)\<rparr>,
                            [Run 0 (code (co_dtor c))]) m
         | None \<Rightarrow> m))"

text \<open>One operation of user code whose \<open>Arg\<close> has the number \<open>n\<close>.\<close>

fun own_name :: "nat \<Rightarrow> var \<Rightarrow> hname" where
  "own_name n (Var i) = Named i" | "own_name n Arg = Source n"

fun perform :: "(nat \<Rightarrow> ('v, 'e) fop list) \<Rightarrow> nat \<Rightarrow> ('v, 'e) fop \<Rightarrow> ('v, 'e) machine \<Rightarrow> ('v, 'e) machine" where
  "perform code n (Copy forFuture src dst) m = assign False forFuture (own_name n src) (own_name n dst) m"
| "perform code n (Move forFuture src dst) m = assign True forFuture (own_name n src) (own_name n dst) m"
| "perform code n (Uncharge forFuture h) m = release forFuture (own_name n h) (use_handle forFuture (own_name n h) m)"
| "perform code n (GetFuture p f) m = get_future (own_name n p) (own_name n f) m"
| "perform code n (ResolveValue p v) m = on_handle False (own_name n p) (resolve_once (Value v)) m"
| "perform code n (ResolveException p e) m = on_handle False (own_name n p) (resolve_once (Exception e)) m"
| "perform code n (ResolveCancel forFuture h) m =
     on_handle forFuture (own_name n h) (\<lambda>m. calls (resolveCancel (ma_state m)) m) m"
| "perform code n (Then f b d) m = on_handle True (own_name n f) (then_call b d) m"
| "perform code n (Canceled p b d) m = on_handle False (own_name n p) (canceled_call b d) m"
| "perform code n (Flush i) m = removeAndDelete code i m"
| "perform code n (WriteValue f v) m = on_handle True (own_name n f) (access (put_value v)) m"
| "perform code n (WriteException f e) m = on_handle True (own_name n f) (access (put_exception e)) m"
| "perform code n (TakeValue f v) m = take_from (own_name n f) (put_value v) m"
| "perform code n (TakeException f e) m = take_from (own_name n f) (put_exception e) m"

subsection \<open>Steps\<close>

text \<open>The next subscription of an enumerator that is still in its box.\<close>

definition next_of :: "nat list \<Rightarrow> continuation list \<Rightarrow> (continuation \<times> nat list) option" where
  "next_of ids cs =
     (case filter (\<lambda>i. i \<in> set (map co_id cs)) ids of
        [] \<Rightarrow> None
      | i # is \<Rightarrow> map_option (\<lambda>c. (c, is)) (find (\<lambda>c. co_id c = i) cs))"

definition without :: "continuation \<Rightarrow> continuation list \<Rightarrow> continuation list" where
  "without c cs = filter (\<lambda>x. co_id x \<noteq> co_id c) cs"

text \<open>
  A continuation is taken out of its box and called with a future of its own, \<open>source\<close>, that is destroyed behind
  the call; then it is deleted, which counts it off and destroys what it captured.
\<close>

definition activate_next :: "(nat \<Rightarrow> ('v, 'e) fop list) \<Rightarrow> nat list \<Rightarrow> ('v, 'e) machine \<Rightarrow> ('v, 'e) machine" where
  "activate_next code ids m =
     (case next_of ids (fs_continuations (ma_state m)) of
        None \<Rightarrow> m
      | Some (c, is) \<Rightarrow>
          addRef True (Source (ma_fresh m))
            (calls ((ma_state m)\<lparr>fs_continuations := without c (fs_continuations (ma_state m))\<rparr>,
                 [Run (ma_fresh m) (code (co_body c)), Destroy True (Source (ma_fresh m)),
                  DecFuture, Run 0 (code (co_dtor c)), Activate is])
              (m\<lparr>ma_activated := ma_activated m @ [co_id c], ma_fresh := ma_fresh m + 1\<rparr>)))"

definition activate_next_cancel ::
  "(nat \<Rightarrow> ('v, 'e) fop list) \<Rightarrow> nat list \<Rightarrow> ('v, 'e) machine \<Rightarrow> ('v, 'e) machine" where
  "activate_next_cancel code ids m =
     (case next_of ids (fs_cancels (ma_state m)) of
        None \<Rightarrow> m
      | Some (c, is) \<Rightarrow>
          calls ((ma_state m)\<lparr>fs_cancels := without c (fs_cancels (ma_state m))\<rparr>,
                 [Run 0 (code (co_body c)), Run 0 (code (co_dtor c)), ActivateCancels is])
            (m\<lparr>ma_activated := ma_activated m @ [co_id c]\<rparr>))"

text \<open>\<open>while(_first) removeAndDelete(_first)\<close>, one turn.\<close>

definition delete_first :: "(nat \<Rightarrow> ('v, 'e) fop list) \<Rightarrow> ('v, 'e) frame \<Rightarrow> ('v, 'e) machine \<Rightarrow> ('v, 'e) machine" where
  "delete_first code again m =
     (case fs_continuations (ma_state m) of
        [] \<Rightarrow> m
      | c # cs \<Rightarrow>
          calls ((ma_state m)\<lparr>fs_continuations := cs\<rparr>, [DecFuture, Run 0 (code (co_dtor c)), again]) m)"

definition delete_first_cancel ::
  "(nat \<Rightarrow> ('v, 'e) fop list) \<Rightarrow> ('v, 'e) frame \<Rightarrow> ('v, 'e) machine \<Rightarrow> ('v, 'e) machine" where
  "delete_first_cancel code again m =
     (case fs_cancels (ma_state m) of
        [] \<Rightarrow> m
      | c # cs \<Rightarrow> calls ((ma_state m)\<lparr>fs_cancels := cs\<rparr>, [Run 0 (code (co_dtor c)), again]) m)"

text \<open>The innermost pending call makes its next step. A loop of \<open>Box::activate\<close> ends when its box is gone.\<close>

fun machine_step :: "(nat \<Rightarrow> ('v, 'e) fop list) \<Rightarrow> ('v, 'e) frame \<Rightarrow> ('v, 'e) machine \<Rightarrow> ('v, 'e) machine" where
  "machine_step code (Run n []) m = m"
| "machine_step code (Run n (x # xs)) m = perform code n x (m\<lparr>ma_stack := Run n xs # ma_stack m\<rparr>)"
| "machine_step code (Activate ids) m = (if ma_alive m then activate_next code ids m else m)"
| "machine_step code (ActivateCancels ids) m = (if ma_alive m then activate_next_cancel code ids m else m)"
| "machine_step code DeleteAll m = on_alive (delete_first code DeleteAll) m"
| "machine_step code DeleteCancels m = on_alive (delete_first_cancel code DeleteCancels) m"
| "machine_step code DestroyAll m = delete_first code DestroyAll m"
| "machine_step code DestroyCancels m = delete_first_cancel code DestroyCancels m"
| "machine_step code StartActivate m =
     on_alive (\<lambda>m. calls (ma_state m, [Activate (map co_id (fs_continuations (ma_state m)))]) m) m"
| "machine_step code AfterCancels m =
     on_alive (\<lambda>m. calls (ma_state m,
       if 0 < fs_futureCounter (ma_state m) then [Activate (map co_id (fs_continuations (ma_state m)))]
       else [DeleteAll]) m) m"
| "machine_step code DecFuture m = on_alive (\<lambda>m. calls_check (decFutureCounter (ma_state m)) m) m"
| "machine_step code DecPromise m = on_alive (\<lambda>m. calls_check (decPromiseCounter (ma_state m)) m) m"
| "machine_step code (Clear forFuture h) m = m\<lparr>ma_handles := ma_handles m - {(forFuture, h)}\<rparr>"
| "machine_step code (Assign move forFuture src dst) m =
     assign_raw move forFuture src dst (use_handle forFuture src (m\<lparr>ma_handles := ma_handles m - {(forFuture, dst)}\<rparr>))"
| "machine_step code (Destroy forFuture h) m = release forFuture h (use_handle forFuture h m)"
| "machine_step code Return m = m"

definition step :: "(nat \<Rightarrow> ('v, 'e) fop list) \<Rightarrow> ('v, 'e) machine \<Rightarrow> ('v, 'e) machine" where
  "step code m =
     (case ma_stack m of [] \<Rightarrow> m | f # s \<Rightarrow> machine_step code f (m\<lparr>ma_stack := s\<rparr>))"

text \<open>A program from \<open>Promise<T> promise;\<close> on, which is the promise \<open>Named 0\<close>, after \<open>n\<close> steps.\<close>

definition first_state :: "('v, 'e) fstate" where
  "first_state = \<lparr>fs_continuations = [], fs_cancels = [], fs_mode = Unresolved, fs_raised = False,
     fs_futureCounter = 0, fs_promiseCounter = 1\<rparr>"

definition first_machine :: "('v, 'e) fop list \<Rightarrow> ('v, 'e) machine" where
  "first_machine ops = \<lparr>ma_state = first_state, ma_alive = True, ma_handles = {(False, Named 0)}, ma_fresh = 1,
     ma_stack = [Run 0 ops], ma_activated = [], ma_stopped = False, ma_misused = False, ma_bad = False\<rparr>"

definition session :: "(nat \<Rightarrow> ('v, 'e) fop list) \<Rightarrow> ('v, 'e) fop list \<Rightarrow> nat \<Rightarrow> ('v, 'e) machine" where
  "session code ops n = (step code ^^ n) (first_machine ops)"

end
