(* ===== verification/FutureLife.thy ===== *)
theory FutureLife
  imports Futures
begin

section \<open>Life of the shared state\<close>

text \<open>
  The invariants of the machine of the theory Futures, for programs that use their handles as C++ asks them
  to (\<open>ma_misused\<close> stays false): the counters are the handles, the continuations and the references that pending
  calls owe (\<open>counted\<close>), below every call that uses the state there is one that holds a reference
  (\<open>guarded\<close>), continuations are numbered apart from those activated (\<open>numbered\<close>), and once the state is
  resolved every continuation in a box is in the way of a pending call (\<open>covered\<close>). They give the
  properties at the end.
\<close>

subsection \<open>References are counted\<close>

lemma calls_simps [simp]:
  "ma_state (calls r m) = fst r" "ma_stack (calls r m) = snd r @ ma_stack m"
  "ma_alive (calls r m) = ma_alive m" "ma_handles (calls r m) = ma_handles m" "ma_fresh (calls r m) = ma_fresh m"
  "ma_activated (calls r m) = ma_activated m" "ma_stopped (calls r m) = ma_stopped m"
  "ma_misused (calls r m) = ma_misused m" "ma_bad (calls r m) = ma_bad m"
  by (simp_all add: calls_def)

fun is_guard :: "('v, 'e) frame \<Rightarrow> bool" where
  "is_guard DecFuture = True" | "is_guard DecPromise = True" | "is_guard Return = True" | "is_guard _ = False"

fun needs_guard :: "('v, 'e) frame \<Rightarrow> bool" where
  "needs_guard DeleteAll = True" | "needs_guard DeleteCancels = True"
| "needs_guard StartActivate = True" | "needs_guard AfterCancels = True"
| "needs_guard _ = False"

text \<open>Below every call that needs the state there is one that holds a reference to it.\<close>

fun guarded :: "('v, 'e) frame list \<Rightarrow> bool" where
  "guarded [] = True"
| "guarded (f # s) \<longleftrightarrow> (needs_guard f \<longrightarrow> list_ex is_guard s) \<and> guarded s"

definition owes :: "('v, 'e) frame \<Rightarrow> ('v, 'e) frame list \<Rightarrow> nat" where
  "owes f s = count_list s f"

lemma owes_simps [simp]:
  "owes f [] = 0" "owes f (x # s) = (if x = f then 1 else 0) + owes f s" "owes f (s @ t) = owes f s + owes f t"
  by (simp_all add: owes_def)

lemma owes_pos: "f \<in> set s \<Longrightarrow> 0 < owes f s"
  by (induction s) auto

lemma clears_simps [simp]:
  "clears [] = []" "clears (f # s) = clear_of f @ clears s" "clears (s @ t) = clears s @ clears t"
  by (simp_all add: clears_def)

definition handle_count :: "bool \<Rightarrow> ('v, 'e) machine \<Rightarrow> nat" where
  "handle_count forFuture m = card {x \<in> lives m. fst x = forFuture}"

text \<open>The numbers of \<open>Arg\<close>s in use are below the next one.\<close>

fun below :: "nat \<Rightarrow> hname \<Rightarrow> bool" where
  "below n (Source i) \<longleftrightarrow> i < n" | "below n _ \<longleftrightarrow> True"

fun frame_below :: "nat \<Rightarrow> ('v, 'e) frame \<Rightarrow> bool" where
  "frame_below n (Run i xs) \<longleftrightarrow> i < n"
| "frame_below n (Assign move forFuture src dst) \<longleftrightarrow> below n dst"
| "frame_below n _ \<longleftrightarrow> True"

definition named :: "('v, 'e) machine \<Rightarrow> bool" where
  "named m \<longleftrightarrow> 0 < ma_fresh m \<and> (\<forall>x \<in> ma_handles m. below (ma_fresh m) (snd x)) \<and>
     (\<forall>f \<in> set (ma_stack m). frame_below (ma_fresh m) f)"

definition tidy :: "('v, 'e) machine \<Rightarrow> bool" where
  "tidy m \<longleftrightarrow> \<not> ma_bad m \<and> \<not> ma_stopped m \<and> finite (ma_handles m) \<and> distinct (clears (ma_stack m)) \<and> set (clears (ma_stack m)) \<subseteq> ma_handles m"

definition counted :: "('v, 'e) machine \<Rightarrow> bool" where
  "counted m \<longleftrightarrow>
     (ma_alive m \<longrightarrow>
        fs_futureCounter (ma_state m) =
          handle_count True m + length (fs_continuations (ma_state m)) + owes DecFuture (ma_stack m) \<and>
        fs_promiseCounter (ma_state m) = handle_count False m + owes DecPromise (ma_stack m) \<and>
        (0 < fs_futureCounter (ma_state m) \<or> 0 < fs_promiseCounter (ma_state m)) \<and>
        (resolved (ma_state m) \<or> 0 < fs_promiseCounter (ma_state m))) \<and>
     (\<not> ma_alive m \<longrightarrow>
        lives m = {} \<and> owes DecFuture (ma_stack m) = 0 \<and> owes DecPromise (ma_stack m) = 0 \<and>
        fs_continuations (ma_state m) = [])"

definition held :: "('v, 'e) machine \<Rightarrow> bool" where
  "held m \<longleftrightarrow> (Return \<in> set (ma_stack m) \<longrightarrow> lives m \<noteq> {})"

definition consistent :: "('v, 'e) machine \<Rightarrow> bool" where
  "consistent m \<longleftrightarrow> tidy m \<and> named m \<and> counted m \<and> held m \<and> guarded (ma_stack m)"

lemmas consistent_defs = consistent_def tidy_def named_def counted_def held_def resolved_def lives_def handle_count_def

lemma consistent_parts:
  assumes "consistent m"
  shows "tidy m" "named m" "counted m" "held m" "guarded (ma_stack m)"
  using assms by (simp_all add: consistent_def)

lemma finite_lives: "tidy m \<Longrightarrow> finite (lives m)"
  by (simp add: tidy_def lives_def)

lemma guard_alive:
  assumes "consistent m" "list_ex is_guard (ma_stack m)"
  shows "ma_alive m"
proof (rule ccontr)
  assume dead: "\<not> ma_alive m"
  obtain f where f: "f \<in> set (ma_stack m)" "is_guard f"
    using assms(2) by (auto simp: list_ex_iff)
  have "0 < owes f (ma_stack m)" using f(1) by (rule owes_pos)
  then show False
    using assms(1) dead f by (cases f) (auto simp: consistent_def counted_def held_def)
qed

lemma live_alive: "consistent m \<Longrightarrow> x \<in> lives m \<Longrightarrow> ma_alive m"
  by (cases "ma_alive m") (auto simp: consistent_def counted_def)

text \<open>Frames that say nothing about handles and references.\<close>

definition plain :: "('v, 'e) frame list \<Rightarrow> bool" where
  "plain s \<longleftrightarrow> clears s = [] \<and> owes DecFuture s = 0 \<and> owes DecPromise s = 0"

lemma same_handles:
  assumes "ma_handles m' = ma_handles m" "set (clears (ma_stack m')) = set (clears (ma_stack m))"
  shows "lives m' = lives m" "handle_count b m' = handle_count b m"
  using assms by (simp_all add: lives_def handle_count_def)

lemma plain_pop:
  assumes "consistent m" "ma_stack m = f # s" "\<not> is_guard f" "clear_of f = []"
  shows "consistent (m\<lparr>ma_stack := s\<rparr>)"
proof -
  let ?m = "m\<lparr>ma_stack := s\<rparr>"
  note p = consistent_parts [OF assms(1)]
  have e: "owes g (ma_stack m) = owes g s" if "is_guard g" for g
    using assms(2,3) that by (cases g) auto
  have l: "lives ?m = lives m" "handle_count b ?m = handle_count b m" for b
    using same_handles [of ?m m] assms(2,4) by simp_all
  have "tidy ?m" "named ?m" "guarded s"
    using p assms(2,4) by (auto simp: tidy_def named_def)
  moreover have "counted ?m" using p(3) unfolding counted_def l by (auto simp: e)
  moreover have "held ?m" using p(4) assms(2) by (auto simp: held_def l)
  ultimately show ?thesis by (simp add: consistent_def)
qed

lemma execute_consistent:
  assumes "consistent m" "ma_alive m" "fs_mode (ma_state m) = Cancel \<or> list_ex is_guard (ma_stack m)"
  shows "consistent (calls (executeContinuations (ma_state m)) m)"
proof -
  let ?r = "executeContinuations (ma_state m)"
  have c: "clears (snd ?r) = []" "\<forall>f \<in> set (snd ?r). \<forall>n. frame_below n f"
    by (auto simp: executeContinuations_def split: mode.splits)
  have l: "lives (calls ?r m) = lives m" "handle_count b (calls ?r m) = handle_count b m" for b
    using same_handles [of "calls ?r m" m] c by simp_all
  have "tidy (calls ?r m)" "named (calls ?r m)"
    using assms(1) c by (auto simp: consistent_def tidy_def named_def)
  moreover have "counted (calls ?r m)"
    using assms(1,2) unfolding consistent_def counted_def l by (auto simp: executeContinuations_def resolved_def split: mode.splits)
  moreover have "held (calls ?r m)"
    using assms(1) unfolding consistent_def held_def l by (auto simp: executeContinuations_def split: mode.splits if_splits)
  moreover have "guarded (ma_stack (calls ?r m))"
    using assms by (auto simp: consistent_def executeContinuations_def split: mode.splits)
  ultimately show ?thesis by (simp add: consistent_def)
qed

text \<open>A change of the mode and the cancel continuations alone.\<close>

lemma state_consistent:
  assumes "consistent m" "resolved (ma_state m) \<Longrightarrow> resolved fs" "fs_continuations fs = fs_continuations (ma_state m)"
    "fs_futureCounter fs = fs_futureCounter (ma_state m)" "fs_promiseCounter fs = fs_promiseCounter (ma_state m)"
  shows "consistent (m\<lparr>ma_state := fs\<rparr>)"
proof -
  let ?m = "m\<lparr>ma_state := fs\<rparr>"
  have l: "lives ?m = lives m" "handle_count b ?m = handle_count b m" for b
    using same_handles [of ?m m] by simp_all
  note p = consistent_parts [OF assms(1)]
  have "counted ?m" using p(3) assms(2-5) unfolding counted_def l by auto
  then show ?thesis using p by (simp add: consistent_def tidy_def named_def held_def l)
qed

lemma resolve_consistent:
  assumes "consistent m" "ma_alive m" "md = Cancel \<or> list_ex is_guard (ma_stack m)" "md \<noteq> Unresolved"
  shows "consistent (calls (resolve_as md (ma_state m)) m)"
proof -
  let ?m = "m\<lparr>ma_state := (ma_state m)\<lparr>fs_mode := md, fs_raised := True\<rparr>\<rparr>"
  have "consistent ?m" using assms by (intro state_consistent) (simp_all add: resolved_def)
  from execute_consistent [OF this] assms(2,3) show ?thesis
    by (simp add: resolve_as_def calls_def)
qed

lemma cancel_consistent:
  "consistent m \<Longrightarrow> ma_alive m \<Longrightarrow> consistent (calls (resolveCancel (ma_state m)) m)"
  using resolve_consistent [of m Cancel] by (auto simp: resolveCancel_def calls_def)

subsection \<open>Handles\<close>

lemma use_handle_cases:
  "(use_handle b h m = m \<and> (b, h) \<notin> set (clears (ma_stack m))) \<or> ma_misused (use_handle b h m)"
  by (simp add: use_handle_def)

lemma count_insert:
  assumes "finite A" "(b, h) \<notin> A"
  shows "card {x \<in> insert (b, h) A. fst x = c} = card {x \<in> A. fst x = c} + (if b = c then 1 else 0)"
proof -
  have "{x \<in> insert (b, h) A. fst x = c} = (if b = c then insert (b, h) {x \<in> A. fst x = c} else {x \<in> A. fst x = c})"
    by auto
  then show ?thesis using assms by (auto simp: card_insert_if simp del: insert_iff)
qed

lemma count_remove:
  assumes "finite A" "(b, h) \<in> A"
  shows "card {x \<in> A. fst x = c} = card {x \<in> A - {(b, h)}. fst x = c} + (if b = c then 1 else 0)"
  using count_insert [of "A - {(b, h)}" b h c] assms by (simp add: insert_absorb)

lemma addRef_consistent:
  assumes "consistent m" "ma_alive m" "below (ma_fresh m) h" "(b, h) \<notin> ma_handles m"
  shows "consistent (addRef b h m)"
proof -
  note p = consistent_parts [OF assms(1)]
  have h: "(b, h) \<notin> set (clears (ma_stack m))" using p(1) assms(4) by (auto simp: tidy_def)
  have l: "lives (addRef b h m) = insert (b, h) (lives m)"
    using assms(2) h by (auto simp: lives_def addRef_def on_alive_def)
  have c: "handle_count c (addRef b h m) = handle_count c m + (if b = c then 1 else 0)" for c
    unfolding handle_count_def l using count_insert [OF finite_lives [OF p(1)], of b h c] assms(4) by (simp add: lives_def)
  have "tidy (addRef b h m)" "named (addRef b h m)"
    using p(1,2) assms(2,3) by (auto simp: tidy_def named_def addRef_def on_alive_def)
  moreover have "counted (addRef b h m)"
    using p(3) assms(2) unfolding counted_def c by (auto simp: addRef_def on_alive_def resolved_def)
  moreover have "held (addRef b h m)" by (simp add: held_def l)
  ultimately show ?thesis
    using p(5) assms(2) by (simp add: consistent_def addRef_def on_alive_def)
qed

lemma let_go_consistent:
  assumes "consistent m" "(b, h) \<in> lives m" "\<not> ma_misused (let_go f b h m)" "clear_of f = [(b, h)]"
    "frame_below (ma_fresh m) f"
  shows "consistent (let_go f b h m)"
proof -
  note p = consistent_parts [OF assms(1)]
  have al: "ma_alive m" using live_alive [OF assms(1,2)] .
  have f: "\<not> needs_guard f" "f \<noteq> DecFuture" "f \<noteq> DecPromise" "f \<noteq> Return" using assms(4) by (cases f; simp)+
  have l: "lives (let_go f b h m) = lives m - {(b, h)}"
    using assms(4) by (auto simp: lives_def let_go_def)
  have c: "handle_count c m = handle_count c (let_go f b h m) + (if b = c then 1 else 0)" for c
    unfolding handle_count_def l using count_remove [OF finite_lives [OF p(1)] assms(2), of c] .
  have "tidy (let_go f b h m)" "named (let_go f b h m)"
    using p(1,2) assms(2,4,5) by (auto simp: tidy_def named_def let_go_def lives_def)
  moreover have "counted (let_go f b h m)"
    using p(3) al c [of True] c [of False] f unfolding counted_def by (auto simp: let_go_def)
  moreover have "held (let_go f b h m)"
    using assms(3) f unfolding held_def l by (auto simp: let_go_def)
  ultimately show ?thesis
    using p(5) f by (simp add: consistent_def let_go_def)
qed

lemma release_consistent:
  assumes "consistent m" "(b, h) \<notin> set (clears (ma_stack m))" "\<not> ma_misused (release b h m)"
  shows "consistent (release b h m)"
  using assms let_go_consistent [of m b h "Clear b h"] by (auto simp: release_def charged_def lives_def split: if_splits)

lemma charged_live: "charged b h m \<Longrightarrow> (b, h) \<notin> set (clears (ma_stack m)) \<Longrightarrow> (b, h) \<in> lives m"
  by (simp add: charged_def lives_def)

lemma assign_raw_consistent:
  assumes "consistent m" "(b, src) \<notin> set (clears (ma_stack m))" "(b, dst) \<notin> ma_handles m" "below (ma_fresh m) dst"
  shows "consistent (assign_raw move b src dst m)"
proof (cases "charged b src m")
  case True
  note p = consistent_parts [OF assms(1)]
  have src: "(b, src) \<in> lives m" using charged_live [OF True assms(2)] .
  have d: "(b, dst) \<notin> set (clears (ma_stack m))" "(b, dst) \<noteq> (b, src)"
    using p(1) assms(3) src by (auto simp: tidy_def lives_def)
  show ?thesis
  proof (cases move)
    case False
    then show ?thesis
      using True addRef_consistent [OF assms(1) live_alive [OF assms(1) src] assms(4,3)] by (simp add: assign_raw_def)
  next
    case move: True
    let ?m = "m\<lparr>ma_handles := insert (b, dst) (ma_handles m - {(b, src)})\<rparr>"
    have l: "lives ?m = insert (b, dst) (lives m - {(b, src)})"
      using d assms(2) by (auto simp: lives_def)
    have fin: "finite (lives m - {(b, src)})" using finite_lives [OF p(1)] by simp
    have c: "handle_count c ?m = handle_count c m" for c
      unfolding handle_count_def l
      using count_insert [OF fin, of b dst c] count_remove [OF finite_lives [OF p(1)] src, of c] assms(3)
      by (simp add: lives_def)
    have "tidy ?m" "named ?m" using p(1,2) assms(2,4) by (auto simp: tidy_def named_def)
    moreover have "counted ?m"
      using p(3) live_alive [OF assms(1) src] unfolding counted_def c by auto
    moreover have "held ?m" by (simp add: held_def l)
    ultimately show ?thesis
      using True move p(5) by (simp add: consistent_def assign_raw_def)
  qed
qed (use assms(1) in \<open>simp add: assign_raw_def\<close>)

lemma assign_consistent:
  assumes "consistent m" "below (ma_fresh m) dst" "\<not> ma_misused (assign move b src dst m)"
  shows "consistent (assign move b src dst m)"
proof -
  let ?m = "use_handle b src (use_handle b dst m)"
  have keep: "ma_misused (assign move b src dst m)" if "ma_misused ?m"
    using that by (auto simp: assign_def Let_def let_go_def assign_raw_def addRef_def on_alive_def)
  then have nm: "\<not> ma_misused ?m" using assms(3) by blast
  then have "\<not> ma_misused (use_handle b dst m)" by (auto simp: use_handle_def split: if_splits)
  then have u: "?m = m" "(b, dst) \<notin> set (clears (ma_stack m))" "(b, src) \<notin> set (clears (ma_stack m))"
    using nm use_handle_cases [of b dst m] use_handle_cases [of b src "use_handle b dst m"] by auto
  have e: "assign move b src dst m =
     (if charged b src m = charged b dst m then m
      else if charged b dst m then let_go (Assign move b src dst) b dst m
      else assign_raw move b src dst m)"
    unfolding assign_def Let_def u(1) ..
  show ?thesis
    using e assms let_go_consistent [OF assms(1) charged_live [OF _ u(2)], of "Assign move b src dst"]
      assign_raw_consistent [OF assms(1) u(3), of dst move]
    by (auto simp: charged_def split: if_splits)
qed

lemma get_future_consistent:
  assumes "consistent m" "below (ma_fresh m) f" "\<not> ma_misused (get_future p f m)"
  shows "consistent (get_future p f m)"
proof -
  let ?m = "use_handle False p (use_handle True f m)"
  have keep: "ma_misused (get_future p f m)" if "ma_misused ?m"
    using that by (auto simp: get_future_def Let_def release_def let_go_def addRef_def on_alive_def)
  then have nm: "\<not> ma_misused ?m" using assms(3) by blast
  then have "\<not> ma_misused (use_handle True f m)" by (auto simp: use_handle_def split: if_splits)
  then have u: "?m = m" "(True, f) \<notin> set (clears (ma_stack m))" "(False, p) \<notin> set (clears (ma_stack m))"
    using nm use_handle_cases [of True f m] use_handle_cases [of False p "use_handle True f m"] by auto
  have e: "get_future p f m =
     (if \<not> charged False p m then release True f m
      else if charged True f m then addRef True f (m\<lparr>ma_stack := DecFuture # ma_stack m\<rparr>)
      else addRef True f m)"
    unfolding get_future_def Let_def u(1) ..
  show ?thesis
  proof (cases "charged False p m")
    case False
    then show ?thesis using e assms release_consistent [OF assms(1) u(2)] by simp
  next
    case p: True
    have al: "ma_alive m" using live_alive [OF assms(1) charged_live [OF p u(3)]] .
    show ?thesis
    proof (cases "charged True f m")
      case False
      then show ?thesis using e p addRef_consistent [OF assms(1) al assms(2)] by (simp add: charged_def)
    next
      case True
      let ?n = "addRef True f (m\<lparr>ma_stack := DecFuture # ma_stack m\<rparr>)"
      have h: "ma_handles ?n = ma_handles m"
        using al True by (auto simp: addRef_def on_alive_def charged_def)
      have l: "lives ?n = lives m" "handle_count b ?n = handle_count b m" for b
        using same_handles [OF h] al by (simp_all add: addRef_def on_alive_def)
      note q = consistent_parts [OF assms(1)]
      have "tidy ?n" "named ?n" "guarded (ma_stack ?n)"
        using q al h by (auto simp: tidy_def named_def addRef_def on_alive_def)
      moreover have "counted ?n" "held ?n"
        using q(3,4) al unfolding counted_def held_def l by (auto simp: addRef_def on_alive_def resolved_def)
      ultimately show ?thesis using e p True by (simp add: consistent_def)
    qed
  qed
qed

subsection \<open>Calls on handles\<close>

lemma Return_consistent:
  assumes "consistent m" "x \<in> lives m"
  shows "consistent (m\<lparr>ma_stack := Return # ma_stack m\<rparr>)" (is "consistent ?m")
proof -
  have l: "lives ?m = lives m" "handle_count b ?m = handle_count b m" for b
    using same_handles [of ?m m] by simp_all
  note p = consistent_parts [OF assms(1)]
  have "counted ?m" using p(3) unfolding counted_def l by auto
  then show ?thesis using p assms(2) by (auto simp: consistent_def tidy_def named_def held_def l)
qed

lemma fresh_consistent:
  assumes "consistent m" "ma_fresh m \<le> n"
  shows "consistent (m\<lparr>ma_fresh := n\<rparr>)" (is "consistent ?m")
proof -
  have l: "lives ?m = lives m" "handle_count b ?m = handle_count b m" for b
    using same_handles [of ?m m] by simp_all
  have b: "below n h" if "below (ma_fresh m) h" for h using that assms(2) by (cases h) auto
  have f: "frame_below n f" if "frame_below (ma_fresh m) f" for f :: "('a, 'b) frame"
    using that assms(2) b by (cases f) auto
  note p = consistent_parts [OF assms(1)]
  have "named ?m" using p(2) assms(2) b f by (auto simp: named_def)
  moreover have "counted ?m" using p(3) unfolding counted_def l by auto
  ultimately show ?thesis using p by (simp add: consistent_def tidy_def held_def l)
qed

text \<open>A step that leaves the counters and turns continuations into references owed by the calls it makes.\<close>

lemma calls_consistent:
  assumes "consistent m" "fs_mode fs = fs_mode (ma_state m)"
    and "fs_futureCounter fs = fs_futureCounter (ma_state m)" "fs_promiseCounter fs = fs_promiseCounter (ma_state m)"
    and "length (fs_continuations (ma_state m)) = length (fs_continuations fs) + owes DecFuture fr"
    and "owes DecPromise fr = 0" "clears fr = []" "Return \<notin> set fr" "guarded (fr @ ma_stack m)"
    and "\<forall>f \<in> set fr. frame_below (ma_fresh m) f"
  shows "consistent (calls (fs, fr) m)" (is "consistent ?m")
proof -
  have l: "lives ?m = lives m" "handle_count b ?m = handle_count b m" for b
    using same_handles [of ?m m] assms(7) by simp_all
  note p = consistent_parts [OF assms(1)]
  have "counted ?m" using p(3) assms(2-6) unfolding counted_def l resolved_def by auto
  then show ?thesis using p assms(7-10) by (auto simp: consistent_def tidy_def named_def held_def l)
qed

lemma resolve_once_consistent:
  assumes "consistent m" "x \<in> lives m" "md \<noteq> Unresolved"
  shows "consistent (resolve_once md m) \<or> ma_stopped (resolve_once md m)"
  using resolve_consistent [OF Return_consistent [OF assms(1,2)], of md] live_alive [OF assms(1,2)] assms(3)
  by (simp add: resolve_once_def stop_def)

lemma push_consistent:
  assumes "consistent m" "x \<in> lives m"
  shows "consistent (then_call b d m)" "consistent (canceled_call b d m)"
proof -
  let ?fs = "ma_state m" and ?c = "Continuation (ma_fresh m) b d"
  let ?m = "m\<lparr>ma_stack := Return # ma_stack m, ma_fresh := ma_fresh m + 1\<rparr>"
  let ?p = "?fs\<lparr>fs_continuations := fs_continuations ?fs @ [?c], fs_futureCounter := fs_futureCounter ?fs + 1\<rparr>"
  let ?q = "?fs\<lparr>fs_cancels := fs_cancels ?fs @ [?c]\<rparr>"
  have al: "ma_alive m" using live_alive [OF assms] .
  have m: "consistent ?m"
    using fresh_consistent [OF Return_consistent [OF assms], of "ma_fresh m + 1"] by simp
  have l: "lives (?m\<lparr>ma_state := ?p\<rparr>) = lives ?m" "handle_count b (?m\<lparr>ma_state := ?p\<rparr>) = handle_count b ?m" for b
    using same_handles [of "?m\<lparr>ma_state := ?p\<rparr>" ?m] by simp_all
  note r = consistent_parts [OF m]
  have "counted (?m\<lparr>ma_state := ?p\<rparr>)" using r(3) al unfolding counted_def l by (auto simp: resolved_def)
  moreover have "held (?m\<lparr>ma_state := ?p\<rparr>)" using r(4) unfolding held_def l by simp
  ultimately have p: "consistent (?m\<lparr>ma_state := ?p\<rparr>)"
    using r(1,2,5) by (simp add: consistent_def tidy_def named_def)
  have e: "then_call b d m =
      (if resolved ?p then calls (executeContinuations ?p) (?m\<lparr>ma_state := ?p\<rparr>) else ?m\<lparr>ma_state := ?p\<rparr>)"
    by (simp add: then_call_def pushContinuation_def Let_def calls_def)
  show "consistent (then_call b d m)"
    unfolding e using p execute_consistent [OF p] al by simp
  have q: "consistent (?m\<lparr>ma_state := ?q\<rparr>)" using m by (intro state_consistent) (simp_all add: resolved_def)
  have e: "canceled_call b d m =
      (if resolved ?q then calls (executeContinuations ?q) (?m\<lparr>ma_state := ?q\<rparr>) else ?m\<lparr>ma_state := ?q\<rparr>)"
    by (simp add: canceled_call_def pushCancelContinuation_def Let_def calls_def)
  show "consistent (canceled_call b d m)"
    unfolding e using q execute_consistent [OF q] al by simp
qed

lemma put_fields [simp]:
  "fs_continuations (put_value v fs) = fs_continuations fs" "fs_cancels (put_value v fs) = fs_cancels fs"
  "fs_futureCounter (put_value v fs) = fs_futureCounter fs" "fs_promiseCounter (put_value v fs) = fs_promiseCounter fs"
  "fs_continuations (put_exception e fs) = fs_continuations fs" "fs_cancels (put_exception e fs) = fs_cancels fs"
  "fs_futureCounter (put_exception e fs) = fs_futureCounter fs"
  "fs_promiseCounter (put_exception e fs) = fs_promiseCounter fs"
  "resolved (put_value v fs) = resolved fs" "resolved (put_exception e fs) = resolved fs"
  by (simp_all add: put_value_def put_exception_def state_value_def state_exception_def resolved_def split: mode.split sum.split)

lemma put_consistent:
  assumes "consistent m"
  shows "consistent (m\<lparr>ma_state := put_value v (ma_state m)\<rparr>)" "consistent (m\<lparr>ma_state := put_exception e (ma_state m)\<rparr>)"
  using assms by (intro state_consistent; simp)+

subsection \<open>Steps of pending calls\<close>

lemma find_co: "find (\<lambda>c. co_id c = i) cs = Some c \<Longrightarrow> c \<in> set cs \<and> co_id c = i"
  by (auto simp: find_Some_iff)

lemma distinct_without:
  assumes "c \<in> set cs" "distinct (map co_id cs)"
  shows "Suc (length (filter (\<lambda>x. co_id x \<noteq> co_id c) cs)) = length cs"
  using assms
proof (induction cs)
  case (Cons a cs)
  then show ?case
    by (cases "a = c") (auto simp: filter_id_conv image_iff intro!: arg_cong [where f = length] filter_True)
qed simp

lemma next_of_mem: "next_of ids cs = Some (c, is) \<Longrightarrow> c \<in> set cs"
  by (auto simp: next_of_def split: list.splits dest!: find_co)

lemma flush_consistent:
  assumes "consistent m" "distinct (map co_id (fs_continuations (ma_state m)))"
  shows "consistent (removeAndDelete code i m)"
proof -
  have w: "length cs = Suc (length (filter (\<lambda>x. co_id x \<noteq> i) cs))"
    if "find (\<lambda>c. co_id c = i) cs = Some c" "distinct (map co_id cs)" for c cs
    using find_co [OF that(1)] distinct_without [of c cs] that(2) by auto
  note p = consistent_parts [OF assms(1)]
  show ?thesis
    using assms p(2,5)
    by (auto simp: removeAndDelete_def Let_def named_def intro!: calls_consistent w split: option.splits)
qed

lemma activate_consistent:
  assumes "consistent m" "ma_alive m" "distinct (map co_id (fs_continuations (ma_state m)))"
  shows "consistent (activate_next code ids m)" "consistent (activate_next_cancel code ids m)"
proof -
  have w: "length cs = Suc (length (without c cs))"
    if "next_of ids cs = Some (c, is)" "distinct (map co_id cs)" for c "is" cs
    using next_of_mem [OF that(1)] distinct_without [of c cs] that(2) by (simp add: without_def)
  note p = consistent_parts [OF assms(1)]
  have act: "consistent (n\<lparr>ma_activated := a\<rparr>) = consistent n" for n :: "('a, 'b) machine" and a
    by (simp add: consistent_defs)
  show "consistent (activate_next_cancel code ids m)"
    using assms(1) p(2,5) act
    by (auto simp: activate_next_cancel_def named_def intro!: calls_consistent split: option.splits)
  show "consistent (activate_next code ids m)"
  proof (cases "next_of ids (fs_continuations (ma_state m))")
    case (Some r)
    obtain c "is" where r: "r = (c, is)" by (cases r)
    let ?n = "m\<lparr>ma_activated := ma_activated m @ [co_id c], ma_fresh := ma_fresh m + 1\<rparr>"
    let ?fr = "[Run (ma_fresh m) (code (co_body c)), Destroy True (Source (ma_fresh m)), DecFuture,
        Run 0 (code (co_dtor c)), Activate is]"
    have "?n = (m\<lparr>ma_fresh := ma_fresh m + 1\<rparr>)\<lparr>ma_activated := ma_activated m @ [co_id c]\<rparr>" by simp
    then have "consistent ?n" using act fresh_consistent [OF assms(1), of "ma_fresh m + 1"] by (metis le_add1)
    moreover have "length (fs_continuations (ma_state m)) = Suc (length (without c (fs_continuations (ma_state m))))"
      using w Some assms(3) unfolding r by blast
    ultimately have "consistent (calls ((ma_state m)\<lparr>fs_continuations := without c (fs_continuations (ma_state m))\<rparr>, ?fr) ?n)"
      using p(2,5) by (intro calls_consistent) (auto simp: named_def)
    then have "consistent (addRef True (Source (ma_fresh m))
        (calls ((ma_state m)\<lparr>fs_continuations := without c (fs_continuations (ma_state m))\<rparr>, ?fr) ?n))"
      using assms(2) p(2) by (intro addRef_consistent) (auto simp: named_def)
    then show ?thesis using Some r by (simp add: activate_next_def)
  qed (simp add: activate_next_def assms(1))
qed

lemma delete_consistent:
  assumes "consistent m" "guarded (again # ma_stack m)" "clear_of again = []" "\<not> is_guard again"
    "frame_below (ma_fresh m) again"
  shows "consistent (delete_first code again m)" "consistent (delete_first_cancel code again m)"
proof -
  have a: "again \<noteq> DecFuture" "again \<noteq> DecPromise" "again \<noteq> Return" using assms(4) by auto
  note p = consistent_parts [OF assms(1)]
  show "consistent (delete_first code again m)" "consistent (delete_first_cancel code again m)"
    using assms p(2) a
    by (auto simp: delete_first_def delete_first_cancel_def named_def intro!: calls_consistent split: list.split)
qed

lemma no_lives:
  assumes "tidy m" "handle_count True m = 0" "handle_count False m = 0"
  shows "lives m = {}"
proof -
  have "{x \<in> lives m. fst x = b} = {}" for b
    using assms finite_lives [OF assms(1)] by (cases b) (simp_all add: handle_count_def)
  then show ?thesis by blast
qed

lemma check_consistent:
  assumes "ma_alive m" "tidy m" "named m" "held m" "guarded (ma_stack m)"
    and "fs_continuations fs = fs_continuations (ma_state m)"
    and "fs_futureCounter fs = handle_count True m + length (fs_continuations fs) + owes DecFuture (ma_stack m)"
    and "fs_promiseCounter fs = handle_count False m + owes DecPromise (ma_stack m)"
  shows "consistent (calls_check (checkCounters fs) m)"
proof -
  have upd: "consistent (m\<lparr>ma_state := fs'\<rparr>)"
    if "fs_continuations fs' = fs_continuations fs" "fs_futureCounter fs' = fs_futureCounter fs"
      "fs_promiseCounter fs' = fs_promiseCounter fs" "0 < fs_futureCounter fs \<or> 0 < fs_promiseCounter fs"
      "resolved fs' \<or> 0 < fs_promiseCounter fs" for fs'
  proof -
    let ?m = "m\<lparr>ma_state := fs'\<rparr>"
    have l: "lives ?m = lives m" "handle_count b ?m = handle_count b m" for b
      using same_handles [of ?m m] by simp_all
    have "counted ?m" using that assms(1,6-8) unfolding counted_def l by auto
    then show ?thesis using assms(2-5) by (simp add: consistent_def tidy_def named_def held_def l)
  qed
  consider (dead) "fs_promiseCounter fs = 0" "fs_futureCounter fs = 0"
    | (ok) "0 < fs_futureCounter fs \<or> 0 < fs_promiseCounter fs"
        "resolved fs \<or> 0 < fs_futureCounter fs \<and> 0 < fs_promiseCounter fs"
    | (cancel) "0 < fs_futureCounter fs \<or> 0 < fs_promiseCounter fs" "\<not> resolved fs"
        "fs_futureCounter fs = 0 \<or> fs_promiseCounter fs = 0"
    by (cases "resolved fs"; cases "fs_futureCounter fs = 0"; cases "fs_promiseCounter fs = 0") auto
  then show ?thesis
  proof cases
    case dead
    let ?m = "m\<lparr>ma_alive := False, ma_stack := destroy_state @ ma_stack m\<rparr>"
    have none: "lives m = {}" using dead assms(7,8) by (intro no_lives [OF assms(2)]) simp_all
    have l: "lives ?m = {}" using same_handles(1) [of ?m m] none by (simp add: destroy_state_def)
    have "tidy ?m" "named ?m" "guarded (ma_stack ?m)"
      using assms(2,3,5) by (auto simp: tidy_def named_def destroy_state_def)
    moreover have "counted ?m" "held ?m"
      using dead assms(4,6-8) none unfolding counted_def held_def l by (auto simp: destroy_state_def)
    ultimately have "consistent ?m" by (simp add: consistent_def)
    then show ?thesis using dead by (simp add: checkCounters_def calls_check_def)
  next
    case ok
    then have "checkCounters fs = (Some fs, [])" by (auto simp: checkCounters_def)
    then show ?thesis using upd [of fs] ok by (auto simp: calls_check_def calls_def)
  next
    case cancel
    let ?fs = "fs\<lparr>fs_mode := Cancel, fs_raised := True\<rparr>"
    have "consistent (m\<lparr>ma_state := ?fs\<rparr>)" using cancel(1) by (intro upd) (simp_all add: resolved_def)
    then have "consistent (calls (executeContinuations (ma_state (m\<lparr>ma_state := ?fs\<rparr>))) (m\<lparr>ma_state := ?fs\<rparr>))"
      by (rule execute_consistent) (simp_all add: assms)
    moreover have "checkCounters fs = map_prod Some (\<lambda>x. x) (executeContinuations ?fs)"
      using cancel by (auto simp: checkCounters_def resolveCancel_def resolve_as_def)
    ultimately show ?thesis by (simp add: calls_check_def calls_def)
  qed
qed

lemma dec_consistent:
  assumes "consistent m"
  shows "ma_stack m = DecFuture # s \<Longrightarrow> consistent (machine_step code DecFuture (m\<lparr>ma_stack := s\<rparr>))"
    and "ma_stack m = DecPromise # s \<Longrightarrow> consistent (machine_step code DecPromise (m\<lparr>ma_stack := s\<rparr>))"
proof -
  let ?fs = "ma_state m"
  note p = consistent_parts [OF assms]
  have *: "consistent (calls_check (checkCounters fs) (m\<lparr>ma_stack := s\<rparr>))"
    if "ma_stack m = f # s" "f = DecFuture \<or> f = DecPromise" "ma_alive m"
      "fs_futureCounter ?fs = fs_futureCounter fs + (if f = DecFuture then 1 else 0)"
      "fs_promiseCounter ?fs = fs_promiseCounter fs + (if f = DecPromise then 1 else 0)"
      "fs_continuations fs = fs_continuations ?fs" for f fs
  proof -
    let ?m = "m\<lparr>ma_stack := s\<rparr>"
    have l: "lives ?m = lives m" "handle_count b ?m = handle_count b m" for b
      using same_handles [of ?m m] that(1,2) by auto
    have "tidy ?m" "named ?m" "held ?m" "guarded s"
      using p that(1,2) by (auto simp: tidy_def named_def held_def l)
    moreover have "fs_futureCounter fs = handle_count True ?m + length (fs_continuations fs) + owes DecFuture s"
      "fs_promiseCounter fs = handle_count False ?m + owes DecPromise s"
      using p(3) that unfolding counted_def l by auto
    ultimately show ?thesis using that(3,6) by (intro check_consistent) simp_all
  qed
  show "consistent (machine_step code DecFuture (m\<lparr>ma_stack := s\<rparr>))" if s: "ma_stack m = DecFuture # s"
  proof -
    have "ma_alive m" "0 < fs_futureCounter ?fs" using guard_alive [OF assms] p(3) s by (auto simp: counted_def)
    then show ?thesis
      using *[OF s, of "?fs\<lparr>fs_futureCounter := count_down (fs_futureCounter ?fs)\<rparr>"]
      by (simp add: on_alive_def decFutureCounter_def count_down_def)
  qed
  show "consistent (machine_step code DecPromise (m\<lparr>ma_stack := s\<rparr>))" if s: "ma_stack m = DecPromise # s"
  proof -
    have "ma_alive m" "0 < fs_promiseCounter ?fs" using guard_alive [OF assms] p(3) s by (auto simp: counted_def)
    then show ?thesis
      using *[OF s, of "?fs\<lparr>fs_promiseCounter := count_down (fs_promiseCounter ?fs)\<rparr>"]
      by (simp add: on_alive_def decPromiseCounter_def count_down_def)
  qed
qed

text \<open>The ends of a release and of a call.\<close>

lemma clear_consistent:
  assumes "consistent m" "ma_stack m = f # s" "clear_of f = [(b, h)]"
  shows "consistent (m\<lparr>ma_stack := s, ma_handles := ma_handles m - {(b, h)}\<rparr>)" (is "consistent ?m")
proof -
  note p = consistent_parts [OF assms(1)]
  have f: "f \<noteq> DecFuture" "f \<noteq> DecPromise" using assms(3) by auto
  have l: "lives ?m = lives m" using assms(2,3) by (auto simp: lives_def)
  then have c: "handle_count b ?m = handle_count b m" for b by (simp add: handle_count_def)
  have "tidy ?m" "named ?m" "held ?m" using p assms(2,3) by (auto simp: tidy_def named_def held_def l)
  moreover have "counted ?m" using p(3) f assms(2) unfolding counted_def c l by auto
  ultimately show ?thesis using p(5) assms(2) by (simp add: consistent_def)
qed

lemma Return_pop:
  assumes "consistent m" "ma_stack m = Return # s"
  shows "consistent (m\<lparr>ma_stack := s\<rparr>)" (is "consistent ?m")
proof -
  note p = consistent_parts [OF assms(1)]
  have l: "lives ?m = lives m" "handle_count b ?m = handle_count b m" for b
    using same_handles [of ?m m] assms(2) by simp_all
  have "counted ?m" using p(3) assms(2) unfolding counted_def l by auto
  then show ?thesis using p assms(2) by (auto simp: consistent_def tidy_def named_def held_def l)
qed

subsection \<open>Continuations are numbered\<close>

definition ids_of :: "continuation list \<Rightarrow> nat set" where
  "ids_of cs = set (map co_id cs)"

definition numbered :: "('v, 'e) machine \<Rightarrow> bool" where
  "numbered m \<longleftrightarrow>
     distinct (map co_id (fs_continuations (ma_state m))) \<and> distinct (map co_id (fs_cancels (ma_state m))) \<and>
     ids_of (fs_continuations (ma_state m)) \<inter> ids_of (fs_cancels (ma_state m)) = {} \<and>
     distinct (ma_activated m) \<and>
     (ids_of (fs_continuations (ma_state m)) \<union> ids_of (fs_cancels (ma_state m))) \<inter> set (ma_activated m) = {} \<and>
     (\<forall>i \<in> ids_of (fs_continuations (ma_state m)) \<union> ids_of (fs_cancels (ma_state m)) \<union> set (ma_activated m). i < ma_fresh m)"

lemma ids_of_simps [simp]:
  "ids_of [] = {}" "ids_of (c # cs) = insert (co_id c) (ids_of cs)" "ids_of (cs @ ds) = ids_of cs \<union> ids_of ds"
  "ids_of (filter (\<lambda>x. co_id x \<noteq> i) cs) = ids_of cs - {i}"
  by (auto simp: ids_of_def)

text \<open>A step that only takes continuations out of their boxes.\<close>

lemma numbered_shrink:
  assumes "numbered m"
    and "distinct (map co_id (fs_continuations (ma_state m')))" "distinct (map co_id (fs_cancels (ma_state m')))"
    and "ids_of (fs_continuations (ma_state m')) \<subseteq> ids_of (fs_continuations (ma_state m))"
    and "ids_of (fs_cancels (ma_state m')) \<subseteq> ids_of (fs_cancels (ma_state m))"
    and "ma_activated m' = ma_activated m" "ma_fresh m' = ma_fresh m"
  shows "numbered m'"
proof -
  let ?A = "ids_of (fs_continuations (ma_state m))" and ?B = "ids_of (fs_cancels (ma_state m))"
  have n: "?A \<inter> ?B = {}" "distinct (ma_activated m)" "(?A \<union> ?B) \<inter> set (ma_activated m) = {}"
    "\<forall>i \<in> ?A \<union> ?B \<union> set (ma_activated m). i < ma_fresh m"
    using assms(1) by (simp_all add: numbered_def)
  show ?thesis
    unfolding numbered_def assms(6,7)
    using n(1,2,3) assms(2,3,4,5) subsetD [OF assms(4)] subsetD [OF assms(5)] n(4)
    by (intro conjI ballI) (assumption, assumption, blast, assumption, blast, blast)
qed

lemma distinct_rest: "distinct (map co_id cs) \<Longrightarrow> distinct (map co_id (filter P cs))"
  by (rule distinct_map_filter)

lemma numbered_distinct:
  "numbered m \<Longrightarrow> distinct (map co_id (fs_continuations (ma_state m)))"
  "numbered m \<Longrightarrow> distinct (map co_id (fs_cancels (ma_state m)))"
  by (simp_all add: numbered_def)

text \<open>Steps that leave the boxes and the mode, and only add pending calls.\<close>

definition keeps :: "('v, 'e) machine \<Rightarrow> ('v, 'e) machine \<Rightarrow> bool" where
  "keeps m m' \<longleftrightarrow> fs_continuations (ma_state m') = fs_continuations (ma_state m) \<and>
     fs_cancels (ma_state m') = fs_cancels (ma_state m) \<and> resolved (ma_state m') = resolved (ma_state m) \<and>
     ma_activated m' = ma_activated m \<and> ma_fresh m' = ma_fresh m \<and>
     (ma_bad m' \<or> ma_stopped m' \<or> set (ma_stack m) \<subseteq> set (ma_stack m'))"

lemma numbered_keeps: "numbered m \<Longrightarrow> keeps m m' \<Longrightarrow> numbered m'"
  by (simp add: numbered_def keeps_def)

lemma keeps_refl [simp]: "keeps m m"
  by (simp add: keeps_def)

lemma keeps_handles [simp]:
  "keeps m (use_handle b h m)" "keeps m (addRef b h m)" "keeps m (let_go f b h m)" "keeps m (release b h m)"
  "keeps m (assign_raw move b src dst m)" "keeps m (stop m)"
  by (auto simp: keeps_def use_handle_def addRef_def on_alive_def let_go_def release_def assign_raw_def stop_def resolved_def)

lemma keeps_trans: "keeps m n \<Longrightarrow> keeps n k \<Longrightarrow> ma_stack n \<noteq> [] \<or> ma_stack m = [] \<Longrightarrow> ma_bad n = ma_bad m \<Longrightarrow> ma_stopped n = ma_stopped m
   \<Longrightarrow> \<not> ma_bad m \<Longrightarrow> \<not> ma_stopped m \<Longrightarrow> keeps m k"
  by (auto simp: keeps_def)

lemma use_handle_simps [simp]:
  "ma_state (use_handle b h m) = ma_state m" "ma_alive (use_handle b h m) = ma_alive m"
  "ma_handles (use_handle b h m) = ma_handles m" "ma_fresh (use_handle b h m) = ma_fresh m"
  "ma_stack (use_handle b h m) = ma_stack m" "ma_activated (use_handle b h m) = ma_activated m"
  "ma_stopped (use_handle b h m) = ma_stopped m" "ma_bad (use_handle b h m) = ma_bad m"
  "charged c k (use_handle b h m) = charged c k m"
  by (simp_all add: use_handle_def charged_def)

lemma keeps_use [simp]: "keeps (use_handle b h m) m' = keeps m m'"
  by (simp add: keeps_def)

lemma keeps_assign [simp]: "keeps m (assign move b src dst m)" "keeps m (get_future p f m)"
proof -
  have u: "keeps m k" if "keeps (use_handle b src (use_handle b dst m)) k" for k using that by simp
  show "keeps m (assign move b src dst m)"
    unfolding assign_def Let_def by (rule u) (simp del: keeps_use)
  show "keeps m (get_future p f m)"
    using keeps_handles(4) [of "use_handle False p (use_handle True f m)" True f]
      keeps_handles(2) [of "use_handle False p (use_handle True f m)" True f]
    unfolding get_future_def Let_def keeps_use
    by (auto simp: keeps_def addRef_def on_alive_def resolved_def use_handle_def)
qed

lemma resolve_boxes [simp]:
  "fs_continuations (fst (executeContinuations fs)) = fs_continuations fs"
  "fs_cancels (fst (executeContinuations fs)) = fs_cancels fs" "fs_mode (fst (executeContinuations fs)) = fs_mode fs"
  "fs_continuations (fst (resolveCancel fs)) = fs_continuations fs" "fs_cancels (fst (resolveCancel fs)) = fs_cancels fs"
  "fs_continuations (fst (resolve_as md fs)) = fs_continuations fs" "fs_cancels (fst (resolve_as md fs)) = fs_cancels fs"
  "fs_mode (fst (resolve_as md fs)) = md"
proof -
  show e: "fs_continuations (fst (executeContinuations fs)) = fs_continuations fs"
    "fs_cancels (fst (executeContinuations fs)) = fs_cancels fs" "fs_mode (fst (executeContinuations fs)) = fs_mode fs"
    for fs :: "('a, 'b) fstate"
    by (simp_all add: executeContinuations_def split: mode.split)
  show "fs_continuations (fst (resolve_as md fs)) = fs_continuations fs" "fs_cancels (fst (resolve_as md fs)) = fs_cancels fs"
    "fs_mode (fst (resolve_as md fs)) = md" for md and fs :: "('a, 'b) fstate"
    by (simp_all add: resolve_as_def e)
  then show "fs_continuations (fst (resolveCancel fs)) = fs_continuations fs" "fs_cancels (fst (resolveCancel fs)) = fs_cancels fs"
    by (simp_all add: resolveCancel_def)
qed

lemma numbered_boxes:
  "numbered m \<Longrightarrow> fs_continuations (ma_state m') = fs_continuations (ma_state m) \<Longrightarrow>
    fs_cancels (ma_state m') = fs_cancels (ma_state m) \<Longrightarrow> ma_activated m' = ma_activated m \<Longrightarrow> ma_fresh m' = ma_fresh m
    \<Longrightarrow> numbered m'"
  by (simp add: numbered_def)

lemma push_boxes [simp]:
  "fs_continuations (ma_state (then_call b d m)) = fs_continuations (ma_state m) @ [Continuation (ma_fresh m) b d]"
  "fs_cancels (ma_state (then_call b d m)) = fs_cancels (ma_state m)"
  "fs_continuations (ma_state (canceled_call b d m)) = fs_continuations (ma_state m)"
  "fs_cancels (ma_state (canceled_call b d m)) = fs_cancels (ma_state m) @ [Continuation (ma_fresh m) b d]"
  "ma_activated (then_call b d m) = ma_activated m" "ma_activated (canceled_call b d m) = ma_activated m"
  "ma_fresh (then_call b d m) = ma_fresh m + 1" "ma_fresh (canceled_call b d m) = ma_fresh m + 1"
  by (simp_all add: then_call_def canceled_call_def pushContinuation_def pushCancelContinuation_def Let_def)

lemma numbered_push:
  assumes "numbered m"
  shows "numbered (then_call b d m)" "numbered (canceled_call b d m)"
proof -
  have n: "i < ma_fresh m" if "i \<in> ids_of (fs_continuations (ma_state m)) \<union> ids_of (fs_cancels (ma_state m)) \<union> set (ma_activated m)" for i
    using assms that unfolding numbered_def by blast
  then have "ma_fresh m \<notin> ids_of (fs_continuations (ma_state m)) \<union> ids_of (fs_cancels (ma_state m)) \<union> set (ma_activated m)"
    by blast
  then show "numbered (then_call b d m)" "numbered (canceled_call b d m)"
    using assms by (auto simp: numbered_def ids_of_def intro: less_SucI)
qed

lemma numbered_flush: "numbered m \<Longrightarrow> numbered (removeAndDelete code i m)"
  by (rule numbered_shrink, assumption)
     (auto simp: removeAndDelete_def Let_def numbered_distinct distinct_rest split: option.splits)

lemma numbered_use [simp]: "numbered (use_handle b h m) = numbered m"
  by (simp add: numbered_def)

lemma keeps_uncharge:
  "keeps m (release b h (use_handle b h m))" "keeps m (assign_raw move b src dst (use_handle b src m))"
  by (metis keeps_use keeps_handles(4), metis keeps_use keeps_handles(5))

lemma numbered_method:
  "numbered m \<Longrightarrow> (\<And>m. numbered m \<Longrightarrow> numbered (f m)) \<Longrightarrow> numbered (on_handle b h f m)"
  by (auto simp: on_handle_def on_alive_def elim: numbered_boxes intro: numbered_keeps)

lemma numbered_calls:
  assumes "numbered m"
  shows "numbered (resolve_once md m)" "numbered (calls (resolveCancel (ma_state m)) m)"
    "numbered (access (put_value v) m)" "numbered (access (put_exception e) m)"
    "numbered (take_from h (put_value v) m)" "numbered (take_from h (put_exception e) m)"
  by (rule numbered_boxes [OF assms]; simp add: resolve_once_def access_def take_from_def on_alive_def stop_def)+

lemma numbered_perform:
  assumes "numbered m"
  shows "numbered (perform code n x m)"
  using assms
  by (cases x)
     (simp_all add: numbered_keeps [OF assms] keeps_uncharge numbered_method numbered_calls numbered_push numbered_flush)

lemma next_of_spec:
  "next_of ids cs = Some (c, is) \<Longrightarrow> c \<in> set cs \<and> co_id c \<in> set ids \<and> ids_of cs \<inter> set ids \<subseteq> insert (co_id c) (set is)"
  by (auto simp: next_of_def ids_of_def filter_eq_Cons_iff split: list.splits dest!: find_co)

lemma numbered_activate:
  assumes "numbered m"
  shows "numbered (activate_next code ids m)" "numbered (activate_next_cancel code ids m)"
proof -
  have k: "numbered (addRef b h n)" if "numbered n" for b h and n :: "('a, 'b) machine"
    using that by (rule numbered_keeps) simp
  have "numbered (activate_next code ids m)" if "next_of ids (fs_continuations (ma_state m)) = Some (c, is)" for c "is"
  proof -
    have "co_id c \<in> ids_of (fs_continuations (ma_state m))"
      using next_of_mem [OF that] by (auto simp: ids_of_def)
    then have "numbered (calls ((ma_state m)\<lparr>fs_continuations := without c (fs_continuations (ma_state m))\<rparr>, fr)
        (m\<lparr>ma_activated := ma_activated m @ [co_id c], ma_fresh := ma_fresh m + 1\<rparr>))" for fr
      using assms by (auto simp: numbered_def without_def distinct_rest less_SucI)
    then show ?thesis using that by (simp add: activate_next_def k)
  qed
  then show "numbered (activate_next code ids m)"
    using assms by (auto simp: activate_next_def split: option.splits)
  have "numbered (activate_next_cancel code ids m)" if "next_of ids (fs_cancels (ma_state m)) = Some (c, is)" for c "is"
  proof -
    have "co_id c \<in> ids_of (fs_cancels (ma_state m))"
      using next_of_mem [OF that] by (auto simp: ids_of_def)
    then show ?thesis
      using assms that by (auto simp: numbered_def activate_next_cancel_def without_def distinct_rest)
  qed
  then show "numbered (activate_next_cancel code ids m)"
    using assms by (auto simp: activate_next_cancel_def split: option.splits)
qed

lemma numbered_check:
  "numbered m \<Longrightarrow> fs_continuations fs = fs_continuations (ma_state m) \<Longrightarrow> fs_cancels fs = fs_cancels (ma_state m)
     \<Longrightarrow> numbered (calls_check (checkCounters fs) m)"
  by (rule numbered_shrink, assumption)
     (auto simp: numbered_distinct calls_check_def checkCounters_def split: prod.splits)

lemma numbered_delete:
  "numbered m \<Longrightarrow> numbered (delete_first code again m)" "numbered m \<Longrightarrow> numbered (delete_first_cancel code again m)"
  by (auto simp: numbered_def delete_first_def delete_first_cancel_def split: list.splits)

lemma numbered_alive: "numbered m \<Longrightarrow> (\<And>m. numbered m \<Longrightarrow> numbered (f m)) \<Longrightarrow> numbered (on_alive f m)"
  by (auto simp: on_alive_def numbered_def)

lemma numbered_step:
  assumes "numbered m"
  shows "numbered (machine_step code f m)"
proof (cases "\<exists>n xs. f = Run n xs")
  case True
  then obtain n xs where f: "f = Run n xs" by blast
  have "numbered (m\<lparr>ma_stack := t\<rparr>)" for t using assms by (rule numbered_boxes) simp_all
  then show ?thesis using assms by (cases xs) (simp_all add: f numbered_perform)
next
  case False
  have h: "numbered (m\<lparr>ma_handles := t\<rparr>)" for t using assms by (rule numbered_boxes) simp_all
  show ?thesis
  proof (cases f)
    case (Assign move b src dst)
    then show ?thesis by (simp add: numbered_keeps [OF h keeps_uncharge(2)])
  qed (use False assms in \<open>simp_all add: numbered_activate numbered_delete numbered_alive numbered_check
      decFutureCounter_def decPromiseCounter_def numbered_keeps [OF assms] keeps_uncharge\<close>,
    use assms in \<open>simp_all add: numbered_def on_alive_def\<close>)
qed

subsection \<open>Nothing is forgotten\<close>

text \<open>The calls that will take a continuation of either box out of it.\<close>

fun covers :: "nat \<Rightarrow> ('v, 'e) frame \<Rightarrow> bool" where
  "covers i (Activate ids) = (i \<in> set ids)"
| "covers i DeleteAll = True" | "covers i DestroyAll = True"
| "covers i StartActivate = True" | "covers i AfterCancels = True"
| "covers i _ = False"

fun covers_cancel :: "nat \<Rightarrow> ('v, 'e) frame \<Rightarrow> bool" where
  "covers_cancel i (ActivateCancels ids) = (i \<in> set ids)"
| "covers_cancel i DeleteCancels = True" | "covers_cancel i DestroyCancels = True"
| "covers_cancel i _ = False"

definition covered :: "('v, 'e) machine \<Rightarrow> bool" where
  "covered m \<longleftrightarrow> (resolved (ma_state m) \<and> ma_alive m \<longrightarrow>
     (\<forall>i \<in> ids_of (fs_continuations (ma_state m)). list_ex (covers i) (ma_stack m)) \<and>
     (\<forall>i \<in> ids_of (fs_cancels (ma_state m)). list_ex (covers_cancel i) (ma_stack m)))"

lemma execute_covers:
  assumes "fs_mode fs = Cancel \<Longrightarrow> 0 < fs_promiseCounter fs \<or> 0 < fs_futureCounter fs" "resolved fs"
  shows "list_ex (covers i) (snd (executeContinuations fs))"
    and "i \<in> ids_of (fs_cancels fs) \<Longrightarrow> list_ex (covers_cancel i) (snd (executeContinuations fs))"
  using assms by (auto simp: executeContinuations_def resolved_def ids_of_def split: mode.splits)

lemma covered_execute:
  assumes "fs_mode fs = Cancel \<Longrightarrow> 0 < fs_promiseCounter fs \<or> 0 < fs_futureCounter fs" "resolved fs"
  shows "covered (calls (executeContinuations fs) m)"
  using execute_covers [OF assms] by (auto simp: covered_def)

lemma covered_calls:
  assumes "covered m" "resolved fs \<Longrightarrow> resolved (ma_state m)"
    and "ids_of (fs_continuations fs) \<subseteq> ids_of (fs_continuations (ma_state m))"
    and "ids_of (fs_cancels fs) \<subseteq> ids_of (fs_cancels (ma_state m))"
  shows "covered (calls (fs, fr) m)"
  using assms by (auto simp: covered_def)

lemma covered_cancel:
  assumes "covered m" "0 < fs_promiseCounter (ma_state m) \<or> 0 < fs_futureCounter (ma_state m)"
  shows "covered (calls (resolveCancel (ma_state m)) m)"
  using assms covered_execute [of "(ma_state m)\<lparr>fs_mode := Cancel, fs_raised := True\<rparr>" m]
    covered_calls [of m "ma_state m" "[]"]
  by (auto simp: resolveCancel_def resolve_as_def resolved_def)

lemma covered_keeps:
  assumes "covered m" "keeps m m'" "\<not> ma_bad m'" "\<not> ma_stopped m'" "ma_alive m' = ma_alive m"
  shows "covered m'"
  using assms unfolding covered_def keeps_def list_ex_iff by fastforce

lemma covered_pop:
  assumes "covered m" "ma_stack m = f # s" "\<And>i. \<not> covers i f" "\<And>i. \<not> covers_cancel i f"
  shows "covered (m\<lparr>ma_stack := s\<rparr>)"
  using assms by (auto simp: covered_def)

lemma live_counts:
  assumes "consistent m" "x \<in> lives m"
  shows "0 < fs_promiseCounter (ma_state m) \<or> 0 < fs_futureCounter (ma_state m)"
  using assms live_alive [OF assms] by (auto simp: consistent_def counted_def)

lemma covered_resolve:
  assumes "covered m" "md \<noteq> Cancel" "md \<noteq> Unresolved"
  shows "covered (resolve_once md m) \<or> ma_stopped (resolve_once md m)"
  using assms covered_execute [of "(ma_state m)\<lparr>fs_mode := md, fs_raised := True\<rparr>" "m\<lparr>ma_stack := Return # ma_stack m\<rparr>"]
  by (auto simp: resolve_once_def stop_def resolve_as_def resolved_def)

lemma covered_push:
  assumes "consistent m" "x \<in> lives m" "covered m"
  shows "covered (then_call b d m)" "covered (canceled_call b d m)"
proof -
  let ?fs = "ma_state m" and ?c = "Continuation (ma_fresh m) b d"
  let ?m = "m\<lparr>ma_stack := Return # ma_stack m, ma_fresh := ma_fresh m + 1\<rparr>"
  have al: "ma_alive m" using live_alive [OF assms(1,2)] .
  show "covered (then_call b d m)"
    using assms(3) al covered_execute [of "?fs\<lparr>fs_continuations := fs_continuations ?fs @ [?c],
        fs_futureCounter := fs_futureCounter ?fs + 1\<rparr>" ?m]
    by (auto simp: then_call_def pushContinuation_def Let_def) (simp_all add: covered_def resolved_def)
  show "covered (canceled_call b d m)"
    using assms(3) al live_counts [OF assms(1,2)] covered_execute [of "?fs\<lparr>fs_cancels := fs_cancels ?fs @ [?c]\<rparr>" ?m]
    by (auto simp: canceled_call_def pushCancelContinuation_def Let_def) (simp_all add: covered_def resolved_def)
qed

lemma covered_flush: "covered m \<Longrightarrow> covered (removeAndDelete code i m)"
  by (auto simp: removeAndDelete_def Let_def intro!: covered_calls split: option.splits) (simp_all add: resolved_def)

lemma next_of_None: "next_of ids cs = None \<Longrightarrow> i \<in> ids_of cs \<Longrightarrow> i \<notin> set ids"
  by (auto simp: next_of_def ids_of_def find_None_iff filter_empty_conv filter_eq_Cons_iff split: list.splits)

lemma covered_activate:
  assumes "covered m" "ma_alive m"
  shows "ma_stack m = Activate ids # s \<Longrightarrow> covered (activate_next code ids (m\<lparr>ma_stack := s\<rparr>))"
    and "ma_stack m = ActivateCancels ids # s \<Longrightarrow> covered (activate_next_cancel code ids (m\<lparr>ma_stack := s\<rparr>))"
  using assms
  by (auto simp: activate_next_def activate_next_cancel_def addRef_def on_alive_def covered_def without_def resolved_def
      split: option.splits dest: next_of_None next_of_spec)

lemma covered_delete:
  assumes "covered m" "ma_stack m = f # s"
  shows "f = DeleteAll \<or> f = DestroyAll \<Longrightarrow> covered (delete_first code f (m\<lparr>ma_stack := s\<rparr>))"
    and "f = DeleteCancels \<or> f = DestroyCancels \<Longrightarrow> covered (delete_first_cancel code f (m\<lparr>ma_stack := s\<rparr>))"
  using assms
  by (auto simp: covered_def resolved_def delete_first_def delete_first_cancel_def split: list.splits)

lemma covered_check:
  assumes "covered m" "ma_alive m" "fs_continuations fs = fs_continuations (ma_state m)" "fs_cancels fs = fs_cancels (ma_state m)"
    "fs_mode fs = fs_mode (ma_state m)"
  shows "covered (calls_check (checkCounters fs) m)"
proof (cases "fs_promiseCounter fs = 0 \<and> fs_futureCounter fs = 0")
  case True
  then show ?thesis by (simp add: checkCounters_def calls_check_def covered_def destroy_state_def)
next
  case False
  have "covered (calls (fs, []) m)" using assms by (intro covered_calls) (simp_all add: resolved_def)
  moreover have "covered (calls (executeContinuations (fs\<lparr>fs_mode := Cancel, fs_raised := True\<rparr>)) m)"
    using False by (intro covered_execute) (auto simp: resolved_def)
  ultimately show ?thesis
    using False by (auto simp: checkCounters_def calls_check_def resolveCancel_def resolve_as_def)
qed

subsection \<open>The invariant of the machine\<close>

definition running :: "('v, 'e) machine \<Rightarrow> bool" where
  "running m \<longleftrightarrow> consistent m \<and> numbered m \<and> covered m"

definition sound :: "('v, 'e) machine \<Rightarrow> bool" where
  "sound m \<longleftrightarrow> ma_misused m \<or> \<not> ma_bad m \<and> ma_stopped m \<and> ma_stack m = [] \<or> running m"

lemma running_flags: "running m \<Longrightarrow> \<not> ma_bad m \<and> \<not> ma_stopped m"
  by (simp add: running_def consistent_def tidy_def)

lemma stop_sound: "running m \<Longrightarrow> sound (stop m)"
  using running_flags [of m] by (simp add: sound_def stop_def)

text \<open>Misuse is remembered.\<close>

lemma misused_handles [simp]:
  "ma_misused m \<Longrightarrow> ma_misused (use_handle b h m)" "ma_misused (addRef b h m) = ma_misused m"
  "ma_misused m \<Longrightarrow> ma_misused (let_go f b h m)" "ma_misused m \<Longrightarrow> ma_misused (release b h m)"
  "ma_misused (assign_raw move b src dst m) = ma_misused m" "ma_misused (stop m) = ma_misused m"
  by (auto simp: use_handle_def addRef_def on_alive_def let_go_def release_def assign_raw_def stop_def)

lemma misused_assign [simp]:
  "ma_misused m \<Longrightarrow> ma_misused (assign move b src dst m)" "ma_misused m \<Longrightarrow> ma_misused (get_future p f m)"
  by (auto simp: assign_def get_future_def Let_def)

lemma misused_calls [simp]:
  "ma_misused (resolve_once md m) = ma_misused m" "ma_misused (then_call b d m) = ma_misused m"
  "ma_misused (canceled_call b d m) = ma_misused m" "ma_misused (access g m) = ma_misused m"
  "ma_misused (removeAndDelete code i m) = ma_misused m"
  "ma_misused (calls_check r m) = ma_misused m"
  "ma_misused (activate_next code ids m) = ma_misused m" "ma_misused (activate_next_cancel code ids m) = ma_misused m"
  "ma_misused (delete_first code again m) = ma_misused m" "ma_misused (delete_first_cancel code again m) = ma_misused m"
  by (auto simp: resolve_once_def then_call_def canceled_call_def access_def removeAndDelete_def Let_def calls_check_def
      activate_next_def activate_next_cancel_def delete_first_def delete_first_cancel_def split: option.split list.split)

lemma misused_on [simp]: "(\<And>m. ma_misused m \<Longrightarrow> ma_misused (g m)) \<Longrightarrow> ma_misused m \<Longrightarrow> ma_misused (on_alive g m)"
  by (simp add: on_alive_def)

lemma misused_method [simp]:
  "(\<And>m. ma_misused m \<Longrightarrow> ma_misused (g m)) \<Longrightarrow> ma_misused m \<Longrightarrow> ma_misused (on_handle b h g m)"
  "ma_misused m \<Longrightarrow> ma_misused (take_from h k m)"
  by (auto simp: on_handle_def take_from_def intro!: misused_on)

lemma misused_perform: "ma_misused m \<Longrightarrow> ma_misused (perform code n x m)"
  by (cases x) simp_all

lemma misused_step: "ma_misused m \<Longrightarrow> ma_misused (machine_step code f m)"
proof (cases "\<exists>n xs. f = Run n xs")
  case True
  assume m: "ma_misused m"
  obtain n xs where f: "f = Run n xs" using True by blast
  show ?thesis using m by (cases xs) (simp_all add: f misused_perform)
next
  case False
  assume "ma_misused m"
  then show ?thesis using False by (cases f) simp_all
qed

text \<open>The operations.\<close>

lemma handles_alive [simp]:
  "ma_alive (addRef b h m) = ma_alive m" "ma_alive (let_go f b h m) = ma_alive m" "ma_alive (release b h m) = ma_alive m"
  "ma_alive (assign_raw move b src dst m) = ma_alive m" "ma_alive (assign move b src dst m) = ma_alive m"
  "ma_alive (get_future p k m) = ma_alive m"
  by (auto simp: addRef_def on_alive_def let_go_def release_def assign_raw_def assign_def get_future_def Let_def)

lemma keeps_sound:
  assumes "running m" "keeps m m'" "ma_alive m' = ma_alive m" "\<not> ma_misused m' \<Longrightarrow> consistent m'"
  shows "sound m'"
  using assms covered_keeps [OF _ assms(2)] numbered_keeps [OF _ assms(2)]
  by (auto simp: sound_def running_def consistent_def tidy_def)

lemma uncharge_consistent:
  assumes "consistent m" "\<not> ma_misused (release b h (use_handle b h m))"
  shows "consistent (release b h (use_handle b h m))"
proof -
  have "\<not> ma_misused (use_handle b h m)" using assms(2) by (metis misused_handles(4))
  then have "use_handle b h m = m" "(b, h) \<notin> set (clears (ma_stack m))" using use_handle_cases [of b h m] by auto
  then show ?thesis using release_consistent [OF assms(1), of b h] assms(2) by simp
qed

lemma method_sound:
  assumes "running m" "\<And>m. ma_misused m \<Longrightarrow> ma_misused (g m)"
    and "\<And>x. x \<in> lives m \<Longrightarrow> ma_alive m \<Longrightarrow> sound (g m)"
  shows "sound (on_handle b h g m)"
proof (cases "charged b h m \<and> \<not> ma_misused (use_handle b h m)")
  case True
  then have u: "use_handle b h m = m" "(b, h) \<notin> set (clears (ma_stack m))" using use_handle_cases [of b h m] by auto
  then have "(b, h) \<in> lives m" using True charged_live by blast
  moreover from this have "ma_alive m" using assms(1) live_alive by (auto simp: running_def)
  ultimately show ?thesis using True u assms(3) by (simp add: on_handle_def on_alive_def)
next
  case False
  then show ?thesis using assms(2) stop_sound [OF assms(1)] by (auto simp: on_handle_def sound_def)
qed

lemma put_sound:
  assumes "running m" "g = put_value v \<or> g = put_exception e"
  shows "sound (m\<lparr>ma_state := g (ma_state m)\<rparr>)"
  using assms put_consistent(1) [of m v] put_consistent(2) [of m e]
  by (intro keeps_sound [OF assms(1)]) (auto simp: keeps_def running_def)

lemma take_sound:
  assumes "running m" "g = put_value v \<or> g = put_exception e"
  shows "sound (take_from h g m)"
proof (cases "charged True h m \<and> \<not> ma_misused (use_handle True h m)")
  case True
  then have u: "use_handle True h m = m" "(True, h) \<notin> set (clears (ma_stack m))" using use_handle_cases [of True h m] by auto
  then have "(True, h) \<in> lives m" using True charged_live by blast
  then have "ma_alive m" using assms(1) live_alive by (auto simp: running_def)
  then show ?thesis using True u put_sound [OF assms] by (simp add: take_from_def on_alive_def)
qed (auto simp: take_from_def sound_def)

lemma calls_sound:
  assumes "running m" "x \<in> lives m"
  shows "md \<noteq> Cancel \<Longrightarrow> md \<noteq> Unresolved \<Longrightarrow> sound (resolve_once md m)" "sound (calls (resolveCancel (ma_state m)) m)"
    "sound (then_call b d m)" "sound (canceled_call b d m)"
    "sound (access (put_value v) m)" "sound (access (put_exception e) m)"
proof -
  have m: "consistent m" "numbered m" "covered m" using assms(1) by (simp_all add: running_def)
  have al: "ma_alive m" using live_alive [OF m(1) assms(2)] .
  show "sound (resolve_once md m)" if "md \<noteq> Cancel" "md \<noteq> Unresolved"
  proof (cases "resolved (ma_state m)")
    case True
    then show ?thesis using stop_sound [OF assms(1)] by (simp add: resolve_once_def)
  next
    case False
    then have "\<not> ma_stopped (resolve_once md m)" using running_flags [OF assms(1)] by (simp add: resolve_once_def)
    then show ?thesis
      using resolve_once_consistent [OF m(1) assms(2) that(2)] covered_resolve [OF m(3) that] numbered_calls(1) [OF m(2), of md]
      by (simp add: sound_def running_def)
  qed
  show "sound (calls (resolveCancel (ma_state m)) m)"
    using cancel_consistent [OF m(1) al] numbered_calls(2) [OF m(2)] covered_cancel [OF m(3) live_counts [OF m(1) assms(2)]]
    by (simp add: sound_def running_def)
  show "sound (then_call b d m)" "sound (canceled_call b d m)"
    using push_consistent [OF m(1) assms(2)] numbered_push [OF m(2)] covered_push [OF m(1) assms(2) m(3)]
    by (simp_all add: sound_def running_def)
  show "sound (access (put_value v) m)" "sound (access (put_exception e) m)"
    using put_sound [OF assms(1), of _ v e] stop_sound [OF assms(1)] by (auto simp: access_def)
qed

lemma below_own: "n < k \<Longrightarrow> below k (own_name n h)"
  by (cases h) simp_all

lemma perform_sound:
  assumes "running m" "n < ma_fresh m"
  shows "sound (perform code n x m)"
proof -
  have m: "consistent m" "numbered m" "covered m" using assms(1) by (simp_all add: running_def)
  have a: "sound (assign move b src (own_name n dst) m)" for move b src dst
    by (rule keeps_sound [OF assms(1)]) (simp_all add: assign_consistent [OF m(1)] below_own [OF assms(2)])
  have g: "sound (get_future p (own_name n f) m)" for p f
    by (rule keeps_sound [OF assms(1)]) (simp_all add: get_future_consistent [OF m(1)] below_own [OF assms(2)])
  have r: "sound (release b h (use_handle b h m))" for b h
    by (rule keeps_sound [OF assms(1) keeps_uncharge(1)]) (simp_all add: uncharge_consistent [OF m(1)])
  have f: "sound (removeAndDelete code i m)" for i
    using flush_consistent [OF m(1) numbered_distinct(1) [OF m(2)]] numbered_flush [OF m(2)] covered_flush [OF m(3)]
    by (simp add: sound_def running_def)
  show ?thesis
    by (cases x) (auto intro!: method_sound [OF assms(1)] a g r f take_sound [OF assms(1)] intro: calls_sound [OF assms(1)])
qed

text \<open>The steps.\<close>

lemma run_sound:
  assumes "running m" "ma_stack m = Run n xs # s"
  shows "sound (machine_step code (Run n xs) (m\<lparr>ma_stack := s\<rparr>))"
proof -
  have m: "consistent m" "numbered m" "covered m" using assms(1) by (simp_all add: running_def)
  have pop: "consistent (m\<lparr>ma_stack := s\<rparr>)" using plain_pop [OF m(1) assms(2)] by simp
  have n: "n < ma_fresh m" using consistent_parts(2) [OF m(1)] assms(2) by (simp add: named_def)
  show ?thesis
  proof (cases xs)
    case Nil
    then show ?thesis
      using pop covered_pop [OF m(3) assms(2)] numbered_boxes [OF m(2), of "m\<lparr>ma_stack := s\<rparr>"]
      by (simp add: sound_def running_def)
  next
    case (Cons x ys)
    let ?m = "m\<lparr>ma_stack := Run n ys # s\<rparr>"
    have l: "lives ?m = lives m" "handle_count b ?m = handle_count b m" for b
      using same_handles [of ?m m] assms(2) by simp_all
    note p = consistent_parts [OF m(1)]
    have "counted ?m" using p(3) assms(2) unfolding counted_def l by auto
    moreover have "held ?m" using p(4) assms(2) unfolding held_def l by auto
    ultimately have "consistent ?m"
      using p assms(2) n by (simp add: consistent_def tidy_def named_def)
    moreover have "covered ?m" using m(3) assms(2) by (auto simp: covered_def)
    moreover have "numbered ?m" by (rule numbered_boxes [OF m(2)]) simp_all
    ultimately show ?thesis using n by (simp add: Cons perform_sound running_def)
  qed
qed

lemma step_sound:
  assumes "sound m"
  shows "sound (step code m)"
proof (cases "running m \<and> ma_stack m \<noteq> []")
  case False
  then show ?thesis using assms by (auto simp: sound_def step_def misused_step split: list.split)
next
  case True
  then obtain f s where s: "ma_stack m = f # s" by (cases "ma_stack m") auto
  let ?m = "m\<lparr>ma_stack := s\<rparr>"
  have r: "running m" and m: "consistent m" "numbered m" "covered m" using True by (simp_all add: running_def)
  note p = consistent_parts [OF m(1)]
  have n: "numbered (machine_step code f ?m)" by (rule numbered_step, rule numbered_boxes [OF m(2)]) simp_all
  have nm: "numbered ?m" by (rule numbered_boxes [OF m(2)]) simp_all
  have plain: "consistent ?m" if "\<not> is_guard f" "clear_of f = []" using plain_pop [OF m(1) s that] .
  have cov: "covered ?m" if "\<And>i. \<not> covers i f" "\<And>i. \<not> covers_cancel i f" using covered_pop [OF m(3) s that] .
  have guard: "ma_alive m" "list_ex is_guard s" if "needs_guard f"
    using p(5) s that guard_alive [OF m(1)] by auto
  have dec: "ma_alive m" if "is_guard f" using guard_alive [OF m(1)] s that by simp
  have run: "running ?m" if "\<not> is_guard f" "clear_of f = []" "\<And>i. \<not> covers i f" "\<And>i. \<not> covers_cancel i f"
    using plain [OF that(1,2)] cov [OF that(3,4)] nm by (simp add: running_def)
  have "sound (machine_step code f ?m)"
  proof (cases f)
    case (Run i xs)
    then show ?thesis using run_sound [OF r] s by blast
  next
    case (Activate ids)
    then show ?thesis
      using plain activate_consistent(1) [of ?m] numbered_distinct(1) [OF m(2)] covered_activate(1) [OF m(3) _ s [unfolded Activate]]
        n p(3) nm
      by (cases "ma_alive m") (auto simp: sound_def running_def covered_def counted_def)
  next
    case (ActivateCancels ids)
    then show ?thesis
      using plain activate_consistent(2) [of ?m] numbered_distinct(1) [OF m(2)]
        covered_activate(2) [OF m(3) _ s [unfolded ActivateCancels]] n p(3) nm m(3) s
      by (cases "ma_alive m") (auto simp: sound_def running_def covered_def counted_def)
  next
    case DeleteAll
    then show ?thesis
      using guard plain delete_consistent(1) [of ?m DeleteAll] covered_delete(1) [OF m(3) s] n p(5) s
      by (simp add: sound_def running_def on_alive_def)
  next
    case DeleteCancels
    then show ?thesis
      using guard plain delete_consistent(2) [of ?m DeleteCancels] covered_delete(2) [OF m(3) s] n p(5) s
      by (simp add: sound_def running_def on_alive_def)
  next
    case DestroyAll
    then show ?thesis
      using plain delete_consistent(1) [of ?m DestroyAll] covered_delete(1) [OF m(3) s] n p(5) s
      by (simp add: sound_def running_def)
  next
    case DestroyCancels
    then show ?thesis
      using plain delete_consistent(2) [of ?m DestroyCancels] covered_delete(2) [OF m(3) s] n p(5) s
      by (simp add: sound_def running_def)
  next
    case StartActivate
    have "consistent (calls (ma_state ?m, [Activate (map co_id (fs_continuations (ma_state m)))]) ?m)"
      using plain StartActivate p(5) s by (intro calls_consistent) auto
    then show ?thesis
      using StartActivate guard n m(3) s by (auto simp: sound_def running_def on_alive_def covered_def ids_of_def)
  next
    case AfterCancels
    have "consistent (calls (ma_state ?m, if 0 < fs_futureCounter (ma_state m)
        then [Activate (map co_id (fs_continuations (ma_state m)))] else [DeleteAll]) ?m)"
      using plain AfterCancels p(5) s by (intro calls_consistent) auto
    then show ?thesis
      using AfterCancels guard n m(3) s by (auto simp: sound_def running_def on_alive_def covered_def ids_of_def)
  next
    case DecFuture
    then have "covered (machine_step code DecFuture ?m)"
      using cov dec by (auto simp: on_alive_def decFutureCounter_def intro!: covered_check)
    then show ?thesis using dec_consistent(1) [OF m(1), of s code] s n DecFuture by (simp add: sound_def running_def)
  next
    case DecPromise
    then have "covered (machine_step code DecPromise ?m)"
      using cov dec by (auto simp: on_alive_def decPromiseCounter_def intro!: covered_check)
    then show ?thesis using dec_consistent(2) [OF m(1), of s code] s n DecPromise by (simp add: sound_def running_def)
  next
    case (Clear b h)
    then show ?thesis
      using clear_consistent [OF m(1) s, of b h] cov n by (simp add: sound_def running_def covered_def)
  next
    case (Assign move b src dst)
    let ?n = "?m\<lparr>ma_handles := ma_handles m - {(b, dst)}\<rparr>"
    have c: "consistent ?n" using clear_consistent [OF m(1) s, of b dst] Assign by simp
    have d: "below (ma_fresh m) dst" using p(2) s Assign by (simp add: named_def)
    have v: "covered ?n" using cov Assign by (simp add: covered_def)
    have rn: "running ?n" using c v numbered_boxes [OF nm, of ?n] by (simp add: running_def)
    have "consistent (assign_raw move b src dst (use_handle b src ?n))"
      if "\<not> ma_misused (assign_raw move b src dst (use_handle b src ?n))"
    proof -
      have u: "use_handle b src ?n = ?n" "(b, src) \<notin> set (clears (ma_stack ?n))"
        using that use_handle_cases [of b src ?n] by auto
      show ?thesis unfolding u(1) using assign_raw_consistent [OF c u(2), of dst move] d by simp
    qed
    then have "sound (assign_raw move b src dst (use_handle b src ?n))"
      by (intro keeps_sound [OF rn] keeps_uncharge) simp_all
    then show ?thesis using Assign by simp
  next
    case (Destroy b h)
    have "sound (release b h (use_handle b h ?m))"
      using Destroy run uncharge_consistent [of ?m b h] plain
      by (intro keeps_sound [OF _ keeps_uncharge(1)]) simp_all
    then show ?thesis using Destroy by simp
  next
    case Return
    then show ?thesis using Return_pop [OF m(1)] s cov nm by (simp add: sound_def running_def)
  qed
  then show ?thesis by (simp add: step_def s)
qed

lemma first_sound: "sound (first_machine ops)"
proof -
  have l: "lives (first_machine ops) = {(False, Named 0)}" by (simp add: lives_def first_machine_def)
  have "{x \<in> {(False, Named 0)}. fst x = b} = (if b then {} else {(False, Named 0)})" for b by auto
  then have c: "handle_count b (first_machine ops) = (if b then 0 else 1)" for b by (simp add: handle_count_def l)
  have "counted (first_machine ops)" "held (first_machine ops)"
    unfolding counted_def held_def l c by (simp_all add: first_machine_def first_state_def resolved_def)
  then show ?thesis
    by (simp add: sound_def running_def consistent_def tidy_def named_def covered_def numbered_def
        first_machine_def first_state_def resolved_def)
qed

lemma session_0 [simp]: "session code ops 0 = first_machine ops"
  by (simp add: session_def)

lemma session_Suc: "session code ops (Suc n) = step code (session code ops n)"
  by (simp add: session_def)

lemma session_sound: "sound (session code ops n)"
  by (induction n) (simp_all add: first_sound session_Suc step_sound)

lemma session_running:
  assumes "\<not> ma_misused (session code ops n)" "\<not> ma_stopped (session code ops n)"
  shows "running (session code ops n)"
  using session_sound [of code ops n] assms by (simp add: sound_def)

text \<open>Nothing is pending: no continuation of a resolved state is left, and handles are what keeps a state.\<close>

lemma rest_boxes:
  assumes "running m" "ma_stack m = []" "ma_alive m" "resolved (ma_state m)"
  shows "fs_continuations (ma_state m) = []" "fs_cancels (ma_state m) = []"
  using assms by (auto simp: running_def covered_def ids_of_def)

lemma rest_lives: "ma_stack m = [] \<Longrightarrow> lives m = ma_handles m"
  by (simp add: lives_def)

lemma rest_alive:
  assumes "running m" "ma_stack m = []"
  shows "ma_alive m \<longleftrightarrow> ma_handles m \<noteq> {}"
proof -
  have c: "counted m" using assms(1) by (simp add: running_def consistent_def)
  have "handle_count b m = 0" if "ma_handles m = {}" for b
    using that by (simp add: handle_count_def lives_def)
  then show ?thesis
    using c rest_boxes [OF assms] assms(2) rest_lives [OF assms(2)] by (auto simp: counted_def)
qed

lemma funpow_first:
  "(f ^^ Suc n) x = (f ^^ n) (f x)" "(f ^^ numeral k) x = (f ^^ pred_numeral k) (f x)"
  by (simp_all add: funpow_swap1 numeral_eq_Suc)

text \<open>What evaluates a program.\<close>

lemmas session_eval = session_def funpow_first first_machine_def first_state_def step_def assign_def assign_raw_def
  use_handle_def charged_def get_future_def addRef_def on_alive_def release_def let_go_def lives_def on_handle_def
  then_call_def canceled_call_def resolve_once_def pushContinuation_def pushCancelContinuation_def resolved_def
  executeContinuations_def resolve_as_def resolveCancel_def calls_def Let_def activate_next_def activate_next_cancel_def
  next_of_def without_def decFutureCounter_def decPromiseCounter_def checkCounters_def calls_check_def count_down_def
  destroy_state_def delete_first_def delete_first_cancel_def

subsection \<open>Properties\<close>

text \<open>C16. No use after free, and the state is deleted exactly when its last handle is gone: whatever a program, its
continuations and their destructors do with promises and futures, in any nesting, as long as it does not
misuse a handle (use one that is being released, let go of the last one while a call on one is in progress, or
move from a null future), after any number of steps it has not touched a deleted state, and
when it has come to rest without aborting or waiting the state is alive if and only if a promise or a future
still refers to it.\<close>

theorem state_lifetime:
  assumes "\<not> ma_misused (session code ops n)"
  shows "\<not> ma_bad (session code ops n) \<and>
     (ma_stack (session code ops n) = [] \<and> \<not> ma_stopped (session code ops n) \<longrightarrow>
       (ma_alive (session code ops n) \<longleftrightarrow> ma_handles (session code ops n) \<noteq> {}))"
  using session_sound [of code ops n] assms running_flags rest_alive by (auto simp: sound_def)

text \<open>A program whose continuation copies its future, and that lets go of everything but the copy.\<close>

theorem state_lifetime_witness:
  "ma_alive (session (\<lambda>l. if l = 0 then [Copy True Arg (Var 2)] else [])
      [GetFuture (Var 0) (Var 1), Then (Var 1) 0 1, ResolveValue (Var 0) (7 :: nat),
       Uncharge True (Var 1), Uncharge False (Var 0)] 23 :: (nat, unit) machine) \<longleftrightarrow>
   ma_handles (session (\<lambda>l. if l = 0 then [Copy True Arg (Var 2)] else [])
      [GetFuture (Var 0) (Var 1), Then (Var 1) 0 1, ResolveValue (Var 0) (7 :: nat),
       Uncharge True (Var 1), Uncharge False (Var 0)] 23 :: (nat, unit) machine) \<noteq> {}"
proof -
  let ?m = "session (\<lambda>l. if l = 0 then [Copy True Arg (Var 2)] else [])
      [GetFuture (Var 0) (Var 1), Then (Var 1) 0 1, ResolveValue (Var 0) (7 :: nat),
       Uncharge True (Var 1), Uncharge False (Var 0)] 23 :: (nat, unit) machine"
  have m: "?m = \<lparr>ma_state = \<lparr>fs_continuations = [], fs_cancels = [], fs_mode = Value 7, fs_raised = True,
        fs_futureCounter = 1, fs_promiseCounter = 0\<rparr>,
      ma_alive = True, ma_handles = {(True, Named 2)}, ma_fresh = 3, ma_stack = [], ma_activated = [1],
      ma_stopped = False, ma_misused = False, ma_bad = False\<rparr>"
    by (simp add: session_eval, auto)
  have "\<not> ma_misused ?m" "ma_stack ?m = []" "\<not> ma_stopped ?m" unfolding m by simp_all
  then show ?thesis using state_lifetime by blast
qed

text \<open>C17. Nothing is left waiting: when a program that does not misuse a handle has come to rest without aborting or
waiting, and the state is alive, then if the state is resolved no continuation is left in either box, and if
it is not a promise is left that can resolve it.\<close>

theorem continuations_run:
  assumes "\<not> ma_misused (session code ops n)" "\<not> ma_stopped (session code ops n)"
    "ma_stack (session code ops n) = []" "ma_alive (session code ops n)"
  shows "if resolved (ma_state (session code ops n))
     then fs_continuations (ma_state (session code ops n)) = [] \<and> fs_cancels (ma_state (session code ops n)) = []
     else \<exists>p. (False, p) \<in> ma_handles (session code ops n)"
proof -
  let ?m = "session code ops n"
  note r = session_running [OF assms(1,2)]
  have "\<exists>p. (False, p) \<in> ma_handles ?m" if "\<not> resolved (ma_state ?m)"
  proof -
    have "0 < handle_count False ?m"
      using r assms(3,4) that by (auto simp: running_def consistent_def counted_def)
    then have "{x \<in> ma_handles ?m. fst x = False} \<noteq> {}"
      by (simp add: handle_count_def rest_lives [OF assms(3)] card_gt_0_iff)
    then show ?thesis by auto
  qed
  then show ?thesis using rest_boxes [OF r assms(3,4)] by simp
qed

theorem continuations_run_witness:
  "fs_continuations (ma_state (session (\<lambda>l. if l = 0 then [Copy True Arg (Var 2)] else [])
      [GetFuture (Var 0) (Var 1), Then (Var 1) 0 1, ResolveValue (Var 0) (7 :: nat)] 17 :: (nat, unit) machine)) = []"
proof -
  let ?m = "session (\<lambda>l. if l = 0 then [Copy True Arg (Var 2)] else [])
      [GetFuture (Var 0) (Var 1), Then (Var 1) 0 1, ResolveValue (Var 0) (7 :: nat)] 17 :: (nat, unit) machine"
  have m: "\<not> ma_misused ?m \<and> \<not> ma_stopped ?m \<and> ma_stack ?m = [] \<and> ma_alive ?m \<and> resolved (ma_state ?m)"
    by (simp add: session_eval)
  then have "if resolved (ma_state ?m)
     then fs_continuations (ma_state ?m) = [] \<and> fs_cancels (ma_state ?m) = []
     else \<exists>p. (False, p) \<in> ma_handles ?m"
    by (intro continuations_run) simp_all
  then show ?thesis using m by (simp only: if_True)
qed

text \<open>Every continuation is activated at most once, though activation is reentrant and may push, flush and
activate others.\<close>

theorem activated_once:
  assumes "\<not> ma_misused (session code ops n)" "\<not> ma_stopped (session code ops n)"
  shows "distinct (ma_activated (session code ops n))"
  using session_running [OF assms] by (simp add: running_def numbered_def)

subsection \<open>Resolution\<close>

text \<open>The kind of a resolution, and the steps that write into a value or an exception.\<close>

definition mode_kind :: "('v, 'e) mode \<Rightarrow> (unit, unit) mode" where
  "mode_kind md = map_mode (\<lambda>_. ()) (\<lambda>_. ()) md"

fun writes :: "('v, 'e) fop \<Rightarrow> bool" where
  "writes (WriteValue f v) = True" | "writes (WriteException f e) = True"
| "writes (TakeValue f v) = True" | "writes (TakeException f e) = True"
| "writes _ = False"

definition writes_next :: "('v, 'e) machine \<Rightarrow> bool" where
  "writes_next m = (case ma_stack m of Run n (x # xs) # s \<Rightarrow> writes x | _ \<Rightarrow> False)"

text \<open>From \<open>m\<close> to \<open>m'\<close> the kind of a resolution stays, and what it holds where \<open>w\<close> is false.\<close>

definition mode_kept :: "bool \<Rightarrow> ('v, 'e) machine \<Rightarrow> ('v, 'e) machine \<Rightarrow> bool" where
  "mode_kept w m m' \<longleftrightarrow> (resolved (ma_state m) \<longrightarrow>
     mode_kind (fs_mode (ma_state m')) = mode_kind (fs_mode (ma_state m)) \<and>
     (\<not> w \<longrightarrow> fs_mode (ma_state m') = fs_mode (ma_state m)))"

lemma mode_same: "fs_mode (ma_state m') = fs_mode (ma_state m) \<Longrightarrow> mode_kept w m m'"
  by (simp add: mode_kept_def)

lemma mode_handles [simp]:
  "fs_mode (ma_state (addRef b h m)) = fs_mode (ma_state m)" "fs_mode (ma_state (let_go f b h m)) = fs_mode (ma_state m)"
  "fs_mode (ma_state (release b h m)) = fs_mode (ma_state m)" "fs_mode (ma_state (stop m)) = fs_mode (ma_state m)"
  "fs_mode (ma_state (assign_raw move b src dst m)) = fs_mode (ma_state m)"
  "fs_mode (ma_state (assign move b src dst m)) = fs_mode (ma_state m)"
  "fs_mode (ma_state (get_future p k m)) = fs_mode (ma_state m)"
  by (auto simp: addRef_def on_alive_def let_go_def release_def stop_def assign_raw_def assign_def get_future_def Let_def)

lemma mode_calls [simp]:
  "fs_mode (ma_state (then_call b d m)) = fs_mode (ma_state m)"
  "fs_mode (ma_state (canceled_call b d m)) = fs_mode (ma_state m)"
  "fs_mode (ma_state (removeAndDelete code i m)) = fs_mode (ma_state m)"
  "fs_mode (ma_state (activate_next code ids m)) = fs_mode (ma_state m)"
  "fs_mode (ma_state (activate_next_cancel code ids m)) = fs_mode (ma_state m)"
  "fs_mode (ma_state (delete_first code again m)) = fs_mode (ma_state m)"
  "fs_mode (ma_state (delete_first_cancel code again m)) = fs_mode (ma_state m)"
  by (auto simp: then_call_def canceled_call_def pushContinuation_def pushCancelContinuation_def removeAndDelete_def Let_def
      activate_next_def activate_next_cancel_def delete_first_def delete_first_cancel_def split: option.split list.split)

lemma mode_once:
  "mode_kept w m (resolve_once md m)" "mode_kept w m (calls (resolveCancel (ma_state m)) m)"
  by (simp_all add: mode_kept_def resolve_once_def stop_def resolveCancel_def)

lemma put_kind [simp]:
  "mode_kind (fs_mode (put_value v fs)) = mode_kind (fs_mode fs)"
  "mode_kind (fs_mode (put_exception e fs)) = mode_kind (fs_mode fs)"
  by (simp_all add: put_value_def put_exception_def state_value_def state_exception_def mode_kind_def split: mode.split)

lemma mode_check:
  "fs_mode fs = fs_mode (ma_state m) \<Longrightarrow> mode_kept w m (calls_check (checkCounters fs) m)"
  by (auto simp: mode_kept_def checkCounters_def calls_check_def resolveCancel_def resolved_def)

lemma mode_alive: "mode_kept w m (f m) \<Longrightarrow> mode_kept w m (on_alive f m)"
  by (simp add: on_alive_def mode_kept_def)

lemma mode_method: "(\<And>m. mode_kept w m (f m)) \<Longrightarrow> mode_kept w m (on_handle b h f m)"
  by (simp add: on_handle_def on_alive_def mode_kept_def)

lemma mode_write:
  "mode_kept True m (access (put_value v) m)" "mode_kept True m (access (put_exception e) m)"
  "mode_kept True m (take_from h (put_value v) m)" "mode_kept True m (take_from h (put_exception e) m)"
  by (simp_all add: mode_kept_def access_def take_from_def on_alive_def)

lemma mode_perform: "mode_kept (writes x) m (perform code n x m)"
  by (cases x) (auto intro!: mode_method mode_once mode_write intro: mode_same)

lemma mode_machine:
  assumes "\<And>n x xs. f = Run n (x # xs) \<Longrightarrow> w = writes x"
  shows "mode_kept w m (machine_step code f m)"
proof (cases f)
  case (Run n xs)
  then show ?thesis
    using assms mode_perform [of _ "m\<lparr>ma_stack := Run n (tl xs) # ma_stack m\<rparr>" code n]
    by (cases xs) (auto simp: mode_kept_def)
qed (auto intro!: mode_alive mode_check intro: mode_same simp: decFutureCounter_def decPromiseCounter_def)

lemma mode_step: "mode_kept (writes_next m) m (step code m)"
proof (cases "ma_stack m")
  case (Cons f s)
  have "mode_kept (writes_next m) (m\<lparr>ma_stack := s\<rparr>) (machine_step code f (m\<lparr>ma_stack := s\<rparr>))"
    by (rule mode_machine) (simp add: writes_next_def Cons)
  then show ?thesis by (simp add: step_def Cons mode_kept_def)
qed (simp add: step_def mode_kept_def)

lemma kind_resolved: "mode_kind (fs_mode fs') = mode_kind (fs_mode fs) \<Longrightarrow> resolved fs' = resolved fs"
  by (cases "fs_mode fs"; cases "fs_mode fs'") (simp_all add: mode_kind_def resolved_def)

text \<open>C18. A state is resolved once: from a moment at which it is resolved on, it stays a cancellation, an exception or a
value, and what it holds stays what it is except in the steps in which user code writes into the value or the
exception through a reference it was given, or another promise is resolved by moving from this state.\<close>

theorem resolution_final:
  assumes "resolved (ma_state (session code ops k))" "k \<le> n"
  shows "mode_kind (fs_mode (ma_state (session code ops n))) = mode_kind (fs_mode (ma_state (session code ops k))) \<and>
    ((\<forall>j. k \<le> j \<and> j < n \<longrightarrow> \<not> writes_next (session code ops j)) \<longrightarrow>
      fs_mode (ma_state (session code ops n)) = fs_mode (ma_state (session code ops k)))"
  using assms(2)
proof (induction n rule: dec_induct)
  case base
  show ?case by simp
next
  case (step n)
  have "resolved (ma_state (session code ops n))" using step.IH kind_resolved assms(1) by blast
  then show ?case
    using step mode_step [of "session code ops n" code] by (auto simp: session_Suc mode_kept_def less_Suc_eq)
qed

theorem resolution_final_witness:
  "fs_mode (ma_state (session (\<lambda>_. []) [GetFuture (Var 0) (Var 1), ResolveValue (Var 0) (7 :: nat),
      ResolveCancel True (Var 1)] 9 :: (nat, unit) machine)) =
   fs_mode (ma_state (session (\<lambda>_. []) [GetFuture (Var 0) (Var 1), ResolveValue (Var 0) (7 :: nat),
      ResolveCancel True (Var 1)] 2 :: (nat, unit) machine))"
proof -
  let ?s = "session (\<lambda>_. []) [GetFuture (Var 0) (Var 1), ResolveValue (Var 0) (7 :: nat), ResolveCancel True (Var 1)]
    :: nat \<Rightarrow> (nat, unit) machine"
  have r: "resolved (ma_state (?s 2))" by (simp add: session_eval)
  have w: "\<not> writes_next (?s 2)" "\<not> writes_next (?s 3)" "\<not> writes_next (?s 4)" "\<not> writes_next (?s 5)"
    "\<not> writes_next (?s 6)" "\<not> writes_next (?s 7)" "\<not> writes_next (?s 8)"
    by (simp_all add: session_eval writes_next_def)
  have "\<not> writes_next (?s j)" if "2 \<le> j" "j < 9" for j
  proof -
    have "j = 2 \<or> j = 3 \<or> j = 4 \<or> j = 5 \<or> j = 6 \<or> j = 7 \<or> j = 8" using that by linarith
    then show ?thesis using w by auto
  qed
  then show ?thesis using resolution_final [OF r, of 9] by simp
qed

subsection \<open>Computations that end\<close>

text \<open>
  The code that an operation subscribes. When code only subscribes code of a smaller rank, every piece of code
  has a weight that pays for all that it can cause; resolving happens once, and any other step replaces
  calls by lighter ones, paid for by the operation performed or the continuation taken out of its box.
\<close>

fun labels :: "('v, 'e) fop \<Rightarrow> nat list" where
  "labels (Then f b d) = [b, d]" | "labels (Canceled p b d) = [b, d]" | "labels _ = []"




definition op_weight :: "(nat \<Rightarrow> nat) \<Rightarrow> ('v, 'e) fop \<Rightarrow> nat" where
  "op_weight w x = 20 + sum_list (map w (labels x))"

definition ops_weight :: "(nat \<Rightarrow> nat) \<Rightarrow> ('v, 'e) fop list \<Rightarrow> nat" where
  "ops_weight w xs = sum_list (map (op_weight w) xs)"

fun frame_weight :: "(nat \<Rightarrow> nat) \<Rightarrow> ('v, 'e) frame \<Rightarrow> nat" where
  "frame_weight w (Run n xs) = 1 + ops_weight w xs"
| "frame_weight w DecFuture = 3" | "frame_weight w DecPromise = 3"
| "frame_weight w StartActivate = 2" | "frame_weight w AfterCancels = 2"
| "frame_weight w (Destroy b h) = 5"
| "frame_weight w f = 1"

definition co_weight :: "(nat \<Rightarrow> nat) \<Rightarrow> continuation \<Rightarrow> nat" where
  "co_weight w c = 12 + w (co_body c) + w (co_dtor c)"

definition box_weight :: "(nat \<Rightarrow> nat) \<Rightarrow> continuation list \<Rightarrow> nat" where
  "box_weight w cs = sum_list (map (co_weight w) cs)"

definition stack_weight :: "(nat \<Rightarrow> nat) \<Rightarrow> ('v, 'e) frame list \<Rightarrow> nat" where
  "stack_weight w s = sum_list (map (frame_weight w) s)"

definition machine_weight :: "(nat \<Rightarrow> nat) \<Rightarrow> ('v, 'e) machine \<Rightarrow> nat" where
  "machine_weight w m = stack_weight w (ma_stack m) + box_weight w (fs_continuations (ma_state m)) +
     box_weight w (fs_cancels (ma_state m))"

definition unresolved :: "('v, 'e) machine \<Rightarrow> nat" where
  "unresolved m = (if resolved (ma_state m) then 0 else 1)"

text \<open>\<open>m'\<close> is lighter than \<open>m\<close> and a frame of weight \<open>k\<close>.\<close>

definition lighter :: "(nat \<Rightarrow> nat) \<Rightarrow> nat \<Rightarrow> ('v, 'e) machine \<Rightarrow> ('v, 'e) machine \<Rightarrow> bool" where
  "lighter w k m' m \<longleftrightarrow> unresolved m' < unresolved m \<or>
     unresolved m' = unresolved m \<and> machine_weight w m' < k + machine_weight w m"

lemma weight_simps [simp]:
  "ops_weight w [] = 0" "ops_weight w (x # xs) = op_weight w x + ops_weight w xs"
  "box_weight w [] = 0" "box_weight w (c # cs) = co_weight w c + box_weight w cs"
  "box_weight w (cs @ ds) = box_weight w cs + box_weight w ds"
  "stack_weight w [] = 0" "stack_weight w (f # s) = frame_weight w f + stack_weight w s"
  "stack_weight w (s @ t) = stack_weight w s + stack_weight w t"
  by (simp_all add: ops_weight_def box_weight_def stack_weight_def)








lemma light:
  assumes "resolved (ma_state m) \<Longrightarrow> resolved (ma_state m')" "machine_weight w m' < k + machine_weight w m"
  shows "lighter w k m' m"
  using assms by (auto simp: lighter_def unresolved_def)



















text \<open>Without that it need not: a continuation that subscribes itself again on a resolved state is activated at once,
each time inside the last.\<close>

definition resubscribes :: "('v, 'e) machine \<Rightarrow> bool" where
  "resubscribes m \<longleftrightarrow> (\<exists>s i v. ma_stack m = StartActivate # s \<and> ma_alive m \<and> (True, Named 1) \<in> ma_handles m \<and>
     fs_mode (ma_state m) = Value v \<and> fs_cancels (ma_state m) = [] \<and> fs_continuations (ma_state m) = [Continuation i 0 1])"

lemma resubscribes_again:
  assumes "resubscribes m"
  shows "resubscribes ((step (\<lambda>l. if l = 0 then [Then (Var 1) 0 1] else []) ^^ 4) m)"
proof -
  obtain s i v where m: "ma_stack m = StartActivate # s" "ma_alive m" "(True, Named 1) \<in> ma_handles m"
    "fs_mode (ma_state m) = Value v" "fs_cancels (ma_state m) = []" "fs_continuations (ma_state m) = [Continuation i 0 1]"
    using assms by (auto simp: resubscribes_def)
  then show ?thesis
    by (simp add: resubscribes_def funpow_first session_eval)
qed

theorem resubscription_endless:
  "ma_stack (session (\<lambda>l. if l = 0 then [Then (Var 1) 0 1] else [])
     [GetFuture (Var 0) (Var 1), ResolveValue (Var 0) v, Then (Var 1) 0 1] n :: ('v, 'e) machine) \<noteq> []"
proof
  let ?code = "(\<lambda>l. if l = 0 then [Then (Var 1) 0 1] else []) :: nat \<Rightarrow> ('v, 'e) fop list"
  let ?s = "session ?code [GetFuture (Var 0) (Var 1), ResolveValue (Var 0) v, Then (Var 1) 0 1]"
  assume n: "ma_stack (?s n) = []"
  have first: "resubscribes (?s 8)"
    by (simp add: session_eval resubscribes_def)
  have "resubscribes (?s (8 + 4 * k))" for k
  proof (induction k)
    case 0
    show ?case using first by simp
  next
    case (Suc k)
    have "8 + 4 * Suc k = 4 + (8 + 4 * k)" by simp
    then have e: "?s (8 + 4 * Suc k) = (step ?code ^^ 4) (?s (8 + 4 * k))"
      unfolding session_def by (simp only: funpow_add o_apply)
    show ?case unfolding e by (rule resubscribes_again [OF Suc])
  qed
  moreover have "ma_stack (?s (n + k)) = []" for k
  proof (induction k)
    case 0
    show ?case using n by simp
  next
    case (Suc k)
    then show ?case unfolding add_Suc_right session_Suc by (simp only: step_def list.case)
  qed
  moreover have "8 + 4 * n = n + (8 + 3 * n)" by simp
  ultimately show False unfolding resubscribes_def by (metis list.distinct(1))
qed

subsection \<open>Misuse\<close>

text \<open>A release decrements its counter before it makes the handle null: a cancel continuation that releases the same
future again decrements twice, the counter wraps around and the state outlives its last handle.\<close>

theorem reentrant_release_leaks:
  "ma_stack (session (\<lambda>l. if l = 0 then [Uncharge True (Var 1)] else [])
     [GetFuture (Var 0) (Var 1), Canceled (Var 0) 0 1, Uncharge True (Var 1), Uncharge False (Var 0)] 20 :: ('v, 'e) machine) = [] \<and>
   ma_handles (session (\<lambda>l. if l = 0 then [Uncharge True (Var 1)] else [])
     [GetFuture (Var 0) (Var 1), Canceled (Var 0) 0 1, Uncharge True (Var 1), Uncharge False (Var 0)] 20 :: ('v, 'e) machine) = {} \<and>
   ma_alive (session (\<lambda>l. if l = 0 then [Uncharge True (Var 1)] else [])
     [GetFuture (Var 0) (Var 1), Canceled (Var 0) 0 1, Uncharge True (Var 1), Uncharge False (Var 0)] 20 :: ('v, 'e) machine) \<and>
   fs_futureCounter (ma_state (session (\<lambda>l. if l = 0 then [Uncharge True (Var 1)] else [])
     [GetFuture (Var 0) (Var 1), Canceled (Var 0) 0 1, Uncharge True (Var 1), Uncharge False (Var 0)] 20 :: ('v, 'e) machine)) =
     2 ^ 64 - 1"
  by (simp add: session_eval)

text \<open>Resolving with a value or an exception does not guard the state as cancelling does: when the caller's own
promise is the last handle and goes with what a cancel continuation captured, \<open>resolveValue\<close> deletes the state
while it empties its box and goes on using it.\<close>

theorem resolve_unguarded:
  "ma_bad (session (\<lambda>l. if l = 1 then [Uncharge False (Var 0)] else [])
     [Canceled (Var 0) 0 1, ResolveValue (Var 0) v] 40)"
  by (simp add: session_eval)

end
