(* ===== verification/HttpSource.thy ===== *)
theory HttpSource
  imports Prelude
begin

section \<open>The input of the HTTP slicer\<close>

text \<open>
  Models \<open>source/module/www/src/http/inputSlicer/sourceAdapter.cpp\<close> and \<open>accumuleUntil.ipp\<close>. The
  received data is a list of segments, the chunks of the container. The adapter is in one of three
  views: \<open>Null\<close>; \<open>ForHdr\<close>, which looks at the first segment and only counts the characters it has
  dropped from it; \<open>ForBody\<close>, which takes bytes out of the container. The abstract value of an
  adapter is the text that is still to be read (\<open>flat\<close>); the lemmas show that no operation depends
  on how the text is cut into segments.
\<close>

subsection \<open>Source adapter\<close>

datatype view = VNull | VHdr nat | VBody

record source =
  sa_data :: "string list"
  sa_view :: view

fun remove_front :: "nat \<Rightarrow> string list \<Rightarrow> string list" where
  "remove_front n [] = []"
| "remove_front n (s # ss) = (if n < length s then drop n s # ss else remove_front (n - length s) ss)"

definition dropped :: "source \<Rightarrow> nat" where
  "dropped sa = (case sa_view sa of VHdr d \<Rightarrow> d | _ \<Rightarrow> 0)"

definition close_view :: "source \<Rightarrow> source" where
  "close_view sa = sa\<lparr>sa_data := if dropped sa = 0 then sa_data sa else remove_front (dropped sa) (sa_data sa),
     sa_view := VNull\<rparr>"

definition forHdr :: "source \<Rightarrow> source" where
  "forHdr sa = (case sa_view sa of VHdr d \<Rightarrow> sa | _ \<Rightarrow> sa\<lparr>sa_view := VHdr 0\<rparr>)"

definition forBody :: "source \<Rightarrow> source" where
  "forBody sa = (case sa_view sa of VBody \<Rightarrow> sa | _ \<Rightarrow> (close_view sa)\<lparr>sa_view := VBody\<rparr>)"

definition segment :: "source \<Rightarrow> string" where
  "segment sa = (case sa_data sa of [] \<Rightarrow> [] | s # ss \<Rightarrow> drop (dropped sa) s)"

definition hdr_empty :: "source \<Rightarrow> bool" where
  "hdr_empty sa = (segment sa = [])"

definition hdr_front :: "source \<Rightarrow> char" where
  "hdr_front sa = hd (segment sa)"

definition dropFront :: "nat \<Rightarrow> source \<Rightarrow> source" where
  "dropFront n sa =
     (if n < length (segment sa) then sa\<lparr>sa_view := VHdr (dropped sa + n)\<rparr>
      else sa\<lparr>sa_data := remove_front (dropped sa + n) (sa_data sa), sa_view := VHdr 0\<rparr>)"

definition sa_empty :: "source \<Rightarrow> bool" where
  "sa_empty sa = (case sa_view sa of VHdr d \<Rightarrow> hdr_empty sa | _ \<Rightarrow> sa_data sa = [])"

definition detach :: "nat \<Rightarrow> source \<Rightarrow> string \<times> source" where
  "detach maxSize sa = (take maxSize (concat (sa_data sa)), sa\<lparr>sa_data := remove_front maxSize (sa_data sa)\<rparr>)"

subsection \<open>The text that is left\<close>

definition flat :: "source \<Rightarrow> string" where
  "flat sa = drop (dropped sa) (concat (sa_data sa))"

definition source_ok :: "source \<Rightarrow> bool" where
  "source_ok sa \<longleftrightarrow> [] \<notin> set (sa_data sa) \<and> (sa_data sa \<noteq> [] \<longrightarrow> dropped sa < length (hd (sa_data sa))) \<and>
     (sa_data sa = [] \<longrightarrow> dropped sa = 0)"

definition in_hdr :: "source \<Rightarrow> bool" where
  "in_hdr sa \<longleftrightarrow> (\<exists>d. sa_view sa = VHdr d)"

definition in_body :: "source \<Rightarrow> bool" where
  "in_body sa \<longleftrightarrow> sa_view sa = VBody"

lemma concat_remove_front: "concat (remove_front n ss) = drop n (concat ss)"
  by (induction n ss rule: remove_front.induct) auto

lemma remove_front_ok: "[] \<notin> set ss \<Longrightarrow> [] \<notin> set (remove_front n ss)"
  by (induction n ss rule: remove_front.induct) auto

lemma dropped_simps [simp]:
  "dropped (sa\<lparr>sa_view := VHdr d\<rparr>) = d" "dropped (sa\<lparr>sa_view := VNull\<rparr>) = 0" "dropped (sa\<lparr>sa_view := VBody\<rparr>) = 0"
  "dropped (sa\<lparr>sa_data := ss\<rparr>) = dropped sa"
  by (simp_all add: dropped_def)

lemma source_ok_no_drop: "[] \<notin> set (sa_data sa) \<Longrightarrow> dropped sa = 0 \<Longrightarrow> source_ok sa"
  by (cases "sa_data sa") (auto simp: source_ok_def)

lemma close_view_ok:
  assumes "source_ok sa"
  shows "source_ok (close_view sa)" "flat (close_view sa) = flat sa" "sa_view (close_view sa) = VNull"
proof -
  have "[] \<notin> set (sa_data (close_view sa))" "dropped (close_view sa) = 0"
    using assms remove_front_ok [of "sa_data sa"] by (simp_all add: close_view_def source_ok_def dropped_def)
  then show "source_ok (close_view sa)" by (rule source_ok_no_drop)
  show "flat (close_view sa) = flat sa" "sa_view (close_view sa) = VNull"
    by (simp_all add: close_view_def flat_def concat_remove_front dropped_def)
qed

lemma forHdr_ok:
  assumes "source_ok sa"
  shows "source_ok (forHdr sa)" "flat (forHdr sa) = flat sa" "in_hdr (forHdr sa)"
  using assms
  by (auto simp: forHdr_def flat_def source_ok_def in_hdr_def dropped_def split: view.splits)

lemma forHdr_in: "in_hdr sa \<Longrightarrow> forHdr sa = sa"
  by (auto simp: in_hdr_def forHdr_def)

lemma forBody_ok:
  assumes "source_ok sa"
  shows "source_ok (forBody sa)" "flat (forBody sa) = flat sa" "in_body (forBody sa)"
proof -
  have c: "source_ok ((close_view sa)\<lparr>sa_view := VBody\<rparr>)" "flat ((close_view sa)\<lparr>sa_view := VBody\<rparr>) = flat sa"
    using close_view_ok [OF assms] by (auto simp: source_ok_def flat_def dropped_def)
  show "source_ok (forBody sa)" "flat (forBody sa) = flat sa" "in_body (forBody sa)"
    using c assms by (auto simp: forBody_def in_body_def split: view.splits)
qed

lemma segment_flat: "source_ok sa \<Longrightarrow> flat sa = segment sa @ concat (tl (sa_data sa))"
  by (cases "sa_data sa") (auto simp: flat_def segment_def source_ok_def)

lemma hdr_empty_flat: "source_ok sa \<Longrightarrow> hdr_empty sa \<longleftrightarrow> flat sa = []"
  by (cases "sa_data sa") (auto simp: flat_def segment_def hdr_empty_def source_ok_def)

lemma hdr_front_flat: "source_ok sa \<Longrightarrow> flat sa \<noteq> [] \<Longrightarrow> hdr_front sa = hd (flat sa)"
  using hdr_empty_flat [of sa] segment_flat [of sa] unfolding hdr_front_def hdr_empty_def by (metis hd_append2)

lemma sa_empty_flat: "source_ok sa \<Longrightarrow> sa_empty sa \<longleftrightarrow> flat sa = []"
  using hdr_empty_flat [of sa]
  by (cases "sa_data sa") (auto simp: sa_empty_def flat_def source_ok_def dropped_def split: view.splits)

lemma dropFront_ok:
  assumes "source_ok sa" "n \<le> length (segment sa)"
  shows "source_ok (dropFront n sa)" "flat (dropFront n sa) = drop n (flat sa)" "in_hdr (dropFront n sa)"
proof -
  show "source_ok (dropFront n sa)"
  proof (cases "n < length (segment sa)")
    case True
    then show ?thesis
      using assms by (cases "sa_data sa") (auto simp: dropFront_def source_ok_def segment_def)
  next
    case False
    then show ?thesis
      using assms remove_front_ok [of "sa_data sa" "dropped sa + n"]
      by (intro source_ok_no_drop) (simp_all add: dropFront_def source_ok_def)
  qed
  show "flat (dropFront n sa) = drop n (flat sa)"
    by (simp add: dropFront_def flat_def concat_remove_front add.commute)
  show "in_hdr (dropFront n sa)"
    by (simp add: dropFront_def in_hdr_def)
qed

lemma dropFront_one:
  assumes "source_ok sa" "flat sa = c # cs"
  shows "source_ok (dropFront 1 sa)" "flat (dropFront 1 sa) = cs" "in_hdr (dropFront 1 sa)"
proof -
  have "1 \<le> length (segment sa)"
    using hdr_empty_flat [OF assms(1)] assms(2) by (cases "segment sa") (simp_all add: hdr_empty_def)
  from dropFront_ok [OF assms(1) this] assms(2)
  show "source_ok (dropFront 1 sa)" "flat (dropFront 1 sa) = cs" "in_hdr (dropFront 1 sa)" by simp_all
qed

lemma detach_ok:
  assumes "source_ok sa" "in_body sa"
  shows "fst (detach n sa) = take n (flat sa)" "source_ok (snd (detach n sa))"
    "flat (snd (detach n sa)) = drop n (flat sa)" "in_body (snd (detach n sa))"
proof -
  have d: "dropped sa = 0" using assms(2) by (simp add: in_body_def dropped_def)
  show "fst (detach n sa) = take n (flat sa)" "flat (snd (detach n sa)) = drop n (flat sa)" "in_body (snd (detach n sa))"
    using assms(2) d by (simp_all add: detach_def flat_def concat_remove_front in_body_def)
  show "source_ok (snd (detach n sa))"
    using assms(1) d remove_front_ok [of "sa_data sa" n]
    by (intro source_ok_no_drop) (simp_all add: detach_def source_ok_def)
qed

subsection \<open>Accumulating up to a terminator\<close>

datatype slice_result =
    NeedMore | InternalError | BadEntity | BadMethod | BadVersion | BadStatus
  | TooBigContent | TooBigUri | TooBigHeaders | UnprocessableContent | Done

text \<open>The first position of the terminator in the available part of the segment, or its end.\<close>

definition find_end :: "char \<Rightarrow> string \<Rightarrow> nat" where
  "find_end t s = length (takeWhile (\<lambda>c. c \<noteq> t) s)"

lemma source_shrinks:
  assumes "\<not> hdr_empty sa" "n \<le> length (segment sa)" "0 < n"
  shows "length (flat (dropFront n sa)) < length (flat sa)"
proof -
  have "segment sa \<noteq> []" using assms(1) by (simp add: hdr_empty_def)
  then obtain s ss where s: "sa_data sa = s # ss" "dropped sa < length s"
    by (auto simp: segment_def split: list.splits)
  then show ?thesis using assms(3)
    by (auto simp: dropFront_def flat_def concat_remove_front)
qed

text \<open>\<open>availSize\<close> and \<open>size4Accumule\<close> of one turn of the loop.\<close>

definition availSize :: "nat \<Rightarrow> string \<Rightarrow> source \<Rightarrow> nat" where
  "availSize limit acc sa = min (length (segment sa)) (limit - length acc + 1)"

definition size4Accumule :: "char \<Rightarrow> nat \<Rightarrow> string \<Rightarrow> source \<Rightarrow> nat" where
  "size4Accumule t limit acc sa = find_end t (take (availSize limit acc sa) (segment sa))"

function accumule_loop ::
  "char \<Rightarrow> slice_result \<Rightarrow> nat \<Rightarrow> string \<Rightarrow> source \<Rightarrow> slice_result \<times> string \<times> source" where
  "accumule_loop t tooBig limit acc sa =
     (if hdr_empty sa then (NeedMore, acc, sa)
      else if limit < length acc + size4Accumule t limit acc sa then (tooBig, acc, sa)
      else if size4Accumule t limit acc sa = availSize limit acc sa then
        accumule_loop t tooBig limit (acc @ take (size4Accumule t limit acc sa) (segment sa))
          (dropFront (size4Accumule t limit acc sa) sa)
      else (Done, acc @ take (size4Accumule t limit acc sa) (segment sa),
            dropFront (size4Accumule t limit acc sa + 1) sa))"
  by pat_completeness auto
termination
proof (relation "measure (\<lambda>(t :: char, tooBig :: slice_result, limit :: nat, acc :: string, sa). length (flat sa))")
  fix t tooBig limit acc sa
  assume e: "\<not> hdr_empty sa" and s: "size4Accumule t limit acc sa = availSize limit acc sa"
  then have "0 < size4Accumule t limit acc sa" "size4Accumule t limit acc sa \<le> length (segment sa)"
    by (auto simp: hdr_empty_def availSize_def)
  from source_shrinks [OF e this(2,1)]
  show "((t, tooBig :: slice_result, limit, acc @ take (size4Accumule t limit acc sa) (segment sa),
      dropFront (size4Accumule t limit acc sa) sa), t, tooBig, limit, acc, sa)
      \<in> measure (\<lambda>(t, tooBig, limit, acc, sa). length (flat sa))"
    by simp
qed simp

declare accumule_loop.simps [simp del]

definition accumuleUntil ::
  "char \<Rightarrow> slice_result \<Rightarrow> nat \<Rightarrow> string \<Rightarrow> source \<Rightarrow> slice_result \<times> string \<times> source" where
  "accumuleUntil t tooBig limit acc sa = accumule_loop t tooBig limit acc (forHdr sa)"

text \<open>What it does to the text that is left.\<close>

definition accumulated :: "char \<Rightarrow> slice_result \<Rightarrow> nat \<Rightarrow> string \<Rightarrow> string \<Rightarrow> slice_result" where
  "accumulated t tooBig limit acc xs =
     (if limit < length acc + find_end t xs then tooBig else if find_end t xs < length xs then Done else NeedMore)"

lemma find_end_le: "find_end t s \<le> length s"
  by (simp add: find_end_def length_takeWhile_le)

lemma find_end_append: "find_end t (xs @ ys) = (if find_end t xs < length xs then find_end t xs else length xs + find_end t ys)"
  by (induction xs) (auto simp: find_end_def)

lemma find_end_take: "find_end t (take n s) = min n (find_end t s)"
  by (induction s arbitrary: n) (auto simp: find_end_def take_Cons split: nat.splits)

definition accumulates ::
  "char \<Rightarrow> slice_result \<Rightarrow> nat \<Rightarrow> string \<Rightarrow> string \<Rightarrow> slice_result \<times> string \<times> source \<Rightarrow> bool" where
  "accumulates t tooBig limit acc xs res \<longleftrightarrow>
     (case res of (r, acc', sa') \<Rightarrow>
        r = accumulated t tooBig limit acc xs \<and> source_ok sa' \<and> in_hdr sa' \<and> length acc' \<le> limit \<and>
        (length acc + find_end t xs \<le> limit \<longrightarrow>
           acc' = acc @ take (find_end t xs) xs \<and> flat sa' = drop (find_end t xs + 1) xs))"

lemma accumulates_more:
  "find_end t s = length s \<Longrightarrow> accumulates t tooBig limit (acc @ s) rest res \<Longrightarrow> accumulates t tooBig limit acc (s @ rest) res"
  by (auto simp: accumulates_def accumulated_def find_end_append)

lemma accumule_loop_flat:
  assumes "source_ok sa" "in_hdr sa" "length acc \<le> limit"
  shows "accumulates t tooBig limit acc (flat sa) (accumule_loop t tooBig limit acc sa)"
  using assms
proof (induction t tooBig limit acc sa rule: accumule_loop.induct)
  case (1 t tooBig limit acc sa)
  show ?case
  proof (cases "hdr_empty sa")
    case True
    then show ?thesis using 1(2-) by (auto simp: accumule_loop.simps hdr_empty_flat accumulated_def accumulates_def find_end_def)
  next
    case False
    define s n avail where "s = segment sa" and "n = size4Accumule t limit acc sa" and "avail = availSize limit acc sa"
    define rest where "rest = concat (tl (sa_data sa))"
    have flat: "flat sa = s @ rest" using segment_flat [OF 1(2)] by (simp add: s_def rest_def)
    have avail: "avail = min (length s) (limit - length acc + 1)" by (simp add: avail_def availSize_def s_def)
    have n: "n = min avail (find_end t s)" by (simp add: n_def size4Accumule_def find_end_take avail_def s_def)
    have le: "find_end t s \<le> length s" by (rule find_end_le)
    have run: "accumule_loop t tooBig limit acc sa =
       (if limit < length acc + n then (tooBig, acc, sa)
        else if n = avail then accumule_loop t tooBig limit (acc @ take n s) (dropFront n sa)
        else (Done, acc @ take n s, dropFront (n + 1) sa))"
      using False by (subst accumule_loop.simps) (simp add: s_def avail_def n_def)
    note drop = dropFront_ok [OF 1(2), folded s_def]
    consider (big) "limit < length acc + n" | (more) "length acc + n \<le> limit" "n = avail"
      | (found) "length acc + n \<le> limit" "n \<noteq> avail" by linarith
    then show ?thesis
    proof cases
      case big
      then have "limit < length acc + find_end t (flat sa)" using n le by (auto simp: flat find_end_append)
      then show ?thesis using big 1(2-) run by (simp add: accumulates_def accumulated_def)
    next
      case more
      then have f: "n = length s" "find_end t s = length s" using n avail le by linarith+
      have d: "flat (dropFront n sa) = rest" using drop(2) [of n] f flat by simp
      have "accumulates t tooBig limit (acc @ s) rest (accumule_loop t tooBig limit (acc @ s) (dropFront n sa))"
        using "1.IH" False more f d drop(1,3) [of n] by (simp flip: n_def avail_def s_def)
      from accumulates_more [OF f(2) this] show ?thesis using more f run flat by simp
    next
      case found
      then have f: "find_end t s = n" "n < length s" using n avail le by linarith+
      then have "find_end t (flat sa) = n" by (simp add: flat find_end_append)
      then show ?thesis
        using found f run drop [of "n + 1"] flat by (simp add: accumulates_def accumulated_def)
    qed
  qed
qed

text \<open>Accumulating depends only on the text that is left, not on its segments.\<close>

lemma accumuleUntil_flat:
  assumes "source_ok sa" "length acc \<le> limit" "accumuleUntil t tooBig limit acc sa = (r, acc', sa')"
  shows "r = accumulated t tooBig limit acc (flat sa)" "source_ok sa'" "in_hdr sa'" "length acc' \<le> limit"
    "length acc + find_end t (flat sa) \<le> limit \<Longrightarrow> acc' = acc @ take (find_end t (flat sa)) (flat sa)"
    "length acc + find_end t (flat sa) \<le> limit \<Longrightarrow> flat sa' = drop (find_end t (flat sa) + 1) (flat sa)"
  using accumule_loop_flat [OF forHdr_ok(1,3) [OF assms(1)] assms(2), of t tooBig] assms(3)
  by (simp_all add: accumuleUntil_def forHdr_ok [OF assms(1)] accumulates_def)

end
