(* ===== verification/HttpEnums.thy ===== *)
theory HttpEnums
  imports Prelude
begin

section \<open>HTTP enumerations and their texts\<close>

text \<open>
  The enumerations of \<open>source/module/www/idl/www/http\<close> and the conversions \<open>toString\<close>
  and \<open>toEnum\<close> that \<open>source/module/www/aux_/enumSupport-gen.cpp\<close> writes for them: the
  first enumerator has no text, the texts are the names, adapted for versions and header keys,
  and header keys are compared without regard to case.
\<close>

datatype http_method = OPTIONS | GET | HEAD | POST | PUT | PATCH | DELETE | TRACE | CONNECT

datatype http_version = HTTP_0_9 | HTTP_1_0 | HTTP_1_1

datatype compression = NoCompression | CompressionByHeaders | Deflate | Gzip | Br | Zstd

datatype encoding = NoEncoding | EncodingByHeaders | EncodingChunked

datatype recognized_key =
  Content_Length | Content_Encoding | Transfer_Encoding | Connection | Trailer | OtherKey string

datatype header_key = KeyRecognized recognized_key | KeyAny string

type_synonym header = "header_key \<times> string"

fun method_text :: "http_method \<Rightarrow> string" where
  "method_text OPTIONS = ''OPTIONS''" | "method_text GET = ''GET''" | "method_text HEAD = ''HEAD''"
| "method_text POST = ''POST''" | "method_text PUT = ''PUT''" | "method_text PATCH = ''PATCH''"
| "method_text DELETE = ''DELETE''" | "method_text TRACE = ''TRACE''" | "method_text CONNECT = ''CONNECT''"

fun version_text :: "http_version \<Rightarrow> string" where
  "version_text HTTP_0_9 = ''HTTP/0.9''" | "version_text HTTP_1_0 = ''HTTP/1.0''" | "version_text HTTP_1_1 = ''HTTP/1.1''"

fun compression_text :: "compression \<Rightarrow> string" where
  "compression_text NoCompression = ''none''" | "compression_text CompressionByHeaders = ''byHeaders''"
| "compression_text Deflate = ''deflate''" | "compression_text Gzip = ''gzip''"
| "compression_text Br = ''br''" | "compression_text Zstd = ''zstd''"

text \<open>\<open>enumSupport::toEnum\<close>: the first enumerator of an enumeration has no text.\<close>

definition to_method :: "string \<Rightarrow> http_method option" where
  "to_method s = find (\<lambda>m. method_text m = s) [OPTIONS, GET, HEAD, POST, PUT, PATCH, DELETE, TRACE, CONNECT]"

definition to_version :: "string \<Rightarrow> http_version option" where
  "to_version s = find (\<lambda>v. version_text v = s) [HTTP_0_9, HTTP_1_0, HTTP_1_1]"

definition to_compression :: "string \<Rightarrow> compression option" where
  "to_compression s = find (\<lambda>c. compression_text c = s) [CompressionByHeaders, Deflate, Gzip, Br, Zstd]"

subsection \<open>Header keys\<close>

definition to_lower :: "char \<Rightarrow> char" where
  "to_lower c = (if 65 \<le> (of_char c :: nat) \<and> (of_char c :: nat) \<le> 90 then char_of (of_char c + 32 :: nat) else c)"

text \<open>The keys that the slicer distinguishes have constructors of their own.\<close>

fun key_text :: "recognized_key \<Rightarrow> string" where
  "key_text Content_Length = ''Content-Length''"
| "key_text Content_Encoding = ''Content-Encoding''"
| "key_text Transfer_Encoding = ''Transfer-Encoding''"
| "key_text Connection = ''Connection''"
| "key_text Trailer = ''Trailer''"
| "key_text (OtherKey s) = s"

definition header_names :: "string list" where
  "header_names =
    [''A-IM'', ''Accept'', ''Accept-Additions'', ''Accept-CH'', ''Accept-Datetime'', ''Accept-Encoding'',
     ''Accept-Features'', ''Accept-Language'', ''Accept-Patch'', ''Accept-Post'', ''Accept-Ranges'',
     ''Accept-Signature'', ''Access-Control-Allow-Credentials'', ''Access-Control-Allow-Headers'',
     ''Access-Control-Allow-Methods'', ''Access-Control-Allow-Origin'', ''Access-Control-Expose-Headers'',
     ''Access-Control-Max-Age'', ''Access-Control-Request-Headers'', ''Access-Control-Request-Method'', ''Age'',
     ''Allow'', ''ALPN'', ''Alt-Svc'', ''Alt-Used'', ''Alternates'', ''Apply-To-Redirect-Ref'',
     ''Authentication-Control'', ''Authentication-Info'', ''Authorization'', ''Available-Dictionary'',
     ''Cache-Control'', ''Cache-Status'', ''Cal-Managed-ID'', ''CalDAV-Timezones'', ''Capsule-Protocol'',
     ''CDN-Cache-Control'', ''CDN-Loop'', ''Cert-Not-After'', ''Cert-Not-Before'', ''Clear-Site-Data'',
     ''Client-Cert'', ''Client-Cert-Chain'', ''Close'', ''Concealed-Auth-Export'', ''Connection'',
     ''Content-Digest'', ''Content-Disposition'', ''Content-Encoding'', ''Content-Language'', ''Content-Length'',
     ''Content-Location'', ''Content-Range'', ''Content-Security-Policy'', ''Content-Security-Policy-Report-Only'',
     ''Content-Type'', ''Cookie'', ''Cross-Origin-Embedder-Policy'', ''Cross-Origin-Embedder-Policy-Report-Only'',
     ''Cross-Origin-Opener-Policy'', ''Cross-Origin-Opener-Policy-Report-Only'', ''Cross-Origin-Resource-Policy'',
     ''DASL'', ''Date'', ''DAV'', ''Delta-Base'', ''Deprecation'', ''Depth'', ''Destination'', ''Dictionary-ID'',
     ''DPoP'', ''DPoP-Nonce'', ''Early-Data'', ''ETag'', ''Expect'', ''Expires'', ''Forwarded'', ''From'',
     ''Hobareg'', ''Host'', ''If'', ''If-Match'', ''If-Modified-Since'', ''If-None-Match'', ''If-Range'',
     ''If-Schedule-Tag-Match'', ''If-Unmodified-Since'', ''IM'', ''Include-Referred-Token-Binding-ID'',
     ''Keep-Alive'', ''Label'', ''Last-Event-ID'', ''Last-Modified'', ''Link'', ''Link-Template'', ''Location'',
     ''Lock-Token'', ''Max-Forwards'', ''Memento-Datetime'', ''Meter'', ''MIME-Version'', ''Negotiate'', ''NEL'',
     ''OData-EntityId'', ''OData-Isolation'', ''OData-MaxVersion'', ''OData-Version'', ''Optional-WWW-Authenticate'',
     ''Ordering-Type'', ''Origin'', ''Origin-Agent-Cluster'', ''OSCORE'', ''OSLC-Core-Version'', ''Overwrite'',
     ''Ping-From'', ''Ping-To'', ''Position'', ''Prefer'', ''Preference-Applied'', ''Priority'',
     ''Proxy-Authenticate'', ''Proxy-Authentication-Info'', ''Proxy-Authorization'', ''Proxy-Status'',
     ''Public-Key-Pins'', ''Public-Key-Pins-Report-Only'', ''Range'', ''Redirect-Ref'', ''Referer'',
     ''Referrer-Policy'', ''Refresh'', ''Replay-Nonce'', ''Repr-Digest'', ''Retry-After'', ''Schedule-Reply'',
     ''Schedule-Tag'', ''Sec-Purpose'', ''Sec-Token-Binding'', ''Sec-WebSocket-Accept'',
     ''Sec-WebSocket-Extensions'', ''Sec-WebSocket-Key'', ''Sec-WebSocket-Protocol'', ''Sec-WebSocket-Version'',
     ''Server'', ''Server-Timing'', ''Set-Cookie'', ''Signature'', ''Signature-Input'', ''SLUG'', ''SoapAction'',
     ''Status-URI'', ''Strict-Transport-Security'', ''Sunset'', ''TCN'', ''TE'', ''Timeout'', ''Topic'',
     ''Traceparent'', ''Tracestate'', ''Trailer'', ''Transfer-Encoding'', ''TTL'', ''Upgrade'', ''Urgency'',
     ''Use-As-Dictionary'', ''User-Agent'', ''Variant-Vary'', ''Vary'', ''Via'', ''Want-Content-Digest'',
     ''Want-Repr-Digest'', ''WWW-Authenticate'', ''X-Content-Type-Options'', ''X-Frame-Options'']"

definition key_of :: "string \<Rightarrow> recognized_key" where
  "key_of t =
     (case find (\<lambda>k. key_text k = t) [Content_Length, Content_Encoding, Transfer_Encoding, Connection, Trailer] of
        Some k \<Rightarrow> k
      | None \<Rightarrow> OtherKey t)"

definition same_key :: "string \<Rightarrow> string \<Rightarrow> bool" where
  "same_key t s \<longleftrightarrow> length t = length s \<and> list_all2 (\<lambda>a b. to_lower a = to_lower b) t s"

definition to_key :: "string \<Rightarrow> recognized_key option" where
  "to_key s = map_option key_of (find (\<lambda>t. same_key t s) header_names)"

subsection \<open>Lists in header values\<close>

text \<open>\<open>utils::split\<close>: the non-empty parts between delimiters, in order.\<close>

function split_parts :: "string \<Rightarrow> string \<Rightarrow> string list" where
  "split_parts delims s =
     (let sub = takeWhile (\<lambda>c. c \<notin> set delims) s; next = dropWhile (\<lambda>c. c \<notin> set delims) s in
      (if sub = [] then [] else [sub]) @ (if next = [] then [] else split_parts delims (tl next)))"
  by pat_completeness auto
termination
proof (relation "measure (\<lambda>(delims :: string, s). length s)")
  fix delims s x xa :: string
  assume "xa = dropWhile (\<lambda>c. c \<notin> set delims) s" "xa \<noteq> []"
  moreover have "length (dropWhile (\<lambda>c. c \<notin> set delims) s) \<le> length s" by (rule length_dropWhile_le)
  ultimately have "length (tl xa) < length s" by (metis diff_less length_greater_0_conv length_tl less_le_trans less_one)
  then show "((delims, tl xa), delims, s) \<in> measure (\<lambda>(delims, s). length s)" by simp
qed simp

declare split_parts.simps [simp del]

end
