(* ===== verification/HttpSlicer.thy ===== *)
theory HttpSlicer
  imports HttpSource HttpEnums
begin

section \<open>The HTTP input slicer\<close>

text \<open>
  Models \<open>source/module/www/src/http/inputSlicer.ipp\<close> with its states (\<open>inputSlicer/state.hpp\<close>,
  \<open>state.cpp\<close>) and the handlers of the two classes derived from it, the server's \<open>Request\<close> and the
  client's \<open>Response\<close>. A slicer is the processor that handles the next input, the members of the
  union of states (each made afresh at the transition that constructs it) and the log of the calls
  made on the API (\<open>sl_events\<close>). The decompressors, which wrap libraries outside the sources, are
  parameters (\<open>settings\<close>).
\<close>

subsection \<open>Settings\<close>

datatype slice_mode = RequestMode | ResponseMode

record 'z settings =
  st_mode :: slice_mode
  st_contentCompression :: compression
  st_transferCompression :: compression
  st_transferEncoding :: encoding
  st_init :: "compression \<Rightarrow> 'z option"
  st_exec :: "'z \<Rightarrow> string \<Rightarrow> bool \<Rightarrow> ('z \<times> string) option"

subsection \<open>Text helpers\<close>

definition isspace :: "char \<Rightarrow> bool" where
  "isspace c \<longleftrightarrow> c = CHR '' '' \<or> c = CHR 0x09"

definition ltrim :: "string \<Rightarrow> string" where
  "ltrim s = dropWhile isspace s"

definition rtrim :: "string \<Rightarrow> string" where
  "rtrim s = rev (dropWhile isspace (rev s))"

definition trim :: "string \<Rightarrow> string" where
  "trim s = ltrim (rtrim s)"

definition signed_char :: "char \<Rightarrow> int" where
  "signed_char c = (let n = of_char c in if n < 128 then n else n - 256)"

definition bad_key_char :: "char \<Rightarrow> bool" where
  "bad_key_char c \<longleftrightarrow> c \<in> set (''()<>@,;:/[]?={}'' @ [CHR 0x5C, CHR 0x22]) \<or> signed_char c \<le> 32 \<or> signed_char c = 127"

definition is_digit :: "char \<Rightarrow> bool" where
  "is_digit c \<longleftrightarrow> 48 \<le> (of_char c :: nat) \<and> (of_char c :: nat) \<le> 57"

definition digit_value :: "char \<Rightarrow> nat" where
  "digit_value c = of_char c - 48"

text \<open>\<open>std::from_chars\<close> for a 64-bit number that must fill the whole text.\<close>

definition from_chars :: "string \<Rightarrow> u64 option" where
  "from_chars s =
     (let n = foldl (\<lambda>n c. 10 * n + digit_value c) 0 s in
      if s = [] \<or> \<not> list_all is_digit s \<or> 2 ^ 64 \<le> n then None else Some (of_nat n))"

subsection \<open>States\<close>

record request_line =
  rl_method :: string
  rl_uri :: string
  rl_version :: string

record status_line =
  rs_version :: string
  rs_code :: u16
  rs_codeChars :: nat
  rs_text :: string

datatype header_kind = UnknownKind | Regular | ValueContinue | EmptyKind

datatype portionality = NoPortionality | UntilClose | ByContentLength | ByChunks

record headers_state =
  hd_key :: string
  hd_value :: string
  hd_kind :: header_kind
  hd_totalHeadersCount :: nat
  hd_totalValueSize :: nat
  hd_tail :: "header list"
  hd_allowLastValueContinue :: bool
  hd_portionality :: portionality
  hd_contentLength :: u64
  hd_compression :: compression
  hd_trailers :: "string set"

datatype chunk_state = ChNull | ChLength | ChLF0 | ChContent | ChCR1 | ChLF1 | ChDone

record 'z body_state =
  bd_codec :: "'z option"
  bd_processedSource :: nat
  bd_content :: string
  bd_trailers :: "string set"
  bd_contentLength :: u64
  bd_state :: chunk_state
  bd_length :: u32
  bd_length2Eat :: u32

datatype event =
    Started
  | FirstLine http_method string http_version
  | StatusLine http_version u16 string
  | HeadersGot "header list" bool
  | DataGot string bool

datatype processor =
    RequestNull | FirstLineMethod | FirstLineUri | FirstLineVersion
  | ResponseNull | StatusVersion | StatusCode | StatusText
  | FirstLineLF
  | HeaderPreKey | HeaderKey | HeaderPreValue | HeaderValue | HeaderLF
  | BodyUntilClose | BodyByContentLength | BodyChunked

record 'z slicer =
  sl_processor :: processor
  sl_request :: request_line
  sl_response :: status_line
  sl_headers :: headers_state
  sl_body :: "'z body_state"
  sl_emitDataDoneOnClose :: bool
  sl_events :: "event list"

definition fresh_request :: request_line where
  "fresh_request = \<lparr>rl_method = [], rl_uri = [], rl_version = []\<rparr>"

definition fresh_response :: status_line where
  "fresh_response = \<lparr>rs_version = [], rs_code = 0, rs_codeChars = 0, rs_text = []\<rparr>"

definition fresh_headers :: headers_state where
  "fresh_headers = \<lparr>hd_key = [], hd_value = [], hd_kind = UnknownKind, hd_totalHeadersCount = 0, hd_totalValueSize = 0,
     hd_tail = [], hd_allowLastValueContinue = False, hd_portionality = NoPortionality, hd_contentLength = 0,
     hd_compression = NoCompression, hd_trailers = {}\<rparr>"

definition fresh_body :: "'z body_state" where
  "fresh_body = \<lparr>bd_codec = None, bd_processedSource = 0, bd_content = [], bd_trailers = {}, bd_contentLength = 0,
     bd_state = ChNull, bd_length = 0, bd_length2Eat = 0\<rparr>"

text \<open>\<open>Headers::Current::reset\<close>.\<close>

definition reset_current :: "headers_state \<Rightarrow> headers_state" where
  "reset_current h = h\<lparr>hd_key := [], hd_value := [], hd_kind := UnknownKind\<rparr>"

text \<open>\<open>Conveyor::detachSome\<close>.\<close>

definition detachSome :: "headers_state \<Rightarrow> header list \<times> headers_state" where
  "detachSome h =
     (if hd_allowLastValueContinue h then
        if length (hd_tail h) < 2 then ([], h) else (tl (hd_tail h), h\<lparr>hd_tail := [hd (hd_tail h)]\<rparr>)
      else (hd_tail h, h\<lparr>hd_tail := []\<rparr>))"

subsection \<open>Handlers of the derived classes\<close>

definition log_event :: "event \<Rightarrow> 'z slicer \<Rightarrow> 'z slicer" where
  "log_event e sl = sl\<lparr>sl_events := sl_events sl @ [e]\<rparr>"

definition sliceStart :: "'z settings \<Rightarrow> 'z slicer \<Rightarrow> 'z slicer" where
  "sliceStart st sl = (if st_mode st = RequestMode then log_event Started sl else sl)"

definition flushHeaders :: "bool \<Rightarrow> 'z slicer \<Rightarrow> slice_result \<times> 'z slicer" where
  "flushHeaders done sl =
     (let (hs, h) = detachSome (sl_headers sl)
      in (if done then Done else NeedMore, log_event (HeadersGot hs done) (sl\<lparr>sl_headers := h\<rparr>)))"

definition flushBody :: "bool \<Rightarrow> 'z slicer \<Rightarrow> slice_result \<times> 'z slicer" where
  "flushBody done sl =
     (if done then Done else NeedMore,
      log_event (DataGot (bd_content (sl_body sl)) done) (sl\<lparr>sl_body := (sl_body sl)\<lparr>bd_content := []\<rparr>\<rparr>))"

subsection \<open>Decompression\<close>

text \<open>\<open>Unified::initialize\<close> on a fresh body, and \<open>Unified::exec\<close>.\<close>

definition initialize :: "'z settings \<Rightarrow> compression \<Rightarrow> 'z option option" where
  "initialize st c =
     (case c of
        NoCompression \<Rightarrow> Some None
      | CompressionByHeaders \<Rightarrow> None
      | _ \<Rightarrow> map_option Some (st_init st c))"

definition unified_exec :: "'z settings \<Rightarrow> 'z \<Rightarrow> string \<Rightarrow> bool \<Rightarrow> 'z body_state \<Rightarrow> (string \<times> 'z body_state) option" where
  "unified_exec st z content finish b =
     (let b1 = b\<lparr>bd_processedSource := bd_processedSource b + length content\<rparr> in
      if finish \<and> bd_processedSource b1 = 0 then Some ([], b1)
      else map_option (\<lambda>(z', out). (out, b1\<lparr>bd_codec := Some z'\<rparr>)) (st_exec st z content finish))"

definition add_content :: "'z settings \<Rightarrow> string \<Rightarrow> bool \<Rightarrow> 'z body_state \<Rightarrow> 'z body_state option" where
  "add_content st content finish b =
     (case bd_codec b of
        None \<Rightarrow> Some (b\<lparr>bd_content := bd_content b @ content\<rparr>)
      | Some z \<Rightarrow> map_option (\<lambda>(out, b1). b1\<lparr>bd_content := bd_content b1 @ out\<rparr>) (unified_exec st z content finish b))"

subsection \<open>First line\<close>

type_synonym 'z sliced = "slice_result \<times> 'z slicer \<times> source"

definition requestNull :: "'z settings \<Rightarrow> 'z slicer \<Rightarrow> source \<Rightarrow> 'z sliced" where
  "requestNull st sl sa =
     (NeedMore, (sliceStart st sl)\<lparr>sl_request := fresh_request, sl_processor := FirstLineMethod\<rparr>, sa)"

definition requestFirstLineMethod :: "'z slicer \<Rightarrow> source \<Rightarrow> 'z sliced" where
  "requestFirstLineMethod sl sa =
     (let (r, acc, sa1) = accumuleUntil CHR '' '' BadEntity 32 (rl_method (sl_request sl)) sa;
          sl1 = sl\<lparr>sl_request := (sl_request sl)\<lparr>rl_method := acc\<rparr>\<rparr>
      in if r \<noteq> Done then (r, sl1, sa1) else (NeedMore, sl1\<lparr>sl_processor := FirstLineUri\<rparr>, sa1))"

definition requestFirstLineUri :: "'z slicer \<Rightarrow> source \<Rightarrow> 'z sliced" where
  "requestFirstLineUri sl sa =
     (let (r, acc, sa1) = accumuleUntil CHR '' '' TooBigUri 8192 (rl_uri (sl_request sl)) sa;
          sl1 = sl\<lparr>sl_request := (sl_request sl)\<lparr>rl_uri := acc\<rparr>\<rparr>
      in if r \<noteq> Done then (r, sl1, sa1) else (NeedMore, sl1\<lparr>sl_processor := FirstLineVersion\<rparr>, sa1))"

definition requestFirstLineVersion :: "'z slicer \<Rightarrow> source \<Rightarrow> 'z sliced" where
  "requestFirstLineVersion sl sa =
     (let (r, acc, sa1) = accumuleUntil CHR 0x0D BadEntity 16 (rl_version (sl_request sl)) sa;
          sl1 = sl\<lparr>sl_request := (sl_request sl)\<lparr>rl_version := acc\<rparr>\<rparr>
      in if r \<noteq> Done then (r, sl1, sa1) else (NeedMore, sl1\<lparr>sl_processor := FirstLineLF\<rparr>, sa1))"

definition responseNull :: "'z settings \<Rightarrow> 'z slicer \<Rightarrow> source \<Rightarrow> 'z sliced" where
  "responseNull st sl sa =
     (NeedMore, (sliceStart st sl)\<lparr>sl_response := fresh_response, sl_processor := StatusVersion\<rparr>, sa)"

definition responseFirstLineVersion :: "'z slicer \<Rightarrow> source \<Rightarrow> 'z sliced" where
  "responseFirstLineVersion sl sa =
     (let (r, acc, sa1) = accumuleUntil CHR '' '' BadEntity 16 (rs_version (sl_response sl)) sa;
          sl1 = sl\<lparr>sl_response := (sl_response sl)\<lparr>rs_version := acc\<rparr>\<rparr>
      in if r \<noteq> Done then (r, sl1, sa1) else (NeedMore, sl1\<lparr>sl_processor := StatusCode\<rparr>, sa1))"

text \<open>Three digits and a space; the loop over \<open>_statusCodeCharsCount\<close>.\<close>

function status_loop :: "'z slicer \<Rightarrow> source \<Rightarrow> 'z sliced" where
  "status_loop sl sa =
     (let rs = sl_response sl; c = hdr_front sa in
      if 4 \<le> rs_codeChars rs then (NeedMore, sl\<lparr>sl_processor := StatusText\<rparr>, sa)
      else if hdr_empty sa then (NeedMore, sl, sa)
      else if rs_codeChars rs < 3 then
        if \<not> is_digit c then (BadStatus, sl, sa)
        else status_loop (sl\<lparr>sl_response := rs\<lparr>rs_code := rs_code rs * 10 + of_nat (digit_value c),
               rs_codeChars := rs_codeChars rs + 1\<rparr>\<rparr>) (dropFront 1 sa)
      else if \<not> isspace c then (BadStatus, sl, sa)
      else (NeedMore, sl\<lparr>sl_response := rs\<lparr>rs_codeChars := rs_codeChars rs + 1\<rparr>, sl_processor := StatusText\<rparr>, dropFront 1 sa))"
  by pat_completeness auto
termination
  by (relation "measure (\<lambda>(sl :: 'z slicer, sa). 4 - rs_codeChars (sl_response sl))") auto

declare status_loop.simps [simp del]

definition responseFirstLineStatusCode :: "'z slicer \<Rightarrow> source \<Rightarrow> 'z sliced" where
  "responseFirstLineStatusCode sl sa = status_loop sl (forHdr sa)"

definition responseFirstLineStatusText :: "'z slicer \<Rightarrow> source \<Rightarrow> 'z sliced" where
  "responseFirstLineStatusText sl sa =
     (let (r, acc, sa1) = accumuleUntil CHR 0x0D BadEntity 64 (rs_text (sl_response sl)) sa;
          sl1 = sl\<lparr>sl_response := (sl_response sl)\<lparr>rs_text := acc\<rparr>\<rparr>
      in if r \<noteq> Done then (r, sl1, sa1) else (NeedMore, sl1\<lparr>sl_processor := FirstLineLF\<rparr>, sa1))"

definition firstLineEnd :: "'z settings \<Rightarrow> 'z slicer \<Rightarrow> slice_result \<times> 'z slicer" where
  "firstLineEnd st sl =
     (case st_mode st of
        RequestMode \<Rightarrow>
          (let rl = sl_request sl in
           case to_method (rl_method rl) of
             None \<Rightarrow> (BadMethod, sl)
           | Some m \<Rightarrow>
               if length (rl_version rl) < 5 \<or> take 5 (rl_version rl) \<noteq> ''HTTP/'' then (BadEntity, sl)
               else (case to_version (rl_version rl) of
                       None \<Rightarrow> (BadVersion, sl)
                     | Some v \<Rightarrow> (Done, log_event (FirstLine m (rl_uri rl) v) (sl\<lparr>sl_request := rl\<lparr>rl_uri := []\<rparr>\<rparr>))))
      | ResponseMode \<Rightarrow>
          (let rs = sl_response sl in
           case to_version (rs_version rs) of
             None \<Rightarrow> (BadVersion, sl)
           | Some v \<Rightarrow> (Done, log_event (StatusLine v (rs_code rs) (rs_text rs)) (sl\<lparr>sl_response := rs\<lparr>rs_text := []\<rparr>\<rparr>))))"

definition firstLineLF :: "'z settings \<Rightarrow> 'z slicer \<Rightarrow> source \<Rightarrow> 'z sliced" where
  "firstLineLF st sl sa0 =
     (let sa = forHdr sa0 in
      if hdr_empty sa then (NeedMore, sl, sa)
      else if hdr_front sa \<noteq> CHR 0x0A then (BadEntity, sl, sa)
      else let (r, sl1) = firstLineEnd st sl; sa1 = dropFront 1 sa in
           if r \<noteq> Done then (r, sl1, sa1)
           else (NeedMore, sl1\<lparr>sl_headers := fresh_headers, sl_processor := HeaderPreKey\<rparr>, sa1))"

subsection \<open>Headers\<close>

definition set_headers :: "headers_state \<Rightarrow> 'z slicer \<Rightarrow> 'z slicer" where
  "set_headers h sl = sl\<lparr>sl_headers := h\<rparr>"

definition headerPreKey :: "'z slicer \<Rightarrow> source \<Rightarrow> 'z sliced" where
  "headerPreKey sl sa0 =
     (let sa = forHdr sa0; h = sl_headers sl; c = hdr_front sa in
      if 256 \<le> hd_totalHeadersCount h then (TooBigHeaders, sl, sa)
      else if hdr_empty sa then (NeedMore, sl, sa)
      else if c = CHR 0x0D then
        (NeedMore, sl\<lparr>sl_headers := h\<lparr>hd_kind := EmptyKind, hd_allowLastValueContinue := False\<rparr>, sl_processor := HeaderLF\<rparr>,
         dropFront 1 sa)
      else if isspace c then
        if \<not> hd_allowLastValueContinue h then (BadEntity, sl, sa)
        else (NeedMore, sl\<lparr>sl_headers := h\<lparr>hd_kind := ValueContinue\<rparr>, sl_processor := HeaderPreValue\<rparr>, dropFront 1 sa)
      else (NeedMore, sl\<lparr>sl_headers := h\<lparr>hd_kind := Regular\<rparr>, sl_processor := HeaderKey\<rparr>, sa))"

definition headerKey :: "'z slicer \<Rightarrow> source \<Rightarrow> 'z sliced" where
  "headerKey sl sa =
     (let h = sl_headers sl in
      if sa_empty sa then (NeedMore, sl, sa)
      else let (r, acc, sa1) = accumuleUntil CHR '':'' BadEntity 64 (hd_key h) sa in
           if r \<noteq> Done then (r, set_headers (h\<lparr>hd_key := acc\<rparr>) sl, sa1)
           else (NeedMore,
             (set_headers (h\<lparr>hd_key := acc, hd_totalHeadersCount := hd_totalHeadersCount h + 1\<rparr>) sl)
               \<lparr>sl_processor := HeaderPreValue\<rparr>, sa1))"

function skip_spaces :: "source \<Rightarrow> source" where
  "skip_spaces sa = (if hdr_empty sa then sa else if isspace (hdr_front sa) then skip_spaces (dropFront 1 sa) else sa)"
  by pat_completeness auto
termination
proof (relation "measure (\<lambda>sa. length (flat sa))")
  fix sa assume "\<not> hdr_empty sa"
  then have "length (flat (dropFront 1 sa)) < length (flat sa)"
    by (intro source_shrinks) (auto simp: hdr_empty_def Suc_le_eq)
  then show "(dropFront 1 sa, sa) \<in> measure (\<lambda>sa. length (flat sa))" by simp
qed simp

declare skip_spaces.simps [simp del]

definition headerPreValue :: "'z slicer \<Rightarrow> source \<Rightarrow> 'z sliced" where
  "headerPreValue sl sa =
     (let sa1 = skip_spaces (forHdr sa) in
      (NeedMore, if hdr_empty sa1 then sl else sl\<lparr>sl_processor := HeaderValue\<rparr>, sa1))"

definition headerValue :: "'z slicer \<Rightarrow> source \<Rightarrow> 'z sliced" where
  "headerValue sl sa =
     (let h = sl_headers sl; (r, acc, sa1) = accumuleUntil CHR 0x0D TooBigHeaders 8192 (hd_value h) sa;
          sl1 = set_headers (h\<lparr>hd_value := acc\<rparr>) sl
      in if r \<noteq> Done then (r, sl1, sa1) else (NeedMore, sl1\<lparr>sl_processor := HeaderLF\<rparr>, sa1))"

text \<open>
  The effect of a recognized header. \<open>setCompression\<close> gives whether the type was acceptable; the
  values of \<open>Content-Encoding\<close> and \<open>Transfer-Encoding\<close> are lists, all of whose parts take effect.
\<close>

definition setCompression :: "string \<Rightarrow> headers_state \<Rightarrow> bool \<times> headers_state" where
  "setCompression type h =
     (if hd_compression h \<noteq> NoCompression then (False, h)
      else case to_compression type of None \<Rightarrow> (False, h) | Some c \<Rightarrow> (True, h\<lparr>hd_compression := c\<rparr>))"

fun content_parts :: "string list \<Rightarrow> headers_state \<Rightarrow> bool \<times> headers_state" where
  "content_parts [] h = (True, h)"
| "content_parts (p # ps) h =
     (let (ok, h1) = setCompression p h; (ok2, h2) = content_parts ps h1 in (ok \<and> ok2, h2))"

definition portionality_free :: "headers_state \<Rightarrow> bool" where
  "portionality_free h \<longleftrightarrow> hd_portionality h = NoPortionality \<or> hd_portionality h = UntilClose"

definition transfer_part :: "'z settings \<Rightarrow> string \<Rightarrow> headers_state \<Rightarrow> bool \<times> headers_state" where
  "transfer_part st p h =
     (if p = ''chunked'' then
        if st_transferEncoding st = EncodingByHeaders then
          if portionality_free h then (True, h\<lparr>hd_portionality := ByChunks\<rparr>) else (False, h)
        else (True, h)
      else if st_transferCompression st = CompressionByHeaders then setCompression p h
      else (True, h))"

fun transfer_parts :: "'z settings \<Rightarrow> string list \<Rightarrow> headers_state \<Rightarrow> bool \<times> headers_state" where
  "transfer_parts st [] h = (True, h)"
| "transfer_parts st (p # ps) h =
     (let (ok, h1) = transfer_part st p h; (ok2, h2) = transfer_parts st ps h1 in (ok \<and> ok2, h2))"

definition list_parts :: "string \<Rightarrow> string list" where
  "list_parts s = split_parts '', '' s"

definition recognized_header :: "'z settings \<Rightarrow> recognized_key \<Rightarrow> headers_state \<Rightarrow> slice_result \<times> headers_state" where
  "recognized_header st k h0 =
     (let h = h0\<lparr>hd_allowLastValueContinue := False\<rparr>; v = hd_value h0 in
      case k of
        Content_Length \<Rightarrow>
          if portionality_free h then
            (let h1 = h\<lparr>hd_portionality := ByContentLength\<rparr> in
             case from_chars v of
               None \<Rightarrow> (BadEntity, h1)
             | Some n \<Rightarrow> (NeedMore, h1\<lparr>hd_contentLength := n\<rparr>))
          else (BadEntity, h)
      | Content_Encoding \<Rightarrow>
          if st_contentCompression st = CompressionByHeaders then
            (let (ok, h1) = content_parts (list_parts v) h in (if ok then NeedMore else UnprocessableContent, h1))
          else (NeedMore, h)
      | Transfer_Encoding \<Rightarrow>
          if st_transferCompression st = CompressionByHeaders \<or> st_transferEncoding st = EncodingByHeaders then
            (let (ok, h1) = transfer_parts st (list_parts v) h in (if ok then NeedMore else UnprocessableContent, h1))
          else (NeedMore, h)
      | Connection \<Rightarrow>
          (NeedMore, if v = ''close'' \<and> hd_portionality h = NoPortionality then h\<lparr>hd_portionality := UntilClose\<rparr> else h)
      | Trailer \<Rightarrow> (NeedMore, h\<lparr>hd_trailers := hd_trailers h \<union> set (list_parts v)\<rparr>)
      | OtherKey _ \<Rightarrow> (NeedMore, h0\<lparr>hd_allowLastValueContinue := True\<rparr>))"

text \<open>One header line, by its kind; \<open>NeedMore\<close> when the line is accepted.\<close>

definition regular_header :: "'z settings \<Rightarrow> headers_state \<Rightarrow> slice_result \<times> headers_state" where
  "regular_header st h =
     (if hd_key h = [] \<or> list_ex bad_key_char (hd_key h) then (BadEntity, h)
      else
        let v = rtrim (hd_value h);
            h1 = h\<lparr>hd_value := v, hd_totalValueSize := hd_totalValueSize h + length v\<rparr>
        in if 32768 \<le> hd_totalValueSize h1 then (TooBigHeaders, h1)
           else case to_key (hd_key h) of
             Some k \<Rightarrow>
               (let (r, h2) = recognized_header st k h1
                in (r, if r = NeedMore then h2\<lparr>hd_tail := hd_tail h2 @ [(KeyRecognized k, v)]\<rparr> else h2))
           | None \<Rightarrow>
               (NeedMore, h1\<lparr>hd_allowLastValueContinue := True, hd_tail := hd_tail h1 @ [(KeyAny (hd_key h), v)]\<rparr>))"

definition continue_value :: "headers_state \<Rightarrow> slice_result \<times> headers_state" where
  "continue_value h =
     (if \<not> hd_allowLastValueContinue h \<or> hd_tail h = [] then (BadEntity, h)
      else
        let (k, value) = last (hd_tail h); addition = trim (hd_value h)
        in if 8192 < length value + 1 + length addition then (TooBigHeaders, h)
           else (NeedMore, h\<lparr>hd_tail := butlast (hd_tail h) @ [(k, value @ '' '' @ addition)]\<rparr>))"

definition header_line :: "'z settings \<Rightarrow> headers_state \<Rightarrow> slice_result \<times> headers_state" where
  "header_line st h =
     (case hd_kind h of
        UnknownKind \<Rightarrow> (BadEntity, h)
      | Regular \<Rightarrow> regular_header st h
      | ValueContinue \<Rightarrow> continue_value h
      | EmptyKind \<Rightarrow> (Done, h))"

text \<open>The end of the headers: the body that is to follow.\<close>

definition body_compression :: "'z settings \<Rightarrow> compression \<Rightarrow> compression" where
  "body_compression st c0 =
     (let bySettings = (\<lambda>s c. if s = CompressionByHeaders \<or> s = NoCompression then c
                              else if c = NoCompression then s else c)
      in bySettings (st_transferCompression st) (bySettings (st_contentCompression st) c0))"

definition body_start :: "'z settings \<Rightarrow> 'z slicer \<Rightarrow> slice_result \<times> 'z slicer" where
  "body_start st sl0 =
     (let h = sl_headers sl0;
          port = if st_transferEncoding st = EncodingChunked then ByChunks else hd_portionality h;
          sl = (case port of
                  NoPortionality \<Rightarrow> sl0\<lparr>sl_emitDataDoneOnClose := True\<rparr>
                | UntilClose \<Rightarrow> sl0\<lparr>sl_emitDataDoneOnClose := True\<rparr>
                | _ \<Rightarrow> sl0);
          b = fresh_body\<lparr>bd_trailers := hd_trailers h,
                bd_contentLength := if port = ByContentLength then hd_contentLength h else 0\<rparr>
      in case initialize st (body_compression st (hd_compression h)) of
           None \<Rightarrow> (InternalError, sl\<lparr>sl_body := b\<rparr>)
         | Some codec \<Rightarrow>
             (let sl1 = sl\<lparr>sl_body := b\<lparr>bd_codec := codec\<rparr>\<rparr> in
              case port of
                ByContentLength \<Rightarrow>
                  if hd_contentLength h = 0 then flushBody True sl1
                  else (NeedMore, sl1\<lparr>sl_processor := BodyByContentLength\<rparr>)
              | ByChunks \<Rightarrow> (NeedMore, sl1\<lparr>sl_processor := BodyChunked\<rparr>)
              | _ \<Rightarrow> (NeedMore, sl1\<lparr>sl_processor := BodyUntilClose\<rparr>)))"

text \<open>What \<open>headerLF\<close> does behind the line end; \<open>noMore\<close> says that no more input is at hand.\<close>

definition header_end :: "'z settings \<Rightarrow> bool \<Rightarrow> 'z slicer \<Rightarrow> slice_result \<times> 'z slicer" where
  "header_end st noMore sl =
     (let (r, h) = header_line st (sl_headers sl); sl1 = set_headers h sl in
      if r = NeedMore then
        let sl2 = (if noMore then snd (flushHeaders False sl1) else sl1) in
        (NeedMore, (set_headers (reset_current (sl_headers sl2)) sl2)\<lparr>sl_processor := HeaderPreKey\<rparr>)
      else if r = Done then body_start st (snd (flushHeaders True sl1))
      else (r, sl1))"

definition headerLF :: "'z settings \<Rightarrow> 'z slicer \<Rightarrow> source \<Rightarrow> 'z sliced" where
  "headerLF st sl sa0 =
     (let sa = forHdr sa0 in
      if hdr_empty sa then (NeedMore, sl, sa)
      else if hdr_front sa \<noteq> CHR 0x0A then (BadEntity, sl, sa)
      else let sa1 = dropFront 1 sa; (r, sl1) = header_end st (hdr_empty sa1) sl in (r, sl1, sa1))"

subsection \<open>Body\<close>

definition set_body :: "'z body_state \<Rightarrow> 'z slicer \<Rightarrow> 'z slicer" where
  "set_body b sl = sl\<lparr>sl_body := b\<rparr>"

definition detach_all :: nat where
  "detach_all = 2 ^ 32 - 1"

definition bodyUntilClose :: "'z settings \<Rightarrow> 'z slicer \<Rightarrow> source \<Rightarrow> 'z sliced" where
  "bodyUntilClose st sl sa0 =
     (let (content, sa) = detach detach_all (forBody sa0) in
      case add_content st content False (sl_body sl) of
        None \<Rightarrow> (BadEntity, sl, sa)
      | Some b \<Rightarrow>
          if bd_content b \<noteq> [] then (let (r, sl1) = flushBody False (set_body b sl) in (r, sl1, sa))
          else (NeedMore, set_body b sl, sa))"

text \<open>\<open>detach\<close> takes a 32-bit size: the 64-bit content length is cut off.\<close>

definition bodyByContentLength :: "'z settings \<Rightarrow> 'z slicer \<Rightarrow> source \<Rightarrow> 'z sliced" where
  "bodyByContentLength st sl sa0 =
     (let (content, sa) = detach (unat (ucast (bd_contentLength (sl_body sl)) :: u32)) (forBody sa0);
          b = (sl_body sl)\<lparr>bd_contentLength := bd_contentLength (sl_body sl) - of_nat (length content)\<rparr>;
          done = (bd_contentLength b = 0)
      in case add_content st content done b of
           None \<Rightarrow> (BadEntity, set_body b sl, sa)
         | Some b1 \<Rightarrow>
             if bd_content b1 \<noteq> [] \<or> done then (let (r, sl1) = flushBody done (set_body b1 sl) in (r, sl1, sa))
             else (NeedMore, set_body b1 sl, sa))"

text \<open>\<open>flush\<close> of \<open>bodyChunked\<close>.\<close>

definition chunked_flush :: "'z settings \<Rightarrow> slice_result \<Rightarrow> 'z slicer \<Rightarrow> slice_result \<times> 'z slicer" where
  "chunked_flush st res sl =
     (let done = (res = Done);
          b1 = (if done \<and> bd_codec (sl_body sl) \<noteq> None then add_content st [] True (sl_body sl) else Some (sl_body sl))
      in case b1 of
           None \<Rightarrow> (BadEntity, sl)
         | Some b \<Rightarrow>
             if bd_content b \<noteq> [] \<or> done then flushBody done (set_body b sl) else (res, set_body b sl))"

definition hex_digit :: "char \<Rightarrow> u32 option" where
  "hex_digit c =
     (let n = of_char c :: nat in
      if 48 \<le> n \<and> n \<le> 57 then Some (of_nat (n - 48))
      else if 97 \<le> n \<and> n \<le> 102 then Some (of_nat (n + 10 - 97))
      else if 65 \<le> n \<and> n \<le> 70 then Some (of_nat (n + 10 - 65))
      else None)"

text \<open>One turn of the loop: the result, or none to go on.\<close>

type_synonym 'z turned = "slice_result option \<times> 'z slicer \<times> source"

definition stop_flushed :: "'z settings \<Rightarrow> slice_result \<Rightarrow> 'z slicer \<Rightarrow> source \<Rightarrow> 'z turned" where
  "stop_flushed st res sl sa = (let (r, sl1) = chunked_flush st res sl in (Some r, sl1, sa))"

definition expect_char :: "'z settings \<Rightarrow> char \<Rightarrow> 'z body_state \<Rightarrow> 'z slicer \<Rightarrow> source \<Rightarrow> 'z turned" where
  "expect_char st c b sl sa =
     (if hdr_empty sa then stop_flushed st NeedMore sl sa
      else if hdr_front sa \<noteq> c then (Some BadEntity, sl, sa)
      else (None, set_body b sl, dropFront 1 sa))"

definition chunk_length_turn :: "'z settings \<Rightarrow> 'z slicer \<Rightarrow> source \<Rightarrow> 'z turned" where
  "chunk_length_turn st sl sa =
     (let b = sl_body sl; c = hdr_front sa in
      if hdr_empty sa then stop_flushed st NeedMore sl sa
      else if c = CHR 0x0D then (None, set_body (b\<lparr>bd_state := ChLF0\<rparr>) sl, dropFront 1 sa)
      else if 0x10000000 \<le> bd_length b then (Some TooBigContent, sl, sa)
      else case hex_digit c of
             None \<Rightarrow> (Some BadEntity, sl, sa)
           | Some d \<Rightarrow> (None, set_body (b\<lparr>bd_length := push_bit 4 (bd_length b) OR d\<rparr>) sl, dropFront 1 sa))"

definition chunk_content_end :: "'z settings \<Rightarrow> 'z slicer \<Rightarrow> source \<Rightarrow> 'z turned" where
  "chunk_content_end st sl sa =
     (if bd_length2Eat (sl_body sl) \<noteq> 0 then stop_flushed st NeedMore sl sa
      else (None, set_body ((sl_body sl)\<lparr>bd_state := ChCR1\<rparr>) sl, sa))"

definition chunk_content_turn :: "'z settings \<Rightarrow> 'z slicer \<Rightarrow> source \<Rightarrow> 'z turned" where
  "chunk_content_turn st sl sa0 =
     (let b = sl_body sl; sa = (if bd_length2Eat b \<noteq> 0 then forBody sa0 else sa0) in
      if bd_length2Eat b \<noteq> 0 \<and> sa_data sa \<noteq> [] then
        (let (content, sa1) = detach (unat (bd_length2Eat b)) sa;
             b1 = b\<lparr>bd_length2Eat := bd_length2Eat b - of_nat (length content)\<rparr>
         in case add_content st content False b1 of
              None \<Rightarrow> (Some BadEntity, set_body b1 sl, sa1)
            | Some b2 \<Rightarrow> chunk_content_end st (set_body b2 sl) sa1)
      else chunk_content_end st sl sa)"

definition chunk_turn :: "'z settings \<Rightarrow> 'z slicer \<Rightarrow> source \<Rightarrow> 'z turned" where
  "chunk_turn st sl sa =
     (let b = sl_body sl in
      case bd_state b of
        ChNull \<Rightarrow> (None, set_body (b\<lparr>bd_length := 0, bd_length2Eat := 0, bd_state := ChLength\<rparr>) sl, sa)
      | ChLength \<Rightarrow> chunk_length_turn st sl (forHdr sa)
      | ChLF0 \<Rightarrow>
          expect_char st CHR 0x0A
            (b\<lparr>bd_length2Eat := bd_length b, bd_state := if bd_length b \<noteq> 0 then ChContent else ChCR1\<rparr>) sl (forHdr sa)
      | ChContent \<Rightarrow> chunk_content_turn st sl sa
      | ChCR1 \<Rightarrow> expect_char st CHR 0x0D (b\<lparr>bd_state := ChLF1\<rparr>) sl (forHdr sa)
      | ChLF1 \<Rightarrow>
          expect_char st CHR 0x0A (b\<lparr>bd_state := if bd_length b \<noteq> 0 then ChNull else ChDone\<rparr>) sl (forHdr sa)
      | ChDone \<Rightarrow> stop_flushed st Done sl sa)"

definition chunk_rank :: "'z slicer \<Rightarrow> nat" where
  "chunk_rank sl = (case bd_state (sl_body sl) of ChNull \<Rightarrow> 1 | ChContent \<Rightarrow> 1 | _ \<Rightarrow> 0)"

lemma flat_forHdr: "length (flat (forHdr sa)) = length (flat sa)"
  by (simp add: forHdr_def flat_def dropped_def split: view.splits)

lemma flat_forBody: "length (flat (forBody sa)) \<le> length (flat sa)"
  by (simp add: forBody_def close_view_def flat_def dropped_def concat_remove_front split: view.splits)

lemma flat_detach: "length (flat (snd (detach n sa))) \<le> length (flat sa)"
  by (simp add: detach_def flat_def concat_remove_front)

lemma drop_one_shrinks: "\<not> hdr_empty sa \<Longrightarrow> length (flat (dropFront 1 sa)) < length (flat sa)"
  by (rule source_shrinks) (auto simp: hdr_empty_def Suc_le_eq)

lemma stop_flushed_stops: "fst (stop_flushed st res sl sa) \<noteq> None"
  by (simp add: stop_flushed_def split: prod.splits)

lemma chunk_turn_shrinks:
  assumes "chunk_turn st sl sa = (None, sl', sa')"
  shows "2 * length (flat sa') + chunk_rank sl' < 2 * length (flat sa) + chunk_rank sl"
proof -
  have stop: "stop_flushed st r x y \<noteq> (None, sl', sa')" for r x y
    using stop_flushed_stops [of st r x y] by auto
  have ex: "2 * length (flat sa') + chunk_rank sl' < 2 * length (flat sa)"
    if "expect_char st c b sl (forHdr sa) = (None, sl', sa')" for c b
  proof -
    have "sl' = set_body b sl" "sa' = dropFront 1 (forHdr sa)" "\<not> hdr_empty (forHdr sa)"
      using that stop by (auto simp: expect_char_def split: if_splits)
    with drop_one_shrinks [of "forHdr sa"] show ?thesis
      by (simp add: flat_forHdr chunk_rank_def split: chunk_state.splits)
  qed
  show ?thesis
  proof (cases "bd_state (sl_body sl)")
    case ChLength
    with assms have "chunk_length_turn st sl (forHdr sa) = (None, sl', sa')" by (simp add: chunk_turn_def Let_def)
    then have "sa' = dropFront 1 (forHdr sa)" "\<not> hdr_empty (forHdr sa)" "chunk_rank sl' = 0"
      using stop ChLength by (auto simp: chunk_length_turn_def Let_def chunk_rank_def set_body_def split: if_splits option.splits)
    with drop_one_shrinks [of "forHdr sa"] show ?thesis by (simp add: flat_forHdr)
  next
    case ChContent
    with assms have "chunk_content_turn st sl sa = (None, sl', sa')" by (simp add: chunk_turn_def Let_def)
    then have "chunk_rank sl' = 0" "sa' = sa \<or> sa' = forBody sa \<or> (\<exists>n. sa' = snd (detach n (forBody sa)))"
      using stop by (auto simp: chunk_content_turn_def chunk_content_end_def Let_def chunk_rank_def set_body_def
          split: if_splits option.splits prod.splits) (metis snd_conv)+
    then have "length (flat sa') \<le> length (flat sa)"
      using flat_forBody [of sa] flat_detach order_trans by blast
    then show ?thesis using ChContent \<open>chunk_rank sl' = 0\<close> by (simp add: chunk_rank_def)
  next
    case ChDone
    then show ?thesis using assms stop by (simp add: chunk_turn_def)
  next
    case ChNull
    then show ?thesis using assms by (auto simp: chunk_turn_def chunk_rank_def set_body_def)
  qed (use assms ex in \<open>fastforce simp: chunk_turn_def Let_def\<close>)+
qed

function bodyChunked :: "'z settings \<Rightarrow> 'z slicer \<Rightarrow> source \<Rightarrow> 'z sliced" where
  "bodyChunked st sl sa =
     (case chunk_turn st sl sa of
        (Some r, sl1, sa1) \<Rightarrow> (r, sl1, sa1)
      | (None, sl1, sa1) \<Rightarrow> bodyChunked st sl1 sa1)"
  by pat_completeness auto
termination
  by (relation "measure (\<lambda>(st, sl, sa). 2 * length (flat sa) + chunk_rank sl)") (auto intro: chunk_turn_shrinks [OF sym])

declare bodyChunked.simps [simp del]

subsection \<open>Processing\<close>

definition run_processor :: "'z settings \<Rightarrow> 'z slicer \<Rightarrow> source \<Rightarrow> 'z sliced" where
  "run_processor st sl sa =
     (case sl_processor sl of
        RequestNull \<Rightarrow> requestNull st sl sa
      | FirstLineMethod \<Rightarrow> requestFirstLineMethod sl sa
      | FirstLineUri \<Rightarrow> requestFirstLineUri sl sa
      | FirstLineVersion \<Rightarrow> requestFirstLineVersion sl sa
      | ResponseNull \<Rightarrow> responseNull st sl sa
      | StatusVersion \<Rightarrow> responseFirstLineVersion sl sa
      | StatusCode \<Rightarrow> responseFirstLineStatusCode sl sa
      | StatusText \<Rightarrow> responseFirstLineStatusText sl sa
      | FirstLineLF \<Rightarrow> firstLineLF st sl sa
      | HeaderPreKey \<Rightarrow> headerPreKey sl sa
      | HeaderKey \<Rightarrow> headerKey sl sa
      | HeaderPreValue \<Rightarrow> headerPreValue sl sa
      | HeaderValue \<Rightarrow> headerValue sl sa
      | HeaderLF \<Rightarrow> headerLF st sl sa
      | BodyUntilClose \<Rightarrow> bodyUntilClose st sl sa
      | BodyByContentLength \<Rightarrow> bodyByContentLength st sl sa
      | BodyChunked \<Rightarrow> bodyChunked st sl sa)"

text \<open>The loop of \<open>process\<close>, which need not end.\<close>

partial_function (option) process :: "'z settings \<Rightarrow> 'z slicer \<Rightarrow> source \<Rightarrow> 'z sliced option" where
  "process st sl sa =
     (if sa_empty sa then Some (NeedMore, sl, sa)
      else case run_processor st sl sa of
             (r, sl1, sa1) \<Rightarrow> if r = NeedMore then process st sl1 sa1 else Some (r, sl1, sa1))"

definition new_slicer :: "'z settings \<Rightarrow> 'z slicer" where
  "new_slicer st = \<lparr>sl_processor = if st_mode st = RequestMode then RequestNull else ResponseNull,
     sl_request = fresh_request, sl_response = fresh_response, sl_headers = fresh_headers, sl_body = fresh_body,
     sl_emitDataDoneOnClose = False, sl_events = []\<rparr>"

definition reset_slicer :: "'z settings \<Rightarrow> 'z slicer \<Rightarrow> 'z slicer" where
  "reset_slicer st sl = sl\<lparr>sl_processor := if st_mode st = RequestMode then RequestNull else ResponseNull\<rparr>"

text \<open>
  \<open>Request::process\<close> and \<open>Response::process\<close>: a fresh adapter over the data received, destroyed
  before the result is looked at. The result, the slicer and the data that was not consumed.
\<close>

definition receive :: "'z settings \<Rightarrow> 'z slicer \<Rightarrow> string list \<Rightarrow> (slice_result \<times> 'z slicer \<times> string list) option" where
  "receive st sl segs =
     map_option (\<lambda>(r, sl1, sa). (r, if r = Done then reset_slicer st sl1 else sl1, sa_data (close_view sa)))
       (process st sl \<lparr>sa_data = segs, sa_view = VNull\<rparr>)"

end
