(* ===== verification/HttpSegments.thy ===== *)
theory HttpSegments
  imports HttpSlicer
begin

section \<open>The slicer does not see segments\<close>

text \<open>
  The outcome of processing depends on the text received, not on the segments in which the
  container holds it: two adapters with the same text left (\<open>same\<close>) are taken through the same
  states (\<open>alike\<close>). The bounds of the accumulators, of the headers and of the status code
  (\<open>slicer_ok\<close>) are an invariant on the way.
\<close>

subsection \<open>Bounds\<close>

text \<open>
  \<open>awaited\<close> is the header whose key has been counted and which is not yet in the list. Of the
  parts of a slicer, only the ones that its processor can still reach are bounded by its checks.
\<close>

definition awaited :: "'z slicer \<Rightarrow> nat" where
  "awaited sl =
     (if sl_processor sl \<in> {HeaderPreValue, HeaderValue, HeaderLF} \<and> hd_kind (sl_headers sl) = Regular then 1 else 0)"

definition headers_ok :: "headers_state \<Rightarrow> bool" where
  "headers_ok h \<longleftrightarrow> length (hd_key h) \<le> 64 \<and> length (hd_value h) \<le> 8192 \<and> hd_totalHeadersCount h \<le> 256 \<and>
     hd_totalValueSize h < 32768 \<and> (\<forall>kv \<in> set (hd_tail h). length (snd kv) \<le> 8192)"

definition lines_ok :: "request_line \<Rightarrow> status_line \<Rightarrow> bool" where
  "lines_ok rl rs \<longleftrightarrow>
     length (rl_method rl) \<le> 32 \<and> length (rl_uri rl) \<le> 8192 \<and> length (rl_version rl) \<le> 16 \<and>
     length (rs_version rs) \<le> 16 \<and> length (rs_text rs) \<le> 64 \<and>
     rs_codeChars rs \<le> 4 \<and> unat (rs_code rs) < 10 ^ min 3 (rs_codeChars rs)"

definition slicer_ok :: "'z slicer \<Rightarrow> bool" where
  "slicer_ok sl \<longleftrightarrow> lines_ok (sl_request sl) (sl_response sl) \<and> headers_ok (sl_headers sl) \<and>
     length (hd_tail (sl_headers sl)) + awaited sl \<le> hd_totalHeadersCount (sl_headers sl) \<and>
     (sl_processor sl = HeaderKey \<longrightarrow> hd_totalHeadersCount (sl_headers sl) < 256 \<and> hd_kind (sl_headers sl) = Regular)"

subsection \<open>Adapters with the same text\<close>

definition same :: "source \<Rightarrow> source \<Rightarrow> bool" where
  "same sa sb \<longleftrightarrow> source_ok sa \<and> source_ok sb \<and> flat sa = flat sb"

definition alike :: "'z sliced \<Rightarrow> 'z sliced \<Rightarrow> bool" where
  "alike x y \<longleftrightarrow>
     (case (x, y) of ((r, sl, sa), (r', sl', sb)) \<Rightarrow>
        r = r' \<and> sl_events sl = sl_events sl' \<and> (r = NeedMore \<or> r = Done \<longrightarrow> sl = sl' \<and> same sa sb))"

lemma alikeI: "same sa sb \<Longrightarrow> alike (r, sl, sa) (r, sl, sb)"
  by (simp add: alike_def)

lemma same_hdr:
  assumes "same sa sb"
  shows "same (forHdr sa) (forHdr sb)" "same (forBody sa) (forBody sb)"
    "hdr_empty sa = hdr_empty sb" "sa_empty sa = sa_empty sb" "\<not> hdr_empty sa \<Longrightarrow> hdr_front sa = hdr_front sb"
    "\<not> hdr_empty sa \<Longrightarrow> same (dropFront 1 sa) (dropFront 1 sb)"
proof -
  show "same (forHdr sa) (forHdr sb)" "same (forBody sa) (forBody sb)"
    using assms forHdr_ok forBody_ok by (auto simp: same_def)
  show "hdr_empty sa = hdr_empty sb" "sa_empty sa = sa_empty sb"
    using assms by (auto simp: same_def hdr_empty_flat sa_empty_flat)
  show "hdr_front sa = hdr_front sb" if "\<not> hdr_empty sa"
    using assms that hdr_front_flat [of sa] hdr_front_flat [of sb] by (auto simp: same_def hdr_empty_flat)
  show "same (dropFront 1 sa) (dropFront 1 sb)" if "\<not> hdr_empty sa"
  proof -
    from that assms obtain c cs where "flat sa = c # cs" "flat sb = c # cs"
      by (cases "flat sa") (auto simp: same_def hdr_empty_flat)
    then show ?thesis
      using assms dropFront_one(1,2) [of sa c cs] dropFront_one(1,2) [of sb c cs] by (simp add: same_def)
  qed
qed

lemma same_detach:
  assumes "same sa sb" "in_body sa" "in_body sb"
  shows "fst (detach n sa) = fst (detach n sb)" "same (snd (detach n sa)) (snd (detach n sb))"
  using assms detach_ok [of sa n] detach_ok [of sb n] by (auto simp: same_def)

lemma same_accumule:
  assumes "same sa sb" "length acc \<le> limit" "tooBig \<noteq> NeedMore" "tooBig \<noteq> Done"
    "accumuleUntil t tooBig limit acc sa = (r, x, sa')" "accumuleUntil t tooBig limit acc sb = (r', x', sb')"
  shows "r = r'" "r = NeedMore \<or> r = Done \<Longrightarrow> x = x' \<and> same sa' sb'"
proof -
  have ok: "source_ok sa" "source_ok sb" "flat sa = flat sb" using assms(1) by (auto simp: same_def)
  note a = accumuleUntil_flat [OF ok(1) assms(2,5)] and b = accumuleUntil_flat [OF ok(2) assms(2,6)]
  show "r = r'" using a(1) b(1) ok(3) by simp
  assume "r = NeedMore \<or> r = Done"
  then have "length acc + find_end t (flat sa) \<le> limit"
    using a(1) assms(3,4) by (auto simp: accumulated_def split: if_splits)
  then show "x = x' \<and> same sa' sb'" using a(2,5,6) b(2,5,6) ok(3) by (simp add: same_def)
qed

lemma same_skip: "same sa sb \<Longrightarrow> same (skip_spaces sa) (skip_spaces sb)"
proof (induction sa arbitrary: sb rule: skip_spaces.induct)
  case (1 sa)
  note s = same_hdr [OF "1.prems"]
  show ?case
    using "1.IH" [of "dropFront 1 sb"] s "1.prems"
    by (subst (1 2) skip_spaces.simps) auto
qed

lemma alike_status: "same sa sb \<Longrightarrow> alike (status_loop sl sa) (status_loop sl sb)"
proof (induction sl sa arbitrary: sb rule: status_loop.induct)
  case (1 sl sa)
  note s = same_hdr [OF "1.prems"]
  show ?case
    using "1.IH" [OF refl refl, of "dropFront 1 sb"] s "1.prems"
    by (subst (1 2) status_loop.simps) (auto simp: Let_def intro!: alikeI)
qed

subsection \<open>Each processor\<close>

lemma alike_accumule:
  assumes "same sa sb" "length acc \<le> limit" "tooBig \<noteq> NeedMore" "tooBig \<noteq> Done"
    and go: "\<And>r x a b. r = NeedMore \<or> r = Done \<Longrightarrow> same a b \<Longrightarrow> alike (F r x a) (F r x b)"
    and stop: "\<And>x y a b. alike (F tooBig x a) (F tooBig y b)"
  shows "alike (case accumuleUntil t tooBig limit acc sa of (r, x, a) \<Rightarrow> F r x a)
     (case accumuleUntil t tooBig limit acc sb of (r, x, a) \<Rightarrow> F r x a)"
proof -
  obtain r x a where a: "accumuleUntil t tooBig limit acc sa = (r, x, a)" by (metis prod_cases3)
  obtain r' y b where b: "accumuleUntil t tooBig limit acc sb = (r', y, b)" by (metis prod_cases3)
  note s = same_accumule [OF assms(1-4) a b]
  have "source_ok sa" using assms(1) by (simp add: same_def)
  from accumuleUntil_flat(1) [OF this assms(2) a] have "r = NeedMore \<or> r = Done \<or> r = tooBig"
    by (auto simp: accumulated_def)
  then show ?thesis using s go stop by (auto simp: a b)
qed

lemma alike_stop: "r \<noteq> NeedMore \<Longrightarrow> r \<noteq> Done \<Longrightarrow> sl_events sl = sl_events sl' \<Longrightarrow> alike (r, sl, sa) (r, sl', sb)"
  by (simp add: alike_def)

lemmas alike_text = alike_accumule [where tooBig = BadEntity] alike_accumule [where tooBig = TooBigUri]
  alike_accumule [where tooBig = TooBigHeaders]

lemma alike_first_line:
  assumes "same sa sb" "slicer_ok sl"
  shows "alike (requestFirstLineMethod sl sa) (requestFirstLineMethod sl sb)"
    "alike (requestFirstLineUri sl sa) (requestFirstLineUri sl sb)"
    "alike (requestFirstLineVersion sl sa) (requestFirstLineVersion sl sb)"
    "alike (responseFirstLineVersion sl sa) (responseFirstLineVersion sl sb)"
    "alike (responseFirstLineStatusText sl sa) (responseFirstLineStatusText sl sb)"
    "alike (responseFirstLineStatusCode sl sa) (responseFirstLineStatusCode sl sb)"
    "alike (firstLineLF st sl sa) (firstLineLF st sl sb)"
proof -
  note d = requestFirstLineMethod_def requestFirstLineUri_def requestFirstLineVersion_def
    responseFirstLineVersion_def responseFirstLineStatusText_def
  show "alike (requestFirstLineMethod sl sa) (requestFirstLineMethod sl sb)"
    "alike (requestFirstLineUri sl sa) (requestFirstLineUri sl sb)"
    "alike (requestFirstLineVersion sl sa) (requestFirstLineVersion sl sb)"
    "alike (responseFirstLineVersion sl sa) (responseFirstLineVersion sl sb)"
    "alike (responseFirstLineStatusText sl sa) (responseFirstLineStatusText sl sb)"
    unfolding d Let_def by (rule alike_text; use assms in \<open>auto simp: slicer_ok_def lines_ok_def intro: alikeI alike_stop\<close>)+
  show "alike (responseFirstLineStatusCode sl sa) (responseFirstLineStatusCode sl sb)"
    unfolding responseFirstLineStatusCode_def by (rule alike_status [OF same_hdr(1) [OF assms(1)]])
  show "alike (firstLineLF st sl sa) (firstLineLF st sl sb)"
    using same_hdr [OF same_hdr(1) [OF assms(1)]] same_hdr(1) [OF assms(1)]
    by (auto simp: firstLineLF_def Let_def intro!: alikeI split: prod.splits)
qed

lemma alike_headers:
  assumes "same sa sb" "slicer_ok sl"
  shows "alike (headerPreKey sl sa) (headerPreKey sl sb)"
    "alike (headerKey sl sa) (headerKey sl sb)"
    "alike (headerPreValue sl sa) (headerPreValue sl sb)"
    "alike (headerValue sl sa) (headerValue sl sb)"
    "alike (headerLF st sl sa) (headerLF st sl sb)"
proof -
  note h = same_hdr [OF same_hdr(1) [OF assms(1)]] same_hdr(1) [OF assms(1)]
  show "alike (headerPreKey sl sa) (headerPreKey sl sb)"
    using h by (auto simp: headerPreKey_def Let_def intro!: alikeI)
  show "alike (headerPreValue sl sa) (headerPreValue sl sb)"
    using same_skip [OF h(7)] same_hdr(3) by (auto simp: headerPreValue_def Let_def intro!: alikeI)
  have "alike (case accumuleUntil CHR '':'' BadEntity 64 (hd_key (sl_headers sl)) sa of (r, x, a) \<Rightarrow>
        if r \<noteq> Done then (r, set_headers ((sl_headers sl)\<lparr>hd_key := x\<rparr>) sl, a)
        else (NeedMore, (set_headers ((sl_headers sl)\<lparr>hd_key := x,
               hd_totalHeadersCount := hd_totalHeadersCount (sl_headers sl) + 1\<rparr>) sl)\<lparr>sl_processor := HeaderPreValue\<rparr>, a))
      (case accumuleUntil CHR '':'' BadEntity 64 (hd_key (sl_headers sl)) sb of (r, x, a) \<Rightarrow>
        if r \<noteq> Done then (r, set_headers ((sl_headers sl)\<lparr>hd_key := x\<rparr>) sl, a)
        else (NeedMore, (set_headers ((sl_headers sl)\<lparr>hd_key := x,
               hd_totalHeadersCount := hd_totalHeadersCount (sl_headers sl) + 1\<rparr>) sl)\<lparr>sl_processor := HeaderPreValue\<rparr>, a))"
    by (rule alike_text; use assms in \<open>auto simp: slicer_ok_def headers_ok_def set_headers_def intro: alikeI alike_stop\<close>)
  then show "alike (headerKey sl sa) (headerKey sl sb)"
    using same_hdr(4) [OF assms(1)] assms(1) by (auto simp: headerKey_def Let_def intro!: alikeI)
  show "alike (headerValue sl sa) (headerValue sl sb)"
    unfolding headerValue_def Let_def
    by (rule alike_text; use assms in \<open>auto simp: slicer_ok_def headers_ok_def set_headers_def intro: alikeI alike_stop\<close>)
  have e: "hdr_empty (dropFront 1 (forHdr sa)) = hdr_empty (dropFront 1 (forHdr sb))" if "\<not> hdr_empty (forHdr sa)"
    using same_hdr(3) [OF h(6) [OF that]] .
  show "alike (headerLF st sl sa) (headerLF st sl sb)"
  proof (cases "hdr_empty (forHdr sa)")
    case True
    then show ?thesis using h(3,7) by (simp add: headerLF_def alikeI)
  next
    case False
    obtain r sl1 where r: "header_end st (hdr_empty (dropFront 1 (forHdr sa))) sl = (r, sl1)"
      by (cases "header_end st (hdr_empty (dropFront 1 (forHdr sa))) sl")
    have "alike (r, sl1, dropFront 1 (forHdr sa)) (r, sl1, dropFront 1 (forHdr sb))"
      by (rule alikeI [OF h(6) [OF False]])
    then show ?thesis using h(3,7) h(5) [OF False] e [OF False] False r
      by (simp add: headerLF_def Let_def alikeI)
  qed
qed

subsection \<open>The body\<close>

lemma same_taken:
  assumes "same sa sb"
  obtains content sa1 sb1 where "detach n (forBody sa) = (content, sa1)" "detach n (forBody sb) = (content, sb1)" "same sa1 sb1"
proof -
  have "in_body (forBody sa)" "in_body (forBody sb)" using assms forBody_ok(3) by (auto simp: same_def)
  from same_detach [OF same_hdr(2) [OF assms] this, of n] show thesis
    by (intro that [of "fst (detach n (forBody sa))" "snd (detach n (forBody sa))" "snd (detach n (forBody sb))"])
       (simp_all add: prod_eq_iff)
qed

lemma alike_until_close: "same sa sb \<Longrightarrow> alike (bodyUntilClose st sl sa) (bodyUntilClose st sl sb)"
  by (rule same_taken [of sa sb detach_all]) (auto simp: bodyUntilClose_def intro!: alikeI split: prod.splits option.splits)

lemma alike_by_length: "same sa sb \<Longrightarrow> alike (bodyByContentLength st sl sa) (bodyByContentLength st sl sb)"
  by (rule same_taken [of sa sb "unat (ucast (bd_contentLength (sl_body sl)) :: u32)"])
     (auto simp: bodyByContentLength_def Let_def intro!: alikeI split: prod.splits option.splits)

definition alike_turn :: "'z turned \<Rightarrow> 'z turned \<Rightarrow> bool" where
  "alike_turn x y \<longleftrightarrow> fst x = fst y \<and> fst (snd x) = fst (snd y) \<and> same (snd (snd x)) (snd (snd y))"

lemma alike_turnI: "same sa sb \<Longrightarrow> alike_turn (r, sl, sa) (r, sl, sb)"
  by (simp add: alike_turn_def)

lemma alike_stop_flushed: "same sa sb \<Longrightarrow> alike_turn (stop_flushed st r sl sa) (stop_flushed st r sl sb)"
  by (simp add: stop_flushed_def alike_turn_def split: prod.splits)

lemma alike_expect: "same sa sb \<Longrightarrow> alike_turn (expect_char st c b sl sa) (expect_char st c b sl sb)"
  using same_hdr [of sa sb] by (auto simp: expect_char_def intro!: alike_turnI alike_stop_flushed)

lemma alike_content_end: "same sa sb \<Longrightarrow> alike_turn (chunk_content_end st sl sa) (chunk_content_end st sl sb)"
  by (auto simp: chunk_content_end_def intro!: alike_turnI alike_stop_flushed)

lemma alike_content: "same sa sb \<Longrightarrow> alike_turn (chunk_content_turn st sl sa) (chunk_content_turn st sl sb)"
proof -
  assume s: "same sa sb"
  note b = same_hdr(2) [OF s]
  have ib: "in_body (forBody sa)" "in_body (forBody sb)" using s forBody_ok(3) by (auto simp: same_def)
  have e: "sa_data (forBody sa) = [] \<longleftrightarrow> sa_data (forBody sb) = []"
    using same_hdr(4) [OF b] ib by (auto simp: sa_empty_def in_body_def)
  obtain content sa1 sb1 where d: "detach (unat (bd_length2Eat (sl_body sl))) (forBody sa) = (content, sa1)"
    "detach (unat (bd_length2Eat (sl_body sl))) (forBody sb) = (content, sb1)" "same sa1 sb1"
    by (rule same_taken [OF s])
  show ?thesis
    using s b e d by (auto simp: chunk_content_turn_def Let_def intro!: alike_turnI alike_content_end split: option.splits)
qed

lemma alike_chunk_turn: "same sa sb \<Longrightarrow> alike_turn (chunk_turn st sl sa) (chunk_turn st sl sb)"
proof -
  assume s: "same sa sb"
  note h = same_hdr [OF same_hdr(1) [OF s]] same_hdr(1) [OF s]
  have "alike_turn (chunk_length_turn st sl (forHdr sa)) (chunk_length_turn st sl (forHdr sb))"
    using h by (auto simp: chunk_length_turn_def Let_def intro!: alike_turnI alike_stop_flushed split: option.splits)
  then show ?thesis
    using s h(7) by (auto simp: chunk_turn_def Let_def intro!: alike_turnI alike_expect alike_content alike_stop_flushed
        split: chunk_state.splits)
qed

lemma alike_chunked: "same sa sb \<Longrightarrow> alike (bodyChunked st sl sa) (bodyChunked st sl sb)"
proof (induction st sl sa arbitrary: sb rule: bodyChunked.induct)
  case (1 st sl sa)
  obtain r sl1 sa1 where a: "chunk_turn st sl sa = (r, sl1, sa1)" by (metis prod_cases3)
  then obtain sb1 where b: "chunk_turn st sl sb = (r, sl1, sb1)" and s: "same sa1 sb1"
    using alike_chunk_turn [OF "1.prems", of st sl] by (cases "chunk_turn st sl sb") (auto simp: alike_turn_def)
  show ?case
    using "1.IH" [OF a [symmetric] _ refl, of sb1] s
    by (subst (1 2) bodyChunked.simps) (auto simp: a b intro!: alikeI split: option.splits)
qed

lemma alike_run:
  assumes "same sa sb" "slicer_ok sl"
  shows "alike (run_processor st sl sa) (run_processor st sl sb)"
  using alike_first_line [OF assms] alike_headers [OF assms] alike_until_close [OF assms(1)] alike_by_length [OF assms(1)]
    alike_chunked [OF assms(1)] assms(1)
  by (auto simp: run_processor_def requestNull_def responseNull_def intro: alikeI split: processor.splits)

subsection \<open>The bounds are kept\<close>

definition kept :: "'z sliced \<Rightarrow> bool" where
  "kept x \<longleftrightarrow> (case x of (r, sl, sa) \<Rightarrow> r = NeedMore \<or> r = Done \<longrightarrow> slicer_ok sl \<and> source_ok sa)"

lemma drop_one_ok: "source_ok sa \<Longrightarrow> \<not> hdr_empty sa \<Longrightarrow> source_ok (dropFront 1 sa)"
  by (rule dropFront_ok) (auto simp: hdr_empty_def Suc_le_eq)

lemma kept_accumule:
  assumes "source_ok sa" "length acc \<le> limit"
    "\<And>r x a. r \<in> {NeedMore, Done, tooBig} \<Longrightarrow> length x \<le> limit \<Longrightarrow> source_ok a \<Longrightarrow> kept (F r x a)"
  shows "kept (case accumuleUntil t tooBig limit acc sa of (r, x, a) \<Rightarrow> F r x a)"
proof -
  obtain r x a where a: "accumuleUntil t tooBig limit acc sa = (r, x, a)" by (metis prod_cases3)
  note f = accumuleUntil_flat [OF assms(1,2) a]
  have "r \<in> {NeedMore, Done, tooBig}" using f(1) by (auto simp: accumulated_def)
  then show ?thesis using assms(3) f(2,4) by (simp add: a)
qed

lemma digit_bound: "is_digit c \<Longrightarrow> digit_value c \<le> 9"
  by (auto simp: is_digit_def digit_value_def)

lemma status_digit:
  assumes "lines_ok rl rs" "rs_codeChars rs < 3" "is_digit c"
  shows "lines_ok rl (rs\<lparr>rs_code := rs_code rs * 10 + of_nat (digit_value c), rs_codeChars := rs_codeChars rs + 1\<rparr>)"
proof -
  have d: "digit_value c \<le> 9" by (rule digit_bound [OF assms(3)])
  have c: "unat (rs_code rs) < 10 ^ rs_codeChars rs" using assms(1,2) by (simp add: lines_ok_def min_def)
  have "(10 :: nat) ^ rs_codeChars rs \<le> 10 ^ 2" using assms(2) by (intro power_increasing) auto
  then have b: "unat (rs_code rs) * 10 + digit_value c < 1000" using c d by simp
  have "unat (rs_code rs * 10 + of_nat (digit_value c)) = unat (rs_code rs) * 10 + digit_value c"
    using b d by (simp add: unat_word_ariths unat_of_nat)
  moreover have "unat (rs_code rs) * 10 + digit_value c < 10 ^ Suc (rs_codeChars rs)" using c d by simp
  ultimately show ?thesis using assms b by (simp add: lines_ok_def min_def)
qed

lemma kept_status:
  "slicer_ok sl \<Longrightarrow> source_ok sa \<Longrightarrow> kept (status_loop sl sa)"
proof (induction sl sa rule: status_loop.induct)
  case (1 sl sa)
  let ?rs = "sl_response sl"
  show ?case
  proof (cases "rs_codeChars ?rs < 3 \<and> \<not> hdr_empty sa \<and> is_digit (hdr_front sa)")
    case True
    then have "slicer_ok (sl\<lparr>sl_response := ?rs\<lparr>rs_code := rs_code ?rs * 10 + of_nat (digit_value (hdr_front sa)),
        rs_codeChars := rs_codeChars ?rs + 1\<rparr>\<rparr>)"
      using "1.prems"(1) status_digit [of "sl_request sl" ?rs "hdr_front sa"] by (simp add: slicer_ok_def awaited_def)
    then show ?thesis
      using "1.IH" [OF refl refl] True drop_one_ok [OF "1.prems"(2)] by (subst status_loop.simps) (simp add: Let_def)
  next
    case False
    have "slicer_ok (sl\<lparr>sl_processor := StatusText\<rparr>)"
      "\<not> rs_codeChars ?rs < 3 \<Longrightarrow> \<not> 4 \<le> rs_codeChars ?rs \<Longrightarrow> slicer_ok (sl\<lparr>sl_response := ?rs\<lparr>rs_codeChars := rs_codeChars ?rs + 1\<rparr>, sl_processor := StatusText\<rparr>)"
      using "1.prems"(1) by (auto simp: slicer_ok_def awaited_def lines_ok_def min_def)
    then show ?thesis using False "1.prems" drop_one_ok [OF "1.prems"(2)]
      by (subst status_loop.simps) (auto simp: Let_def kept_def)
  qed
qed

lemma kept_first_line:
  assumes "source_ok sa" "slicer_ok sl"
  shows "kept (requestFirstLineMethod sl sa)" "kept (requestFirstLineUri sl sa)" "kept (requestFirstLineVersion sl sa)"
    "kept (responseFirstLineVersion sl sa)" "kept (responseFirstLineStatusText sl sa)"
    "kept (responseFirstLineStatusCode sl sa)"
proof -
  note d = requestFirstLineMethod_def requestFirstLineUri_def requestFirstLineVersion_def
    responseFirstLineVersion_def responseFirstLineStatusText_def
  show "kept (requestFirstLineMethod sl sa)" "kept (requestFirstLineUri sl sa)" "kept (requestFirstLineVersion sl sa)"
    "kept (responseFirstLineVersion sl sa)" "kept (responseFirstLineStatusText sl sa)"
    unfolding d Let_def
    by (rule kept_accumule; use assms in \<open>auto simp: slicer_ok_def lines_ok_def awaited_def kept_def\<close>)+
  show "kept (responseFirstLineStatusCode sl sa)"
    unfolding responseFirstLineStatusCode_def by (rule kept_status [OF assms(2) forHdr_ok(1) [OF assms(1)]])
qed

text \<open>What a recognized header cannot change.\<close>

definition core :: "headers_state \<Rightarrow> string \<times> string \<times> header_kind \<times> nat \<times> nat \<times> header list" where
  "core h = (hd_key h, hd_value h, hd_kind h, hd_totalHeadersCount h, hd_totalValueSize h, hd_tail h)"

lemma setCompression_core: "core (snd (setCompression p h)) = core h"
  by (simp add: setCompression_def core_def split: option.splits)

lemma content_parts_core: "core (snd (content_parts ps h)) = core h"
  by (induction ps h rule: content_parts.induct) (auto simp: setCompression_core [unfolded prod.case_eq_if] split: prod.splits, metis setCompression_core snd_conv)

lemma transfer_part_core: "core (snd (transfer_part st p h)) = core h"
  by (simp add: transfer_part_def setCompression_core) (simp add: core_def)

lemma transfer_parts_core: "core (snd (transfer_parts st ps h)) = core h"
  by (induction st ps h rule: transfer_parts.induct) (auto split: prod.splits, metis transfer_part_core snd_conv)

lemma recognized_core: "core (snd (recognized_header st k h)) = core h"
proof -
  have c: "core (h\<lparr>hd_allowLastValueContinue := b\<rparr>) = core h" for b by (simp add: core_def)
  show ?thesis
  proof (cases k)
    case Content_Encoding
    then show ?thesis
      using content_parts_core [of "list_parts (hd_value h)" "h\<lparr>hd_allowLastValueContinue := False\<rparr>"] c
      by (auto simp: recognized_header_def Let_def split: prod.splits)
  next
    case Transfer_Encoding
    then show ?thesis
      using transfer_parts_core [of st "list_parts (hd_value h)" "h\<lparr>hd_allowLastValueContinue := False\<rparr>"] c
      by (auto simp: recognized_header_def Let_def split: prod.splits)
  qed (auto simp: recognized_header_def Let_def core_def split: option.splits)
qed

lemma rtrim_length: "length (rtrim s) \<le> length s"
  using length_dropWhile_le [of isspace "rev s"] by (simp add: rtrim_def)

lemma regular_bounds:
  assumes "headers_ok h" "regular_header st h = (NeedMore, h')"
  shows "headers_ok h' \<and> length (hd_tail h') = length (hd_tail h) + 1 \<and> hd_totalHeadersCount h' = hd_totalHeadersCount h"
proof -
  let ?h1 = "h\<lparr>hd_value := rtrim (hd_value h), hd_totalValueSize := hd_totalValueSize h + length (rtrim (hd_value h))\<rparr>"
  have v: "length (rtrim (hd_value h)) \<le> 8192"
    using assms(1) rtrim_length [of "hd_value h"] by (simp add: headers_ok_def)
  have lt: "hd_totalValueSize ?h1 < 32768" "\<not> (hd_key h = [] \<or> list_ex bad_key_char (hd_key h))"
    using assms(2) by (auto simp: regular_header_def Let_def split: if_splits)
  have n: "regular_header st h = (NeedMore, h') \<longleftrightarrow>
    (case to_key (hd_key h) of
       Some k \<Rightarrow> (\<exists>h2. recognized_header st k ?h1 = (NeedMore, h2) \<and>
          h' = h2\<lparr>hd_tail := hd_tail h2 @ [(KeyRecognized k, rtrim (hd_value h))]\<rparr>)
     | None \<Rightarrow> h' = ?h1\<lparr>hd_allowLastValueContinue := True, hd_tail := hd_tail ?h1 @ [(KeyAny (hd_key h), rtrim (hd_value h))]\<rparr>)"
    using lt by (auto simp: regular_header_def Let_def split: option.splits prod.splits)
  show ?thesis
  proof (cases "to_key (hd_key h)")
    case None
    then show ?thesis using assms n lt v by (auto simp: headers_ok_def)
  next
    case (Some k)
    then obtain h2 where h2: "recognized_header st k ?h1 = (NeedMore, h2)"
      "h' = h2\<lparr>hd_tail := hd_tail h2 @ [(KeyRecognized k, rtrim (hd_value h))]\<rparr>"
      using assms(2) n by auto
    have "core h2 = core ?h1" using recognized_core [of st k ?h1] h2(1) by simp
    then show ?thesis using assms(1) lt v h2(2) by (auto simp: headers_ok_def core_def)
  qed
qed

lemma continue_bounds:
  assumes "headers_ok h" "continue_value h = (NeedMore, h')"
  shows "headers_ok h' \<and> length (hd_tail h') = length (hd_tail h) \<and> hd_totalHeadersCount h' = hd_totalHeadersCount h"
proof -
  obtain k v where l: "last (hd_tail h) = (k, v)" by (cases "last (hd_tail h)")
  have "h' = h\<lparr>hd_tail := butlast (hd_tail h) @ [(k, v @ '' '' @ trim (hd_value h))]\<rparr>" "hd_tail h \<noteq> []"
    "length (v @ '' '' @ trim (hd_value h)) \<le> 8192"
    using assms(2) by (auto simp: continue_value_def l Let_def split: if_splits)
  then show ?thesis using assms(1) by (auto simp: headers_ok_def dest: in_set_butlastD)
qed

lemma header_line_done:
  assumes "header_line st h = (Done, h')"
  shows "hd_kind h = EmptyKind" "h' = h"
proof -
  have "fst (recognized_header st k g) \<noteq> Done" for k g
    by (cases k) (auto simp: recognized_header_def Let_def split: option.splits prod.splits)
  then have "regular_header st h \<noteq> (Done, h')" "continue_value h \<noteq> (Done, h')"
    by (auto simp: regular_header_def continue_value_def Let_def split: option.splits prod.splits) (metis fst_conv)+
  then show "hd_kind h = EmptyKind" "h' = h" using assms by (auto simp: header_line_def split: header_kind.splits)
qed

lemma header_line_bounds:
  assumes "headers_ok h" "header_line st h = (r, h')" "r = NeedMore \<or> r = Done"
  shows "headers_ok h'" "length (hd_tail h') \<le> length (hd_tail h) + (if hd_kind h = Regular then 1 else 0)"
    "hd_totalHeadersCount h' = hd_totalHeadersCount h"
proof -
  consider (reg) "hd_kind h = Regular" "regular_header st h = (NeedMore, h')"
    | (cont) "hd_kind h = ValueContinue" "continue_value h = (NeedMore, h')" | (fin) "h' = h"
    using assms(2,3) header_line_done(2) [of st h h'] by (cases "hd_kind h") (auto simp: header_line_def)
  then have "headers_ok h' \<and> length (hd_tail h') \<le> length (hd_tail h) + (if hd_kind h = Regular then 1 else 0) \<and>
      hd_totalHeadersCount h' = hd_totalHeadersCount h"
  proof cases
    case reg
    then show ?thesis using regular_bounds [OF assms(1) reg(2)] by simp
  next
    case cont
    then show ?thesis using continue_bounds [OF assms(1) cont(2)] by simp
  next
    case fin
    then show ?thesis using assms(1) by simp
  qed
  then show "headers_ok h'" "length (hd_tail h') \<le> length (hd_tail h) + (if hd_kind h = Regular then 1 else 0)"
    "hd_totalHeadersCount h' = hd_totalHeadersCount h" by simp_all
qed

lemma detach_bounds:
  assumes "headers_ok h"
  shows "headers_ok (snd (detachSome h))" "length (hd_tail (snd (detachSome h))) \<le> length (hd_tail h)"
    "hd_totalHeadersCount (snd (detachSome h)) = hd_totalHeadersCount h" "hd_kind (snd (detachSome h)) = hd_kind h"
  using assms by (cases "hd_tail h"; auto simp: detachSome_def headers_ok_def)+

lemma flush_bounds:
  assumes "headers_ok (sl_headers sl)"
  shows "headers_ok (sl_headers (snd (flushHeaders b sl)))"
    "length (hd_tail (sl_headers (snd (flushHeaders b sl)))) \<le> length (hd_tail (sl_headers sl))"
    "hd_totalHeadersCount (sl_headers (snd (flushHeaders b sl))) = hd_totalHeadersCount (sl_headers sl)"
    "hd_kind (sl_headers (snd (flushHeaders b sl))) = hd_kind (sl_headers sl)"
    "sl_request (snd (flushHeaders b sl)) = sl_request sl" "sl_response (snd (flushHeaders b sl)) = sl_response sl"
    "sl_processor (snd (flushHeaders b sl)) = sl_processor sl"
  using detach_bounds [OF assms]
  by (cases "detachSome (sl_headers sl)"; simp add: flushHeaders_def log_event_def)+

text \<open>A step that leaves the lines and the headers alone keeps the bounds when it waits for no header.\<close>

definition untouched :: "'z slicer \<Rightarrow> 'z slicer \<Rightarrow> bool" where
  "untouched sl sl' \<longleftrightarrow> sl_request sl' = sl_request sl \<and> sl_response sl' = sl_response sl \<and> sl_headers sl' = sl_headers sl \<and>
     (sl_processor sl' = sl_processor sl \<or> sl_processor sl' \<in> {BodyUntilClose, BodyByContentLength, BodyChunked})"

lemma untouched_ok: "slicer_ok sl \<Longrightarrow> untouched sl sl' \<Longrightarrow> slicer_ok sl'"
  by (auto simp: slicer_ok_def untouched_def awaited_def)

lemma untouched_flushBody: "untouched sl (snd (flushBody b (set_body c sl)))" "untouched sl (set_body c sl)"
  by (simp_all add: flushBody_def untouched_def log_event_def set_body_def)

lemma untouched_trans: "untouched a b \<Longrightarrow> untouched b c \<Longrightarrow> untouched a c"
  by (auto simp: untouched_def)

lemma untouched_body_start: "untouched sl (snd (body_start st sl))"
  by (auto simp: body_start_def untouched_def flushBody_def log_event_def Let_def split: option.splits portionality.splits)

lemma header_end_ok:
  assumes "slicer_ok sl" "sl_processor sl = HeaderLF" "header_end st b sl = (r, sl')" "r = NeedMore \<or> r = Done"
  shows "slicer_ok sl'"
proof -
  have h: "headers_ok (sl_headers sl)" using assms(1) by (simp add: slicer_ok_def)
  obtain r1 hd where l: "header_line st (sl_headers sl) = (r1, hd)" by (cases "header_line st (sl_headers sl)")
  have r1: "r1 = NeedMore \<or> r1 = Done" using assms(3,4) by (auto simp: header_end_def l Let_def split: if_splits)
  note b = header_line_bounds [OF h l r1]
  have t: "length (hd_tail hd) \<le> hd_totalHeadersCount hd" "hd_totalHeadersCount hd \<le> 256"
    using b assms(1,2) by (auto simp: slicer_ok_def awaited_def headers_ok_def)
  note f = flush_bounds [of "set_headers hd sl"]
  have s: "sl_headers (set_headers hd sl) = hd" "sl_request (set_headers hd sl) = sl_request sl"
    "sl_response (set_headers hd sl) = sl_response sl" "sl_processor (set_headers hd sl) = HeaderLF"
    using assms(2) by (simp_all add: set_headers_def)
  show ?thesis
  proof (cases "r1 = NeedMore")
    case True
    have *: "headers_ok (reset_current g)" if "headers_ok g" for g using that by (simp add: headers_ok_def reset_current_def)
    have "length (hd_tail (sl_headers (snd (flushHeaders False (set_headers hd sl))))) \<le> hd_totalHeadersCount hd"
      using f(2) [of False] b(1) s(1) t(1) by simp
    with * show ?thesis
      using assms(1,3) f b(1) t s True
      by (auto simp: header_end_def l Let_def slicer_ok_def awaited_def set_headers_def reset_current_def)
  next
    case False
    then have k: "r1 = Done" "hd_kind (sl_headers sl) = EmptyKind" "hd = sl_headers sl"
      using l r1 header_line_done by auto
    have "slicer_ok (snd (flushHeaders True (set_headers hd sl)))"
      using assms(1,2) f [of True] b(1) t k(2,3) s by (simp add: slicer_ok_def awaited_def)
    moreover have "sl' = snd (body_start st (snd (flushHeaders True (set_headers hd sl))))"
      using assms(3) k(1) by (simp add: header_end_def l Let_def)
    ultimately show ?thesis using untouched_ok untouched_body_start by blast
  qed
qed

lemma kept_headers:
  assumes "source_ok sa" "slicer_ok sl"
  shows "sl_processor sl = HeaderPreKey \<Longrightarrow> kept (headerPreKey sl sa)"
    "sl_processor sl = HeaderKey \<Longrightarrow> kept (headerKey sl sa)"
    "sl_processor sl = HeaderPreValue \<Longrightarrow> kept (headerPreValue sl sa)"
    "sl_processor sl = HeaderValue \<Longrightarrow> kept (headerValue sl sa)"
    "sl_processor sl = HeaderLF \<Longrightarrow> kept (headerLF st sl sa)"
    "kept (firstLineLF st sl sa)"
proof -
  note h = forHdr_ok(1) [OF assms(1)] and d = drop_one_ok [OF forHdr_ok(1) [OF assms(1)]]
  note o = assms(2) [unfolded slicer_ok_def headers_ok_def awaited_def]
  show "kept (headerPreKey sl sa)" if "sl_processor sl = HeaderPreKey"
    using h d o that by (auto simp: headerPreKey_def Let_def kept_def slicer_ok_def headers_ok_def awaited_def)
  have "kept (case accumuleUntil CHR '':'' BadEntity 64 (hd_key (sl_headers sl)) sa of (r, x, a) \<Rightarrow>
        if r \<noteq> Done then (r, set_headers ((sl_headers sl)\<lparr>hd_key := x\<rparr>) sl, a)
        else (NeedMore, (set_headers ((sl_headers sl)\<lparr>hd_key := x,
               hd_totalHeadersCount := hd_totalHeadersCount (sl_headers sl) + 1\<rparr>) sl)\<lparr>sl_processor := HeaderPreValue\<rparr>, a))"
    if "sl_processor sl = HeaderKey"
    by (rule kept_accumule)
       (use assms that in \<open>auto simp: slicer_ok_def headers_ok_def set_headers_def awaited_def kept_def\<close>)
  then show "kept (headerKey sl sa)" if "sl_processor sl = HeaderKey"
    using assms that by (auto simp: headerKey_def Let_def kept_def)
  have "source_ok (skip_spaces a)" if "source_ok a" for a
    using that
  proof (induction a rule: skip_spaces.induct)
    case (1 a)
    then show ?case using drop_one_ok [of a] by (subst skip_spaces.simps) auto
  qed
  then show "kept (headerPreValue sl sa)" if "sl_processor sl = HeaderPreValue"
    using h o that by (auto simp: headerPreValue_def Let_def kept_def slicer_ok_def headers_ok_def awaited_def)
  show "kept (headerValue sl sa)" if "sl_processor sl = HeaderValue"
    unfolding headerValue_def Let_def
    by (rule kept_accumule)
       (use assms that in \<open>auto simp: slicer_ok_def headers_ok_def set_headers_def awaited_def kept_def\<close>)
  show "kept (headerLF st sl sa)" if "sl_processor sl = HeaderLF"
    using h d assms(2) header_end_ok [OF assms(2) that]
    by (auto simp: headerLF_def Let_def kept_def split: prod.splits if_splits)
  have "slicer_ok (sl'\<lparr>sl_headers := fresh_headers, sl_processor := HeaderPreKey\<rparr>)" if "firstLineEnd st sl = (Done, sl')" for sl'
    using that o by (auto simp: firstLineEnd_def Let_def log_event_def slicer_ok_def awaited_def headers_ok_def fresh_headers_def
        lines_ok_def split: slice_mode.splits option.splits if_splits)
  moreover have "fst (firstLineEnd st sl) \<noteq> NeedMore"
    by (auto simp: firstLineEnd_def Let_def split: slice_mode.splits option.splits)
  ultimately show "kept (firstLineLF st sl sa)"
    using h d assms(2) by (auto simp: firstLineLF_def Let_def kept_def split: prod.splits)
qed

lemma stop_flushed_untouched:
  "stop_flushed st r sl sa = (ro, sl', sa') \<Longrightarrow> untouched sl sl' \<and> sa' = sa"
  by (auto simp: stop_flushed_def chunked_flush_def Let_def untouched_def flushBody_def set_body_def log_event_def
      split: prod.splits option.splits if_splits)

lemma source_ok_body: "source_ok sa \<Longrightarrow> source_ok (snd (detach n (forBody sa)))"
  using detach_ok(2) forBody_ok by blast

lemma chunk_turn_kept:
  assumes "chunk_turn st sl sa = (ro, sl', sa')" "source_ok sa"
  shows "untouched sl sl'" "source_ok sa'"
proof -
  have u: "untouched sl (set_body b sl)" for b by (simp add: untouched_def set_body_def)
  note h = forHdr_ok(1) [OF assms(2)] and d = drop_one_ok [OF forHdr_ok(1) [OF assms(2)]]
  have e: "untouched sl sl' \<and> source_ok sa'" if "expect_char st c b sl (forHdr sa) = (ro, sl', sa')" for c b
    using that h d u stop_flushed_untouched by (fastforce simp: expect_char_def untouched_def split: if_splits)
  have l: "untouched sl sl' \<and> source_ok sa'" if "chunk_length_turn st sl (forHdr sa) = (ro, sl', sa')"
    using that h d u stop_flushed_untouched
    by (fastforce simp: chunk_length_turn_def Let_def untouched_def split: if_splits option.splits)
  have ce: "untouched s sl' \<and> source_ok sa'" if "chunk_content_end st s a = (ro, sl', sa')" "source_ok a" for s a
    using that stop_flushed_untouched by (fastforce simp: chunk_content_end_def untouched_def set_body_def split: if_splits)
  have c: "untouched sl sl' \<and> source_ok sa'" if "chunk_content_turn st sl sa = (ro, sl', sa')"
  proof -
    obtain content sa1 where t: "detach (unat (bd_length2Eat (sl_body sl))) (forBody sa) = (content, sa1)"
      by (cases "detach (unat (bd_length2Eat (sl_body sl))) (forBody sa)")
    have "source_ok sa1" using source_ok_body [OF assms(2)] t by (metis snd_conv)
    have cu: "untouched sl sl' \<and> source_ok sa'" if "chunk_content_end st (set_body b sl) a = (ro, sl', sa')" "source_ok a" for b a
      using ce [OF that] untouched_trans [OF u] by blast
    show ?thesis
      using that t u forBody_ok(1) [OF assms(2)] assms(2) ce cu \<open>source_ok sa1\<close>
      by (auto simp: chunk_content_turn_def Let_def split: if_splits option.splits)
  qed
  have "untouched sl sl' \<and> source_ok sa'"
  proof (cases "bd_state (sl_body sl)")
    case ChNull
    then show ?thesis using assms u by (auto simp: chunk_turn_def Let_def)
  next
    case ChDone
    then show ?thesis using assms stop_flushed_untouched by (fastforce simp: chunk_turn_def)
  qed (use assms e l c in \<open>auto simp: chunk_turn_def Let_def\<close>)
  then show "untouched sl sl'" "source_ok sa'" by simp_all
qed

lemma bodyChunked_kept:
  assumes "bodyChunked st sl sa = (r, sl', sa')" "source_ok sa"
  shows "untouched sl sl' \<and> source_ok sa'"
  using assms
proof (induction st sl sa rule: bodyChunked.induct)
  case (1 st sl sa)
  obtain ro sl1 sa1 where t: "chunk_turn st sl sa = (ro, sl1, sa1)" by (metis prod_cases3)
  note k = chunk_turn_kept [OF t "1.prems"(2)]
  show ?case
    using "1.IH" [OF t [symmetric] _ refl] "1.prems"(1) k untouched_trans
    by (subst (asm) (2) bodyChunked.simps) (auto simp: t split: option.splits)
qed

lemma kept_bodies:
  assumes "source_ok sa" "slicer_ok sl"
  shows "kept (bodyUntilClose st sl sa)" "kept (bodyByContentLength st sl sa)" "kept (bodyChunked st sl sa)"
proof -
  have ok: "slicer_ok (snd (flushBody b (set_body c sl)))" "slicer_ok (set_body c sl)" for b c
    using untouched_ok [OF assms(2)] untouched_flushBody by blast+
  have k: "kept (r, snd (flushBody b (set_body c sl)), a)" "kept (r, set_body c sl, a)" if "source_ok a" for r a b c
    using that ok by (simp_all add: kept_def)
  show "kept (bodyUntilClose st sl sa)"
    using k source_ok_body [OF assms(1), of detach_all] assms(2)
    by (cases "detach detach_all (forBody sa)")
       (auto simp: bodyUntilClose_def kept_def flushBody_def split: option.splits)
  show "kept (bodyByContentLength st sl sa)"
    using k source_ok_body [OF assms(1), of "unat (ucast (bd_contentLength (sl_body sl)) :: u32)"] assms(2)
    by (cases "detach (unat (ucast (bd_contentLength (sl_body sl)) :: u32)) (forBody sa)")
       (auto simp: bodyByContentLength_def Let_def kept_def flushBody_def split: option.splits)
  show "kept (bodyChunked st sl sa)"
    using bodyChunked_kept [OF _ assms(1), of st sl] untouched_ok [OF assms(2)]
    by (cases "bodyChunked st sl sa") (auto simp: kept_def)
qed

lemma kept_run:
  assumes "source_ok sa" "slicer_ok sl"
  shows "kept (run_processor st sl sa)"
proof -
  have e: "slicer_ok (log_event e sl)" for e using assms(2) by (simp add: slicer_ok_def awaited_def log_event_def)
  have "kept (requestNull st sl sa)" "kept (responseNull st sl sa)"
    using assms e [of Started]
    by (auto simp: requestNull_def responseNull_def sliceStart_def kept_def slicer_ok_def awaited_def lines_ok_def
        fresh_request_def fresh_response_def log_event_def)
  then show ?thesis
    using kept_first_line [OF assms] kept_headers [OF assms] kept_bodies [OF assms]
    by (cases "sl_processor sl") (simp_all add: run_processor_def)
qed

subsection \<open>Processing\<close>

lemma process_end: "sa_empty sa \<Longrightarrow> process st sl sa = Some (NeedMore, sl, sa)"
  by (simp add: process.simps)

lemma process_next:
  "\<not> sa_empty sa \<Longrightarrow> run_processor st sl sa = (NeedMore, sl1, sa1) \<Longrightarrow> process st sl sa = process st sl1 sa1"
  by (subst process.simps) simp

lemma process_stop:
  "\<not> sa_empty sa \<Longrightarrow> run_processor st sl sa = (r, sl1, sa1) \<Longrightarrow> r \<noteq> NeedMore \<Longrightarrow> process st sl sa = Some (r, sl1, sa1)"
  by (subst process.simps) simp

text \<open>Every returned result comes from a last processor or the end of the input.\<close>

lemma process_rule:
  assumes ret: "process st sl sa = Some (r, sl', sa')"
    and fin: "\<And>sl sa. sa_empty sa \<Longrightarrow> P sl sa (NeedMore, sl, sa)"
    and stop: "\<And>sl sa r sl1 sa1. \<not> sa_empty sa \<Longrightarrow> run_processor st sl sa = (r, sl1, sa1) \<Longrightarrow> r \<noteq> NeedMore \<Longrightarrow> P sl sa (r, sl1, sa1)"
    and more: "\<And>sl sa sl1 sa1 y. \<not> sa_empty sa \<Longrightarrow> run_processor st sl sa = (NeedMore, sl1, sa1) \<Longrightarrow>
        process st sl1 sa1 = Some y \<Longrightarrow> P sl1 sa1 y \<Longrightarrow> P sl sa y"
  shows "P sl sa (r, sl', sa')"
proof -
  have "st = st \<longrightarrow> process st sl sa = Some (r, sl', sa') \<and> P sl sa (r, sl', sa')"
  proof (rule process.raw_induct [where P = "\<lambda>s sl sa y. s = st \<longrightarrow> process st sl sa = Some y \<and> P sl sa y", OF _ ret])
    fix f s sl sa y
    assume IH: "\<And>s sl sa y. f s sl sa = Some y \<Longrightarrow> s = st \<longrightarrow> process st sl sa = Some y \<and> P sl sa y"
      and eq: "(if sa_empty sa then Some (NeedMore, sl, sa)
        else case run_processor s sl sa of (r, sl1, sa1) \<Rightarrow> if r = NeedMore then f s sl1 sa1 else Some (r, sl1, sa1)) = Some y"
    show "s = st \<longrightarrow> process st sl sa = Some y \<and> P sl sa y"
    proof
      assume s: "s = st"
      obtain r1 sl1 sa1 where run: "run_processor st sl sa = (r1, sl1, sa1)" by (metis prod_cases3)
      consider (fin) "sa_empty sa" | (stop) "\<not> sa_empty sa" "r1 \<noteq> NeedMore" | (more) "\<not> sa_empty sa" "r1 = NeedMore" by blast
      then show "process st sl sa = Some y \<and> P sl sa y"
      proof cases
        case fin
        then show ?thesis using eq process_end assms(2) by auto
      next
        case stop
        then show ?thesis using eq run s process_stop assms(3) by auto
      next
        case more_: more
        then have f: "f st sl1 sa1 = Some y" and r: "run_processor st sl sa = (NeedMore, sl1, sa1)" using eq run s by simp_all
        show ?thesis using IH [OF f] process_next [OF more_(1) r] more [OF more_(1) r] by simp
      qed
    qed
  qed
  then show ?thesis by simp
qed

lemma process_kept:
  assumes "process st sl sa = Some (r, sl', sa')" "slicer_ok sl" "source_ok sa"
  shows "kept (r, sl', sa')"
proof -
  have "slicer_ok sl \<and> source_ok sa \<longrightarrow> kept (r, sl', sa')"
  proof (rule process_rule [OF assms(1), where P = "\<lambda>sl sa y. slicer_ok sl \<and> source_ok sa \<longrightarrow> kept y"])
    show "slicer_ok sl \<and> source_ok sa \<longrightarrow> kept (NeedMore, sl, sa)" for sl sa by (simp add: kept_def)
    show "slicer_ok sl \<and> source_ok sa \<longrightarrow> kept (r, sl1, sa1)"
      if "run_processor st sl sa = (r, sl1, sa1)" for sl sa r sl1 sa1
      using that kept_run [of sa sl st] by auto
    show "slicer_ok sl \<and> source_ok sa \<longrightarrow> kept y"
      if "run_processor st sl sa = (NeedMore, sl1, sa1)" "slicer_ok sl1 \<and> source_ok sa1 \<longrightarrow> kept y" for sl sa sl1 sa1 y
      using that kept_run [of sa sl st] by (auto simp: kept_def)
  qed
  then show ?thesis using assms(2,3) by simp
qed

lemma process_alike:
  assumes "process st sl sa = Some (r, sl', sa')" "slicer_ok sl" "same sa sb"
  shows "\<exists>y. process st sl sb = Some y \<and> alike (r, sl', sa') y"
proof -
  have "\<forall>sb. slicer_ok sl \<and> same sa sb \<longrightarrow> (\<exists>y. process st sl sb = Some y \<and> alike (r, sl', sa') y)"
  proof (rule process_rule [OF assms(1),
      where P = "\<lambda>sl sa x. \<forall>sb. slicer_ok sl \<and> same sa sb \<longrightarrow> (\<exists>y. process st sl sb = Some y \<and> alike x y)"])
    show "\<forall>sb. slicer_ok sl \<and> same sa sb \<longrightarrow> (\<exists>y. process st sl sb = Some y \<and> alike (NeedMore, sl, sa) y)"
      if "sa_empty sa" for sl sa
      using that same_hdr(4) process_end by (blast intro: alikeI)
    show "\<forall>sb. slicer_ok sl \<and> same sa sb \<longrightarrow> (\<exists>y. process st sl sb = Some y \<and> alike (r, sl1, sa1) y)"
      if run: "\<not> sa_empty sa" "run_processor st sl sa = (r, sl1, sa1)" "r \<noteq> NeedMore" for sl sa r sl1 sa1
    proof clarify
      fix sb assume s: "slicer_ok sl" "same sa sb"
      obtain sl2 sb1 where b: "run_processor st sl sb = (r, sl2, sb1)" "alike (r, sl1, sa1) (r, sl2, sb1)"
        using alike_run [OF s(2,1), of st] run(2) by (cases "run_processor st sl sb") (auto simp: alike_def)
      then show "\<exists>y. process st sl sb = Some y \<and> alike (r, sl1, sa1) y"
        using process_stop [OF _ b(1) run(3)] same_hdr(4) [OF s(2)] run(1) by auto
    qed
    show "\<forall>sb. slicer_ok sl \<and> same sa sb \<longrightarrow> (\<exists>y. process st sl sb = Some y \<and> alike x y)"
      if run: "\<not> sa_empty sa" "run_processor st sl sa = (NeedMore, sl1, sa1)"
        and IH: "\<forall>sb. slicer_ok sl1 \<and> same sa1 sb \<longrightarrow> (\<exists>y. process st sl1 sb = Some y \<and> alike x y)" for sl sa sl1 sa1 x
    proof clarify
      fix sb assume s: "slicer_ok sl" "same sa sb"
      obtain sb1 where b: "run_processor st sl sb = (NeedMore, sl1, sb1)" "same sa1 sb1"
        using alike_run [OF s(2,1), of st] run(2) by (cases "run_processor st sl sb") (auto simp: alike_def)
      have "slicer_ok sl1" using kept_run [of sa sl st] s run(2) by (simp add: kept_def same_def)
      then show "\<exists>y. process st sl sb = Some y \<and> alike x y"
        using IH b process_next [OF _ b(1)] same_hdr(4) [OF s(2)] run(1) by auto
    qed
  qed
  then show ?thesis using assms(2,3) by simp
qed

definition received :: "string list \<Rightarrow> source" where
  "received segs = \<lparr>sa_data = segs, sa_view = VNull\<rparr>"

lemma received_ok: "[] \<notin> set segs \<Longrightarrow> source_ok (received segs)" "flat (received segs) = concat segs"
  by (cases segs) (auto simp: source_ok_def received_def dropped_def flat_def)

lemma close_view_concat: "source_ok sa \<Longrightarrow> concat (sa_data (close_view sa)) = flat sa"
  using close_view_ok(2,3) [of sa] by (simp add: flat_def dropped_def)

lemma receive_cases:
  assumes "receive st sl segs = Some (r, sl1, left)"
  obtains sl0 sa where "process st sl (received segs) = Some (r, sl0, sa)" "left = sa_data (close_view sa)"
    "sl1 = (if r = Done then reset_slicer st sl0 else sl0)"
  using assms by (auto simp: receive_def received_def)

lemma new_slicer_ok: "slicer_ok (new_slicer st)"
  by (simp add: slicer_ok_def new_slicer_def lines_ok_def headers_ok_def awaited_def fresh_request_def fresh_response_def
      fresh_headers_def)

lemma reset_slicer_ok: "slicer_ok sl \<Longrightarrow> slicer_ok (reset_slicer st sl)"
  by (simp add: slicer_ok_def reset_slicer_def awaited_def)

subsection \<open>A concrete slicer\<close>

definition sample_settings :: "unit settings" where
  "sample_settings = \<lparr>st_mode = RequestMode, st_contentCompression = NoCompression, st_transferCompression = NoCompression,
     st_transferEncoding = EncodingByHeaders, st_init = \<lambda>_. None, st_exec = \<lambda>_ _ _. None\<rparr>"

definition sample_slicer :: "processor \<Rightarrow> u64 \<Rightarrow> unit slicer" where
  "sample_slicer p n = (new_slicer sample_settings)\<lparr>sl_processor := p, sl_body := fresh_body\<lparr>bd_contentLength := n\<rparr>\<rparr>"

lemma sample_ok: "p \<notin> {HeaderPreValue, HeaderValue, HeaderLF, HeaderKey} \<Longrightarrow> slicer_ok (sample_slicer p n)"
  by (simp add: slicer_ok_def sample_slicer_def new_slicer_def lines_ok_def headers_ok_def awaited_def fresh_request_def
      fresh_response_def fresh_headers_def)

lemma receive_sample:
  "\<exists>sl1. receive sample_settings (sample_slicer BodyByContentLength 1) [''ab''] = Some (Done, sl1, [''b'']) \<and>
    sl_events sl1 = [DataGot ''a'' True]"
proof -
  have "\<exists>sl0 sa0. run_processor sample_settings (sample_slicer BodyByContentLength 1) (received [''ab'']) = (Done, sl0, sa0) \<and>
      sl_events sl0 = [DataGot ''a'' True] \<and> sa_data (close_view sa0) = [''b'']"
    by (simp add: run_processor_def sample_slicer_def bodyByContentLength_def forBody_def detach_def add_content_def fresh_body_def
        flushBody_def set_body_def log_event_def new_slicer_def close_view_def dropped_def received_def)
  then obtain sl0 sa0 where r: "run_processor sample_settings (sample_slicer BodyByContentLength 1) (received [''ab'']) = (Done, sl0, sa0)"
    "sl_events sl0 = [DataGot ''a'' True]" "sa_data (close_view sa0) = [''b'']"
    by blast
  have "\<not> sa_empty (received [''ab''])" by (simp add: sa_empty_def received_def)
  from process_stop [OF this r(1)] show ?thesis
    using r(2,3) by (simp add: receive_def received_def reset_slicer_def)
qed

subsection \<open>Properties\<close>

text \<open>C20. The slicer does not see how the container holds the received data: the same text in other segments gives
the same result, the same calls on the API, and (unless it is an error) the same state and the same text left
for the next message.\<close>

theorem segments_do_not_matter:
  assumes "slicer_ok sl" "[] \<notin> set segs" "[] \<notin> set segs'" "concat segs = concat segs'"
    and "receive st sl segs = Some (r, sl1, left)"
  shows "\<exists>sl2 left'. receive st sl segs' = Some (r, sl2, left') \<and> sl_events sl2 = sl_events sl1 \<and>
     (r = NeedMore \<or> r = Done \<longrightarrow> sl2 = sl1 \<and> concat left' = concat left)"
proof -
  obtain sl0 sa where p: "process st sl (received segs) = Some (r, sl0, sa)" "left = sa_data (close_view sa)"
    "sl1 = (if r = Done then reset_slicer st sl0 else sl0)"
    by (rule receive_cases [OF assms(5)])
  have s: "same (received segs) (received segs')" using assms(2-4) received_ok by (simp add: same_def)
  from process_alike [OF p(1) assms(1) s] obtain sl2 sb where
    b: "process st sl (received segs') = Some (r, sl2, sb)" "alike (r, sl0, sa) (r, sl2, sb)"
    by (auto simp: alike_def)
  show ?thesis
    using b p by (auto simp: receive_def received_def alike_def reset_slicer_def same_def close_view_concat)
qed

theorem segments_do_not_matter_witness:
  "\<exists>sl1 sl2 left. receive sample_settings (sample_slicer BodyByContentLength 1) [''ab''] = Some (Done, sl1, [''b'']) \<and>
    receive sample_settings (sample_slicer BodyByContentLength 1) [''a'', ''b''] = Some (Done, sl2, left) \<and>
    sl2 = sl1 \<and> concat left = ''b''"
proof -
  obtain sl1 where r: "receive sample_settings (sample_slicer BodyByContentLength 1) [''ab''] = Some (Done, sl1, [''b''])"
    using receive_sample by blast
  show ?thesis
    using segments_do_not_matter [OF sample_ok _ _ _ r, of "[''a'', ''b'']"] r by auto
qed

lemma headers_total:
  assumes "headers_ok h" "length (hd_tail h) \<le> 256"
  shows "sum_list (List.map (\<lambda>kv. length (snd kv)) (hd_tail h)) \<le> 2 ^ 21"
proof -
  have "sum_list (List.map (\<lambda>kv. length (snd kv)) kvs) \<le> length kvs * 8192"
    if "\<forall>kv \<in> set kvs. length (snd kv) \<le> 8192" for kvs :: "header list"
    using that by (induction kvs) auto
  from this [of "hd_tail h"] assms show ?thesis by (auto simp: headers_ok_def)
qed

text \<open>C26. Whatever arrives, the state kept between two receptions stays bounded: every accumulated text within its
limit, at most 256 headers, each with a value of at most 8192 bytes, so that the values kept are never more than
2^21 bytes, and a status code of at most three digits, so that its 16-bit arithmetic never wraps. (The slicer's
own limit of 32768 bytes of values is on a counter that leaves out what continuation lines add, and does not
bound the values.)\<close>

theorem receive_bounded:
  assumes "slicer_ok sl" "[] \<notin> set segs" "receive st sl segs = Some (r, sl1, left)" "r = NeedMore \<or> r = Done"
  shows "slicer_ok sl1 \<and> length (hd_tail (sl_headers sl1)) \<le> 256 \<and>
     sum_list (List.map (\<lambda>kv. length (snd kv)) (hd_tail (sl_headers sl1))) \<le> 2 ^ 21"
proof -
  obtain sl0 sa where p: "process st sl (received segs) = Some (r, sl0, sa)"
    "sl1 = (if r = Done then reset_slicer st sl0 else sl0)"
    by (rule receive_cases [OF assms(3)])
  have "slicer_ok sl0"
    using process_kept [OF p(1) assms(1) received_ok(1) [OF assms(2)]] assms(4) by (auto simp: kept_def)
  then have ok: "slicer_ok sl1" using p(2) reset_slicer_ok by auto
  then have "headers_ok (sl_headers sl1)" "length (hd_tail (sl_headers sl1)) \<le> 256"
    by (auto simp: slicer_ok_def headers_ok_def)
  then show ?thesis using ok headers_total by blast
qed

theorem receive_bounded_witness:
  "\<exists>sl1. receive sample_settings (sample_slicer BodyByContentLength 1) [''ab''] = Some (Done, sl1, [''b'']) \<and> slicer_ok sl1"
proof -
  obtain sl1 where r: "receive sample_settings (sample_slicer BodyByContentLength 1) [''ab''] = Some (Done, sl1, [''b''])"
    using receive_sample by blast
  show ?thesis using receive_bounded [OF sample_ok _ r] r by auto
qed

end
