(* ===== verification/HttpBody.thy ===== *)
theory HttpBody
  imports HttpSegments
begin

section \<open>Bodies of HTTP messages\<close>

text \<open>
  What the slicer makes of a body that arrives in any number of receptions (\<open>feed\<close>), each in any
  segments: a reference automaton that reads the chunked encoding character by character, which the
  slicer's loop is proved to follow; bodies of a given length; and when processing ends.
\<close>

subsection \<open>Receiving piece by piece\<close>

fun feed :: "'z settings \<Rightarrow> 'z slicer \<Rightarrow> string list list \<Rightarrow> (slice_result \<times> 'z slicer \<times> string list) option" where
  "feed st sl [] = Some (NeedMore, sl, [])"
| "feed st sl (segs # pieces) =
     (case receive st sl segs of
        None \<Rightarrow> None
      | Some (r, sl1, left) \<Rightarrow> if r = NeedMore then feed st sl1 pieces else Some (r, sl1, left @ concat pieces))"

definition data_log :: "event list \<Rightarrow> string" where
  "data_log es = concat (List.map (\<lambda>e. case e of DataGot d done \<Rightarrow> d | _ \<Rightarrow> []) es)"

definition body_data :: "'z slicer \<Rightarrow> string" where
  "body_data sl = data_log (sl_events sl) @ bd_content (sl_body sl)"

lemma data_log_simps [simp]:
  "data_log [] = []" "data_log [DataGot d b] = d" "data_log (es @ fs) = data_log es @ data_log fs"
  by (simp_all add: data_log_def)

lemma flush_body_simps [simp]:
  "bd_state (sl_body (snd (flushBody b sl))) = bd_state (sl_body sl)"
  "bd_length (sl_body (snd (flushBody b sl))) = bd_length (sl_body sl)"
  "bd_length2Eat (sl_body (snd (flushBody b sl))) = bd_length2Eat (sl_body sl)"
  "bd_contentLength (sl_body (snd (flushBody b sl))) = bd_contentLength (sl_body sl)"
  "bd_codec (sl_body (snd (flushBody b sl))) = bd_codec (sl_body sl)"
  "sl_processor (snd (flushBody b sl)) = sl_processor sl"
  by (simp_all add: flushBody_def log_event_def)

lemma body_data_flush [simp]: "body_data (snd (flushBody b sl)) = body_data sl"
  by (simp add: body_data_def flushBody_def log_event_def)

text \<open>\<open>process\<close> gives up only the input it is told to wait for.\<close>

lemma process_needs_more:
  assumes "process st sl sa = Some (NeedMore, sl', sa')"
  shows "sa_empty sa'"
proof -
  have "case (NeedMore, sl', sa') of (r, sl', sa') \<Rightarrow> r = NeedMore \<longrightarrow> sa_empty sa'"
    by (rule process_rule [OF assms, where P = "\<lambda>sl sa y. case y of (r, sl', sa') \<Rightarrow> r = NeedMore \<longrightarrow> sa_empty sa'"]) auto
  then show ?thesis by simp
qed

subsection \<open>The chunked encoding, character by character\<close>

datatype chunk_abs = Reading chunk_state u32 u32 string | Refused | Complete string string

fun chunk_char :: "chunk_abs \<Rightarrow> char \<Rightarrow> chunk_abs" where
  "chunk_char (Reading ChLength len eat d) c =
     (if c = CHR 0x0D then Reading ChLF0 len eat d
      else if 0x10000000 \<le> len then Refused
      else case hex_digit c of None \<Rightarrow> Refused | Some x \<Rightarrow> Reading ChLength (push_bit 4 len OR x) eat d)"
| "chunk_char (Reading ChLF0 len eat d) c =
     (if c \<noteq> CHR 0x0A then Refused
      else if len = 0 then Reading ChCR1 0 0 d else Reading ChContent len len d)"
| "chunk_char (Reading ChContent len eat d) c =
     (if eat = 1 then Reading ChCR1 len 0 (d @ [c]) else Reading ChContent len (eat - 1) (d @ [c]))"
| "chunk_char (Reading ChCR1 len eat d) c = (if c = CHR 0x0D then Reading ChLF1 len eat d else Refused)"
| "chunk_char (Reading ChLF1 len eat d) c =
     (if c \<noteq> CHR 0x0A then Refused else if len = 0 then Complete d [] else Reading ChLength 0 0 d)"
| "chunk_char (Reading s len eat d) c = Refused"
| "chunk_char Refused c = Refused"
| "chunk_char (Complete d left) c = Complete d (left @ [c])"

definition abs_of :: "'z slicer \<Rightarrow> chunk_abs" where
  "abs_of sl =
     (let b = sl_body sl; d = body_data sl in
      case bd_state b of
        ChNull \<Rightarrow> Reading ChLength 0 0 d
      | ChContent \<Rightarrow> if bd_length2Eat b = 0 then Reading ChCR1 (bd_length b) 0 d
                    else Reading ChContent (bd_length b) (bd_length2Eat b) d
      | ChDone \<Rightarrow> Complete d []
      | s \<Rightarrow> Reading s (bd_length b) (bd_length2Eat b) d)"

lemma refused [simp]: "foldl chunk_char Refused cs = Refused"
  by (induction cs) simp_all

lemma complete [simp]: "foldl chunk_char (Complete d left) cs = Complete d (left @ cs)"
  by (induction cs arbitrary: left) simp_all

lemma content_run:
  assumes "eat \<noteq> 0" "length xs \<le> unat eat"
  shows "foldl chunk_char (Reading ChContent len eat d) xs =
    (if length xs = unat eat then Reading ChCR1 len 0 (d @ xs)
     else Reading ChContent len (eat - of_nat (length xs)) (d @ xs))"
  using assms
proof (induction xs arbitrary: eat d)
  case Nil
  then show ?case by (simp add: unat_eq_0)
next
  case (Cons x xs)
  show ?case
  proof (cases "eat = 1")
    case True
    then show ?thesis using Cons.prems by simp
  next
    case False
    have e: "unat (eat - 1) = unat eat - 1" using Cons.prems(1) by (simp add: unat_minus_one)
    have "unat eat \<noteq> unat (1 :: u32)" using False by (metis word_unat_eq_iff)
    moreover have "eat - 1 \<noteq> 0" using False by simp
    ultimately show ?thesis
      using Cons.IH [of "eat - 1" "d @ [x]"] Cons.prems(2) False e by (auto simp: algebra_simps)
  qed
qed

text \<open>Where the reference stands after all the input at hand.\<close>

definition outcome :: "slice_result \<Rightarrow> 'z slicer \<Rightarrow> source \<Rightarrow> chunk_abs" where
  "outcome r sl sa =
     (if r = NeedMore then abs_of sl else if r = Done then Complete (data_log (sl_events sl)) (flat sa) else Refused)"

definition plain :: "'z slicer \<Rightarrow> bool" where
  "plain sl \<longleftrightarrow> bd_codec (sl_body sl) = None"

lemma abs_of_flush [simp]: "abs_of (snd (flushBody b sl)) = abs_of sl"
  by (cases "bd_state (sl_body sl)") (simp_all add: abs_of_def Let_def)

lemma stop_flushed_more:
  assumes "plain sl" "stop_flushed st NeedMore sl sa = (ro, sl', sa')"
  shows "ro = Some NeedMore" "abs_of sl' = abs_of sl" "sa' = sa" "plain sl'" "sl_processor sl' = sl_processor sl"
    "bd_state (sl_body sl') = bd_state (sl_body sl)"
proof -
  have "set_body (sl_body sl) sl = sl" by (simp add: set_body_def)
  moreover have "flushBody False sl = (NeedMore, snd (flushBody False sl))" by (simp add: flushBody_def)
  ultimately have "stop_flushed st NeedMore sl sa =
      (Some NeedMore, if bd_content (sl_body sl) = [] then sl else snd (flushBody False sl), sa)"
    using assms(1) by (auto simp: stop_flushed_def chunked_flush_def plain_def split: prod.splits)
  then show "ro = Some NeedMore" "abs_of sl' = abs_of sl" "sa' = sa" "plain sl'" "sl_processor sl' = sl_processor sl"
    "bd_state (sl_body sl') = bd_state (sl_body sl)"
    using assms by (auto simp: plain_def)
qed

lemma stop_flushed_done:
  assumes "plain sl" "stop_flushed st Done sl sa = (ro, sl', sa')"
  shows "ro = Some Done" "data_log (sl_events sl') = body_data sl" "sa' = sa"
  using assms
  by (auto simp: stop_flushed_def chunked_flush_def Let_def plain_def set_body_def flushBody_def log_event_def body_data_def)

text \<open>One turn of the loop of \<open>bodyChunked\<close> keeps the reference's verdict on all of the text.\<close>

definition turn_agrees :: "'z slicer \<Rightarrow> source \<Rightarrow> 'z turned \<Rightarrow> bool" where
  "turn_agrees sl sa t \<longleftrightarrow>
     (case t of (ro, sl1, sa1) \<Rightarrow>
        (case ro of
           None \<Rightarrow> foldl chunk_char (abs_of sl) (flat sa) = foldl chunk_char (abs_of sl1) (flat sa1) \<and>
                   plain sl1 \<and> sl_processor sl1 = sl_processor sl
         | Some r \<Rightarrow> foldl chunk_char (abs_of sl) (flat sa) = outcome r sl1 sa1 \<and>
                   (r = NeedMore \<longrightarrow> flat sa1 = [] \<and> plain sl1 \<and> sl_processor sl1 = sl_processor sl \<and>
                      bd_state (sl_body sl1) \<noteq> ChDone)))"

lemma turned_more:
  assumes "plain sl" "flat sa = []" "bd_state (sl_body sl) \<noteq> ChDone"
  shows "turn_agrees sl sa (stop_flushed st NeedMore sl sa)"
proof -
  obtain ro sl1 sa1 where s: "stop_flushed st NeedMore sl sa = (ro, sl1, sa1)" by (metis prod_cases3)
  show ?thesis using stop_flushed_more [OF assms(1) s] assms by (simp add: s turn_agrees_def outcome_def)
qed

lemma turned_cong:
  "foldl chunk_char (abs_of sl) (flat sa) = foldl chunk_char (abs_of sl2) (flat sb) \<Longrightarrow> sl_processor sl2 = sl_processor sl \<Longrightarrow>
    turn_agrees sl2 sb t \<Longrightarrow> turn_agrees sl sa t"
  by (cases t; cases "fst t") (simp_all add: turn_agrees_def)

lemma body_data_set [simp]: "body_data (set_body b sl) = data_log (sl_events sl) @ bd_content b"
  by (simp add: body_data_def set_body_def)

lemma set_body_simps [simp]:
  "sl_body (set_body b sl) = b" "sl_processor (set_body b sl) = sl_processor sl" "sl_events (set_body b sl) = sl_events sl"
  by (simp_all add: set_body_def)

lemma turned_step:
  assumes "source_ok sa" "plain sl" "flat sa = c # cs" "plain (set_body b sl)"
    "chunk_char (abs_of sl) c = abs_of (set_body b sl)"
  shows "turn_agrees sl sa (None, set_body b sl, dropFront 1 sa)"
  using assms(2-) dropFront_one [OF assms(1,3)] by (simp add: turn_agrees_def)

lemma turned_bad:
  assumes "flat sa = c # cs" "chunk_char (abs_of sl) c = Refused" "r \<noteq> NeedMore" "r \<noteq> Done"
  shows "turn_agrees sl sa (Some r, sl, sa)"
  using assms by (simp add: turn_agrees_def outcome_def)

lemma turned_expect:
  assumes "source_ok sa" "plain sl" "bd_state (sl_body sl) \<noteq> ChDone" "plain (set_body b sl)"
    "chunk_char (abs_of sl) c = abs_of (set_body b sl)" "\<And>x. x \<noteq> c \<Longrightarrow> chunk_char (abs_of sl) x = Refused"
  shows "turn_agrees sl sa (expect_char st c b sl sa)"
proof (cases "flat sa")
  case Nil
  then show ?thesis using assms(1-3) turned_more by (simp add: expect_char_def hdr_empty_flat)
next
  case (Cons x cs)
  then show ?thesis
    using assms turned_step [OF assms(1,2)] turned_bad [OF Cons, of sl BadEntity] hdr_front_flat [OF assms(1)]
    by (auto simp: expect_char_def hdr_empty_flat)
qed

lemma turned_hdr: "source_ok sa \<Longrightarrow> turn_agrees sl (forHdr sa) t \<Longrightarrow> turn_agrees sl sa t"
  by (erule turned_cong [rotated 2]) (simp_all add: forHdr_ok)

lemma turned_length:
  assumes "source_ok sa" "plain sl" "bd_state (sl_body sl) = ChLength"
  shows "turn_agrees sl sa (chunk_length_turn st sl sa)"
proof (cases "flat sa")
  case Nil
  then show ?thesis
    using assms turned_more [OF assms(2) Nil] by (simp add: chunk_length_turn_def Let_def hdr_empty_flat)
next
  case (Cons x cs)
  have a: "abs_of sl = Reading ChLength (bd_length (sl_body sl)) (bd_length2Eat (sl_body sl)) (body_data sl)"
    using assms(3) by (simp add: abs_of_def Let_def)
  have f: "hdr_front sa = x" "\<not> hdr_empty sa" using hdr_front_flat [OF assms(1)] Cons assms(1) by (simp_all add: hdr_empty_flat)
  have s: "turn_agrees sl sa (None, set_body b sl, dropFront 1 sa)"
    if "bd_codec b = None" "chunk_char (abs_of sl) x = abs_of (set_body b sl)" for b
    by (rule turned_step [OF assms(1,2) Cons _ that(2)]) (use that in \<open>simp add: plain_def\<close>)
  have c: "bd_codec (sl_body sl) = None" using assms(2) by (simp add: plain_def)
  show ?thesis
    using f s c a turned_bad [OF Cons, of sl]
    by (auto simp: chunk_length_turn_def Let_def abs_of_def body_data_def assms(3) split: option.splits)
qed

lemma add_content_plain: "bd_codec b = None \<Longrightarrow> add_content st content f b = Some (b\<lparr>bd_content := bd_content b @ content\<rparr>)"
  by (simp add: add_content_def)

lemma turned_content:
  assumes "source_ok sa" "plain sl" "bd_state (sl_body sl) = ChContent"
  shows "turn_agrees sl sa (chunk_content_turn st sl sa)"
proof -
  let ?b = "sl_body sl" let ?e = "bd_length2Eat (sl_body sl)"
  have c: "bd_codec ?b = None" using assms(2) by (simp add: plain_def)
  show ?thesis
  proof (cases "?e = 0")
    case True
    then show ?thesis
      using assms c by (simp add: chunk_content_turn_def chunk_content_end_def turn_agrees_def abs_of_def Let_def body_data_def plain_def)
  next
    case False
    note fb = forBody_ok [OF assms(1)]
    have a: "abs_of sl = Reading ChContent (bd_length ?b) ?e (body_data sl)" using False assms(3) by (simp add: abs_of_def Let_def)
    show ?thesis
    proof (cases "flat sa = []")
      case True
      then have "sa_data (forBody sa) = []" using fb sa_empty_flat [OF fb(1)] by (simp add: sa_empty_def in_body_def)
      moreover have "turn_agrees sl (forBody sa) (stop_flushed st NeedMore sl (forBody sa))"
        using turned_more [OF assms(2)] fb(2) True assms(3) by simp
      then have "turn_agrees sl sa (stop_flushed st NeedMore sl (forBody sa))"
        by (rule turned_cong [rotated 2]) (simp_all add: fb(2))
      ultimately show ?thesis using False by (simp add: chunk_content_turn_def chunk_content_end_def Let_def)
    next
      case more: False
      then have d: "sa_data (forBody sa) \<noteq> []" using fb sa_empty_flat [OF fb(1)] by (simp add: sa_empty_def in_body_def)
      define xs sa1 where "xs = take (unat ?e) (flat sa)" and "sa1 = snd (detach (unat ?e) (forBody sa))"
      have t: "detach (unat ?e) (forBody sa) = (xs, sa1)" "source_ok sa1" "flat sa1 = drop (unat ?e) (flat sa)"
        using detach_ok [OF fb(1,3), of "unat ?e"] fb(2) by (simp_all add: xs_def sa1_def prod_eq_iff)
      define b2 where "b2 = ?b\<lparr>bd_length2Eat := ?e - of_nat (length xs), bd_content := bd_content ?b @ xs\<rparr>"
      have step: "chunk_content_turn st sl sa = chunk_content_end st (set_body b2 sl) sa1"
        using False d c t(1) by (simp add: chunk_content_turn_def Let_def add_content_plain b2_def)
      have len: "length xs \<le> unat ?e" "xs \<noteq> []" using more False by (simp_all add: xs_def unat_eq_0)
      have run: "foldl chunk_char (abs_of sl) xs =
        (if length xs = unat ?e then Reading ChCR1 (bd_length ?b) 0 (body_data sl @ xs)
         else Reading ChContent (bd_length ?b) (?e - of_nat (length xs)) (body_data sl @ xs))"
        unfolding a by (rule content_run [OF False len(1)])
      have z: "?e - of_nat (length xs) = 0 \<longleftrightarrow> length xs = unat ?e"
      proof -
        have "unat (of_nat (length xs) :: u32) = length xs"
          using len(1) unsigned_less [of ?e, where 'a = nat] by (simp add: unat_of_nat)
        then show ?thesis by (metis right_minus_eq word_unat_eq_iff)
      qed
      have split: "flat sa = xs @ flat sa1" by (simp add: xs_def t(3))
      have p2: "plain (set_body b2 sl)" using c by (simp add: plain_def b2_def)
      have r2: "foldl chunk_char (abs_of sl) xs = abs_of (set_body b2 sl)"
        using run z assms(3) by (simp add: abs_of_def Let_def b2_def body_data_def)
      then have eq: "foldl chunk_char (abs_of sl) (flat sa) = foldl chunk_char (abs_of (set_body b2 sl)) (flat sa1)"
        by (simp add: split)
      have "turn_agrees (set_body b2 sl) sa1 (chunk_content_end st (set_body b2 sl) sa1)"
      proof (cases "bd_length2Eat b2 = 0")
        case True
        then show ?thesis using p2 assms(3)
          by (simp add: chunk_content_end_def turn_agrees_def abs_of_def Let_def body_data_def plain_def b2_def)
      next
        case no: False
        then have "flat sa1 = []" using z len(1) t(3) by (auto simp: b2_def xs_def)
        then show ?thesis using turned_more [OF p2] no assms(3) by (simp add: chunk_content_end_def b2_def)
      qed
      then show ?thesis unfolding step by (rule turned_cong [rotated 2]) (simp_all add: eq)
    qed
  qed
qed

lemma turned_turn:
  assumes "source_ok sa" "plain sl"
  shows "turn_agrees sl sa (chunk_turn st sl sa)"
proof -
  have c: "bd_codec (sl_body sl) = None" using assms(2) by (simp add: plain_def)
  note d = abs_of_def Let_def body_data_def plain_def
  have e: "turn_agrees sl sa (expect_char st x b sl (forHdr sa))"
    if "bd_state (sl_body sl) \<noteq> ChDone" "plain (set_body b sl)" "chunk_char (abs_of sl) x = abs_of (set_body b sl)"
      "\<And>y. y \<noteq> x \<Longrightarrow> chunk_char (abs_of sl) y = Refused" for x b
    by (rule turned_hdr [OF assms(1)], rule turned_expect [OF forHdr_ok(1) [OF assms(1)] assms(2)]) (use that in auto)
  show ?thesis
  proof (cases "bd_state (sl_body sl)")
    case ChNull
    then show ?thesis using c by (simp add: chunk_turn_def turn_agrees_def d)
  next
    case ChLength
    then show ?thesis
      using turned_hdr [OF assms(1) turned_length [OF forHdr_ok(1) [OF assms(1)] assms(2) ChLength]]
      by (simp add: chunk_turn_def Let_def)
  next
    case ChContent
    then show ?thesis using turned_content [OF assms ChContent] ChContent by (simp add: chunk_turn_def Let_def)
  next
    case ChDone
    obtain ro sl1 sa1 where s: "stop_flushed st Done sl sa = (ro, sl1, sa1)" by (metis prod_cases3)
    show ?thesis using stop_flushed_done [OF assms(2) s] ChDone by (simp add: chunk_turn_def turn_agrees_def outcome_def s abs_of_def Let_def)
  next
    case ChLF0
    show ?thesis unfolding chunk_turn_def Let_def ChLF0 chunk_state.case by (intro e) (auto simp: d c ChLF0)
  next
    case ChCR1
    show ?thesis unfolding chunk_turn_def Let_def ChCR1 chunk_state.case by (intro e) (auto simp: d c ChCR1)
  next
    case ChLF1
    show ?thesis unfolding chunk_turn_def Let_def ChLF1 chunk_state.case by (intro e) (auto simp: d c ChLF1)
  qed
qed

lemma bodyChunked_abs:
  assumes "source_ok sa" "plain sl" "bodyChunked st sl sa = (r, sl', sa')"
  shows "foldl chunk_char (abs_of sl) (flat sa) = outcome r sl' sa' \<and>
    (r = NeedMore \<longrightarrow> flat sa' = [] \<and> plain sl' \<and> sl_processor sl' = sl_processor sl \<and> bd_state (sl_body sl') \<noteq> ChDone)"
  using assms
proof (induction st sl sa rule: bodyChunked.induct)
  case (1 st sl sa)
  obtain ro sl1 sa1 where t: "chunk_turn st sl sa = (ro, sl1, sa1)" by (metis prod_cases3)
  have T: "turn_agrees sl sa (ro, sl1, sa1)" using turned_turn [OF "1.prems"(1,2), of st] by (simp add: t)
  have ok: "source_ok sa1" using chunk_turn_kept(2) [OF t "1.prems"(1)] .
  show ?case
  proof (cases ro)
    case None
    then have "bodyChunked st sl1 sa1 = (r, sl', sa')" using "1.prems"(3) by (subst (asm) bodyChunked.simps) (simp add: t)
    then show ?thesis
      using "1.IH" [OF t [symmetric] None refl ok] T None by (simp add: turn_agrees_def)
  next
    case (Some r1)
    then have "(r, sl', sa') = (r1, sl1, sa1)" using "1.prems"(3) by (subst (asm) bodyChunked.simps) (simp add: t)
    then show ?thesis using T Some by (simp add: turn_agrees_def)
  qed
qed

text \<open>A reception in the middle of a chunked body.\<close>

lemma receive_chunked:
  assumes "sl_processor sl = BodyChunked" "plain sl" "bd_state (sl_body sl) \<noteq> ChDone" "[] \<notin> set segs"
  shows "\<exists>r sl1 sa. receive st sl segs = Some (r, if r = Done then reset_slicer st sl1 else sl1, sa_data (close_view sa)) \<and>
    source_ok sa \<and> foldl chunk_char (abs_of sl) (concat segs) = outcome r sl1 sa \<and>
    (r = NeedMore \<longrightarrow> plain sl1 \<and> sl_processor sl1 = BodyChunked \<and> bd_state (sl_body sl1) \<noteq> ChDone)"
proof (cases "sa_empty (received segs)")
  case True
  then have none: "concat segs = []" using received_ok(1) [OF assms(4)] received_ok(2) [of segs] by (simp add: sa_empty_flat)
  then show ?thesis
    using assms none received_ok(1) [OF assms(4)] received_ok(2) [of segs] process_end [OF True, of st sl] unfolding receive_def received_def
    by (intro exI [of _ NeedMore] exI [of _ sl] exI [of _ "received segs"]) (simp add: outcome_def received_def del: concat_eq_Nil_conv)
next
  case False
  obtain r sl1 sa where b: "bodyChunked st sl (received segs) = (r, sl1, sa)" by (metis prod_cases3)
  have run: "run_processor st sl (received segs) = (r, sl1, sa)" using b assms(1) by (simp add: run_processor_def)
  note a = bodyChunked_abs [OF received_ok(1) [OF assms(4)] assms(2) b]
  have ok: "source_ok sa" using bodyChunked_kept [OF b received_ok(1) [OF assms(4)]] by simp
  have "process st sl (received segs) = Some (r, sl1, sa)"
    using process_stop [OF False run] process_next [OF False, of st sl sl1 sa] run a ok process_end [of sa st sl1]
    by (cases "r = NeedMore") (auto simp: sa_empty_flat)
  then show ?thesis
    using a ok assms(1) received_ok(2)
    by (intro exI [of _ r] exI [of _ sl1] exI [of _ sa]) (simp add: receive_def received_def [symmetric])
qed

lemma abs_of_reading: "bd_state (sl_body sl) \<noteq> ChDone \<Longrightarrow> abs_of sl \<noteq> Complete d rest"
  by (cases "bd_state (sl_body sl)") (simp_all add: abs_of_def Let_def)

lemma feed_chunked:
  assumes "sl_processor sl = BodyChunked" "plain sl" "bd_state (sl_body sl) \<noteq> ChDone" "\<forall>segs \<in> set pieces. [] \<notin> set segs"
    "foldl chunk_char (abs_of sl) (concat (concat pieces)) = Complete d rest"
  shows "\<exists>sl1 left. feed st sl pieces = Some (Done, sl1, left) \<and> concat left = rest \<and> data_log (sl_events sl1) = d"
  using assms
proof (induction pieces arbitrary: sl)
  case (Cons segs pieces)
  obtain r sl1 sa where r: "receive st sl segs = Some (r, if r = Done then reset_slicer st sl1 else sl1, sa_data (close_view sa))"
    "source_ok sa" "foldl chunk_char (abs_of sl) (concat segs) = outcome r sl1 sa"
    "r = NeedMore \<longrightarrow> plain sl1 \<and> sl_processor sl1 = BodyChunked \<and> bd_state (sl_body sl1) \<noteq> ChDone"
    using receive_chunked [OF Cons.prems(1-3), of segs st] Cons.prems(4) by auto
  have all: "foldl chunk_char (outcome r sl1 sa) (concat (concat pieces)) = Complete d rest"
    using Cons.prems(5) r(3) by simp
  show ?case
  proof (cases "r = NeedMore")
    case True
    then show ?thesis using Cons.IH [of sl1] Cons.prems(4) all r by (simp add: outcome_def)
  next
    case False
    then have "r = Done" "d = data_log (sl_events sl1)" "rest = flat sa @ concat (concat pieces)"
      using all by (auto simp: outcome_def split: if_splits)
    then show ?thesis using r(1,2) False by (simp add: close_view_concat reset_slicer_def)
  qed
qed (simp add: abs_of_reading)

end
