(* ===== verification/HttpOutput.thy ===== *)
theory HttpOutput
  imports HttpSource HttpEnums
begin

section \<open>HTTP output\<close>

text \<open>
  Models what an outgoing message writes: \<open>source/module/www/src/http/outputBase.ipp\<close> with the
  first lines of the client's \<open>Request\<close> and the server's \<open>Response\<close>, over the members of
  \<open>io/outputBase.hpp\<close>. A handler changes the output and says what is to follow: nothing, a flush
  of the buffer, or the failure of the channel. The compressors, which wrap libraries outside the
  sources, are parameters (\<open>coder\<close>). A key or method that is the enumerator without a text is
  \<open>None\<close>.
\<close>

subsection \<open>State\<close>

datatype output_error = OutAmbiguousHeaders | OutCompressionFailed | OutBadMethod | OutBadVersion

datatype aftermath = Quiet | Flush | Fail output_error

record 'z coder =
  co_emplace :: "compression \<Rightarrow> bool \<times> 'z"
  co_exec :: "'z \<Rightarrow> string \<Rightarrow> bool \<Rightarrow> ('z \<times> string) option"

record 'z outgoing =
  ou_contentCompression :: compression
  ou_transferCompression :: compression
  ou_transferEncoding :: encoding
  ou_codec :: "'z option"
  ou_processedSource :: nat
  ou_chunked :: bool
  ou_buffer :: string
  ou_writeAllowed :: bool
  ou_apiDone :: bool
  ou_fail :: bool
  ou_someWrote :: bool

definition fresh_outgoing :: "'z outgoing" where
  "fresh_outgoing = \<lparr>ou_contentCompression = NoCompression, ou_transferCompression = NoCompression,
     ou_transferEncoding = NoEncoding, ou_codec = None, ou_processedSource = 0, ou_chunked = False, ou_buffer = [],
     ou_writeAllowed = False, ou_apiDone = False, ou_fail = False, ou_someWrote = False\<rparr>"

definition setupDataProcessing :: "compression \<Rightarrow> compression \<Rightarrow> encoding \<Rightarrow> 'z outgoing \<Rightarrow> 'z outgoing" where
  "setupDataProcessing cc tc te out =
     out\<lparr>ou_contentCompression := cc, ou_transferCompression := tc, ou_transferEncoding := te\<rparr>"

definition put :: "string \<Rightarrow> 'z outgoing \<Rightarrow> 'z outgoing" where
  "put s out = out\<lparr>ou_buffer := ou_buffer out @ s\<rparr>"

definition crlf :: string where
  "crlf = [CHR 0x0D, CHR 0x0A]"

text \<open>\<open>std::to_chars\<close>.\<close>

fun digit_char :: "nat \<Rightarrow> char" where
  "digit_char d = char_of (if d < 10 then 48 + d else 87 + d)"

fun to_chars :: "nat \<Rightarrow> nat \<Rightarrow> string" where
  "to_chars base n =
     (if base < 2 \<or> n < base then [digit_char n] else to_chars base (n div base) @ [digit_char (n mod base)])"

declare to_chars.simps [simp del]

subsection \<open>First lines\<close>

definition request_first_line :: "http_method option \<Rightarrow> string \<Rightarrow> http_version option \<Rightarrow> 'z outgoing \<Rightarrow> aftermath \<times> 'z outgoing" where
  "request_first_line m path v out =
     (case m of
        None \<Rightarrow> (Fail OutBadMethod, out)
      | Some m \<Rightarrow>
          (let out1 = put '' '' (put path (put '' '' (put (method_text m) out))) in
           case v of
             None \<Rightarrow> (Fail OutBadVersion, out1)
           | Some v \<Rightarrow> (Quiet, put crlf (put (version_text v) out1))))"

definition response_first_line :: "http_version option \<Rightarrow> u16 \<Rightarrow> string \<Rightarrow> 'z outgoing \<Rightarrow> aftermath \<times> 'z outgoing" where
  "response_first_line v code text out =
     (case v of
        None \<Rightarrow> (Fail OutBadVersion, out)
      | Some v \<Rightarrow>
          (Quiet, put crlf (put text (put '' '' (put (to_chars 10 (unat code)) (put '' '' (put (version_text v) out)))))))"

subsection \<open>Headers\<close>

definition compressor_initialize :: "'z coder \<Rightarrow> compression \<Rightarrow> 'z outgoing \<Rightarrow> bool \<times> 'z outgoing" where
  "compressor_initialize co c out =
     (if ou_codec out \<noteq> None then (False, out)
      else case c of
        NoCompression \<Rightarrow> (True, out)
      | CompressionByHeaders \<Rightarrow> (False, out)
      | _ \<Rightarrow> (let (ok, z) = co_emplace co c in (ok, out\<lparr>ou_codec := Some z\<rparr>)))"

definition compressionBySettings :: "'z coder \<Rightarrow> compression \<Rightarrow> 'z outgoing \<Rightarrow> bool \<times> 'z outgoing" where
  "compressionBySettings co c out =
     (if c = CompressionByHeaders \<or> c = NoCompression then (True, out) else compressor_initialize co c out)"

text \<open>The parts of a value that names compressions; the results are \<open>someBadValue\<close> and whether a compressor failed.\<close>

fun compression_parts :: "'z coder \<Rightarrow> string list \<Rightarrow> bool \<times> bool \<times> 'z outgoing \<Rightarrow> bool \<times> bool \<times> 'z outgoing" where
  "compression_parts co [] s = s"
| "compression_parts co (p # ps) (bad, err, out) =
     compression_parts co ps
       (if p = ''chunked'' then (bad, err, out\<lparr>ou_chunked := True\<rparr>)
        else case to_compression p of
               None \<Rightarrow> (True, err, out)
             | Some c \<Rightarrow> (let (ok, out1) = compressor_initialize co c out in (bad \<or> \<not> ok, err \<or> \<not> ok, out1)))"

definition recognized_out :: "'z coder \<Rightarrow> recognized_key option \<Rightarrow> string \<Rightarrow> 'z outgoing \<Rightarrow> output_error option \<times> 'z outgoing" where
  "recognized_out co k value out =
     (let parts = split_parts '', '' value;
          compressing =
            (ou_contentCompression out = CompressionByHeaders \<and> k = Some Content_Encoding) \<or>
            (ou_transferCompression out = CompressionByHeaders \<and> k = Some Transfer_Encoding);
          (bad, err, out1) = (if compressing then compression_parts co parts (False, False, out) else (False, False, out))
      in if bad then (Some (if err then OutCompressionFailed else OutAmbiguousHeaders), out1)
         else
           let out2 = (if ou_transferEncoding out1 = EncodingByHeaders \<and> k = Some Transfer_Encoding \<and> ''chunked'' \<in> set parts
                       then out1\<lparr>ou_chunked := True\<rparr> else out1)
           in case k of
                None \<Rightarrow> (Some OutAmbiguousHeaders, out2)
              | Some k \<Rightarrow> (None, put (key_text k) out2))"

datatype out_key = OutRecognized "recognized_key option" | OutAny string

fun header_lines :: "'z coder \<Rightarrow> (out_key \<times> string) list \<Rightarrow> 'z outgoing \<Rightarrow> output_error option \<times> 'z outgoing" where
  "header_lines co [] out = (None, out)"
| "header_lines co ((key, value) # hs) out =
     (let (e, out1) = (case key of
            OutRecognized k \<Rightarrow> recognized_out co k value out
          | OutAny s \<Rightarrow> (None, put s out))
      in if e \<noteq> None then (e, out1) else header_lines co hs (put crlf (put value (put '': '' out1))))"

definition out_headers :: "'z coder \<Rightarrow> (out_key \<times> string) list \<Rightarrow> bool \<Rightarrow> 'z outgoing \<Rightarrow> aftermath \<times> 'z outgoing" where
  "out_headers co hs done out =
     (let (ok1, out1) = compressionBySettings co (ou_contentCompression out) out;
          (ok2, out2) = (if ok1 then compressionBySettings co (ou_transferCompression out1) out1 else (False, out1))
      in if \<not> ok2 then (Fail OutCompressionFailed, out2)
         else
           let out3 = (if ou_transferEncoding out2 = EncodingChunked then out2\<lparr>ou_chunked := True\<rparr> else out2);
               (e, out4) = header_lines co hs out3
           in case e of
                Some e \<Rightarrow> (Fail e, out4)
              | None \<Rightarrow> if done then (Flush, put crlf out4) else (Quiet, out4))"

subsection \<open>Data\<close>

definition processChunked :: "bool \<Rightarrow> string \<Rightarrow> 'z outgoing \<Rightarrow> 'z outgoing" where
  "processChunked done data out =
     (if ou_chunked out then
        if data = [] then if done then put (''0'' @ crlf @ crlf) out else out
        else
          let out1 = put data (put crlf (put (to_chars 16 (length data)) out))
          in if done then put (crlf @ ''0'' @ crlf @ crlf) out1 else put crlf out1
      else put data out)"

definition compressor_exec :: "'z coder \<Rightarrow> 'z \<Rightarrow> string \<Rightarrow> bool \<Rightarrow> 'z outgoing \<Rightarrow> (string \<times> 'z outgoing) option" where
  "compressor_exec co z content finish out =
     (let out1 = out\<lparr>ou_processedSource := ou_processedSource out + length content\<rparr> in
      if finish \<and> ou_processedSource out1 = 0 then Some ([], out1)
      else map_option (\<lambda>(z', s). (s, out1\<lparr>ou_codec := Some z'\<rparr>)) (co_exec co z content finish))"

definition out_data :: "'z coder \<Rightarrow> string \<Rightarrow> bool \<Rightarrow> 'z outgoing \<Rightarrow> aftermath \<times> 'z outgoing" where
  "out_data co data done out =
     (case ou_codec out of
        None \<Rightarrow> (Flush, processChunked done data out)
      | Some z \<Rightarrow>
          (case compressor_exec co z data done out of
             None \<Rightarrow>
               (Fail OutCompressionFailed, out\<lparr>ou_processedSource := ou_processedSource out + length data\<rparr>)
           | Some (s, out1) \<Rightarrow> (Flush, processChunked done s out1)))"

text \<open>No compressor at all.\<close>

definition sample_coder :: "unit coder" where
  "sample_coder = \<lparr>co_emplace = \<lambda>_. (False, ()), co_exec = \<lambda>_ _ _. None\<rparr>"

end
