(* ===== verification/HttpMessages.thy ===== *)
theory HttpMessages
  imports HttpBody HttpOutput
begin

section \<open>What is written chunked is read back\<close>

text \<open>
  The body that an outgoing message writes in chunks (\<open>HttpOutput\<close>), cut anywhere on its way, is the
  body that the slicer of the other side reads (\<open>HttpBody\<close>).
\<close>

subsection \<open>The text of a chunked body\<close>

fun send_data :: "'z coder \<Rightarrow> string list \<Rightarrow> 'z outgoing \<Rightarrow> 'z outgoing" where
  "send_data co [] out = out"
| "send_data co (d # ds) out = send_data co ds (snd (out_data co d (ds = []) out))"

definition chunk_text :: "bool \<Rightarrow> string \<Rightarrow> string" where
  "chunk_text done d =
     (if d = [] then [] else to_chars 16 (length d) @ crlf @ d @ crlf) @ (if done then ''0'' @ crlf @ crlf else [])"

fun chunks_text :: "string list \<Rightarrow> string" where
  "chunks_text [] = []"
| "chunks_text (d # ds) = chunk_text (ds = []) d @ chunks_text ds"

lemma out_data_chunked:
  assumes "ou_codec out = None" "ou_chunked out"
  shows "out_data co d done out = (Flush, put (chunk_text done d) out)"
  using assms by (simp add: out_data_def processChunked_def chunk_text_def put_def)

lemma send_data_chunked:
  assumes "ou_codec out = None" "ou_chunked out"
  shows "ou_buffer (send_data co ds out) = ou_buffer out @ chunks_text ds"
  using assms by (induction ds arbitrary: out) (simp_all add: out_data_chunked put_def)

subsection \<open>Reading a chunk\<close>

lemma hex_digit_char: "m < 16 \<Longrightarrow> hex_digit (digit_char m) = Some (of_nat m)"
  by (auto simp: hex_digit_def Let_def)

lemma digit_char_no_cr: "m < 16 \<Longrightarrow> digit_char m \<noteq> CHR 0x0D"
proof
  assume "m < 16" "digit_char m = CHR 0x0D"
  then have "of_char (digit_char m) = (of_char (CHR 0x0D) :: nat)" by (simp only:)
  then show False using \<open>m < 16\<close> by (simp split: if_splits)
qed

lemma push_digit:
  assumes "q < 2 ^ 28" "m < 16"
  shows "push_bit 4 (of_nat q) OR of_nat m = (of_nat (q * 16 + m) :: u32)"
proof -
  have "push_bit 4 (of_nat q :: u32) OR of_nat m = of_nat (push_bit 4 q OR m)"
    by (simp add: of_nat_or_eq of_nat_push_bit)
  moreover have "push_bit 4 q OR m = q * 16 + m"
  proof -
    have "push_bit 4 q AND m = 0"
      using assms(2) take_bit_nat_eq_self [of m 4]
      by (auto intro!: bit_eqI simp: bit_and_iff bit_push_bit_iff) (metis bit_take_bit_iff not_le)
    then show ?thesis by (simp add: disjunctive_add_eq_or [symmetric] push_bit_eq_mult)
  qed
  ultimately show ?thesis by simp
qed

lemma read_length:
  "n < 2 ^ 32 \<Longrightarrow> foldl chunk_char (Reading ChLength 0 e d) (to_chars 16 n) = Reading ChLength (of_nat n) e d"
proof (induction "16 :: nat" n rule: to_chars.induct)
  case (1 n)
  show ?case
  proof (cases "n < 16")
    case True
    then show ?thesis
      using hex_digit_char [OF True] digit_char_no_cr [OF True] by (subst to_chars.simps) simp
  next
    case False
    have q: "n div 16 < 2 ^ 28" using "1.prems" by simp
    then have b: "\<not> 0x10000000 \<le> (of_nat (n div 16) :: u32)"
      by (simp add: word_le_nat_alt unat_of_nat)
    show ?thesis
      using "1.hyps" False "1.prems" b hex_digit_char [of "n mod 16"] digit_char_no_cr [of "n mod 16"] push_digit [OF q, of "n mod 16"]
      by (subst to_chars.simps) simp
  qed
qed

lemma read_chunk:
  assumes "xs \<noteq> []" "length xs < 2 ^ 32"
  shows "foldl chunk_char (Reading ChLength 0 e d) (to_chars 16 (length xs) @ crlf @ xs @ crlf) = Reading ChLength 0 0 (d @ xs)"
proof -
  let ?n = "of_nat (length xs) :: u32"
  have u: "unat ?n = length xs" using assms(2) by (simp add: unat_of_nat)
  then have n: "?n \<noteq> 0" using assms(1) by (metis length_0_conv unat_0)
  show ?thesis
    using content_run [OF n, of xs ?n d] u n by (simp add: read_length [OF assms(2)] crlf_def)
qed

lemma read_last: "foldl chunk_char (Reading ChLength 0 e d) (''0'' @ crlf @ crlf) = Complete d []"
  by (simp add: crlf_def hex_digit_def)

lemma read_chunks:
  assumes "ds \<noteq> []" "\<forall>d \<in> set ds. length d < 2 ^ 32"
  shows "foldl chunk_char (Reading ChLength 0 0 d0) (chunks_text ds) = Complete (d0 @ concat ds) []"
  using assms
proof (induction ds arbitrary: d0)
  case (Cons d ds)
  have l: "length d < 2 ^ 32" using Cons.prems by simp
  have r: "foldl chunk_char (Reading ChLength 0 0 d0) (if d = [] then [] else to_chars 16 (length d) @ crlf @ d @ crlf) =
      Reading ChLength 0 0 (d0 @ d)"
    using read_chunk [OF _ l, of 0 d0] by simp
  show ?case
  proof (cases "ds = []")
    case True
    then show ?thesis using r read_last [of 0 "d0 @ d"] by (simp add: chunk_text_def del: foldl_Cons)
  next
    case False
    then show ?thesis using r Cons.IH [of "d0 @ d"] Cons.prems by (simp add: chunk_text_def)
  qed
qed simp

text \<open>C22. A body written without compression in any number of data calls by an output that writes chunks, and received in any pieces
by a slicer at the start of a chunked body, is read back: the slicer is done exactly behind the last chunk, the
data it has passed on is the data written, and the text behind is left for the next message.\<close>

theorem chunked_round_trip:
  assumes "ou_codec out = None" "ou_chunked out" "ou_buffer out = []"
    and "blocks \<noteq> []" "\<forall>d \<in> set blocks. length d < 2 ^ 32"
    and "sl_processor sl = BodyChunked" "bd_codec (sl_body sl) = None" "bd_state (sl_body sl) = ChNull" "bd_content (sl_body sl) = []"
    and "\<forall>segs \<in> set pieces. [] \<notin> set segs" "concat (concat pieces) = ou_buffer (send_data co blocks out) @ rest"
  shows "\<exists>sl1 left. feed st sl pieces = Some (Done, sl1, left) \<and> concat left = rest \<and>
    data_log (sl_events sl1) = data_log (sl_events sl) @ concat blocks"
proof (rule feed_chunked)
  show "foldl chunk_char (abs_of sl) (concat (concat pieces)) =
      Complete (data_log (sl_events sl) @ concat blocks) rest"
    using assms(7-9) read_chunks [OF assms(4,5)]
    by (simp add: assms(11) send_data_chunked [OF assms(1,2)] assms(3) abs_of_def body_data_def)
qed (use assms in \<open>simp_all add: plain_def\<close>)

theorem chunked_round_trip_witness:
  "\<exists>sl1 left.
     feed sample_settings (sample_slicer BodyChunked 0)
       [[''2'', [CHR 0x0D]], [[CHR 0x0A] @ ''ab'' @ crlf @ ''1'' @ crlf @ ''c'' @ crlf @ ''0'' @ crlf, crlf @ ''X'']] =
       Some (Done, sl1, left) \<and> concat left = ''X'' \<and> data_log (sl_events sl1) = data_log (sl_events (sample_slicer BodyChunked 0)) @ concat [''ab'', ''c'']"
proof -
  have "to_chars 16 2 = ''2''" "to_chars 16 (Suc (Suc 0)) = ''2''" "to_chars 16 1 = ''1''" by code_simp+
  then show ?thesis
    by (intro chunked_round_trip [where out = "fresh_outgoing\<lparr>ou_chunked := True\<rparr>" and co = sample_coder])
       (simp_all add: fresh_outgoing_def sample_slicer_def fresh_body_def out_data_def processChunked_def put_def crlf_def
         new_slicer_def)
qed

end
