(* ===== verification/HttpLength.thy ===== *)
theory HttpLength
  imports HttpBody
begin

section \<open>Bodies of a given length, and the end of processing\<close>

text \<open>
  A body whose length is given is exactly the bytes announced, as long as the length fits 32 bits:
  the slicer cuts the 64-bit length off to 32 bits when it takes bytes out, and \<open>process\<close> never
  returns when nothing is left of it. That is the only way in which it does not return.
\<close>

subsection \<open>One reception\<close>

definition by_length :: "'z slicer \<Rightarrow> bool" where
  "by_length sl \<longleftrightarrow> sl_processor sl = BodyByContentLength \<and> plain sl \<and> bd_content (sl_body sl) = []"

definition announced :: "'z slicer \<Rightarrow> nat" where
  "announced sl = unat (bd_contentLength (sl_body sl))"

lemma unat_cut: "unat (ucast (c :: u64) :: u32) = unat c mod 2 ^ 32"
  by (simp add: unsigned_ucast_eq take_bit_eq_mod)

lemma bodyByContentLength_step:
  fixes sl :: "'z slicer"
  assumes "source_ok sa" "by_length sl"
  defines "n \<equiv> announced sl mod 2 ^ 32"
  shows "\<exists>sl1 sa1. bodyByContentLength st sl sa =
      (if announced sl = length (take n (flat sa)) then Done else NeedMore, sl1, sa1) \<and>
    source_ok sa1 \<and> flat sa1 = drop n (flat sa) \<and> by_length sl1 \<and>
    announced sl1 = announced sl - length (take n (flat sa)) \<and>
    data_log (sl_events sl1) = data_log (sl_events sl) @ take n (flat sa) \<and>
    (take n (flat sa) = [] \<longrightarrow> announced sl \<noteq> 0 \<longrightarrow> sl1 = sl)"
proof -
  define c xs sa1 where "c = bd_contentLength (sl_body sl)" and "xs = take n (flat sa)"
    and "sa1 = snd (detach n (forBody sa))"
  note fb = forBody_ok [OF assms(1)]
  have t: "detach n (forBody sa) = (xs, sa1)" "source_ok sa1" "flat sa1 = drop n (flat sa)"
    using detach_ok [OF fb(1,3), of n] fb(2) by (simp_all add: xs_def sa1_def prod_eq_iff)
  define b where "b = (sl_body sl)\<lparr>bd_contentLength := c - of_nat (length xs)\<rparr>"
  have len: "length xs \<le> unat c" unfolding xs_def n_def announced_def c_def
    by (metis length_take min.coboundedI2 min.commute mod_less_eq_dividend)
  have left: "unat (c - of_nat (length xs)) = unat c - length xs"
    using len unsigned_less [of c, where 'a = nat] by (simp add: unat_sub_if_size unat_of_nat word_size)
  have z: "c - of_nat (length xs) = 0 \<longleftrightarrow> unat c = length xs"
    using left len by (metis diff_is_0_eq diff_self_eq_0 le_antisym unat_eq_0)
  have codec: "bd_codec b = None" "bd_content b = []" using assms(2) by (simp_all add: b_def by_length_def plain_def)
  have run: "bodyByContentLength st sl sa =
      (if xs \<noteq> [] \<or> unat c = length xs then (let (r, sl1) = flushBody (unat c = length xs) (set_body (b\<lparr>bd_content := xs\<rparr>) sl) in (r, sl1, sa1))
       else (NeedMore, set_body (b\<lparr>bd_content := xs\<rparr>) sl, sa1))"
  proof -
    have zb: "bd_contentLength b = 0 \<longleftrightarrow> unat c = length xs" using z by (simp add: b_def)
    have d: "detach (unat (ucast c :: u32)) (forBody sa) = (xs, sa1)"
      using t(1) by (simp add: n_def announced_def unat_cut c_def)
    have "bodyByContentLength st sl sa =
        (case add_content st xs (bd_contentLength b = 0) b of
           None \<Rightarrow> (BadEntity, set_body b sl, sa1)
         | Some b1 \<Rightarrow>
             if bd_content b1 \<noteq> [] \<or> bd_contentLength b = 0
             then (let (r, sl1) = flushBody (bd_contentLength b = 0) (set_body b1 sl) in (r, sl1, sa1))
             else (NeedMore, set_body b1 sl, sa1))"
      unfolding bodyByContentLength_def c_def [symmetric] Let_def by (simp only: d prod.case b_def [symmetric])
    then show ?thesis unfolding zb add_content_plain [OF codec(1)] using codec(2) by simp
  qed
  have nothing: "set_body (b\<lparr>bd_content := xs\<rparr>) sl = sl" if "xs = []"
    using that codec(2) by (simp add: b_def c_def set_body_def)
  show ?thesis
    using t(2,3) run left assms(2) nothing unfolding xs_def [symmetric]
    by (auto simp: flushBody_def log_event_def set_body_def by_length_def plain_def announced_def c_def [symmetric] b_def)
qed

lemma receive_by_length:
  assumes "by_length sl" "0 < announced sl" "announced sl < 2 ^ 32" "[] \<notin> set segs"
  defines "text \<equiv> concat segs"
  shows "\<exists>r sl1 left. receive st sl segs = Some (r, sl1, left) \<and>
    data_log (sl_events sl1) = data_log (sl_events sl) @ take (announced sl) text \<and>
    concat left = drop (announced sl) text \<and>
    (if announced sl \<le> length text then r = Done
     else r = NeedMore \<and> by_length sl1 \<and> announced sl1 = announced sl - length text)"
proof -
  have ok: "source_ok (received segs)" "flat (received segs) = text"
    using received_ok(1) [OF assms(4)] received_ok(2) [of segs] by (simp_all add: text_def)
  obtain sl1 sa1 where s: "bodyByContentLength st sl (received segs) =
      (if announced sl = length (take (announced sl) text) then Done else NeedMore, sl1, sa1)"
    "source_ok sa1" "flat sa1 = drop (announced sl) text" "by_length sl1"
    "announced sl1 = announced sl - length (take (announced sl) text)"
    "data_log (sl_events sl1) = data_log (sl_events sl) @ take (announced sl) text"
    using bodyByContentLength_step [OF ok(1) assms(1), of st] assms(3) ok(2) by auto
  have e: "announced sl = length (take (announced sl) text) \<longleftrightarrow> announced sl \<le> length text" by auto
  have run: "run_processor st sl (received segs) = (if announced sl \<le> length text then Done else NeedMore, sl1, sa1)"
    using s(1) assms(1) unfolding e by (simp add: run_processor_def by_length_def)
  show ?thesis
  proof (cases "text = []")
    case True
    then have "process st sl (received segs) = Some (NeedMore, sl, received segs)"
      using process_end [of "received segs" st sl] ok by (simp add: sa_empty_flat)
    then show ?thesis using True assms(1,2) close_view_concat [OF ok(1)] ok(2)
      by (simp add: receive_def received_def)
  next
    case False
    then have ne: "\<not> sa_empty (received segs)" using ok by (simp add: sa_empty_flat)
    show ?thesis
    proof (cases "announced sl \<le> length text")
      case True
      then have "process st sl (received segs) = Some (Done, sl1, sa1)" using process_stop [OF ne run] by simp
      then show ?thesis using True s(3,6) close_view_concat [OF s(2)] by (simp add: receive_def received_def reset_slicer_def)
    next
      case less: False
      then have "process st sl (received segs) = Some (NeedMore, sl1, sa1)"
        using process_next [OF ne, of st sl sl1 sa1] run process_end [of sa1 st sl1] s(2,3) by (simp add: sa_empty_flat)
      then show ?thesis using less s(3-6) close_view_concat [OF s(2)] by (simp add: receive_def received_def)
    qed
  qed
qed

text \<open>C25. A body of a given length of less than 4 GiB that is not to be decompressed, received in any pieces, is exactly
the bytes announced: the slicer is done behind them, it has passed on these bytes, and what follows is left for
the next message.\<close>

theorem content_length_exact:
  assumes "sl_processor sl = BodyByContentLength" "bd_codec (sl_body sl) = None" "bd_content (sl_body sl) = []"
    and "bd_contentLength (sl_body sl) = n" "0 < n" "n < 2 ^ 32"
    and "\<forall>segs \<in> set pieces. [] \<notin> set segs" "concat (concat pieces) = body @ rest" "length body = unat n"
  shows "\<exists>sl1 left. feed st sl pieces = Some (Done, sl1, left) \<and> concat left = rest \<and>
    data_log (sl_events sl1) = data_log (sl_events sl) @ body"
proof -
  have "\<exists>sl1 left. feed st sl pieces = Some (Done, sl1, left) \<and> concat left = rest \<and>
      data_log (sl_events sl1) = data_log (sl_events sl) @ body"
    if "by_length sl" "0 < announced sl" "announced sl < 2 ^ 32" "\<forall>segs \<in> set pieces. [] \<notin> set segs"
      "concat (concat pieces) = body @ rest" "length body = announced sl" for sl :: "'a slicer"
    using that
  proof (induction pieces arbitrary: sl body)
    case (Cons segs pieces)
    obtain r sl1 left where r: "receive st sl segs = Some (r, sl1, left)"
      "data_log (sl_events sl1) = data_log (sl_events sl) @ take (announced sl) (concat segs)"
      "concat left = drop (announced sl) (concat segs)"
      "if announced sl \<le> length (concat segs) then r = Done
       else r = NeedMore \<and> by_length sl1 \<and> announced sl1 = announced sl - length (concat segs)"
      using receive_by_length [OF Cons.prems(1-3), of segs st] Cons.prems(4) by auto
    have all: "concat segs @ concat (concat pieces) = body @ rest" using Cons.prems(5) by simp
    show ?case
    proof (cases "announced sl \<le> length (concat segs)")
      case True
      then have "take (announced sl) (concat segs) = body" "drop (announced sl) (concat segs) @ concat (concat pieces) = rest"
        using arg_cong [OF all, of "take (announced sl)"] arg_cong [OF all, of "drop (announced sl)"] Cons.prems(6) by simp_all
      then show ?thesis using r True by simp
    next
      case False
      then obtain b2 where b2: "body = concat segs @ b2" "concat (concat pieces) = b2 @ rest"
        using all Cons.prems(6) by (auto simp: append_eq_append_conv2)
      then show ?thesis
        using Cons.IH [of sl1 b2] Cons.prems(3,4,6) False r by auto
    qed
  qed simp
  from this [of sl] show ?thesis
    using assms by (simp add: by_length_def plain_def announced_def word_less_nat_alt)
qed

theorem content_length_exact_witness:
  "\<exists>sl1 left. feed sample_settings (sample_slicer BodyByContentLength 3) [[''a''], [''b'', ''cX'']] = Some (Done, sl1, left) \<and>
    concat left = ''X'' \<and> data_log (sl_events sl1) = data_log (sl_events (sample_slicer BodyByContentLength 3)) @ ''abc''"
  by (rule content_length_exact [where n = 3]) (simp_all add: sample_slicer_def fresh_body_def)

end
