(* ===== verification/HttpTermination.thy ===== *)
theory HttpTermination
  imports HttpLength
begin

section \<open>When processing ends\<close>

text \<open>
  Each turn of \<open>process\<close> takes input or moves on to a processor that does (\<open>turn_rank\<close>), except where
  a body still waits for a number of bytes whose lower 32 bits are zero (\<open>stuck\<close>; \<open>announced\<close> is what is
  left of the length announced).
\<close>

inductive reaches :: "'z settings \<Rightarrow> 'z slicer \<times> source \<Rightarrow> 'z slicer \<times> source \<Rightarrow> bool" for st where
  reaches_refl: "reaches st z z"
| reaches_turn: "\<not> sa_empty sa \<Longrightarrow> run_processor st sl sa = (NeedMore, sl1, sa1) \<Longrightarrow> reaches st (sl1, sa1) z \<Longrightarrow>
    reaches st (sl, sa) z"

definition stuck :: "'z slicer \<Rightarrow> bool" where
  "stuck sl \<longleftrightarrow> sl_processor sl = BodyByContentLength \<and> bd_contentLength (sl_body sl) \<noteq> 0 \<and> 2 ^ 32 dvd announced sl"

definition turn_rank :: "'z slicer \<Rightarrow> nat" where
  "turn_rank sl = (if sl_processor sl \<in> {RequestNull, ResponseNull, StatusCode, HeaderPreKey, HeaderPreValue} then 1 else 0)"

definition shrinks :: "'z slicer \<Rightarrow> source \<Rightarrow> 'z sliced \<Rightarrow> bool" where
  "shrinks sl sa x \<longleftrightarrow>
     (case x of (r, sl1, sa1) \<Rightarrow>
        r = NeedMore \<longrightarrow> 2 * length (flat sa1) + turn_rank sl1 < 2 * length (flat sa) + turn_rank sl)"

lemma turn_rank_le: "turn_rank sl \<le> 1"
  by (simp add: turn_rank_def)

lemma shrinks_less: "length (flat sa1) < length (flat sa) \<Longrightarrow> shrinks sl sa (r, sl1, sa1)"
  using turn_rank_le [of sl1] by (simp add: shrinks_def)

lemma shrinks_stop: "r \<noteq> NeedMore \<Longrightarrow> shrinks sl sa (r, sl1, sa1)"
  by (simp add: shrinks_def)

lemma accumule_shrinks:
  assumes "source_ok sa" "flat sa \<noteq> []" "length acc \<le> limit" "tooBig \<noteq> NeedMore" "tooBig \<noteq> Done"
    "\<And>r x a. length (flat a) < length (flat sa) \<Longrightarrow> shrinks sl sa (F r x a)" "\<And>x a. shrinks sl sa (F tooBig x a)"
  shows "shrinks sl sa (case accumuleUntil t tooBig limit acc sa of (r, x, a) \<Rightarrow> F r x a)"
proof -
  obtain r x a where e: "accumuleUntil t tooBig limit acc sa = (r, x, a)" by (metis prod_cases3)
  note f = accumuleUntil_flat [OF assms(1,3) e]
  have "r = tooBig \<or> length (flat a) < length (flat sa)"
    using f(1,6) assms(2) by (auto simp: accumulated_def split: if_splits)
  then show ?thesis using assms(6,7) by (auto simp: e)
qed

lemmas shrinks_text = accumule_shrinks [where tooBig = BadEntity] accumule_shrinks [where tooBig = TooBigUri]
  accumule_shrinks [where tooBig = TooBigHeaders]

lemma drop_front_shrinks:
  assumes "source_ok sa" "flat sa \<noteq> []"
  shows "length (flat (dropFront 1 sa)) < length (flat sa)"
  using dropFront_one(2) [OF assms(1)] assms(2) by (cases "flat sa") simp_all

lemma shrinks_first_line:
  assumes "source_ok sa" "flat sa \<noteq> []" "slicer_ok sl"
  shows "shrinks sl sa (requestFirstLineMethod sl sa)" "shrinks sl sa (requestFirstLineUri sl sa)"
    "shrinks sl sa (requestFirstLineVersion sl sa)" "shrinks sl sa (responseFirstLineVersion sl sa)"
    "shrinks sl sa (responseFirstLineStatusText sl sa)" "shrinks sl sa (headerValue sl sa)" "shrinks sl sa (headerKey sl sa)"
    "shrinks sl sa (firstLineLF st sl sa)" "shrinks sl sa (headerLF st sl sa)"
proof -
  note d = requestFirstLineMethod_def requestFirstLineUri_def requestFirstLineVersion_def
    responseFirstLineVersion_def responseFirstLineStatusText_def
  show "shrinks sl sa (requestFirstLineMethod sl sa)" "shrinks sl sa (requestFirstLineUri sl sa)"
    "shrinks sl sa (requestFirstLineVersion sl sa)" "shrinks sl sa (responseFirstLineVersion sl sa)"
    "shrinks sl sa (responseFirstLineStatusText sl sa)"
    unfolding d Let_def
    by (rule shrinks_text; use assms in \<open>auto simp: slicer_ok_def lines_ok_def intro: shrinks_less shrinks_stop\<close>)+
  show "shrinks sl sa (headerValue sl sa)"
    unfolding headerValue_def Let_def
    by (rule shrinks_text; use assms in \<open>auto simp: slicer_ok_def headers_ok_def intro: shrinks_less shrinks_stop\<close>)
  have "shrinks sl sa (case accumuleUntil CHR '':'' BadEntity 64 (hd_key (sl_headers sl)) sa of (r, x, a) \<Rightarrow>
        if r \<noteq> Done then (r, set_headers ((sl_headers sl)\<lparr>hd_key := x\<rparr>) sl, a)
        else (NeedMore, (set_headers ((sl_headers sl)\<lparr>hd_key := x,
               hd_totalHeadersCount := hd_totalHeadersCount (sl_headers sl) + 1\<rparr>) sl)\<lparr>sl_processor := HeaderPreValue\<rparr>, a))"
    by (rule shrinks_text; use assms in \<open>auto simp: slicer_ok_def headers_ok_def intro: shrinks_less shrinks_stop\<close>)
  then show "shrinks sl sa (headerKey sl sa)"
    using assms(1,2) by (simp add: headerKey_def Let_def sa_empty_flat)
  note h = forHdr_ok [OF assms(1)]
  have e: "\<not> hdr_empty (forHdr sa)" "length (flat (dropFront 1 (forHdr sa))) < length (flat sa)"
    using h assms(2) drop_front_shrinks [of "forHdr sa"] by (simp_all add: hdr_empty_flat)
  show "shrinks sl sa (firstLineLF st sl sa)" "shrinks sl sa (headerLF st sl sa)"
    using e by (auto simp: firstLineLF_def headerLF_def Let_def intro: shrinks_less shrinks_stop split: prod.splits)
qed

lemma skip_spaces_shorter: "source_ok sa \<Longrightarrow> source_ok (skip_spaces sa) \<and> length (flat (skip_spaces sa)) \<le> length (flat sa)"
proof (induction sa rule: skip_spaces.induct)
  case (1 sa)
  show ?case
  proof (cases "hdr_empty sa \<or> \<not> isspace (hdr_front sa)")
    case True
    then show ?thesis using "1.prems" by (subst (1 2) skip_spaces.simps) auto
  next
    case False
    then obtain c cs where c: "flat sa = c # cs" using "1.prems" by (cases "flat sa") (auto simp: hdr_empty_flat)
    have "source_ok (skip_spaces (dropFront 1 sa)) \<and> length (flat (skip_spaces (dropFront 1 sa))) \<le> length cs"
      using "1.IH" False dropFront_one(1,2) [OF "1.prems" c] by simp
    then show ?thesis using False c by (subst (1 2) skip_spaces.simps) auto
  qed
qed

lemma status_loop_ends:
  "source_ok sa \<Longrightarrow> status_loop sl sa = (NeedMore, sl1, sa1) \<Longrightarrow>
    length (flat sa1) \<le> length (flat sa) \<and> (sl_processor sl1 = StatusText \<or> flat sa1 = [])"
proof (induction sl sa rule: status_loop.induct)
  case (1 sl sa)
  show ?case
  proof (cases "flat sa")
    case Nil
    then show ?thesis using "1.prems" by (subst (asm) status_loop.simps) (auto simp: Let_def hdr_empty_flat split: if_splits)
  next
    case (Cons c cs)
    note d = dropFront_one(1,2) [OF "1.prems"(1) Cons]
    have ne: "\<not> hdr_empty sa" using "1.prems"(1) Cons by (simp add: hdr_empty_flat)
    show ?thesis
      using "1.IH" [OF refl refl _ ne _ _ d(1)] "1.prems"(2) d(2) ne Cons
      by (subst (asm) (2) status_loop.simps) (auto simp: Let_def split: if_splits)
  qed
qed

lemma shrinks_between:
  assumes "source_ok sa" "flat sa \<noteq> []"
  shows "sl_processor sl = StatusCode \<Longrightarrow> shrinks sl sa (responseFirstLineStatusCode sl sa)"
    "sl_processor sl = HeaderPreKey \<Longrightarrow> shrinks sl sa (headerPreKey sl sa)"
    "sl_processor sl = HeaderPreValue \<Longrightarrow> shrinks sl sa (headerPreValue sl sa)"
proof -
  note h = forHdr_ok [OF assms(1)]
  have pos: "0 < length (flat sa)" using assms(2) by simp
  have e: "\<not> hdr_empty (forHdr sa)" "length (flat (dropFront 1 (forHdr sa))) < length (flat sa)"
    using h assms(2) drop_front_shrinks [of "forHdr sa"] by (simp_all add: hdr_empty_flat)
  show "shrinks sl sa (responseFirstLineStatusCode sl sa)" if "sl_processor sl = StatusCode"
  proof -
    obtain r sl1 sa1 where s: "status_loop sl (forHdr sa) = (r, sl1, sa1)" by (metis prod_cases3)
    then show ?thesis
      using status_loop_ends [OF h(1), of sl sl1 sa1] that pos turn_rank_le [of sl1]
      by (auto simp: responseFirstLineStatusCode_def shrinks_def h(2) turn_rank_def)
  qed
  show "shrinks sl sa (headerPreKey sl sa)" if "sl_processor sl = HeaderPreKey"
    using that e by (auto simp: headerPreKey_def Let_def shrinks_def h(2) turn_rank_def)
  show "shrinks sl sa (headerPreValue sl sa)" if "sl_processor sl = HeaderPreValue"
    using that skip_spaces_shorter [OF h(1)] pos
    by (auto simp: headerPreValue_def Let_def shrinks_def h(2) turn_rank_def hdr_empty_flat)
qed

subsection \<open>Bodies\<close>

lemma add_content_eat: "add_content st content f b = Some b1 \<Longrightarrow> bd_length2Eat b1 = bd_length2Eat b"
  by (auto simp: add_content_def unified_exec_def Let_def split: option.splits if_splits)

lemma stop_flushed_waits: "stop_flushed st Done sl sa \<noteq> (Some NeedMore, sl1, sa1)"
  "stop_flushed st r sl sa = (ro, sl1, sa1) \<Longrightarrow> sa1 = sa"
  by (auto simp: stop_flushed_def chunked_flush_def flushBody_def Let_def split: prod.splits option.splits if_splits)

lemma chunk_content_waits:
  assumes "source_ok sa" "chunk_content_turn st sl sa = (Some NeedMore, sl1, sa1)"
  shows "flat sa1 = []"
proof -
  let ?e = "bd_length2Eat (sl_body sl)"
  note fb = forBody_ok [OF assms(1)]
  have e: "?e \<noteq> 0" using assms(2) by (auto simp: chunk_content_turn_def chunk_content_end_def Let_def split: if_splits)
  define sb where "sb = snd (detach (unat ?e) (forBody sa))"
  have t: "detach (unat ?e) (forBody sa) = (take (unat ?e) (flat sa), sb)" "flat sb = drop (unat ?e) (flat sa)"
    using detach_ok [OF fb(1,3), of "unat ?e"] fb(2) by (simp_all add: sb_def prod_eq_iff)
  consider (none) "flat sa = []" | (all) "unat ?e \<le> length (flat sa)" | (some) "flat sa \<noteq> []" "length (flat sa) < unat ?e" by linarith
  then show ?thesis
  proof cases
    case none
    then show ?thesis
      using assms(2) e fb sa_empty_flat [OF fb(1)] stop_flushed_waits(2)
      by (fastforce simp: chunk_content_turn_def chunk_content_end_def Let_def sa_empty_def in_body_def split: if_splits)
  next
    case all
    then have "?e - of_nat (length (take (unat ?e) (flat sa))) = 0" "flat sa \<noteq> []"
      using e by (auto simp: min_def unat_eq_0)
    moreover have "sa_data (forBody sa) \<noteq> []"
      using fb sa_empty_flat [OF fb(1)] \<open>flat sa \<noteq> []\<close> by (simp add: sa_empty_def in_body_def)
    ultimately show ?thesis
      using assms(2) e t(1)
      by (auto simp: chunk_content_turn_def chunk_content_end_def Let_def set_body_def dest!: add_content_eat
          split: if_splits option.splits)
  next
    case some
    then have "sa_data (forBody sa) \<noteq> []" "flat sb = []" using fb sa_empty_flat [OF fb(1)] t(2) by (simp_all add: sa_empty_def in_body_def)
    then show ?thesis
      using assms(2) e t(1) stop_flushed_waits(2)
      by (fastforce simp: chunk_content_turn_def chunk_content_end_def Let_def split: if_splits option.splits)
  qed
qed

lemma chunk_turn_waits:
  assumes "source_ok sa" "chunk_turn st sl sa = (Some NeedMore, sl1, sa1)"
  shows "flat sa1 = []"
proof -
  note h = forHdr_ok [OF assms(1)]
  have e: "flat sa1 = []" if "expect_char st c b sl (forHdr sa) = (Some NeedMore, sl1, sa1)" for c b
    using that h stop_flushed_waits(2) by (fastforce simp: expect_char_def hdr_empty_flat split: if_splits)
  have l: "flat sa1 = []" if "chunk_length_turn st sl (forHdr sa) = (Some NeedMore, sl1, sa1)"
    using that h stop_flushed_waits(2)
    by (fastforce simp: chunk_length_turn_def Let_def hdr_empty_flat split: if_splits option.splits)
  show ?thesis
    using assms(2) e l chunk_content_waits [OF assms(1)] stop_flushed_waits(1) [of st sl sa]
    by (cases "bd_state (sl_body sl)") (auto simp: chunk_turn_def Let_def)
qed

lemma bodyChunked_waits: "source_ok sa \<Longrightarrow> bodyChunked st sl sa = (NeedMore, sl1, sa1) \<Longrightarrow> flat sa1 = []"
proof (induction st sl sa rule: bodyChunked.induct)
  case (1 st sl sa)
  obtain ro s a where t: "chunk_turn st sl sa = (ro, s, a)" by (metis prod_cases3)
  show ?case
    using "1.IH" [OF t [symmetric] _ refl] "1.prems" chunk_turn_kept(2) [OF t "1.prems"(1)] chunk_turn_waits [OF "1.prems"(1)] t
    by (subst (asm) (2) bodyChunked.simps) (auto split: option.splits)
qed

lemma taken_shrinks:
  assumes "source_ok sa" "flat sa \<noteq> []" "0 < n"
  shows "length (flat (snd (detach n (forBody sa)))) < length (flat sa)"
  using detach_ok(3) [OF forBody_ok(1,3) [OF assms(1)], of n] forBody_ok(2) [OF assms(1)] assms(2,3) by simp

lemma shrinks_bodies:
  assumes "source_ok sa" "flat sa \<noteq> []"
  shows "shrinks sl sa (bodyUntilClose st sl sa)" "shrinks sl sa (bodyChunked st sl sa)"
    "sl_processor sl = BodyByContentLength \<Longrightarrow> \<not> stuck sl \<Longrightarrow> shrinks sl sa (bodyByContentLength st sl sa)"
proof -
  show "shrinks sl sa (bodyUntilClose st sl sa)"
    using taken_shrinks [OF assms, of detach_all]
    by (auto simp: bodyUntilClose_def detach_all_def intro: shrinks_less split: prod.splits option.splits)
  show "shrinks sl sa (bodyChunked st sl sa)"
  proof -
    obtain r sl1 sa1 where b: "bodyChunked st sl sa = (r, sl1, sa1)" by (metis prod_cases3)
    have "0 < length (flat sa)" using assms(2) by simp
    then show ?thesis using bodyChunked_waits [OF assms(1), of st sl sl1 sa1] b
      by (cases "r = NeedMore") (auto intro: shrinks_less shrinks_stop)
  qed
  show "shrinks sl sa (bodyByContentLength st sl sa)" if "sl_processor sl = BodyByContentLength" "\<not> stuck sl"
  proof -
    let ?c = "bd_contentLength (sl_body sl)"
    obtain content sa1 where t: "detach (unat (ucast ?c :: u32)) (forBody sa) = (content, sa1)"
      by (cases "detach (unat (ucast ?c :: u32)) (forBody sa)")
    have "?c = 0 \<or> 0 < unat ?c mod 2 ^ 32"
      using that by (auto simp: stuck_def announced_def dvd_eq_mod_eq_0)
    then show ?thesis
    proof (elim disjE)
      assume c: "?c = 0"
      then have "content = []" using t detach_ok(1) [OF forBody_ok(1,3) [OF assms(1)], of 0] by simp
      then show ?thesis using c t by (simp add: bodyByContentLength_def Let_def flushBody_def shrinks_def split: option.splits)
    next
      assume "0 < unat ?c mod 2 ^ 32"
      then show ?thesis using taken_shrinks [OF assms, of "unat (ucast ?c :: u32)"] t
        by (auto simp: unat_cut bodyByContentLength_def Let_def intro: shrinks_less split: prod.splits option.splits)
    qed
  qed
qed

lemma shrinks_null:
  "sl_processor sl = RequestNull \<Longrightarrow> shrinks sl sa (requestNull st sl sa)"
  "sl_processor sl = ResponseNull \<Longrightarrow> shrinks sl sa (responseNull st sl sa)"
  by (simp_all add: requestNull_def responseNull_def shrinks_def turn_rank_def)

lemma run_shrinks:
  assumes "source_ok sa" "flat sa \<noteq> []" "slicer_ok sl" "\<not> stuck sl"
  shows "shrinks sl sa (run_processor st sl sa)"
  using shrinks_first_line [OF assms(1-3)] shrinks_between [OF assms(1,2)] shrinks_bodies [OF assms(1,2)] assms(4)
    shrinks_null
  by (cases "sl_processor sl") (simp_all add: run_processor_def)

subsection \<open>Properties\<close>

lemma process_ends:
  assumes "source_ok sa" "slicer_ok sl" "\<And>sl1 sa1. reaches st (sl, sa) (sl1, sa1) \<Longrightarrow> \<not> stuck sl1"
  shows "\<exists>y. process st sl sa = Some y"
  using assms
proof (induction "2 * length (flat sa) + turn_rank sl" arbitrary: sl sa rule: less_induct)
  case less
  obtain r sl1 sa1 where run: "run_processor st sl sa = (r, sl1, sa1)" by (metis prod_cases3)
  show ?case
  proof (cases "sa_empty sa \<or> r \<noteq> NeedMore")
    case True
    then show ?thesis using process_end [of sa st sl] process_stop [OF _ run] by auto
  next
    case False
    then have go: "\<not> sa_empty sa" "run_processor st sl sa = (NeedMore, sl1, sa1)" using run by simp_all
    have "kept (NeedMore, sl1, sa1)" using kept_run [OF less.prems(1,2), of st] go(2) by simp
    then have ok: "source_ok sa1" "slicer_ok sl1" by (simp_all add: kept_def)
    have "\<not> stuck sl" using less.prems(3) reaches_refl by blast
    then have "2 * length (flat sa1) + turn_rank sl1 < 2 * length (flat sa) + turn_rank sl"
      using run_shrinks [OF less.prems(1) _ less.prems(2), of st] go less.prems(1) by (simp add: shrinks_def sa_empty_flat)
    from less.hyps [OF this ok] obtain y where "process st sl1 sa1 = Some y"
      using less.prems(3) reaches_turn [OF go] by blast
    then show ?thesis using process_next [OF go] by (cases y) auto
  qed
qed

text \<open>C23. Processing ends: for every slicer within its bounds (\<open>slicer_ok\<close>, which a new slicer is and receiving
keeps) and everything received, \<open>process\<close> returns, unless it comes to a body by length of which the number of bytes
still to come is a non-zero multiple of 4 GiB. A length announced as 4 GiB and 5 bytes comes to that too, after
its first five bytes.\<close>

theorem process_returns:
  assumes "slicer_ok sl" "[] \<notin> set segs"
  shows "(\<exists>y. receive st sl segs = Some y) \<or> (\<exists>sl1 sa1. reaches st (sl, received segs) (sl1, sa1) \<and> stuck sl1)"
  using process_ends [OF received_ok(1) [OF assms(2)] assms(1), of st]
  by (cases "process st sl (received segs)") (auto simp: receive_def received_def)

theorem process_returns_witness:
  "(\<exists>y. receive sample_settings (sample_slicer RequestNull 0) [''GE'', ''T''] = Some y) \<or>
   (\<exists>sl1 sa1. reaches sample_settings (sample_slicer RequestNull 0, received [''GE'', ''T'']) (sl1, sa1) \<and> stuck sl1)"
  by (rule process_returns) (simp_all add: sample_ok)

text \<open>C27. At such a body it does not return: the slicer takes the lower 32 bits of the length out of the
container, which is nothing, and goes on with the same state and the same input.\<close>

theorem content_length_hangs:
  assumes "sl_processor sl = BodyByContentLength" "bd_codec (sl_body sl) = None" "bd_content (sl_body sl) = []"
    and "bd_contentLength (sl_body sl) \<noteq> 0" "2 ^ 32 dvd unat (bd_contentLength (sl_body sl))"
    and "[] \<notin> set segs" "concat segs \<noteq> []"
  shows "receive st sl segs = None"
proof -
  have b: "by_length sl" "announced sl \<noteq> 0" "announced sl mod 2 ^ 32 = 0"
    using assms(1-5) by (simp_all add: by_length_def plain_def announced_def unat_eq_0)
  have no: "\<not> (sl1 = sl \<and> source_ok sa1 \<and> flat sa1 \<noteq> [])" if "process st sl1 sa1 = Some (r, sl2, sa2)" for sl1 sa1 r sl2 sa2
  proof (rule process_rule [OF that, where P = "\<lambda>s a y. \<not> (s = sl \<and> source_ok a \<and> flat a \<noteq> [])"])
    have step: "\<exists>a1. run_processor st sl a = (NeedMore, sl, a1) \<and> source_ok a1 \<and> flat a1 = flat a" if "source_ok a" for a
      using bodyByContentLength_step [OF that b(1), of st] b(2,3) assms(1) by (auto simp: run_processor_def)
    show "\<not> (s = sl \<and> source_ok a \<and> flat a \<noteq> [])" if "sa_empty a" for s a
      using that by (auto simp: sa_empty_flat)
    show "\<not> (s = sl \<and> source_ok a \<and> flat a \<noteq> [])" if "run_processor st s a = (r, s1, a1)" "r \<noteq> NeedMore" for s a r s1 a1
      using that step [of a] by auto
    show "\<not> (s = sl \<and> source_ok a \<and> flat a \<noteq> [])"
      if "run_processor st s a = (NeedMore, s1, a1)" "\<not> (s1 = sl \<and> source_ok a1 \<and> flat a1 \<noteq> [])" for s a s1 a1
      using that step [of a] by auto
  qed
  have "process st sl (received segs) = None"
  proof (cases "process st sl (received segs)")
    case (Some y)
    then show ?thesis using no [of sl "received segs"] received_ok(1) [OF assms(6)] received_ok(2) [of segs] assms(7)
      by (cases y) (simp only:, simp)
  qed simp
  then show ?thesis by (simp add: receive_def received_def)
qed

theorem content_length_hangs_witness:
  "receive sample_settings (sample_slicer BodyByContentLength 0x100000000) [''a''] = None"
  by (rule content_length_hangs) (simp_all add: sample_slicer_def fresh_body_def)

end
