(* ===== verification/HttpHeaders.thy ===== *)
theory HttpHeaders
  imports HttpSegments
begin

section \<open>Header lines\<close>

text \<open>
  What a sequence of header lines can bring about: at most one way to find the end of the body, and
  what a continued value is appended to.
\<close>

subsection \<open>One framing\<close>

text \<open>A header line of a message: the state of the current header as the processors before \<open>headerLF\<close> leave it.\<close>

definition regular_line :: "string \<times> string \<Rightarrow> headers_state \<Rightarrow> headers_state" where
  "regular_line kv h = h\<lparr>hd_key := fst kv, hd_value := snd kv, hd_kind := Regular\<rparr>"

fun accept_lines :: "'z settings \<Rightarrow> (string \<times> string) list \<Rightarrow> headers_state \<Rightarrow> headers_state option" where
  "accept_lines st [] h = Some h"
| "accept_lines st (kv # kvs) h =
     (let (r, h1) = header_line st (regular_line kv h) in if r = NeedMore then accept_lines st kvs h1 else None)"

text \<open>The ways in which a line frames the body, when the encoding is given by the headers.\<close>

definition framings :: "string \<times> string \<Rightarrow> nat" where
  "framings kv =
     (case to_key (fst kv) of
        Some Content_Length \<Rightarrow> 1
      | Some Transfer_Encoding \<Rightarrow> count_list (list_parts (rtrim (snd kv))) ''chunked''
      | _ \<Rightarrow> 0)"

definition framed :: "headers_state \<Rightarrow> nat" where
  "framed h = (if portionality_free h then 0 else 1)"

lemma framed_same: "hd_portionality h1 = hd_portionality h \<Longrightarrow> framed h1 = framed h"
  by (simp add: framed_def portionality_free_def)

lemma setCompression_framed: "setCompression p h = (ok, h1) \<Longrightarrow> hd_portionality h1 = hd_portionality h"
  by (auto simp: setCompression_def split: if_splits option.splits)

lemma content_parts_framed: "content_parts ps h = (ok, h1) \<Longrightarrow> hd_portionality h1 = hd_portionality h"
  by (induction ps arbitrary: h ok) (auto split: prod.splits dest!: setCompression_framed)

lemma transfer_parts_framed:
  assumes "transfer_parts st ps h = (True, h1)" "st_transferEncoding st = EncodingByHeaders"
  shows "framed h1 = framed h + count_list ps ''chunked''"
  using assms
proof (induction ps arbitrary: h)
  case (Cons p ps)
  obtain ok h2 where p: "transfer_part st p h = (ok, h2)" by (cases "transfer_part st p h")
  then have t: "ok" "transfer_parts st ps h2 = (True, h1)" using Cons.prems(1) by (auto split: prod.splits)
  have "framed h2 = framed h + (if p = ''chunked'' then 1 else 0)"
    using p t(1) Cons.prems(2)
    by (auto simp: transfer_part_def framed_def portionality_free_def split: if_splits dest!: setCompression_framed)
  then show ?case using Cons.IH [OF t(2) Cons.prems(2)] by auto
qed simp

lemma recognized_framed:
  assumes "recognized_header st k h = (NeedMore, h1)" "st_transferEncoding st = EncodingByHeaders"
  shows "framed h1 = framed h + (case k of Content_Length \<Rightarrow> 1
    | Transfer_Encoding \<Rightarrow> count_list (list_parts (hd_value h)) ''chunked'' | _ \<Rightarrow> 0)"
proof (cases k)
  case Content_Length
  then show ?thesis using assms(1)
    by (auto simp: recognized_header_def Let_def framed_def portionality_free_def split: if_splits option.splits)
next
  case Content_Encoding
  then show ?thesis using assms(1)
    by (auto simp: recognized_header_def Let_def framed_def portionality_free_def split: if_splits prod.splits
        dest!: content_parts_framed)
next
  case Transfer_Encoding
  then obtain ok where t: "transfer_parts st (list_parts (hd_value h)) (h\<lparr>hd_allowLastValueContinue := False\<rparr>) = (ok, h1)" "ok"
    using assms by (auto simp: recognized_header_def Let_def split: prod.splits if_splits)
  moreover have "framed (h\<lparr>hd_allowLastValueContinue := False\<rparr>) = framed h" by (rule framed_same) simp
  ultimately show ?thesis using transfer_parts_framed [OF _ assms(2)] Transfer_Encoding by simp
qed (use assms(1) in \<open>auto simp: recognized_header_def Let_def framed_def portionality_free_def split: if_splits\<close>)

lemma line_framed:
  assumes "header_line st (regular_line kv h) = (NeedMore, h1)" "st_transferEncoding st = EncodingByHeaders"
  shows "framed h1 = framed h + framings kv"
proof -
  define h0 where "h0 = (regular_line kv h)\<lparr>hd_value := rtrim (snd kv),
    hd_totalValueSize := hd_totalValueSize h + length (rtrim (snd kv))\<rparr>"
  have v: "hd_value h0 = rtrim (snd kv)" "framed h0 = framed h"
    by (simp add: h0_def) (rule framed_same, simp add: h0_def regular_line_def)
  have run: "regular_header st (regular_line kv h) = (NeedMore, h1)"
    using assms(1) by (simp add: header_line_def regular_line_def)
  show ?thesis
  proof (cases "to_key (fst kv)")
    case None
    then have "hd_portionality h1 = hd_portionality h"
      using run by (auto simp: regular_header_def Let_def regular_line_def split: if_splits)
    then show ?thesis using None framed_same [of h1 h] by (simp add: framings_def)
  next
    case (Some k)
    then obtain h2 where h2: "recognized_header st k h0 = (NeedMore, h2)" "hd_portionality h1 = hd_portionality h2"
      using run by (auto simp: regular_header_def Let_def regular_line_def h0_def split: if_splits prod.splits)
    show ?thesis
      using recognized_framed [OF h2(1) assms(2)] v framed_same [OF h2(2)] Some by (simp add: framings_def split: recognized_key.splits)
  qed
qed

lemma lines_framed:
  "accept_lines st kvs h = Some h1 \<Longrightarrow> st_transferEncoding st = EncodingByHeaders \<Longrightarrow>
    framed h1 = framed h + sum_list (List.map framings kvs)"
  by (induction kvs arbitrary: h) (auto dest!: line_framed split: prod.splits if_splits)

text \<open>Codings are compared with regard to case, though they are case-insensitive in HTTP, and one that is not known is
passed over when transfer compression is not taken from the headers: a line with \<open>Chunked\<close> may stand beside a
\<open>Content-Length\<close>, by which the body is then read.\<close>

lemma chunked_spelling:
  "\<exists>h. accept_lines sample_settings [(''Transfer-Encoding'', ''Chunked''), (''Content-Length'', ''5'')] fresh_headers = Some h \<and>
    hd_portionality h = ByContentLength \<and> hd_contentLength h = 5"
proof -
  have k: "to_key ''Content-Length'' = Some Content_Length" "to_key ''Transfer-Encoding'' = Some Transfer_Encoding"
    by (simp_all add: to_key_def header_names_def same_key_def to_lower_def key_of_def)
  have p: "list_parts ''Chunked'' = [''Chunked'']" by code_simp
  show ?thesis
    by (simp add: header_line_def regular_line_def regular_header_def bad_key_char_def signed_char_def rtrim_def isspace_def k p
        fresh_headers_def recognized_header_def portionality_free_def from_chars_def is_digit_def digit_value_def Let_def
        sample_settings_def transfer_part_def)
qed

text \<open>C24. When the transfer encoding is taken from the headers, a message whose header lines are accepted has at most
one line that frames its body in the slicer's own reading: a \<open>Content-Length\<close> line, or the coding spelled
exactly \<open>chunked\<close> in a \<open>Transfer-Encoding\<close> line. (Other spellings of that coding are not counted, see the lemma
\<open>chunked_spelling\<close>, so this does not say that other readers frame the message in the same way.)\<close>

theorem one_framing:
  assumes "st_transferEncoding st = EncodingByHeaders" "accept_lines st kvs fresh_headers = Some h"
  shows "sum_list (List.map framings kvs) \<le> 1"
proof -
  have "framed h \<le> 1" by (simp add: framed_def)
  then show ?thesis using lines_framed [OF assms(2,1)] by simp
qed

theorem one_framing_witness:
  "\<exists>h. accept_lines sample_settings [(''Content-Length'', ''12'')] fresh_headers = Some h \<and>
    sum_list (List.map framings [(''Content-Length'', ''12'')]) \<le> 1"
proof -
  have "to_key ''Content-Length'' = Some Content_Length"
    by (simp add: to_key_def header_names_def same_key_def to_lower_def key_of_def)
  then have "\<exists>h. accept_lines sample_settings [(''Content-Length'', ''12'')] fresh_headers = Some h"
    by (simp add: header_line_def regular_line_def regular_header_def bad_key_char_def signed_char_def rtrim_def isspace_def
        fresh_headers_def recognized_header_def portionality_free_def from_chars_def is_digit_def digit_value_def Let_def)
  then show ?thesis using one_framing [of sample_settings "[(''Content-Length'', ''12'')]"] by (auto simp: sample_settings_def)
qed

subsection \<open>Continued values\<close>

text \<open>When all input at hand has been read behind a header whose value may be continued, the headers are passed on
except one, which is kept for its continuation. The one kept is the first and not the last: a continuation that
comes with the next packet is appended to the value of another header, and the header it belongs to has been passed
on without it.\<close>

theorem continuation_misplaced:
  assumes "hd_allowLastValueContinue h" "hd_tail h = (k1, v1) # mid @ [(k2, v2)]" "length v1 + 1 + length (trim value) \<le> 8192"
    and "detachSome h = (given, h1)" "header_line st (h1\<lparr>hd_kind := ValueContinue, hd_value := value\<rparr>) = (r, h2)"
  shows "r = NeedMore \<and> given = mid @ [(k2, v2)] \<and> hd_tail h2 = [(k1, v1 @ '' '' @ trim value)]"
proof -
  have d: "given = mid @ [(k2, v2)]" "h1 = h\<lparr>hd_tail := [(k1, v1)]\<rparr>"
    using assms(1,2,4) by (auto simp: detachSome_def split: if_splits)
  show ?thesis using assms(1,3,5) d by (auto simp: header_line_def continue_value_def split: if_splits)
qed

definition sample_headers :: headers_state where
  "sample_headers = fresh_headers\<lparr>hd_allowLastValueContinue := True,
     hd_tail := [(KeyAny ''A'', ''1''), (KeyAny ''B'', ''2'')]\<rparr>"

theorem continuation_misplaced_witness:
  "\<exists>h1 h2. detachSome sample_headers = ([(KeyAny ''B'', ''2'')], h1) \<and>
     header_line sample_settings (h1\<lparr>hd_kind := ValueContinue, hd_value := ''x''\<rparr>) = (NeedMore, h2) \<and>
     hd_tail h2 = [(KeyAny ''A'', ''1'' @ '' '' @ trim ''x'')]"
proof -
  obtain given h1 where d: "detachSome sample_headers = (given, h1)" by fastforce
  obtain r h2 where l: "header_line sample_settings (h1\<lparr>hd_kind := ValueContinue, hd_value := ''x''\<rparr>) = (r, h2)" by fastforce
  have "r = NeedMore \<and> given = [] @ [(KeyAny ''B'', ''2'')] \<and> hd_tail h2 = [(KeyAny ''A'', ''1'' @ '' '' @ trim ''x'')]"
    by (rule continuation_misplaced [OF _ _ _ d l]) (simp_all add: sample_headers_def trim_def ltrim_def rtrim_def isspace_def)
  then show ?thesis using d l by simp
qed

end
