(* ===== verification/HttpPlexus.thy ===== *)
theory HttpPlexus
  imports HttpOutput
begin

section \<open>The outputs of a connection\<close>

text \<open>
  Models \<open>source/module/www/src/io/plexus.ipp\<close> and \<open>io/outputBase.ipp\<close>: a connection holds the
  outgoing messages in the order in which they were asked for; only the first of them may write to
  the stream. An output is known by a number, which stands for its address: it is not given to
  another one. The stream itself is what has been sent; that it may close the connection from
  within a write is not modelled. The specification (\<open>spec_stream\<close>) knows for each message only what
  has been written to it and whether it is done.
\<close>

subsection \<open>State and operations\<close>

record 'z plexus =
  px_outputs :: "(nat \<times> 'z outgoing) list"
  px_next :: nat
  px_sent :: string
  px_stopped :: bool
  px_response :: "nat option"

definition new_plexus :: "'z plexus" where
  "new_plexus = \<lparr>px_outputs = [], px_next = 0, px_sent = [], px_stopped = False, px_response = None\<rparr>"

definition isDone :: "'z outgoing \<Rightarrow> bool" where
  "isDone out \<longleftrightarrow> ou_apiDone out \<and> ou_writeAllowed out \<and> ou_buffer out = []"

definition change :: "nat \<Rightarrow> ('z outgoing \<Rightarrow> 'z outgoing) \<Rightarrow> 'z plexus \<Rightarrow> 'z plexus" where
  "change i f px = px\<lparr>px_outputs := List.map (\<lambda>(j, out). (j, if j = i then f out else out)) (px_outputs px)\<rparr>"

definition close_plexus :: "'z plexus \<Rightarrow> 'z plexus" where
  "close_plexus px = px\<lparr>px_outputs := [], px_stopped := True\<rparr>"

definition emptied :: "'z outgoing \<Rightarrow> 'z outgoing" where
  "emptied out = out\<lparr>ou_buffer := [], ou_someWrote := True\<rparr>"

text \<open>The writing of \<open>flushBuffer\<close>; the first result says that the connection is to be told that the output is done.\<close>

definition write_out :: "nat \<Rightarrow> 'z plexus \<Rightarrow> bool \<times> 'z plexus" where
  "write_out i px =
     (case map_of (px_outputs px) i of
        None \<Rightarrow> (False, px)
      | Some out \<Rightarrow>
          if ou_writeAllowed out \<and> ou_buffer out \<noteq> [] then
            (\<not> px_stopped px \<and> ou_apiDone out,
             (change i emptied px)\<lparr>px_sent := px_sent px @ ou_buffer out\<rparr>)
          else (False, px))"

definition allow :: "nat \<Rightarrow> 'z plexus \<Rightarrow> 'z plexus" where
  "allow i px = change i (\<lambda>out. out\<lparr>ou_writeAllowed := True\<rparr>) px"

text \<open>\<open>Plexus::done\<close>, with \<open>allowWrite\<close> and \<open>flushBuffer\<close> of the first output, which come back to it.\<close>

function plexus_done :: "'z plexus \<Rightarrow> 'z plexus" where
  "plexus_done px =
     (case px_outputs px of
        [] \<Rightarrow> px
      | (i, out) # outs \<Rightarrow>
          (let (d, px1) = write_out i (allow i px);
               px2 = (if d then plexus_done px1 else px1)
           in case px_outputs px2 of
                [] \<Rightarrow> px2
              | (j, front) # rest \<Rightarrow>
                  if \<not> isDone front then px2
                  else if ou_fail front then close_plexus px2
                  else plexus_done (px2\<lparr>px_outputs := rest\<rparr>)))"
  by pat_completeness auto

definition weight :: "'z outgoing \<Rightarrow> nat" where
  "weight out = (if ou_buffer out = [] then 1 else 2)"

definition load :: "'z plexus \<Rightarrow> nat" where
  "load px = sum_list (List.map (weight \<circ> snd) (px_outputs px))"

lemma load_allow: "load (allow i px) = load px"
proof -
  have "(if ou_buffer (snd x) = [] then 1 else 2) = weight (snd x)" for x :: "nat \<times> 'a outgoing" by (simp add: weight_def)
  then show ?thesis by (simp add: load_def allow_def change_def comp_def case_prod_unfold if_distrib weight_def cong: if_cong)
qed

lemma weight_emptied: "weight (emptied out) \<le> weight out" "ou_buffer out \<noteq> [] \<Longrightarrow> weight (emptied out) < weight out"
  by (simp_all add: weight_def emptied_def)

lemma load_change_less:
  fixes outs :: "(nat \<times> 'z outgoing) list"
  assumes "map_of outs i = Some out" "ou_buffer out \<noteq> []"
  shows "sum_list (List.map (weight \<circ> snd) (List.map (\<lambda>(j, out). (j, if j = i then emptied out else out)) outs)) <
    sum_list (List.map (weight \<circ> snd) outs)"
  using assms
proof (induction outs)
  case (Cons x outs)
  have le: "sum_list (List.map (weight \<circ> snd) (List.map (\<lambda>(j, out). (j, if j = i then emptied out else out)) outs)) \<le>
      sum_list (List.map (weight \<circ> snd) outs)" for outs :: "(nat \<times> 'z outgoing) list"
  proof (induction outs)
    case (Cons y outs)
    obtain j out where "y = (j, out)" by (cases y)
    with Cons weight_emptied(1) [of out] show ?case by simp
  qed simp
  show ?case
  proof (cases "fst x = i")
    case True
    then have "x = (i, out)" using Cons.prems(1) by (cases x) (auto split: if_splits)
    then show ?thesis using add_less_le_mono [OF weight_emptied(2) [OF Cons.prems(2)] le [of outs]]
      by (simp add: comp_def case_prod_unfold)
  next
    case False
    then show ?thesis using Cons by (cases x) (auto split: if_splits)
  qed
qed simp

lemma load_write_out:
  assumes "write_out i px = (d, px1)"
  shows "load px1 \<le> load px" "d \<Longrightarrow> load px1 < load px"
proof -
  have "px1 = px \<and> \<not> d \<or> load px1 < load px"
    using assms load_change_less [of "px_outputs px" i]
    by (auto simp: write_out_def load_def change_def split: option.splits if_splits)
  then show "load px1 \<le> load px" "d \<Longrightarrow> load px1 < load px" by auto
qed

lemma load_done: "plexus_done_dom px \<Longrightarrow> load (plexus_done px) \<le> load px"
proof (induction px rule: plexus_done.pinduct)
  case (1 px)
  show ?case
  proof (cases "px_outputs px")
    case Nil
    then show ?thesis by (subst plexus_done.psimps [OF "1.hyps"]) simp
  next
    case (Cons x outs)
    obtain i out where x: "x = (i, out)" by (cases x)
    obtain d px1 where w: "write_out i (allow i px) = (d, px1)" by (cases "write_out i (allow i px)")
    have l1: "load px1 \<le> load px" using load_write_out(1) [OF w] by (simp add: load_allow)
    define px2 where "px2 = (if d then plexus_done px1 else px1)"
    have l2: "load px2 \<le> load px"
      using "1.IH"(1) [OF Cons x [symmetric] refl w [symmetric]] l1 unfolding px2_def by (cases d) simp_all
    have run: "plexus_done px = (case px_outputs px2 of [] \<Rightarrow> px2 | (j, front) # rest \<Rightarrow>
        if \<not> isDone front then px2 else if ou_fail front then close_plexus px2 else plexus_done (px2\<lparr>px_outputs := rest\<rparr>))"
      unfolding px2_def by (subst plexus_done.psimps [OF "1.hyps"]) (simp add: Cons x w Let_def)
    show ?thesis
    proof (cases "px_outputs px2")
      case Nil
      then show ?thesis using run l2 by simp
    next
      case front: (Cons y rest)
      obtain j fr where y: "y = (j, fr)" by (cases y)
      have l3: "load (px2\<lparr>px_outputs := rest\<rparr>) \<le> load px2" "load (close_plexus px2) \<le> load px2"
        using front y by (simp_all add: load_def close_plexus_def)
      have "load (plexus_done (px2\<lparr>px_outputs := rest\<rparr>)) \<le> load (px2\<lparr>px_outputs := rest\<rparr>)" if "isDone fr" "\<not> ou_fail fr"
        using "1.IH"(2) [OF Cons x [symmetric] refl w [symmetric] px2_def front y [symmetric]] that by simp
      then show ?thesis using run front y l2 l3 by auto
    qed
  qed
qed

termination plexus_done
proof (relation "measure load")
  show "wf (measure load)" by simp
next
  fix px :: "'a plexus" and x outs i out w d px1
  assume "px_outputs px = x # outs" "(i, out) = x" "w = write_out i (allow i px)" "(d, px1) = w" d
  then show "(px1, px) \<in> measure load" using load_write_out(2) [of i "allow i px" d px1] by (simp add: load_allow)
next
  fix px :: "'a plexus" and x outs i out w d px1 px2 y rest j front
  assume a: "px_outputs px = x # outs" "(i, out) = x" "w = write_out i (allow i px)" "(d, px1) = w"
    "px2 = (if d then plexus_done px1 else px1)" "px_outputs px2 = y # rest" "(j, front) = y"
    and dom: "d \<Longrightarrow> plexus_done_dom px1"
  have "load px1 \<le> load px" using load_write_out(1) [of i "allow i px" d px1] a by (simp add: load_allow)
  then have "load px2 \<le> load px" using load_done [of px1] dom a(5) by (auto split: if_splits)
  moreover have "load (px2\<lparr>px_outputs := rest\<rparr>) < load px2" using a(6,7) by (auto simp: load_def weight_def)
  ultimately show "(px2\<lparr>px_outputs := rest\<rparr>, px) \<in> measure load" by simp
qed

declare plexus_done.simps [simp del]

definition flushBuffer :: "nat \<Rightarrow> 'z plexus \<Rightarrow> 'z plexus" where
  "flushBuffer i px = (let (d, px1) = write_out i px in if d then plexus_done px1 else px1)"

definition allowWrite :: "nat \<Rightarrow> 'z plexus \<Rightarrow> 'z plexus" where
  "allowWrite i px = flushBuffer i (allow i px)"

definition apiDone :: "nat \<Rightarrow> 'z plexus \<Rightarrow> 'z plexus" where
  "apiDone i px =
     (case map_of (px_outputs px) i of
        None \<Rightarrow> px
      | Some out \<Rightarrow>
          if ou_apiDone out then px
          else let px1 = change i (\<lambda>out. out\<lparr>ou_apiDone := True\<rparr>) px
               in if isDone (out\<lparr>ou_apiDone := True\<rparr>) then plexus_done px1 else px1)"

text \<open>\<open>emplace\<close> of the server: the request that has just begun is given the first of the outputs.\<close>

definition emplace :: "'z plexus \<Rightarrow> 'z plexus" where
  "emplace px =
     (let px1 = px\<lparr>px_outputs := px_outputs px @ [(px_next px, fresh_outgoing)], px_next := px_next px + 1\<rparr>;
          px2 = allowWrite (fst (hd (px_outputs px1))) px1
      in px2\<lparr>px_response := (case px_outputs px2 of [] \<Rightarrow> None | (i, out) # outs \<Rightarrow> Some i)\<rparr>)"

subsection \<open>Calls of the API\<close>

datatype output_call =
    CallSetup compression compression encoding
  | CallRequestLine "http_method option" string "http_version option"
  | CallStatusLine "http_version option" u16 string
  | CallHeaders "(out_key \<times> string) list" bool
  | CallData string bool
  | CallDone

fun handle_call :: "'z coder \<Rightarrow> output_call \<Rightarrow> 'z outgoing \<Rightarrow> aftermath \<times> 'z outgoing" where
  "handle_call co (CallSetup cc tc te) out = (Quiet, setupDataProcessing cc tc te out)"
| "handle_call co (CallRequestLine m path v) out = request_first_line m path v out"
| "handle_call co (CallStatusLine v code text) out = response_first_line v code text out"
| "handle_call co (CallHeaders hs done) out = out_headers co hs done out"
| "handle_call co (CallData data done) out = out_data co data done out"
| "handle_call co CallDone out = (Quiet, out\<lparr>ou_apiDone := True\<rparr>)"

definition px_call :: "'z coder \<Rightarrow> nat \<Rightarrow> output_call \<Rightarrow> 'z plexus \<Rightarrow> 'z plexus" where
  "px_call co i c px =
     (case map_of (px_outputs px) i of
        None \<Rightarrow> px
      | Some out \<Rightarrow>
          if c = CallDone then apiDone i (flushBuffer i px)
          else
            let (a, out1) = handle_call co c out; px1 = change i (\<lambda>_. out1) px
            in case a of Quiet \<Rightarrow> px1 | Flush \<Rightarrow> flushBuffer i px1 | Fail e \<Rightarrow> close_plexus px1)"

subsection \<open>A bad request\<close>

fun error_text :: "slice_result \<Rightarrow> string" where
  "error_text BadMethod = ''HTTP/1.1 405 Method Not Allowed'' @ crlf @ ''Connection: close'' @ crlf @ crlf"
| "error_text BadVersion = ''HTTP/1.1 505 HTTP Version Not Supported'' @ crlf @ ''Connection: close'' @ crlf @ crlf"
| "error_text TooBigContent = ''HTTP/1.1 413 Content Too Large'' @ crlf @ ''Connection: close'' @ crlf @ crlf"
| "error_text TooBigUri = ''HTTP/1.1 414 URI Too Long'' @ crlf @ ''Connection: close'' @ crlf @ crlf"
| "error_text TooBigHeaders = ''HTTP/1.1 431 Request Header Fields Too Large'' @ crlf @ ''Connection: close'' @ crlf @ crlf"
| "error_text UnprocessableContent = ''HTTP/1.1 422 Unprocessable Content'' @ crlf @ ''Connection: close'' @ crlf @ crlf"
| "error_text r = ''HTTP/1.1 400 Bad Request'' @ crlf @ ''Connection: close'' @ crlf @ crlf"

text \<open>\<open>Response::requestFailed\<close> through the pointer of the request; no value when it points nowhere.\<close>

definition requestFailed :: "slice_result \<Rightarrow> 'z plexus \<Rightarrow> 'z plexus option" where
  "requestFailed r px =
     (case px_response px of
        None \<Rightarrow> None
      | Some i \<Rightarrow>
          (case map_of (px_outputs px) i of
             None \<Rightarrow> None
           | Some out \<Rightarrow>
               Some (if ou_someWrote out then px
                     else flushBuffer i (change i (\<lambda>out. out\<lparr>ou_buffer := error_text r\<rparr>) px))))"

text \<open>What \<open>Request::process\<close> makes of the slicer's result.\<close>

definition request_result :: "slice_result \<Rightarrow> 'z plexus \<Rightarrow> 'z plexus option" where
  "request_result r px =
     (case r of
        NeedMore \<Rightarrow> Some px
      | Done \<Rightarrow> Some (px\<lparr>px_response := None\<rparr>)
      | _ \<Rightarrow> map_option close_plexus (requestFailed r px))"

subsection \<open>Specification\<close>

text \<open>The messages in the order in which they were asked for, each with all that was written to it.\<close>

fun spec_stream :: "'z outgoing list \<Rightarrow> string" where
  "spec_stream [] = []"
| "spec_stream (out # outs) = ou_buffer out @ (if ou_apiDone out then spec_stream outs else [])"

text \<open>A message is over when it and all before it are done: it takes no more calls.\<close>

definition spec_call :: "'z coder \<Rightarrow> nat \<Rightarrow> output_call \<Rightarrow> 'z outgoing list \<Rightarrow> 'z outgoing list" where
  "spec_call co i c sp =
     (if i < length sp \<and> \<not> list_all ou_apiDone (take (i + 1) sp) then sp[i := snd (handle_call co c (sp ! i))] else sp)"

datatype px_event = Emplace | Call nat output_call

fun px_run :: "'z coder \<Rightarrow> px_event list \<Rightarrow> 'z plexus \<Rightarrow> 'z plexus" where
  "px_run co [] px = px"
| "px_run co (Emplace # es) px = px_run co es (emplace px)"
| "px_run co (Call i c # es) px = px_run co es (px_call co i c px)"

fun spec_run :: "'z coder \<Rightarrow> px_event list \<Rightarrow> 'z outgoing list \<Rightarrow> 'z outgoing list" where
  "spec_run co [] sp = sp"
| "spec_run co (Emplace # es) sp = spec_run co es (sp @ [fresh_outgoing])"
| "spec_run co (Call i c # es) sp = spec_run co es (spec_call co i c sp)"

end
