(* ===== verification/HttpPipeline.thy ===== *)
theory HttpPipeline
  imports HttpPlexus
begin

section \<open>Messages leave in order\<close>

text \<open>
  The outputs of a connection (\<open>HttpPlexus\<close>) against their specification: what has been sent, with
  what the first output still holds, is the text of the messages in the order in which they were
  asked for, up to the first that is not done (\<open>simulates\<close>). Handlers only append to the buffer
  and do not look at it (\<open>handle_shift\<close>). Then, what the pointer from a request to its response does.
\<close>

subsection \<open>Handlers and the buffer\<close>

definition shift :: "string \<Rightarrow> bool \<Rightarrow> bool \<Rightarrow> 'z outgoing \<Rightarrow> 'z outgoing" where
  "shift w y x out = out\<lparr>ou_buffer := w @ ou_buffer out, ou_writeAllowed := y, ou_someWrote := x\<rparr>"

lemma shift_simps [simp]:
  "ou_buffer (shift w y x out) = w @ ou_buffer out" "ou_writeAllowed (shift w y x out) = y" "ou_someWrote (shift w y x out) = x"
  "ou_apiDone (shift w y x out) = ou_apiDone out" "ou_fail (shift w y x out) = ou_fail out"
  "ou_codec (shift w y x out) = ou_codec out" "ou_chunked (shift w y x out) = ou_chunked out"
  "ou_contentCompression (shift w y x out) = ou_contentCompression out"
  "ou_transferCompression (shift w y x out) = ou_transferCompression out"
  "ou_transferEncoding (shift w y x out) = ou_transferEncoding out"
  "ou_processedSource (shift w y x out) = ou_processedSource out"
  by (simp_all add: shift_def)

lemma put_shift [simp]: "put s (shift w y x out) = shift w y x (put s out)"
  by (simp add: put_def shift_def)

lemma upd_shift [simp]:
  "(shift w y x out)\<lparr>ou_codec := z\<rparr> = shift w y x (out\<lparr>ou_codec := z\<rparr>)"
  "(shift w y x out)\<lparr>ou_chunked := b\<rparr> = shift w y x (out\<lparr>ou_chunked := b\<rparr>)"
  "(shift w y x out)\<lparr>ou_apiDone := b\<rparr> = shift w y x (out\<lparr>ou_apiDone := b\<rparr>)"
  "(shift w y x out)\<lparr>ou_processedSource := n\<rparr> = shift w y x (out\<lparr>ou_processedSource := n\<rparr>)"
  by (simp_all add: shift_def)

lemma setup_shift: "setupDataProcessing cc tc te (shift w y x out) = shift w y x (setupDataProcessing cc tc te out)"
  by (simp add: setupDataProcessing_def shift_def)

lemma initialize_shift: "compressor_initialize co c (shift w y x out) = map_prod id (shift w y x) (compressor_initialize co c out)"
  by (cases c) (auto simp: compressor_initialize_def Let_def split: prod.splits)

lemma settings_shift: "compressionBySettings co c (shift w y x out) = map_prod id (shift w y x) (compressionBySettings co c out)"
  by (simp add: compressionBySettings_def initialize_shift)

lemma parts_shift:
  "compression_parts co ps (bad, err, shift w y x out) =
    (case compression_parts co ps (bad, err, out) of (bad1, err1, out1) \<Rightarrow> (bad1, err1, shift w y x out1))"
proof (induction ps arbitrary: bad err out)
  case (Cons p ps)
  then show ?case by (auto simp: initialize_shift Let_def split: option.splits prod.splits)
qed simp

lemma recognized_shift: "recognized_out co k v (shift w y x out) = map_prod id (shift w y x) (recognized_out co k v out)"
  by (auto simp: recognized_out_def Let_def parts_shift split: prod.splits option.splits)

lemma lines_shift: "header_lines co hs (shift w y x out) = map_prod id (shift w y x) (header_lines co hs out)"
proof (induction co hs out rule: header_lines.induct)
  case (2 co key v hs out)
  show ?case
  proof (cases key)
    case (OutRecognized k)
    then show ?thesis
      using 2 by (cases "recognized_out co k v out") (simp add: recognized_shift Let_def)
  next
    case (OutAny s)
    then show ?thesis using 2 by (simp add: Let_def)
  qed
qed simp

lemma headers_shift: "out_headers co hs done (shift w y x out) = map_prod id (shift w y x) (out_headers co hs done out)"
proof -
  obtain ok1 o1 where 1: "compressionBySettings co (ou_contentCompression out) out = (ok1, o1)" by fastforce
  obtain ok2 o2 where 2: "compressionBySettings co (ou_transferCompression o1) o1 = (ok2, o2)" by fastforce
  define o3 where "o3 = (if ou_transferEncoding o2 = EncodingChunked then o2\<lparr>ou_chunked := True\<rparr> else o2)"
  obtain e o4 where 4: "header_lines co hs o3 = (e, o4)" by fastforce
  show ?thesis
    by (cases "ou_transferEncoding o2 = EncodingChunked"; cases e; cases ok1; cases ok2)
       (use 4 in \<open>simp_all add: out_headers_def settings_shift 1 2 Let_def lines_shift o3_def\<close>)
qed

lemma chunked_shift: "processChunked done data (shift w y x out) = shift w y x (processChunked done data out)"
  by (simp add: processChunked_def Let_def)

lemma data_shift: "out_data co data done (shift w y x out) = map_prod id (shift w y x) (out_data co data done out)"
  by (auto simp: out_data_def compressor_exec_def Let_def chunked_shift split: option.splits)

lemma handle_shift: "handle_call co c (shift w y x out) = map_prod id (shift w y x) (handle_call co c out)"
  by (cases c)
     (auto simp: setup_shift request_first_line_def response_first_line_def headers_shift data_shift Let_def split: option.splits)

text \<open>The flags are not touched by a handler.\<close>

definition flags :: "'z outgoing \<Rightarrow> bool \<times> bool \<times> bool \<times> bool" where
  "flags out = (ou_writeAllowed out, ou_apiDone out, ou_fail out, ou_someWrote out)"

lemma flags_simps [simp]:
  "flags (put s out) = flags out" "flags (out\<lparr>ou_codec := z\<rparr>) = flags out" "flags (out\<lparr>ou_chunked := b\<rparr>) = flags out"
  "flags (out\<lparr>ou_processedSource := n\<rparr>) = flags out" "flags (setupDataProcessing cc tc te out) = flags out"
  "flags (processChunked done data out) = flags out"
  by (simp_all add: flags_def put_def setupDataProcessing_def processChunked_def Let_def)

lemma initialize_flags: "flags (snd (compressor_initialize co c out)) = flags out"
  by (cases c) (auto simp: compressor_initialize_def Let_def split: prod.splits)

lemma settings_flags: "flags (snd (compressionBySettings co c out)) = flags out"
  by (simp add: compressionBySettings_def initialize_flags)

lemma parts_flags: "flags (snd (snd (compression_parts co ps (bad, err, out)))) = flags out"
proof (induction ps arbitrary: bad err out)
  case (Cons p ps)
  then show ?case using initialize_flags [of co _ out] by (auto simp: Let_def split: option.splits prod.splits) (metis snd_conv)
qed simp

lemma recognized_flags: "flags (snd (recognized_out co k v out)) = flags out"
  using parts_flags [of co "split_parts '', '' v" False False out]
  by (auto simp: recognized_out_def Let_def split: prod.splits option.splits)

lemma lines_flags: "flags (snd (header_lines co hs out)) = flags out"
proof (induction co hs out rule: header_lines.induct)
  case (2 co key v hs out)
  show ?case
  proof (cases key)
    case (OutRecognized k)
    then show ?thesis
      using 2 recognized_flags [of co k v out] by (cases "recognized_out co k v out") (auto simp: Let_def)
  next
    case (OutAny s)
    then show ?thesis using 2 by (simp add: Let_def)
  qed
qed simp

lemma headers_flags: "flags (snd (out_headers co hs done out)) = flags out"
proof -
  obtain ok1 o1 where 1: "compressionBySettings co (ou_contentCompression out) out = (ok1, o1)" by fastforce
  obtain ok2 o2 where 2: "compressionBySettings co (ou_transferCompression o1) o1 = (ok2, o2)" by fastforce
  define o3 where "o3 = (if ou_transferEncoding o2 = EncodingChunked then o2\<lparr>ou_chunked := True\<rparr> else o2)"
  obtain e o4 where 4: "header_lines co hs o3 = (e, o4)" by fastforce
  have "flags o4 = flags o3" using lines_flags [of co hs o3] by (simp add: 4)
  moreover have "flags o1 = flags out" "flags o2 = flags o1" "flags o3 = flags o2"
    using settings_flags [of co "ou_contentCompression out" out] settings_flags [of co "ou_transferCompression o1" o1]
    by (simp_all add: 1 2 o3_def)
  ultimately show ?thesis using 4 by (auto simp: out_headers_def 1 2 Let_def o3_def [symmetric] split: option.splits prod.splits)
qed

lemma handle_flags: "c \<noteq> CallDone \<Longrightarrow> flags (snd (handle_call co c out)) = flags out"
  by (cases c)
     (auto simp: headers_flags request_first_line_def response_first_line_def out_data_def compressor_exec_def Let_def
       split: option.splits)

subsection \<open>The outputs behind the first\<close>

definition idle :: "'z outgoing \<Rightarrow> bool" where
  "idle out \<longleftrightarrow> \<not> ou_fail out \<and> \<not> ou_writeAllowed out \<and> \<not> ou_someWrote out"

lemma idle_shift: "idle out \<Longrightarrow> shift [] False False (shift w y x out) = out\<lparr>ou_buffer := w @ ou_buffer out\<rparr>"
  by (simp add: idle_def shift_def)

lemma map_of_enumerate:
  "map_of (List.enumerate n xs) i = (if n \<le> i \<and> i < n + length xs then Some (xs ! (i - n)) else None)"
proof (induction xs arbitrary: n)
  case (Cons x xs)
  then show ?case by (auto simp: nth_Cons' not_less_eq_eq)
qed simp

lemma change_enumerate:
  "List.map (\<lambda>(j, out). (j, if j = i then f out else out)) (List.enumerate n xs) =
    List.enumerate n (if n \<le> i \<and> i < n + length xs then xs[i - n := f (xs ! (i - n))] else xs)"
  by (rule nth_equalityI) (auto simp: nth_enumerate_eq nth_list_update split: if_splits)

text \<open>\<open>plexus_done\<close>: the first outputs that are done leave, and the next one may write.\<close>

definition first_out :: "'z outgoing \<Rightarrow> 'z outgoing" where
  "first_out out = (if ou_buffer out = [] then out\<lparr>ou_writeAllowed := True\<rparr> else emptied (out\<lparr>ou_writeAllowed := True\<rparr>))"

fun settle :: "(nat \<times> 'z outgoing) list \<Rightarrow> string \<times> (nat \<times> 'z outgoing) list" where
  "settle [] = ([], [])"
| "settle ((i, out) # outs) =
     (if ou_apiDone out then (let (s, rest) = settle outs in (ou_buffer out @ s, rest))
      else (ou_buffer out, (i, first_out out) # outs))"

lemma settle_front: "snd (settle outs) = (j, fr) # rest \<Longrightarrow> \<not> ou_apiDone fr"
  by (induction outs rule: settle.induct) (auto simp: Let_def first_out_def emptied_def split: if_splits prod.splits)

lemma write_first:
  assumes "px_outputs px = (i, out) # outs" "i \<notin> fst ` set outs" "\<not> px_stopped px"
  shows "write_out i (allow i px) =
    (ou_buffer out \<noteq> [] \<and> ou_apiDone out,
     px\<lparr>px_outputs := (i, first_out out) # outs, px_sent := px_sent px @ ou_buffer out\<rparr>)"
proof -
  have same: "List.map (\<lambda>(j, out). (j, if j = i then f out else out)) outs = outs" for f
    using assms(2) by (intro map_idI) (auto simp: image_iff)
  show ?thesis using assms same
    by (simp add: write_out_def allow_def change_def first_out_def emptied_def)
qed

lemma plexus_done_settle:
  assumes "\<not> px_stopped px" "\<forall>(i, out) \<in> set (px_outputs px). \<not> ou_fail out" "distinct (List.map fst (px_outputs px))"
  shows "plexus_done px = px\<lparr>px_outputs := snd (settle (px_outputs px)), px_sent := px_sent px @ fst (settle (px_outputs px))\<rparr>"
  using assms
proof (induction "load px" arbitrary: px rule: less_induct)
  case less
  show ?case
  proof (cases "px_outputs px")
    case Nil
    then show ?thesis by (subst plexus_done.simps) simp
  next
    case (Cons x outs)
    obtain i out where x: "x = (i, out)" by (cases x)
    define px1 where "px1 = px\<lparr>px_outputs := (i, first_out out) # outs, px_sent := px_sent px @ ou_buffer out\<rparr>"
    have w: "write_out i (allow i px) = (ou_buffer out \<noteq> [] \<and> ou_apiDone out, px1)"
      unfolding px1_def by (rule write_first) (use less.prems Cons x in \<open>auto simp: image_iff\<close>)
    have f: "ou_apiDone (first_out out) = ou_apiDone out" "ou_fail (first_out out) = ou_fail out"
      "ou_buffer (first_out out) = []" "ou_writeAllowed (first_out out)"
      by (simp_all add: first_out_def emptied_def)
    have nofail: "\<not> ou_fail out" using less.prems(2) Cons x by simp
    define pop where "pop = px\<lparr>px_outputs := outs, px_sent := px_sent px @ ou_buffer out\<rparr>"
    have popped: "plexus_done pop = pop\<lparr>px_outputs := snd (settle outs), px_sent := px_sent pop @ fst (settle outs)\<rparr>"
    proof -
      have "load pop < load px" using Cons x by (simp add: pop_def load_def weight_def)
      from less.hyps [OF this] show ?thesis using less.prems Cons x by (simp add: pop_def)
    qed
    consider (quiet) "\<not> ou_apiDone out" | (pop) "ou_apiDone out" "ou_buffer out = []" | (again) "ou_apiDone out" "ou_buffer out \<noteq> []"
      by blast
    then show ?thesis
    proof cases
      case quiet
      then show ?thesis using f
        by (subst plexus_done.simps) (simp add: Cons x w Let_def px1_def isDone_def)
    next
      case pop
      have "px1\<lparr>px_outputs := outs\<rparr> = pop" by (simp add: px1_def pop_def)
      then show ?thesis using pop popped f nofail
        by (subst plexus_done.simps) (simp add: Cons x w Let_def px1_def isDone_def pop_def split: prod.splits)
    next
      case again
      have "load px1 < load px" using again f Cons x by (simp add: px1_def load_def weight_def)
      from less.hyps [OF this]
      have d: "plexus_done px1 = px1\<lparr>px_outputs := snd (settle outs), px_sent := px_sent px1 @ fst (settle outs)\<rparr>"
        using less.prems Cons x f again by (simp add: px1_def Let_def split: prod.splits)
      show ?thesis
      proof (cases "snd (settle outs)")
        case Nil
        then show ?thesis using again d
          by (subst plexus_done.simps) (auto simp: Cons x w Let_def px1_def split: prod.splits)
      next
        case front: (Cons y rest)
        obtain j fr where y: "y = (j, fr)" by (cases y)
        have "\<not> isDone fr" using settle_front [of outs j fr rest] front y by (simp add: isDone_def)
        then show ?thesis using again d front y
          by (subst plexus_done.simps) (auto simp: Cons x w Let_def px1_def split: prod.splits)
      qed
    qed
  qed
qed

lemma settle_idle:
  assumes "\<forall>out \<in> set os. idle out"
  shows "\<exists>fin rest. os = fin @ rest \<and> list_all ou_apiDone fin \<and>
    (case rest of
       [] \<Rightarrow> settle (List.enumerate n os) = (concat (List.map ou_buffer fin), [])
     | out # outs \<Rightarrow> \<not> ou_apiDone out \<and>
         settle (List.enumerate n os) = (concat (List.map ou_buffer fin) @ ou_buffer out,
           (n + length fin, first_out out) # List.enumerate (Suc (n + length fin)) outs))"
  using assms
proof (induction os arbitrary: n)
  case (Cons out os)
  show ?case
  proof (cases "ou_apiDone out")
    case True
    obtain fin rest where f: "os = fin @ rest" "list_all ou_apiDone fin"
      "case rest of
         [] \<Rightarrow> settle (List.enumerate (Suc n) os) = (concat (List.map ou_buffer fin), [])
       | out # outs \<Rightarrow> \<not> ou_apiDone out \<and>
           settle (List.enumerate (Suc n) os) = (concat (List.map ou_buffer fin) @ ou_buffer out,
             (Suc n + length fin, first_out out) # List.enumerate (Suc (Suc n + length fin)) outs)"
      using Cons.IH [of "Suc n"] Cons.prems by auto
    then show ?thesis using True
      by (intro exI [of _ "out # fin"] exI [of _ rest]) (auto split: list.splits)
  next
    case False
    then show ?thesis by (intro exI [of _ "[]"] exI [of _ "out # os"]) simp
  qed
qed simp

lemma first_out_idle: "idle out \<Longrightarrow> out = shift (ou_buffer out) False False (first_out out)"
  by (cases out) (simp add: first_out_def shift_def idle_def emptied_def)

subsection \<open>Simulation\<close>

definition simulates :: "'z plexus \<Rightarrow> 'z outgoing list \<Rightarrow> bool" where
  "simulates px sp \<longleftrightarrow>
     \<not> px_stopped px \<and> px_next px = length sp \<and> (\<forall>out \<in> set sp. idle out) \<and>
     (\<exists>fin rest. sp = fin @ rest \<and> list_all ou_apiDone fin \<and>
        (case rest of
           [] \<Rightarrow> px_outputs px = [] \<and> px_sent px = concat (List.map ou_buffer fin)
         | spec # specs \<Rightarrow> \<not> ou_apiDone spec \<and>
             (\<exists>w out. spec = shift w False False out \<and> ou_writeAllowed out \<and>
                px_outputs px = (length fin, out) # List.enumerate (Suc (length fin)) specs \<and>
                px_sent px = concat (List.map ou_buffer fin) @ w)))"

lemma spec_stream_done: "list_all ou_apiDone fin \<Longrightarrow> spec_stream (fin @ rest) = concat (List.map ou_buffer fin) @ spec_stream rest"
  by (induction fin) auto

definition held_text :: "'z plexus \<Rightarrow> string" where
  "held_text px = (case px_outputs px of [] \<Rightarrow> [] | (i, out) # outs \<Rightarrow> ou_buffer out)"

lemma simulates_front:
  assumes "\<not> px_stopped px" "px_next px = length (fin @ shift w False False out # specs)"
    "\<forall>out \<in> set fin \<union> set specs. idle out" "\<not> ou_fail out" "list_all ou_apiDone fin" "\<not> ou_apiDone out" "ou_writeAllowed out"
    "px_outputs px = (length fin, out) # List.enumerate (Suc (length fin)) specs"
    "px_sent px = concat (List.map ou_buffer fin) @ w"
  shows "simulates px (fin @ shift w False False out # specs)"
  unfolding simulates_def
  using assms
  by (intro conjI exI [of _ fin] exI [of _ "shift w False False out # specs"]) (auto simp: idle_def)

lemma simulates_cases:
  assumes "simulates px sp"
  obtains (empty) "list_all ou_apiDone sp" "px_outputs px = []" "px_sent px = concat (List.map ou_buffer sp)"
      "\<forall>out \<in> set sp. idle out" "\<not> px_stopped px" "px_next px = length sp"
    | (front) fin w out specs where "sp = fin @ shift w False False out # specs" "list_all ou_apiDone fin" "\<not> ou_apiDone out"
      "ou_writeAllowed out" "\<not> ou_fail out" "px_outputs px = (length fin, out) # List.enumerate (Suc (length fin)) specs"
      "px_sent px = concat (List.map ou_buffer fin) @ w" "\<forall>out \<in> set fin \<union> set specs. idle out" "\<not> px_stopped px" "px_next px = length sp"
proof -
  obtain fin rest where s: "sp = fin @ rest" "list_all ou_apiDone fin" "\<not> px_stopped px" "px_next px = length sp"
    "\<forall>out \<in> set sp. idle out"
    "case rest of
       [] \<Rightarrow> px_outputs px = [] \<and> px_sent px = concat (List.map ou_buffer fin)
     | spec # specs \<Rightarrow> \<not> ou_apiDone spec \<and>
         (\<exists>w out. spec = shift w False False out \<and> ou_writeAllowed out \<and>
            px_outputs px = (length fin, out) # List.enumerate (Suc (length fin)) specs \<and>
            px_sent px = concat (List.map ou_buffer fin) @ w)"
    using assms by (auto simp: simulates_def)
  show thesis
  proof (cases rest)
    case Nil
    then show ?thesis using s empty by simp
  next
    case (Cons spec specs)
    then obtain w out where "spec = shift w False False out" "ou_writeAllowed out" "\<not> ou_apiDone spec"
      "px_outputs px = (length fin, out) # List.enumerate (Suc (length fin)) specs"
      "px_sent px = concat (List.map ou_buffer fin) @ w"
      using s(6) by auto
    then show ?thesis using s Cons by (intro front [of fin w out specs]) (auto simp: idle_def)
  qed
qed

lemma simulates_stream: "simulates px sp \<Longrightarrow> px_sent px @ held_text px = spec_stream sp"
proof (erule simulates_cases)
  assume "list_all ou_apiDone sp" "px_outputs px = []" "px_sent px = concat (List.map ou_buffer sp)"
  then show ?thesis using spec_stream_done [of sp "[]"] by (simp add: held_text_def)
next
  fix fin w out specs
  assume "sp = fin @ shift w False False out # specs" "list_all ou_apiDone fin" "\<not> ou_apiDone out"
    "px_outputs px = (length fin, out) # List.enumerate (Suc (length fin)) specs" "px_sent px = concat (List.map ou_buffer fin) @ w"
  then show ?thesis by (simp add: spec_stream_done held_text_def)
qed

text \<open>The first output writes what it holds.\<close>

lemma flush_front:
  assumes "\<not> px_stopped px" "px_outputs px = (n, out) # outs" "n \<notin> fst ` set outs" "ou_writeAllowed out" "\<not> ou_apiDone out"
  shows "flushBuffer n px =
    (if ou_buffer out = [] then px
     else px\<lparr>px_outputs := (n, emptied out) # outs, px_sent := px_sent px @ ou_buffer out\<rparr>)"
proof -
  have same: "List.map (\<lambda>(j, out). (j, if j = n then f out else out)) outs = outs" for f
    using assms(3) by (intro map_idI) (auto simp: image_iff)
  show ?thesis using assms same by (simp add: flushBuffer_def write_out_def change_def)
qed

lemma enumerate_behind: "n \<notin> fst ` set (List.enumerate (Suc n) xs)"
  by (auto simp: in_set_enumerate_eq)

lemma simulates_flush:
  assumes "simulates px sp" "px_outputs px = (n, out) # outs"
  shows "simulates (flushBuffer n px) sp" "\<exists>out1. px_outputs (flushBuffer n px) = (n, out1) # outs \<and> ou_buffer out1 = []"
proof -
  have "simulates (flushBuffer n px) sp \<and> (\<exists>out1. px_outputs (flushBuffer n px) = (n, out1) # outs \<and> ou_buffer out1 = [])"
    using assms(1)
  proof (cases rule: simulates_cases)
    case empty
    then show ?thesis using assms(2) by simp
  next
    case (front fin w out1 specs)
    then have e: "n = length fin" "out1 = out" "outs = List.enumerate (Suc (length fin)) specs" using assms(2) by auto
    have f: "flushBuffer n px =
      (if ou_buffer out = [] then px
       else px\<lparr>px_outputs := (n, emptied out) # outs, px_sent := px_sent px @ ou_buffer out\<rparr>)"
      by (rule flush_front) (use front e enumerate_behind in auto)
    show ?thesis
    proof (cases "ou_buffer out = []")
      case True
      then show ?thesis using f assms by simp
    next
      case False
      have sh: "shift w False False out = shift (w @ ou_buffer out) False False (emptied out)"
        by (simp add: shift_def emptied_def)
      have "simulates (flushBuffer n px) (fin @ shift (w @ ou_buffer out) False False (emptied out) # specs)"
        by (rule simulates_front) (use front e f False in \<open>auto simp: emptied_def\<close>)
      then show ?thesis using f False front(1) e(2) sh by (simp add: emptied_def)
    qed
  qed
  then show "simulates (flushBuffer n px) sp" "\<exists>out1. px_outputs (flushBuffer n px) = (n, out1) # outs \<and> ou_buffer out1 = []"
    by simp_all
qed

lemma simulates_response [simp]: "simulates (px\<lparr>px_response := r\<rparr>) sp = simulates px sp"
  by (simp add: simulates_def cong: list.case_cong)

lemma simulates_emplace:
  assumes "simulates px sp"
  shows "simulates (emplace px) (sp @ [fresh_outgoing])"
  using assms
proof (cases rule: simulates_cases)
  case empty
  define out :: "'a outgoing" where "out = fresh_outgoing\<lparr>ou_writeAllowed := True\<rparr>"
  define px1 where "px1 = px\<lparr>px_outputs := [(length sp, out)], px_next := length sp + 1\<rparr>"
  have "emplace px = px1\<lparr>px_response := Some (length sp)\<rparr>"
    using empty by (simp add: emplace_def allowWrite_def allow_def change_def flushBuffer_def write_out_def Let_def px1_def out_def
        fresh_outgoing_def)
  moreover have "simulates px1 (sp @ shift [] False False out # [])"
    by (rule simulates_front) (use empty in \<open>auto simp: px1_def out_def fresh_outgoing_def\<close>)
  moreover have "shift [] False False out = fresh_outgoing" by (simp add: shift_def out_def fresh_outgoing_def)
  ultimately show ?thesis by simp
next
  case (front fin w out specs)
  let ?n = "length fin"
  define px1 where "px1 = px\<lparr>px_outputs := px_outputs px @ [(px_next px, fresh_outgoing)], px_next := px_next px + 1\<rparr>"
  have o: "px_outputs px1 = (?n, out) # List.enumerate (Suc ?n) (specs @ [fresh_outgoing])"
    using front by (simp add: px1_def enumerate_append_eq)
  have "List.map (\<lambda>(j, out). (j, if j = ?n then f out else out)) (List.enumerate (Suc ?n) xs) = List.enumerate (Suc ?n) xs" for f and xs :: "'a outgoing list"
    using enumerate_behind [of ?n xs] by (intro map_idI) (auto simp: image_iff)
  then have a: "allow ?n px1 = px1" using front(4) by (simp add: allow_def change_def o)
  have s: "simulates px1 (fin @ shift w False False out # specs @ [fresh_outgoing])"
    by (rule simulates_front) (use front o in \<open>auto simp: px1_def idle_def fresh_outgoing_def\<close>)
  have "simulates (flushBuffer ?n px1) (fin @ shift w False False out # specs @ [fresh_outgoing])"
    by (rule simulates_flush(1) [OF s o])
  moreover have "emplace px = (flushBuffer ?n px1)\<lparr>px_response := (case px_outputs (flushBuffer ?n px1) of [] \<Rightarrow> None | (i, out) # outs \<Rightarrow> Some i)\<rparr>"
    unfolding emplace_def Let_def allowWrite_def px1_def [symmetric] by (simp add: o a)
  ultimately show ?thesis using front(1) by simp
qed

lemma flags_eq:
  "flags a = flags b \<Longrightarrow> ou_writeAllowed a = ou_writeAllowed b" "flags a = flags b \<Longrightarrow> ou_apiDone a = ou_apiDone b"
  "flags a = flags b \<Longrightarrow> ou_fail a = ou_fail b" "flags a = flags b \<Longrightarrow> idle a = idle b"
  by (simp_all add: flags_def idle_def)

lemma flush_not_allowed:
  "map_of (px_outputs px) i = Some out \<Longrightarrow> \<not> ou_writeAllowed out \<Longrightarrow> flushBuffer i px = px"
  by (simp add: flushBuffer_def write_out_def)

lemma change_front:
  "px_outputs px = (n, out) # List.enumerate (Suc n) specs \<Longrightarrow>
    px_outputs (change n f px) = (n, f out) # List.enumerate (Suc n) specs"
  by (simp add: change_def change_enumerate)

lemma change_fields [simp]:
  "px_sent (change i f px) = px_sent px" "px_next (change i f px) = px_next px" "px_stopped (change i f px) = px_stopped px"
  by (simp_all add: change_def)

lemma simulates_done:
  assumes "simulates px (fin @ shift w False False out # specs)" "list_all ou_apiDone fin" "\<not> ou_apiDone out" "ou_buffer out = []"
    "ou_writeAllowed out" "px_outputs px = (length fin, out) # List.enumerate (Suc (length fin)) specs"
    "px_sent px = concat (List.map ou_buffer fin) @ w"
  shows "simulates (apiDone (length fin) px) (fin @ (shift w False False out)\<lparr>ou_apiDone := True\<rparr> # specs)"
proof -
  let ?n = "length fin" let ?spec = "(shift w False False out)\<lparr>ou_apiDone := True\<rparr>"
  have s: "\<not> px_stopped px" "px_next px = ?n + 1 + length specs" "\<forall>out \<in> set fin \<union> set specs. idle out" "idle ?spec"
    using assms(1) by (auto simp: simulates_def idle_def)
  define px1 where "px1 = change ?n (\<lambda>out. out\<lparr>ou_apiDone := True\<rparr>) px"
  have o: "px_outputs px1 = (?n, out\<lparr>ou_apiDone := True\<rparr>) # List.enumerate (Suc ?n) specs"
    unfolding px1_def by (rule change_front [OF assms(6)])
  have "\<not> ou_fail out" using s(4) by (simp add: idle_def)
  then have nofail: "\<forall>(i, out) \<in> set (px_outputs px1). \<not> ou_fail out"
    using s(3) by (auto simp: o idle_def in_set_enumerate_eq)
  have dist: "distinct (List.map fst (px_outputs px1))"
    using enumerate_behind [of ?n specs] by (auto simp: o distinct_enumerate)
  have stop: "\<not> px_stopped px1" using s(1) by (simp add: px1_def)
  have run: "apiDone ?n px = px1\<lparr>px_outputs := snd (settle (List.enumerate (Suc ?n) specs)),
      px_sent := px_sent px @ fst (settle (List.enumerate (Suc ?n) specs))\<rparr>"
    using plexus_done_settle [OF stop nofail dist] assms(3-5) o
    by (simp add: apiDone_def assms(6) px1_def [symmetric] isDone_def Let_def case_prod_unfold) (simp add: px1_def)
  obtain fin2 rest where f: "specs = fin2 @ rest" "list_all ou_apiDone fin2"
    "case rest of
       [] \<Rightarrow> settle (List.enumerate (Suc ?n) specs) = (concat (List.map ou_buffer fin2), [])
     | out # outs \<Rightarrow> \<not> ou_apiDone out \<and>
         settle (List.enumerate (Suc ?n) specs) = (concat (List.map ou_buffer fin2) @ ou_buffer out,
           (Suc ?n + length fin2, first_out out) # List.enumerate (Suc (Suc ?n + length fin2)) outs)"
    using settle_idle [of specs "Suc ?n"] s(3) by auto
  define fin3 where "fin3 = fin @ ?spec # fin2"
  have f3: "list_all ou_apiDone fin3" "length fin3 = Suc ?n + length fin2" "fin @ ?spec # specs = fin3 @ rest"
    "concat (List.map ou_buffer fin3) = px_sent px @ concat (List.map ou_buffer fin2)"
    using assms(2,4,7) f(1,2) by (simp_all add: fin3_def)
  show ?thesis
  proof (cases rest)
    case Nil
    then show ?thesis unfolding simulates_def f3(3)
      using f f3 run s by (intro conjI exI [of _ fin3] exI [of _ "[]"]) (auto simp: px1_def)
  next
    case (Cons out2 outs)
    have i: "idle out2" using s(3) f(1) Cons by simp
    have "simulates (apiDone ?n px) (fin3 @ shift (ou_buffer out2) False False (first_out out2) # outs)"
      by (rule simulates_front) (use f f3 run s i Cons in \<open>auto simp: px1_def fin3_def first_out_def emptied_def idle_def\<close>)
    then show ?thesis using f3(3) Cons first_out_idle [OF i] by simp
  qed
qed

lemma simulates_call:
  assumes "simulates px sp" "\<not> px_stopped (px_call co i c px)"
  shows "simulates (px_call co i c px) (spec_call co i c sp)"
  using assms(1)
proof (cases rule: simulates_cases)
  case empty
  have "list_all ou_apiDone (take (i + 1) sp)" using empty(1) by (auto simp: list_all_iff dest: in_set_takeD)
  then show ?thesis using assms(1) empty by (simp add: px_call_def spec_call_def)
next
  case (front fin w out specs)
  let ?n = "length fin"
  note o = front(6)
  have find: "map_of (px_outputs px) i = (if i = ?n then Some out
      else if Suc ?n \<le> i \<and> i < Suc ?n + length specs then Some (specs ! (i - Suc ?n)) else None)"
    by (simp add: o map_of_enumerate)
  consider (none) "i < ?n \<or> Suc ?n + length specs \<le> i" | (first) "i = ?n"
    | (behind) k where "i = Suc ?n + k" "k < length specs"
    by (metis add_Suc less_natE nat_add_left_cancel_less not_le not_less_iff_gr_or_eq)
  then show ?thesis
  proof cases
    case none
    then have "map_of (px_outputs px) i = None" using find by auto
    moreover have "list_all ou_apiDone (take (i + 1) sp) \<or> length sp \<le> i"
      using none front(1,2) by (auto simp: list_all_iff dest: in_set_takeD)
    ultimately show ?thesis using assms(1) by (auto simp: px_call_def spec_call_def)
  next
    case first
    have sp: "spec_call co i c sp = fin @ snd (handle_call co c (shift w False False out)) # specs"
      using first front(1,3) by (simp add: spec_call_def list_update_append)
    show ?thesis
    proof (cases "c = CallDone")
      case True
      obtain out1 where f: "simulates (flushBuffer ?n px) sp"
        "px_outputs (flushBuffer ?n px) = (?n, out1) # List.enumerate (Suc ?n) specs" "ou_buffer out1 = []"
        using simulates_flush [OF assms(1) o] by auto
      from f(1) show ?thesis
      proof (cases rule: simulates_cases)
        case empty
        then show ?thesis using f(2) by simp
      next
        case (front fin2 w2 out2 specs2)
        then have e: "?n = length fin2" "out1 = out2" "List.enumerate (Suc ?n) specs = List.enumerate (Suc (length fin2)) specs2"
          using f(2) by auto
        from e front(1) \<open>sp = fin @ shift w False False out # specs\<close>
        have sp2: "fin2 = fin" "specs2 = specs" "shift w2 False False out2 = shift w False False out"
          by simp_all
        then have f1: "simulates (flushBuffer ?n px) (fin @ shift w2 False False out2 # specs)" using f(1) front(1) by simp
        have "simulates (apiDone ?n (flushBuffer ?n px)) (fin @ (shift w2 False False out2)\<lparr>ou_apiDone := True\<rparr> # specs)"
          by (rule simulates_done) (use f1 front(2-7) f(3) e(2) sp2(1,2) in simp_all)
        then show ?thesis using True first sp sp2(3) find by (simp add: px_call_def)
      qed
    next
      case False
      obtain a out1 where p: "handle_call co c out = (a, out1)" by fastforce
      have fl: "flags out1 = flags out" using handle_flags [OF False, of co out] p by simp
      have sp1: "spec_call co i c sp = fin @ shift w False False out1 # specs" using sp p by (simp add: handle_shift)
      define px1 where "px1 = change ?n (\<lambda>_. out1) px"
      have o1: "px_outputs px1 = (?n, out1) # List.enumerate (Suc ?n) specs" unfolding px1_def by (rule change_front [OF o])
      have s: "simulates px1 (fin @ shift w False False out1 # specs)"
        by (rule simulates_front) (use front o1 flags_eq [OF fl] in \<open>auto simp: px1_def\<close>)
      show ?thesis
        using s simulates_flush(1) [OF s o1] assms(2) False first p find sp1
        by (cases a) (simp_all add: px_call_def px1_def [symmetric] close_plexus_def)
    qed
  next
    case behind
    define old where "old = specs ! k"
    have old: "map_of (px_outputs px) i = Some old" "idle old" using find behind front(8) by (auto simp: old_def)
    have sp: "spec_call co i c sp = fin @ shift w False False out # specs[k := snd (handle_call co c old)]"
      using front(1,3) behind by (simp add: spec_call_def list_update_append old_def nth_append)
    have o1: "px_outputs (change i f px) = (?n, out) # List.enumerate (Suc ?n) (specs[k := f old])" for f
      using behind by (simp add: change_def o change_enumerate old_def)
    have s: "simulates px1 (fin @ shift w False False out # specs[k := new])"
      if "px_outputs px1 = (?n, out) # List.enumerate (Suc ?n) (specs[k := new])" "idle new"
        "px_sent px1 = px_sent px" "px_next px1 = px_next px" "\<not> px_stopped px1" for px1 new
      by (rule simulates_front) (use front that set_update_subset_insert [of specs k new] in auto)
    have nf: "flushBuffer i px1 = px1" if "map_of (px_outputs px1) i = Some new" "idle new" for px1 new
      using that by (simp add: flush_not_allowed idle_def)
    show ?thesis
    proof (cases "c = CallDone")
      case True
      have "simulates (apiDone i px) (fin @ shift w False False out # specs[k := old\<lparr>ou_apiDone := True\<rparr>])"
      proof (cases "ou_apiDone old")
        case True
        then have "specs[k := old\<lparr>ou_apiDone := True\<rparr>] = specs" using behind(2) by (simp add: old_def list_update_same_conv)
        then show ?thesis using True assms(1) front(1) old(1) by (simp add: apiDone_def)
      next
        case False
        have "\<not> isDone (old\<lparr>ou_apiDone := True\<rparr>)" using old(2) by (simp add: isDone_def idle_def)
        then show ?thesis
          using False old o1 front(9) by (simp add: apiDone_def Let_def) (rule s, auto simp: idle_def)
      qed
      then show ?thesis using True sp old nf [OF old] by (simp add: px_call_def)
    next
      case False
      obtain a new where p: "handle_call co c old = (a, new)" by fastforce
      have n: "idle new" using flags_eq(4) [OF handle_flags [OF False, of co old]] p old(2) by simp
      have s1: "simulates (change i (\<lambda>_. new) px) (fin @ shift w False False out # specs[k := new])"
        by (rule s) (use o1 n front(9) in auto)
      have "map_of (px_outputs (change i (\<lambda>_. new) px)) i = Some new"
        unfolding o1 using behind by (simp add: map_of_enumerate)
      from nf [OF this n] show ?thesis
        using s1 sp p False old(1) assms(2) by (cases a) (simp_all add: px_call_def close_plexus_def)
    qed
  qed
qed

subsection \<open>A stopped connection\<close>

lemma write_out_stopped: "write_out i px = (d, px1) \<Longrightarrow> px_stopped px1 = px_stopped px"
  by (auto simp: write_out_def split: option.splits if_splits)

lemma done_stopped: "px_stopped px \<Longrightarrow> px_stopped (plexus_done px)"
proof (induction px rule: plexus_done.induct)
  case (1 px)
  show ?case
  proof (cases "px_outputs px")
    case Nil
    then show ?thesis using "1.prems" by (subst plexus_done.simps) simp
  next
    case (Cons x outs)
    obtain i out where x: "x = (i, out)" by (cases x)
    obtain d px1 where w: "write_out i (allow i px) = (d, px1)" by (cases "write_out i (allow i px)")
    have s1: "px_stopped px1" using write_out_stopped [OF w] "1.prems" by (simp add: allow_def)
    define px2 where "px2 = (if d then plexus_done px1 else px1)"
    have s2: "px_stopped px2"
      using "1.IH"(1) [OF Cons x [symmetric] refl w [symmetric]] s1 unfolding px2_def by (cases d) simp_all
    have run: "plexus_done px = (case px_outputs px2 of [] \<Rightarrow> px2 | (j, front) # rest \<Rightarrow>
        if \<not> isDone front then px2 else if ou_fail front then close_plexus px2 else plexus_done (px2\<lparr>px_outputs := rest\<rparr>))"
      unfolding px2_def by (subst plexus_done.simps) (simp add: Cons x w Let_def)
    have "px_stopped (plexus_done (px2\<lparr>px_outputs := rest\<rparr>))"
      if "px_outputs px2 = (j, front) # rest" "isDone front" "\<not> ou_fail front" for j front rest
      using "1.IH"(2) [OF Cons x [symmetric] refl w [symmetric] px2_def that(1) refl] that s2 by simp
    then show ?thesis using run s2 by (auto simp: close_plexus_def split: list.splits)
  qed
qed

lemma flush_stopped: "px_stopped px \<Longrightarrow> px_stopped (flushBuffer i px)"
  using write_out_stopped [of i px] by (cases "write_out i px") (simp add: flushBuffer_def done_stopped)

lemma call_stopped: "px_stopped px \<Longrightarrow> px_stopped (px_call co i c px)"
  by (auto simp: px_call_def apiDone_def Let_def flush_stopped done_stopped close_plexus_def split: option.splits prod.splits aftermath.splits)

lemma emplace_stopped: "px_stopped px \<Longrightarrow> px_stopped (emplace px)"
  by (simp add: emplace_def Let_def allowWrite_def flush_stopped allow_def)

lemma run_stopped: "px_stopped px \<Longrightarrow> px_stopped (px_run co es px)"
  by (induction co es px rule: px_run.induct) (simp_all add: emplace_stopped call_stopped)

lemma simulates_new: "simulates new_plexus []"
  by (simp add: simulates_def new_plexus_def)

lemma simulates_run: "simulates px sp \<Longrightarrow> \<not> px_stopped (px_run co es px) \<Longrightarrow> simulates (px_run co es px) (spec_run co es sp)"
proof (induction co es px arbitrary: sp rule: px_run.induct)
  case (2 co es px)
  then show ?case using simulates_emplace [OF "2.prems"(1)] by simp
next
  case (3 co i c es px)
  have "\<not> px_stopped (px_call co i c px)" using "3.prems"(2) run_stopped by fastforce
  from simulates_call [OF "3.prems"(1) this] show ?case using 3 by simp
qed simp

subsection \<open>Properties\<close>

text \<open>C21. Messages leave a connection in the order in which they were asked for and never mix: as long as the
connection is open, what has been sent, with what the first output still holds, is the text of the messages in
that order, up to and including the first that is not done, however the calls to them are interleaved.\<close>

theorem messages_in_order:
  assumes "\<not> px_stopped (px_run co es new_plexus)"
  shows "px_sent (px_run co es new_plexus) @ held_text (px_run co es new_plexus) = spec_stream (spec_run co es [])"
  by (rule simulates_stream [OF simulates_run [OF simulates_new assms]])

theorem messages_in_order_witness:
  "px_sent (px_run sample_coder [Emplace, Emplace, Call 1 (CallData ''b'' True), Call 0 (CallData ''a'' True), Call 0 CallDone] new_plexus) @
    held_text (px_run sample_coder [Emplace, Emplace, Call 1 (CallData ''b'' True), Call 0 (CallData ''a'' True), Call 0 CallDone] new_plexus) =
   spec_stream (spec_run sample_coder [Emplace, Emplace, Call 1 (CallData ''b'' True), Call 0 (CallData ''a'' True), Call 0 CallDone] [])"
  by (rule messages_in_order)
     (simp add: new_plexus_def emplace_def Let_def allowWrite_def allow_def change_def flushBuffer_def write_out_def fresh_outgoing_def
       px_call_def out_data_def processChunked_def put_def emptied_def apiDone_def isDone_def plexus_done.simps)

text \<open>C28. When a request is refused while an earlier one is still to be answered, and the first output, that of the
earlier one, may write but has written and holds nothing yet and is not finished, the error is sent at once as the
answer to the earlier one: the request is given the first of the outputs and not its own.\<close>

theorem error_answers_first:
  assumes "px_outputs px = (i, out) # outs" "i \<notin> fst ` set outs" "i \<noteq> px_next px" "\<not> px_stopped px"
    and "ou_writeAllowed out" "\<not> ou_apiDone out" "ou_buffer out = []" "\<not> ou_someWrote out"
  shows "map_option px_sent (requestFailed r (emplace px)) = Some (px_sent px @ error_text r)"
proof -
  have same: "List.map (\<lambda>(j, out). (j, if j = i then f out else out)) outs = outs" for f
    using assms(2) by (intro map_idI) (auto simp: image_iff)
  have e: "emplace px = px\<lparr>px_outputs := px_outputs px @ [(px_next px, fresh_outgoing)], px_next := px_next px + 1, px_response := Some i\<rparr>"
    using assms same by (simp add: emplace_def Let_def allowWrite_def allow_def change_def flushBuffer_def write_out_def)
  have ne: "error_text r \<noteq> []" by (cases r) simp_all
  show ?thesis
    using assms same ne by (simp add: e requestFailed_def change_def flushBuffer_def write_out_def)
qed

definition sample_plexus :: "unit plexus" where
  "sample_plexus = new_plexus\<lparr>px_outputs := [(0, fresh_outgoing\<lparr>ou_writeAllowed := True\<rparr>)], px_next := 1\<rparr>"

theorem error_answers_first_witness:
  "map_option px_sent (requestFailed BadEntity (emplace sample_plexus)) = Some (px_sent sample_plexus @ error_text BadEntity)"
  by (rule error_answers_first [where i = 0 and outs = "[]" and out = "fresh_outgoing\<lparr>ou_writeAllowed := True\<rparr>"]) (simp_all add: sample_plexus_def new_plexus_def fresh_outgoing_def)

text \<open>C29. When the answer to an earlier request is completed while the next request is being received, the request
keeps pointing to the output that has been taken away: refusing it then has no output to go to.\<close>

theorem response_dangles:
  assumes "px_outputs px = [(i, out)]" "i \<noteq> px_next px" "\<not> px_stopped px"
    and "ou_writeAllowed out" "\<not> ou_apiDone out" "\<not> ou_fail out" "ou_buffer out = []"
  shows "requestFailed r (px_call co i CallDone (emplace px)) = None"
proof -
  have e: "emplace px = px\<lparr>px_outputs := [(i, out), (px_next px, fresh_outgoing)], px_next := px_next px + 1, px_response := Some i\<rparr>"
    using assms by (simp add: emplace_def Let_def allowWrite_def allow_def change_def flushBuffer_def write_out_def)
  define px1 where "px1 = (emplace px)\<lparr>px_outputs := [(i, out\<lparr>ou_apiDone := True\<rparr>), (px_next px, fresh_outgoing)]\<rparr>"
  have c: "px_call co i CallDone (emplace px) = plexus_done px1"
    using assms by (simp add: px_call_def e flushBuffer_def write_out_def apiDone_def change_def Let_def isDone_def px1_def)
  have "plexus_done px1 = px1\<lparr>px_outputs := snd (settle (px_outputs px1)), px_sent := px_sent px1 @ fst (settle (px_outputs px1))\<rparr>"
    by (rule plexus_done_settle) (use assms in \<open>auto simp: px1_def e fresh_outgoing_def\<close>)
  then have "map_of (px_outputs (plexus_done px1)) i = None" "px_response (plexus_done px1) = Some i"
    using assms(2) by (simp_all add: px1_def e fresh_outgoing_def)
  then show ?thesis unfolding c by (simp add: requestFailed_def)
qed

theorem response_dangles_witness:
  "requestFailed BadEntity (px_call sample_coder 0 CallDone (emplace sample_plexus)) = None"
  by (rule response_dangles [where out = "fresh_outgoing\<lparr>ou_writeAllowed := True\<rparr>"]) (simp_all add: sample_plexus_def new_plexus_def fresh_outgoing_def)

end
