(* ===== verification/Clocking.thy ===== *)
theory Clocking
  imports Prelude "HOL-Library.While_Combinator"
begin

section \<open>The timers of the poll service: buckets and the clock\<close>

text \<open>
  Models \<open>source/core/poll/src/impl/clocking/bucket.cpp\<close>, \<open>bucket.hpp\<close>, \<open>bucketElement.hpp\<close> and
  \<open>impl/clocking.cpp\<close>. A started timer hangs in the bucket whose number is the highest bit in which
  its point differs from the current time; a due timer hangs in the ready bucket. The ring between
  \<open>_preFirst\<close> and \<open>_postLast\<close> of a bucket is the list of its elements, a timer is known by a number
  that stands for its address, the pointer \<open>_bucket\<close> of an element is the place of the bucket, and
  \<open>_globalAmountPtr\<close> names the counter it points to. Points are the counts of a signed 64-bit clock;
  a sum that leaves its range has no meaning in the source and none here. \<open>ck_exec\<close> holds when the
  pool of fibers owes a run of the handler of ready timers.
\<close>

subsection \<open>State\<close>

datatype bucket_ref = Ready | Wheel nat

datatype amount = Amount | ReadyAmount

record timer =
  tm_point :: int
  tm_bucket :: "bucket_ref option"
  tm_interval :: int
  tm_repeatable :: bool
  tm_started :: bool

record bucket =
  bk_amount :: amount
  bk_order :: nat
  bk_start :: int
  bk_elems :: "nat list"

record clocking =
  ck_now :: int
  ck_nearest :: int
  ck_amount :: nat
  ck_buckets :: "bucket option list"
  ck_readyAmountPrev :: nat
  ck_readyAmount :: nat
  ck_ready :: bucket
  ck_timers :: "nat \<Rightarrow> timer"
  ck_exec :: bool

definition bucketsAmount :: nat where
  "bucketsAmount = 64 - 1"

definition point_max :: int where
  "point_max = 2 ^ 63 - 1"

definition new_bucket :: "amount \<Rightarrow> nat \<Rightarrow> int \<Rightarrow> bucket" where
  "new_bucket a order start = \<lparr>bk_amount = a, bk_order = order, bk_start = start, bk_elems = []\<rparr>"

definition new_clocking :: "int \<Rightarrow> (nat \<Rightarrow> timer) \<Rightarrow> clocking" where
  "new_clocking now tms =
     \<lparr>ck_now = now, ck_nearest = now, ck_amount = 0, ck_buckets = replicate bucketsAmount None,
      ck_readyAmountPrev = 0, ck_readyAmount = 0, ck_ready = new_bucket ReadyAmount (bucketsAmount - 1) 0,
      ck_timers = tms, ck_exec = False\<rparr>"

definition set_timer :: "nat \<Rightarrow> (timer \<Rightarrow> timer) \<Rightarrow> clocking \<Rightarrow> clocking" where
  "set_timer t f c = c\<lparr>ck_timers := (ck_timers c)(t := f (ck_timers c t))\<rparr>"

definition bucket_at :: "bucket_ref \<Rightarrow> clocking \<Rightarrow> bucket option" where
  "bucket_at r c = (case r of Ready \<Rightarrow> Some (ck_ready c) | Wheel i \<Rightarrow> ck_buckets c ! i)"

definition put_bucket :: "bucket_ref \<Rightarrow> bucket \<Rightarrow> clocking \<Rightarrow> clocking" where
  "put_bucket r b c =
     (case r of Ready \<Rightarrow> c\<lparr>ck_ready := b\<rparr> | Wheel i \<Rightarrow> c\<lparr>ck_buckets := (ck_buckets c)[i := Some b]\<rparr>)"

definition reset_bucket :: "nat \<Rightarrow> clocking \<Rightarrow> clocking" where
  "reset_bucket i c = c\<lparr>ck_buckets := (ck_buckets c)[i := None]\<rparr>"

definition count_up :: "amount \<Rightarrow> nat \<Rightarrow> clocking \<Rightarrow> clocking" where
  "count_up a n c =
     (case a of Amount \<Rightarrow> c\<lparr>ck_amount := ck_amount c + n\<rparr>
      | ReadyAmount \<Rightarrow> c\<lparr>ck_readyAmount := ck_readyAmount c + n\<rparr>)"

definition count_down :: "amount \<Rightarrow> nat \<Rightarrow> clocking \<Rightarrow> clocking" where
  "count_down a n c =
     (case a of Amount \<Rightarrow> c\<lparr>ck_amount := ck_amount c - n\<rparr>
      | ReadyAmount \<Rightarrow> c\<lparr>ck_readyAmount := ck_readyAmount c - n\<rparr>)"

subsection \<open>Buckets\<close>

text \<open>The relinking that \<open>insert\<close> and \<open>separateChildren\<close> share: an element becomes the last one of a bucket.\<close>

definition link_last :: "nat \<Rightarrow> bucket_ref \<Rightarrow> clocking \<Rightarrow> clocking" where
  "link_last t r c =
     (case bucket_at r c of
        None \<Rightarrow> c
      | Some b \<Rightarrow>
          put_bucket r (b\<lparr>bk_elems := bk_elems b @ [t]\<rparr>) (set_timer t (\<lambda>x. x\<lparr>tm_bucket := Some r\<rparr>) c))"

definition bucket_insert :: "nat \<Rightarrow> bucket_ref \<Rightarrow> clocking \<Rightarrow> clocking" where
  "bucket_insert t r c =
     (case bucket_at r c of
        None \<Rightarrow> c
      | Some b \<Rightarrow> count_up (bk_amount b) 1 (link_last t r c))"

definition bucket_remove :: "nat \<Rightarrow> bucket_ref \<Rightarrow> clocking \<Rightarrow> clocking" where
  "bucket_remove t r c =
     (case bucket_at r c of
        None \<Rightarrow> c
      | Some b \<Rightarrow>
          count_down (bk_amount b) 1
            (put_bucket r (b\<lparr>bk_elems := remove1 t (bk_elems b)\<rparr>)
               (set_timer t (\<lambda>x. x\<lparr>tm_bucket := None\<rparr>) c)))"

definition adopt :: "bucket_ref \<Rightarrow> nat \<Rightarrow> clocking \<Rightarrow> clocking" where
  "adopt r t = set_timer t (\<lambda>x. x\<lparr>tm_bucket := Some r\<rparr>)"

definition flushTo :: "bucket_ref \<Rightarrow> bucket_ref \<Rightarrow> clocking \<Rightarrow> clocking" where
  "flushTo r to c =
     (case (bucket_at r c, bucket_at to c) of
        (Some b, Some d) \<Rightarrow>
          if bk_elems b = [] then c
          else
            count_up (bk_amount d) (length (bk_elems b)) (count_down (bk_amount b) (length (bk_elems b))
              (fold (adopt to) (bk_elems b)
                (put_bucket r (b\<lparr>bk_elems := []\<rparr>) (put_bucket to (d\<lparr>bk_elems := bk_elems d @ bk_elems b\<rparr>) c))))
      | _ \<Rightarrow> c)"

text \<open>\<open>utils::bits::count0Most\<close> of a 64-bit value, zero included.\<close>

primrec leading_zeros :: "nat \<Rightarrow> int \<Rightarrow> nat" where
  "leading_zeros 0 x = 0"
| "leading_zeros (Suc n) x = (if bit x n then 0 else Suc (leading_zeros n x))"

definition count0Most :: "int \<Rightarrow> nat" where
  "count0Most x = (if x = 0 then 64 else leading_zeros 64 x)"

text \<open>One turn of the loop of \<open>separateChildren\<close>; the pair is the reference \<open>nearestPoint\<close> and the clock.\<close>

definition separate_one :: "bucket \<Rightarrow> int \<Rightarrow> nat \<Rightarrow> int \<times> clocking \<Rightarrow> int \<times> clocking" where
  "separate_one b time t s =
     (let c = snd s; point = tm_point (ck_timers c t); childOrder = 64 - count0Most (point - bk_start b)
      in if childOrder = 0 then
           (fst s, link_last t Ready (count_up (bk_amount (ck_ready c)) 1 (count_down (bk_amount b) 1 c)))
         else
           let nearest = (if time < point \<and> point < fst s then point else fst s);
               k = childOrder - 1;
               child = (case bucket_at (Wheel k) c of
                          None \<Rightarrow> put_bucket (Wheel k) (new_bucket (bk_amount b) k (bk_start b + 2 ^ k)) c
                        | Some _ \<Rightarrow> c)
           in (nearest, link_last t (Wheel k) child))"

definition separateChildren :: "bucket \<Rightarrow> int \<Rightarrow> int \<times> clocking \<Rightarrow> int \<times> clocking" where
  "separateChildren b time s = fold (separate_one b time) (bk_elems b) s"

definition getNearestPoint :: "bucket \<Rightarrow> (nat \<Rightarrow> timer) \<Rightarrow> int \<Rightarrow> bool \<times> int" where
  "getNearestPoint b tms n =
     (if bk_elems b = [] then (False, n)
      else (True, fold (\<lambda>t n. if n > tm_point (tms t) then tm_point (tms t) else n) (bk_elems b) n))"

subsection \<open>The clock\<close>

text \<open>The number of the bucket, for a point after the present time.\<close>

definition bucketIndexFor :: "int \<Rightarrow> int \<Rightarrow> nat" where
  "bucketIndexFor now target = 64 - count0Most (target XOR now) - 1"

definition calculateBucketStart :: "int \<Rightarrow> nat \<Rightarrow> int" where
  "calculateBucketStart now index = (let aligned = 2 ^ index in (now AND NOT (aligned - 1)) + aligned)"

definition getOrMakeBucket :: "nat \<Rightarrow> clocking \<Rightarrow> clocking" where
  "getOrMakeBucket i c =
     (case bucket_at (Wheel i) c of
        None \<Rightarrow> put_bucket (Wheel i) (new_bucket Amount i (calculateBucketStart (ck_now c) i)) c
      | Some _ \<Rightarrow> c)"

definition flushReady :: "clocking \<Rightarrow> clocking" where
  "flushReady c =
     (if ck_readyAmountPrev c \<noteq> ck_readyAmount c
      then c\<lparr>ck_readyAmountPrev := ck_readyAmount c, ck_exec := True\<rparr> else c)"

text \<open>
  The assertions of \<open>insert\<close>, that the point lies in the range of the bucket, are compiled in only in debug builds and are
  not part of the step. For a bucket of the wheel they follow from the invariant (\<open>timely\<close> in ClockingWheel); the ready
  bucket's range is [0, 2^62), of which the upper bound is the lemma \<open>ready_points\<close> in Timers and the lower one is
  a clock that does not show times before its epoch.
\<close>

definition clocking_start :: "nat \<Rightarrow> clocking \<Rightarrow> clocking" where
  "clocking_start t c =
     (let point = tm_point (ck_timers c t)
      in if point \<le> ck_now c then flushReady (bucket_insert t Ready c)
         else
           let c' = c\<lparr>ck_nearest := min (ck_nearest c) point\<rparr>; i = bucketIndexFor (ck_now c) point
           in bucket_insert t (Wheel i) (getOrMakeBucket i c'))"

definition clocking_stop :: "nat \<Rightarrow> clocking \<Rightarrow> clocking" where
  "clocking_stop t c =
     (case tm_bucket (ck_timers c t) of None \<Rightarrow> c | Some r \<Rightarrow> bucket_remove t r c)"

definition clocking_update :: "nat \<Rightarrow> clocking \<Rightarrow> clocking" where
  "clocking_update t c = clocking_start t (clocking_stop t c)"

definition clocking_hasPayload :: "clocking \<Rightarrow> bool" where
  "clocking_hasPayload c \<longleftrightarrow> 0 < ck_amount c \<or> 0 < ck_readyAmount c"

definition flush_lower :: "nat \<Rightarrow> clocking \<Rightarrow> clocking" where
  "flush_lower i c =
     (case ck_buckets c ! i of None \<Rightarrow> c | Some _ \<Rightarrow> reset_bucket i (flushTo (Wheel i) Ready c))"

definition roll_step :: "int \<Rightarrow> int \<times> clocking \<Rightarrow> int \<times> clocking" where
  "roll_step time s =
     (let bound = bucketIndexFor (ck_now (snd s)) time;
          c = fold flush_lower [0..<bound] (snd s)
      in case ck_buckets c ! bound of
           Some b \<Rightarrow>
             (let s' = separateChildren b time (fst s, c\<lparr>ck_now := bk_start b\<rparr>)
              in (fst s', reset_bucket bound (snd s')))
         | None \<Rightarrow> (fst s, c\<lparr>ck_now := calculateBucketStart (ck_now c) bound\<rparr>))"

primrec nearest_bucket :: "bucket option list \<Rightarrow> (nat \<Rightarrow> timer) \<Rightarrow> int \<Rightarrow> int" where
  "nearest_bucket [] tms n = n"
| "nearest_bucket (x # xs) tms n =
     (case x of
        None \<Rightarrow> nearest_bucket xs tms n
      | Some b \<Rightarrow> (if fst (getNearestPoint b tms n) then snd (getNearestPoint b tms n)
                  else nearest_bucket xs tms n))"

text \<open>\<open>None\<close> is a loop that does not end.\<close>

definition rollBucketsTo :: "int \<Rightarrow> clocking \<Rightarrow> (int \<times> clocking) option" where
  "rollBucketsTo time c =
     (case while_option (\<lambda>s. ck_now (snd s) < time) (roll_step time)
             (if time \<ge> ck_nearest c then point_max else ck_nearest c, c) of
        None \<Rightarrow> None
      | Some s \<Rightarrow>
          Some (if 0 < ck_amount (snd s) \<and> fst s = point_max
                then nearest_bucket (ck_buckets (snd s)) (ck_timers (snd s)) (fst s) else fst s,
                flushReady (snd s)))"

text \<open>\<open>fireTicks\<close>, given the result of \<open>exactNow\<close>.\<close>

definition fireTicks :: "int \<Rightarrow> clocking \<Rightarrow> (bool \<times> clocking) option" where
  "fireTicks now c =
     (case rollBucketsTo now c of
        None \<Rightarrow> None
      | Some (n, c') \<Rightarrow> Some (ck_readyAmount c \<noteq> ck_readyAmount c', c'\<lparr>ck_nearest := n\<rparr>))"

definition distance2NextPoint :: "clocking \<Rightarrow> int" where
  "distance2NextPoint c = (if ck_readyAmount c \<noteq> 0 then 0 else ck_nearest c - ck_now c)"

end
