(* ===== verification/ClockingWheel.thy ===== *)
theory ClockingWheel
  imports Clocking
begin

section \<open>The invariant of the buckets\<close>

text \<open>
  Which bucket a point belongs to, read off quotients by powers of two; the invariant of the clock
  (\<open>wheel_ok\<close>): the list of a bucket and the pointers of its elements agree, the counters count, and
  every waiting timer is in the bucket of its point. Every operation keeps it.
\<close>

subsection \<open>The number of a bucket\<close>

lemma leading_zeros_spec:
  assumes "0 < x" "x < 2 ^ n"
  shows "leading_zeros n x < n \<and> x div 2 ^ (n - 1 - leading_zeros n x) = 1"
  using assms(2)
proof (induction n)
  case 0
  with assms(1) show ?case by simp
next
  case (Suc n)
  show ?case
  proof (cases "x < 2 ^ n")
    case True
    then have "x div 2 ^ n = 0" using assms(1) by simp
    then have "\<not> bit x n" by (simp add: bit_iff_odd)
    with Suc.IH[OF True] show ?thesis
      by simp
  next
    case False
    then have "x div 2 ^ n = 1" using Suc.prems by (simp add: int_div_pos_eq[of x "2 ^ n" 1 "x - 2 ^ n"])
    then show ?thesis by (simp add: bit_iff_odd)
  qed
qed

lemma count0Most_spec:
  assumes "0 < x" "x < 2 ^ 63"
  shows "64 - count0Most x - 1 < 63" and "x div 2 ^ (64 - count0Most x - 1) = 1" and "count0Most x < 64"
proof -
  have "x < 2 ^ 64" using assms(2) by simp
  from leading_zeros_spec[OF assms(1) this] assms(1)
  have spec: "count0Most x < 64" "x div 2 ^ (64 - count0Most x - 1) = 1"
    by (auto simp: count0Most_def)
  then show "count0Most x < 64" and "x div 2 ^ (64 - count0Most x - 1) = 1" by auto
  show "64 - count0Most x - 1 < 63"
  proof (rule ccontr)
    assume "\<not> 64 - count0Most x - 1 < 63"
    then have "64 - count0Most x - 1 = 63" by simp
    with spec(2) assms show False by simp
  qed
qed

lemma count0Most_0 [simp]: "count0Most 0 = 64"
  by (simp add: count0Most_def)

lemma calculateBucketStart_eq: "calculateBucketStart now i = 2 ^ i * (now div 2 ^ i + 1)"
proof -
  have "now AND NOT (2 ^ i - 1) = push_bit i (drop_bit i now)"
    by (rule bit_eqI) (auto simp: bit_simps simp flip: mask_eq_exp_minus_1)
  then show ?thesis
    by (simp add: calculateBucketStart_def Let_def push_bit_eq_mult drop_bit_eq_div distrib_left mult.commute)
qed

lemma xor_one_apart:
  fixes a b :: int
  assumes "a XOR b = 1" "b < a"
  shows "even b \<and> a = b + 1"
proof -
  have "a = b XOR 1"
    by (metis assms(1) xor.assoc xor.commute xor_self_eq xor.left_neutral)
  then show ?thesis using assms(2) by (cases "even b") (auto simp: even_xor_iff xor_one_eq)
qed

lemma bucketIndexFor_spec:
  assumes "0 \<le> now" "now < target" "target < 2 ^ 63"
  shows "bucketIndexFor now target < 63" and "even (now div 2 ^ bucketIndexFor now target)"
    and "target div 2 ^ bucketIndexFor now target = now div 2 ^ bucketIndexFor now target + 1"
proof -
  define x where "x = target XOR now"
  define i where "i = bucketIndexFor now target"
  have "x \<noteq> 0"
  proof
    assume "x = 0"
    then have "target = now" by (metis x_def xor.assoc xor_self_eq xor.left_neutral xor.right_neutral)
    with assms show False by simp
  qed
  moreover have "0 \<le> x" using assms by (simp add: x_def)
  ultimately have pos: "0 < x" by simp
  have small: "x < 2 ^ 63" unfolding x_def by (rule XOR_upper) (use assms in auto)
  have i: "i = 64 - count0Most x - 1" by (simp add: i_def x_def bucketIndexFor_def)
  from count0Most_spec[OF pos small] have spec: "i < 63" "x div 2 ^ i = 1" by (auto simp: i)
  have "(target div 2 ^ i) XOR (now div 2 ^ i) = 1"
    using spec(2) by (simp add: x_def flip: drop_bit_int_def) 
  moreover from this have "target div 2 ^ i \<noteq> now div 2 ^ i" by auto
  moreover have "now div 2 ^ i \<le> target div 2 ^ i" using assms by (simp add: zdiv_mono1)
  ultimately have "even (now div 2 ^ i) \<and> target div 2 ^ i = now div 2 ^ i + 1"
    by (intro xor_one_apart) auto
  with spec(1) show "bucketIndexFor now target < 63" "even (now div 2 ^ bucketIndexFor now target)"
    "target div 2 ^ bucketIndexFor now target = now div 2 ^ bucketIndexFor now target + 1"
    by (auto simp: i_def)
qed

subsection \<open>Lists, pointers and counters agree\<close>

definition held :: "bucket_ref \<Rightarrow> clocking \<Rightarrow> nat list" where
  "held r c =
     (case r of
        Ready \<Rightarrow> bk_elems (ck_ready c)
      | Wheel i \<Rightarrow> (if i < 63 then (case ck_buckets c ! i of None \<Rightarrow> [] | Some b \<Rightarrow> bk_elems b) else []))"

definition wheel_count :: "clocking \<Rightarrow> nat" where
  "wheel_count c = (\<Sum>i<63. length (held (Wheel i) c))"

text \<open>The elements \<open>xs\<close> still point to a bucket that is being taken apart.\<close>

definition linked :: "nat list \<Rightarrow> nat \<Rightarrow> clocking \<Rightarrow> bool" where
  "linked xs i c \<longleftrightarrow>
     length (ck_buckets c) = 63 \<and> bk_amount (ck_ready c) = ReadyAmount \<and>
     (\<forall>j<63. \<forall>b. ck_buckets c ! j = Some b \<longrightarrow> bk_amount b = Amount) \<and>
     (\<forall>t r. tm_bucket (ck_timers c t) = Some r \<longleftrightarrow> t \<in> set (held r c) \<or> t \<in> set xs \<and> r = Wheel i) \<and>
     (\<forall>r. distinct (held r c)) \<and> distinct xs \<and> (xs \<noteq> [] \<longrightarrow> held (Wheel i) c = []) \<and>
     ck_amount c = wheel_count c + length xs \<and> ck_readyAmount c = length (held Ready c)"

abbreviation linked_up :: "clocking \<Rightarrow> bool" where
  "linked_up \<equiv> linked [] 0"

text \<open>Nothing changed but the places of the timers.\<close>

definition moved_only :: "clocking \<Rightarrow> clocking \<Rightarrow> bool" where
  "moved_only c c' \<longleftrightarrow>
     ck_nearest c' = ck_nearest c \<and> ck_readyAmountPrev c' = ck_readyAmountPrev c \<and> ck_exec c' = ck_exec c \<and>
     (\<forall>t. ck_timers c' t = (ck_timers c t)\<lparr>tm_bucket := tm_bucket (ck_timers c' t)\<rparr>)"

lemma moved_only_refl [simp]: "moved_only c c"
  by (simp add: moved_only_def)

lemma moved_only_trans: "moved_only c c' \<Longrightarrow> moved_only c' c'' \<Longrightarrow> moved_only c c''"
  unfolding moved_only_def by (metis (mono_tags, lifting) timer.surjective timer.update_convs(2))

lemma moved_only_point: "moved_only c c' \<Longrightarrow> tm_point (ck_timers c' t) = tm_point (ck_timers c t)"
  unfolding moved_only_def by (metis timer.select_convs(1) timer.surjective timer.update_convs(2))

lemma wheel_count_change:
  assumes "k < 63" "\<And>j. j < 63 \<Longrightarrow> j \<noteq> k \<Longrightarrow> length (held (Wheel j) c') = length (held (Wheel j) c)"
  shows "wheel_count c' + length (held (Wheel k) c) = wheel_count c + length (held (Wheel k) c')"
proof -
  have "wheel_count d = length (held (Wheel k) d) + (\<Sum>j\<in>{..<63} - {k}. length (held (Wheel j) d))" for d
    using assms(1) by (simp add: wheel_count_def sum.remove[of "{..<63}" k])
  moreover have "(\<Sum>j\<in>{..<63} - {k}. length (held (Wheel j) c')) = (\<Sum>j\<in>{..<63} - {k}. length (held (Wheel j) c))"
    by (rule sum.cong) (auto simp: assms(2))
  ultimately show ?thesis by simp
qed

lemma wheel_count_same:
  "(\<And>j. j < 63 \<Longrightarrow> held (Wheel j) c' = held (Wheel j) c) \<Longrightarrow> wheel_count c' = wheel_count c"
  by (simp add: wheel_count_def)

lemmas clock_ops = bucket_at_def put_bucket_def reset_bucket_def count_up_def count_down_def set_timer_def

definition ref_ok :: "bucket_ref \<Rightarrow> bool" where
  "ref_ok r \<longleftrightarrow> (case r of Ready \<Rightarrow> True | Wheel i \<Rightarrow> i < 63)"

lemma ref_ok_simps [simp]: "ref_ok Ready" "ref_ok (Wheel i) \<longleftrightarrow> i < 63"
  by (simp_all add: ref_ok_def)

lemma held_put_bucket:
  assumes "length (ck_buckets c) = 63" "ref_ok r"
  shows "held r' (put_bucket r b c) = (if r' = r then bk_elems b else held r' c)"
  using assms by (auto simp: held_def put_bucket_def split: bucket_ref.splits)

lemma held_bucket_at: "ref_ok r \<Longrightarrow> bucket_at r c = Some b \<Longrightarrow> held r c = bk_elems b"
  by (auto simp: held_def bucket_at_def split: bucket_ref.splits)

lemma held_simps [simp]:
  "held r (set_timer t f c) = held r c"
  "held r (count_up a n c) = held r c"
  "held r (count_down a n c) = held r c"
  "held r (c\<lparr>ck_timers := ts\<rparr>) = held r c"
  "held r (c\<lparr>ck_now := m\<rparr>) = held r c"
  "held r (c\<lparr>ck_nearest := m\<rparr>) = held r c"
  "held r (c\<lparr>ck_exec := e\<rparr>) = held r c"
  "held r (c\<lparr>ck_readyAmountPrev := n\<rparr>) = held r c"
  by (auto simp: held_def clock_ops split: bucket_ref.splits amount.splits)

lemma held_reset_bucket:
  "length (ck_buckets c) = 63 \<Longrightarrow> held r (reset_bucket i c) = (if r = Wheel i then [] else held r c)"
  by (auto simp: held_def reset_bucket_def split: bucket_ref.splits)

lemma fold_adopt:
  "fold (adopt r) xs c =
     c\<lparr>ck_timers := \<lambda>t. if t \<in> set xs then (ck_timers c t)\<lparr>tm_bucket := Some r\<rparr> else ck_timers c t\<rparr>"
  by (induction xs arbitrary: c) (auto simp: adopt_def set_timer_def fun_eq_iff)

lemma linked_parts:
  assumes "linked xs i c"
  shows "length (ck_buckets c) = 63" "bk_amount (ck_ready c) = ReadyAmount"
    "\<And>j b. j < 63 \<Longrightarrow> ck_buckets c ! j = Some b \<Longrightarrow> bk_amount b = Amount"
    "\<And>t r. tm_bucket (ck_timers c t) = Some r \<longleftrightarrow> t \<in> set (held r c) \<or> t \<in> set xs \<and> r = Wheel i"
    "\<And>r. distinct (held r c)" "distinct xs" "xs \<noteq> [] \<Longrightarrow> held (Wheel i) c = []"
    "ck_amount c = wheel_count c + length xs" "ck_readyAmount c = length (held Ready c)"
  using assms by (auto simp: linked_def)

definition amount_of :: "bucket_ref \<Rightarrow> amount" where
  "amount_of r = (case r of Ready \<Rightarrow> ReadyAmount | Wheel _ \<Rightarrow> Amount)"

lemma amount_of_simps [simp]: "amount_of Ready = ReadyAmount" "amount_of (Wheel i) = Amount"
  by (simp_all add: amount_of_def)

lemma amount_of_if: "amount_of r = (if r = Ready then ReadyAmount else Amount)"
  by (cases r) simp_all

lemma amount_bucket_at:
  "linked xs i c \<Longrightarrow> ref_ok r \<Longrightarrow> bucket_at r c = Some b \<Longrightarrow> bk_amount b = amount_of r"
  by (cases r) (auto simp: bucket_at_def linked_def)

text \<open>A timer that is in no list goes to the end of one.\<close>

lemma link_last_simps:
  assumes "length (ck_buckets c) = 63" "ref_ok r" "bucket_at r c = Some b"
  shows "held r' (link_last t r c) = (if r' = r then held r c @ [t] else held r' c)"
    and "ck_timers (link_last t r c) = (ck_timers c)(t := (ck_timers c t)\<lparr>tm_bucket := Some r\<rparr>)"
    and "length (ck_buckets (link_last t r c)) = 63"
    and "ck_amount (link_last t r c) = ck_amount c"
    and "ck_readyAmount (link_last t r c) = ck_readyAmount c"
    and "ck_now (link_last t r c) = ck_now c"
    and "moved_only c (link_last t r c)"
    and "j < 63 \<Longrightarrow> ck_buckets (link_last t r c) ! j =
           (if r = Wheel j then Some (b\<lparr>bk_elems := bk_elems b @ [t]\<rparr>) else ck_buckets c ! j)"
    and "bk_amount (ck_ready (link_last t r c)) = bk_amount (ck_ready c)"
proof -
  from assms have len: "length (ck_buckets (set_timer t f c)) = 63" for f by (simp add: set_timer_def)
  show "held r' (link_last t r c) = (if r' = r then held r c @ [t] else held r' c)"
    using assms len by (simp add: link_last_def held_put_bucket held_bucket_at)
  show "ck_timers (link_last t r c) = (ck_timers c)(t := (ck_timers c t)\<lparr>tm_bucket := Some r\<rparr>)"
    "length (ck_buckets (link_last t r c)) = 63" "ck_amount (link_last t r c) = ck_amount c"
    "ck_readyAmount (link_last t r c) = ck_readyAmount c" "ck_now (link_last t r c) = ck_now c"
    "moved_only c (link_last t r c)" "bk_amount (ck_ready (link_last t r c)) = bk_amount (ck_ready c)"
    using assms by (auto simp: link_last_def clock_ops moved_only_def split: bucket_ref.splits)
  show "j < 63 \<Longrightarrow> ck_buckets (link_last t r c) ! j =
           (if r = Wheel j then Some (b\<lparr>bk_elems := bk_elems b @ [t]\<rparr>) else ck_buckets c ! j)"
    using assms by (auto simp: link_last_def clock_ops split: bucket_ref.splits)
qed

lemma wheel_count_last:
  assumes "\<And>r'. held r' c' = (if r' = r then held r c @ [t] else held r' c)" "ref_ok r"
  shows "wheel_count c' = wheel_count c + (if r = Ready then 0 else 1)"
proof (cases r)
  case Ready
  have "wheel_count c' = wheel_count c"
    by (rule wheel_count_same) (use assms(1) Ready in auto)
  with Ready show ?thesis by simp
next
  case (Wheel k)
  have "wheel_count c' + length (held (Wheel k) c) = wheel_count c + length (held (Wheel k) c')"
    by (rule wheel_count_change) (use assms Wheel in auto)
  moreover have "length (held (Wheel k) c') = Suc (length (held (Wheel k) c))"
    unfolding assms(1) using Wheel by simp
  ultimately show ?thesis using Wheel by simp
qed

lemma linked_kinds_last:
  assumes "linked xs i c" "ref_ok r" "bucket_at r c = Some b" "j < 63"
    "ck_buckets (link_last t r c) ! j = Some b'"
  shows "bk_amount b' = Amount"
proof -
  have amount: "bk_amount b = amount_of r" using assms by (intro amount_bucket_at)
  show ?thesis
  proof (cases "r = Wheel j")
    case True
    with assms linked_parts(1)[OF assms(1)] amount show ?thesis by (auto simp: link_last_simps)
  next
    case False
    with assms linked_parts(1,3)[OF assms(1)] show ?thesis by (auto simp: link_last_simps)
  qed
qed

lemma count_simps [simp]:
  "ck_timers (count_up a n c) = ck_timers c" "ck_timers (count_down a n c) = ck_timers c"
  "ck_buckets (count_up a n c) = ck_buckets c" "ck_buckets (count_down a n c) = ck_buckets c"
  "ck_ready (count_up a n c) = ck_ready c" "ck_ready (count_down a n c) = ck_ready c"
  "ck_now (count_up a n c) = ck_now c" "ck_now (count_down a n c) = ck_now c"
  "ck_nearest (count_up a n c) = ck_nearest c" "ck_nearest (count_down a n c) = ck_nearest c"
  "ck_exec (count_up a n c) = ck_exec c" "ck_exec (count_down a n c) = ck_exec c"
  "ck_readyAmountPrev (count_up a n c) = ck_readyAmountPrev c"
  "ck_readyAmountPrev (count_down a n c) = ck_readyAmountPrev c"
  "ck_amount (count_up a n c) = ck_amount c + (if a = Amount then n else 0)"
  "ck_amount (count_down a n c) = ck_amount c - (if a = Amount then n else 0)"
  "ck_readyAmount (count_up a n c) = ck_readyAmount c + (if a = ReadyAmount then n else 0)"
  "ck_readyAmount (count_down a n c) = ck_readyAmount c - (if a = ReadyAmount then n else 0)"
  "bucket_at r (count_up a n c) = bucket_at r c" "bucket_at r (count_down a n c) = bucket_at r c"
  by (auto simp: clock_ops split: amount.splits bucket_ref.splits)

lemma wheel_count_count [simp]:
  "wheel_count (count_up a n c) = wheel_count c" "wheel_count (count_down a n c) = wheel_count c"
  by (simp_all add: wheel_count_def)

lemma moved_only_count [simp]:
  "moved_only c (count_up a n d) = moved_only c d" "moved_only c (count_down a n d) = moved_only c d"
  by (simp_all add: moved_only_def)

lemma bucket_insert_simps:
  assumes "linked xs i c" "ref_ok r" "bucket_at r c = Some b"
  shows "bucket_insert t r c = count_up (amount_of r) 1 (link_last t r c)"
  using assms amount_bucket_at[OF assms] by (simp add: bucket_insert_def)

lemma bucket_insert_linked:
  assumes "linked_up c" "ref_ok r" "bucket_at r c = Some b" "tm_bucket (ck_timers c t) = None"
  shows "linked_up (bucket_insert t r c)"
proof -
  note parts = linked_parts[OF assms(1)]
  note last = link_last_simps[OF parts(1) assms(2,3)]
  have fresh: "t \<notin> set (held r' c)" for r' using parts(4)[of t r'] assms(4) by auto
  have counts: "wheel_count (link_last t r c) = wheel_count c + (if r = Ready then 0 else 1)"
    by (rule wheel_count_last[OF last(1) assms(2)])
  have places: "(tm_bucket (ck_timers (link_last t r c) t') = Some r') = (t' \<in> set (held r' (link_last t r c)))" for t' r'
    using parts(4)[of t' r'] fresh[of r'] by (auto simp: last)
  show ?thesis
    unfolding linked_def bucket_insert_simps[OF assms(1-3)]
    using linked_kinds_last[OF assms(1-3)] parts fresh counts
    by (auto simp: places last(1,3-6,9) amount_of_if split: if_splits)
qed

text \<open>What \<open>_bucket\<close> points to exists.\<close>

lemma linked_bucket:
  assumes "linked_up c" "tm_bucket (ck_timers c t) = Some r"
  obtains b where "ref_ok r" "bucket_at r c = Some b" "t \<in> set (bk_elems b)"
proof -
  from linked_parts(4)[OF assms(1), of t r] assms(2) have "t \<in> set (held r c)" by simp
  then have "\<exists>b. ref_ok r \<and> bucket_at r c = Some b \<and> t \<in> set (bk_elems b)"
  proof (cases r)
    case (Wheel i)
    with \<open>t \<in> set (held r c)\<close> show ?thesis
      by (cases "i < 63"; cases "ck_buckets c ! i") (simp_all add: held_def bucket_at_def)
  qed (use \<open>t \<in> set (held r c)\<close> in \<open>simp add: held_def bucket_at_def\<close>)
  with that show thesis by blast
qed

lemma bucket_remove_simps:
  assumes "linked_up c" "ref_ok r" "bucket_at r c = Some b"
  shows "held r' (bucket_remove t r c) = (if r' = r then remove1 t (held r c) else held r' c)"
    and "ck_timers (bucket_remove t r c) = (ck_timers c)(t := (ck_timers c t)\<lparr>tm_bucket := None\<rparr>)"
    and "length (ck_buckets (bucket_remove t r c)) = 63"
    and "ck_amount (bucket_remove t r c) = ck_amount c - (if r = Ready then 0 else 1)"
    and "ck_readyAmount (bucket_remove t r c) = ck_readyAmount c - (if r = Ready then 1 else 0)"
    and "ck_now (bucket_remove t r c) = ck_now c"
    and "moved_only c (bucket_remove t r c)"
    and "j < 63 \<Longrightarrow> ck_buckets (bucket_remove t r c) ! j =
           (if r = Wheel j then Some (b\<lparr>bk_elems := remove1 t (bk_elems b)\<rparr>) else ck_buckets c ! j)"
    and "bk_amount (ck_ready (bucket_remove t r c)) = bk_amount (ck_ready c)"
proof -
  note parts = linked_parts[OF assms(1)]
  have len: "length (ck_buckets (set_timer t f c)) = 63" for f using parts(1) by (simp add: set_timer_def)
  have amount: "bk_amount b = amount_of r" using assms by (intro amount_bucket_at)
  have eq: "bucket_remove t r c = count_down (amount_of r) 1
      (put_bucket r (b\<lparr>bk_elems := remove1 t (bk_elems b)\<rparr>) (set_timer t (\<lambda>x. x\<lparr>tm_bucket := None\<rparr>) c))"
    by (simp add: bucket_remove_def assms(3) amount)
  show "held r' (bucket_remove t r c) = (if r' = r then remove1 t (held r c) else held r' c)"
    using assms len by (simp add: eq held_put_bucket held_bucket_at)
  show "ck_timers (bucket_remove t r c) = (ck_timers c)(t := (ck_timers c t)\<lparr>tm_bucket := None\<rparr>)"
    "length (ck_buckets (bucket_remove t r c)) = 63"
    "ck_amount (bucket_remove t r c) = ck_amount c - (if r = Ready then 0 else 1)"
    "ck_readyAmount (bucket_remove t r c) = ck_readyAmount c - (if r = Ready then 1 else 0)"
    "ck_now (bucket_remove t r c) = ck_now c" "moved_only c (bucket_remove t r c)"
    "bk_amount (ck_ready (bucket_remove t r c)) = bk_amount (ck_ready c)"
    using parts(1) assms(2,3) by (auto simp: eq amount_of_if put_bucket_def set_timer_def moved_only_def bucket_at_def
        split: bucket_ref.splits)
  show "j < 63 \<Longrightarrow> ck_buckets (bucket_remove t r c) ! j =
           (if r = Wheel j then Some (b\<lparr>bk_elems := remove1 t (bk_elems b)\<rparr>) else ck_buckets c ! j)"
    using parts(1) assms(2,3) by (auto simp: eq put_bucket_def set_timer_def split: bucket_ref.splits)
qed

lemma bucket_remove_linked:
  assumes "linked_up c" "tm_bucket (ck_timers c t) = Some r"
  shows "linked_up (bucket_remove t r c)"
proof -
  note parts = linked_parts[OF assms(1)]
  obtain b where b: "ref_ok r" "bucket_at r c = Some b" "t \<in> set (bk_elems b)"
    by (rule linked_bucket[OF assms])
  note rem = bucket_remove_simps[OF assms(1) b(1,2)]
  have mem: "t \<in> set (held r c)" using b by (simp add: held_bucket_at)
  then have pos: "0 < length (held r c)" by (cases "held r c") auto
  have elsewhere: "t \<notin> set (held r' c)" if "r' \<noteq> r" for r' using parts(4)[of t r'] assms(2) that by auto
  have size: "length (held r (bucket_remove t r c)) = length (held r c) - 1"
    using mem by (simp add: rem length_remove1)
  have counts: "wheel_count (bucket_remove t r c) = wheel_count c - (if r = Ready then 0 else 1)"
  proof (cases r)
    case Ready
    have "wheel_count (bucket_remove t r c) = wheel_count c"
      by (rule wheel_count_same) (use rem(1) Ready in auto)
    with Ready show ?thesis by simp
  next
    case (Wheel k)
    have "wheel_count (bucket_remove t r c) + length (held (Wheel k) c)
        = wheel_count c + length (held (Wheel k) (bucket_remove t r c))"
      by (rule wheel_count_change) (use b Wheel rem(1) in auto)
    with size pos Wheel show ?thesis by (cases "held (Wheel k) c") auto
  qed
  have places: "(tm_bucket (ck_timers (bucket_remove t r c) t') = Some r') = (t' \<in> set (held r' (bucket_remove t r c)))"
    for t' r' using parts(4)[of t' r'] elsewhere[of r'] parts(5)[of r] by (auto simp: rem)
  have kinds: "bk_amount b' = Amount" if "j < 63" "ck_buckets (bucket_remove t r c) ! j = Some b'" for j b'
    using that parts(3)[of j] b by (auto simp: rem bucket_at_def split: if_splits)
  show ?thesis
    unfolding linked_def using parts counts kinds size
    by (auto simp: places rem(1,3-6,9) split: if_splits)
qed

text \<open>A lower bucket is emptied into the ready one.\<close>

lemma flushTo_Ready:
  assumes "linked_up c" "i < 63" "ck_buckets c ! i = Some b"
  shows "flushTo (Wheel i) Ready c =
    c\<lparr>ck_buckets := (ck_buckets c)[i := Some (b\<lparr>bk_elems := []\<rparr>)],
      ck_ready := (ck_ready c)\<lparr>bk_elems := bk_elems (ck_ready c) @ bk_elems b\<rparr>,
      ck_amount := ck_amount c - length (bk_elems b), ck_readyAmount := ck_readyAmount c + length (bk_elems b),
      ck_timers := \<lambda>t. if t \<in> set (bk_elems b) then (ck_timers c t)\<lparr>tm_bucket := Some Ready\<rparr> else ck_timers c t\<rparr>"
proof -
  note parts = linked_parts[OF assms(1)]
  have kinds: "bk_amount b = Amount" "bk_amount (ck_ready c) = ReadyAmount" using parts(2,3) assms by auto
  show ?thesis
  proof (cases "bk_elems b = []")
    case True
    then have "b\<lparr>bk_elems := []\<rparr> = b" by (cases b) simp
    with assms(3) have "(ck_buckets c)[i := Some (b\<lparr>bk_elems := []\<rparr>)] = ck_buckets c"
      by (metis list_update_id)
    with True assms(3) show ?thesis by (simp add: flushTo_def bucket_at_def)
  next
    case False
    with assms(3) kinds show ?thesis
      by (simp add: flushTo_def bucket_at_def fold_adopt put_bucket_def count_up_def count_down_def cong: if_cong)
  qed
qed

lemma linked_apart:
  assumes "linked_up c" "t \<in> set (held r c)" "t \<in> set (held r' c)"
  shows "r = r'"
  using linked_parts(4)[OF assms(1), of t r] linked_parts(4)[OF assms(1), of t r'] assms(2,3) by simp

definition moved_to :: "(nat \<Rightarrow> bool) \<Rightarrow> (nat \<Rightarrow> bucket_ref) \<Rightarrow> clocking \<Rightarrow> clocking \<Rightarrow> bool" where
  "moved_to P f c c' \<longleftrightarrow> moved_only c c' \<and>
     (\<forall>t. tm_bucket (ck_timers c' t) = (if P t then Some (f t) else tm_bucket (ck_timers c t)))"

lemma flush_lower_some:
  assumes "linked_up c" "i < 63" "ck_buckets c ! i = Some b"
  shows "linked_up (flush_lower i c) \<and> ck_now (flush_lower i c) = ck_now c \<and>
    moved_to (\<lambda>t. tm_bucket (ck_timers c t) = Some (Wheel i)) (\<lambda>t. Ready) c (flush_lower i c) \<and>
    ck_buckets (flush_lower i c) = (ck_buckets c)[i := None]"
proof -
  note parts = linked_parts[OF assms(1)]
  define d where "d = flush_lower i c"
  have d: "d = c\<lparr>ck_buckets := (ck_buckets c)[i := None],
      ck_ready := (ck_ready c)\<lparr>bk_elems := bk_elems (ck_ready c) @ bk_elems b\<rparr>,
      ck_amount := ck_amount c - length (bk_elems b), ck_readyAmount := ck_readyAmount c + length (bk_elems b),
      ck_timers := \<lambda>t. if t \<in> set (bk_elems b) then (ck_timers c t)\<lparr>tm_bucket := Some Ready\<rparr> else ck_timers c t\<rparr>"
    by (simp add: d_def flush_lower_def assms(3) flushTo_Ready[OF assms] reset_bucket_def)
  then have fields: "ck_now d = ck_now c" "length (ck_buckets d) = 63" "bk_amount (ck_ready d) = ReadyAmount"
    "ck_amount d = ck_amount c - length (bk_elems b)" "ck_readyAmount d = ck_readyAmount c + length (bk_elems b)"
    "ck_timers d = (\<lambda>t. if t \<in> set (bk_elems b) then (ck_timers c t)\<lparr>tm_bucket := Some Ready\<rparr> else ck_timers c t)"
    "ck_buckets d = (ck_buckets c)[i := None]"
    using parts(1,2) by simp_all
  have elems: "bk_elems b = held (Wheel i) c" using assms by (simp add: held_def)
  have held: "held r d = (case r of Ready \<Rightarrow> held Ready c @ held (Wheel i) c
      | Wheel j \<Rightarrow> if j = i then [] else held (Wheel j) c)" for r
    using assms(2,3) parts(1) by (cases r) (auto simp: d held_def)
  have "wheel_count d + length (held (Wheel i) c) = wheel_count c + length (held (Wheel i) d)"
    by (rule wheel_count_change) (use assms(2) held in auto)
  then have counts: "wheel_count d = wheel_count c - length (bk_elems b)" by (simp add: held elems)
  have mem: "t \<in> set (bk_elems b) \<longleftrightarrow> tm_bucket (ck_timers c t) = Some (Wheel i)" for t
    using parts(4)[of t "Wheel i"] elems by simp
  have places: "(tm_bucket (ck_timers d t) = Some r) = (t \<in> set (held r d))" for t r
    using parts(4)[of t r] parts(4)[of t "Wheel i"] by (cases r) (auto simp: fields(6) elems held)
  have "distinct (held Ready c @ held (Wheel i) c)"
    using linked_apart[OF assms(1)] parts(5) by (auto simp: disjoint_iff)
  then have dist: "distinct (held r d)" for r using parts(5) by (cases r) (auto simp: held)
  have kinds: "bk_amount b' = Amount" if "j < 63" "ck_buckets d ! j = Some b'" for j b'
    using that parts(3)[of j] assms(2) parts(1) by (cases "j = i") (auto simp: fields(7))
  have "linked_up d"
    unfolding linked_def using parts counts kinds dist
    by (simp add: places fields(1-5)) (simp add: held elems)
  moreover have "moved_to (\<lambda>t. tm_bucket (ck_timers c t) = Some (Wheel i)) (\<lambda>t. Ready) c d"
    by (auto simp: moved_to_def moved_only_def d mem cong: if_cong)
  ultimately show ?thesis using fields(1,7) by (simp add: d_def)
qed

lemma flush_lower_spec:
  assumes "linked_up c" "i < 63"
  shows "linked_up (flush_lower i c)" "ck_now (flush_lower i c) = ck_now c"
    "moved_to (\<lambda>t. tm_bucket (ck_timers c t) = Some (Wheel i)) (\<lambda>t. Ready) c (flush_lower i c)"
    "ck_buckets (flush_lower i c) = (ck_buckets c)[i := None]"
proof -
  note parts = linked_parts[OF assms(1)]
  have "linked_up (flush_lower i c) \<and> ck_now (flush_lower i c) = ck_now c \<and>
    moved_to (\<lambda>t. tm_bucket (ck_timers c t) = Some (Wheel i)) (\<lambda>t. Ready) c (flush_lower i c) \<and>
    ck_buckets (flush_lower i c) = (ck_buckets c)[i := None]"
  proof (cases "ck_buckets c ! i")
    case None
    then have "held (Wheel i) c = []" by (simp add: held_def)
    then have "tm_bucket (ck_timers c t) \<noteq> Some (Wheel i)" for t
      using parts(4)[of t "Wheel i"] by simp
    moreover have "(ck_buckets c)[i := None] = ck_buckets c" using None by (metis list_update_id)
    ultimately show ?thesis using None assms(1) by (simp add: flush_lower_def moved_to_def)
  next
    case (Some b)
    show ?thesis by (rule flush_lower_some[OF assms Some])
  qed
  then show "linked_up (flush_lower i c)" "ck_now (flush_lower i c) = ck_now c"
    "moved_to (\<lambda>t. tm_bucket (ck_timers c t) = Some (Wheel i)) (\<lambda>t. Ready) c (flush_lower i c)"
    "ck_buckets (flush_lower i c) = (ck_buckets c)[i := None]" by auto
qed

lemma flush_lowers_spec:
  assumes "linked_up c" "k \<le> 63"
  defines "d \<equiv> fold flush_lower [0..<k] c"
  shows "linked_up d \<and> ck_now d = ck_now c \<and>
    moved_to (\<lambda>t. \<exists>j<k. tm_bucket (ck_timers c t) = Some (Wheel j)) (\<lambda>t. Ready) c d \<and>
    (\<forall>j<63. ck_buckets d ! j = (if j < k then None else ck_buckets c ! j))"
  using assms(2) unfolding d_def
proof (induction k)
  case 0
  with assms(1) show ?case by (simp add: moved_to_def)
next
  case (Suc k)
  define e where "e = fold flush_lower [0..<k] c"
  have IH: "linked_up e" "ck_now e = ck_now c"
    "moved_to (\<lambda>t. \<exists>j<k. tm_bucket (ck_timers c t) = Some (Wheel j)) (\<lambda>t. Ready) c e"
    "\<And>j. j < 63 \<Longrightarrow> ck_buckets e ! j = (if j < k then None else ck_buckets c ! j)"
    using Suc by (auto simp: e_def)
  have k: "k < 63" using Suc.prems by simp
  note lower = flush_lower_spec[OF IH(1) k]
  have eq: "fold flush_lower [0..<Suc k] c = flush_lower k e" by (simp add: e_def)
  have moved: "moved_to (\<lambda>t. \<exists>j<Suc k. tm_bucket (ck_timers c t) = Some (Wheel j)) (\<lambda>t. Ready) c (flush_lower k e)"
    using IH(3) lower(3) unfolding moved_to_def
    by (auto intro: moved_only_trans simp: less_Suc_eq)
  show ?case
    unfolding eq using IH(2,4) lower(1,2,4) moved k linked_parts(1)[OF IH(1)]
    by (auto simp: nth_list_update less_Suc_eq)
qed

subsection \<open>Every timer is in the bucket of its point\<close>

definition shaped :: "clocking \<Rightarrow> bool" where
  "shaped c \<longleftrightarrow>
     (\<forall>j<63. \<forall>b. ck_buckets c ! j = Some b \<longrightarrow>
        bk_order b = j \<and> bk_start b = calculateBucketStart (ck_now c) j \<and> even (ck_now c div 2 ^ j))"

definition timely :: "int \<Rightarrow> timer \<Rightarrow> bool" where
  "timely now x \<longleftrightarrow>
     (case tm_bucket x of
        None \<Rightarrow> True
      | Some Ready \<Rightarrow> tm_point x \<le> now
      | Some (Wheel j) \<Rightarrow> tm_point x div 2 ^ j = now div 2 ^ j + 1)"

definition wheel_ok :: "clocking \<Rightarrow> bool" where
  "wheel_ok c \<longleftrightarrow> linked_up c \<and> 0 \<le> ck_now c \<and> ck_now c < 2 ^ 63 \<and> shaped c \<and> (\<forall>t. timely (ck_now c) (ck_timers c t))"

text \<open>A bucket that is missing is made where it is needed.\<close>

definition with_bucket :: "nat \<Rightarrow> int \<Rightarrow> clocking \<Rightarrow> clocking" where
  "with_bucket k s c =
     (case bucket_at (Wheel k) c of None \<Rightarrow> put_bucket (Wheel k) (new_bucket Amount k s) c | Some _ \<Rightarrow> c)"

lemma with_bucket_spec:
  assumes "linked xs i c" "k < 63"
  shows "linked xs i (with_bucket k s c)" "held r (with_bucket k s c) = held r c"
    "\<exists>b. bucket_at (Wheel k) (with_bucket k s c) = Some b"
    "ck_timers (with_bucket k s c) = ck_timers c" "ck_now (with_bucket k s c) = ck_now c"
    "moved_only c (with_bucket k s c)" "ck_ready (with_bucket k s c) = ck_ready c"
    "shaped c \<Longrightarrow> s = calculateBucketStart (ck_now c) k \<Longrightarrow> even (ck_now c div 2 ^ k) \<Longrightarrow> shaped (with_bucket k s c)"
proof -
  note parts = linked_parts[OF assms(1)]
  show held: "held r (with_bucket k s c) = held r c" for r
    using parts(1) assms(2)
    by (cases "ck_buckets c ! k"; cases r)
       (auto simp: with_bucket_def bucket_at_def put_bucket_def new_bucket_def held_def nth_list_update)
  show "\<exists>b. bucket_at (Wheel k) (with_bucket k s c) = Some b"
    using parts(1) assms(2) by (cases "ck_buckets c ! k") (auto simp: with_bucket_def bucket_at_def put_bucket_def)
  show fields: "ck_timers (with_bucket k s c) = ck_timers c" "ck_now (with_bucket k s c) = ck_now c"
    "moved_only c (with_bucket k s c)" "ck_ready (with_bucket k s c) = ck_ready c"
    by (cases "ck_buckets c ! k"; simp add: with_bucket_def bucket_at_def put_bucket_def moved_only_def)+
  have rest: "length (ck_buckets (with_bucket k s c)) = 63" "ck_amount (with_bucket k s c) = ck_amount c"
    "ck_readyAmount (with_bucket k s c) = ck_readyAmount c"
    using parts(1) by (cases "ck_buckets c ! k"; simp add: with_bucket_def bucket_at_def put_bucket_def)+
  have new: "ck_buckets (with_bucket k s c) ! j =
      (if j = k \<and> ck_buckets c ! k = None then Some (new_bucket Amount k s) else ck_buckets c ! j)" if "j < 63" for j
    using that parts(1) by (cases "ck_buckets c ! k") (auto simp: with_bucket_def bucket_at_def put_bucket_def)
  have "bk_amount b = Amount" if "j < 63" "ck_buckets (with_bucket k s c) ! j = Some b" for j b
    using that parts(3)[of j b] by (auto simp: new new_bucket_def split: if_splits)
  moreover have "wheel_count (with_bucket k s c) = wheel_count c" by (rule wheel_count_same) (rule held)
  ultimately show "linked xs i (with_bucket k s c)"
    unfolding linked_def using parts by (simp add: held fields rest)
  show "shaped (with_bucket k s c)"
    if "shaped c" "s = calculateBucketStart (ck_now c) k" "even (ck_now c div 2 ^ k)"
    using that(1) unfolding shaped_def fields
    by (metis new new_bucket_def bucket.select_convs(2,3) option.inject that(2,3))
qed

lemma linked_arrives:
  assumes "linked (t # xs) i c" "ref_ok r" "r \<noteq> Wheel i"
    and "\<And>r'. held r' d = (if r' = r then held r c @ [t] else held r' c)"
    and "ck_timers d = (ck_timers c)(t := (ck_timers c t)\<lparr>tm_bucket := Some r\<rparr>)"
    and "length (ck_buckets d) = 63" "bk_amount (ck_ready d) = ReadyAmount"
    and "\<And>j b. j < 63 \<Longrightarrow> ck_buckets d ! j = Some b \<Longrightarrow> bk_amount b = Amount"
    and "ck_amount d = ck_amount c - (if r = Ready then 1 else 0)"
    and "ck_readyAmount d = ck_readyAmount c + (if r = Ready then 1 else 0)"
  shows "linked xs i d"
proof -
  note parts = linked_parts[OF assms(1)]
  have at: "tm_bucket (ck_timers c t) = Some (Wheel i)" using parts(4)[of t "Wheel i"] by simp
  have empty: "held (Wheel i) c = []" using parts(7) by simp
  have fresh: "t \<notin> set (held r' c)" for r'
    using parts(4)[of t r'] at empty by (cases "r' = Wheel i") auto
  have counts: "wheel_count d = wheel_count c + (if r = Ready then 0 else 1)"
    by (rule wheel_count_last[OF assms(4,2)])
  have places: "(tm_bucket (ck_timers d t') = Some r') = (t' \<in> set (held r' d) \<or> t' \<in> set xs \<and> r' = Wheel i)" for t' r'
    using parts(4)[of t' r'] fresh[of r'] assms(3) parts(6) empty by (auto simp: assms(4,5))
  have dist: "distinct (held r' d)" for r' using parts(5) fresh by (auto simp: assms(4))
  show ?thesis
    unfolding linked_def places using assms(3,6-10) counts dist parts(6,8,9) empty
    by (auto simp: assms(4) split: if_splits)
qed

definition place :: "int \<Rightarrow> int \<Rightarrow> bucket_ref" where
  "place start point = (if point = start then Ready else Wheel (64 - count0Most (point - start) - 1))"

lemma place_self [simp]: "place s s = Ready"
  by (simp add: place_def)

lemma place_spec:
  assumes "0 \<le> start" "2 ^ i dvd start" "start \<le> point" "point < start + 2 ^ i" "i < 63"
    and "place start point = Wheel k"
  shows "k < i" "start < point" "count0Most (point - start) < 64" "even (start div 2 ^ k)"
    "calculateBucketStart start k = start + 2 ^ k" "point div 2 ^ k = start div 2 ^ k + 1"
proof -
  define off where "off = point - start"
  have k: "k = 64 - count0Most off - 1" and "off \<noteq> 0"
    using assms(6) by (auto simp: place_def off_def split: if_splits)
  with assms have pos: "0 < off" by (simp add: off_def)
  have small: "off < 2 ^ i" using assms by (simp add: off_def)
  also have "(2::int) ^ i < 2 ^ 63" using assms(5) by (intro power_strict_increasing) auto
  finally have "off < 2 ^ 63" .
  note spec = count0Most_spec[OF pos this]
  from spec(3) show "count0Most (point - start) < 64" by (simp add: off_def)
  from pos show "start < point" by (simp add: off_def)
  have one: "off div 2 ^ k = 1" using spec(2) by (simp add: k)
  show ki: "k < i"
  proof (rule ccontr)
    assume "\<not> k < i"
    then have "(2::int) ^ i \<le> 2 ^ k" by (simp add: power_increasing)
    with small have "off < 2 ^ k" by (rule less_le_trans)
    with pos one show False by simp
  qed
  have "(2::int) ^ Suc k dvd 2 ^ i" using ki by (intro le_imp_power_dvd) simp
  with assms(2) have dvd: "2 ^ Suc k dvd start" by (rule dvd_trans[rotated])
  then obtain q where q: "start = 2 ^ Suc k * q" by (elim dvdE)
  have quot: "start div 2 ^ k = 2 * q" by (simp add: q)
  then show "even (start div 2 ^ k)" by simp
  show "calculateBucketStart start k = start + 2 ^ k"
    by (simp add: calculateBucketStart_eq quot) (simp add: q distrib_left)
  have "point = off + 2 ^ k * (2 * q)" by (simp add: off_def q)
  then have "point div 2 ^ k = 2 * q + off div 2 ^ k" by simp
  with one quot show "point div 2 ^ k = start div 2 ^ k + 1" by simp
qed

lemma linked_nil: "linked [] i c = linked_up c"
  by (simp add: linked_def)

lemma separate_one_ready:
  assumes "linked xs i c" "bk_amount b = Amount" "tm_point (ck_timers c t) = bk_start b"
  shows "separate_one b time t (n, c) = (n, link_last t Ready (count_up ReadyAmount 1 (count_down Amount 1 c)))"
  using assms linked_parts(2)[OF assms(1)] by (simp add: separate_one_def Let_def)

lemma separate_one_wheel:
  assumes "bk_amount b = Amount" "place (bk_start b) (tm_point (ck_timers c t)) = Wheel k"
    and "count0Most (tm_point (ck_timers c t) - bk_start b) < 64"
  shows "separate_one b time t (n, c) =
    (if time < tm_point (ck_timers c t) \<and> tm_point (ck_timers c t) < n then tm_point (ck_timers c t) else n,
     link_last t (Wheel k) (with_bucket k (bk_start b + 2 ^ k) c))"
  using assms by (auto simp: separate_one_def Let_def place_def with_bucket_def split: if_splits option.splits)

lemma shaped_link_last:
  assumes "length (ck_buckets c) = 63" "ref_ok r" "bucket_at r c = Some b" "shaped c"
  shows "shaped (link_last t r c)"
  using assms unfolding shaped_def
  by (auto simp: link_last_simps(6,8)[OF assms(1-3)] bucket_at_def split: if_splits bucket_ref.splits)

lemma moved_to_last:
  assumes "length (ck_buckets c) = 63" "ref_ok r" "bucket_at r c = Some b"
  shows "moved_to (\<lambda>u. u = t) (\<lambda>u. r) c (link_last t r c)"
  using link_last_simps(2,7)[OF assms] by (simp add: moved_to_def)

text \<open>What holds while the elements \<open>xs\<close> of the bucket \<open>b\<close> have still to be given new places.\<close>

definition separating :: "bucket \<Rightarrow> nat list \<Rightarrow> clocking \<Rightarrow> bool" where
  "separating b xs c \<longleftrightarrow>
     linked xs (bk_order b) c \<and> shaped c \<and> ck_now c = bk_start b \<and> bk_amount b = Amount \<and>
     bk_order b < 63 \<and> 0 \<le> bk_start b \<and> 2 ^ bk_order b dvd bk_start b \<and>
     (\<forall>t\<in>set xs. bk_start b \<le> tm_point (ck_timers c t) \<and> tm_point (ck_timers c t) < bk_start b + 2 ^ bk_order b)"

lemma separate_one_spec:
  fixes n time :: int
  assumes "separating b (t # xs) c"
  defines "p \<equiv> tm_point (ck_timers c t)"
  defines "s' \<equiv> separate_one b time t (n, c)"
  shows "separating b xs (snd s') \<and> moved_to (\<lambda>u. u = t) (\<lambda>u. place (bk_start b) p) c (snd s') \<and>
    fst s' = (if p \<noteq> bk_start b \<and> time < p \<and> p < n then p else n)"
proof -
  from assms(1) have sep: "linked (t # xs) (bk_order b) c" "shaped c" "ck_now c = bk_start b" "bk_amount b = Amount"
    "bk_order b < 63" "0 \<le> bk_start b" "2 ^ bk_order b dvd bk_start b" "bk_start b \<le> p" "p < bk_start b + 2 ^ bk_order b"
    by (auto simp: separating_def p_def)
  note parts = linked_parts[OF sep(1)]
  have "linked xs (bk_order b) (snd s') \<and> shaped (snd s') \<and> ck_now (snd s') = bk_start b \<and>
      moved_to (\<lambda>u. u = t) (\<lambda>u. place (bk_start b) p) c (snd s') \<and>
      fst s' = (if p \<noteq> bk_start b \<and> time < p \<and> p < n then p else n)"
  proof (cases "place (bk_start b) p")
    case Ready
    then have p: "p = bk_start b" by (simp add: place_def split: if_splits)
    define e where "e = count_up ReadyAmount 1 (count_down Amount 1 c)"
    have s': "s' = (n, link_last t Ready e)"
      unfolding s'_def e_def by (rule separate_one_ready[OF sep(1,4)]) (use p in \<open>simp add: p_def\<close>)
    have e: "held r e = held r c" "ck_timers e = ck_timers c" "ck_amount e = ck_amount c - 1"
      "ck_readyAmount e = ck_readyAmount c + 1" "ck_buckets e = ck_buckets c" "ck_ready e = ck_ready c"
      "ck_now e = ck_now c" for r
      by (simp_all add: e_def)
    have len: "length (ck_buckets e) = 63" "bucket_at Ready e = Some (ck_ready c)" "shaped e"
      using parts(1) sep(2) by (simp_all add: e_def bucket_at_def shaped_def)
    note last = link_last_simps[OF len(1) _ len(2), simplified]
    have "linked xs (bk_order b) (link_last t Ready e)"
      by (rule linked_arrives[OF sep(1), where r = Ready])
         (use parts(2,3) in \<open>simp_all add: last e\<close>)
    moreover have "moved_to (\<lambda>u. u = t) (\<lambda>u. Ready) c (link_last t Ready e)"
    proof -
      have "moved_only c e" by (simp add: e_def)
      with moved_to_last[OF len(1) _ len(2), of t] e(2) show ?thesis
        by (auto simp: moved_to_def intro: moved_only_trans)
    qed
    ultimately show ?thesis
      using shaped_link_last[OF len(1) _ len(2,3)] sep(3) by (simp add: s' last(6) Ready p e(7))
  next
    case (Wheel k)
    note at = place_spec[OF sep(6,7,8,9,5) Wheel]
    define e where "e = with_bucket k (bk_start b + 2 ^ k) c"
    have s': "s' = (if time < p \<and> p < n then p else n, link_last t (Wheel k) e)"
      unfolding s'_def e_def p_def by (rule separate_one_wheel) (use sep(4) Wheel at(3) in \<open>simp_all add: p_def\<close>)
    have k: "k < 63" "k \<noteq> bk_order b" using at(1) sep(5) by auto
    note made = with_bucket_spec[OF sep(1) k(1), where s = "bk_start b + 2 ^ k", folded e_def]
    obtain d where d: "bucket_at (Wheel k) e = Some d" using made(3) by blast
    note len = linked_parts(1)[OF made(1)]
    have ok: "ref_ok (Wheel k)" using k by simp
    note last = link_last_simps[OF len ok d]
    have "shaped e" by (rule made(8)) (use sep(2,3) at(4,5) in auto)
    then have "shaped (link_last t (Wheel k) e)" by (rule shaped_link_last[OF len ok d])
    moreover have "linked xs (bk_order b) (link_last t (Wheel k) e)"
      by (rule linked_arrives[OF made(1) ok])
         (use k(2) linked_parts(2)[OF made(1)] linked_kinds_last[OF made(1) ok d] in \<open>simp_all add: last(1-5,9)\<close>)
    moreover have "moved_to (\<lambda>u. u = t) (\<lambda>u. Wheel k) c (link_last t (Wheel k) e)"
      using moved_to_last[OF len ok d, of t] made(4,6) by (auto simp: moved_to_def intro: moved_only_trans)
    ultimately show ?thesis using sep(3) at(2) by (simp add: s' last(6) made(5) Wheel)
  qed
  moreover from this have "tm_point (ck_timers (snd s') u) = tm_point (ck_timers c u)" for u
    by (simp add: moved_to_def moved_only_point)
  ultimately show ?thesis using assms(1) by (simp add: separating_def)
qed

lemma separate_spec:
  fixes n time :: int
  assumes "separating b xs c" "bk_start b \<le> time"
  defines "s' \<equiv> fold (separate_one b time) xs (n, c)"
  shows "separating b [] (snd s') \<and>
    moved_to (\<lambda>u. u \<in> set xs) (\<lambda>u. place (bk_start b) (tm_point (ck_timers c u))) c (snd s') \<and>
    (\<forall>u\<in>set xs. time < tm_point (ck_timers c u) \<longrightarrow> fst s' \<le> tm_point (ck_timers c u)) \<and>
    (fst s' = n \<or> fst s' < n \<and> (\<exists>u\<in>set xs. time < tm_point (ck_timers c u) \<and> fst s' = tm_point (ck_timers c u)))"
  using assms(1) unfolding s'_def
proof (induction xs arbitrary: n c)
  case Nil
  then show ?case by (simp add: moved_to_def)
next
  case (Cons t xs)
  define s1 where "s1 = separate_one b time t (n, c)"
  note one = separate_one_spec[OF Cons.prems, of time n, folded s1_def]
  have points: "tm_point (ck_timers (snd s1) u) = tm_point (ck_timers c u)" for u
    using one by (simp add: moved_to_def moved_only_point)
  have "s1 = (fst s1, snd s1)" by simp
  then have eq: "fold (separate_one b time) (t # xs) (n, c) = fold (separate_one b time) xs (fst s1, snd s1)"
    by (simp add: s1_def)
  note rest = Cons.IH[of "snd s1" "fst s1", unfolded points]
  have "moved_to (\<lambda>u. u \<in> set (t # xs)) (\<lambda>u. place (bk_start b) (tm_point (ck_timers c u))) c
      (snd (fold (separate_one b time) xs (fst s1, snd s1)))"
    using one rest unfolding moved_to_def by (auto intro: moved_only_trans)
  then show ?case
    unfolding eq using one rest assms(2) by (auto split: if_splits)
qed

text \<open>The bucket being taken apart may be let go before its elements are given their places.\<close>

lemma reset_commutes:
  "k \<noteq> i \<Longrightarrow> with_bucket k s (reset_bucket i c) = reset_bucket i (with_bucket k s c)"
  "r \<noteq> Wheel i \<Longrightarrow> link_last t r (reset_bucket i c) = reset_bucket i (link_last t r c)"
  "count_up a n (reset_bucket i c) = reset_bucket i (count_up a n c)"
  "count_down a n (reset_bucket i c) = reset_bucket i (count_down a n c)"
  "ck_timers (reset_bucket i c) = ck_timers c" "ck_ready (reset_bucket i c) = ck_ready c"
proof -
  have at: "bucket_at r (reset_bucket i c) = bucket_at r c" if "r \<noteq> Wheel i" for r
    using that nth_list_update_neq by (fastforce simp: bucket_at_def reset_bucket_def split: bucket_ref.splits)
  have put: "put_bucket r b (reset_bucket i c) = reset_bucket i (put_bucket r b c)" if "r \<noteq> Wheel i" for r b c
  proof (cases r)
    case (Wheel j)
    with that have "(ck_buckets c)[i := None, j := Some b] = (ck_buckets c)[j := Some b, i := None]"
      by (intro list_update_swap) simp
    with Wheel show ?thesis by (simp add: put_bucket_def reset_bucket_def)
  qed (simp add: put_bucket_def reset_bucket_def)
  show "k \<noteq> i \<Longrightarrow> with_bucket k s (reset_bucket i c) = reset_bucket i (with_bucket k s c)"
    by (simp add: with_bucket_def at put split: option.splits)
  have "set_timer t f (reset_bucket i c) = reset_bucket i (set_timer t f c)" for f
    by (simp add: set_timer_def reset_bucket_def)
  then show "r \<noteq> Wheel i \<Longrightarrow> link_last t r (reset_bucket i c) = reset_bucket i (link_last t r c)"
    by (simp add: link_last_def at put split: option.splits)
  show "count_up a n (reset_bucket i c) = reset_bucket i (count_up a n c)"
    "count_down a n (reset_bucket i c) = reset_bucket i (count_down a n c)"
    "ck_timers (reset_bucket i c) = ck_timers c" "ck_ready (reset_bucket i c) = ck_ready c"
    by (simp_all add: count_up_def count_down_def reset_bucket_def split: amount.splits)
qed

lemma separate_one_reset:
  assumes "bk_amount b = Amount"
    and "tm_point (ck_timers c t) \<noteq> bk_start b \<Longrightarrow> 64 - count0Most (tm_point (ck_timers c t) - bk_start b) \<noteq> 0 \<and>
      64 - count0Most (tm_point (ck_timers c t) - bk_start b) - 1 \<noteq> i"
  shows "separate_one b time t (n, reset_bucket i c) = apsnd (reset_bucket i) (separate_one b time t (n, c))"
proof (cases "tm_point (ck_timers c t) = bk_start b")
  case True
  then show ?thesis by (simp add: separate_one_def Let_def reset_commutes)
next
  case False
  define k where "k = 64 - count0Most (tm_point (ck_timers c t) - bk_start b) - 1"
  have k: "k \<noteq> i" "count0Most (tm_point (ck_timers c t) - bk_start b) < 64"
    "place (bk_start b) (tm_point (ck_timers c t)) = Wheel k"
    using False assms(2) by (auto simp: k_def place_def)
  from separate_one_wheel[OF assms(1) k(3,2)] separate_one_wheel[of b "reset_bucket i c" t k] assms(1) k
  show ?thesis by (simp add: reset_commutes)
qed
end
