(* ===== verification/ClockingRoll.thy ===== *)
theory ClockingRoll
  imports ClockingWheel
begin

section \<open>Moving the clock on\<close>

text \<open>
  The loop of \<open>rollBucketsTo\<close>: one turn moves the present to the start of a bucket, keeps the invariant
  and makes ready exactly the timers whose point is not after it; so the loop ends, and it ends with
  every due timer ready and every other one waiting. The nearest point it returns is after the
  present and not after any waiting timer.
\<close>

lemma separate_reset:
  assumes "separating b xs (reset_bucket (bk_order b) c)"
  shows "fold (separate_one b time) xs (n, reset_bucket (bk_order b) c) =
    apsnd (reset_bucket (bk_order b)) (fold (separate_one b time) xs (n, c))"
  using assms
proof (induction xs arbitrary: n c)
  case (Cons t xs)
  let ?i = "bk_order b"
  from Cons.prems have sep: "bk_amount b = Amount" "bk_order b < 63" "0 \<le> bk_start b" "2 ^ bk_order b dvd bk_start b"
    "bk_start b \<le> tm_point (ck_timers c t)" "tm_point (ck_timers c t) < bk_start b + 2 ^ bk_order b"
    by (auto simp: separating_def reset_commutes(5))
  have "separate_one b time t (n, reset_bucket ?i c) = apsnd (reset_bucket ?i) (separate_one b time t (n, c))"
  proof (rule separate_one_reset[OF sep(1)])
    assume "tm_point (ck_timers c t) \<noteq> bk_start b"
    then have "place (bk_start b) (tm_point (ck_timers c t)) =
        Wheel (64 - count0Most (tm_point (ck_timers c t) - bk_start b) - 1)" by (simp add: place_def)
    from place_spec(1,3)[OF sep(3-6,2) this]
    show "64 - count0Most (tm_point (ck_timers c t) - bk_start b) \<noteq> 0 \<and>
      64 - count0Most (tm_point (ck_timers c t) - bk_start b) - 1 \<noteq> ?i" by auto
  qed
  then have one: "separate_one b time t (n, reset_bucket ?i c) =
      (fst (separate_one b time t (n, c)), reset_bucket ?i (snd (separate_one b time t (n, c))))"
    by (simp add: apsnd_def map_prod_def split_beta)
  from separate_one_spec[OF Cons.prems, of time n] one
  have "separating b xs (reset_bucket ?i (snd (separate_one b time t (n, c))))" by simp
  from Cons.IH[OF this, of "fst (separate_one b time t (n, c))"] show ?case
    by (simp add: one)
qed simp

lemma linked_release:
  assumes "linked_up c" "i < 63" "ck_buckets c ! i = Some b"
  shows "linked (bk_elems b) i (reset_bucket i c)"
proof -
  note parts = linked_parts[OF assms(1)]
  have elems: "bk_elems b = held (Wheel i) c" using assms by (simp add: held_def)
  have held: "held r (reset_bucket i c) = (if r = Wheel i then [] else held r c)" for r
    by (rule held_reset_bucket) (rule parts)
  have "wheel_count (reset_bucket i c) + length (held (Wheel i) c)
      = wheel_count c + length (held (Wheel i) (reset_bucket i c))"
    by (rule wheel_count_change) (use assms(2) held in auto)
  then have counts: "wheel_count (reset_bucket i c) + length (bk_elems b) = wheel_count c" by (simp add: held elems)
  have kinds: "bk_amount b' = Amount" if "j < 63" "ck_buckets (reset_bucket i c) ! j = Some b'" for j b'
    using that parts(3)[of j] assms(2) parts(1) by (cases "j = i") (auto simp: reset_bucket_def)
  have places: "(tm_bucket (ck_timers (reset_bucket i c) t) = Some r) =
      (t \<in> set (held r (reset_bucket i c)) \<or> t \<in> set (bk_elems b) \<and> r = Wheel i)" for t r
    using parts(4)[of t r] by (auto simp: reset_commutes held elems)
  have fields: "length (ck_buckets (reset_bucket i c)) = 63" "ck_ready (reset_bucket i c) = ck_ready c"
    "ck_amount (reset_bucket i c) = ck_amount c" "ck_readyAmount (reset_bucket i c) = ck_readyAmount c"
    using parts(1) by (simp_all add: reset_bucket_def)
  show ?thesis
    unfolding linked_def places using parts kinds counts elems by (auto simp: fields held)
qed

lemma moved_only_now: "moved_only c d \<Longrightarrow> moved_only c (d\<lparr>ck_now := m\<rparr>)" "moved_only c d \<Longrightarrow> moved_only (c\<lparr>ck_now := m\<rparr>) d"
  by (simp_all add: moved_only_def)

lemma moved_only_reset: "moved_only (reset_bucket i c) d = moved_only c d"
  by (simp add: moved_only_def reset_bucket_def)

lemma linked_now: "linked xs i (c\<lparr>ck_now := m\<rparr>) = linked xs i c"
proof -
  have "wheel_count (c\<lparr>ck_now := m\<rparr>) = wheel_count c" by (rule wheel_count_same) simp
  then show ?thesis by (simp add: linked_def)
qed

subsection \<open>Quotients of the present\<close>

lemma div_power_split: "(x::int) div 2 ^ (i + Suc k) = x div 2 ^ i div 2 div 2 ^ k"
proof -
  have "x div (2 ^ i * (2 * 2 ^ k)) = x div 2 ^ i div (2 * 2 ^ k)" by (rule zdiv_zmult2_eq) simp
  also have "\<dots> = x div 2 ^ i div 2 div 2 ^ k" by (rule zdiv_zmult2_eq) simp
  finally show ?thesis by (simp only: power_add power_Suc)
qed

lemma half_of_odd: "even y \<Longrightarrow> x = y + 1 \<Longrightarrow> (x::int) div 2 = y div 2"
  by presburger

lemma quotient_up:
  fixes x y :: int
  assumes "even (y div 2 ^ i)" "x div 2 ^ i = y div 2 ^ i + 1" "i < j"
  shows "x div 2 ^ j = y div 2 ^ j"
proof -
  from assms(3) obtain k where j: "j = i + Suc k" using less_iff_Suc_add[of i j] by auto
  have "x div 2 ^ i div 2 = y div 2 ^ i div 2" using assms(1,2) by (rule half_of_odd)
  then show ?thesis unfolding j div_power_split by (rule arg_cong)
qed

lemma quotient_range:
  fixes p :: int
  assumes "p div 2 ^ i = q"
  shows "2 ^ i * q \<le> p" "p < 2 ^ i * q + 2 ^ i"
proof -
  have "2 ^ i * q + p mod 2 ^ i = p" using assms by auto
  moreover have "0 \<le> p mod 2 ^ i" "p mod 2 ^ i < 2 ^ i" by simp_all
  ultimately show "2 ^ i * q \<le> p" "p < 2 ^ i * q + 2 ^ i" by linarith+
qed

lemma bucket_start_quotient: "calculateBucketStart now i div 2 ^ i = now div 2 ^ i + 1"
  by (simp add: calculateBucketStart_eq)

lemma bucket_start_later: "now < calculateBucketStart now i"
  using quotient_range(2)[OF refl, of now i] by (simp add: calculateBucketStart_eq distrib_left)

lemma bucket_start_least: "p div 2 ^ i = now div 2 ^ i + 1 \<Longrightarrow> calculateBucketStart now i \<le> p"
  using quotient_range(1)[of p i "now div 2 ^ i + 1"] by (simp add: calculateBucketStart_eq)

lemma lower_due:
  fixes p now :: int
  assumes "even (now div 2 ^ j)" "p div 2 ^ j = now div 2 ^ j + 1" "j < i"
  shows "p < calculateBucketStart now i"
  using quotient_up[OF assms] quotient_range(2)[of p i "now div 2 ^ i"]
  by (simp add: calculateBucketStart_eq distrib_left)

subsection \<open>One turn of the loop\<close>

definition waiting :: "clocking \<Rightarrow> nat \<Rightarrow> bool" where
  "waiting c t \<longleftrightarrow> (\<exists>j. tm_bucket (ck_timers c t) = Some (Wheel j))"

lemma wheel_parts:
  assumes "wheel_ok c"
  shows "linked_up c" "0 \<le> ck_now c" "ck_now c < 2 ^ 63" "shaped c" "\<And>t. timely (ck_now c) (ck_timers c t)"
  using assms by (auto simp: wheel_ok_def)

lemma wheel_waiting:
  assumes "wheel_ok c" "tm_bucket (ck_timers c t) = Some (Wheel j)"
  obtains b where "j < 63" "ck_buckets c ! j = Some b" "t \<in> set (bk_elems b)" "even (ck_now c div 2 ^ j)"
    "tm_point (ck_timers c t) div 2 ^ j = ck_now c div 2 ^ j + 1"
proof -
  obtain b where b: "ref_ok (Wheel j)" "bucket_at (Wheel j) c = Some b" "t \<in> set (bk_elems b)"
    by (rule linked_bucket[OF wheel_parts(1)[OF assms(1)] assms(2)])
  then have at: "j < 63" "ck_buckets c ! j = Some b" by (simp_all add: bucket_at_def)
  moreover from at wheel_parts(4)[OF assms(1)] have "even (ck_now c div 2 ^ j)" by (auto simp: shaped_def)
  moreover have "tm_point (ck_timers c t) div 2 ^ j = ck_now c div 2 ^ j + 1"
    using wheel_parts(5)[OF assms(1), of t] assms(2) by (simp add: timely_def)
  ultimately show thesis using b(3) that by blast
qed

lemma waiting_later:
  assumes "wheel_ok c" "waiting c t"
  shows "ck_now c < tm_point (ck_timers c t)" "tm_point (ck_timers c t) < 2 ^ 63"
proof -
  from assms(2) obtain j where "tm_bucket (ck_timers c t) = Some (Wheel j)" by (auto simp: waiting_def)
  then obtain b where b: "j < 63" "even (ck_now c div 2 ^ j)"
    "tm_point (ck_timers c t) div 2 ^ j = ck_now c div 2 ^ j + 1"
    by (rule wheel_waiting[OF assms(1)])
  show "ck_now c < tm_point (ck_timers c t)"
    using bucket_start_later[of "ck_now c" j] bucket_start_least[OF b(3)] by simp
  have "tm_point (ck_timers c t) div 2 ^ 63 = ck_now c div 2 ^ 63" by (rule quotient_up[OF b(2,3,1)])
  also have "\<dots> = 0" using wheel_parts(2,3)[OF assms(1)] by simp
  finally show "tm_point (ck_timers c t) < 2 ^ 63"
    using quotient_range(2)[of "tm_point (ck_timers c t)" 63 0] by simp
qed

text \<open>Where a turn with the bound \<open>i\<close> and the new present \<open>m\<close> puts a timer.\<close>

definition rolled :: "nat \<Rightarrow> int \<Rightarrow> timer \<Rightarrow> bucket_ref option" where
  "rolled i m x =
     (case tm_bucket x of
        Some (Wheel j) \<Rightarrow>
          Some (if j < i then Ready else if j = i then place m (tm_point x) else Wheel j)
      | r \<Rightarrow> r)"

lemma shaped_above:
  assumes "shaped c" "even (ck_now c div 2 ^ i)"
    and "\<And>j. j < 63 \<Longrightarrow> ck_buckets d ! j = (if j \<le> i then None else ck_buckets c ! j)"
    and "ck_now d = calculateBucketStart (ck_now c) i"
  shows "shaped d"
proof -
  have "calculateBucketStart (ck_now c) i div 2 ^ j = ck_now c div 2 ^ j" if "i < j" for j
    by (rule quotient_up[OF assms(2) bucket_start_quotient that])
  then have "calculateBucketStart (ck_now d) j = calculateBucketStart (ck_now c) j"
    "ck_now d div 2 ^ j = ck_now c div 2 ^ j" if "i < j" for j
    using that by (simp_all add: assms(4) calculateBucketStart_eq)
  then show ?thesis using assms(1) unfolding shaped_def by (auto simp: assms(3) split: if_splits)
qed

lemma roll_step_moves:
  fixes n :: int
  assumes "wheel_ok c" "ck_now c < time" "time < 2 ^ 63"
  defines "i \<equiv> bucketIndexFor (ck_now c) time"
  defines "m \<equiv> calculateBucketStart (ck_now c) i"
  defines "s' \<equiv> roll_step time (n, c)"
  shows "linked_up (snd s') \<and> shaped (snd s') \<and> ck_now (snd s') = m \<and> moved_only c (snd s') \<and>
    (\<forall>t. tm_bucket (ck_timers (snd s') t) = rolled i m (ck_timers c t)) \<and>
    (let P = \<lambda>t. tm_bucket (ck_timers c t) = Some (Wheel i) \<and> time < tm_point (ck_timers c t) in
     (\<forall>t. P t \<longrightarrow> fst s' \<le> tm_point (ck_timers c t)) \<and>
     (fst s' = n \<or> fst s' < n \<and> (\<exists>t. P t \<and> fst s' = tm_point (ck_timers c t))))"
proof -
  note parts = wheel_parts[OF assms(1)]
  note index = bucketIndexFor_spec[OF parts(2) assms(2,3), folded i_def]
  define d where "d = fold flush_lower [0..<i] c"
  have d: "linked_up d" "ck_now d = ck_now c" "moved_only c d"
    "\<And>t. tm_bucket (ck_timers d t) =
       (if \<exists>j<i. tm_bucket (ck_timers c t) = Some (Wheel j) then Some Ready else tm_bucket (ck_timers c t))"
    "\<And>j. j < 63 \<Longrightarrow> ck_buckets d ! j = (if j < i then None else ck_buckets c ! j)"
    using flush_lowers_spec[OF parts(1), of i] index(1) by (auto simp: d_def moved_to_def)
  have m: "m \<le> time" using bucket_start_least[OF index(3)] by (simp add: m_def)
  have dp: "tm_point (ck_timers d t) = tm_point (ck_timers c t)" for t by (rule moved_only_point[OF d(3)])
  have dw: "tm_bucket (ck_timers d t) = Some (Wheel i) \<longleftrightarrow> tm_bucket (ck_timers c t) = Some (Wheel i)" for t
    by (auto simp: d(4))
  show ?thesis
  proof (cases "ck_buckets c ! i")
    case None
    have "held (Wheel i) c = []" using None by (simp add: held_def)
    then have none: "tm_bucket (ck_timers c t) \<noteq> Some (Wheel i)" for t
      using linked_parts(4)[OF parts(1), of t "Wheel i"] by simp
    have s': "s' = (n, d\<lparr>ck_now := m\<rparr>)"
      using None index(1) by (simp add: s'_def roll_step_def Let_def m_def d(2,5) flip: i_def d_def)
    have "shaped (d\<lparr>ck_now := m\<rparr>)"
      by (rule shaped_above[OF parts(4) index(2)]) (use None d(5) in \<open>auto simp: m_def le_less\<close>)
    moreover have "tm_bucket (ck_timers d t) = rolled i m (ck_timers c t)" for t
      using none[of t] by (auto simp: d(4) rolled_def split: option.splits bucket_ref.splits)
    ultimately show ?thesis using none d(1,3) by (simp add: s' linked_now moved_only_now)
  next
    case (Some b)
    have shape: "bk_order b = i" "bk_start b = m"
      using parts(4) Some index(1) by (auto simp: shaped_def m_def)
    have kind: "bk_amount b = Amount" using linked_parts(3)[OF parts(1) index(1) Some] .
    define e where "e = reset_bucket i (d\<lparr>ck_now := m\<rparr>)"
    define r where "r = fold (separate_one b time) (bk_elems b) (n, e)"
    have di: "ck_buckets d ! i = Some b" using d(5)[OF index(1)] Some by simp
    have elems: "t \<in> set (bk_elems b) \<longleftrightarrow> tm_bucket (ck_timers c t) = Some (Wheel i)" for t
      using linked_parts(4)[OF parts(1), of t "Wheel i"] Some index(1) by (simp add: held_def)
    have e: "ck_timers e = ck_timers d" "ck_now e = m" "linked (bk_elems b) i e"
      using linked_release[of "d\<lparr>ck_now := m\<rparr>" i b] d(1) index(1) di
      by (simp_all add: e_def reset_bucket_def linked_now)
    have "shaped e"
      by (rule shaped_above[OF parts(4) index(2)])
         (use linked_parts(1)[OF d(1)] index(1) d(5) in \<open>auto simp: m_def e_def reset_bucket_def nth_list_update le_less\<close>)
    moreover have "0 \<le> m" using bucket_start_later[of "ck_now c" i] parts(2) by (simp add: m_def)
    moreover have "m \<le> tm_point (ck_timers c t) \<and> tm_point (ck_timers c t) < m + 2 ^ i"
      if "tm_bucket (ck_timers c t) = Some (Wheel i)" for t
    proof -
      have "tm_point (ck_timers c t) div 2 ^ i = ck_now c div 2 ^ i + 1"
        using parts(5)[of t] that by (simp add: timely_def)
      from quotient_range[OF this] show ?thesis by (simp add: m_def calculateBucketStart_eq)
    qed
    ultimately have sep: "separating b (bk_elems b) e"
      unfolding separating_def using e kind index(1)
      by (auto simp: shape dp elems m_def calculateBucketStart_eq)
    have "bk_start b \<le> time" using m shape by simp
    from separate_spec[OF sep this, of n, folded r_def]
    have r: "separating b [] (snd r)"
      "moved_to (\<lambda>t. tm_bucket (ck_timers c t) = Some (Wheel i)) (\<lambda>t. place m (tm_point (ck_timers c t))) e (snd r)"
      "\<And>t. tm_bucket (ck_timers c t) = Some (Wheel i) \<Longrightarrow> time < tm_point (ck_timers c t) \<Longrightarrow> fst r \<le> tm_point (ck_timers c t)"
      "fst r = n \<or> fst r < n \<and> (\<exists>t. tm_bucket (ck_timers c t) = Some (Wheel i) \<and> time < tm_point (ck_timers c t) \<and> fst r = tm_point (ck_timers c t))"
      by (auto simp: e(1) dp elems shape)
    have s'_r: "s' = r"
    proof -
      have "fold (separate_one b time) (bk_elems b) (n, e) =
          apsnd (reset_bucket i) (fold (separate_one b time) (bk_elems b) (n, d\<lparr>ck_now := m\<rparr>))"
        using separate_reset[of b "bk_elems b" "d\<lparr>ck_now := m\<rparr>" time n] sep by (simp add: e_def shape)
      then show ?thesis
        by (simp add: s'_def r_def roll_step_def Let_def separateChildren_def shape di apsnd_def map_prod_def split_beta
            flip: i_def d_def)
    qed
    have moved: "moved_only c (snd r)"
      using d(3) r(2) by (auto simp: moved_to_def e_def moved_only_reset intro: moved_only_trans moved_only_now)
    have place: "tm_bucket (ck_timers (snd r) t) = rolled i m (ck_timers c t)" for t
    proof -
      have "tm_bucket (ck_timers (snd r) t) =
          (if tm_bucket (ck_timers c t) = Some (Wheel i) then Some (place m (tm_point (ck_timers c t)))
           else tm_bucket (ck_timers d t))"
        using r(2) by (simp add: moved_to_def e(1))
      then show ?thesis
        by (cases "tm_bucket (ck_timers c t)"; cases "the (tm_bucket (ck_timers c t))") (simp_all add: d(4) rolled_def)
    qed
    have ok: "linked_up (snd r)" "shaped (snd r)" "ck_now (snd r) = m"
      using r(1) by (simp_all add: separating_def shape linked_nil[of i])
    show ?thesis
      unfolding Let_def s'_r
    proof (intro conjI allI impI)
      show "linked_up (snd r)" "shaped (snd r)" "ck_now (snd r) = m" "moved_only c (snd r)"
        by (rule ok moved)+
      show "tm_bucket (ck_timers (snd r) t) = rolled i m (ck_timers c t)" for t by (rule place)
      show "fst r \<le> tm_point (ck_timers c t)"
        if "tm_bucket (ck_timers c t) = Some (Wheel i) \<and> time < tm_point (ck_timers c t)" for t
        using that r(3) by blast
      show "fst r = n \<or> fst r < n \<and> (\<exists>t. (tm_bucket (ck_timers c t) = Some (Wheel i) \<and>
          time < tm_point (ck_timers c t)) \<and> fst r = tm_point (ck_timers c t))"
        using r(4) by blast
    qed
  qed
qed

definition advanced :: "int \<Rightarrow> clocking \<Rightarrow> clocking \<Rightarrow> bool" where
  "advanced m c c' \<longleftrightarrow> moved_only c c' \<and>
     (\<forall>t. waiting c' t \<longleftrightarrow> waiting c t \<and> m < tm_point (ck_timers c t)) \<and>
     (\<forall>t. tm_bucket (ck_timers c' t) = Some Ready \<longleftrightarrow>
        tm_bucket (ck_timers c t) = Some Ready \<or> waiting c t \<and> tm_point (ck_timers c t) \<le> m)"

lemma advanced_trans:
  assumes "advanced m c d" "advanced m' d e" "m \<le> m'"
  shows "advanced m' c e"
proof -
  have points: "tm_point (ck_timers d t) = tm_point (ck_timers c t)" for t
    using assms(1) by (simp add: advanced_def moved_only_point)
  from assms show ?thesis
    unfolding advanced_def points by (auto intro: moved_only_trans)
qed

lemma advanced_refl: "wheel_ok c \<Longrightarrow> advanced (ck_now c) c c"
  unfolding advanced_def by (auto dest: waiting_later)

lemma less_by_quotient: "(x::int) div 2 ^ j < y div 2 ^ j \<Longrightarrow> x < y"
  by (metis linorder_not_less zdiv_mono1 zero_less_numeral zero_less_power)

lemma rolled_spec:
  fixes t :: nat
  assumes "wheel_ok c" "i < 63" "even (ck_now c div 2 ^ i)"
  defines "m \<equiv> calculateBucketStart (ck_now c) i"
  defines "p \<equiv> tm_point (ck_timers c t)"
  shows "(\<exists>k. rolled i m (ck_timers c t) = Some (Wheel k)) \<longleftrightarrow> waiting c t \<and> m < p"
    and "rolled i m (ck_timers c t) = Some Ready \<longleftrightarrow>
      tm_bucket (ck_timers c t) = Some Ready \<or> waiting c t \<and> p \<le> m"
    and "rolled i m (ck_timers c t) = Some Ready \<Longrightarrow> p \<le> m"
    and "rolled i m (ck_timers c t) = Some (Wheel k) \<Longrightarrow> p div 2 ^ k = m div 2 ^ k + 1"
proof -
  note parts = wheel_parts[OF assms(1)]
  have m: "ck_now c < m" "m div 2 ^ i = ck_now c div 2 ^ i + 1" "2 ^ i dvd m"
    using bucket_start_later[of "ck_now c" i] bucket_start_quotient[of "ck_now c" i]
    by (simp_all add: m_def calculateBucketStart_eq)
  have above: "m div 2 ^ j = ck_now c div 2 ^ j" if "i < j" for j by (rule quotient_up[OF assms(3) m(2) that])
  have "((\<exists>k. rolled i m (ck_timers c t) = Some (Wheel k)) \<longleftrightarrow> waiting c t \<and> m < p) \<and>
    (rolled i m (ck_timers c t) = Some Ready \<longleftrightarrow> tm_bucket (ck_timers c t) = Some Ready \<or> waiting c t \<and> p \<le> m) \<and>
    (rolled i m (ck_timers c t) = Some Ready \<longrightarrow> p \<le> m) \<and>
    (\<forall>k. rolled i m (ck_timers c t) = Some (Wheel k) \<longrightarrow> p div 2 ^ k = m div 2 ^ k + 1)"
  proof (cases "tm_bucket (ck_timers c t)")
    case None
    then show ?thesis by (simp add: rolled_def waiting_def)
  next
    case (Some r)
    show ?thesis
    proof (cases r)
      case Ready
      with Some parts(5)[of t] m(1) show ?thesis by (simp add: rolled_def waiting_def timely_def p_def)
    next
      case (Wheel j)
      obtain b where j: "even (ck_now c div 2 ^ j)" "p div 2 ^ j = ck_now c div 2 ^ j + 1"
        by (rule wheel_waiting[OF assms(1), of t j]) (use Some Wheel in \<open>auto simp: p_def\<close>)
      have w: "waiting c t" using Some Wheel by (simp add: waiting_def)
      consider "j < i" | "j = i" | "i < j" by linarith
      then show ?thesis
      proof cases
        case 1
        then have "p < m" using lower_due[OF j] by (simp add: m_def)
        with 1 w Some Wheel show ?thesis by (simp add: rolled_def)
      next
        case 2
        have p: "m \<le> p" "p < m + 2 ^ i"
          using quotient_range[OF j(2)] 2 by (simp_all add: m_def calculateBucketStart_eq)
        have m0: "0 \<le> m" using m(1) parts(2) by simp
        have "p div 2 ^ k = m div 2 ^ k + 1" if "place m p = Wheel k" for k
          by (rule place_spec(6)[OF m0 m(3) p assms(2) that])
        moreover have "place m p = Ready \<longleftrightarrow> p = m" by (simp add: place_def)
        moreover have "(\<exists>k. place m p = Wheel k) \<longleftrightarrow> p \<noteq> m" by (simp add: place_def)
        ultimately show ?thesis using 2 w Some Wheel p by (auto simp: rolled_def p_def[symmetric])
      next
        case 3
        have "m < p" by (rule less_by_quotient[of _ j]) (simp add: above[OF 3] j(2))
        with 3 w Some Wheel above[OF 3] j(2) show ?thesis by (simp add: rolled_def)
      qed
    qed
  qed
  then show "(\<exists>k. rolled i m (ck_timers c t) = Some (Wheel k)) \<longleftrightarrow> waiting c t \<and> m < p"
    "rolled i m (ck_timers c t) = Some Ready \<longleftrightarrow> tm_bucket (ck_timers c t) = Some Ready \<or> waiting c t \<and> p \<le> m"
    "rolled i m (ck_timers c t) = Some Ready \<Longrightarrow> p \<le> m"
    "rolled i m (ck_timers c t) = Some (Wheel k) \<Longrightarrow> p div 2 ^ k = m div 2 ^ k + 1" by blast+
qed

lemma bucket_order:
  assumes "wheel_ok c" "tm_bucket (ck_timers c u) = Some (Wheel i)" "tm_bucket (ck_timers c t) = Some (Wheel j)" "i < j"
  shows "tm_point (ck_timers c u) < tm_point (ck_timers c t)"
proof -
  obtain b where u: "even (ck_now c div 2 ^ i)" "tm_point (ck_timers c u) div 2 ^ i = ck_now c div 2 ^ i + 1"
    by (rule wheel_waiting[OF assms(1,2)])
  obtain b' where t: "tm_point (ck_timers c t) div 2 ^ j = ck_now c div 2 ^ j + 1"
    by (rule wheel_waiting[OF assms(1,3)])
  have "tm_point (ck_timers c u) div 2 ^ j < tm_point (ck_timers c t) div 2 ^ j"
    using quotient_up[OF u assms(4)] t by linarith
  then show ?thesis by (rule less_by_quotient)
qed

definition nearest_so_far :: "int \<Rightarrow> int \<times> clocking \<Rightarrow> bool" where
  "nearest_so_far time s \<longleftrightarrow>
     time < fst s \<and>
     (fst s = point_max \<or>
      (\<forall>t. waiting (snd s) t \<and> time < tm_point (ck_timers (snd s) t) \<longrightarrow> fst s \<le> tm_point (ck_timers (snd s) t)))"

lemma roll_step_spec:
  fixes n :: int
  assumes "wheel_ok c" "ck_now c < time" "time < 2 ^ 63"
  defines "s' \<equiv> roll_step time (n, c)"
  shows "wheel_ok (snd s')" "ck_now c < ck_now (snd s')" "ck_now (snd s') \<le> time"
    "advanced (ck_now (snd s')) c (snd s')" "nearest_so_far time (n, c) \<Longrightarrow> nearest_so_far time s'"
proof -
  note parts = wheel_parts[OF assms(1)]
  define i where "i = bucketIndexFor (ck_now c) time"
  note index = bucketIndexFor_spec[OF parts(2) assms(2,3), folded i_def]
  define m where "m = calculateBucketStart (ck_now c) i"
  note moves = roll_step_moves[OF assms(1-3), of n, folded i_def, folded m_def s'_def, unfolded Let_def]
  have now: "ck_now (snd s') = m" and moved: "moved_only c (snd s')" using moves by auto
  have place: "tm_bucket (ck_timers (snd s') t) = rolled i m (ck_timers c t)" for t using moves by blast
  have points: "tm_point (ck_timers (snd s') t) = tm_point (ck_timers c t)" for t by (rule moved_only_point[OF moved])
  note rolled = rolled_spec[OF assms(1) index(1,2), folded m_def]
  have m: "ck_now c < m" "m \<le> time"
    using bucket_start_later bucket_start_least[OF index(3)] by (simp_all add: m_def)
  then show "ck_now c < ck_now (snd s')" "ck_now (snd s') \<le> time" by (simp_all add: now)
  have "timely m (ck_timers (snd s') t)" for t
    using rolled(3,4)[of t] by (auto simp: timely_def place points split: option.split bucket_ref.split)
  then show "wheel_ok (snd s')" using moves m parts(2) assms(3) by (simp add: wheel_ok_def now)
  have waits: "waiting (snd s') t \<longleftrightarrow> waiting c t \<and> m < tm_point (ck_timers c t)" for t
    using rolled(1)[of t] by (simp add: waiting_def[of "snd s'"] place)
  then show adv: "advanced (ck_now (snd s')) c (snd s')"
    using moved rolled(2) by (simp add: advanced_def place now)
  assume near: "nearest_so_far time (n, c)"
  show "nearest_so_far time s'"
  proof (cases "fst s' = n")
    case True
    with near waits show ?thesis by (auto simp: nearest_so_far_def points)
  next
    case False
    then obtain u where u: "fst s' < n" "tm_bucket (ck_timers c u) = Some (Wheel i)"
      "time < tm_point (ck_timers c u)" "fst s' = tm_point (ck_timers c u)" using moves by blast
    have "fst s' \<le> tm_point (ck_timers c t)" if t: "waiting (snd s') t" "time < tm_point (ck_timers c t)" for t
    proof -
      obtain j where j: "tm_bucket (ck_timers c t) = Some (Wheel j)" using t waits by (auto simp: waiting_def)
      obtain b where q: "even (ck_now c div 2 ^ j)" "tm_point (ck_timers c t) div 2 ^ j = ck_now c div 2 ^ j + 1"
        by (rule wheel_waiting[OF assms(1) j])
      consider "j < i" | "j = i" | "i < j" by linarith
      then show ?thesis
      proof cases
        case 1
        then have "tm_point (ck_timers c t) < m" using lower_due[OF q] by (simp add: m_def)
        with t m show ?thesis by simp
      next
        case 2
        with j t(2) moves show ?thesis by blast
      next
        case 3
        have "tm_point (ck_timers c u) < tm_point (ck_timers c t)"
          by (rule bucket_order[OF assms(1) u(2) j 3])
        then show ?thesis unfolding u(4) by (rule less_imp_le)
      qed
    qed
    moreover have "time < fst s'" using u(3,4) by simp
    ultimately show ?thesis unfolding nearest_so_far_def points by blast
  qed
qed

subsection \<open>The loop, and the nearest point\<close>

lemma roll_loop:
  assumes "wheel_ok c" "ck_now c \<le> time" "time < point_max" "nearest_so_far time (n, c)"
  obtains s where "while_option (\<lambda>s. ck_now (snd s) < time) (roll_step time) (n, c) = Some s"
    "wheel_ok (snd s)" "ck_now (snd s) = time" "advanced time c (snd s)" "nearest_so_far time s"
proof -
  define P where "P s \<longleftrightarrow> wheel_ok (snd s) \<and> ck_now (snd s) \<le> time \<and> advanced (ck_now (snd s)) c (snd s) \<and>
    nearest_so_far time s" for s
  have P0: "P (n, c)" using assms by (simp add: P_def advanced_refl)
  have step: "P (roll_step time s) \<and> nat (time - ck_now (snd (roll_step time s))) < nat (time - ck_now (snd s))"
    if "P s" "ck_now (snd s) < time" for s
  proof -
    from that(1) have s: "wheel_ok (snd s)" "advanced (ck_now (snd s)) c (snd s)" "nearest_so_far time (fst s, snd s)"
      by (auto simp: P_def)
    have "time < 2 ^ 63" using assms(3) by (simp add: point_max_def)
    note one = roll_step_spec[OF s(1) that(2) this, of "fst s", simplified]
    have "advanced (ck_now (snd (roll_step time s))) c (snd (roll_step time s))"
      by (rule advanced_trans[OF s(2) one(4)]) (use one(2) in simp)
    with one s(3) that(2) show ?thesis by (simp add: P_def)
  qed
  have "\<exists>s. while_option (\<lambda>s. ck_now (snd s) < time) (roll_step time) (n, c) = Some s"
    by (rule measure_while_option_Some[of P _ _ "\<lambda>s. nat (time - ck_now (snd s))"]) (use step P0 in auto)
  then obtain s where s: "while_option (\<lambda>s. ck_now (snd s) < time) (roll_step time) (n, c) = Some s" by blast
  have "P s" by (rule while_option_rule[where P = P, OF _ s]) (use step P0 in blast)+
  moreover from this have "ck_now (snd s) = time" using while_option_stop[OF s] by (simp add: P_def)
  ultimately show thesis using that[OF s] by (simp add: P_def)
qed

lemma nearest_fold:
  fixes f :: "nat \<Rightarrow> int" and n :: int and xs :: "nat list"
  defines "r \<equiv> fold (\<lambda>t n. if n > f t then f t else n) xs n"
  shows "r \<le> n \<and> (\<forall>t\<in>set xs. r \<le> f t) \<and> (r = n \<or> (\<exists>t\<in>set xs. r = f t))"
  unfolding r_def
proof (induction xs arbitrary: n)
  case (Cons t xs)
  show ?case using Cons.IH[of "if n > f t then f t else n"] by (auto split: if_splits)
qed simp

definition elems_of :: "bucket option \<Rightarrow> nat list" where
  "elems_of x = (case x of None \<Rightarrow> [] | Some b \<Rightarrow> bk_elems b)"

lemma nearest_bucket_spec:
  "(\<forall>x\<in>set xs. elems_of x = []) \<and> nearest_bucket xs tms n = n \<or>
   (\<exists>i<length xs. (\<forall>j<i. elems_of (xs ! j) = []) \<and> elems_of (xs ! i) \<noteq> [] \<and>
      nearest_bucket xs tms n =
        fold (\<lambda>t n. if n > tm_point (tms t) then tm_point (tms t) else n) (elems_of (xs ! i)) n)"
proof (induction xs)
  case (Cons x xs)
  show ?case
  proof (cases "elems_of x = []")
    case True
    then have eq: "nearest_bucket (x # xs) tms n = nearest_bucket xs tms n"
      by (auto simp: elems_of_def getNearestPoint_def split: option.splits)
    from Cons.IH show ?thesis
    proof
      assume "\<exists>i<length xs. (\<forall>j<i. elems_of (xs ! j) = []) \<and> elems_of (xs ! i) \<noteq> [] \<and>
        nearest_bucket xs tms n =
          fold (\<lambda>t n. if n > tm_point (tms t) then tm_point (tms t) else n) (elems_of (xs ! i)) n"
      then obtain i where "i < length xs" "\<forall>j<i. elems_of (xs ! j) = []" "elems_of (xs ! i) \<noteq> []"
        "nearest_bucket xs tms n =
          fold (\<lambda>t n. if n > tm_point (tms t) then tm_point (tms t) else n) (elems_of (xs ! i)) n" by blast
      then show ?thesis
        by (intro disjI2 exI[of _ "Suc i"]) (auto simp: eq True less_Suc_eq_0_disj simp del: nearest_bucket.simps)
    qed (use True eq in auto)
  next
    case False
    then show ?thesis
      by (intro disjI2 exI[of _ 0]) (auto simp: elems_of_def getNearestPoint_def split: option.splits)
  qed
qed simp

lemma waiting_elems:
  assumes "wheel_ok c"
  shows "waiting c t \<longleftrightarrow> (\<exists>j<63. t \<in> set (elems_of (ck_buckets c ! j)))"
proof -
  have "held (Wheel j) c = (if j < 63 then elems_of (ck_buckets c ! j) else [])" for j
    by (simp add: held_def elems_of_def)
  then show ?thesis
    using linked_parts(4)[OF wheel_parts(1)[OF assms], of t] by (auto simp: waiting_def split: if_splits)
qed

lemma elems_waiting:
  assumes "wheel_ok c" "j < 63" "t \<in> set (elems_of (ck_buckets c ! j))"
  shows "tm_bucket (ck_timers c t) = Some (Wheel j)"
  using linked_parts(4)[OF wheel_parts(1)[OF assms(1)], of t "Wheel j"] assms(2,3)
  by (simp add: held_def elems_of_def)

lemma nearest_bucket_least:
  fixes n :: int
  assumes "wheel_ok c" "ck_now c < n"
  defines "r \<equiv> nearest_bucket (ck_buckets c) (ck_timers c) n"
  shows "ck_now c < r" "waiting c t \<Longrightarrow> r \<le> tm_point (ck_timers c t)"
proof -
  let ?f = "\<lambda>t. tm_point (ck_timers c t)"
  have len: "length (ck_buckets c) = 63" by (rule linked_parts(1)[OF wheel_parts(1)[OF assms(1)]])
  have "ck_now c < r \<and> (waiting c t \<longrightarrow> r \<le> ?f t)"
    using nearest_bucket_spec[of "ck_buckets c" "ck_timers c" n, folded r_def]
  proof
    assume none: "(\<forall>x\<in>set (ck_buckets c). elems_of x = []) \<and> r = n"
    then have "elems_of (ck_buckets c ! j) = []" if "j < 63" for j using that len by simp
    then show ?thesis using none assms(2) waiting_elems[OF assms(1), of t] by auto
  next
    assume "\<exists>i<length (ck_buckets c). (\<forall>j<i. elems_of (ck_buckets c ! j) = []) \<and> elems_of (ck_buckets c ! i) \<noteq> [] \<and>
      r = fold (\<lambda>t n. if n > ?f t then ?f t else n) (elems_of (ck_buckets c ! i)) n"
    then obtain i where i: "i < 63" "\<And>j. j < i \<Longrightarrow> elems_of (ck_buckets c ! j) = []" "elems_of (ck_buckets c ! i) \<noteq> []"
      "r = fold (\<lambda>t n. if n > ?f t then ?f t else n) (elems_of (ck_buckets c ! i)) n" unfolding len by blast
    note r = nearest_fold[where f = ?f and xs = "elems_of (ck_buckets c ! i)" and n = n, folded i(4)]
    have "waiting c u" if "u \<in> set (elems_of (ck_buckets c ! i))" for u
      using elems_waiting[OF assms(1) i(1) that] by (auto simp: waiting_def)
    then have "ck_now c < r" using r assms(2) waiting_later(1)[OF assms(1)] by force
    moreover have "r \<le> ?f t" if w: "waiting c t"
    proof -
      obtain j where j: "j < 63" "t \<in> set (elems_of (ck_buckets c ! j))" using w waiting_elems[OF assms(1)] by blast
      obtain u where u: "u \<in> set (elems_of (ck_buckets c ! i))" using i(3) by (meson list.set_sel(1))
      have "\<not> j < i" using i(2)[of j] j(2) by auto
      then consider "j = i" | "i < j" by linarith
      then show ?thesis
      proof cases
        case 2
        have "?f u < ?f t"
          by (rule bucket_order[OF assms(1) elems_waiting[OF assms(1) i(1) u] elems_waiting[OF assms(1) j] 2])
        with r u show ?thesis by force
      qed (use r j in simp)
    qed
    ultimately show ?thesis by blast
  qed
  then show "ck_now c < r" "waiting c t \<Longrightarrow> r \<le> ?f t" by blast+
qed

subsection \<open>Operations of the clock\<close>

definition clock_ok :: "clocking \<Rightarrow> bool" where
  "clock_ok c \<longleftrightarrow> wheel_ok c \<and> ck_now c \<le> ck_nearest c \<and> (\<forall>t. waiting c t \<longrightarrow> ck_nearest c \<le> tm_point (ck_timers c t))"

lemma clock_parts:
  assumes "clock_ok c"
  shows "wheel_ok c" "ck_now c \<le> ck_nearest c" "waiting c t \<Longrightarrow> ck_nearest c \<le> tm_point (ck_timers c t)"
    "linked_up c"
  using assms by (auto simp: clock_ok_def wheel_ok_def)

text \<open>Fields that the invariant of the buckets does not read.\<close>

lemma wheel_ok_cong:
  assumes "ck_buckets d = ck_buckets c" "ck_ready d = ck_ready c" "ck_amount d = ck_amount c"
    "ck_readyAmount d = ck_readyAmount c" "ck_timers d = ck_timers c"
  shows "linked xs i d = linked xs i c" "waiting d t = waiting c t" "ck_now d = ck_now c \<Longrightarrow> wheel_ok d = wheel_ok c"
proof -
  have held: "held r d = held r c" for r using assms by (cases r) (simp_all add: held_def)
  then have "wheel_count d = wheel_count c" by (rule wheel_count_same)
  with assms held show linked: "linked xs i d = linked xs i c" for xs i by (simp add: linked_def)
  show "waiting d t = waiting c t" using assms by (simp add: waiting_def)
  show "ck_now d = ck_now c \<Longrightarrow> wheel_ok d = wheel_ok c"
    using linked assms by (simp add: wheel_ok_def shaped_def)
qed

lemma flushReady_simps [simp]:
  "ck_now (flushReady c) = ck_now c" "ck_nearest (flushReady c) = ck_nearest c" "ck_buckets (flushReady c) = ck_buckets c"
  "ck_ready (flushReady c) = ck_ready c" "ck_amount (flushReady c) = ck_amount c"
  "ck_readyAmount (flushReady c) = ck_readyAmount c" "ck_timers (flushReady c) = ck_timers c"
  "ck_readyAmountPrev (flushReady c) = ck_readyAmount c"
  "ck_exec (flushReady c) \<longleftrightarrow> ck_exec c \<or> ck_readyAmountPrev c \<noteq> ck_readyAmount c"
  by (auto simp: flushReady_def)

lemma flushReady_ok [simp]:
  "wheel_ok (flushReady c) = wheel_ok c" "linked_up (flushReady c) = linked_up c" "waiting (flushReady c) t = waiting c t"
  by (rule wheel_ok_cong; simp)+

lemma flushReady_clock_ok [simp]: "clock_ok (flushReady c) = clock_ok c"
  by (simp add: clock_ok_def)

text \<open>The ready bucket is as long as its counter says.\<close>

lemma ready_list:
  assumes "linked_up c"
  shows "t \<in> set (bk_elems (ck_ready c)) \<longleftrightarrow> tm_bucket (ck_timers c t) = Some Ready"
    "ck_readyAmount c = length (bk_elems (ck_ready c))" "distinct (bk_elems (ck_ready c))"
  using linked_parts(4)[OF assms, of t Ready] linked_parts(5)[OF assms, of Ready] linked_parts(9)[OF assms]
  by (simp_all add: held_def)

lemma amount_zero:
  assumes "wheel_ok c" "waiting c t"
  shows "0 < ck_amount c"
proof -
  note parts = linked_parts[OF wheel_parts(1)[OF assms(1)]]
  obtain j b where j: "tm_bucket (ck_timers c t) = Some (Wheel j)" "j < 63"
    using assms(2) wheel_waiting[OF assms(1)] by (metis waiting_def)
  then have "t \<in> set (held (Wheel j) c)" using parts(4)[of t "Wheel j"] by simp
  then have "0 < length (held (Wheel j) c)" by (cases "held (Wheel j) c") auto
  also have "\<dots> \<le> wheel_count c"
    unfolding wheel_count_def using j(2) by (intro member_le_sum) auto
  finally show ?thesis using parts(8) by simp
qed

lemma rollBucketsTo_spec:
  assumes "clock_ok c" "ck_now c \<le> time" "time < point_max"
  obtains n d where "rollBucketsTo time c = Some (n, flushReady d)" "wheel_ok d" "ck_now d = time" "advanced time c d"
    "time < n" "\<And>t. waiting d t \<Longrightarrow> n \<le> tm_point (ck_timers d t)"
proof -
  note parts = clock_parts[OF assms(1)]
  define n where "n = (if time \<ge> ck_nearest c then point_max else ck_nearest c)"
  have "nearest_so_far time (n, c)"
    using assms(3) parts(3) by (auto simp: nearest_so_far_def n_def not_le)
  from roll_loop[OF parts(1) assms(2,3) this]
  obtain s where s: "while_option (\<lambda>s. ck_now (snd s) < time) (roll_step time) (n, c) = Some s"
    "wheel_ok (snd s)" "ck_now (snd s) = time" "advanced time c (snd s)" "nearest_so_far time s" by blast
  define r where "r = (if 0 < ck_amount (snd s) \<and> fst s = point_max
    then nearest_bucket (ck_buckets (snd s)) (ck_timers (snd s)) (fst s) else fst s)"
  have roll: "rollBucketsTo time c = Some (r, flushReady (snd s))"
    using s(1) by (simp add: rollBucketsTo_def r_def n_def)
  have later: "ck_now (snd s) < fst s" using s(3,5) by (simp add: nearest_so_far_def)
  have "time < r \<and> (waiting (snd s) t \<longrightarrow> r \<le> tm_point (ck_timers (snd s) t))" for t
  proof (cases "fst s = point_max")
    case True
    show ?thesis
      using nearest_bucket_least(1)[OF s(2) later] nearest_bucket_least(2)[OF s(2) later, of t] amount_zero[OF s(2), of t] later s(3) True
      by (auto simp: r_def)
  next
    case False
    then show ?thesis
      using s(3,5) waiting_later(1)[OF s(2), of t] by (auto simp: r_def nearest_so_far_def)
  qed
  with that[OF roll s(2-4)] show thesis by blast
qed

lemma fireTicks_spec:
  assumes "clock_ok c" "ck_now c \<le> time" "time < point_max"
  obtains b d c' where "fireTicks time c = Some (b, c')" "c' = (flushReady d)\<lparr>ck_nearest := ck_nearest c'\<rparr>"
    "clock_ok c'" "ck_now c' = time" "advanced time c d" "wheel_ok d" "time < ck_nearest c'"
proof -
  obtain n d where d: "rollBucketsTo time c = Some (n, flushReady d)" "wheel_ok d" "ck_now d = time" "advanced time c d"
    "time < n" "\<And>t. waiting d t \<Longrightarrow> n \<le> tm_point (ck_timers d t)"
    using rollBucketsTo_spec[OF assms] by blast
  define c' where "c' = (flushReady d)\<lparr>ck_nearest := n\<rparr>"
  have same: "wheel_ok c' = wheel_ok d" "waiting c' t = waiting d t" for t
    by (rule wheel_ok_cong; simp add: c'_def)+
  have "clock_ok c'" using d(2,3,5,6) by (simp add: clock_ok_def same) (simp add: c'_def)
  moreover have "fireTicks time c = Some (ck_readyAmount c \<noteq> ck_readyAmount d, c')"
    by (simp add: fireTicks_def d(1) c'_def)
  ultimately show thesis using that[of _ c' d] d by (simp add: c'_def)
qed

lemma bucket_insert_timers:
  assumes "linked_up c" "ref_ok r" "bucket_at r c = Some b"
  shows "ck_timers (bucket_insert t r c) = (ck_timers c)(t := (ck_timers c t)\<lparr>tm_bucket := Some r\<rparr>)"
    "ck_now (bucket_insert t r c) = ck_now c" "moved_only c (bucket_insert t r c)"
    "ck_readyAmount (bucket_insert t r c) = ck_readyAmount c + (if r = Ready then 1 else 0)"
    "shaped c \<Longrightarrow> shaped (bucket_insert t r c)"
proof -
  note last = link_last_simps[OF linked_parts(1)[OF assms(1)] assms(2,3)]
  note eq = bucket_insert_simps[OF assms]
  show "ck_timers (bucket_insert t r c) = (ck_timers c)(t := (ck_timers c t)\<lparr>tm_bucket := Some r\<rparr>)"
    "ck_now (bucket_insert t r c) = ck_now c" "moved_only c (bucket_insert t r c)"
    "ck_readyAmount (bucket_insert t r c) = ck_readyAmount c + (if r = Ready then 1 else 0)"
    by (simp_all add: eq last amount_of_if)
  assume "shaped c"
  then have "shaped (link_last t r c)" by (rule shaped_link_last[OF linked_parts(1)[OF assms(1)] assms(2,3)])
  then show "shaped (bucket_insert t r c)" by (simp add: eq shaped_def)
qed

lemma insert_ok:
  assumes "wheel_ok c" "ref_ok r" "bucket_at r c = Some b" "tm_bucket (ck_timers c t) = None"
    and "timely (ck_now c) ((ck_timers c t)\<lparr>tm_bucket := Some r\<rparr>)"
  shows "wheel_ok (bucket_insert t r c)"
proof -
  note parts = wheel_parts[OF assms(1)]
  note ins = bucket_insert_timers[OF parts(1) assms(2,3)]
  have "timely (ck_now c) (ck_timers (bucket_insert t r c) u)" for u
    using assms(5) parts(5)[of u] by (simp add: ins)
  with bucket_insert_linked[OF parts(1) assms(2-4)] parts show ?thesis by (simp add: wheel_ok_def ins)
qed

lemma clocking_start_spec:
  assumes "clock_ok c" "tm_bucket (ck_timers c t) = None" "tm_point (ck_timers c t) < 2 ^ 63"
  defines "r \<equiv> (if tm_point (ck_timers c t) \<le> ck_now c then Ready
                else Wheel (bucketIndexFor (ck_now c) (tm_point (ck_timers c t))))"
  shows "clock_ok (clocking_start t c)" "ck_now (clocking_start t c) = ck_now c"
    "ck_timers (clocking_start t c) = (ck_timers c)(t := (ck_timers c t)\<lparr>tm_bucket := Some r\<rparr>)"
    "ck_readyAmount (clocking_start t c) = ck_readyAmount c + (if r = Ready then 1 else 0)"
    "ck_readyAmountPrev (clocking_start t c) = (if r = Ready then ck_readyAmount c + 1 else ck_readyAmountPrev c)"
    "ck_exec (clocking_start t c) \<longleftrightarrow> ck_exec c \<or> r = Ready \<and> ck_readyAmountPrev c \<noteq> ck_readyAmount c + 1"
proof -
  let ?p = "tm_point (ck_timers c t)"
  note parts = clock_parts[OF assms(1)]
  note wheel = wheel_parts[OF parts(1)]
  have "clock_ok (clocking_start t c) \<and> ck_now (clocking_start t c) = ck_now c \<and>
    ck_timers (clocking_start t c) = (ck_timers c)(t := (ck_timers c t)\<lparr>tm_bucket := Some r\<rparr>) \<and>
    ck_readyAmount (clocking_start t c) = ck_readyAmount c + (if r = Ready then 1 else 0) \<and>
    ck_readyAmountPrev (clocking_start t c) = (if r = Ready then ck_readyAmount c + 1 else ck_readyAmountPrev c) \<and>
    (ck_exec (clocking_start t c) \<longleftrightarrow> ck_exec c \<or> r = Ready \<and> ck_readyAmountPrev c \<noteq> ck_readyAmount c + 1)"
  proof (cases "?p \<le> ck_now c")
    case True
    then have r: "r = Ready" by (simp add: r_def)
    have eq: "clocking_start t c = flushReady (bucket_insert t Ready c)" using True by (simp add: clocking_start_def)
    have at: "bucket_at Ready c = Some (ck_ready c)" by (simp add: bucket_at_def)
    note ins = bucket_insert_timers[OF wheel(1) ref_ok_simps(1) at, of t]
    have "wheel_ok (bucket_insert t Ready c)"
      by (rule insert_ok[OF parts(1) _ at assms(2)]) (use True in \<open>simp_all add: timely_def\<close>)
    moreover have "ck_nearest (bucket_insert t Ready c) = ck_nearest c" "ck_exec (bucket_insert t Ready c) = ck_exec c"
      "ck_readyAmountPrev (bucket_insert t Ready c) = ck_readyAmountPrev c"
      using ins(3) by (simp_all add: moved_only_def)
    moreover have "waiting (bucket_insert t Ready c) u \<Longrightarrow> waiting c u" for u
      by (auto simp: waiting_def ins split: if_splits)
    moreover have "tm_point (ck_timers (bucket_insert t Ready c) u) = tm_point (ck_timers c u)" for u
      by (simp add: ins)
    ultimately show ?thesis
      using parts(2,3) by (auto simp: eq clock_ok_def ins r)
  next
    case False
    define i where "i = bucketIndexFor (ck_now c) ?p"
    have r: "r = Wheel i" using False by (simp add: r_def i_def)
    note index = bucketIndexFor_spec[OF wheel(2) _ assms(3), folded i_def]
    define e where "e = c\<lparr>ck_nearest := min (ck_nearest c) ?p\<rparr>"
    have e: "linked_up e" "shaped e" "ck_timers e = ck_timers c" "ck_now e = ck_now c" "wheel_ok e"
    proof -
      have "linked xs j e = linked xs j c" "wheel_ok e = wheel_ok c" for xs j by (rule wheel_ok_cong; simp add: e_def)+
      with parts(1) wheel show "linked_up e" "shaped e" "ck_timers e = ck_timers c" "ck_now e = ck_now c" "wheel_ok e"
        by (simp_all add: shaped_def e_def)
    qed
    have i: "i < 63" using index(1) False by simp
    define d where "d = with_bucket i (calculateBucketStart (ck_now c) i) e"
    note made = with_bucket_spec[OF e(1) i, where s = "calculateBucketStart (ck_now c) i", folded d_def]
    have eq: "clocking_start t c = bucket_insert t (Wheel i) d"
      using False
      by (simp add: clocking_start_def Let_def getOrMakeBucket_def with_bucket_def d_def e_def i_def split: option.split)
    obtain b where at: "bucket_at (Wheel i) d = Some b" using made(3) by blast
    have ok: "ref_ok (Wheel i)" using i by simp
    have "shaped d" by (rule made(8)) (use e index(2) False in simp_all)
    then have d: "wheel_ok d" using made(1) wheel by (simp add: wheel_ok_def made(4,5) e)
    note ins = bucket_insert_timers[OF made(1) ok at, of t]
    have "wheel_ok (bucket_insert t (Wheel i) d)"
      by (rule insert_ok[OF d ok at])
         (use assms(2) index(3) False in \<open>simp_all add: made(4,5) e timely_def\<close>)
    moreover have fields: "ck_nearest (bucket_insert t (Wheel i) d) = min (ck_nearest c) ?p"
      "ck_exec (bucket_insert t (Wheel i) d) = ck_exec c"
      "ck_readyAmountPrev (bucket_insert t (Wheel i) d) = ck_readyAmountPrev c"
      using ins(3) made(6) by (simp_all add: moved_only_def e_def)
    moreover have "ck_readyAmount d = ck_readyAmount c"
      using linked_parts(9)[OF made(1)] linked_parts(9)[OF e(1)] made(2) by (simp add: e_def)
    moreover have "min (ck_nearest c) ?p \<le> tm_point (ck_timers (bucket_insert t (Wheel i) d) u)"
      if "waiting (bucket_insert t (Wheel i) d) u" for u
      using that parts(3)[of u] by (auto simp: waiting_def ins made e split: if_splits)
    ultimately show ?thesis
      using parts(2) False by (auto simp: eq clock_ok_def ins made(4,5) e r)
  qed
  then show "clock_ok (clocking_start t c)" "ck_now (clocking_start t c) = ck_now c"
    "ck_timers (clocking_start t c) = (ck_timers c)(t := (ck_timers c t)\<lparr>tm_bucket := Some r\<rparr>)"
    "ck_readyAmount (clocking_start t c) = ck_readyAmount c + (if r = Ready then 1 else 0)"
    "ck_readyAmountPrev (clocking_start t c) = (if r = Ready then ck_readyAmount c + 1 else ck_readyAmountPrev c)"
    "ck_exec (clocking_start t c) \<longleftrightarrow> ck_exec c \<or> r = Ready \<and> ck_readyAmountPrev c \<noteq> ck_readyAmount c + 1"
    by blast+
qed

lemma clocking_stop_spec:
  assumes "clock_ok c"
  shows "clock_ok (clocking_stop t c)" "ck_now (clocking_stop t c) = ck_now c"
    "ck_timers (clocking_stop t c) = (ck_timers c)(t := (ck_timers c t)\<lparr>tm_bucket := None\<rparr>)"
    "ck_readyAmount (clocking_stop t c) = ck_readyAmount c - (if tm_bucket (ck_timers c t) = Some Ready then 1 else 0)"
    "moved_only c (clocking_stop t c)"
proof -
  note parts = clock_parts[OF assms(1)]
  note wheel = wheel_parts[OF parts(1)]
  have "clock_ok (clocking_stop t c) \<and> ck_now (clocking_stop t c) = ck_now c \<and>
    ck_timers (clocking_stop t c) = (ck_timers c)(t := (ck_timers c t)\<lparr>tm_bucket := None\<rparr>) \<and>
    ck_readyAmount (clocking_stop t c) = ck_readyAmount c - (if tm_bucket (ck_timers c t) = Some Ready then 1 else 0) \<and>
    moved_only c (clocking_stop t c)"
  proof (cases "tm_bucket (ck_timers c t)")
    case None
    then have "(ck_timers c)(t := (ck_timers c t)\<lparr>tm_bucket := None\<rparr>) = ck_timers c"
      by (cases "ck_timers c t") (auto simp: fun_eq_iff)
    with None assms show ?thesis by (simp add: clocking_stop_def)
  next
    case (Some r)
    obtain b where b: "ref_ok r" "bucket_at r c = Some b" by (rule linked_bucket[OF wheel(1) Some])
    note rem = bucket_remove_simps[OF wheel(1) b]
    have eq: "clocking_stop t c = bucket_remove t r c" using Some by (simp add: clocking_stop_def)
    have "shaped (bucket_remove t r c)"
      using wheel(4) b unfolding shaped_def by (auto simp: rem(6,8) bucket_at_def split: if_splits)
    moreover have "timely (ck_now c) (ck_timers (bucket_remove t r c) u)" for u
      using wheel(5)[of u] by (simp add: rem(2) timely_def)
    ultimately have "wheel_ok (bucket_remove t r c)"
      using bucket_remove_linked[OF wheel(1) Some] wheel by (simp add: wheel_ok_def rem(6))
    moreover have "ck_nearest (bucket_remove t r c) = ck_nearest c" using rem(7) by (simp add: moved_only_def)
    moreover have "ck_nearest c \<le> tm_point (ck_timers (bucket_remove t r c) u)" if "waiting (bucket_remove t r c) u" for u
      using that parts(3)[of u] by (auto simp: waiting_def rem split: if_splits)
    ultimately show ?thesis using parts(2) rem(7) Some by (simp add: eq clock_ok_def rem(2,5,6))
  qed
  then show "clock_ok (clocking_stop t c)" "ck_now (clocking_stop t c) = ck_now c"
    "ck_timers (clocking_stop t c) = (ck_timers c)(t := (ck_timers c t)\<lparr>tm_bucket := None\<rparr>)"
    "ck_readyAmount (clocking_stop t c) = ck_readyAmount c - (if tm_bucket (ck_timers c t) = Some Ready then 1 else 0)"
    "moved_only c (clocking_stop t c)" by blast+
qed
end
