(* ===== verification/ClockingSpec.thy ===== *)
theory ClockingSpec
  imports ClockingRoll
begin

section \<open>The clock as an alarm queue\<close>

text \<open>
  What the timers need of the clock: a set of alarms with their points, and the set of those that
  are due. The laws of such a queue are a locale; from them it follows that any sequence of starts,
  stops and clock readings does what it does to the two sets, and that a sleep within the promised
  distance misses no alarm. The clock with its buckets keeps the laws.
\<close>

subsection \<open>Specification\<close>

record alarms =
  al_now :: int
  al_due :: "nat \<Rightarrow> int option"
  al_ready :: "nat set"

datatype clock_op = Begin nat int | End nat | Fire int

definition spec_begin :: "nat \<Rightarrow> int \<Rightarrow> alarms \<Rightarrow> alarms" where
  "spec_begin t p a =
     (if p \<le> al_now a then a\<lparr>al_ready := insert t (al_ready a)\<rparr> else a\<lparr>al_due := (al_due a)(t := Some p)\<rparr>)"

definition spec_end :: "nat \<Rightarrow> alarms \<Rightarrow> alarms" where
  "spec_end t a = a\<lparr>al_due := (al_due a)(t := None), al_ready := al_ready a - {t}\<rparr>"

definition spec_fire :: "int \<Rightarrow> alarms \<Rightarrow> alarms" where
  "spec_fire now a =
     \<lparr>al_now = now,
      al_due = (\<lambda>t. case al_due a t of None \<Rightarrow> None | Some p \<Rightarrow> if p \<le> now then None else Some p),
      al_ready = al_ready a \<union> {t. \<exists>p. al_due a t = Some p \<and> p \<le> now}\<rparr>"

fun spec_op :: "clock_op \<Rightarrow> alarms \<Rightarrow> alarms" where
  "spec_op (Begin t p) a = spec_begin t p a"
| "spec_op (End t) a = spec_end t a"
| "spec_op (Fire now) a = spec_fire now a"

text \<open>An alarm is not started twice, points are in range, and the clock does not go back.\<close>

fun allowed :: "clock_op \<Rightarrow> alarms \<Rightarrow> bool" where
  "allowed (Begin t p) a \<longleftrightarrow> al_due a t = None \<and> t \<notin> al_ready a \<and> p < 2 ^ 63"
| "allowed (End t) a \<longleftrightarrow> True"
| "allowed (Fire now) a \<longleftrightarrow> al_now a \<le> now \<and> now < point_max"

fun all_allowed :: "clock_op list \<Rightarrow> alarms \<Rightarrow> bool" where
  "all_allowed [] a \<longleftrightarrow> True"
| "all_allowed (x # xs) a \<longleftrightarrow> allowed x a \<and> all_allowed xs (spec_op x a)"

text \<open>A client of a queue, given the operations of the queue.\<close>

fun drive :: "(nat \<Rightarrow> int \<Rightarrow> 'q \<Rightarrow> 'q) \<Rightarrow> (nat \<Rightarrow> 'q \<Rightarrow> 'q) \<Rightarrow> (int \<Rightarrow> 'q \<Rightarrow> 'q option) \<Rightarrow>
    clock_op list \<Rightarrow> 'q \<Rightarrow> 'q option" where
  "drive start stop fire [] q = Some q"
| "drive start stop fire (Begin t p # xs) q = drive start stop fire xs (start t p q)"
| "drive start stop fire (End t # xs) q = drive start stop fire xs (stop t q)"
| "drive start stop fire (Fire now # xs) q =
     (case fire now q of None \<Rightarrow> None | Some q' \<Rightarrow> drive start stop fire xs q')"

locale alarm_queue =
  fixes ok :: "'q \<Rightarrow> bool"
    and view :: "'q \<Rightarrow> alarms"
    and start :: "nat \<Rightarrow> int \<Rightarrow> 'q \<Rightarrow> 'q"
    and stop :: "nat \<Rightarrow> 'q \<Rightarrow> 'q"
    and fire :: "int \<Rightarrow> 'q \<Rightarrow> 'q option"
    and sleep :: "'q \<Rightarrow> int"
  assumes start: "\<lbrakk>ok q; allowed (Begin t p) (view q)\<rbrakk> \<Longrightarrow> ok (start t p q) \<and> view (start t p q) = spec_begin t p (view q)"
    and stop: "ok q \<Longrightarrow> ok (stop t q) \<and> view (stop t q) = spec_end t (view q)"
    and fire: "\<lbrakk>ok q; allowed (Fire now) (view q)\<rbrakk> \<Longrightarrow> \<exists>q'. fire now q = Some q' \<and> ok q' \<and> view q' = spec_fire now (view q)"
    and sleep: "\<lbrakk>ok q; al_due (view q) t = Some p\<rbrakk> \<Longrightarrow> sleep q \<le> p - al_now (view q)"
    and awake: "\<lbrakk>ok q; t \<in> al_ready (view q)\<rbrakk> \<Longrightarrow> sleep q = 0"
begin

lemma refines:
  assumes "ok q" "all_allowed ops (view q)"
  shows "\<exists>q'. drive start stop fire ops q = Some q' \<and> ok q' \<and> view q' = fold spec_op ops (view q)"
  using assms
proof (induction ops arbitrary: q)
  case (Cons x xs)
  then show ?case
  proof (cases x)
    case (Fire now)
    with Cons.prems fire[of q now] obtain q' where
      "fire now q = Some q'" "ok q'" "view q' = spec_fire now (view q)" by auto
    with Cons.IH[of q'] Cons.prems Fire show ?thesis by auto
  next
    case (Begin t p)
    with Cons.prems start[of q t p] Cons.IH[of "start t p q"] show ?thesis by simp
  next
    case (End t)
    with Cons.prems stop[of q t] Cons.IH[of "stop t q"] show ?thesis by simp
  qed
qed simp

lemma no_oversleep:
  assumes "ok q" "allowed (Fire (al_now (view q) + d)) (view q)" "d < sleep q"
  shows "\<exists>q'. fire (al_now (view q) + d) q = Some q' \<and> al_ready (view q') = {}"
proof -
  from fire[OF assms(1,2)] obtain q' where q': "fire (al_now (view q) + d) q = Some q'"
    "view q' = spec_fire (al_now (view q) + d) (view q)" by blast
  have "al_ready (view q) = {}" using awake[OF assms(1)] assms(2,3) by force
  moreover have "\<not> p \<le> al_now (view q) + d" if "al_due (view q) t = Some p" for t p
    using sleep[OF assms(1) that] assms(3) by linarith
  ultimately show ?thesis using q' by (auto simp: spec_fire_def)
qed

end

subsection \<open>The clock keeps the laws\<close>

definition alarms_of :: "clocking \<Rightarrow> alarms" where
  "alarms_of c =
     \<lparr>al_now = ck_now c, al_due = (\<lambda>t. if waiting c t then Some (tm_point (ck_timers c t)) else None),
      al_ready = {t. tm_bucket (ck_timers c t) = Some Ready}\<rparr>"

text \<open>What \<open>Timer::start\<close> does with the clock.\<close>

definition begin_at :: "nat \<Rightarrow> int \<Rightarrow> clocking \<Rightarrow> clocking" where
  "begin_at t p c = clocking_start t (set_timer t (\<lambda>x. x\<lparr>tm_point := p\<rparr>) c)"

definition fired :: "int \<Rightarrow> clocking \<Rightarrow> clocking option" where
  "fired now c = map_option snd (fireTicks now c)"

definition clock_run :: "clock_op list \<Rightarrow> clocking \<Rightarrow> clocking option" where
  "clock_run = drive begin_at clocking_stop fired"

text \<open>The fields of a timer may be written, its point while it is idle.\<close>

lemma set_timer_ok:
  assumes "clock_ok c" "tm_bucket (f (ck_timers c t)) = tm_bucket (ck_timers c t)"
    and "tm_bucket (ck_timers c t) \<noteq> None \<Longrightarrow> tm_point (f (ck_timers c t)) = tm_point (ck_timers c t)"
  shows "clock_ok (set_timer t f c)"
proof -
  note parts = clock_parts[OF assms(1)]
  note wheel = wheel_parts[OF parts(1)]
  let ?d = "set_timer t f c"
  have tm: "ck_timers ?d u = (if u = t then f (ck_timers c t) else ck_timers c u)" for u by (simp add: set_timer_def)
  have buckets: "tm_bucket (ck_timers ?d u) = tm_bucket (ck_timers c u)" for u by (simp add: tm assms(2))
  have points: "tm_point (ck_timers ?d u) = tm_point (ck_timers c u)" if "tm_bucket (ck_timers c u) \<noteq> None" for u
    using that assms(3) by (cases "u = t") (simp_all add: tm)
  have fields: "ck_now ?d = ck_now c" "ck_nearest ?d = ck_nearest c" "ck_buckets ?d = ck_buckets c"
    "ck_ready ?d = ck_ready c" "ck_amount ?d = ck_amount c" "ck_readyAmount ?d = ck_readyAmount c"
    by (simp_all add: set_timer_def)
  have "wheel_count ?d = wheel_count c" by (rule wheel_count_same) simp
  then have "linked_up ?d" using wheel(1) by (simp add: linked_def buckets fields)
  moreover have "timely (ck_now c) (ck_timers ?d u)" for u
    using wheel(5)[of u] points[of u] buckets[of u] by (auto simp: timely_def split: option.splits bucket_ref.splits)
  moreover have "shaped ?d" using wheel(4) by (simp add: shaped_def fields)
  moreover have "waiting ?d u = waiting c u" "waiting c u \<Longrightarrow> tm_point (ck_timers ?d u) = tm_point (ck_timers c u)" for u
    using points[of u] by (auto simp: waiting_def buckets)
  ultimately show ?thesis using parts wheel by (simp add: clock_ok_def wheel_ok_def fields)
qed

lemma alarms_begin:
  assumes "clock_ok c" "allowed (Begin t p) (alarms_of c)"
  shows "clock_ok (begin_at t p c) \<and> alarms_of (begin_at t p c) = spec_begin t p (alarms_of c)"
proof -
  have idle: "tm_bucket (ck_timers c t) = None"
  proof (cases "tm_bucket (ck_timers c t)")
    case (Some r)
    with assms(2) show ?thesis by (cases r) (auto simp: alarms_of_def waiting_def)
  qed simp
  define d where "d = set_timer t (\<lambda>x. x\<lparr>tm_point := p\<rparr>) c"
  have d: "clock_ok d" unfolding d_def by (rule set_timer_ok[OF assms(1)]) (simp_all add: idle)
  have tm: "ck_timers d = (ck_timers c)(t := (ck_timers c t)\<lparr>tm_point := p\<rparr>)" "ck_now d = ck_now c"
    by (simp_all add: d_def set_timer_def)
  have "tm_bucket (ck_timers d t) = None" "tm_point (ck_timers d t) < 2 ^ 63"
    using idle assms(2) by (simp_all add: tm)
  note started = clocking_start_spec[OF d this]
  have "alarms_of (begin_at t p c) = spec_begin t p (alarms_of c)"
    using idle started(2,3)
    by (auto simp: begin_at_def d_def[symmetric] alarms_of_def spec_begin_def tm waiting_def fun_eq_iff)
  with started(1) show ?thesis by (simp add: begin_at_def d_def)
qed

lemma alarms_end:
  assumes "clock_ok c"
  shows "clock_ok (clocking_stop t c) \<and> alarms_of (clocking_stop t c) = spec_end t (alarms_of c)"
  using clocking_stop_spec[OF assms, of t]
  by (auto simp: alarms_of_def spec_end_def waiting_def fun_eq_iff)

lemma alarms_fire:
  assumes "clock_ok c" "allowed (Fire now) (alarms_of c)"
  shows "\<exists>c'. fired now c = Some c' \<and> clock_ok c' \<and> alarms_of c' = spec_fire now (alarms_of c)"
proof -
  have range: "ck_now c \<le> now" "now < point_max" using assms(2) by (simp_all add: alarms_of_def)
  obtain b d c' where c': "fireTicks now c = Some (b, c')" "c' = (flushReady d)\<lparr>ck_nearest := ck_nearest c'\<rparr>"
    "clock_ok c'" "ck_now c' = now" "advanced now c d"
    by (rule fireTicks_spec[OF assms(1) range]) (rule that)
  have tm: "ck_timers c' = ck_timers d" by (subst c'(2)) simp
  have points: "tm_point (ck_timers d t) = tm_point (ck_timers c t)" for t
    using c'(5) by (simp add: advanced_def moved_only_point)
  have waits: "waiting c' t \<longleftrightarrow> waiting c t \<and> now < tm_point (ck_timers c t)"
    and ready: "tm_bucket (ck_timers c' t) = Some Ready \<longleftrightarrow>
      tm_bucket (ck_timers c t) = Some Ready \<or> waiting c t \<and> tm_point (ck_timers c t) \<le> now" for t
    using c'(5) by (simp_all add: advanced_def waiting_def tm)
  have "alarms_of c' = spec_fire now (alarms_of c)"
    unfolding alarms_of_def spec_fire_def c'(4) waits ready by (auto simp: tm points)
  with c'(1,3) show ?thesis by (simp add: fired_def)
qed

interpretation alarm: alarm_queue clock_ok alarms_of begin_at clocking_stop fired distance2NextPoint
proof unfold_locales
  fix c :: clocking and t p
  assume c: "clock_ok c"
  note parts = clock_parts[OF c]
  show "distance2NextPoint c \<le> p - al_now (alarms_of c)" if "al_due (alarms_of c) t = Some p"
    using that parts(2) parts(3)[of t] by (auto simp: alarms_of_def distance2NextPoint_def split: if_splits)
  show "distance2NextPoint c = 0" if "t \<in> al_ready (alarms_of c)"
    using that ready_list[OF parts(4)] by (auto simp: alarms_of_def distance2NextPoint_def)
qed (use alarms_begin alarms_end alarms_fire in blast)+

subsection \<open>Properties\<close>

lemma new_clocking_ok:
  assumes "0 \<le> now" "now < 2 ^ 63" "\<And>t. tm_bucket (tms t) = None"
  shows "clock_ok (new_clocking now tms)"
proof -
  let ?c = "new_clocking now tms"
  have held: "held r ?c = []" for r
    by (cases r) (simp_all add: held_def new_clocking_def new_bucket_def bucketsAmount_def)
  then have "linked_up ?c"
    using assms(3) by (simp add: linked_def wheel_count_def) (simp add: new_clocking_def new_bucket_def bucketsAmount_def)
  moreover have "shaped ?c" by (simp add: shaped_def new_clocking_def bucketsAmount_def)
  ultimately show ?thesis
    using assms by (simp add: clock_ok_def wheel_ok_def timely_def waiting_def new_clocking_def)
qed

definition idle_timer :: timer where
  "idle_timer = \<lparr>tm_point = 0, tm_bucket = None, tm_interval = 0, tm_repeatable = False, tm_started = False\<rparr>"

lemma idle_clocking_ok [simp]: "0 \<le> now \<Longrightarrow> now < 2 ^ 63 \<Longrightarrow> clock_ok (new_clocking now (\<lambda>t. idle_timer))"
  by (rule new_clocking_ok) (simp_all add: idle_timer_def)

lemma idle_clocking_view [simp]:
  "alarms_of (new_clocking now (\<lambda>t. idle_timer)) = \<lparr>al_now = now, al_due = \<lambda>t. None, al_ready = {}\<rparr>"
  "ck_now (new_clocking now tms) = now"
  by (simp_all add: alarms_of_def new_clocking_def waiting_def idle_timer_def)

text \<open>C30. The buckets keep exactly the alarms: any sequence of starts, stops and clock readings that a
  client may make leaves the waiting timers with their points and the ready timers that a plain
  table of alarms would have; none is lost, fired early or fired late.
\<close>

theorem clock_refines:
  assumes "clock_ok c" "all_allowed ops (alarms_of c)"
  shows "map_option alarms_of (clock_run ops c) = Some (fold spec_op ops (alarms_of c))"
  using alarm.refines[OF assms] by (auto simp: clock_run_def)

theorem clock_refines_witness:
  "map_option alarms_of (clock_run [Begin 1 105, Begin 2 103, Begin 3 90, Fire 104, End 3, Fire 200] (new_clocking 100 (\<lambda>t. idle_timer))) =
   Some (fold spec_op [Begin 1 105, Begin 2 103, Begin 3 90, Fire 104, End 3, Fire 200] (alarms_of (new_clocking 100 (\<lambda>t. idle_timer))))"
  by (rule clock_refines)
     (simp_all add: spec_begin_def spec_end_def spec_fire_def point_max_def)

text \<open>C32. The loop of \<open>rollBucketsTo\<close> ends, whatever the distance the clock is moved on.
\<close>

theorem roll_ends:
  assumes "clock_ok c" "ck_now c \<le> time" "time < point_max"
  shows "rollBucketsTo time c \<noteq> None"
  using rollBucketsTo_spec[OF assms] by blast

theorem roll_ends_witness: "rollBucketsTo (2 ^ 62 + 5) (new_clocking 100 (\<lambda>t. idle_timer)) \<noteq> None"
  by (rule roll_ends) (simp_all add: point_max_def)

text \<open>C31. A sleep shorter than \<open>distance2NextPoint\<close> misses nothing: when the clock is read within it, no timer is due.
\<close>

theorem sleep_misses_nothing:
  assumes "clock_ok c" "0 \<le> d" "d < distance2NextPoint c" "ck_now c + d < point_max"
  shows "map_option (\<lambda>c'. al_ready (alarms_of c')) (fired (ck_now c + d) c) = Some {}"
  using alarm.no_oversleep[OF assms(1), of d] assms(2-4) by (auto simp: alarms_of_def)

theorem sleep_misses_nothing_witness:
  defines "c \<equiv> the (fired 101 (begin_at 1 105 (new_clocking 100 (\<lambda>t. idle_timer))))"
  shows "map_option (\<lambda>c'. al_ready (alarms_of c')) (fired 104 c) = Some {}"
proof -
  have fields: "ck_now c = 101" "distance2NextPoint c = 4" unfolding c_def by code_simp+
  define q where "q = begin_at 1 105 (new_clocking 100 (\<lambda>t. idle_timer))"
  have c: "c = the (fired 101 q)" by (simp add: c_def q_def)
  have "clock_ok q \<and> alarms_of q = spec_begin 1 105 (alarms_of (new_clocking 100 (\<lambda>t. idle_timer)))"
    unfolding q_def by (rule alarms_begin) simp_all
  with alarms_fire[of q 101] have "clock_ok c"
    by (auto simp: c spec_begin_def point_max_def)
  from sleep_misses_nothing[OF this, of 3] fields show ?thesis by (simp add: point_max_def)
qed

end
