(* ===== verification/Timers.thy ===== *)
theory Timers
  imports ClockingSpec
begin

section \<open>Timers\<close>

text \<open>
  Models \<open>source/core/poll/src/impl/timer.cpp\<close> and the handler that the constructor of \<open>Clocking\<close>
  installs: a timer sets its point and enters the clock, the handler takes the ready timers one by one
  and lets each tick. What \<open>exactNow\<close> returns is an argument; it never goes back. What the listeners of
  a tick do is a list of calls of timers for each timer (\<open>listen\<close>); a listener that destroys timers is
  not modelled.
\<close>

subsection \<open>Operations\<close>

text \<open>\<open>Timer::remaining\<close>; \<open>-1\<close> for a timer that is not started.\<close>

definition timer_remaining :: "int \<Rightarrow> nat \<Rightarrow> clocking \<Rightarrow> int" where
  "timer_remaining now t c =
     (let x = ck_timers c t
      in if \<not> tm_started x then -1 else if tm_point x \<le> now then 0 else tm_point x - now)"

definition timer_start :: "int \<Rightarrow> nat \<Rightarrow> clocking \<Rightarrow> clocking" where
  "timer_start now t c =
     (let x = ck_timers c t
      in if \<not> tm_started x \<and> 0 \<le> tm_interval x then
           set_timer t (\<lambda>x. x\<lparr>tm_started := True\<rparr>)
             (clocking_start t (set_timer t (\<lambda>y. y\<lparr>tm_point := now + tm_interval x\<rparr>) c))
         else c)"

definition timer_stop :: "nat \<Rightarrow> clocking \<Rightarrow> clocking" where
  "timer_stop t c =
     (let x = ck_timers c t
      in if tm_started x then
           set_timer t (\<lambda>x. x\<lparr>tm_started := False\<rparr>) (if tm_interval x \<ge> 0 then clocking_stop t c else c)
         else c)"

definition timer_restart :: "int \<Rightarrow> nat \<Rightarrow> clocking \<Rightarrow> clocking" where
  "timer_restart now t c = timer_start now t (timer_stop t c)"

definition timer_interval :: "int \<Rightarrow> int \<Rightarrow> nat \<Rightarrow> clocking \<Rightarrow> clocking" where
  "timer_interval now v t c =
     set_timer t (\<lambda>x. x\<lparr>tm_interval := v\<rparr>)
       (let x = ck_timers c t
        in if tm_started x then
             if tm_interval x \<ge> 0 then
               if v \<ge> 0 then clocking_update t (set_timer t (\<lambda>x. x\<lparr>tm_point := now + v\<rparr>) c)
               else clocking_stop t c
             else
               if v \<ge> 0 then clocking_start t (set_timer t (\<lambda>x. x\<lparr>tm_point := now + v\<rparr>) c)
               else c
           else c)"

definition timer_repeatable :: "bool \<Rightarrow> nat \<Rightarrow> clocking \<Rightarrow> clocking" where
  "timer_repeatable v t c = set_timer t (\<lambda>x. x\<lparr>tm_repeatable := v\<rparr>) c"

text \<open>The point of the next tick.\<close>

definition next_tick :: "int \<Rightarrow> timer \<Rightarrow> int" where
  "next_tick now x =
     (if now < tm_point x then tm_point x + tm_interval x
      else if tm_interval x > 0 then
        let n = tm_point x + (now - tm_point x) div tm_interval x * tm_interval x
        in if n > now then n else n + tm_interval x
      else now)"

text \<open>\<open>Timer::tick\<close> up to the listeners.\<close>

definition timer_tick :: "int \<Rightarrow> nat \<Rightarrow> clocking \<Rightarrow> clocking" where
  "timer_tick now t c =
     (let c1 = (if \<not> tm_repeatable (ck_timers c t) then set_timer t (\<lambda>x. x\<lparr>tm_started := False\<rparr>) c else c);
          x = ck_timers c1 t
      in if tm_repeatable x \<and> tm_started x then
           clocking_start t (set_timer t (\<lambda>y. y\<lparr>tm_point := next_tick now x\<rparr>) c1)
         else c1)"

datatype timer_call =
    StartTimer int nat
  | StopTimer nat
  | RestartTimer int nat
  | SetInterval int int nat
  | SetRepeatable bool nat

fun timer_do :: "timer_call \<Rightarrow> clocking \<Rightarrow> clocking" where
  "timer_do (StartTimer now t) c = timer_start now t c"
| "timer_do (StopTimer t) c = timer_stop t c"
| "timer_do (RestartTimer now t) c = timer_restart now t c"
| "timer_do (SetInterval now v t) c = timer_interval now v t c"
| "timer_do (SetRepeatable b t) c = timer_repeatable b t c"

text \<open>\<open>Bucket::flush\<close> takes the first element out of the ready bucket.\<close>

definition take_ready :: "nat \<Rightarrow> clocking \<Rightarrow> clocking" where
  "take_ready t c = (let d = bucket_remove t Ready c in d\<lparr>ck_readyAmountPrev := ck_readyAmount d\<rparr>)"

text \<open>One turn of the handler: the timer, its tick, its listeners.\<close>

definition ready_turn :: "(nat \<Rightarrow> timer_call list) \<Rightarrow> nat \<Rightarrow> clocking \<Rightarrow> clocking" where
  "ready_turn listen t c =
     (let d = take_ready t c in fold timer_do (listen t) (timer_tick (ck_now d) t d))"

text \<open>The handler; the result has the timers that ticked, in order. It need not return.\<close>

partial_function (option) flush_ready ::
  "(nat \<Rightarrow> timer_call list) \<Rightarrow> nat list \<Rightarrow> clocking \<Rightarrow> (nat list \<times> clocking) option" where
  "flush_ready listen ticked c =
     (case bk_elems (ck_ready c) of
        [] \<Rightarrow> Some (ticked, c)
      | t # _ \<Rightarrow> flush_ready listen (ticked @ [t]) (ready_turn listen t c))"

declare flush_ready.simps [code]

definition exec_ready :: "(nat \<Rightarrow> timer_call list) \<Rightarrow> clocking \<Rightarrow> (nat list \<times> clocking) option" where
  "exec_ready listen c = flush_ready listen [] (c\<lparr>ck_exec := False\<rparr>)"

subsection \<open>The invariant of the timers\<close>

text \<open>A timer is in the clock when it is started with an interval that is not negative; no sum overflows.\<close>

definition armed :: "timer \<Rightarrow> bool" where
  "armed x \<longleftrightarrow> tm_interval x < 2 ^ 62 \<and> (tm_bucket x \<noteq> None \<longleftrightarrow> tm_started x \<and> 0 \<le> tm_interval x)"

definition timers_ok :: "clocking \<Rightarrow> bool" where
  "timers_ok c \<longleftrightarrow> clock_ok c \<and> ck_now c < 2 ^ 62 \<and> (\<forall>t. armed (ck_timers c t))"

lemma timers_parts:
  assumes "timers_ok c"
  shows "clock_ok c" "ck_now c < 2 ^ 62" "armed (ck_timers c t)"
  using assms by (auto simp: timers_ok_def)

fun fits :: "timer_call \<Rightarrow> bool" where
  "fits (StartTimer now t) \<longleftrightarrow> now < 2 ^ 62"
| "fits (StopTimer t) \<longleftrightarrow> True"
| "fits (RestartTimer now t) \<longleftrightarrow> now < 2 ^ 62"
| "fits (SetInterval now v t) \<longleftrightarrow> now < 2 ^ 62 \<and> v < 2 ^ 62"
| "fits (SetRepeatable b t) \<longleftrightarrow> True"

lemma set_timer_simps [simp]:
  "ck_timers (set_timer t f c) = (ck_timers c)(t := f (ck_timers c t))" "ck_now (set_timer t f c) = ck_now c"
  "ck_readyAmount (set_timer t f c) = ck_readyAmount c" "ck_readyAmountPrev (set_timer t f c) = ck_readyAmountPrev c"
  "ck_exec (set_timer t f c) = ck_exec c" "ck_ready (set_timer t f c) = ck_ready c"
  "ck_nearest (set_timer t f c) = ck_nearest c"
  by (simp_all add: set_timer_def)

text \<open>An idle timer gets a point and goes into the clock; the other timers stay.\<close>

lemma enter_spec:
  assumes "clock_ok c" "tm_bucket (ck_timers c t) = None" "p < 2 ^ 63"
  defines "d \<equiv> clocking_start t (set_timer t (\<lambda>x. x\<lparr>tm_point := p\<rparr>) c)"
  shows "clock_ok d" "ck_now d = ck_now c"
    "\<exists>r. ck_timers d = (ck_timers c)(t := (ck_timers c t)\<lparr>tm_point := p, tm_bucket := Some r\<rparr>) \<and>
      (r = Ready \<longleftrightarrow> p \<le> ck_now c)"
proof -
  define e where "e = set_timer t (\<lambda>x. x\<lparr>tm_point := p\<rparr>) c"
  have "clock_ok e" unfolding e_def by (rule set_timer_ok[OF assms(1)]) (simp_all add: assms(2))
  from clocking_start_spec(1,2,3)[OF this, of t] assms(2,3)
  show "clock_ok d" "ck_now d = ck_now c"
    "\<exists>r. ck_timers d = (ck_timers c)(t := (ck_timers c t)\<lparr>tm_point := p, tm_bucket := Some r\<rparr>) \<and>
      (r = Ready \<longleftrightarrow> p \<le> ck_now c)"
    by (auto simp: d_def e_def[symmetric]) (auto simp: e_def)
qed

lemma stop_set_point:
  assumes "\<And>x. tm_bucket (f x) = tm_bucket x" "\<And>x. f (x\<lparr>tm_bucket := None\<rparr>) = (f x)\<lparr>tm_bucket := None\<rparr>"
  shows "clocking_stop t (set_timer t f c) = set_timer t f (clocking_stop t c)"
proof (cases "tm_bucket (ck_timers c t)")
  case None
  then show ?thesis by (simp add: clocking_stop_def assms(1))
next
  case (Some r)
  have at: "bucket_at r (set_timer t f c) = bucket_at r c" by (simp add: bucket_at_def set_timer_def split: bucket_ref.split)
  have swap: "set_timer t (\<lambda>x. x\<lparr>tm_bucket := None\<rparr>) (set_timer t f c) = set_timer t f (set_timer t (\<lambda>x. x\<lparr>tm_bucket := None\<rparr>) c)"
    by (simp add: set_timer_def assms(2))
  have "put_bucket r b (set_timer t f d) = set_timer t f (put_bucket r b d)"
    "count_down a n (set_timer t f d) = set_timer t f (count_down a n d)" for b d a n
    by (auto simp: put_bucket_def count_down_def set_timer_def split: bucket_ref.split amount.split)
  with Some show ?thesis by (simp add: clocking_stop_def assms(1) bucket_remove_def at swap split: option.split)
qed

lemma set_plain_ok:
  assumes "timers_ok c" "armed (f (ck_timers c t))"
    and "tm_bucket (f (ck_timers c t)) = tm_bucket (ck_timers c t)" "tm_point (f (ck_timers c t)) = tm_point (ck_timers c t)"
  shows "timers_ok (set_timer t f c)"
  using set_timer_ok[OF timers_parts(1)[OF assms(1)], of f t] assms by (simp add: timers_ok_def)

lemma timers_okI:
  assumes "clock_ok d" "ck_now d = ck_now c" "timers_ok c" "armed (ck_timers d t)"
    and "\<And>u. u \<noteq> t \<Longrightarrow> ck_timers d u = ck_timers c u"
  shows "timers_ok d"
  using assms unfolding timers_ok_def by metis

lemma timer_start_ok:
  assumes "timers_ok c" "now < 2 ^ 62"
  shows "timers_ok (timer_start now t c)"
proof (cases "\<not> tm_started (ck_timers c t) \<and> 0 \<le> tm_interval (ck_timers c t)")
  case True
  note parts = timers_parts[OF assms(1)]
  have idle: "tm_bucket (ck_timers c t) = None" using True parts(3)[of t] by (simp add: armed_def)
  let ?p = "now + tm_interval (ck_timers c t)"
  have "?p < 2 ^ 63" using assms(2) parts(3)[of t] by (simp add: armed_def)
  define d where "d = clocking_start t (set_timer t (\<lambda>x. x\<lparr>tm_point := ?p\<rparr>) c)"
  note enter = enter_spec[OF parts(1) idle \<open>?p < 2 ^ 63\<close>, folded d_def]
  obtain r where r: "ck_timers d = (ck_timers c)(t := (ck_timers c t)\<lparr>tm_point := ?p, tm_bucket := Some r\<rparr>)"
    using enter(3) by blast
  have "timer_start now t c = set_timer t (\<lambda>x. x\<lparr>tm_started := True\<rparr>) d"
    using True by (simp add: timer_start_def d_def)
  moreover have "clock_ok (set_timer t (\<lambda>x. x\<lparr>tm_started := True\<rparr>) d)"
    by (rule set_timer_ok[OF enter(1)]) simp_all
  ultimately show ?thesis
    using True parts(3)[of t] enter(2) by (intro timers_okI[OF _ _ assms(1), of _ t]) (auto simp: r armed_def)
qed (use assms(1) in \<open>auto simp: timer_start_def\<close>)

lemma timer_stop_ok:
  assumes "timers_ok c"
  shows "timers_ok (timer_stop t c)"
proof -
  note parts = timers_parts[OF assms]
  note stop = clocking_stop_spec[OF parts(1), of t]
  define d where "d = (if tm_interval (ck_timers c t) \<ge> 0 then clocking_stop t c else c)"
  have d: "clock_ok d" "ck_now d = ck_now c" "ck_timers d = (ck_timers c)(t := (ck_timers c t)\<lparr>tm_bucket := None\<rparr>)"
  proof -
    have "tm_bucket (ck_timers c t) = None" if "tm_interval (ck_timers c t) < 0"
      using that parts(3)[of t] by (simp add: armed_def)
    then show "clock_ok d" "ck_now d = ck_now c" "ck_timers d = (ck_timers c)(t := (ck_timers c t)\<lparr>tm_bucket := None\<rparr>)"
      using parts(1) stop by (cases "ck_timers c t"; auto simp: d_def fun_eq_iff)+
  qed
  have "clock_ok (set_timer t (\<lambda>x. x\<lparr>tm_started := False\<rparr>) d)" by (rule set_timer_ok[OF d(1)]) simp_all
  with d parts(3)[of t] assms show ?thesis
    unfolding timer_stop_def Let_def d_def[symmetric]
    by (auto intro!: timers_okI[OF _ _ assms, of _ t] simp: armed_def)
qed

lemma timer_interval_ok:
  assumes "timers_ok c" "now < 2 ^ 62" "v < 2 ^ 62"
  shows "timers_ok (timer_interval now v t c)"
proof -
  note parts = timers_parts[OF assms(1)]
  note stop = clocking_stop_spec[OF parts(1), of t]
  let ?x = "ck_timers c t"
  have p: "now + v < 2 ^ 63" using assms(2,3) by simp
  have result: "timers_ok (set_timer t (\<lambda>x. x\<lparr>tm_interval := v\<rparr>) d)"
    if "clock_ok d" "ck_now d = ck_now c" "\<And>u. u \<noteq> t \<Longrightarrow> ck_timers d u = ck_timers c u"
      "tm_bucket (ck_timers d t) \<noteq> None \<longleftrightarrow> tm_started ?x \<and> 0 \<le> v" "tm_started (ck_timers d t) = tm_started ?x" for d
  proof -
    have "clock_ok (set_timer t (\<lambda>x. x\<lparr>tm_interval := v\<rparr>) d)" by (rule set_timer_ok[OF that(1)]) simp_all
    with that assms(3) show ?thesis by (intro timers_okI[OF _ _ assms(1), of _ t]) (auto simp: armed_def)
  qed
  have enters: "timers_ok (set_timer t (\<lambda>x. x\<lparr>tm_interval := v\<rparr>)
      (clocking_start t (set_timer t (\<lambda>x. x\<lparr>tm_point := now + v\<rparr>) e)))"
    if e: "clock_ok e" "ck_now e = ck_now c" "ck_timers e = (ck_timers c)(t := ?x\<lparr>tm_bucket := None\<rparr>)"
      "tm_started ?x" "0 \<le> v" for e
  proof -
    have idle: "tm_bucket (ck_timers e t) = None" by (simp add: e)
    note enter = enter_spec[OF e(1) idle p]
    show ?thesis by (rule result) (use enter e in auto)
  qed
  show ?thesis
  proof (cases "tm_started ?x")
    case True
    show ?thesis
    proof (cases "0 \<le> tm_interval ?x")
      case started: True
      have "clocking_update t (set_timer t (\<lambda>x. x\<lparr>tm_point := now + v\<rparr>) c) =
          clocking_start t (set_timer t (\<lambda>x. x\<lparr>tm_point := now + v\<rparr>) (clocking_stop t c))"
        by (simp add: clocking_update_def stop_set_point)
      with True started enters[OF stop(1,2,3)] result[OF stop(1,2)] show ?thesis
        by (simp add: timer_interval_def Let_def stop(3))
    next
      case False
      then have idle: "tm_bucket ?x = None" using parts(3)[of t] by (simp add: armed_def)
      then have "ck_timers c = (ck_timers c)(t := ?x\<lparr>tm_bucket := None\<rparr>)" by (cases ?x) (auto simp: fun_eq_iff)
      from enters[OF parts(1) refl this] result[OF parts(1) refl] True False idle show ?thesis
        by (simp add: timer_interval_def Let_def)
    qed
  next
    case False
    then have "tm_bucket ?x = None" using parts(3)[of t] by (simp add: armed_def)
    with False result[OF parts(1) refl] show ?thesis by (simp add: timer_interval_def Let_def)
  qed
qed

lemma timer_do_ok: "timers_ok c \<Longrightarrow> fits x \<Longrightarrow> timers_ok (timer_do x c)"
proof (induction x)
  case (SetRepeatable b t)
  then show ?case
    using timers_parts(3)[OF SetRepeatable.prems(1), of t]
    by (simp add: timer_repeatable_def set_plain_ok armed_def)
qed (simp_all add: timer_start_ok timer_stop_ok timer_restart_def timer_interval_ok)

subsection \<open>The handler of ready timers\<close>

lemma clock_ok_plain [simp]:
  "clock_ok (c\<lparr>ck_readyAmountPrev := n\<rparr>) = clock_ok c" "clock_ok (c\<lparr>ck_exec := b\<rparr>) = clock_ok c"
proof -
  have "wheel_ok (c\<lparr>ck_readyAmountPrev := n\<rparr>) = wheel_ok c" "waiting (c\<lparr>ck_readyAmountPrev := n\<rparr>) t = waiting c t"
    "wheel_ok (c\<lparr>ck_exec := b\<rparr>) = wheel_ok c" "waiting (c\<lparr>ck_exec := b\<rparr>) t = waiting c t" for t
    by (rule wheel_ok_cong; simp)+
  then show "clock_ok (c\<lparr>ck_readyAmountPrev := n\<rparr>) = clock_ok c" "clock_ok (c\<lparr>ck_exec := b\<rparr>) = clock_ok c"
    by (simp_all add: clock_ok_def)
qed

lemma timers_ok_plain [simp]: "timers_ok (c\<lparr>ck_exec := b\<rparr>) = timers_ok c"
  by (simp add: timers_ok_def)

lemma ready_elems_start:
  "bk_elems (ck_ready (clocking_start t c)) =
     bk_elems (ck_ready c) @ (if tm_point (ck_timers c t) \<le> ck_now c then [t] else [])"
  by (auto simp: clocking_start_def Let_def bucket_insert_def link_last_def getOrMakeBucket_def put_bucket_def
      bucket_at_def split: option.splits)

lemma next_tick_spec:
  assumes "tm_point x \<le> now" "0 < tm_interval x"
  shows "now < next_tick now x" "next_tick now x \<le> now + tm_interval x" "tm_interval x dvd next_tick now x - tm_point x"
proof -
  let ?q = "(now - tm_point x) div tm_interval x * tm_interval x"
  have q: "?q \<le> now - tm_point x" "now - tm_point x < ?q + tm_interval x"
    using div_mult_mod_eq[of "now - tm_point x" "tm_interval x"] pos_mod_bound[OF assms(2), of "now - tm_point x"]
      pos_mod_sign[OF assms(2), of "now - tm_point x"] by linarith+
  then have next_is: "next_tick now x = tm_point x + ?q + tm_interval x" using assms by (simp add: next_tick_def Let_def)
  show "now < next_tick now x" "next_tick now x \<le> now + tm_interval x" unfolding next_is using q by linarith+
  show "tm_interval x dvd next_tick now x - tm_point x" unfolding next_is by simp
qed

lemma take_ready_spec:
  assumes "clock_ok c" "bk_elems (ck_ready c) = t # ts"
  shows "clock_ok (take_ready t c)" "ck_now (take_ready t c) = ck_now c"
    "ck_timers (take_ready t c) = (ck_timers c)(t := (ck_timers c t)\<lparr>tm_bucket := None\<rparr>)"
    "bk_elems (ck_ready (take_ready t c)) = ts" "tm_bucket (ck_timers c t) = Some Ready"
proof -
  note parts = clock_parts[OF assms(1)]
  show ready: "tm_bucket (ck_timers c t) = Some Ready"
    using ready_list(1)[OF parts(4), of t] assms(2) by simp
  have "bucket_remove t Ready c = clocking_stop t c" using ready by (simp add: clocking_stop_def)
  with clocking_stop_spec[OF assms(1), of t]
  show "clock_ok (take_ready t c)" "ck_now (take_ready t c) = ck_now c"
    "ck_timers (take_ready t c) = (ck_timers c)(t := (ck_timers c t)\<lparr>tm_bucket := None\<rparr>)"
    by (simp_all add: take_ready_def Let_def)
  show "bk_elems (ck_ready (take_ready t c)) = ts"
    using assms(2) by (simp add: take_ready_def Let_def bucket_remove_def bucket_at_def put_bucket_def)
qed

text \<open>A tick without listeners.\<close>

lemma tick_spec:
  assumes "timers_ok c" "bk_elems (ck_ready c) = t # ts"
  defines "d \<equiv> timer_tick (ck_now c) t (take_ready t c)"
  shows "timers_ok d" "ck_now d = ck_now c"
    "bk_elems (ck_ready d) = ts @ (if tm_repeatable (ck_timers c t) \<and> tm_interval (ck_timers c t) = 0 then [t] else [])"
    "u \<noteq> t \<Longrightarrow> ck_timers d u = ck_timers c u"
    "tm_repeatable (ck_timers c t) \<Longrightarrow> tm_point (ck_timers d t) = next_tick (ck_now c) (ck_timers c t)"
    "tm_repeatable (ck_timers d t) = tm_repeatable (ck_timers c t)" "tm_interval (ck_timers d t) = tm_interval (ck_timers c t)"
    "tm_repeatable (ck_timers c t) \<Longrightarrow> tm_bucket (ck_timers d t) \<noteq> None"
proof -
  let ?x = "ck_timers c t" and ?now = "ck_now c"
  note parts = timers_parts[OF assms(1)]
  note taken = take_ready_spec[OF parts(1) assms(2)]
  define e where "e = take_ready t c"
  have e: "clock_ok e" "ck_now e = ?now" "ck_timers e = (ck_timers c)(t := ?x\<lparr>tm_bucket := None\<rparr>)" "bk_elems (ck_ready e) = ts"
    using taken by (simp_all add: e_def)
  have on: "tm_started ?x" "0 \<le> tm_interval ?x" "tm_interval ?x < 2 ^ 62" using parts(3)[of t] taken(5) by (auto simp: armed_def)
  have due: "tm_point ?x \<le> ?now"
    using wheel_parts(5)[OF clock_parts(1)[OF parts(1)], of t] taken(5) by (simp add: timely_def)
  have "timers_ok d \<and> ck_now d = ?now \<and>
    bk_elems (ck_ready d) = ts @ (if tm_repeatable ?x \<and> tm_interval ?x = 0 then [t] else []) \<and>
    (u \<noteq> t \<longrightarrow> ck_timers d u = ck_timers c u) \<and>
    (tm_repeatable ?x \<longrightarrow> tm_point (ck_timers d t) = next_tick ?now ?x) \<and>
    tm_repeatable (ck_timers d t) = tm_repeatable ?x \<and> tm_interval (ck_timers d t) = tm_interval ?x \<and>
    (tm_repeatable ?x \<longrightarrow> tm_bucket (ck_timers d t) \<noteq> None)"
  proof (cases "tm_repeatable ?x")
    case False
    have d: "d = set_timer t (\<lambda>x. x\<lparr>tm_started := False\<rparr>) e"
      using False by (simp add: d_def e_def[symmetric] timer_tick_def Let_def e(3))
    have "clock_ok d" unfolding d by (rule set_timer_ok[OF e(1)]) simp_all
    then have "timers_ok d"
      by (intro timers_okI[OF _ _ assms(1), of _ t]) (use on in \<open>simp_all add: d e armed_def\<close>)
    with False show ?thesis by (simp add: d e)
  next
    case True
    let ?p = "next_tick ?now ?x"
    have same: "next_tick ?now (?x\<lparr>tm_bucket := None\<rparr>) = ?p" by (simp add: next_tick_def Let_def)
    have d: "d = clocking_start t (set_timer t (\<lambda>y. y\<lparr>tm_point := ?p\<rparr>) e)"
      using True on(1) by (simp add: d_def e_def[symmetric] timer_tick_def Let_def e(3) same)
    have "?p < 2 ^ 63 \<and> (?p \<le> ?now \<longleftrightarrow> tm_interval ?x = 0)"
    proof (cases "tm_interval ?x = 0")
      case True
      with due have "?p = ?now" by (simp add: next_tick_def)
      with True parts(2) show ?thesis by simp
    next
      case False
      then have "0 < tm_interval ?x" using on(2) by simp
      from next_tick_spec(1,2)[OF due this] False on(3) parts(2) show ?thesis by auto
    qed
    then have p: "?p < 2 ^ 63" "?p \<le> ?now \<longleftrightarrow> tm_interval ?x = 0" by auto
    have idle: "tm_bucket (ck_timers e t) = None" by (simp add: e)
    note enter = enter_spec[OF e(1) idle p(1), folded d]
    obtain r where r: "ck_timers d = (ck_timers c)(t := ?x\<lparr>tm_point := ?p, tm_bucket := Some r\<rparr>)"
      using enter(3) by (auto simp: e)
    have "timers_ok d"
      by (intro timers_okI[OF enter(1) _ assms(1), of t]) (use enter(2) on in \<open>simp_all add: e r armed_def\<close>)
    moreover have "bk_elems (ck_ready d) = ts @ (if tm_interval ?x = 0 then [t] else [])"
      using p(2) by (simp add: d ready_elems_start e)
    ultimately show ?thesis using True enter(2) e(2) by (simp add: r)
  qed
  then show "timers_ok d" "ck_now d = ?now"
    "bk_elems (ck_ready d) = ts @ (if tm_repeatable ?x \<and> tm_interval ?x = 0 then [t] else [])"
    "u \<noteq> t \<Longrightarrow> ck_timers d u = ck_timers c u"
    "tm_repeatable ?x \<Longrightarrow> tm_point (ck_timers d t) = next_tick ?now ?x"
    "tm_repeatable (ck_timers d t) = tm_repeatable ?x" "tm_interval (ck_timers d t) = tm_interval ?x"
    "tm_repeatable ?x \<Longrightarrow> tm_bucket (ck_timers d t) \<noteq> None" by blast+
qed

lemma calls_ok: "timers_ok c \<Longrightarrow> (\<And>x. x \<in> set xs \<Longrightarrow> fits x) \<Longrightarrow> timers_ok (fold timer_do xs c)"
  by (induction xs arbitrary: c) (simp_all add: timer_do_ok)

lemma clock_stays:
  "ck_now (clocking_start t c) = ck_now c" "ck_now (clocking_stop t c) = ck_now c"
  by (simp_all add: clocking_start_def clocking_stop_def bucket_insert_def bucket_remove_def link_last_def
      getOrMakeBucket_def put_bucket_def Let_def split: option.split bucket_ref.split)

lemma calls_stay: "ck_now (fold timer_do xs c) = ck_now c"
proof -
  have "ck_now (timer_do x c) = ck_now c" for x c
    by (cases x) (simp_all add: timer_start_def timer_stop_def timer_restart_def timer_interval_def timer_repeatable_def
        clocking_update_def clock_stays Let_def)
  then show ?thesis by (induction xs arbitrary: c) simp_all
qed

lemma turn_ok:
  assumes "timers_ok c" "bk_elems (ck_ready c) = t # ts" "\<And>x. x \<in> set (listen t) \<Longrightarrow> fits x"
  shows "timers_ok (ready_turn listen t c)" "ck_now (ready_turn listen t c) = ck_now c"
proof -
  have "ck_now (take_ready t c) = ck_now c"
    by (rule take_ready_spec(2)[OF timers_parts(1)[OF assms(1)] assms(2)])
  then have turn: "ready_turn listen t c = fold timer_do (listen t) (timer_tick (ck_now c) t (take_ready t c))"
    by (simp add: ready_turn_def Let_def)
  show "timers_ok (ready_turn listen t c)" "ck_now (ready_turn listen t c) = ck_now c"
    unfolding turn using tick_spec(1,2)[OF assms(1,2)] by (auto simp: calls_stay intro!: calls_ok assms(3))
qed

lemma flush_ready_ok:
  assumes "flush_ready listen ticked c = Some r" "timers_ok c" "\<And>t x. x \<in> set (listen t) \<Longrightarrow> fits x"
  shows "timers_ok (snd r) \<and> ck_now (snd r) = ck_now c \<and> bk_elems (ck_ready (snd r)) = []"
proof -
  have "timers_ok c \<longrightarrow> (\<forall>t x. x \<in> set (listen t) \<longrightarrow> fits x) \<longrightarrow>
      timers_ok (snd r) \<and> ck_now (snd r) = ck_now c \<and> bk_elems (ck_ready (snd r)) = []"
  proof (rule flush_ready.raw_induct[OF _ assms(1)], intro impI)
    fix go listen ticked c r
    assume IH: "\<And>listen ticked c r. go listen ticked c = Some r \<Longrightarrow> timers_ok c \<longrightarrow>
        (\<forall>t x. x \<in> set (listen t) \<longrightarrow> fits x) \<longrightarrow>
        timers_ok (snd r) \<and> ck_now (snd r) = ck_now c \<and> bk_elems (ck_ready (snd r)) = []"
      and step: "(case bk_elems (ck_ready c) of [] \<Rightarrow> Some (ticked, c)
        | t # _ \<Rightarrow> go listen (ticked @ [t]) (ready_turn listen t c)) = Some r"
      and ok: "timers_ok c" "\<forall>t x. x \<in> set (listen t) \<longrightarrow> fits x"
    show "timers_ok (snd r) \<and> ck_now (snd r) = ck_now c \<and> bk_elems (ck_ready (snd r)) = []"
    proof (cases "bk_elems (ck_ready c)")
      case (Cons t ts)
      with step have "go listen (ticked @ [t]) (ready_turn listen t c) = Some r" by simp
      from IH[OF this] turn_ok[OF ok(1) Cons, of listen] ok(2) show ?thesis by simp
    qed (use step ok in auto)
  qed
  with assms(2,3) show ?thesis by blast
qed

subsection \<open>Sessions of the service\<close>

text \<open>
  The service calls timers, reads the clock (\<open>fireTicks\<close>) and lets the pool of fibers run the handler
  of ready timers.
\<close>

datatype service_event = Call timer_call | Read int | Exec

fun service_run :: "(nat \<Rightarrow> timer_call list) \<Rightarrow> service_event list \<Rightarrow> clocking \<Rightarrow> clocking option" where
  "service_run listen [] c = Some c"
| "service_run listen (Call x # es) c = service_run listen es (timer_do x c)"
| "service_run listen (Read now # es) c =
     (case fired now c of None \<Rightarrow> None | Some c' \<Rightarrow> service_run listen es c')"
| "service_run listen (Exec # es) c =
     (case exec_ready listen c of None \<Rightarrow> None | Some r \<Rightarrow> service_run listen es (snd r))"

fun events_fit :: "int \<Rightarrow> service_event list \<Rightarrow> bool" where
  "events_fit m [] \<longleftrightarrow> True"
| "events_fit m (Call x # es) \<longleftrightarrow> fits x \<and> events_fit m es"
| "events_fit m (Read now # es) \<longleftrightarrow> m \<le> now \<and> now < 2 ^ 62 \<and> events_fit now es"
| "events_fit m (Exec # es) \<longleftrightarrow> events_fit m es"

lemma fired_spec:
  assumes "clock_ok c" "ck_now c \<le> now" "now < point_max" "fired now c = Some c'"
  shows "clock_ok c'" "ck_now c' = now" "ck_readyAmountPrev c' = ck_readyAmount c'"
    "ck_exec c' \<longleftrightarrow> ck_exec c \<or> ck_readyAmountPrev c \<noteq> ck_readyAmount c'"
    "\<And>t. ck_timers c' t = (ck_timers c t)\<lparr>tm_bucket := tm_bucket (ck_timers c' t)\<rparr>"
    "\<And>t. waiting c' t \<longleftrightarrow> waiting c t \<and> now < tm_point (ck_timers c t)"
    "\<And>t. tm_bucket (ck_timers c' t) = Some Ready \<longleftrightarrow>
       tm_bucket (ck_timers c t) = Some Ready \<or> waiting c t \<and> tm_point (ck_timers c t) \<le> now"
proof -
  obtain b d e where e: "fireTicks now c = Some (b, e)" "e = (flushReady d)\<lparr>ck_nearest := ck_nearest e\<rparr>"
    "clock_ok e" "ck_now e = now" "advanced now c d"
    by (rule fireTicks_spec[OF assms(1-3)]) (rule that)
  then have "e = c'" using assms(4) by (simp add: fired_def)
  with e have d: "c' = (flushReady d)\<lparr>ck_nearest := ck_nearest c'\<rparr>"
    "clock_ok c'" "ck_now c' = now" "advanced now c d" by blast+
  have tm: "ck_timers c' = ck_timers d" by (subst d(1)) simp
  have counts: "ck_readyAmount c' = ck_readyAmount d" "ck_readyAmountPrev c' = ck_readyAmount d"
    "ck_exec c' \<longleftrightarrow> ck_exec d \<or> ck_readyAmountPrev d \<noteq> ck_readyAmount d"
    by (subst d(1), simp)+
  show "clock_ok c'" "ck_now c' = now" "ck_readyAmountPrev c' = ck_readyAmount c'"
    "ck_exec c' \<longleftrightarrow> ck_exec c \<or> ck_readyAmountPrev c \<noteq> ck_readyAmount c'"
    using d(2-4) counts by (auto simp: advanced_def moved_only_def)
  show "ck_timers c' t = (ck_timers c t)\<lparr>tm_bucket := tm_bucket (ck_timers c' t)\<rparr>" for t
    using d(4) by (simp add: advanced_def moved_only_def tm)
  show "waiting c' t \<longleftrightarrow> waiting c t \<and> now < tm_point (ck_timers c t)"
    "tm_bucket (ck_timers c' t) = Some Ready \<longleftrightarrow>
       tm_bucket (ck_timers c t) = Some Ready \<or> waiting c t \<and> tm_point (ck_timers c t) \<le> now" for t
    using d(4) by (simp_all add: advanced_def waiting_def tm)
qed

lemma in_clock: "tm_bucket (ck_timers c t) \<noteq> None \<longleftrightarrow> waiting c t \<or> tm_bucket (ck_timers c t) = Some Ready"
  by (cases "tm_bucket (ck_timers c t)"; cases "the (tm_bucket (ck_timers c t))") (auto simp: waiting_def)

lemma fired_ok:
  assumes "timers_ok c" "ck_now c \<le> now" "now < 2 ^ 62" "fired now c = Some c'"
  shows "timers_ok c'"
proof -
  have "now < point_max" using assms(3) by (simp add: point_max_def)
  note fired = fired_spec[OF timers_parts(1)[OF assms(1)] assms(2) this assms(4)]
  have "armed (ck_timers c' t)" for t
  proof -
    have "tm_bucket (ck_timers c' t) \<noteq> None \<longleftrightarrow> tm_bucket (ck_timers c t) \<noteq> None"
      unfolding in_clock fired(6,7) by auto
    moreover obtain b where "ck_timers c' t = (ck_timers c t)\<lparr>tm_bucket := b\<rparr>" using fired(5) by blast
    ultimately show ?thesis using timers_parts(3)[OF assms(1), of t] by (simp add: armed_def)
  qed
  with fired(1,2) assms(3) show ?thesis by (simp add: timers_ok_def)
qed

lemma exec_ok:
  assumes "timers_ok c" "exec_ready listen c = Some r" "\<And>t x. x \<in> set (listen t) \<Longrightarrow> fits x"
  shows "timers_ok (snd r)" "ck_now (snd r) = ck_now c" "bk_elems (ck_ready (snd r)) = []"
  using flush_ready_ok[of listen "[]" "c\<lparr>ck_exec := False\<rparr>" r] assms by (auto simp: exec_ready_def)

lemma service_ok:
  assumes "timers_ok c" "events_fit (ck_now c) es" "\<And>t x. x \<in> set (listen t) \<Longrightarrow> fits x"
    and "service_run listen es c = Some c'"
  shows "timers_ok c'"
  using assms(1,2,4)
proof (induction es arbitrary: c)
  case (Cons e es)
  show ?case
  proof (cases e)
    case (Call x)
    then show ?thesis
      using Cons.IH[of "timer_do x c"] Cons.prems timer_do_ok[of c x] calls_stay[of "[x]" c] by simp
  next
    case (Read now)
    with Cons.prems obtain d where d: "fired now c = Some d" "service_run listen es d = Some c'"
      by (auto split: option.splits)
    have now: "ck_now c \<le> now" "now < 2 ^ 62" "events_fit now es" using Cons.prems Read by auto
    then have "ck_now d = now"
      using fired_spec(2)[OF timers_parts(1)[OF Cons.prems(1)] _ _ d(1)] by (simp add: point_max_def)
    with Cons.IH[of d] fired_ok[OF Cons.prems(1) now(1,2) d(1)] now(3) d(2) show ?thesis by simp
  next
    case Exec
    with Cons.prems obtain r where r: "exec_ready listen c = Some r" "service_run listen es (snd r) = Some c'"
      by (auto split: option.splits)
    with Cons.IH[of "snd r"] exec_ok[OF Cons.prems(1) r(1) assms(3)] Cons.prems(2) Exec show ?thesis by simp
  qed
qed simp

subsection \<open>Handlers that end and handlers that do not\<close>

abbreviation silent :: "nat \<Rightarrow> timer_call list" where
  "silent \<equiv> \<lambda>t. []"

lemma silent_turn:
  assumes "timers_ok c" "bk_elems (ck_ready c) = t # ts"
  shows "ready_turn silent t c = timer_tick (ck_now c) t (take_ready t c)"
  using take_ready_spec(2)[OF timers_parts(1)[OF assms(1)] assms(2)] by (simp add: ready_turn_def Let_def)

lemma silent_flush:
  assumes "timers_ok c" "bk_elems (ck_ready c) = ts"
    and "\<And>t. t \<in> set ts \<Longrightarrow> tm_repeatable (ck_timers c t) \<Longrightarrow> tm_interval (ck_timers c t) \<noteq> 0"
  shows "\<exists>c'. flush_ready silent ticked c = Some (ticked @ ts, c')"
  using assms
proof (induction ts arbitrary: c ticked)
  case Nil
  then show ?case by (subst flush_ready.simps) simp
next
  case (Cons t ts)
  let ?d = "timer_tick (ck_now c) t (take_ready t c)"
  note tick = tick_spec[OF Cons.prems(1,2)]
  have elems: "bk_elems (ck_ready ?d) = ts" using tick(3) Cons.prems(3)[of t] by auto
  have "distinct (t # ts)"
    using ready_list(3)[OF clock_parts(4)[OF timers_parts(1)[OF Cons.prems(1)]]] Cons.prems(2) by simp
  then have "ck_timers ?d u = ck_timers c u" if "u \<in> set ts" for u using tick(4)[of u] that by auto
  then have "\<exists>c'. flush_ready silent (ticked @ [t]) ?d = Some ((ticked @ [t]) @ ts, c')"
    by (intro Cons.IH[OF tick(1) elems]) (use Cons.prems(3) in auto)
  then show ?case
    using Cons.prems(2) silent_turn[OF Cons.prems(1,2)] by (subst flush_ready.simps) simp
qed

definition restless :: "nat \<Rightarrow> clocking \<Rightarrow> bool" where
  "restless t c \<longleftrightarrow> timers_ok c \<and> t \<in> set (bk_elems (ck_ready c)) \<and>
     tm_repeatable (ck_timers c t) \<and> tm_interval (ck_timers c t) = 0"

lemma restless_turn:
  assumes "restless t c" "bk_elems (ck_ready c) = u # us"
  shows "restless t (ready_turn silent u c)"
proof -
  have ok: "timers_ok c" using assms(1) by (simp add: restless_def)
  note tick = tick_spec[OF ok assms(2)]
  show ?thesis
    unfolding silent_turn[OF ok assms(2)] restless_def
    using assms tick(1,3,6,7) tick(4)[of t] by (cases "t = u") (auto simp: restless_def)
qed

lemma restless_flush:
  assumes "flush_ready silent ticked c = Some r" "restless t c"
  shows False
proof -
  have "\<forall>t. listen = silent \<longrightarrow> \<not> restless t c" if "flush_ready listen ticked c = Some r" for listen ticked c r
  proof (rule flush_ready.raw_induct[OF _ that], intro allI impI)
    fix go listen ticked c r t
    assume IH: "\<And>listen ticked c r. go listen ticked c = Some r \<Longrightarrow> \<forall>t. listen = silent \<longrightarrow> \<not> restless t c"
      and step: "(case bk_elems (ck_ready c) of [] \<Rightarrow> Some (ticked, c)
        | t # _ \<Rightarrow> go listen (ticked @ [t]) (ready_turn listen t c)) = Some r"
      and silent: "listen = silent"
    show "\<not> restless t c"
    proof (cases "bk_elems (ck_ready c)")
      case (Cons u us)
      with step have "go listen (ticked @ [u]) (ready_turn listen u c) = Some r" by simp
      from IH[OF this] silent restless_turn[OF _ Cons, of t] show ?thesis by blast
    qed (simp add: restless_def)
  qed
  with assms show False by blast
qed

subsection \<open>Properties\<close>

text \<open>The ready bucket is made for the points of [0, 2^62), which \<open>insert\<close> and \<open>flushTo\<close> assert in a debug build: no point
in it reaches the upper bound.\<close>

lemma ready_points: "timers_ok c \<Longrightarrow> tm_bucket (ck_timers c t) = Some Ready \<Longrightarrow> tm_point (ck_timers c t) < 2 ^ 62"
  using wheel_parts(5)[OF clock_parts(1)[OF timers_parts(1)], of c t] timers_parts(2)[of c] by (simp add: timely_def)

lemma idle_timers_ok [simp]: "0 \<le> now \<Longrightarrow> now < 2 ^ 62 \<Longrightarrow> timers_ok (new_clocking now (\<lambda>t. idle_timer))"
  by (simp add: timers_ok_def armed_def) (simp add: new_clocking_def idle_timer_def)

text \<open>C33. The timers stay consistent: after any calls of timers, readings of the clock and runs of the
  handler, whatever the listeners call, the buckets, their counters and the pointers of the timers
  agree, every timer is in the bucket of its point, and a timer is in the clock exactly when it is
  started with an interval that is not negative.
\<close>

theorem timers_consistent:
  assumes "timers_ok c" "events_fit (ck_now c) es" "\<And>t x. x \<in> set (listen t) \<Longrightarrow> fits x"
    and "service_run listen es c = Some c'"
  shows "timers_ok c'"
  using assms by (rule service_ok)

theorem timers_consistent_witness:
  "\<exists>c'. service_run silent [Call (SetInterval 100 5 1), Call (StartTimer 100 1), Read 103, Call (SetInterval 103 (-1) 1), Exec]
      (new_clocking 100 (\<lambda>t. idle_timer)) = Some c' \<and> timers_ok c'"
proof -
  let ?es = "[Call (SetInterval 100 5 1), Call (StartTimer 100 1), Read 103, Call (SetInterval 103 (-1) 1)]"
  let ?c = "new_clocking 100 (\<lambda>t. idle_timer)"
  have "service_run silent ?es ?c \<noteq> None" by code_simp
  then obtain d where d: "service_run silent ?es ?c = Some d" by blast
  have ok: "timers_ok d"
    by (rule timers_consistent[OF _ _ _ d]) simp_all
  have "bk_elems (ck_ready (the (service_run silent ?es ?c))) = []" by code_simp
  then have "exec_ready silent d = Some ([], d\<lparr>ck_exec := False\<rparr>)"
    unfolding d exec_ready_def by (subst flush_ready.simps) simp
  moreover have "service_run silent (?es @ [Exec]) ?c = (case exec_ready silent d of None \<Rightarrow> None | Some r \<Rightarrow> Some (snd r))"
    using d by (auto split: option.splits)
  ultimately show ?thesis using ok by (intro exI[of _ "d\<lparr>ck_exec := False\<rparr>"]) simp
qed

text \<open>C34. The handler ends and misses none: when no ready timer repeats with interval zero and the
  listeners call no timers, every ready timer ticks exactly once, in the order in which they became ready.
\<close>

theorem handler_ticks_all:
  assumes "timers_ok c" "\<And>t. t \<in> set (bk_elems (ck_ready c)) \<Longrightarrow> tm_repeatable (ck_timers c t) \<Longrightarrow> tm_interval (ck_timers c t) \<noteq> 0"
  shows "map_option fst (exec_ready silent c) = Some (bk_elems (ck_ready c))"
  using silent_flush[of "c\<lparr>ck_exec := False\<rparr>" "bk_elems (ck_ready c)" "[]"] assms
  by (auto simp: exec_ready_def)

theorem handler_ticks_all_witness:
  "map_option fst (exec_ready silent (timer_start 100 2 (timer_start 100 7 (new_clocking 100 (\<lambda>t. idle_timer))))) = Some [7, 2]"
proof -
  let ?c = "timer_start 100 2 (timer_start 100 7 (new_clocking 100 (\<lambda>t. idle_timer)))"
  have "bk_elems (ck_ready ?c) = [7, 2]" "\<not> tm_repeatable (ck_timers ?c 7)" "\<not> tm_repeatable (ck_timers ?c 2)"
    by code_simp+
  with handler_ticks_all[of ?c] show ?thesis by (auto simp: timer_start_ok)
qed

text \<open>C35. A repeating timer keeps its grid: after its tick it waits for the first point of the grid of
  its old point after the present, however many points it has missed.
\<close>

theorem tick_keeps_grid:
  assumes "timers_ok c" "bk_elems (ck_ready c) = t # ts"
    and "tm_repeatable (ck_timers c t)" "tm_interval (ck_timers c t) = i" "0 < i"
  shows "let p = tm_point (ck_timers (ready_turn silent t c) t)
         in waiting (ready_turn silent t c) t \<and> ck_now c < p \<and> p \<le> ck_now c + i \<and> i dvd p - tm_point (ck_timers c t)"
proof -
  note tick = tick_spec[OF assms(1,2)]
  let ?d = "timer_tick (ck_now c) t (take_ready t c)"
  have ready: "tm_bucket (ck_timers c t) = Some Ready" by (rule take_ready_spec(5)[OF timers_parts(1)[OF assms(1)] assms(2)])
  have due: "tm_point (ck_timers c t) \<le> ck_now c"
    using wheel_parts(5)[OF clock_parts(1)[OF timers_parts(1)[OF assms(1)]], of t] ready by (simp add: timely_def)
  have "distinct (t # ts)"
    using ready_list(3)[OF clock_parts(4)[OF timers_parts(1)[OF assms(1)]]] assms(2) by simp
  then have "t \<notin> set (bk_elems (ck_ready ?d))" using tick(3) assms(4,5) by simp
  then have "tm_bucket (ck_timers ?d t) \<noteq> Some Ready"
    using ready_list(1)[OF clock_parts(4)[OF timers_parts(1)[OF tick(1)]]] by simp
  moreover have "tm_bucket (ck_timers ?d t) \<noteq> None" by (rule tick(8)[OF assms(3)])
  ultimately have "waiting ?d t" using in_clock by blast
  with next_tick_spec[OF due] tick(5) assms(3-5) show ?thesis
    unfolding silent_turn[OF assms(1,2)] by simp
qed

theorem tick_keeps_grid_witness:
  "let c = the (service_run silent [Call (SetInterval 100 10 1), Call (SetRepeatable True 1), Call (StartTimer 100 1), Read 137]
             (new_clocking 100 (\<lambda>t. idle_timer)));
       p = tm_point (ck_timers (ready_turn silent 1 c) 1)
   in waiting (ready_turn silent 1 c) 1 \<and> 137 < p \<and> p \<le> 137 + 10 \<and> 10 dvd p - 110"
proof -
  let ?es = "[Call (SetInterval 100 10 1), Call (SetRepeatable True 1), Call (StartTimer 100 1), Read 137]"
  let ?c = "new_clocking 100 (\<lambda>t. idle_timer)"
  have "service_run silent ?es ?c \<noteq> None" by code_simp
  then obtain d where d: "service_run silent ?es ?c = Some d" by blast
  have ok: "timers_ok d" by (rule service_ok[OF _ _ _ d]) simp_all
  have "(let d = the (service_run silent ?es ?c) in bk_elems (ck_ready d) = [1] \<and> tm_repeatable (ck_timers d 1) \<and>
      tm_interval (ck_timers d 1) = 10 \<and> tm_point (ck_timers d 1) = 110 \<and> ck_now d = 137)"
    by code_simp
  then have facts: "bk_elems (ck_ready d) = [1]" "tm_repeatable (ck_timers d 1)" "tm_interval (ck_timers d 1) = 10"
    "tm_point (ck_timers d 1) = 110" "ck_now d = 137"
    unfolding d by (simp_all add: Let_def)
  from tick_keeps_grid[OF ok facts(1-3)] show ?thesis unfolding d facts(4,5) by (simp add: Let_def)
qed

text \<open>C38. When the listeners call no timers, a repeating timer of interval zero that has become ready keeps the
  handler from ending: each tick puts the timer back into the bucket that the handler is emptying.
\<close>

theorem zero_interval_spins:
  assumes "timers_ok c" "t \<in> set (bk_elems (ck_ready c))" "tm_repeatable (ck_timers c t)" "tm_interval (ck_timers c t) = 0"
  shows "exec_ready silent c = None"
proof -
  have "restless t (c\<lparr>ck_exec := False\<rparr>)" using assms by (simp add: restless_def)
  then show ?thesis unfolding exec_ready_def using restless_flush by (meson not_None_eq)
qed

theorem zero_interval_spins_witness:
  "exec_ready silent (timer_start 100 4 (timer_repeatable True 4 (new_clocking 100 (\<lambda>t. idle_timer)))) = None"
proof -
  let ?c = "timer_start 100 4 (timer_repeatable True 4 (new_clocking 100 (\<lambda>t. idle_timer)))"
  have "bk_elems (ck_ready ?c) = [4]" "tm_repeatable (ck_timers ?c 4)" "tm_interval (ck_timers ?c 4) = 0" by code_simp+
  moreover have "timers_ok ?c"
    using timer_do_ok[of "timer_do (SetRepeatable True 4) (new_clocking 100 (\<lambda>t. idle_timer))" "StartTimer 100 4"]
      timer_do_ok[of "new_clocking 100 (\<lambda>t. idle_timer)" "SetRepeatable True 4"] by simp
  ultimately show ?thesis by (intro zero_interval_spins[of _ 4]) simp_all
qed

end
