(* ===== verification/TimersWakeup.thy ===== *)
theory TimersWakeup
  imports Timers
begin

section \<open>Runs of the handler that are asked for, and one that is not\<close>

text \<open>
  \<open>flushReady\<close> asks for a run of the handler when the number of ready timers differs from the number
  it saw last. As long as timers are only started, a ready timer always has a run to come; taking a ready
  timer out, by a stop, a restart or a new interval, can leave the old number behind, and then the next
  timer to become ready is not noticed.
\<close>

subsection \<open>When the run of the handler is asked for\<close>

definition prompt :: "clocking \<Rightarrow> bool" where
  "prompt c \<longleftrightarrow> ck_readyAmountPrev c = ck_readyAmount c \<and> (0 < ck_readyAmount c \<longrightarrow> ck_exec c)"

fun gentle :: "timer_call \<Rightarrow> bool" where
  "gentle (StartTimer now t) \<longleftrightarrow> True"
| "gentle (SetRepeatable b t) \<longleftrightarrow> True"
| "gentle _ \<longleftrightarrow> False"

lemma enter_counts:
  assumes "clock_ok c" "tm_bucket (ck_timers c t) = None" "p < 2 ^ 63"
  defines "d \<equiv> clocking_start t (set_timer t (\<lambda>x. x\<lparr>tm_point := p\<rparr>) c)"
  shows "ck_readyAmountPrev c = ck_readyAmount c \<Longrightarrow> ck_readyAmountPrev d = ck_readyAmount d"
    "prompt c \<Longrightarrow> prompt d"
proof -
  define e where "e = set_timer t (\<lambda>x. x\<lparr>tm_point := p\<rparr>) c"
  have e: "clock_ok e" unfolding e_def by (rule set_timer_ok[OF assms(1)]) (simp_all add: assms(2))
  have "tm_bucket (ck_timers e t) = None" "tm_point (ck_timers e t) < 2 ^ 63" using assms(2,3) by (simp_all add: e_def)
  note start = clocking_start_spec(4,5,6)[OF e this, folded d_def[folded e_def]]
  have same: "ck_readyAmountPrev e = ck_readyAmountPrev c" "ck_readyAmount e = ck_readyAmount c" "ck_exec e = ck_exec c"
    by (simp_all add: e_def)
  show "ck_readyAmountPrev c = ck_readyAmount c \<Longrightarrow> ck_readyAmountPrev d = ck_readyAmount d" "prompt c \<Longrightarrow> prompt d"
    using start same by (auto simp: prompt_def split: if_splits)
qed

lemma gentle_call:
  assumes "timers_ok c" "fits x" "gentle x"
  shows "ck_readyAmountPrev c = ck_readyAmount c \<Longrightarrow> ck_readyAmountPrev (timer_do x c) = ck_readyAmount (timer_do x c)"
    "prompt c \<Longrightarrow> prompt (timer_do x c)"
proof -
  have "(ck_readyAmountPrev c = ck_readyAmount c \<longrightarrow> ck_readyAmountPrev (timer_do x c) = ck_readyAmount (timer_do x c)) \<and>
    (prompt c \<longrightarrow> prompt (timer_do x c))"
  proof (cases x)
    case (StartTimer now t)
    show ?thesis
    proof (cases "\<not> tm_started (ck_timers c t) \<and> 0 \<le> tm_interval (ck_timers c t)")
      case True
      note parts = timers_parts[OF assms(1)]
      have "tm_bucket (ck_timers c t) = None" "now + tm_interval (ck_timers c t) < 2 ^ 63"
        using True parts(3)[of t] assms(2) StartTimer by (auto simp: armed_def)
      from enter_counts[OF parts(1) this] True StartTimer show ?thesis
        by (simp add: timer_start_def Let_def prompt_def)
    qed (use StartTimer in \<open>auto simp: timer_start_def Let_def\<close>)
  qed (use assms(3) in \<open>simp_all add: timer_repeatable_def prompt_def\<close>)
  then show "ck_readyAmountPrev c = ck_readyAmount c \<Longrightarrow> ck_readyAmountPrev (timer_do x c) = ck_readyAmount (timer_do x c)"
    "prompt c \<Longrightarrow> prompt (timer_do x c)" by blast+
qed

lemma gentle_calls:
  assumes "timers_ok c" "\<And>x. x \<in> set xs \<Longrightarrow> fits x \<and> gentle x" "ck_readyAmountPrev c = ck_readyAmount c"
  shows "ck_readyAmountPrev (fold timer_do xs c) = ck_readyAmount (fold timer_do xs c)"
  using assms
proof (induction xs arbitrary: c)
  case (Cons x xs)
  then show ?case using timer_do_ok[of c x] gentle_call(1)[of c x] by auto
qed simp

lemma tick_counts:
  assumes "timers_ok c" "bk_elems (ck_ready c) = t # ts"
  defines "d \<equiv> timer_tick (ck_now c) t (take_ready t c)"
  shows "ck_readyAmountPrev d = ck_readyAmount d"
proof -
  note parts = timers_parts[OF assms(1)]
  define e where "e = take_ready t c"
  have taken: "clock_ok e" "ck_timers e = (ck_timers c)(t := (ck_timers c t)\<lparr>tm_bucket := None\<rparr>)"
    "tm_bucket (ck_timers c t) = Some Ready"
    using take_ready_spec[OF parts(1) assms(2)] by (simp_all add: e_def)
  have even: "ck_readyAmountPrev e = ck_readyAmount e" by (simp add: e_def take_ready_def Let_def)
  show ?thesis
  proof (cases "tm_repeatable (ck_timers c t)")
    case True
    have on: "tm_started (ck_timers c t)" "0 \<le> tm_interval (ck_timers c t)" "tm_interval (ck_timers c t) < 2 ^ 62"
      using parts(3)[of t] taken(3) by (auto simp: armed_def)
    have due: "tm_point (ck_timers c t) \<le> ck_now c"
      using wheel_parts(5)[OF clock_parts(1)[OF parts(1)], of t] taken(3) by (simp add: timely_def)
    define p where "p = next_tick (ck_now c) (ck_timers e t)"
    have "next_tick (ck_now c) (ck_timers e t) = next_tick (ck_now c) (ck_timers c t)"
      by (simp add: taken(2) next_tick_def Let_def)
    then have "p < 2 ^ 63"
      using next_tick_spec(2)[OF due] on parts(2) due by (cases "tm_interval (ck_timers c t) = 0") (auto simp: p_def next_tick_def)
    moreover have "d = clocking_start t (set_timer t (\<lambda>y. y\<lparr>tm_point := p\<rparr>) e)"
      using True on(1) by (simp add: d_def e_def[symmetric] timer_tick_def Let_def taken(2) p_def)
    ultimately show ?thesis using enter_counts(1)[OF taken(1), of t p] even by (simp add: taken(2))
  next
    case False
    then have "d = set_timer t (\<lambda>x. x\<lparr>tm_started := False\<rparr>) e"
      by (simp add: d_def e_def[symmetric] timer_tick_def Let_def taken(2))
    with even show ?thesis by simp
  qed
qed

lemma gentle_flush:
  assumes "flush_ready listen ticked c = Some r" "timers_ok c" "ck_readyAmountPrev c = ck_readyAmount c"
    and "\<And>t x. x \<in> set (listen t) \<Longrightarrow> fits x \<and> gentle x"
  shows "prompt (snd r)"
proof -
  have "timers_ok c \<longrightarrow> ck_readyAmountPrev c = ck_readyAmount c \<longrightarrow> (\<forall>t x. x \<in> set (listen t) \<longrightarrow> fits x \<and> gentle x) \<longrightarrow>
      ck_readyAmountPrev (snd r) = ck_readyAmount (snd r)"
  proof (rule flush_ready.raw_induct[OF _ assms(1)], intro impI)
    fix go listen ticked c r
    assume IH: "\<And>listen ticked c r. go listen ticked c = Some r \<Longrightarrow> timers_ok c \<longrightarrow> ck_readyAmountPrev c = ck_readyAmount c \<longrightarrow>
        (\<forall>t x. x \<in> set (listen t) \<longrightarrow> fits x \<and> gentle x) \<longrightarrow> ck_readyAmountPrev (snd r) = ck_readyAmount (snd r)"
      and step: "(case bk_elems (ck_ready c) of [] \<Rightarrow> Some (ticked, c)
        | t # _ \<Rightarrow> go listen (ticked @ [t]) (ready_turn listen t c)) = Some r"
      and ok: "timers_ok c" "ck_readyAmountPrev c = ck_readyAmount c" "\<forall>t x. x \<in> set (listen t) \<longrightarrow> fits x \<and> gentle x"
    show "ck_readyAmountPrev (snd r) = ck_readyAmount (snd r)"
    proof (cases "bk_elems (ck_ready c)")
      case (Cons t ts)
      with step have go: "go listen (ticked @ [t]) (ready_turn listen t c) = Some r" by simp
      have "ck_now (take_ready t c) = ck_now c" by (rule take_ready_spec(2)[OF timers_parts(1)[OF ok(1)] Cons])
      then have "ready_turn listen t c = fold timer_do (listen t) (timer_tick (ck_now c) t (take_ready t c))"
        by (simp add: ready_turn_def Let_def)
      then have "ck_readyAmountPrev (ready_turn listen t c) = ck_readyAmount (ready_turn listen t c)"
        using gentle_calls[OF tick_spec(1)[OF ok(1) Cons] _ tick_counts[OF ok(1) Cons], of "listen t"] ok(3) by simp
      with IH[OF go] turn_ok(1)[OF ok(1) Cons, of listen] ok(3) show ?thesis by blast
    qed (use step ok in auto)
  qed
  then have "ck_readyAmountPrev (snd r) = ck_readyAmount (snd r)" using assms(2-4) by blast
  moreover have "ck_readyAmount (snd r) = 0"
    using flush_ready_ok[OF assms(1,2)] assms(4) ready_list(2) clock_parts(4) timers_parts(1) by fastforce
  ultimately show ?thesis by (simp add: prompt_def)
qed

fun gentle_event :: "service_event \<Rightarrow> bool" where
  "gentle_event (Call x) \<longleftrightarrow> gentle x"
| "gentle_event _ \<longleftrightarrow> True"

lemma ready_amount_mono:
  assumes "clock_ok c" "clock_ok c'"
    and "\<And>t. tm_bucket (ck_timers c t) = Some Ready \<Longrightarrow> tm_bucket (ck_timers c' t) = Some Ready"
  shows "ck_readyAmount c \<le> ck_readyAmount c'"
proof -
  note c = ready_list[OF clock_parts(4)[OF assms(1)]] and c' = ready_list[OF clock_parts(4)[OF assms(2)]]
  have "card (set (bk_elems (ck_ready c))) \<le> card (set (bk_elems (ck_ready c')))"
    by (rule card_mono) (use c(1) c'(1) assms(3) in auto)
  then show ?thesis using c(2,3) c'(2,3) by (simp add: distinct_card)
qed

lemma fired_prompt:
  assumes "timers_ok c" "ck_now c \<le> now" "now < 2 ^ 62" "fired now c = Some c'" "prompt c"
  shows "prompt c'"
proof -
  have "now < point_max" using assms(3) by (simp add: point_max_def)
  note fired = fired_spec[OF timers_parts(1)[OF assms(1)] assms(2) this assms(4)]
  have "ck_readyAmount c \<le> ck_readyAmount c'"
    by (rule ready_amount_mono[OF timers_parts(1)[OF assms(1)] fired(1)]) (use fired(7) in blast)
  with fired(3,4) assms(5) show ?thesis by (auto simp: prompt_def)
qed

lemma idle_prompt [simp]: "prompt (new_clocking now tms)"
  by (simp add: prompt_def new_clocking_def)

text \<open>C36. As long as timers are only started and made repeatable or not, from outside and by the listeners, the pool of
  fibers owes a run of the handler whenever a timer is ready. (Stopping and restarting a timer and changing its
  interval are excluded: each of them takes a timer that is ready out of the clock, after which a wakeup can be
  lost. The clock starts in a state in which this holds, as a new clock does.)
\<close>

theorem ready_is_noticed:
  assumes "timers_ok c" "prompt c" "events_fit (ck_now c) es" "\<And>e. e \<in> set es \<Longrightarrow> gentle_event e"
    and "\<And>t x. x \<in> set (listen t) \<Longrightarrow> fits x \<and> gentle x" "service_run listen es c = Some c'"
  shows "bk_elems (ck_ready c') \<noteq> [] \<longrightarrow> ck_exec c'"
proof -
  have listen: "\<And>t x. x \<in> set (listen t) \<Longrightarrow> fits x" using assms(5) by blast
  have "prompt c' \<and> timers_ok c'"
    using assms(1-4,6)
  proof (induction es arbitrary: c)
    case (Cons e es)
    have rest: "\<And>e. e \<in> set es \<Longrightarrow> gentle_event e" using Cons.prems(4) by simp
    show ?case
    proof (cases e)
      case (Call x)
      have "fits x" "gentle x" using Cons.prems(3) Cons.prems(4)[of e] Call by auto
      then show ?thesis
        using Cons.IH[OF _ _ _ rest, of "timer_do x c"] Cons.prems Call timer_do_ok[of c x] gentle_call(2)[of c x]
          calls_stay[of "[x]" c] by simp
    next
      case (Read now)
      with Cons.prems obtain d where d: "fired now c = Some d" "service_run listen es d = Some c'"
        by (auto split: option.splits)
      have now: "ck_now c \<le> now" "now < 2 ^ 62" "events_fit now es" using Cons.prems Read by auto
      have "ck_now d = now"
        using fired_spec(2)[OF timers_parts(1)[OF Cons.prems(1)] now(1) _ d(1)] now(2) by (simp add: point_max_def)
      then show ?thesis
        using Cons.IH[OF _ _ _ rest, of d] fired_ok[OF Cons.prems(1) now(1,2) d(1)]
          fired_prompt[OF Cons.prems(1) now(1,2) d(1) Cons.prems(2)] now(3) d(2) by simp
    next
      case Exec
      with Cons.prems obtain r where r: "exec_ready listen c = Some r" "service_run listen es (snd r) = Some c'"
        by (auto split: option.splits)
      have "prompt (snd r)"
        using gentle_flush[of listen "[]" "c\<lparr>ck_exec := False\<rparr>" r] r(1) Cons.prems(1,2) assms(5)
        by (simp add: exec_ready_def prompt_def)
      then show ?thesis
        using Cons.IH[OF _ _ _ rest, of "snd r"] exec_ok[OF Cons.prems(1) r(1) listen] Cons.prems(3) r(2) Exec by simp
    qed
  qed simp
  then show ?thesis
    using ready_list(2)[OF clock_parts(4)[OF timers_parts(1)], of c'] by (auto simp: prompt_def)
qed

theorem ready_is_noticed_witness:
  "\<exists>c'. service_run silent [Call (StartTimer 100 1), Exec, Call (StartTimer 101 2), Read 105] (new_clocking 100 (\<lambda>t. idle_timer)) = Some c' \<and>
    (bk_elems (ck_ready c') \<noteq> [] \<longrightarrow> ck_exec c')"
proof -
  let ?c = "new_clocking 100 (\<lambda>t. idle_timer)"
  let ?es = "[Call (StartTimer 100 1), Exec, Call (StartTimer 101 2), Read 105]"
  have "service_run silent ?es ?c \<noteq> None" by code_simp
  then obtain d where d: "service_run silent ?es ?c = Some d" by blast
  have "bk_elems (ck_ready d) \<noteq> [] \<longrightarrow> ck_exec d"
    by (rule ready_is_noticed[OF _ _ _ _ _ d]) auto
  with d show ?thesis by blast
qed

text \<open>A ready timer whose run nobody asks for.\<close>

definition unnoticed :: "nat \<Rightarrow> clocking \<Rightarrow> bool" where
  "unnoticed t c \<longleftrightarrow> timers_ok c \<and> bk_elems (ck_ready c) = [t] \<and> ck_readyAmountPrev c = 1 \<and> \<not> ck_exec c \<and>
     (\<forall>u. \<not> waiting c u)"

lemma unnoticed_fired:
  assumes "unnoticed t c" "ck_now c \<le> now" "now < 2 ^ 62"
  obtains c' where "fired now c = Some c'" "unnoticed t c'" "ck_now c' = now"
proof -
  from assms(1) have c: "timers_ok c" "bk_elems (ck_ready c) = [t]" "ck_readyAmountPrev c = 1" "\<not> ck_exec c"
    "\<And>u. \<not> waiting c u" by (auto simp: unnoticed_def)
  note ok = timers_parts(1)[OF c(1)]
  have range: "now < point_max" using assms(3) by (simp add: point_max_def)
  obtain b d c' where "fireTicks now c = Some (b, c')"
    by (rule fireTicks_spec[OF ok assms(2) range]) (rule that)
  then have fired: "fired now c = Some c'" by (simp add: fired_def)
  note after = fired_spec[OF ok assms(2) range fired]
  note ready = ready_list[OF clock_parts(4)[OF ok]] and ready' = ready_list[OF clock_parts(4)[OF after(1)]]
  have "set (bk_elems (ck_ready c')) = {t}"
    using after(7) c(2,5) ready(1) ready'(1) by auto
  moreover from this have "length (bk_elems (ck_ready c')) = 1" using distinct_card[OF ready'(3)] by simp
  ultimately have elems: "bk_elems (ck_ready c') = [t]" "ck_readyAmount c' = 1"
    using ready'(2) by (auto simp: length_Suc_conv)
  have "unnoticed t c'"
    unfolding unnoticed_def
    using fired_ok[OF c(1) assms(2,3) fired] elems after(3,4,6) c(3-5) by simp
  then show thesis using that[OF fired] after(2) by simp
qed

lemma unnoticed_reads:
  assumes "unnoticed t c" "sorted (ck_now c # readings)" "\<forall>m\<in>set readings. m < 2 ^ 62"
  shows "\<exists>c'. service_run listen (List.map Read readings) c = Some c' \<and> unnoticed t c'"
  using assms
proof (induction readings arbitrary: c)
  case (Cons now readings)
  from Cons.prems have "ck_now c \<le> now" "now < 2 ^ 62" by auto
  then obtain d where "fired now c = Some d" "unnoticed t d" "ck_now d = now"
    by (rule unnoticed_fired[OF Cons.prems(1)]) (rule that)
  with Cons.IH[of d] Cons.prems(2,3) show ?case by simp
qed simp

lemmas timer_code =
  timer_start_def timer_stop_def clocking_start_def clocking_stop_def bucket_insert_def bucket_remove_def link_last_def
  clock_ops Let_def flushReady_def

lemma lost_scenario:
  assumes "0 \<le> now" "now < 2 ^ 62" "distinct [a, b, d]"
  shows "\<exists>c. service_run (\<lambda>t. if t = a then [StopTimer b] else [])
      [Call (StartTimer now a), Call (StartTimer now b), Exec, Call (StartTimer now d)] (new_clocking now (\<lambda>t. idle_timer)) = Some c \<and>
    ck_now c = now \<and> bk_elems (ck_ready c) = [d] \<and> ck_readyAmountPrev c = 1 \<and> \<not> ck_exec c \<and> (\<forall>u. \<not> waiting c u)"
  using assms
  by (simp add: timer_code new_clocking_def new_bucket_def idle_timer_def exec_ready_def flush_ready.simps
      ready_turn_def take_ready_def timer_tick_def waiting_def)

lemma service_run_append:
  "service_run listen (es @ fs) c = (case service_run listen es c of None \<Rightarrow> None | Some d \<Rightarrow> service_run listen fs d)"
proof (induction es arbitrary: c)
  case (Cons e es)
  then show ?case by (cases e) (auto split: option.split)
qed simp

text \<open>C37. A wakeup can be lost. Two timers are due, the listener of the first stops the second, and then
  a third timer becomes due: it is ready and no run of the handler is asked for, however often the
  clock is read afterwards; \<open>distance2NextPoint\<close> stays zero, so the loop of the service does not sleep either.
\<close>

theorem lost_wakeup:
  assumes "0 \<le> now" "distinct [a, b, d]" "sorted (now # readings)" "\<forall>m\<in>set (now # readings). m < 2 ^ 62"
  shows "\<exists>c. service_run (\<lambda>t. if t = a then [StopTimer b] else [])
      ([Call (StartTimer now a), Call (StartTimer now b), Exec, Call (StartTimer now d)] @ List.map Read readings)
      (new_clocking now (\<lambda>t. idle_timer)) = Some c \<and>
    bk_elems (ck_ready c) = [d] \<and> \<not> ck_exec c \<and> distance2NextPoint c = 0"
proof -
  let ?listen = "\<lambda>t. if t = a then [StopTimer b] else []"
  let ?es = "[Call (StartTimer now a), Call (StartTimer now b), Exec, Call (StartTimer now d)]"
  have now: "now < 2 ^ 62" using assms(4) by simp
  obtain e where e: "service_run ?listen ?es (new_clocking now (\<lambda>t. idle_timer)) = Some e" "ck_now e = now"
    "bk_elems (ck_ready e) = [d]" "ck_readyAmountPrev e = 1" "\<not> ck_exec e" "\<And>u. \<not> waiting e u"
    using lost_scenario[OF assms(1) now assms(2)] by blast
  have "timers_ok e"
    by (rule service_ok[OF _ _ _ e(1)]) (use assms(1) now in \<open>auto split: if_splits\<close>)
  with e have "unnoticed d e" by (simp add: unnoticed_def)
  from unnoticed_reads[OF this, of readings ?listen] assms(3,4) e(2)
  obtain c where c: "service_run ?listen (List.map Read readings) e = Some c" "unnoticed d c" by auto
  have "ck_readyAmount c = 1"
    using ready_list(2)[OF clock_parts(4)[OF timers_parts(1)]] c(2) by (simp add: unnoticed_def)
  then have "distance2NextPoint c = 0" by (simp add: distance2NextPoint_def)
  with c(2) show ?thesis
    unfolding service_run_append e(1) option.case c(1) by (simp add: unnoticed_def)
qed

theorem lost_wakeup_witness:
  "\<exists>c. service_run (\<lambda>t. if t = 1 then [StopTimer 2] else [])
      ([Call (StartTimer 100 1), Call (StartTimer 100 2), Exec, Call (StartTimer 100 3)] @ List.map Read [105, 900])
      (new_clocking 100 (\<lambda>t. idle_timer)) = Some c \<and>
    bk_elems (ck_ready c) = [3] \<and> \<not> ck_exec c \<and> distance2NextPoint c = 0"
  by (rule lost_wakeup) simp_all

end
