(* ===== verification/Curve25519.thy ===== *)
theory Curve25519
  imports Endian WideWord
begin

section \<open>Curve25519\<close>

text \<open>
  Models \<open>source/core/crypto/src/curve25519.cpp\<close>: arithmetic modulo 2^255 - 19 on five limbs
  of 51 bits in 64-bit words, the Montgomery ladder and the inversion by exponentiation. This
  theory holds the operations and, at its end, the function X25519 of RFC 7748, section 5, as
  integer arithmetic; CurveField proves the limb operations free of overflow and equal to the
  arithmetic of the field, CurveLadder proves \<open>donna\<close> equal to X25519.
\<close>

subsection \<open>Sums, differences and multiples\<close>

type_synonym felem = "u64 \<times> u64 \<times> u64 \<times> u64 \<times> u64"

definition M51 :: u64 where
  "M51 = 0x7FFFFFFFFFFFF"

definition fsum :: "felem \<Rightarrow> felem \<Rightarrow> felem" where
  "fsum = (\<lambda>(out0, out1, out2, out3, out4) (in0, in1, in2, in3, in4).
     (out0 + in0, out1 + in1, out2 + in2, out3 + in3, out4 + in4))"

definition two54m152 :: u64 where
  "two54m152 = push_bit 54 1 - 152"

definition two54m8 :: u64 where
  "two54m8 = push_bit 54 1 - 8"

definition fdifference_backwards :: "felem \<Rightarrow> felem \<Rightarrow> felem" where
  "fdifference_backwards = (\<lambda>(out0, out1, out2, out3, out4) (in0, in1, in2, in3, in4).
     (in0 + two54m152 - out0, in1 + two54m8 - out1, in2 + two54m8 - out2, in3 + two54m8 - out3,
      in4 + two54m8 - out4))"

text \<open>\<open>static_cast<limb>(a >> 51)\<close> and \<open>limb(a) & 0x7ffffffffffff\<close>.\<close>

definition hi51 :: "128 word \<Rightarrow> u64" where
  "hi51 a = ucast (drop_bit 51 a)"

definition lo51 :: "128 word \<Rightarrow> u64" where
  "lo51 a = ucast a AND M51"

definition fscalar_product :: "felem \<Rightarrow> u64 \<Rightarrow> felem" where
  "fscalar_product = (\<lambda>(in0, in1, in2, in3, in4) scalar.
     (let a = mul128 in0 scalar; out0 = lo51 a;
          a = mul128 in1 scalar + ucast (hi51 a); out1 = lo51 a;
          a = mul128 in2 scalar + ucast (hi51 a); out2 = lo51 a;
          a = mul128 in3 scalar + ucast (hi51 a); out3 = lo51 a;
          a = mul128 in4 scalar + ucast (hi51 a); out4 = lo51 a
      in (ucast (ucast out0 + drop_bit 51 a * 19 :: 128 word), out1, out2, out3, out4)))"

subsection \<open>Products and squares\<close>

text \<open>The chain of carries that ends \<open>fmul\<close> and each turn of \<open>fsquare_times\<close>.\<close>

definition fcarry :: "128 word \<times> 128 word \<times> 128 word \<times> 128 word \<times> 128 word \<Rightarrow> felem" where
  "fcarry = (\<lambda>(t0, t1, t2, t3, t4).
     (let r0 = lo51 t0; c = hi51 t0;
          t1 = t1 + ucast c; r1 = lo51 t1; c = hi51 t1;
          t2 = t2 + ucast c; r2 = lo51 t2; c = hi51 t2;
          t3 = t3 + ucast c; r3 = lo51 t3; c = hi51 t3;
          t4 = t4 + ucast c; r4 = lo51 t4; c = hi51 t4;
          r0 = r0 + c * 19; c = drop_bit 51 r0; r0 = r0 AND M51;
          r1 = r1 + c; c = drop_bit 51 r1; r1 = r1 AND M51;
          r2 = r2 + c
      in (r0, r1, r2, r3, r4)))"

definition fmul :: "felem \<Rightarrow> felem \<Rightarrow> felem" where
  "fmul = (\<lambda>(s0, s1, s2, s3, s4) (r0, r1, r2, r3, r4).
     (let t0 = mul128 r0 s0;
          t1 = mul128 r0 s1 + mul128 r1 s0;
          t2 = mul128 r0 s2 + mul128 r2 s0 + mul128 r1 s1;
          t3 = mul128 r0 s3 + mul128 r3 s0 + mul128 r1 s2 + mul128 r2 s1;
          t4 = mul128 r0 s4 + mul128 r4 s0 + mul128 r3 s1 + mul128 r1 s3 + mul128 r2 s2;
          r4 = r4 * 19; r1 = r1 * 19; r2 = r2 * 19; r3 = r3 * 19;
          t0 = t0 + (mul128 r4 s1 + mul128 r1 s4 + mul128 r2 s3 + mul128 r3 s2);
          t1 = t1 + (mul128 r4 s2 + mul128 r2 s4 + mul128 r3 s3);
          t2 = t2 + (mul128 r4 s3 + mul128 r3 s4);
          t3 = t3 + mul128 r4 s4
      in fcarry (t0, t1, t2, t3, t4)))"

text \<open>One turn of the loop of \<open>fsquare_times\<close>, and the loop \<open>do ... while(--count)\<close>.\<close>

definition fsquare_turn :: "felem \<Rightarrow> felem" where
  "fsquare_turn = (\<lambda>(r0, r1, r2, r3, r4).
     (let d0 = r0 * 2; d1 = r1 * 2; d2 = r2 * 2 * 19; d419 = r4 * 19; d4 = d419 * 2;
          t0 = mul128 r0 r0 + mul128 d4 r1 + mul128 d2 r3;
          t1 = mul128 d0 r1 + mul128 d4 r2 + mul128 r3 (r3 * 19);
          t2 = mul128 d0 r2 + mul128 r1 r1 + mul128 d4 r3;
          t3 = mul128 d0 r3 + mul128 d1 r2 + mul128 r4 d419;
          t4 = mul128 d0 r4 + mul128 d1 r3 + mul128 r2 r2
      in fcarry (t0, t1, t2, t3, t4)))"

definition fsquare_times :: "felem \<Rightarrow> u64 \<Rightarrow> felem" where
  "fsquare_times f count = (fsquare_turn ^^ (if count = 0 then 2 ^ 64 else unat count)) f"

subsection \<open>Expansion and contraction\<close>

definition load_limb :: "byte list \<Rightarrow> u64" where
  "load_limb inp = le_word (take 8 inp)"

definition store_limb :: "u64 \<Rightarrow> byte list" where
  "store_limb w = le_bytes 8 w"

definition fexpand :: "byte list \<Rightarrow> felem" where
  "fexpand inp =
     (load_limb inp AND M51,
      drop_bit 3 (load_limb (drop 6 inp)) AND M51,
      drop_bit 6 (load_limb (drop 12 inp)) AND M51,
      drop_bit 1 (load_limb (drop 19 inp)) AND M51,
      drop_bit 12 (load_limb (drop 24 inp)) AND M51)"

type_synonym wide = "128 word \<times> 128 word \<times> 128 word \<times> 128 word \<times> 128 word"

definition W51 :: "128 word" where
  "W51 = 0x7FFFFFFFFFFFF"

text \<open>The carries of one pass of \<open>fcontract\<close>, without and with the carry out of the top limb.\<close>

definition carry_up :: "wide \<Rightarrow> wide" where
  "carry_up = (\<lambda>(t0, t1, t2, t3, t4).
     (let t1 = t1 + drop_bit 51 t0; t0 = t0 AND W51;
          t2 = t2 + drop_bit 51 t1; t1 = t1 AND W51;
          t3 = t3 + drop_bit 51 t2; t2 = t2 AND W51;
          t4 = t4 + drop_bit 51 t3; t3 = t3 AND W51
      in (t0, t1, t2, t3, t4)))"

definition carry_round :: "wide \<Rightarrow> wide" where
  "carry_round t = (case carry_up t of (t0, t1, t2, t3, t4) \<Rightarrow>
     (t0 + 19 * drop_bit 51 t4, t1, t2, t3, t4 AND W51))"

definition fcontract :: "felem \<Rightarrow> byte list" where
  "fcontract f =
     (case f of (in0, in1, in2, in3, in4) \<Rightarrow>
      case carry_round (carry_round (ucast in0, ucast in1, ucast in2, ucast in3, ucast in4)) of
        (t0, t1, t2, t3, t4) \<Rightarrow>
      case carry_round (t0 + 19, t1, t2, t3, t4) of (t0, t1, t2, t3, t4) \<Rightarrow>
      case carry_up (t0 + (0x8000000000000 - 19), t1 + (0x8000000000000 - 1), t2 + (0x8000000000000 - 1),
          t3 + (0x8000000000000 - 1), t4 + (0x8000000000000 - 1)) of (t0, t1, t2, t3, t4) \<Rightarrow>
      let t4 = t4 AND W51
      in store_limb (ucast (t0 OR push_bit 51 t1)) @
         store_limb (ucast (drop_bit 13 t1 OR push_bit 38 t2)) @
         store_limb (ucast (drop_bit 26 t2 OR push_bit 25 t3)) @
         store_limb (ucast (drop_bit 39 t3 OR push_bit 12 t4)))"

subsection \<open>The ladder\<close>

text \<open>\<open>fmonty\<close>: from Q, Q' and Q - Q' the points 2Q and Q + Q'; the arguments it overwrites are dead after it.\<close>

definition fmonty ::
  "felem \<times> felem \<Rightarrow> felem \<times> felem \<Rightarrow> felem \<Rightarrow> (felem \<times> felem) \<times> (felem \<times> felem)" where
  "fmonty Q Q' qmqp =
     (case Q of (x, z) \<Rightarrow> case Q' of (xprime, zprime) \<Rightarrow>
      let origx = x;
          x = fsum x z;
          z = fdifference_backwards z origx;
          origxprime = xprime;
          xprime = fsum xprime zprime;
          zprime = fdifference_backwards zprime origxprime;
          xxprime = fmul xprime z;
          zzprime = fmul x zprime;
          origxprime = xxprime;
          xxprime = fsum xxprime zzprime;
          zzprime = fdifference_backwards zzprime origxprime;
          x3 = fsquare_times xxprime 1;
          zzzprime = fsquare_times zzprime 1;
          z3 = fmul zzzprime qmqp;
          xx = fsquare_times x 1;
          zz = fsquare_times z 1;
          x2 = fmul xx zz;
          zz = fdifference_backwards zz xx;
          zzz = fscalar_product zz 121665;
          zzz = fsum zzz xx;
          z2 = fmul zz zzz
      in ((x2, z2), (x3, z3)))"

definition swap_conditional :: "felem \<Rightarrow> felem \<Rightarrow> u64 \<Rightarrow> felem \<times> felem" where
  "swap_conditional = (\<lambda>(a0, a1, a2, a3, a4) (b0, b1, b2, b3, b4) iswap.
     (let swap = - iswap;
          x0 = swap AND (a0 XOR b0);
          x1 = swap AND (a1 XOR b1);
          x2 = swap AND (a2 XOR b2);
          x3 = swap AND (a3 XOR b3);
          x4 = swap AND (a4 XOR b4)
      in ((a0 XOR x0, a1 XOR x1, a2 XOR x2, a3 XOR x3, a4 XOR x4),
          (b0 XOR x0, b1 XOR x1, b2 XOR x2, b3 XOR x3, b4 XOR x4))))"

text \<open>
  The ladder keeps \<open>(nqx, nqz)\<close> and \<open>(nqpqx, nqpqz)\<close>; the exchange of the buffers at the end of
  a turn makes the results of \<open>fmonty\<close> the arguments of the next one.
\<close>

type_synonym ladder = "(felem \<times> felem) \<times> (felem \<times> felem)"

definition swap_points :: "u64 \<Rightarrow> ladder \<Rightarrow> ladder" where
  "swap_points iswap s =
     (case s of ((nqx, nqz), (nqpqx, nqpqz)) \<Rightarrow>
      case swap_conditional nqx nqpqx iswap of (nqx, nqpqx) \<Rightarrow>
      case swap_conditional nqz nqpqz iswap of (nqz, nqpqz) \<Rightarrow> ((nqx, nqz), (nqpqx, nqpqz)))"

definition ladder_bit :: "felem \<Rightarrow> u64 \<Rightarrow> ladder \<Rightarrow> ladder" where
  "ladder_bit q b s =
     (case swap_points b s of (nq, nqpq) \<Rightarrow> swap_points b (fmonty nq nqpq q))"

fun ladder_byte :: "felem \<Rightarrow> nat \<Rightarrow> byte \<Rightarrow> ladder \<Rightarrow> ladder" where
  "ladder_byte q 0 b s = s"
| "ladder_byte q (Suc j) b s = ladder_byte q j (push_bit 1 b) (ladder_bit q (ucast (drop_bit 7 b)) s)"

definition cmult :: "byte list \<Rightarrow> felem \<Rightarrow> felem \<times> felem" where
  "cmult n q =
     fst (fold (\<lambda>i s. ladder_byte q 8 (n ! (31 - i)) s) [0 ..< 32]
       (((1, 0, 0, 0, 0), (0, 0, 0, 0, 0)), (q, (1, 0, 0, 0, 0))))"

subsection \<open>Inversion and scalar multiplication\<close>

definition crecip :: "felem \<Rightarrow> felem" where
  "crecip z =
     (let a = fsquare_times z 1;
          t0 = fsquare_times a 2;
          b = fmul t0 z;
          a = fmul b a;
          t0 = fsquare_times a 1;
          b = fmul t0 b;
          t0 = fsquare_times b 5;
          b = fmul t0 b;
          t0 = fsquare_times b 10;
          c = fmul t0 b;
          t0 = fsquare_times c 20;
          t0 = fmul t0 c;
          t0 = fsquare_times t0 10;
          b = fmul t0 b;
          t0 = fsquare_times b 50;
          c = fmul t0 b;
          t0 = fsquare_times c 100;
          t0 = fmul t0 c;
          t0 = fsquare_times t0 50;
          t0 = fmul t0 b;
          t0 = fsquare_times t0 5
      in fmul t0 a)"

definition donna :: "byte list \<Rightarrow> byte list \<Rightarrow> byte list" where
  "donna basepoint sk =
     (let e = take 32 sk;
          e = e[0 := e ! 0 AND 248];
          e = e[31 := e ! 31 AND 127];
          e = e[31 := e ! 31 OR 64];
          bp = fexpand basepoint
      in case cmult e bp of (x, z) \<Rightarrow>
        let zmone = crecip z;
            z = fmul x zmone
        in fcontract z)"

definition basepoint :: "byte list \<Rightarrow> byte list" where
  "basepoint sk = donna (9 # replicate 31 0) sk"

subsection \<open>Reference: X25519 of RFC 7748\<close>

definition p25519 :: int where
  "p25519 = 2 ^ 255 - 19"

definition decodeLittleEndian :: "byte list \<Rightarrow> nat" where
  "decodeLittleEndian b = le_num (take 32 b)"

definition decodeUCoordinate :: "byte list \<Rightarrow> nat" where
  "decodeUCoordinate u = decodeLittleEndian (u[31 := u ! 31 AND 0x7F])"

definition decodeScalar25519 :: "byte list \<Rightarrow> nat" where
  "decodeScalar25519 k =
     decodeLittleEndian (k[0 := k ! 0 AND 248, 31 := (k ! 31 AND 127) OR 64])"

definition encodeUCoordinate :: "int \<Rightarrow> byte list" where
  "encodeUCoordinate u = num_bytes 32 (nat (u mod p25519))"

text \<open>The ladder of section 5: the swaps are deferred, \<open>swap\<close> is the last bit that was swapped for.\<close>

type_synonym rfc_point = "int \<times> int"

definition rfc_cswap :: "bool \<Rightarrow> rfc_point \<times> rfc_point \<Rightarrow> rfc_point \<times> rfc_point" where
  "rfc_cswap swap s = (case s of (P, P') \<Rightarrow> if swap then (P', P) else (P, P'))"

definition rfc_step :: "int \<Rightarrow> rfc_point \<times> rfc_point \<Rightarrow> rfc_point \<times> rfc_point" where
  "rfc_step x1 s =
     (case s of ((x2, z2), (x3, z3)) \<Rightarrow>
      let A = (x2 + z2) mod p25519; AA = A ^ 2 mod p25519;
          B = (x2 - z2) mod p25519; BB = B ^ 2 mod p25519;
          E = (AA - BB) mod p25519;
          C = (x3 + z3) mod p25519; D = (x3 - z3) mod p25519;
          DA = D * A mod p25519; CB = C * B mod p25519
      in ((AA * BB mod p25519, E * (AA + 121665 * E) mod p25519),
          ((DA + CB) ^ 2 mod p25519, x1 * (DA - CB) ^ 2 mod p25519)))"

fun rfc_loop :: "nat \<Rightarrow> nat \<Rightarrow> int \<Rightarrow> bool \<Rightarrow> rfc_point \<times> rfc_point \<Rightarrow> rfc_point \<times> rfc_point" where
  "rfc_loop 0 k x1 swap s = rfc_cswap swap s"
| "rfc_loop (Suc t) k x1 swap s =
     rfc_loop t k x1 (bit k t) (rfc_step x1 (rfc_cswap (swap \<noteq> bit k t) s))"

text \<open>
  X25519 on a scalar and a coordinate; the RFC runs the ladder over \<open>bits = 255\<close> bits of the
  scalar.
\<close>

definition rfc_ladder :: "nat \<Rightarrow> nat \<Rightarrow> int \<Rightarrow> rfc_point" where
  "rfc_ladder bits k u = fst (rfc_loop bits k u False ((1, 0), (u, 1)))"

definition rfc_x25519 :: "nat \<Rightarrow> byte list \<Rightarrow> byte list \<Rightarrow> byte list" where
  "rfc_x25519 bits k u =
     (case rfc_ladder bits (decodeScalar25519 k) (int (decodeUCoordinate u)) of
        (x2, z2) \<Rightarrow> encodeUCoordinate (x2 * z2 ^ (nat p25519 - 2)))"

end
