(* ===== verification/CurveField.thy ===== *)
theory CurveField
  imports Curve25519
begin

section \<open>The field of Curve25519\<close>

text \<open>
  The limb operations of the theory Curve25519 as arithmetic modulo 2^255 - 19. Products and
  squares leave limbs of at most 2^51 (\<open>within (2 ^ 51)\<close>), sums of two such elements at most 2^52
  and differences at most 9 * 2^51; up to that last bound a product does not overflow.
\<close>

subsection \<open>Values and widths\<close>

fun fval :: "felem \<Rightarrow> nat" where
  "fval (a0, a1, a2, a3, a4) =
     unat a0 + 2 ^ 51 * unat a1 + 2 ^ 102 * unat a2 + 2 ^ 153 * unat a3 + 2 ^ 204 * unat a4"

fun within :: "nat \<Rightarrow> felem \<Rightarrow> bool" where
  "within n (a0, a1, a2, a3, a4) \<longleftrightarrow>
     unat a0 \<le> n \<and> unat a1 \<le> n \<and> unat a2 \<le> n \<and> unat a3 \<le> n \<and> unat a4 \<le> n"

definition fres :: "felem \<Rightarrow> int" where
  "fres f = int (fval f) mod p25519"

lemma within_mono: "within m f \<Longrightarrow> m \<le> n \<Longrightarrow> within n f"
  by (cases f rule: fval.cases) auto

lemma M51_mod: "unat (w AND M51) = unat w mod 2 ^ 51"
proof -
  have "w AND M51 = take_bit 51 w"
    by (simp add: M51_def take_bit_eq_mask mask_eq_exp_minus_1)
  then show ?thesis
    by (simp only: unsigned_take_bit_eq) (simp add: take_bit_eq_mod)
qed

lemma lo51_unat: "unat (lo51 t) = unat t mod 2 ^ 51"
  by (simp add: lo51_def M51_mod down64 mod_mod_cancel)

lemma hi51_unat: "unat t < 2 ^ 115 \<Longrightarrow> unat (hi51 t) = unat t div 2 ^ 51"
proof -
  assume "unat t < 2 ^ 115"
  then have "unat t div 2 ^ 51 < 2 ^ 64" by (intro less_mult_imp_div_less) simp
  then show ?thesis by (simp add: hi51_def down64 unat_drop)
qed

subsection \<open>Carries\<close>

lemma carry_value:
  fixes T0 T1 T2 T3 T4 :: nat
  assumes "T0 = 2 ^ 51 * c0 + m0" "T1 + c0 = 2 ^ 51 * c1 + m1" "T2 + c1 = 2 ^ 51 * c2 + m2"
    "T3 + c2 = 2 ^ 51 * c3 + m3" "T4 + c3 = 2 ^ 51 * c4 + m4"
    "m0 + c4 * 19 = 2 ^ 51 * d0 + n0" "m1 + d0 = 2 ^ 51 * d1 + n1"
  shows "n0 + 2 ^ 51 * n1 + 2 ^ 102 * (m2 + d1) + 2 ^ 153 * m3 + 2 ^ 204 * m4 + (2 ^ 255 - 19) * c4
    = T0 + 2 ^ 51 * T1 + 2 ^ 102 * T2 + 2 ^ 153 * T3 + 2 ^ 204 * T4"
  using assms by simp

lemma div51: "x < 2 ^ (51 + k) \<Longrightarrow> x div 2 ^ 51 < 2 ^ k" for x :: nat
  by (intro less_mult_imp_div_less) (simp add: power_add mult.commute)

lemma div51_le: "x \<le> n * 2 ^ 51 \<Longrightarrow> x div 2 ^ 51 \<le> n" for x n :: nat
  using div_le_mono [of x "n * 2 ^ 51" "2 ^ 51"] by simp

lemma fcarry_spec:
  assumes "unat t0 \<le> 6237 * 2 ^ 102" "unat t1 \<le> 6237 * 2 ^ 102" "unat t2 \<le> 6237 * 2 ^ 102"
    "unat t3 \<le> 6237 * 2 ^ 102" "unat t4 \<le> 405 * 2 ^ 102"
  shows "within (2 ^ 51) (fcarry (t0, t1, t2, t3, t4))"
    and "\<exists>k. fval (fcarry (t0, t1, t2, t3, t4)) + (2 ^ 255 - 19) * k =
      unat t0 + 2 ^ 51 * unat t1 + 2 ^ 102 * unat t2 + 2 ^ 153 * unat t3 + 2 ^ 204 * unat t4"
proof -
  define u1 u2 u3 u4 where "u1 = t1 + ucast (hi51 t0)" and "u2 = t2 + ucast (hi51 u1)"
    and "u3 = t3 + ucast (hi51 u2)" and "u4 = t4 + ucast (hi51 u3)"
  define v0 v1 where "v0 = lo51 t0 + hi51 u4 * 19" and "v1 = lo51 u1 + drop_bit 51 v0"
  note d = u1_def u2_def u3_def u4_def v0_def v1_def
  have f: "fcarry (t0, t1, t2, t3, t4) =
      (v0 AND M51, v1 AND M51, lo51 u2 + drop_bit 51 v1, lo51 u3, lo51 u4)"
    by (simp add: fcarry_def Let_def d)
  have step: "unat (t + ucast (hi51 s)) = unat t + unat s div 2 ^ 51 \<and> unat t + unat s div 2 ^ 51 \<le> unat t + 2 ^ 64"
    if "unat t \<le> 6237 * 2 ^ 102" "unat s < 2 ^ 115" for t s :: "128 word"
  proof -
    have "unat s div 2 ^ 51 < 2 ^ 64" using that(2) by (intro div51) simp
    then show ?thesis using that by (simp add: add128 up128 hi51_unat)
  qed
  have u1: "unat u1 = unat t1 + unat t0 div 2 ^ 51" "unat u1 < 2 ^ 115"
    using step [of t1 t0] assms(1,2) by (simp_all add: u1_def)
  have u2: "unat u2 = unat t2 + unat u1 div 2 ^ 51" "unat u2 < 2 ^ 115"
    using step [of t2 u1] assms(3) u1(2) by (simp_all add: u2_def)
  have u3: "unat u3 = unat t3 + unat u2 div 2 ^ 51" "unat u3 < 2 ^ 115"
    using step [of t3 u2] assms(4) u2(2) by (simp_all add: u3_def)
  have u4: "unat u4 = unat t4 + unat u3 div 2 ^ 51" "unat u4 \<le> 405 * 2 ^ 102 + 2 ^ 64"
    using step [of t4 u3] assms(5) u3(2) by (simp_all add: u4_def)
  have c4: "unat u4 div 2 ^ 51 \<le> 405 * 2 ^ 51 + 2 ^ 13"
    using u4(2) by (intro div51_le) simp
  have h4: "unat (hi51 u4) = unat u4 div 2 ^ 51" using u4(2) by (intro hi51_unat) simp
  have m: "unat (lo51 t0) < 2 ^ 51" "unat (lo51 u1) < 2 ^ 51" "unat (lo51 u2) < 2 ^ 51"
    by (simp_all add: lo51_unat)
  have "unat (hi51 u4 * 19) = unat u4 div 2 ^ 51 * 19"
    using c4 by (simp add: mul64 h4)
  then have v0: "unat v0 = unat t0 mod 2 ^ 51 + unat u4 div 2 ^ 51 * 19"
    unfolding v0_def using c4 m(1) by (subst add64) (simp_all add: lo51_unat)
  have "unat v0 div 2 ^ 51 < 2 ^ 13"
    unfolding v0 using c4 m(1) by (intro div51) (simp add: lo51_unat)
  then have v1: "unat v1 = unat u1 mod 2 ^ 51 + unat v0 div 2 ^ 51" "unat v1 < 2 ^ 52"
    unfolding v1_def using m(2) by (simp_all add: add64 lo51_unat unat_drop)
  have "unat v1 div 2 ^ 51 < 2 ^ 1" using v1(2) by (intro div51) simp
  then have v2: "unat (lo51 u2 + drop_bit 51 v1) = unat u2 mod 2 ^ 51 + unat v1 div 2 ^ 51"
      "unat v1 div 2 ^ 51 \<le> 1"
    using m(3) by (simp_all add: add64 lo51_unat unat_drop)
  show "within (2 ^ 51) (fcarry (t0, t1, t2, t3, t4))"
    using v2 m(3) by (simp add: f M51_mod lo51_unat less_imp_le)
  show "\<exists>k. fval (fcarry (t0, t1, t2, t3, t4)) + (2 ^ 255 - 19) * k =
      unat t0 + 2 ^ 51 * unat t1 + 2 ^ 102 * unat t2 + 2 ^ 153 * unat t3 + 2 ^ 204 * unat t4"
    unfolding f fval.simps M51_mod lo51_unat v2(1)
    by (intro exI carry_value [OF mult_div_mod_eq [symmetric]]) (simp_all add: u1 u2 u3 u4 v0 v1)
qed

subsection \<open>Products\<close>

lemma limb_products:
  fixes b :: nat
  shows "(s0 + b * s1 + b ^ 2 * s2 + b ^ 3 * s3 + b ^ 4 * s4) * (r0 + b * r1 + b ^ 2 * r2 + b ^ 3 * r3 + b ^ 4 * r4)
    = r0 * s0 + b * (r0 * s1 + r1 * s0) + b ^ 2 * (r0 * s2 + r2 * s0 + r1 * s1)
      + b ^ 3 * (r0 * s3 + r3 * s0 + r1 * s2 + r2 * s1) + b ^ 4 * (r0 * s4 + r4 * s0 + r3 * s1 + r1 * s3 + r2 * s2)
      + b ^ 5 * (r4 * s1 + r1 * s4 + r2 * s3 + r3 * s2) + b ^ 6 * (r4 * s2 + r2 * s4 + r3 * s3)
      + b ^ 7 * (r4 * s3 + r3 * s4) + b ^ 8 * (r4 * s4)"
  by (simp add: algebra_simps power_numeral_reduce)

lemma fold_top:
  fixes d0 d1 d2 d3 d4 d5 d6 d7 d8 :: nat
  assumes "t0 = d0 + 19 * d5" "t1 = d1 + 19 * d6" "t2 = d2 + 19 * d7" "t3 = d3 + 19 * d8"
  shows "t0 + 2 ^ 51 * t1 + 2 ^ 102 * t2 + 2 ^ 153 * t3 + 2 ^ 204 * d4
      + (2 ^ 255 - 19) * (d5 + 2 ^ 51 * d6 + 2 ^ 102 * d7 + 2 ^ 153 * d8)
    = d0 + 2 ^ 51 * d1 + 2 ^ 102 * d2 + 2 ^ 153 * d3 + 2 ^ 204 * d4
      + 2 ^ 255 * d5 + 2 ^ 306 * d6 + 2 ^ 357 * d7 + 2 ^ 408 * d8"
  unfolding assms by simp

lemma mul_value:
  fixes R0 R1 R2 R3 R4 S0 S1 S2 S3 S4 :: nat
  shows "\<exists>k. R0 * S0 + (R4 * 19 * S1 + R1 * 19 * S4 + R2 * 19 * S3 + R3 * 19 * S2)
      + 2 ^ 51 * (R0 * S1 + R1 * S0 + (R4 * 19 * S2 + R2 * 19 * S4 + R3 * 19 * S3))
      + 2 ^ 102 * (R0 * S2 + R2 * S0 + R1 * S1 + (R4 * 19 * S3 + R3 * 19 * S4))
      + 2 ^ 153 * (R0 * S3 + R3 * S0 + R1 * S2 + R2 * S1 + R4 * 19 * S4)
      + 2 ^ 204 * (R0 * S4 + R4 * S0 + R3 * S1 + R1 * S3 + R2 * S2) + (2 ^ 255 - 19) * k
    = (S0 + 2 ^ 51 * S1 + 2 ^ 102 * S2 + 2 ^ 153 * S3 + 2 ^ 204 * S4)
      * (R0 + 2 ^ 51 * R1 + 2 ^ 102 * R2 + 2 ^ 153 * R3 + 2 ^ 204 * R4)"
proof -
  have e: "((2::nat) ^ 51) ^ 2 = 2 ^ 102" "((2::nat) ^ 51) ^ 3 = 2 ^ 153" "((2::nat) ^ 51) ^ 4 = 2 ^ 204"
    "((2::nat) ^ 51) ^ 5 = 2 ^ 255" "((2::nat) ^ 51) ^ 6 = 2 ^ 306" "((2::nat) ^ 51) ^ 7 = 2 ^ 357"
    "((2::nat) ^ 51) ^ 8 = 2 ^ 408"
    by (simp_all only: power_mult [symmetric]) simp_all
  note l = limb_products [of S0 "2 ^ 51" S1 S2 S3 S4 R0 R1 R2 R3 R4, unfolded e]
  show ?thesis
    by (intro exI, rule trans [OF fold_top l [symmetric]]) (simp_all only: distrib_left mult.assoc mult.left_commute)
qed

lemma sum_bound: "unat a \<le> m \<Longrightarrow> unat b \<le> n \<Longrightarrow> m + n < 2 ^ 128 \<Longrightarrow>
    unat (a + b :: 128 word) = unat a + unat b \<and> unat a + unat b \<le> m + n"
  by (subst add128) simp_all

lemma prod_bound: "unat a \<le> m \<Longrightarrow> unat b \<le> n \<Longrightarrow> unat (mul128 a b) \<le> m * n"
  by (simp add: mul128_unat mult_le_mono)

lemma times19: "unat a \<le> 9 * 2 ^ 51 \<Longrightarrow> unat (a * 19 :: u64) = unat a * 19"
  by (subst mul64) simp_all

lemma fmul_spec:
  assumes "within (9 * 2 ^ 51) f" "within (9 * 2 ^ 51) g"
  shows "within (2 ^ 51) (fmul f g)" and "\<exists>k. fval (fmul f g) + (2 ^ 255 - 19) * k = fval f * fval g"
proof -
  obtain s0 s1 s2 s3 s4 where f: "f = (s0, s1, s2, s3, s4)" by (cases f)
  obtain r0 r1 r2 r3 r4 where g: "g = (r0, r1, r2, r3, r4)" by (cases g)
  let ?W = "9 * 2 ^ 51 :: nat" and ?V = "9 * 2 ^ 51 * 19 :: nat"
  have s: "unat s0 \<le> ?W" "unat s1 \<le> ?W" "unat s2 \<le> ?W" "unat s3 \<le> ?W" "unat s4 \<le> ?W"
    and r: "unat r0 \<le> ?W" "unat r1 \<le> ?W" "unat r2 \<le> ?W" "unat r3 \<le> ?W" "unat r4 \<le> ?W"
    using assms by (simp_all add: f g)
  note m = times19 [OF r(2)] times19 [OF r(3)] times19 [OF r(4)] times19 [OF r(5)]
  have v: "unat (r1 * 19) \<le> ?V" "unat (r2 * 19) \<le> ?V" "unat (r3 * 19) \<le> ?V" "unat (r4 * 19) \<le> ?V"
    using r unfolding m by simp_all
  define t0 where "t0 = mul128 r0 s0
    + (mul128 (r4 * 19) s1 + mul128 (r1 * 19) s4 + mul128 (r2 * 19) s3 + mul128 (r3 * 19) s2)"
  define t1 where "t1 = mul128 r0 s1 + mul128 r1 s0
    + (mul128 (r4 * 19) s2 + mul128 (r2 * 19) s4 + mul128 (r3 * 19) s3)"
  define t2 where "t2 = mul128 r0 s2 + mul128 r2 s0 + mul128 r1 s1 + (mul128 (r4 * 19) s3 + mul128 (r3 * 19) s4)"
  define t3 where "t3 = mul128 r0 s3 + mul128 r3 s0 + mul128 r1 s2 + mul128 r2 s1 + mul128 (r4 * 19) s4"
  define t4 where "t4 = mul128 r0 s4 + mul128 r4 s0 + mul128 r3 s1 + mul128 r1 s3 + mul128 r2 s2"
  have e: "fmul f g = fcarry (t0, t1, t2, t3, t4)"
    by (simp add: f g fmul_def Let_def t0_def t1_def t2_def t3_def t4_def)
  note p = prod_bound [OF r(1) s(1)] prod_bound [OF r(1) s(2)] prod_bound [OF r(1) s(3)] prod_bound [OF r(1) s(4)]
    prod_bound [OF r(1) s(5)] prod_bound [OF r(2) s(1)] prod_bound [OF r(2) s(2)] prod_bound [OF r(2) s(3)]
    prod_bound [OF r(2) s(4)] prod_bound [OF r(3) s(1)] prod_bound [OF r(3) s(2)] prod_bound [OF r(3) s(3)]
    prod_bound [OF r(4) s(1)] prod_bound [OF r(4) s(2)] prod_bound [OF r(5) s(1)]
    prod_bound [OF v(1) s(5)] prod_bound [OF v(2) s(4)] prod_bound [OF v(2) s(5)] prod_bound [OF v(3) s(3)]
    prod_bound [OF v(3) s(4)] prod_bound [OF v(3) s(5)] prod_bound [OF v(4) s(2)] prod_bound [OF v(4) s(3)]
    prod_bound [OF v(4) s(4)] prod_bound [OF v(4) s(5)]
  note P = p [simplified]
  have t0: "unat t0 = unat r0 * unat s0 + (unat r4 * 19 * unat s1 + unat r1 * 19 * unat s4
      + unat r2 * 19 * unat s3 + unat r3 * 19 * unat s2)" "unat t0 \<le> 6237 * 2 ^ 102"
    unfolding t0_def using P by (simp_all add: add128 mul128_unat m)
  have t1: "unat t1 = unat r0 * unat s1 + unat r1 * unat s0 + (unat r4 * 19 * unat s2 + unat r2 * 19 * unat s4
      + unat r3 * 19 * unat s3)" "unat t1 \<le> 6237 * 2 ^ 102"
    unfolding t1_def using P by (simp_all add: add128 mul128_unat m)
  have t2: "unat t2 = unat r0 * unat s2 + unat r2 * unat s0 + unat r1 * unat s1
      + (unat r4 * 19 * unat s3 + unat r3 * 19 * unat s4)" "unat t2 \<le> 6237 * 2 ^ 102"
    unfolding t2_def using P by (simp_all add: add128 mul128_unat m)
  have t3: "unat t3 = unat r0 * unat s3 + unat r3 * unat s0 + unat r1 * unat s2 + unat r2 * unat s1
      + unat r4 * 19 * unat s4" "unat t3 \<le> 6237 * 2 ^ 102"
    unfolding t3_def using P by (simp_all add: add128 mul128_unat m)
  have t4: "unat t4 = unat r0 * unat s4 + unat r4 * unat s0 + unat r3 * unat s1 + unat r1 * unat s3
      + unat r2 * unat s2" "unat t4 \<le> 405 * 2 ^ 102"
    unfolding t4_def using P by (simp_all add: add128 mul128_unat m)
  note c = fcarry_spec [OF t0(2) t1(2) t2(2) t3(2) t4(2)]
  show "within (2 ^ 51) (fmul f g)" unfolding e by (rule c(1))
  from c(2) obtain k where k: "fval (fcarry (t0, t1, t2, t3, t4)) + (2 ^ 255 - 19) * k =
      unat t0 + 2 ^ 51 * unat t1 + 2 ^ 102 * unat t2 + 2 ^ 153 * unat t3 + 2 ^ 204 * unat t4" by blast
  obtain l where l: "unat t0 + 2 ^ 51 * unat t1 + 2 ^ 102 * unat t2 + 2 ^ 153 * unat t3 + 2 ^ 204 * unat t4
      + (2 ^ 255 - 19) * l = fval f * fval g"
    using mul_value [of "unat r0" "unat s0" "unat r4" "unat s1" "unat r1" "unat s4" "unat r2" "unat s3" "unat r3" "unat s2"]
    unfolding f g fval.simps t0(1) t1(1) t2(1) t3(1) t4(1) by blast
  show "\<exists>k. fval (fmul f g) + (2 ^ 255 - 19) * k = fval f * fval g"
    unfolding e l [symmetric] k [symmetric] by (intro exI [of _ "k + l"]) (simp only: distrib_left add.assoc)
qed

text \<open>A turn of \<open>fsquare_times\<close> is a product with itself: it only groups the products otherwise.\<close>

lemma mul128_eqI: "unat a * unat b = unat c \<Longrightarrow> mul128 a b = c"
  by (simp add: mul128_unat word_unat_eq_iff)

lemma fsquare_turn_mul:
  assumes "within (9 * 2 ^ 51) f"
  shows "fsquare_turn f = fmul f f"
proof -
  obtain r0 r1 r2 r3 r4 where f: "f = (r0, r1, r2, r3, r4)" by (cases f)
  let ?W = "9 * 2 ^ 51 :: nat"
  have r: "unat r0 \<le> ?W" "unat r1 \<le> ?W" "unat r2 \<le> ?W" "unat r3 \<le> ?W" "unat r4 \<le> ?W"
    using assms by (simp_all add: f)
  have 19: "unat (a * 19) = unat a * 19" "unat (a * 2) = unat a * 2" "unat (a * 2 * 19) = unat a * 38"
    "unat (a * 19 * 2) = unat a * 38" if "unat a \<le> ?W" for a :: u64
  proof -
    show t: "unat (a * 19) = unat a * 19" "unat (a * 2) = unat a * 2" using that by (simp_all add: mul64)
    show "unat (a * 2 * 19) = unat a * 38" "unat (a * 19 * 2) = unat a * 38"
      using that t by (simp_all add: mul64)
  qed
  have two: "unat (mul128 a b + mul128 c d) = unat a * unat b + unat c * unat d"
    if "unat a \<le> 19 * ?W" "unat b \<le> ?W" "unat c \<le> 19 * ?W" "unat d \<le> ?W" for a b c d
  proof -
    have "unat a * unat b \<le> 19 * ?W * ?W" "unat c * unat d \<le> 19 * ?W * ?W"
      using that by (intro mult_le_mono; simp)+
    then show ?thesis by (simp add: add128 mul128_unat)
  qed
  have q: "mul128 (a * 19 * 2) b = mul128 (a * 19) b + mul128 (b * 19) a"
    "mul128 (a * 2 * 19) b = mul128 (a * 19) b + mul128 (b * 19) a"
    "mul128 (a * 2) b = mul128 a b + mul128 b a"
    "mul128 b (b * 19) = mul128 (b * 19) b"
    if "unat a \<le> ?W" "unat b \<le> ?W" for a b
  proof -
    show "mul128 (a * 19 * 2) b = mul128 (a * 19) b + mul128 (b * 19) a"
      "mul128 (a * 2 * 19) b = mul128 (a * 19) b + mul128 (b * 19) a"
      using that 19 by (auto intro!: mul128_eqI simp: two)
    show "mul128 (a * 2) b = mul128 a b + mul128 b a"
      using that 19 by (auto intro!: mul128_eqI simp: two)
    show "mul128 b (b * 19) = mul128 (b * 19) b"
      by (simp add: mul128_def mult.commute)
  qed
  show ?thesis
    unfolding f fsquare_turn_def fmul_def Let_def case_prod_conv
      q(1) [OF r(5,2)] q(1) [OF r(5,3)] q(1) [OF r(5,4)] q(2) [OF r(3,4)] q(3) [OF r(1,2)] q(3) [OF r(1,3)]
      q(3) [OF r(1,4)] q(3) [OF r(1,5)] q(3) [OF r(2,3)] q(3) [OF r(2,4)] q(4) [OF r(4,4)] q(4) [OF r(5,5)]
    by (simp only: add.assoc add.commute add.left_commute)
qed

lemma fsquare_spec:
  assumes "within (9 * 2 ^ 51) f"
  shows "within (2 ^ 51) (fsquare_turn f)" and "\<exists>k. fval (fsquare_turn f) + (2 ^ 255 - 19) * k = fval f ^ 2"
  unfolding fsquare_turn_mul [OF assms] power2_eq_square by (rule fmul_spec [OF assms assms])+

subsection \<open>Sums, differences and multiples\<close>

lemma fsum_spec:
  assumes "within m f" "within n g" "m + n < 2 ^ 64"
  shows "within (m + n) (fsum f g)" and "fval (fsum f g) = fval f + fval g"
proof -
  obtain s0 s1 s2 s3 s4 where f: "f = (s0, s1, s2, s3, s4)" by (cases f)
  obtain r0 r1 r2 r3 r4 where g: "g = (r0, r1, r2, r3, r4)" by (cases g)
  have u: "unat (s0 + r0) = unat s0 + unat r0" "unat (s1 + r1) = unat s1 + unat r1"
    "unat (s2 + r2) = unat s2 + unat r2" "unat (s3 + r3) = unat s3 + unat r3"
    "unat (s4 + r4) = unat s4 + unat r4"
    using assms by (auto simp: f g add64)
  show "within (m + n) (fsum f g)"
    using assms(1,2) by (auto simp: f g fsum_def u)
  show "fval (fsum f g) = fval f + fval g"
    by (simp add: f g fsum_def u)
qed

lemma limb_difference:
  assumes "unat i \<le> m" "m + 2 ^ 54 < 2 ^ 64" "unat o' \<le> unat c" "unat c \<le> 2 ^ 54"
  shows "unat (i + c - o' :: u64) + unat o' = unat i + unat c"
proof -
  have c: "unat (i + c) = unat i + unat c" using assms by (simp add: add64)
  then have "o' \<le> i + c" using assms by (simp add: word_le_nat_alt)
  then show ?thesis using c assms(3) by (simp add: unat_sub)
qed

lemma fdifference_spec:
  assumes "within (2 ^ 54 - 152) out" "within m f" "m + 2 ^ 54 < 2 ^ 64"
  shows "within (m + 2 ^ 54) (fdifference_backwards out f)"
    and "fval (fdifference_backwards out f) + fval out = fval f + 8 * (2 ^ 255 - 19)"
proof -
  obtain s0 s1 s2 s3 s4 where o': "out = (s0, s1, s2, s3, s4)" by (cases out)
  obtain r0 r1 r2 r3 r4 where f: "f = (r0, r1, r2, r3, r4)" by (cases f)
  have c: "unat two54m152 = 2 ^ 54 - 152" "unat two54m8 = 2 ^ 54 - 8"
    by (simp_all add: two54m152_def two54m8_def)
  have d: "unat (r0 + two54m152 - s0) + unat s0 = unat r0 + (2 ^ 54 - 152)"
    "unat (r1 + two54m8 - s1) + unat s1 = unat r1 + (2 ^ 54 - 8)"
    "unat (r2 + two54m8 - s2) + unat s2 = unat r2 + (2 ^ 54 - 8)"
    "unat (r3 + two54m8 - s3) + unat s3 = unat r3 + (2 ^ 54 - 8)"
    "unat (r4 + two54m8 - s4) + unat s4 = unat r4 + (2 ^ 54 - 8)"
    using assms(1,2) limb_difference [OF _ assms(3), of r0 s0 two54m152]
      limb_difference [OF _ assms(3), of r1 s1 two54m8] limb_difference [OF _ assms(3), of r2 s2 two54m8]
      limb_difference [OF _ assms(3), of r3 s3 two54m8] limb_difference [OF _ assms(3), of r4 s4 two54m8]
    by (simp_all add: o' f c)
  show "within (m + 2 ^ 54) (fdifference_backwards out f)"
    using d assms(2) by (simp add: o' f fdifference_backwards_def)
  show "fval (fdifference_backwards out f) + fval out = fval f + 8 * (2 ^ 255 - 19)"
    using d by (simp add: o' f fdifference_backwards_def)
qed

lemma fscalar_value:
  fixes T0 T1 T2 T3 T4 :: nat
  assumes "T0 = 2 ^ 51 * c0 + m0" "T1 + c0 = 2 ^ 51 * c1 + m1" "T2 + c1 = 2 ^ 51 * c2 + m2"
    "T3 + c2 = 2 ^ 51 * c3 + m3" "T4 + c3 = 2 ^ 51 * c4 + m4"
  shows "m0 + c4 * 19 + 2 ^ 51 * m1 + 2 ^ 102 * m2 + 2 ^ 153 * m3 + 2 ^ 204 * m4 + (2 ^ 255 - 19) * c4
    = T0 + 2 ^ 51 * T1 + 2 ^ 102 * T2 + 2 ^ 153 * T3 + 2 ^ 204 * T4"
  using assms by simp

lemma low: "x < 2 ^ 51 \<Longrightarrow> y < 2 ^ 21 \<Longrightarrow> x + y * 19 \<le> 2 ^ 51 + 2 ^ 26" "x < 2 ^ 51 \<Longrightarrow> x \<le> 2 ^ 51 + 2 ^ 26"
  for x y :: nat
  by simp_all

lemma fscalar_spec:
  assumes "within (9 * 2 ^ 51) f" "unat s \<le> 2 ^ 17"
  shows "within (2 ^ 51 + 2 ^ 26) (fscalar_product f s)"
    and "\<exists>k. fval (fscalar_product f s) + (2 ^ 255 - 19) * k = fval f * unat s"
proof -
  obtain r0 r1 r2 r3 r4 where f: "f = (r0, r1, r2, r3, r4)" by (cases f)
  let ?B = "9 * 2 ^ 51 * 2 ^ 17 :: nat"
  have p: "unat (mul128 r0 s) \<le> ?B" "unat (mul128 r1 s) \<le> ?B" "unat (mul128 r2 s) \<le> ?B"
    "unat (mul128 r3 s) \<le> ?B" "unat (mul128 r4 s) \<le> ?B"
    using assms prod_bound [OF _ assms(2), of _ "9 * 2 ^ 51"] by (simp_all add: f)
  define a1 a2 a3 a4 where "a1 = mul128 r1 s + ucast (hi51 (mul128 r0 s))"
    and "a2 = mul128 r2 s + ucast (hi51 a1)" and "a3 = mul128 r3 s + ucast (hi51 a2)"
    and "a4 = mul128 r4 s + ucast (hi51 a3)"
  have e: "fscalar_product f s = (ucast (ucast (lo51 (mul128 r0 s)) + drop_bit 51 a4 * 19 :: 128 word),
      lo51 a1, lo51 a2, lo51 a3, lo51 a4)"
    by (simp add: f fscalar_product_def Let_def a1_def a2_def a3_def a4_def)
  have step: "unat (t + ucast (hi51 u)) = unat t + unat u div 2 ^ 51 \<and> unat t + unat u div 2 ^ 51 < 2 ^ 72"
    if "unat t \<le> ?B" "unat u < 2 ^ 72" for t u :: "128 word"
  proof -
    have "unat u div 2 ^ 51 < 2 ^ 21" using that(2) by (intro div51) simp
    then show ?thesis using that by (simp add: add128 up128 hi51_unat)
  qed
  have a1: "unat a1 = unat (mul128 r1 s) + unat (mul128 r0 s) div 2 ^ 51" "unat a1 < 2 ^ 72"
    using step [OF p(2), of "mul128 r0 s"] p(1) by (simp_all add: a1_def)
  have a2: "unat a2 = unat (mul128 r2 s) + unat a1 div 2 ^ 51" "unat a2 < 2 ^ 72"
    using step [OF p(3) a1(2)] by (simp_all add: a2_def)
  have a3: "unat a3 = unat (mul128 r3 s) + unat a2 div 2 ^ 51" "unat a3 < 2 ^ 72"
    using step [OF p(4) a2(2)] by (simp_all add: a3_def)
  have a4: "unat a4 = unat (mul128 r4 s) + unat a3 div 2 ^ 51" "unat a4 < 2 ^ 72"
    using step [OF p(5) a3(2)] by (simp_all add: a4_def)
  have c: "unat a4 div 2 ^ 51 < 2 ^ 21" using a4(2) by (intro div51) simp
  have m: "unat (lo51 t) < 2 ^ 51" for t by (simp add: lo51_unat)
  have "unat (drop_bit 51 a4 * 19) = unat a4 div 2 ^ 51 * 19"
    using unat_mult_lem [of "drop_bit 51 a4" "19 :: 128 word"] c by (simp add: unat_drop)
  then have o': "unat (ucast (ucast (lo51 (mul128 r0 s)) + drop_bit 51 a4 * 19 :: 128 word) :: u64)
      = unat (mul128 r0 s) mod 2 ^ 51 + unat a4 div 2 ^ 51 * 19"
    using c m [of "mul128 r0 s"] by (simp add: down64 add128 up128 lo51_unat)
  show "within (2 ^ 51 + 2 ^ 26) (fscalar_product f s)"
    using c m unfolding e within.simps o' lo51_unat by (auto intro!: low)
  show "\<exists>k. fval (fscalar_product f s) + (2 ^ 255 - 19) * k = fval f * unat s"
  proof
    have "fval (fscalar_product f s) + (2 ^ 255 - 19) * (unat a4 div 2 ^ 51) =
        unat (mul128 r0 s) + 2 ^ 51 * unat (mul128 r1 s) + 2 ^ 102 * unat (mul128 r2 s)
        + 2 ^ 153 * unat (mul128 r3 s) + 2 ^ 204 * unat (mul128 r4 s)"
      unfolding e fval.simps o' lo51_unat
      by (rule fscalar_value [OF mult_div_mod_eq [symmetric]]) (simp_all add: a1(1) a2(1) a3(1) a4(1))
    then show "fval (fscalar_product f s) + (2 ^ 255 - 19) * (unat a4 div 2 ^ 51) = fval f * unat s"
      by (simp add: f mul128_unat algebra_simps)
  qed
qed

subsection \<open>Arithmetic of the field\<close>

lemma p25519_nat: "int (2 ^ 255 - 19) = p25519"
  by (simp add: p25519_def)

lemma fres_eqI:
  assumes "fval f + (2 ^ 255 - 19) * k = n"
  shows "fres f = int n mod p25519"
proof -
  have "int n = int (fval f) + p25519 * int k"
    unfolding assms [symmetric] p25519_nat [symmetric] by (simp only: of_nat_add of_nat_mult)
  then show ?thesis by (simp add: fres_def)
qed

lemma fres_mul:
  assumes "within (9 * 2 ^ 51) f" "within (9 * 2 ^ 51) g"
  shows "fres (fmul f g) = fres f * fres g mod p25519"
proof -
  obtain k where "fval (fmul f g) + (2 ^ 255 - 19) * k = fval f * fval g"
    using fmul_spec(2) [OF assms] by blast
  from fres_eqI [OF this] show ?thesis by (simp add: fres_def mod_mult_eq)
qed

lemma fres_square:
  assumes "within (9 * 2 ^ 51) f"
  shows "fres (fsquare_turn f) = fres f ^ 2 mod p25519"
  unfolding fsquare_turn_mul [OF assms] fres_mul [OF assms assms] by (simp add: power2_eq_square)

lemma fres_sum:
  assumes "within m f" "within n g" "m + n < 2 ^ 64"
  shows "fres (fsum f g) = (fres f + fres g) mod p25519"
  by (simp add: fres_def fsum_spec(2) [OF assms] mod_add_eq)

lemma fres_difference:
  assumes "within (2 ^ 54 - 152) out" "within m f" "m + 2 ^ 54 < 2 ^ 64"
  shows "fres (fdifference_backwards out f) = (fres f - fres out) mod p25519"
proof -
  have "int (fval (fdifference_backwards out f)) = int (fval f) - int (fval out) + p25519 * 8"
    using arg_cong [OF fdifference_spec(2) [OF assms], of int] by (simp add: p25519_def)
  then show ?thesis by (simp add: fres_def mod_diff_eq)
qed

lemma fres_scalar:
  assumes "within (9 * 2 ^ 51) f" "unat s \<le> 2 ^ 17"
  shows "fres (fscalar_product f s) = fres f * int (unat s) mod p25519"
proof -
  obtain k where "fval (fscalar_product f s) + (2 ^ 255 - 19) * k = fval f * unat s"
    using fscalar_spec(2) [OF assms] by blast
  from fres_eqI [OF this] show ?thesis by (simp add: fres_def mod_mult_left_eq)
qed

lemma fres_mod [simp]: "fres f mod p25519 = fres f"
  by (simp add: fres_def)

text \<open>The loop of squarings.\<close>

lemma fsquare_loop:
  assumes "within (2 ^ 51) f"
  shows "within (2 ^ 51) ((fsquare_turn ^^ n) f) \<and> fres ((fsquare_turn ^^ n) f) = fres f ^ 2 ^ n mod p25519"
proof (induction n)
  case 0
  then show ?case using assms by simp
next
  case (Suc n)
  then have w: "within (9 * 2 ^ 51) ((fsquare_turn ^^ n) f)" by (auto intro: within_mono)
  show ?case
    using fsquare_spec(1) [OF w] fres_square [OF w] Suc
    by (simp add: power_mod power_mult [symmetric] mult.commute)
qed

lemma fsquare_times_spec:
  assumes "within (2 ^ 51) f" "count \<noteq> 0"
  shows "within (2 ^ 51) (fsquare_times f count)"
    and "fres (fsquare_times f count) = fres f ^ 2 ^ unat count mod p25519"
  using fsquare_loop [OF assms(1), of "unat count"] assms(2) by (simp_all add: fsquare_times_def)

lemma fsquare_once:
  assumes "within (9 * 2 ^ 51) f"
  shows "within (2 ^ 51) (fsquare_times f 1)" and "fres (fsquare_times f 1) = fres f ^ 2 mod p25519"
  using fsquare_spec(1) [OF assms] fres_square [OF assms] by (simp_all add: fsquare_times_def)

end
