(* ===== verification/CurveBytes.thy ===== *)
theory CurveBytes
  imports CurveField
begin

section \<open>Curve25519: limbs and bytes\<close>

text \<open>
  \<open>fexpand\<close> reads the low 255 bits of 32 bytes; \<open>fcontract\<close> writes the least representative of
  the residue class, 32 bytes, least significant first.
\<close>

subsection \<open>Digits of a number\<close>

lemma digit_join: "V div 2 ^ a mod 2 ^ b + 2 ^ b * (V div 2 ^ (a + b) mod 2 ^ c) = V div 2 ^ a mod 2 ^ (b + c)"
  for V :: nat
  using mod_mult2_eq [of "V div 2 ^ a" "2 ^ b" "2 ^ c"] by (simp add: div_mult2_eq power_add)

lemma digits_join:
  "V mod 2 ^ 51 + 2 ^ 51 * (V div 2 ^ 51 mod 2 ^ 51) + 2 ^ 102 * (V div 2 ^ 102 mod 2 ^ 51)
     + 2 ^ 153 * (V div 2 ^ 153 mod 2 ^ 51) = V mod 2 ^ 204"
  "V mod 2 ^ 204 + 2 ^ 204 * (V div 2 ^ 204 mod 2 ^ 51) = V mod 2 ^ 255" for V :: nat
proof -
  have a: "(0 :: nat) + 51 = 51" "(0 :: nat) + 102 = 102" "(0 :: nat) + 153 = 153" "(0 :: nat) + 204 = 204"
    "(51 :: nat) + 51 = 102" "(102 :: nat) + 51 = 153" "(153 :: nat) + 51 = 204" "(204 :: nat) + 51 = 255"
    by simp_all
  note j = digit_join [of V 0, unfolded power_0 div_by_1]
  show "V mod 2 ^ 51 + 2 ^ 51 * (V div 2 ^ 51 mod 2 ^ 51) + 2 ^ 102 * (V div 2 ^ 102 mod 2 ^ 51)
      + 2 ^ 153 * (V div 2 ^ 153 mod 2 ^ 51) = V mod 2 ^ 204"
    and "V mod 2 ^ 204 + 2 ^ 204 * (V div 2 ^ 204 mod 2 ^ 51) = V mod 2 ^ 255"
    using j [of 51 51] j [of 102 51] j [of 153 51] j [of 204 51] unfolding a by (simp_all only:)
qed

lemmas digits_204 = digits_join(1)

lemma digits_255:
  "V mod 2 ^ 51 + 2 ^ 51 * (V div 2 ^ 51 mod 2 ^ 51) + 2 ^ 102 * (V div 2 ^ 102 mod 2 ^ 51)
     + 2 ^ 153 * (V div 2 ^ 153 mod 2 ^ 51) + 2 ^ 204 * (V div 2 ^ 204 mod 2 ^ 51) = V mod 2 ^ 255" for V :: nat
  unfolding digits_join ..

lemma le_num_split:
  "le_num bs = le_num (take n bs) + 256 ^ n * le_num (drop n bs)" "le_num (take n bs) < 256 ^ n"
proof -
  show "le_num bs = le_num (take n bs) + 256 ^ n * le_num (drop n bs)"
    using le_num_append [of "take n bs" "drop n bs"] by (cases "n \<le> length bs") (simp_all add: min_absorb2)
  have "256 ^ length (take n bs) \<le> (256 :: nat) ^ n" by (rule power_increasing) simp_all
  then show "le_num (take n bs) < 256 ^ n" by (rule less_le_trans [OF le_num_bound])
qed

lemma le_num_drop: "le_num (drop n bs) = le_num bs div 256 ^ n"
  and le_num_take: "le_num (take n bs) = le_num bs mod 256 ^ n"
  using le_num_split [where bs = bs and n = n] by simp_all

subsection \<open>Expansion\<close>

lemma load_limb_unat: "unat (load_limb (drop j bs)) = le_num bs div 2 ^ (8 * j) mod 2 ^ 64"
proof -
  have "(256 :: nat) ^ j = 2 ^ (8 * j)" by (simp add: power_mult)
  then show ?thesis
    unfolding load_limb_def by (subst unat_le_word) (simp_all add: le_num_take le_num_drop)
qed

lemma bits_of_limb:
  "k + 51 \<le> 64 \<Longrightarrow> V div 2 ^ a mod 2 ^ 64 div 2 ^ k mod 2 ^ 51 = V div 2 ^ (a + k) mod 2 ^ 51" for V :: nat
proof -
  assume k: "k + 51 \<le> 64"
  have "take_bit 51 (drop_bit k (take_bit 64 (drop_bit a V))) = take_bit 51 (drop_bit (a + k) V)"
    using k by (intro bit_eqI) (auto simp: bit_simps ac_simps)
  then show ?thesis by (simp add: take_bit_eq_mod drop_bit_eq_div)
qed

lemma fexpand_spec:
  shows "within (2 ^ 51) (fexpand bs)" and "fval (fexpand bs) = le_num bs mod 2 ^ 255"
proof -
  have m: "x mod 2 ^ 51 \<le> 2 ^ 51" for x :: nat by (simp add: less_imp_le)
  show "within (2 ^ 51) (fexpand bs)"
    unfolding fexpand_def within.simps M51_mod by (intro conjI m)
  have l: "unat (load_limb bs) = le_num bs mod 2 ^ 64" using load_limb_unat [of 0 bs] by simp
  have b: "le_num bs mod 2 ^ 64 mod 2 ^ 51 = le_num bs mod 2 ^ 51"
    using bits_of_limb [of 0 "le_num bs" 0] by simp
  show "fval (fexpand bs) = le_num bs mod 2 ^ 255"
    unfolding fexpand_def fval.simps M51_mod unat_drop load_limb_unat l b digits_255 [symmetric]
    using bits_of_limb [of 3 "le_num bs" 48] bits_of_limb [of 6 "le_num bs" 96]
      bits_of_limb [of 1 "le_num bs" 152] bits_of_limb [of 12 "le_num bs" 192]
    by simp
qed

subsection \<open>Contraction\<close>

fun wval :: "wide \<Rightarrow> nat" where
  "wval (t0, t1, t2, t3, t4) =
     unat t0 + 2 ^ 51 * unat t1 + 2 ^ 102 * unat t2 + 2 ^ 153 * unat t3 + 2 ^ 204 * unat t4"

fun small :: "wide \<Rightarrow> bool" where
  "small (t0, t1, t2, t3, t4) \<longleftrightarrow>
     unat t0 < 2 ^ 64 \<and> unat t1 < 2 ^ 64 \<and> unat t2 < 2 ^ 64 \<and> unat t3 < 2 ^ 64 \<and> unat t4 < 2 ^ 64"

text \<open>The limbs are the digits of \<open>V\<close> to the base 2^51, the last one without a bound.\<close>

fun digits :: "nat \<Rightarrow> wide \<Rightarrow> bool" where
  "digits V (t0, t1, t2, t3, t4) \<longleftrightarrow>
     unat t0 = V mod 2 ^ 51 \<and> unat t1 = V div 2 ^ 51 mod 2 ^ 51 \<and> unat t2 = V div 2 ^ 102 mod 2 ^ 51 \<and>
     unat t3 = V div 2 ^ 153 mod 2 ^ 51 \<and> unat t4 = V div 2 ^ 204"

lemma W51_mod: "unat (w AND W51) = unat w mod 2 ^ 51"
proof -
  have "w AND W51 = take_bit 51 w"
    by (simp add: W51_def take_bit_eq_mask mask_eq_exp_minus_1)
  then show ?thesis
    by (simp only: unsigned_take_bit_eq) (simp add: take_bit_eq_mod)
qed

lemma digit_step:
  fixes a b :: nat
  shows "(a + 2 ^ 51 * b) mod 2 ^ 51 = a mod 2 ^ 51" and "(a + 2 ^ 51 * b) div 2 ^ 51 = b + a div 2 ^ 51"
  by simp_all

lemma carry_up_digits:
  assumes "small t"
  shows "digits (wval t) (carry_up t)"
proof -
  obtain t0 t1 t2 t3 t4 where t: "t = (t0, t1, t2, t3, t4)" by (cases t)
  have b: "unat t0 < 2 ^ 64" "unat t1 < 2 ^ 64" "unat t2 < 2 ^ 64" "unat t3 < 2 ^ 64" "unat t4 < 2 ^ 64"
    using assms by (simp_all add: t)
  define u1 u2 u3 u4 where "u1 = t1 + drop_bit 51 t0" and "u2 = t2 + drop_bit 51 u1"
    and "u3 = t3 + drop_bit 51 u2" and "u4 = t4 + drop_bit 51 u3"
  have step: "unat (x + drop_bit 51 y) = unat x + unat y div 2 ^ 51 \<and> unat x + unat y div 2 ^ 51 < 2 ^ 65"
    if "unat x < 2 ^ 64" "unat y < 2 ^ 65" for x y :: "128 word"
  proof -
    have "unat y div 2 ^ 51 < 2 ^ 14" using that(2) by (intro div51) simp
    then show ?thesis using that by (simp add: add128 unat_drop)
  qed
  have u1: "unat u1 = unat t1 + unat t0 div 2 ^ 51" "unat u1 < 2 ^ 65"
    using step [OF b(2), of t0] b(1) by (simp_all add: u1_def)
  have u2: "unat u2 = unat t2 + unat u1 div 2 ^ 51" "unat u2 < 2 ^ 65"
    using step [OF b(3) u1(2)] by (simp_all add: u2_def)
  have u3: "unat u3 = unat t3 + unat u2 div 2 ^ 51" "unat u3 < 2 ^ 65"
    using step [OF b(4) u2(2)] by (simp_all add: u3_def)
  have u4: "unat u4 = unat t4 + unat u3 div 2 ^ 51" "unat u4 < 2 ^ 65"
    using step [OF b(5) u3(2)] by (simp_all add: u4_def)
  let ?V = "wval t"
  have v0: "?V = unat t0 + 2 ^ 51 * (unat t1 + 2 ^ 51 * (unat t2 + 2 ^ 51 * (unat t3 + 2 ^ 51 * unat t4)))"
    by (simp add: t algebra_simps)
  have v1: "?V div 2 ^ 51 = unat u1 + 2 ^ 51 * (unat t2 + 2 ^ 51 * (unat t3 + 2 ^ 51 * unat t4))"
    unfolding v0 digit_step u1(1) by (simp only: ac_simps)
  have v2: "?V div 2 ^ 102 = unat u2 + 2 ^ 51 * (unat t3 + 2 ^ 51 * unat t4)"
    using div_mult2_eq [of ?V "2 ^ 51" "2 ^ 51"] unfolding v1 digit_step u2(1)
    by (simp only: ac_simps power_add [symmetric]) simp
  have v3: "?V div 2 ^ 153 = unat u3 + 2 ^ 51 * unat t4"
    using div_mult2_eq [of ?V "2 ^ 102" "2 ^ 51"] unfolding v2 digit_step u3(1)
    by (simp only: ac_simps power_add [symmetric]) simp
  have v4: "?V div 2 ^ 204 = unat u4"
    using div_mult2_eq [of ?V "2 ^ 153" "2 ^ 51"] unfolding v3 digit_step u4(1)
    by (simp only: ac_simps power_add [symmetric]) simp
  have m: "?V mod 2 ^ 51 = unat t0 mod 2 ^ 51" unfolding v0 digit_step ..
  have c: "carry_up t = (t0 AND W51, u1 AND W51, u2 AND W51, u3 AND W51, u4)"
    by (simp add: t carry_up_def Let_def u1_def u2_def u3_def u4_def)
  show ?thesis
    unfolding c digits.simps m v1 v2 v3 v4 digit_step W51_mod by (intro conjI refl)
qed

lemma digit_less: "V mod 2 ^ 51 < 2 ^ 64" "n < 2 ^ 52 \<Longrightarrow> n < 2 ^ 64" for V n :: nat
  using mod_less_divisor [of "2 ^ 51" V] by simp_all

lemma digits_small:
  assumes "digits V t" "V < 2 ^ 256"
  shows "small t" and "wval t = V"
proof -
  obtain t0 t1 t2 t3 t4 where t: "t = (t0, t1, t2, t3, t4)" by (cases t)
  have h: "V div 2 ^ 204 < 2 ^ 52" using assms(2) by (intro less_mult_imp_div_less) simp
  have e: "unat t0 = V mod 2 ^ 51" "unat t1 = V div 2 ^ 51 mod 2 ^ 51" "unat t2 = V div 2 ^ 102 mod 2 ^ 51"
    "unat t3 = V div 2 ^ 153 mod 2 ^ 51" "unat t4 = V div 2 ^ 204"
    using assms(1) unfolding t digits.simps by blast+
  show "small t"
    unfolding t small.simps e by (intro conjI digit_less(1) digit_less(2) [OF h])
  show "wval t = V"
    unfolding t wval.simps e digits_204 by (rule mod_mult_div_eq)
qed

text \<open>What a round leaves.\<close>

fun narrow :: "wide \<Rightarrow> bool" where
  "narrow (t0, t1, t2, t3, t4) \<longleftrightarrow>
     unat t0 < 2 ^ 52 \<and> unat t1 < 2 ^ 52 \<and> unat t2 < 2 ^ 52 \<and> unat t3 < 2 ^ 52 \<and> unat t4 < 2 ^ 52"

text \<open>Constants are added to the limbs without overflow.\<close>

lemma add_limbs:
  assumes "narrow (t0, t1, t2, t3, t4)" "unat c0 < 2 ^ 52" "unat c1 < 2 ^ 52"
  shows "small (t0 + c0, t1 + c1, t2 + c1, t3 + c1, t4 + c1)"
    and "wval (t0 + c0, t1 + c1, t2 + c1, t3 + c1, t4 + c1) =
      wval (t0, t1, t2, t3, t4) + unat c0 + (2 ^ 51 + 2 ^ 102 + 2 ^ 153 + 2 ^ 204) * unat c1"
proof -
  have a: "unat (t + c) = unat t + unat c \<and> unat t + unat c < 2 ^ 64" if "unat t < 2 ^ 52" "unat c < 2 ^ 52"
    for t c :: "128 word"
    using that by (simp add: add128)
  show "small (t0 + c0, t1 + c1, t2 + c1, t3 + c1, t4 + c1)"
    using assms a unfolding narrow.simps small.simps by metis
  have "unat (t0 + c0) = unat t0 + unat c0" "unat (t1 + c1) = unat t1 + unat c1" "unat (t2 + c1) = unat t2 + unat c1"
    "unat (t3 + c1) = unat t3 + unat c1" "unat (t4 + c1) = unat t4 + unat c1"
    using assms a unfolding narrow.simps by blast+
  then show "wval (t0 + c0, t1 + c1, t2 + c1, t3 + c1, t4 + c1) =
      wval (t0, t1, t2, t3, t4) + unat c0 + (2 ^ 51 + 2 ^ 102 + 2 ^ 153 + 2 ^ 204) * unat c1"
    by (simp add: algebra_simps)
qed

lemma low_sum: "a < 2 ^ 51 \<Longrightarrow> c < 2 \<Longrightarrow> 0 < (2 ^ 51 :: nat) \<Longrightarrow> a + 19 * c < 2 ^ 52 \<and> a + 19 * c < 2 ^ 128"
  for a c :: nat
  by simp

lemma carry_round_spec:
  assumes "small t" "wval t < 2 ^ 256"
  shows "wval (carry_round t) = wval t mod 2 ^ 255 + 19 * (wval t div 2 ^ 255)" and "narrow (carry_round t)"
proof -
  obtain t0 t1 t2 t3 t4 where t: "carry_up t = (t0, t1, t2, t3, t4)" by (cases "carry_up t")
  let ?V = "wval t"
  have e: "unat t0 = ?V mod 2 ^ 51" "unat t1 = ?V div 2 ^ 51 mod 2 ^ 51" "unat t2 = ?V div 2 ^ 102 mod 2 ^ 51"
    "unat t3 = ?V div 2 ^ 153 mod 2 ^ 51" "unat t4 = ?V div 2 ^ 204"
    using carry_up_digits [OF assms(1)] unfolding t digits.simps by blast+
  have c: "?V div 2 ^ 255 < 2" using assms(2) by (intro less_mult_imp_div_less) simp
  have d: "unat (drop_bit 51 t4) = ?V div 2 ^ 255"
    unfolding unat_drop e div_mult2_eq [symmetric] by (simp only: power_add [symmetric]) simp
  have "unat (19 * drop_bit 51 t4) = 19 * (?V div 2 ^ 255)"
    using unat_mult_lem [of "19 :: 128 word" "drop_bit 51 t4"] c unfolding d [symmetric] by simp
  then have n: "unat (t0 + 19 * drop_bit 51 t4) = ?V mod 2 ^ 51 + 19 * (?V div 2 ^ 255)"
      "?V mod 2 ^ 51 + 19 * (?V div 2 ^ 255) < 2 ^ 52"
    using low_sum [OF mod_less_divisor [of "2 ^ 51" ?V] c] e(1) add128 [of t0 "19 * drop_bit 51 t4"] by simp_all
  show "wval (carry_round t) = ?V mod 2 ^ 255 + 19 * (?V div 2 ^ 255)"
    unfolding carry_round_def t prod.case wval.simps n(1) W51_mod e digits_255 [symmetric] by simp
  have m: "x mod 2 ^ 51 < 2 ^ 52" for x :: nat by (rule less_trans [OF mod_less_divisor]) simp_all
  show "narrow (carry_round t)"
    unfolding carry_round_def t prod.case narrow.simps n(1) W51_mod e
    by (intro conjI m n(2))
qed

lemma narrow_small: "narrow t \<Longrightarrow> small t"
  by (cases t) (auto intro: less_trans [of _ "2 ^ 52" "2 ^ 64"])

lemma small_ucast: "unat (ucast (w :: u64) :: 128 word) < 2 ^ 64"
  using unsigned_less [of w, where 'a = nat] by (simp add: up128)

text \<open>Adding the multiples of the prime that the selection needs.\<close>

lemma canonical:
  fixes V p N :: nat
  assumes "V < N" "N = p + 19" "38 \<le> N"
  defines "V3 \<equiv> (V + 19) mod N + 19 * ((V + 19) div N)"
  shows "(V3 + p) mod N = V mod p" and "V3 < N + 19"
proof -
  consider "V < p" | "p \<le> V" by linarith
  then have "(V3 + p) mod N = V mod p \<and> V3 < N + 19"
  proof cases
    case 1
    then have "V3 = V + 19" using assms(2) by (simp add: V3_def)
    moreover have q: "V + 19 + p = V + N" using assms(2) by simp
    have "(V + 19 + p) mod N = V" unfolding q using assms(1) by simp
    ultimately show ?thesis using 1 assms(1) by simp
  next
    case 2
    then have q: "(V + 19) mod N = V - p" "(V + 19) div N = 1"
      using assms(1-3) by (simp_all add: le_mod_geq le_div_geq)
    then have "V3 = V - p + 19" by (simp add: V3_def)
    moreover have r: "V - p + 19 + p = (V - p) + N" using assms(2) by simp
    have "(V - p + 19 + p) mod N = V - p" unfolding r using assms(1) by simp
    moreover have "V mod p = V - p" using 2 assms(1-3) by (simp add: le_mod_geq)
    ultimately show ?thesis using assms(1) by simp
  qed
  then show "(V3 + p) mod N = V mod p" and "V3 < N + 19" by blast+
qed

lemma round_mod: "(x mod N + 19 * (x div N)) mod p = x mod p" if "N = p + 19" for x N p :: nat
proof -
  have "x = x mod N + N * (x div N)" by simp
  also have "\<dots> = x mod N + 19 * (x div N) + p * (x div N)" by (simp add: that algebra_simps)
  finally show ?thesis by (metis mod_mult_self2)
qed

lemma twice_reduced:
  fixes V p N :: nat
  assumes "V < 2 * N" "N = p + 19" "38 \<le> N"
  defines "V1 \<equiv> V mod N + 19 * (V div N)"
  defines "V2 \<equiv> V1 mod N + 19 * (V1 div N)"
  shows "V1 < N + 19" and "V2 < N" and "V2 mod p = V mod p"
proof -
  show "V2 mod p = V mod p" unfolding V2_def V1_def round_mod [OF assms(2)] ..
  have "V div N < 2" using assms(1) by (intro less_mult_imp_div_less) simp
  moreover have "V mod N < N" using assms(3) by simp
  ultimately show v1: "V1 < N + 19" unfolding V1_def by simp
  show "V2 < N"
  proof (cases "V1 < N")
    case True
    then show ?thesis by (simp add: V2_def)
  next
    case False
    then have "V1 mod N = V1 - N" "V1 div N = 1"
      using v1 assms(3) by (simp_all add: le_mod_geq le_div_geq)
    then show ?thesis using v1 False assms(3) by (simp add: V2_def)
  qed
qed

text \<open>The words that are stored.\<close>

lemma stored_word:
  assumes "unat a = V div 2 ^ k mod 2 ^ n" "unat b = V div 2 ^ l mod 2 ^ m" "l = k + n" "64 \<le> n + m" "n + m \<le> 128" "n \<le> 64"
  shows "unat (ucast (a OR push_bit n b :: 128 word) :: u64) = V div 2 ^ k mod 2 ^ 64"
proof -
  have "unat b < 2 ^ m" unfolding assms(2) by simp
  then have "unat b * 2 ^ n < 2 ^ (m + n)" by (simp add: power_add)
  also have "\<dots> \<le> 2 ^ 128" using assms(5) by (intro power_increasing) simp_all
  finally have l: "unat (push_bit n b) = 2 ^ n * unat b"
    by (simp only: unsigned_push_bit_eq)
       (simp add: push_bit_eq_mult [where 'a = nat] take_bit_eq_mod [where 'a = nat] mult.commute)
  have an: "unat a < 2 ^ n" unfolding assms(1) by simp
  then have a: "a = take_bit n a"
    by (intro word_unat_eq_iff [THEN iffD2]) (simp add: unsigned_take_bit_eq take_bit_nat_eq_self)
  have "take_bit n a AND push_bit n b = 0"
    by (rule bit_word_eqI) (auto simp: bit_simps)
  then have "a OR push_bit n b = a + push_bit n b"
    using a by (simp add: disjunctive_add_eq_or)
  moreover have "unat (a + push_bit n b) = unat a + 2 ^ n * unat b"
  proof -
    have "unat a + 2 ^ n * unat b = V div 2 ^ k mod 2 ^ (n + m)"
      unfolding assms(1-3) by (rule digit_join)
    also have "\<dots> < 2 ^ (n + m)" by simp
    also have "\<dots> \<le> 2 ^ 128" using assms(5) by (intro power_increasing) simp_all
    finally show ?thesis using l by (subst add128) simp_all
  qed
  ultimately have u: "unat (a OR push_bit n b) = V div 2 ^ k mod 2 ^ (n + m)"
    unfolding assms(1-3) digit_join by simp
  show ?thesis
    unfolding down64 u by (rule mod_mod_cancel [OF le_imp_power_dvd [OF assms(4)]])
qed

lemma le_num_limbs: "le_num (store_limb a @ store_limb b @ store_limb c @ store_limb d) =
    unat a + 2 ^ 64 * unat b + 2 ^ 128 * unat c + 2 ^ 192 * unat d"
  by (simp add: store_limb_def le_num_append le_num_le_bytes)

lemma words_256:
  "V mod 2 ^ 64 + 2 ^ 64 * (V div 2 ^ 64 mod 2 ^ 64) + 2 ^ 128 * (V div 2 ^ 128 mod 2 ^ 64)
     + 2 ^ 192 * (V div 2 ^ 192 mod 2 ^ 64) = V mod 2 ^ 256" for V :: nat
proof -
  have a: "(0 :: nat) + 64 = 64" "(0 :: nat) + 128 = 128" "(0 :: nat) + 192 = 192" "(64 :: nat) + 64 = 128"
    "(128 :: nat) + 64 = 192" "(192 :: nat) + 64 = 256"
    by simp_all
  note j = digit_join [of V 0, unfolded power_0 div_by_1]
  show ?thesis
    using j [of 64 64] j [of 128 64] j [of 192 64] unfolding a by (simp only:)
qed

lemma mod_div_shift: "b = n + m \<Longrightarrow> c = a + n \<Longrightarrow> V div 2 ^ a mod 2 ^ b div 2 ^ n = V div 2 ^ c mod 2 ^ m" for V :: nat
proof -
  assume "b = n + m" "c = a + n"
  then have "drop_bit n (take_bit b (drop_bit a V)) = take_bit m (drop_bit c V)"
    by (intro bit_eqI) (auto simp: bit_simps ac_simps)
  then show ?thesis by (simp only: take_bit_eq_mod drop_bit_eq_div)
qed

lemma mod_div_less: "c = a + b \<Longrightarrow> V mod 2 ^ c div 2 ^ a < 2 ^ b" for V :: nat
  by (rule less_mult_imp_div_less) (simp add: power_add mult.commute)

lemma stored_bytes:
  assumes "digits V (t0, t1, t2, t3, t4)"
  shows "store_limb (ucast (t0 OR push_bit 51 t1)) @ store_limb (ucast (drop_bit 13 t1 OR push_bit 38 t2)) @
      store_limb (ucast (drop_bit 26 t2 OR push_bit 25 t3)) @
      store_limb (ucast (drop_bit 39 t3 OR push_bit 12 (t4 AND W51))) = num_bytes 32 (V mod 2 ^ 255)"
    (is "?bs = _")
proof -
  let ?U = "V mod 2 ^ 255"
  have u: "V div 2 ^ k mod 2 ^ n = ?U div 2 ^ k mod 2 ^ n" if "k + n \<le> 255" for k n
  proof -
    have "take_bit n (drop_bit k V) = take_bit n (drop_bit k (take_bit 255 V))"
      using that by (intro bit_eqI) (auto simp: bit_simps)
    then show ?thesis by (simp only: take_bit_eq_mod drop_bit_eq_div)
  qed
  have e0: "unat t0 = V mod 2 ^ 51" "unat t1 = V div 2 ^ 51 mod 2 ^ 51" "unat t2 = V div 2 ^ 102 mod 2 ^ 51"
    "unat t3 = V div 2 ^ 153 mod 2 ^ 51" "unat t4 = V div 2 ^ 204"
    using assms unfolding digits.simps by blast+
  have "V div 2 ^ 0 mod 2 ^ 51 = ?U div 2 ^ 0 mod 2 ^ 51" by (rule u) simp
  then have t0: "unat t0 = ?U div 2 ^ 0 mod 2 ^ 51" unfolding e0(1) by (simp only: power_0 div_by_1)
  have t1: "unat t1 = ?U div 2 ^ 51 mod 2 ^ 51" unfolding e0(2) by (rule u) simp
  have t2: "unat t2 = ?U div 2 ^ 102 mod 2 ^ 51" unfolding e0(3) by (rule u) simp
  have t3: "unat t3 = ?U div 2 ^ 153 mod 2 ^ 51" unfolding e0(4) by (rule u) simp
  have t4: "unat (t4 AND W51) = ?U div 2 ^ 204 mod 2 ^ 51" unfolding W51_mod e0(5) by (rule u) simp
  have l: "?U div 2 ^ 204 < 2 ^ 51" "?U div 2 ^ 192 < 2 ^ 63"
    by (rule mod_div_less; simp)+
  have t4': "unat (t4 AND W51) = ?U div 2 ^ 204 mod 2 ^ 52"
    unfolding t4 mod_less [OF l(1)] by (rule mod_less [symmetric], rule less_trans [OF l(1)]) simp
  have h1: "unat (drop_bit 13 t1) = ?U div 2 ^ 64 mod 2 ^ 38" unfolding unat_drop t1 by (rule mod_div_shift) simp_all
  have h2: "unat (drop_bit 26 t2) = ?U div 2 ^ 128 mod 2 ^ 25" unfolding unat_drop t2 by (rule mod_div_shift) simp_all
  have h3: "unat (drop_bit 39 t3) = ?U div 2 ^ 192 mod 2 ^ 12" unfolding unat_drop t3 by (rule mod_div_shift) simp_all
  have w: "unat (ucast (t0 OR push_bit 51 t1) :: u64) = ?U div 2 ^ 0 mod 2 ^ 64"
    "unat (ucast (drop_bit 13 t1 OR push_bit 38 t2) :: u64) = ?U div 2 ^ 64 mod 2 ^ 64"
    "unat (ucast (drop_bit 26 t2 OR push_bit 25 t3) :: u64) = ?U div 2 ^ 128 mod 2 ^ 64"
    "unat (ucast (drop_bit 39 t3 OR push_bit 12 (t4 AND W51)) :: u64) = ?U div 2 ^ 192 mod 2 ^ 64"
    by (rule stored_word [OF t0 t1] stored_word [OF h1 t2] stored_word [OF h2 t3] stored_word [OF h3 t4']; simp)+
  have "le_num ?bs = ?U mod 2 ^ 256"
    unfolding le_num_limbs w power_0 div_by_1 by (rule words_256)
  also have "\<dots> = ?U" by (rule mod_less, rule less_trans [OF mod_less_divisor]) simp_all
  finally show ?thesis
    using num_bytes_le_num [of ?bs] by (simp add: store_limb_def)
qed

text \<open>Contraction of an element in the short form yields the bytes of the least representative.\<close>

lemma fcontract_spec:
  assumes "within (2 ^ 51) f"
  shows "fcontract f = num_bytes 32 (fval f mod (2 ^ 255 - 19))"
proof -
  obtain i0 i1 i2 i3 i4 where f: "f = (i0, i1, i2, i3, i4)" by (cases f)
  let ?t = "(ucast i0, ucast i1, ucast i2, ucast i3, ucast i4) :: wide"
  define t1 where "t1 = carry_round ?t"
  define t2 where "t2 = carry_round t1"
  obtain a0 a1 a2 a3 a4 where a: "t2 = (a0, a1, a2, a3, a4)" by (cases t2)
  define t3 where "t3 = carry_round (a0 + 19, a1, a2, a3, a4)"
  obtain b0 b1 b2 b3 b4 where b: "t3 = (b0, b1, b2, b3, b4)" by (cases t3)
  let ?u = "(b0 + (0x8000000000000 - 19), b1 + (0x8000000000000 - 1), b2 + (0x8000000000000 - 1),
      b3 + (0x8000000000000 - 1), b4 + (0x8000000000000 - 1)) :: wide"
  obtain c0 c1 c2 c3 c4 where c: "carry_up ?u = (c0, c1, c2, c3, c4)" by (cases "carry_up ?u")
  let ?N = "2 ^ 255 :: nat" and ?p = "2 ^ 255 - 19 :: nat"
  have np: "?N = ?p + 19" "38 \<le> ?N" by simp_all
  have s0: "small ?t" unfolding small.simps by (intro conjI small_ucast)
  have v0: "wval ?t = fval f" by (simp add: f up128)
  have "fval f < 2 * ?N" using assms by (simp add: f)
  then have l0: "wval ?t < 2 * ?N" unfolding v0 .
  note tw = twice_reduced [OF l0 np]
  have d: "2 * ?N = 2 ^ 256" by simp
  note r1 = carry_round_spec [OF s0 l0 [unfolded d], folded t1_def]
  have "wval t1 < 2 ^ 256" unfolding r1(1) by (rule less_trans [OF tw(1)]) simp
  note r2 = carry_round_spec [OF narrow_small [OF r1(2)] this, folded t2_def]
  have l2: "wval t2 < ?N" "wval t2 mod ?p = fval f mod ?p"
    unfolding r2(1) r1(1) using tw(2,3) unfolding v0 by blast+
  note n2 = add_limbs [OF r2(2) [unfolded a], of 19 0, simplified add_0_right]
  have v2: "wval (a0 + 19, a1, a2, a3, a4) = wval t2 + 19" "small (a0 + 19, a1, a2, a3, a4)"
    using n2 by (simp_all add: a)
  have "wval (a0 + 19, a1, a2, a3, a4) < 2 ^ 256"
    unfolding v2(1) using l2(1) by simp
  note r3 = carry_round_spec [OF v2(2) this, folded t3_def, unfolded v2(1)]
  note ca = canonical [OF l2(1) np, folded r3(1)]
  have n3: "small ?u" "wval ?u = wval t3 + ?p"
    using add_limbs [OF r3(2) [unfolded b], of "0x8000000000000 - 19" "0x8000000000000 - 1"] by (simp_all add: b)
  have "fcontract f = num_bytes 32 (wval ?u mod ?N)"
    unfolding fcontract_def f prod.case t1_def [symmetric] t2_def [symmetric] a t3_def [symmetric] b c Let_def
    using stored_bytes [OF carry_up_digits [OF n3(1), unfolded c]] .
  also have "wval ?u mod ?N = fval f mod ?p"
    unfolding n3(2) ca(1) l2(2) ..
  finally show ?thesis .
qed

end
