(* ===== verification/CurveLadder.thy ===== *)
theory CurveLadder
  imports CurveBytes
begin

section \<open>Curve25519: the ladder and the exchange function\<close>

text \<open>
  The Montgomery ladder of \<open>cmult\<close> and the addition chain of \<open>crecip\<close> over the field, and the
  result: \<open>donna\<close> is X25519 of RFC 7748. The code runs the ladder over all 256 bits of the
  clamped scalar, whose top bit is 0; the RFC starts one bit later, which reaches the same point
  (\<open>top_bit_same_point\<close>).
\<close>

subsection \<open>Points as residues\<close>

fun short :: "ladder \<Rightarrow> bool" where
  "short ((x, z), (x', z')) \<longleftrightarrow>
     within (2 ^ 51) x \<and> within (2 ^ 51) z \<and> within (2 ^ 51) x' \<and> within (2 ^ 51) z'"

fun residues :: "ladder \<Rightarrow> rfc_point \<times> rfc_point" where
  "residues ((x, z), (x', z')) = ((fres x, fres z), (fres x', fres z'))"

lemma wide_limits: "within (2 ^ 51) f \<Longrightarrow> within (9 * 2 ^ 51) f" "within (2 ^ 51) f \<Longrightarrow> within (2 ^ 54 - 152) f"
  "within (2 ^ 51 + 2 ^ 51) f \<Longrightarrow> within (9 * 2 ^ 51) f" "within (2 ^ 51 + 2 ^ 54) f \<Longrightarrow> within (9 * 2 ^ 51) f"
  "within (2 ^ 51 + 2 ^ 26 + 2 ^ 51) f \<Longrightarrow> within (9 * 2 ^ 51) f"
  by (auto elim!: within_mono)

lemma fmonty_spec:
  assumes "short (nq, nqpq)" "within (2 ^ 51) q"
  shows "short (fmonty nq nqpq q)" and "residues (fmonty nq nqpq q) = rfc_step (fres q) (residues (nq, nqpq))"
proof -
  obtain x z where nq: "nq = (x, z)" by (cases nq)
  obtain x' z' where nqpq: "nqpq = (x', z')" by (cases nqpq)
  have t: "within (2 ^ 51) x" "within (2 ^ 51) z" "within (2 ^ 51) x'" "within (2 ^ 51) z'"
    using assms(1) by (simp_all add: nq nqpq)
  have s: "(2 :: nat) ^ 51 + 2 ^ 51 < 2 ^ 64" "(2 :: nat) ^ 51 + 2 ^ 54 < 2 ^ 64" "(2 :: nat) ^ 51 + 2 ^ 26 + 2 ^ 51 < 2 ^ 64"
    by simp_all
  define A where "A = fsum x z"
  define B where "B = fdifference_backwards z x"
  define C where "C = fsum x' z'"
  define D where "D = fdifference_backwards z' x'"
  note A = fsum_spec(1) [OF t(1,2) s(1), folded A_def, THEN wide_limits(3)] fres_sum [OF t(1,2) s(1), folded A_def]
  note B = fdifference_spec(1) [OF wide_limits(2) [OF t(2)] t(1) s(2), folded B_def, THEN wide_limits(4)]
    fres_difference [OF wide_limits(2) [OF t(2)] t(1) s(2), folded B_def]
  note C = fsum_spec(1) [OF t(3,4) s(1), folded C_def, THEN wide_limits(3)] fres_sum [OF t(3,4) s(1), folded C_def]
  note D = fdifference_spec(1) [OF wide_limits(2) [OF t(4)] t(3) s(2), folded D_def, THEN wide_limits(4)]
    fres_difference [OF wide_limits(2) [OF t(4)] t(3) s(2), folded D_def]
  define CB where "CB = fmul C B"
  define DA where "DA = fmul A D"
  note CB = fmul_spec(1) [OF C(1) B(1), folded CB_def] fres_mul [OF C(1) B(1), folded CB_def]
  note DA = fmul_spec(1) [OF A(1) D(1), folded DA_def] fres_mul [OF A(1) D(1), folded DA_def]
  define S where "S = fsum CB DA"
  define M where "M = fdifference_backwards DA CB"
  note S = fsum_spec(1) [OF CB(1) DA(1) s(1), folded S_def, THEN wide_limits(3)] fres_sum [OF CB(1) DA(1) s(1), folded S_def]
  note M = fdifference_spec(1) [OF wide_limits(2) [OF DA(1)] CB(1) s(2), folded M_def, THEN wide_limits(4)]
    fres_difference [OF wide_limits(2) [OF DA(1)] CB(1) s(2), folded M_def]
  note x3 = fsquare_once [OF S(1)]
  note zzz' = fsquare_once [OF M(1)]
  note z3 = fmul_spec(1) [OF wide_limits(1) [OF zzz'(1)] wide_limits(1) [OF assms(2)]]
    fres_mul [OF wide_limits(1) [OF zzz'(1)] wide_limits(1) [OF assms(2)]]
  define AA where "AA = fsquare_times A 1"
  define BB where "BB = fsquare_times B 1"
  note AA = fsquare_once [OF A(1), folded AA_def]
  note BB = fsquare_once [OF B(1), folded BB_def]
  note x2 = fmul_spec(1) [OF wide_limits(1) [OF AA(1)] wide_limits(1) [OF BB(1)]]
    fres_mul [OF wide_limits(1) [OF AA(1)] wide_limits(1) [OF BB(1)]]
  define E where "E = fdifference_backwards BB AA"
  note E = fdifference_spec(1) [OF wide_limits(2) [OF BB(1)] AA(1) s(2), folded E_def, THEN wide_limits(4)]
    fres_difference [OF wide_limits(2) [OF BB(1)] AA(1) s(2), folded E_def]
  have u: "unat (121665 :: u64) \<le> 2 ^ 17" by simp
  note G = fscalar_spec(1) [OF E(1) u] fres_scalar [OF E(1) u]
  define H where "H = fsum (fscalar_product E 121665) AA"
  note H = fsum_spec(1) [OF G(1) AA(1) s(3), folded H_def, THEN wide_limits(5)] fres_sum [OF G(1) AA(1) s(3), folded H_def]
  note z2 = fmul_spec(1) [OF E(1) H(1)] fres_mul [OF E(1) H(1)]
  have e: "fmonty nq nqpq q =
      ((fmul AA BB, fmul E H), (fsquare_times S 1, fmul (fsquare_times M 1) q))"
    by (simp add: fmonty_def nq nqpq Let_def A_def B_def C_def D_def CB_def DA_def S_def M_def AA_def BB_def E_def H_def)
  show "short (fmonty nq nqpq q)"
    using x2(1) z2(1) x3(1) z3(1) by (simp add: e)
  have r: "rfc_step (fres q) (residues (nq, nqpq)) =
      ((fres AA * fres BB mod p25519, fres E * (fres AA + 121665 * fres E) mod p25519),
       ((fres DA + fres CB) ^ 2 mod p25519, fres q * (fres DA - fres CB) ^ 2 mod p25519))"
    unfolding nq nqpq residues.simps rfc_step_def prod.case Let_def E(2) AA(2) BB(2) DA(2) CB(2) A(2) B(2) C(2) D(2)
    by (simp only: mult.commute)
  have 121665: "int (unat (121665 :: u64)) = 121665" by simp
  have "fres (fmul E H) = fres E * (fres AA + 121665 * fres E) mod p25519"
    unfolding z2(2) H(2) G(2) 121665
    by (intro mod_mult_cong refl) (simp add: mod_add_left_eq mod_add_right_eq mult.commute add.commute)
  moreover have "fres (fsquare_times S 1) = (fres DA + fres CB) ^ 2 mod p25519"
    unfolding x3(2) S(2) power_mod by (simp only: add.commute)
  moreover have "fres (fmul (fsquare_times M 1) q) = fres q * (fres DA - fres CB) ^ 2 mod p25519"
    unfolding z3(2) zzz'(2) M(2) power_mod mod_mult_left_eq by (simp only: mult.commute power2_commute)
  ultimately show "residues (fmonty nq nqpq q) = rfc_step (fres q) (residues (nq, nqpq))"
    unfolding e r residues.simps x2(2) by simp
qed

subsection \<open>Swaps\<close>

lemma swap_conditional_bit: "swap_conditional f g (of_bool b) = (if b then (g, f) else (f, g))"
proof -
  have m: "- (1 :: u64) AND x = x" for x by simp
  have x: "a XOR (a XOR b) = b" "b XOR (a XOR b) = a" for a b :: u64
    by (simp_all add: xor.assoc [symmetric], simp add: xor.commute xor.left_commute)
  show ?thesis
    by (cases f; cases g; cases b) (simp_all add: swap_conditional_def Let_def x)
qed

lemma swap_points_spec:
  assumes "short s"
  shows "short (swap_points (of_bool b) s)" and "residues (swap_points (of_bool b) s) = rfc_cswap b (residues s)"
  using assms
  by (cases s rule: short.cases; simp add: swap_points_def swap_conditional_bit rfc_cswap_def)+

lemma ladder_bit_spec:
  assumes "short s" "within (2 ^ 51) q"
  shows "short (ladder_bit q (of_bool b) s)"
    and "residues (ladder_bit q (of_bool b) s) = rfc_cswap b (rfc_step (fres q) (rfc_cswap b (residues s)))"
proof -
  obtain nq nqpq where n: "swap_points (of_bool b) s = (nq, nqpq)" using prod.exhaust by blast
  note sp = swap_points_spec [OF assms(1), of b, unfolded n]
  note fm = fmonty_spec [OF sp(1) assms(2)]
  show "short (ladder_bit q (of_bool b) s)"
    and "residues (ladder_bit q (of_bool b) s) = rfc_cswap b (rfc_step (fres q) (rfc_cswap b (residues s)))"
    unfolding ladder_bit_def n prod.case using swap_points_spec [OF fm(1), of b] fm(2) sp(2) by simp_all
qed

subsection \<open>The bits of the scalar\<close>

text \<open>The ladder with a swap before and after each step, as the code has it.\<close>

fun plain_loop :: "nat \<Rightarrow> nat \<Rightarrow> int \<Rightarrow> rfc_point \<times> rfc_point \<Rightarrow> rfc_point \<times> rfc_point" where
  "plain_loop 0 k x1 s = s"
| "plain_loop (Suc t) k x1 s =
     plain_loop t k x1 (rfc_cswap (bit k t) (rfc_step x1 (rfc_cswap (bit k t) s)))"

lemma cswap_cswap: "rfc_cswap a (rfc_cswap b s) = rfc_cswap (b \<noteq> a) s"
  by (auto simp: rfc_cswap_def split: prod.splits)

lemma rfc_loop_plain: "rfc_loop t k x1 swap s = plain_loop t k x1 (rfc_cswap swap s)"
  by (induction t arbitrary: swap s) (simp_all add: cswap_cswap)

lemma bit_le_num:
  assumes "length bs = 32" "t < 256"
  shows "bit (le_num bs) t \<longleftrightarrow> bit (bs ! (t div 8)) (t mod 8)"
proof -
  have "unat (le_word bs :: 256 word) = le_num bs"
    using assms(1) by (intro unat_le_word) simp
  moreover have "bit (unat (le_word bs :: 256 word)) t = bit (le_word bs :: 256 word) t"
    by (simp add: bit_unsigned_iff)
  ultimately have "bit (le_num bs) t = bit (le_word bs :: 256 word) t" by simp
  then show ?thesis
    using assms by (simp add: bit_le_word less_mult_imp_div_less)
qed

lemma top_of_byte: "ucast (drop_bit 7 b) = (of_bool (bit b 7) :: u64)" for b :: byte
proof (rule bit_word_eqI)
  fix n assume "n < LENGTH(64)"
  show "bit (ucast (drop_bit 7 b) :: u64) n \<longleftrightarrow> bit (of_bool (bit b 7) :: u64) n"
    using bit_imp_le_length [of b "7 + n"] \<open>n < LENGTH(64)\<close>
    by (cases "n = 0") (auto simp: bit_simps bit_1_iff)
qed

lemma ladder_byte_spec:
  assumes "within (2 ^ 51) q" "length bs = 32" "i < 32" "short s" "j \<le> 8"
  shows "short (ladder_byte q j (push_bit (8 - j) (bs ! i)) s) \<and>
    plain_loop (8 * i) (le_num bs) (fres q) (residues (ladder_byte q j (push_bit (8 - j) (bs ! i)) s)) =
      plain_loop (8 * i + j) (le_num bs) (fres q) (residues s)"
  using assms(4,5)
proof (induction j arbitrary: s)
  case (Suc j)
  let ?b = "push_bit (8 - Suc j) (bs ! i)"
  have "(8 * i + j) div 8 = i" "(8 * i + j) mod 8 = j" using Suc.prems(2) by simp_all
  then have b: "bit ?b 7 = bit (le_num bs) (8 * i + j)"
    using bit_le_num [OF assms(2), of "8 * i + j"] assms(3) Suc.prems(2) by (simp add: bit_simps)
  have p: "push_bit 1 ?b = push_bit (8 - j) (bs ! i)"
  proof -
    have d: "1 + (8 - Suc j) = 8 - j" using Suc.prems(2) by simp
    show ?thesis unfolding push_bit_push_bit d ..
  qed
  let ?c = "bit (le_num bs) (8 * i + j)"
  let ?s = "ladder_bit q (of_bool ?c) s"
  note l = ladder_bit_spec [OF Suc.prems(1) assms(1), of ?c]
  have "short (ladder_byte q j (push_bit (8 - j) (bs ! i)) ?s) \<and>
      plain_loop (8 * i) (le_num bs) (fres q) (residues (ladder_byte q j (push_bit (8 - j) (bs ! i)) ?s)) =
        plain_loop (8 * i + j) (le_num bs) (fres q) (residues ?s)"
    using Suc.prems(2) by (intro Suc.IH l(1)) simp
  then show ?case
    unfolding ladder_byte.simps top_of_byte p b add_Suc_right plain_loop.simps l(2) .
qed simp

lemma cmult_loop:
  assumes "within (2 ^ 51) q" "length bs = 32" "short s" "m \<le> 32"
  shows "short (fold (\<lambda>i s. ladder_byte q 8 (bs ! (31 - i)) s) [0 ..< m] s) \<and>
    plain_loop (8 * (32 - m)) (le_num bs) (fres q)
        (residues (fold (\<lambda>i s. ladder_byte q 8 (bs ! (31 - i)) s) [0 ..< m] s)) =
      plain_loop 256 (le_num bs) (fres q) (residues s)"
  using assms(4)
proof (induction m)
  case 0
  then show ?case using assms(3) by simp
next
  case (Suc m)
  let ?s = "fold (\<lambda>i s. ladder_byte q 8 (bs ! (31 - i)) s) [0 ..< m] s"
  have IH: "short ?s" "plain_loop (8 * (32 - m)) (le_num bs) (fres q) (residues ?s) =
      plain_loop 256 (le_num bs) (fres q) (residues s)"
    using Suc by simp_all
  have e: "8 * (32 - Suc m) + 8 = 8 * (32 - m)" "32 - Suc m = 31 - m" using Suc.prems by simp_all
  have "31 - m < 32" by simp
  from ladder_byte_spec [OF assms(1,2) this IH(1), of 8] IH(2) show ?case
    unfolding e(2) e(1) [symmetric] by (simp add: e)
qed

subsection \<open>Inversion\<close>

definition power_of :: "int \<Rightarrow> nat \<Rightarrow> felem \<Rightarrow> bool" where
  "power_of v e f \<longleftrightarrow> within (2 ^ 51) f \<and> fres f = v ^ e mod p25519"

lemma power_mul:
  assumes "power_of v a f" "power_of v b g"
  shows "power_of v (a + b) (fmul f g)"
  using assms fmul_spec(1) [OF wide_limits(1) wide_limits(1), of f g]
    fres_mul [OF wide_limits(1) wide_limits(1), of f g]
  by (simp add: power_of_def power_add mod_mult_eq)

lemma power_square:
  assumes "power_of v a f" "n \<noteq> 0"
  shows "power_of v (a * 2 ^ unat n) (fsquare_times f n)"
  using assms fsquare_times_spec [of f n]
  by (simp add: power_of_def power_mult power_mod)

lemma crecip_spec:
  assumes "power_of v 1 z"
  shows "power_of v (2 ^ 255 - 21) (crecip z)"
proof -
  note sq = power_square [where n = 1] power_square [where n = 2] power_square [where n = 5]
  have s1: "power_of v a f \<Longrightarrow> b = a * 2 ^ unat n \<Longrightarrow> n \<noteq> 0 \<Longrightarrow> power_of v b (fsquare_times f n)" for a b f n
    using power_square by blast
  have m: "power_of v a f \<Longrightarrow> power_of v b g \<Longrightarrow> c = a + b \<Longrightarrow> power_of v c (fmul f g)" for a b c f g
    using power_mul by blast
  define a2 where "a2 = fsquare_times z 1"
  define a8 where "a8 = fsquare_times a2 2"
  define a9 where "a9 = fmul a8 z"
  define a11 where "a11 = fmul a9 a2"
  define a22 where "a22 = fsquare_times a11 1"
  define b5 where "b5 = fmul a22 a9"
  define b10 where "b10 = fmul (fsquare_times b5 5) b5"
  define b20 where "b20 = fmul (fsquare_times b10 10) b10"
  define b40 where "b40 = fmul (fsquare_times b20 20) b20"
  define b50 where "b50 = fmul (fsquare_times b40 10) b10"
  define b100 where "b100 = fmul (fsquare_times b50 50) b50"
  define b200 where "b200 = fmul (fsquare_times b100 100) b100"
  define b250 where "b250 = fmul (fsquare_times b200 50) b50"
  have 2: "power_of v 2 a2" unfolding a2_def by (rule s1 [OF assms]) simp_all
  have 8: "power_of v 8 a8" unfolding a8_def by (rule s1 [OF 2]) simp_all
  have 9: "power_of v 9 a9" unfolding a9_def by (rule m [OF 8 assms]) simp
  have 11: "power_of v 11 a11" unfolding a11_def by (rule m [OF 9 2]) simp
  have 22: "power_of v 22 a22" unfolding a22_def by (rule s1 [OF 11]) simp_all
  have p5: "power_of v (2 ^ 5 - 1) b5" unfolding b5_def by (rule m [OF 22 9]) simp
  have p10: "power_of v (2 ^ 10 - 1) b10" unfolding b10_def by (rule m [OF s1 [OF p5 refl] p5]) simp_all
  have p20: "power_of v (2 ^ 20 - 1) b20" unfolding b20_def by (rule m [OF s1 [OF p10 refl] p10]) simp_all
  have p40: "power_of v (2 ^ 40 - 1) b40" unfolding b40_def by (rule m [OF s1 [OF p20 refl] p20]) simp_all
  have p50: "power_of v (2 ^ 50 - 1) b50" unfolding b50_def by (rule m [OF s1 [OF p40 refl] p10]) simp_all
  have p100: "power_of v (2 ^ 100 - 1) b100" unfolding b100_def by (rule m [OF s1 [OF p50 refl] p50]) simp_all
  have p200: "power_of v (2 ^ 200 - 1) b200" unfolding b200_def by (rule m [OF s1 [OF p100 refl] p100]) simp_all
  have p250: "power_of v (2 ^ 250 - 1) b250" unfolding b250_def by (rule m [OF s1 [OF p200 refl] p50]) simp_all
  have e: "crecip z = fmul (fsquare_times b250 5) a11"
    by (simp only: crecip_def Let_def a2_def a8_def a9_def a11_def a22_def b5_def b10_def b20_def b40_def b50_def
        b100_def b200_def b250_def)
  show ?thesis unfolding e by (rule m [OF s1 [OF p250 refl] 11]) simp_all
qed

subsection \<open>The reference and the scalar bits\<close>

text \<open>A step only depends on the residues of its arguments.\<close>

lemma cong_rules:
  fixes p :: int
  shows cong_mod: "a mod p = b mod p \<Longrightarrow> a mod p mod p = b mod p"
    and cong_power: "a mod p = b mod p \<Longrightarrow> a ^ n mod p = b ^ n mod p"
  by simp (metis power_mod)

lemmas cong_intros = cong_mod cong_power mod_add_cong mod_diff_cong mod_mult_cong

definition step_poly :: "int \<Rightarrow> rfc_point \<times> rfc_point \<Rightarrow> rfc_point \<times> rfc_point" where
  "step_poly x1 s =
     (case s of ((x2, z2), (x3, z3)) \<Rightarrow>
       (((x2 + z2) ^ 2 * (x2 - z2) ^ 2,
         ((x2 + z2) ^ 2 - (x2 - z2) ^ 2) * ((x2 + z2) ^ 2 + 121665 * ((x2 + z2) ^ 2 - (x2 - z2) ^ 2))),
        (((x3 - z3) * (x2 + z2) + (x3 + z3) * (x2 - z2)) ^ 2,
         x1 * ((x3 - z3) * (x2 + z2) - (x3 + z3) * (x2 - z2)) ^ 2)))"

fun pmod :: "rfc_point \<times> rfc_point \<Rightarrow> rfc_point \<times> rfc_point" where
  "pmod ((x2, z2), (x3, z3)) =
     ((x2 mod p25519, z2 mod p25519), (x3 mod p25519, z3 mod p25519))"

lemma rfc_step_poly: "rfc_step x1 s = pmod (step_poly x1 s)"
proof -
  obtain x2 z2 x3 z3 where s: "s = ((x2, z2), (x3, z3))" by (cases s rule: pmod.cases)
  show ?thesis
    unfolding s rfc_step_def step_poly_def Let_def prod.case pmod.simps prod.inject
    by (intro conjI) (intro cong_intros refl)+
qed

lemma step_poly_cong:
  assumes "pmod s = pmod s'" "x1 mod p25519 = x1' mod p25519"
  shows "pmod (step_poly x1 s) = pmod (step_poly x1' s')"
proof -
  obtain x2 z2 x3 z3 where s: "s = ((x2, z2), (x3, z3))" by (cases s rule: pmod.cases)
  obtain x2' z2' x3' z3' where s': "s' = ((x2', z2'), (x3', z3'))" by (cases s' rule: pmod.cases)
  have e: "x2 mod p25519 = x2' mod p25519" "z2 mod p25519 = z2' mod p25519" "x3 mod p25519 = x3' mod p25519"
    "z3 mod p25519 = z3' mod p25519"
    using assms(1) by (simp_all add: s s')
  show ?thesis
    unfolding s s' step_poly_def prod.case pmod.simps prod.inject
    by (intro conjI) (intro cong_intros refl e assms(2))+
qed

lemma cswap_pmod: "rfc_cswap b (pmod s) = pmod (rfc_cswap b s)"
  by (cases s rule: pmod.cases) (simp add: rfc_cswap_def)

lemma pmod_pmod [simp]: "pmod (pmod s) = pmod s"
  by (cases s rule: pmod.cases) simp

lemma plain_loop_mod:
  "0 < t \<Longrightarrow> plain_loop t k (x1 mod p25519) (pmod s) = plain_loop t k x1 s"
proof (induction t arbitrary: s)
  case (Suc t)
  have "rfc_step (x1 mod p25519) (rfc_cswap b (pmod s)) = rfc_step x1 (rfc_cswap b s)" for b
    unfolding rfc_step_poly cswap_pmod by (intro step_poly_cong) simp_all
  then have e: "plain_loop (Suc t) k (x1 mod p25519) (pmod s) =
      plain_loop t k (x1 mod p25519) (rfc_cswap (bit k t) (rfc_step x1 (rfc_cswap (bit k t) s)))"
    by simp
  show ?case
  proof (cases "t = 0")
    case True
    then show ?thesis using e by simp
  next
    case False
    have m: "rfc_cswap (bit k t) (rfc_step x1 (rfc_cswap (bit k t) s)) =
        pmod (rfc_cswap (bit k t) (rfc_step x1 (rfc_cswap (bit k t) s)))"
      unfolding rfc_step_poly cswap_pmod pmod_pmod ..
    show ?thesis
      unfolding e using Suc.IH [of "rfc_cswap (bit k t) (rfc_step x1 (rfc_cswap (bit k t) s))"] False
      by (simp add: m [symmetric])
  qed
qed simp

lemma cmult_spec:
  assumes "within (2 ^ 51) q" "length bs = 32" "cmult bs q = (x, z)" "fres q = u mod p25519"
  shows "within (2 ^ 51) x" "within (2 ^ 51) z" "rfc_ladder 256 (le_num bs) u = (fres x, fres z)"
proof -
  let ?init = "(((1, 0, 0, 0, 0), (0, 0, 0, 0, 0)), (q, (1, 0, 0, 0, 0))) :: ladder"
  let ?s = "fold (\<lambda>i s. ladder_byte q 8 (bs ! (31 - i)) s) [0 ..< 32] ?init"
  have s0: "short ?init" using assms(1) by simp
  have r0: "residues ?init = pmod ((1, 0), (u, 1))" using assms(4) by (simp add: fres_def p25519_def)
  have "short ?s \<and> plain_loop (8 * (32 - 32)) (le_num bs) (fres q) (residues ?s) =
      plain_loop 256 (le_num bs) (fres q) (residues ?init)"
    by (rule cmult_loop [OF assms(1,2) s0]) simp
  then have s: "short ?s" "residues ?s = plain_loop 256 (le_num bs) u ((1, 0), (u, 1))"
    unfolding r0 assms(4) plain_loop_mod [of 256, simplified]
    by (simp_all only: diff_self_eq_0 mult_0_right plain_loop.simps)
  obtain nqpq where n: "?s = ((x, z), nqpq)"
    using assms(3) by (cases ?s) (simp add: cmult_def)
  show "within (2 ^ 51) x" "within (2 ^ 51) z" using s(1) by (cases nqpq; simp add: n)+
  have "rfc_cswap False ((1, 0), (u, 1)) = ((1, 0), (u, 1))" by (simp add: rfc_cswap_def)
  then have "rfc_ladder 256 (le_num bs) u = fst (residues ?s)"
    unfolding rfc_ladder_def rfc_loop_plain s(2) by simp
  also have "\<dots> = (fres x, fres z)" unfolding n by (cases nqpq) simp
  finally show "rfc_ladder 256 (le_num bs) u = (fres x, fres z)" .
qed

subsection \<open>The exchange function\<close>

lemma mod_split: "a < m \<Longrightarrow> (a + m * b) mod (m * n) = a + m * (b mod n)" for a b m n :: nat
  by (simp add: mod_mult2_eq)

lemma decodeU: "length u = 32 \<Longrightarrow> decodeUCoordinate u = le_num u mod 2 ^ 255"
proof -
  assume l: "length u = 32"
  then have d: "drop 31 u = [u ! 31]" "drop (Suc 31) u = []"
    by (simp_all add: Cons_nth_drop_Suc [symmetric])
  have u: "u = take 31 u @ [u ! 31]" using d(1) by (metis append_take_drop_id)
  have "u[31 := x] = take 31 u @ [x]" for x
    using l d(2) upd_conv_take_nth_drop [of 31 u x] by simp
  moreover have "unat (u ! 31 AND 0x7F) = unat (u ! 31) mod 2 ^ 7"
  proof -
    have "u ! 31 AND 0x7F = take_bit 7 (u ! 31)"
      by (simp add: take_bit_eq_mask mask_eq_exp_minus_1)
    then show ?thesis by (simp only: unsigned_take_bit_eq) (simp add: take_bit_eq_mod)
  qed
  ultimately have a: "decodeUCoordinate u = le_num (take 31 u) + 256 ^ 31 * (unat (u ! 31) mod 2 ^ 7)"
    using l by (simp add: decodeUCoordinate_def decodeLittleEndian_def le_num_append)
  have b: "le_num u = le_num (take 31 u) + 256 ^ 31 * unat (u ! 31)"
    using l by (subst u) (simp add: le_num_append)
  have "le_num (take 31 u) < 256 ^ 31" using le_num_split(2) [where n = 31] .
  then have "(le_num (take 31 u) + 256 ^ 31 * unat (u ! 31)) mod (256 ^ 31 * 2 ^ 7) =
      le_num (take 31 u) + 256 ^ 31 * (unat (u ! 31) mod 2 ^ 7)"
    by (rule mod_split)
  moreover have "(256 :: nat) ^ 31 * 2 ^ 7 = 2 ^ 255" by simp
  ultimately show ?thesis unfolding a b by simp
qed

lemma decodeScalar:
  assumes "length sk = 32"
  shows "le_num ((take 32 sk)[0 := sk ! 0 AND 248, 31 := (sk ! 31 AND 127) OR 64]) = decodeScalar25519 sk"
  using assms by (simp add: decodeScalar25519_def decodeLittleEndian_def)

lemma clamped:
  assumes "length sk = 32"
  shows "(let e = take 32 sk; e = e[0 := e ! 0 AND 248]; e = e[31 := e ! 31 AND 127]; e = e[31 := e ! 31 OR 64] in e)
    = sk[0 := sk ! 0 AND 248, 31 := (sk ! 31 AND 127) OR 64]"
  using assms by (simp add: Let_def)

lemma donna_eq:
  assumes "length u = 32" "length sk = 32"
  shows "donna u sk = rfc_x25519 256 sk u"
proof -
  let ?e = "sk[0 := sk ! 0 AND 248, 31 := (sk ! 31 AND 127) OR 64]"
  obtain x z where c: "cmult ?e (fexpand u) = (x, z)" by (cases "cmult ?e (fexpand u)")
  have e: "length ?e = 32" "le_num ?e = decodeScalar25519 sk"
    using assms(2) by (simp_all add: decodeScalar25519_def decodeLittleEndian_def)
  have q: "fres (fexpand u) = int (decodeUCoordinate u) mod p25519"
    unfolding fres_def fexpand_spec(2) decodeU [OF assms(1)] ..
  note m = cmult_spec [OF fexpand_spec(1) e(1) c q, unfolded e(2)]
  have "power_of (fres z) 1 z" using m(2) by (simp add: power_of_def)
  from crecip_spec [OF this] have r: "within (2 ^ 51) (crecip z)" "fres (crecip z) = fres z ^ (2 ^ 255 - 21) mod p25519"
    by (simp_all add: power_of_def)
  let ?o = "fmul x (crecip z)"
  have o': "within (2 ^ 51) ?o" "fres ?o = fres x * fres z ^ (2 ^ 255 - 21) mod p25519"
    using fmul_spec(1) [OF wide_limits(1) [OF m(1)] wide_limits(1) [OF r(1)]]
      fres_mul [OF wide_limits(1) [OF m(1)] wide_limits(1) [OF r(1)]] r(2)
    by (simp_all add: mod_mult_right_eq)
  have d: "donna u sk = fcontract ?o"
    using clamped [OF assms(2)] c unfolding donna_def Let_def by simp
  have "int (fval ?o mod (2 ^ 255 - 19)) = fres x * fres z ^ (2 ^ 255 - 21) mod p25519"
    unfolding zmod_int p25519_nat fres_def [symmetric] o'(2) ..
  then have "fval ?o mod (2 ^ 255 - 19) = nat (fres x * fres z ^ (2 ^ 255 - 21) mod p25519)"
    by (metis nat_int)
  moreover have "nat p25519 - 2 = 2 ^ 255 - 21" by (simp add: p25519_def)
  ultimately show ?thesis
    unfolding d fcontract_spec [OF o'(1)] rfc_x25519_def m(3) prod.case encodeUCoordinate_def by simp
qed

subsection \<open>The extra step of the code\<close>

text \<open>The points of one state are multiples of the projective coordinates of the other.\<close>

definition scaled :: "rfc_point \<times> rfc_point \<Rightarrow> rfc_point \<times> rfc_point \<Rightarrow> bool" where
  "scaled s s' \<longleftrightarrow> (\<exists>l m. pmod s =
     pmod ((l * fst (fst s'), l * snd (fst s')), (m * fst (snd s'), m * snd (snd s'))))"

lemma scaled_swap: "scaled s s' \<Longrightarrow> scaled (rfc_cswap b s) (rfc_cswap b s')"
  by (cases s rule: pmod.cases; cases s' rule: pmod.cases) (auto simp: scaled_def rfc_cswap_def)

lemma step_poly_scaled:
  "step_poly x1 ((l * x2, l * z2), (m * x3, m * z3)) =
     (case step_poly x1 ((x2, z2), (x3, z3)) of ((a, b), (c, d)) \<Rightarrow>
        ((l ^ 4 * a, l ^ 4 * b), (l ^ 2 * m ^ 2 * c, l ^ 2 * m ^ 2 * d)))"
  by (simp add: step_poly_def algebra_simps power_numeral_reduce)

lemma scaled_step:
  assumes "scaled s s'"
  shows "scaled (rfc_step x1 s) (rfc_step x1 s')"
proof -
  obtain x2 z2 x3 z3 where s': "s' = ((x2, z2), (x3, z3))" by (cases s' rule: pmod.cases)
  from assms obtain l m where lm: "pmod s = pmod ((l * x2, l * z2), (m * x3, m * z3))"
    unfolding scaled_def s' by auto
  obtain a b c d where p: "step_poly x1 s' = ((a, b), (c, d))" by (cases "step_poly x1 s'" rule: pmod.cases)
  have "step_poly x1 ((l * x2, l * z2), (m * x3, m * z3)) =
      ((l ^ 4 * a, l ^ 4 * b), (l ^ 2 * m ^ 2 * c, l ^ 2 * m ^ 2 * d))"
    using p step_poly_scaled [of x1 l x2 z2 m x3 z3] by (simp add: s')
  then have "pmod (rfc_step x1 s) = pmod ((l ^ 4 * a, l ^ 4 * b), (l ^ 2 * m ^ 2 * c, l ^ 2 * m ^ 2 * d))"
    using step_poly_cong [OF lm refl, of x1] unfolding rfc_step_poly by simp
  then show ?thesis
    unfolding scaled_def rfc_step_poly [of x1 s'] p pmod.simps fst_conv snd_conv mod_mult_right_eq by blast
qed

lemma scaled_loop: "scaled s s' \<Longrightarrow> scaled (plain_loop t k x1 s) (plain_loop t k x1 s')"
  by (induction t arbitrary: s s') (simp_all add: scaled_swap scaled_step)

text \<open>When the bit above the 255 of the RFC is clear, its extra step leads to the same projective point.\<close>

lemma top_bit_same_point:
  assumes "\<not> bit k 255" "rfc_ladder 256 k u = (x, z)" "rfc_ladder 255 k u = (x', z')"
  shows "x * z' mod p25519 = x' * z mod p25519"
proof -
  let ?s = "((1, 0), (u, 1)) :: rfc_point \<times> rfc_point"
  have c: "rfc_cswap False s = s" for s by (cases s) (simp add: rfc_cswap_def)
  have "step_poly u ?s = ((1, 0), (4 * u * u, 4 * u * 1))"
    by (simp add: step_poly_def power2_eq_square algebra_simps)
  then have "pmod (rfc_step u ?s) = pmod ((1 * 1, 1 * 0), (4 * u * u, 4 * u * 1))"
    unfolding rfc_step_poly pmod_pmod by simp
  then have "scaled (rfc_step u ?s) ?s"
    unfolding scaled_def fst_conv snd_conv by blast
  from scaled_loop [OF this, of 255 k u]
  have "scaled (plain_loop 256 k u ?s) (plain_loop 255 k u ?s)"
    using assms(1) plain_loop.simps(2) [of 255 k u ?s] by (simp add: c)
  then obtain l m where "pmod (plain_loop 256 k u ?s) =
      pmod ((l * fst (fst (plain_loop 255 k u ?s)), l * snd (fst (plain_loop 255 k u ?s))),
        (m * fst (snd (plain_loop 255 k u ?s)), m * snd (snd (plain_loop 255 k u ?s))))"
    unfolding scaled_def by blast
  moreover have "fst (plain_loop 256 k u ?s) = (x, z)" "fst (plain_loop 255 k u ?s) = (x', z')"
    using assms(2,3) by (simp_all add: rfc_ladder_def rfc_loop_plain c)
  ultimately have e: "x mod p25519 = l * x' mod p25519" "z mod p25519 = l * z' mod p25519"
    by (cases "plain_loop 256 k u ?s" rule: pmod.cases; cases "plain_loop 255 k u ?s" rule: pmod.cases; simp)+
  have "x * z' mod p25519 = l * x' * z' mod p25519" by (rule mod_mult_cong [OF e(1) refl])
  also have "\<dots> = x' * (l * z') mod p25519" by (simp add: ac_simps)
  also have "\<dots> = x' * z mod p25519" by (rule mod_mult_cong [OF refl e(2) [symmetric]])
  finally show ?thesis .
qed

subsection \<open>Properties\<close>

text \<open>C1. The key exchange is X25519 of RFC 7748: for every 32-byte coordinate and 32-byte secret the limb
arithmetic overflows nowhere, and \<open>donna\<close> yields the 32 bytes of the least representative of the coordinate
that the ladder of the standard computes, run over all 256 bits of the clamped secret.\<close>

theorem donna_is_x25519:
  assumes "length u = 32" "length sk = 32"
  shows "donna u sk = rfc_x25519 256 sk u"
  by (rule donna_eq [OF assms])

theorem donna_is_x25519_witness:
  "donna (9 # replicate 31 0) (replicate 32 7) = rfc_x25519 256 (replicate 32 7) (9 # replicate 31 0)"
  using donna_is_x25519 [of "9 # replicate 31 0" "replicate 32 7"] by simp

text \<open>Limbs just within the bound that the comment of \<open>fmul\<close> gives, 2^55.\<close>

definition top_limbs :: felem where
  "top_limbs = (0, 2 ^ 55 - 1, 0, 0, 2 ^ 55 - 1)"

lemma top_limbs_square: "fmul top_limbs top_limbs = (92435, 2251799813684032, 1536, 2251799813685235, 2251799813684895)"
  unfolding top_limbs_def
  by (simp add: fmul_def Let_def mul128_def, simp add: fcarry_def Let_def lo51_def hi51_def M51_def)

text \<open>The documented precondition of the product, limbs below 2^55, is too weak: at this operand, all of whose
limbs are below that bound, the result is not the square in the field, since \<open>fcarry\<close> cuts its carries to 64 bits.\<close>

lemma top_limbs_wrong:
  "within (2 ^ 55 - 1) top_limbs" "fres (fmul top_limbs top_limbs) \<noteq> fres top_limbs * fres top_limbs mod p25519"
  unfolding top_limbs_square by (simp_all add: fres_def top_limbs_def p25519_def)

text \<open>C2. The product of the field and its bounds: for operands whose limbs are at most 9 * 2^51, which is what the
ladder keeps to, \<open>fmul\<close> gives limbs of at most 2^51 that represent the product of the operands modulo 2^255 - 19.
The bound that the comment of \<open>fmul\<close> documents, limbs below 2^55, does not give this: there are operands within it
whose product is wrong.\<close>

theorem fmul_bounds:
  "(within (9 * 2 ^ 51) f \<and> within (9 * 2 ^ 51) g \<longrightarrow>
      within (2 ^ 51) (fmul f g) \<and> fres (fmul f g) = fres f * fres g mod p25519) \<and>
   (\<exists>h. within (2 ^ 55 - 1) h \<and> fres (fmul h h) \<noteq> fres h * fres h mod p25519)"
  using fmul_spec(1) fres_mul top_limbs_wrong by blast

theorem fmul_bounds_witness:
  "fres (fmul (2 ^ 51 + 5, 1, 0, 0, 2 ^ 53) (7, 0, 0, 2 ^ 54, 3)) =
     fres (2 ^ 51 + 5, 1, 0, 0, 2 ^ 53) * fres (7, 0, 0, 2 ^ 54, 3) mod p25519"
proof -
  have "within (9 * 2 ^ 51) (2 ^ 51 + 5, 1, 0, 0, 2 ^ 53)" "within (9 * 2 ^ 51) (7, 0, 0, 2 ^ 54, 3)"
    by simp_all
  then show ?thesis
    using fmul_bounds [of "(2 ^ 51 + 5, 1, 0, 0, 2 ^ 53)" "(7, 0, 0, 2 ^ 54, 3)"] by blast
qed

end
