(* ===== verification/Spec2Isabelle.thy ===== *)
theory Spec2Isabelle
  imports Hex Growth Removal Moves ChunkLinks Hmac Blake2 Aead FutureLife
    HttpMessages HttpTermination HttpHeaders HttpPipeline TimersWakeup CurveLadder
begin

text \<open>
  A verification library for dci, a C++ runtime for distributed applications.

  The program. dci is layered: \<open>source/core\<close> holds the libraries (\<open>bytes\<close>: shared byte
  containers; \<open>utils\<close>: encodings and text; \<open>crypto\<close>: hashes, ciphers, message authentication;
  \<open>mm\<close>, \<open>cmt\<close>, \<open>poll\<close>: memory, coroutines, events; \<open>idl\<close>, \<open>stiac\<close>, \<open>sbs\<close>: interfaces,
  their serialization and signals; \<open>aup\<close>, \<open>host\<close>: updates and the process), \<open>source/module\<close>
  what is built on them (\<open>net\<close>, \<open>ppn\<close>, \<open>stiac\<close>, \<open>www\<close>). Everything a node sends or stores is a
  \<open>Bytes\<close> value, most identifiers are hashes in hexadecimal text, and channels are protected by
  the ciphers. The library models these foundations, from the source, and proves what their
  users rely on; and, as one of these users, the HTTP module; and the timers of \<open>poll\<close>.

  Theories and sources.

  \<^bold>\<open>Prelude\<close>: words for \<open>byte\<close>, \<open>uint32\<close>, \<open>uint64\<close>; \<open>put_at\<close>, the effect of \<open>memcpy\<close>;
  32-bit counters that wrap; facts on lists.

  \<^bold>\<open>Hex\<close> (\<open>utils/src/b2h.cpp\<close>, \<open>h2b.cpp\<close>): conversion between bytes and hexadecimal digits
  in three orders.

  \<^bold>\<open>Chunks\<close> (\<open>bytes/chunk.hpp\<close>, \<open>buffer.cpp\<close>), \<^bold>\<open>Cursors\<close> (\<open>user.cpp\<close>, \<open>impl/cursor.cpp\<close>),
  \<^bold>\<open>Promotors\<close> (\<open>performing/\<close>), \<^bold>\<open>Readings\<close>, \<^bold>\<open>Alters\<close>, \<^bold>\<open>Growth\<close>, \<^bold>\<open>Removal\<close>, \<^bold>\<open>Moves\<close>
  (\<open>impl/alter.cpp\<close>): a container is a list of chunks of at most \<open>bufferSize\<close> bytes with begin
  and end positions and the total size; a cursor is an index into the chunks and a position;
  loops over one or two sources are the promotor loops of \<open>execute.hpp\<close>. The contents of a
  container (\<open>contents\<close>) is the abstract value against which reading, comparing, writing, growing,
  removing, inserting and moving are specified. \<^bold>\<open>ChunkLinks\<close> keeps the doubly linked nodes of
  the insertion explicit, where the other theories use lists.

  \<^bold>\<open>Endian\<close> (\<open>utils/endian.ipp\<close>): byte order of words, loads and stores through casted pointers,
  on a little-endian host.

  \<^bold>\<open>BlockHash\<close>, \<^bold>\<open>Sha2\<close> (\<open>crypto/impl/sha2_256.cpp\<close>, \<open>sha2_512.cpp\<close>): the buffering, proved
  once in the locale \<open>block_transform\<close> for every block transformation, and the two
  transformations, whose circular message schedule is proved to be that of FIPS 180-4.
  \<^bold>\<open>Hmac\<close> (\<open>hmac.cpp\<close>): the construction over the virtual interface of a hash, proved in the
  locale \<open>hash_object\<close> and interpreted on both hashes.

  \<^bold>\<open>Blake2\<close> (\<open>blake2b.cpp\<close>, \<open>blake2s.cpp\<close>): the two hashes of RFC 7693, proved once in the
  locale \<open>blake2_params\<close> and interpreted on both parameter sets.

  \<^bold>\<open>ChaCha\<close> (\<open>chaCha.cpp\<close>), \<^bold>\<open>Poly1305\<close>, \<^bold>\<open>PolyTag\<close> (\<open>poly1305.cpp\<close>), \<^bold>\<open>Aead\<close>
  (\<open>chaCha20Poly1305.cpp\<close>): the stream cipher with its eight-block buffer and seek, the
  authenticator on limbs of 44, 44 and 42 bits, and their combination, against RFC 8439.

  \<^bold>\<open>WideWord\<close>, \<^bold>\<open>Curve25519\<close>, \<^bold>\<open>CurveField\<close>, \<^bold>\<open>CurveBytes\<close>, \<^bold>\<open>CurveLadder\<close> (\<open>impl/curve25519.cpp\<close>):
  the key agreement on limbs of 51 bits with 128-bit products: the operations as the code has them, what each
  does to the number its limbs stand for and how large the limbs stay, expansion and contraction of the bytes,
  and the ladder against that of RFC 7748 on integers modulo the prime.

  \<^bold>\<open>Futures\<close>, \<^bold>\<open>FutureLife\<close> (\<open>cmt/details/future/state.hpp\<close>, \<open>statePtr.hpp\<close>, \<open>promise.hpp\<close>,
  \<open>future.hpp\<close>, \<open>sbs/src/impl/box.cpp\<close>, \<open>owner.cpp\<close>): the state shared by promises and futures.
  Its operations are reentrant, since a continuation and the destructor of what it captured run
  any other operation, so the calls of the C++ stack that are still to be finished are frames of
  a machine; one step finishes the innermost. Handles are named variables that are null or point to the state,
  and a release decrements its counter before it makes its handle null. The code of continuations is named,
  so that it may subscribe itself again; runs are sequences of any number of steps. A flag records whether the
  program has misused a handle: used one that is being released, let go of the last one
  while a call on one is in progress, or moved from a null future. The invariants are in FutureLife, for programs without
  misuse, with examples of what misuse does.

  \<^bold>\<open>HttpEnums\<close> (\<open>www/idl\<close>, \<open>www/aux_/enumSupport-gen.cpp\<close>), \<^bold>\<open>HttpSource\<close>
  (\<open>www/src/http/inputSlicer/sourceAdapter.cpp\<close>, \<open>accumuleUntil.ipp\<close>), \<^bold>\<open>HttpSlicer\<close>
  (\<open>http/inputSlicer.ipp\<close>, \<open>state.hpp\<close>, \<open>state.cpp\<close>): the parser of HTTP messages, a state
  machine whose processors take text from a container in segments; its loop \<open>process\<close> is a partial
  function, since it need not return. \<^bold>\<open>HttpSegments\<close>: independence of the segments and bounds;
  \<^bold>\<open>HttpBody\<close>: chunked bodies against an automaton; \<^bold>\<open>HttpLength\<close>, \<^bold>\<open>HttpTermination\<close>:
  bodies of a given length and when \<open>process\<close> returns; \<^bold>\<open>HttpHeaders\<close>: framing and continued values.
  \<^bold>\<open>HttpOutput\<close> (\<open>http/outputBase.ipp\<close>, \<open>client/request.cpp\<close>, \<open>server/response.cpp\<close>): what an
  outgoing message writes; \<^bold>\<open>HttpMessages\<close>: that the slicer reads it back; \<^bold>\<open>HttpPlexus\<close>,
  \<^bold>\<open>HttpPipeline\<close> (\<open>io/plexus.ipp\<close>, \<open>io/outputBase.ipp\<close>): the queue of the outputs of a
  connection, against a specification that knows only what was written to each message.

  \<^bold>\<open>Clocking\<close> (\<open>poll/src/impl/clocking/bucket.cpp\<close>, \<open>clocking.cpp\<close>): the clock of the poll service,
  which keeps a started timer in the bucket numbered by the highest bit in which its point differs
  from the present; \<^bold>\<open>ClockingWheel\<close>: lists, pointers and counters agree and every timer is in its
  bucket; \<^bold>\<open>ClockingRoll\<close>: moving the present on; \<^bold>\<open>ClockingSpec\<close>: the clock against a table of alarms,
  through the locale \<open>alarm_queue\<close>. \<^bold>\<open>Timers\<close> (\<open>impl/timer.cpp\<close>): timers, their ticks, the handler of
  ready timers, sessions of the service; \<^bold>\<open>TimersWakeup\<close>: when a run of that handler is asked for.

  What the lemmas show. For containers: an invariant (\<open>chunks_ok\<close>, \<open>bytes_ok\<close>, \<open>cursor_ok\<close>,
  \<open>alter_ok\<close>) and the effect of each operation on the contents, the position and the size. For
  hashes and ciphers: an abstraction relation between an object and the message it has taken in
  (\<open>hs_holds\<close>, \<open>b2_holds\<close>, \<open>poly_holds\<close>, \<open>stands_at\<close>, \<open>aead_holds\<close>), kept by every call whatever the
  pieces, and the result of finishing equal to the reference. For HTTP: an invariant of the slicer
  (\<open>slicer_ok\<close>), what has been read for any cutting of the input, and a simulation (\<open>simulates\<close>) of
  the queue of outputs. For timers: an invariant (\<open>wheel_ok\<close>, \<open>clock_ok\<close>, \<open>timers_ok\<close>) kept by
  every operation, and the alarms that are waiting and ready as the abstract value. Where the code departs from what
  it documents, the property states what it does.

  Bounds. Sizes of containers are 32-bit counters kept as naturals below 2^32, with the bound as
  a hypothesis where the code relies on it. No loop needs fuel: all are structural or end by a
  measure; the machine of the promise state is
  run for a number of steps, and ends when no continuation subscribes itself again, however indirectly; \<open>process\<close> of the slicer is shown to return except for one kind
  of message, for which it is shown not to; the loop of the
  clock ends by the distance to the time it moves to, and the handler of ready timers is shown to end
  or not. Points of timers stay below 2^63 because clock readings and intervals are below 2^62. Bit counts of hashes are 64-bit words that wrap, as in the code. The limbs
  of Curve25519 stay within \<open>9 * 2^51\<close> over the 256 steps of the ladder, for which no product or sum overflows.

  Not modelled. Reference counts of shared buffers and the list of cursors of a container; the
  operating system (files, sockets, events, entropy), coroutine switching in assembly and waiting fibers,
  chains of futures and \<open>continueAs\<close>, generated
  code and templates without run-time behaviour; BLAKE3 and ed25519; of \<open>www\<close> the
  compression libraries, TLS, the client's side of a connection and the agent; the protocols of
  \<open>stiac\<close> and \<open>ppn\<close>. \<open>PROJECT.json\<close> lists each part.
\<close>

end
